(* ===== verification/Prelude.thy ===== *)
theory Prelude
  imports Complex_Main "HOL-Library.Word"
begin

text \<open>
  Shared vocabulary of the development.

  The simulator is built with its assertions enabled (the \<open>opt\<close> build), so a failing
  \<open>assert\<close> or \<open>assert_msg\<close>, a call of \<open>panic\<close>, and an access outside an
  allocated array or through a null pointer are observable ends of the program: they are the values \<open>Inl\<close> of an
  error.  \<open>OutOfFuel\<close> is the model's own error, for recursion bounded by a counter.

  \<open>rbind\<close> sequences fallible steps, \<open>check\<close> is \<open>assert\<close>, and \<open>aget\<close> and
  \<open>aput\<close> read and write an array cell with the bound the allocation gives.
  The collection \<open>res_simps\<close> carries the inversion rules of these combinators.
\<close>

unbundle bit_operations_syntax

type_synonym u32 = "32 word"
type_synonym u64 = "64 word"

datatype err = AssertFailed | Panicked | OutOfBounds | NullDeref | OutOfFuel

type_synonym 'a res = "err + 'a"

named_theorems res_simps \<open>inversion rules of the error combinators\<close>

definition rbind :: "'a res \<Rightarrow> ('a \<Rightarrow> 'b res) \<Rightarrow> 'b res" where
  "rbind m f = (case m of Inl e \<Rightarrow> Inl e | Inr x \<Rightarrow> f x)"

definition check :: "bool \<Rightarrow> err \<Rightarrow> 'a res \<Rightarrow> 'a res" where
  "check b e k = (if b then k else Inl e)"

definition aget :: "'a list \<Rightarrow> nat \<Rightarrow> 'a res" where
  "aget xs i = (if i < length xs then Inr (xs ! i) else Inl OutOfBounds)"

definition aput :: "'a list \<Rightarrow> nat \<Rightarrow> 'a \<Rightarrow> 'a list res" where
  "aput xs i x = (if i < length xs then Inr (xs[i := x]) else Inl OutOfBounds)"

definition deref :: "'a option \<Rightarrow> 'a res" where
  "deref p = (case p of None \<Rightarrow> Inl NullDeref | Some x \<Rightarrow> Inr x)"

lemma deref_Some [simp]: "deref (Some x) = Inr x"
  by (simp add: deref_def)

lemma deref_Inr_iff [res_simps]: "deref p = Inr x \<longleftrightarrow> p = Some x"
  by (cases p) (auto simp: deref_def)

lemma rbind_simps [simp]: "rbind (Inr x) f = f x" "rbind (Inl e) f = Inl e"
  by (simp_all add: rbind_def)

lemma check_simps [simp]: "check True e k = k" "check False e k = Inl e"
  by (simp_all add: check_def)

lemma rbind_Inr_iff [res_simps]: "rbind m f = Inr y \<longleftrightarrow> (\<exists>x. m = Inr x \<and> f x = Inr y)"
  by (cases m) auto

lemma rbind_Inl_iff: "rbind m f = Inl e \<longleftrightarrow> m = Inl e \<or> (\<exists>x. m = Inr x \<and> f x = Inl e)"
  by (cases m) auto

lemma rbind_pair: "rbind m (\<lambda>(x, y). k x y) = Inr z \<longleftrightarrow> (\<exists>x y. m = Inr (x, y) \<and> k x y = Inr z)"
  by (auto simp: rbind_Inr_iff)

lemma check_Inr_iff [res_simps]: "check b e k = Inr y \<longleftrightarrow> b \<and> k = Inr y"
  by (simp add: check_def)

lemma aget_Inr_iff [res_simps]: "aget xs i = Inr x \<longleftrightarrow> i < length xs \<and> xs ! i = x"
  by (simp add: aget_def)

lemma aput_Inr_iff [res_simps]: "aput xs i x = Inr ys \<longleftrightarrow> i < length xs \<and> ys = xs[i := x]"
  by (auto simp: aput_def)

lemma aget_ok [simp]: "i < length xs \<Longrightarrow> aget xs i = Inr (xs ! i)"
  by (simp add: aget_def)

lemma aput_ok [simp]: "i < length xs \<Longrightarrow> aput xs i x = Inr (xs[i := x])"
  by (simp add: aput_def)

lemma rbind_cong [fundef_cong]:
  "m = m' \<Longrightarrow> (\<And>x. m' = Inr x \<Longrightarrow> f x = f' x) \<Longrightarrow> rbind m f = rbind m' f'"
  by (cases m') auto

lemma check_cong [fundef_cong]:
  "b = b' \<Longrightarrow> (b' \<Longrightarrow> k = k') \<Longrightarrow> check b e k = check b' e k'"
  by (simp add: check_def)

subsection \<open>Widening and narrowing between the two word sizes\<close>

lemma unat_lt_32: "unat (a :: u32) < 4294967296"
proof -
  have "unat a < 2 ^ LENGTH(32)" by (rule unsigned_less)
  then show ?thesis by simp
qed

lemma unat_lt_64: "unat (a :: u64) < 18446744073709551616"
proof -
  have "unat a < 2 ^ LENGTH(64)" by (rule unsigned_less)
  then show ?thesis by simp
qed

lemma unat_ucast_32_64 [simp]: "unat (ucast (a :: u32) :: u64) = unat a"
proof -
  have "unat a < 2 ^ 64" using unat_lt_32 [of a] by simp
  then show ?thesis by (simp add: unsigned_ucast_eq take_bit_nat_eq_self)
qed

lemma unat_ucast_64_32: "unat (a :: u64) < 2 ^ 32 \<Longrightarrow> unat (ucast a :: u32) = unat a"
  by (simp add: unsigned_ucast_eq take_bit_nat_eq_self)

lemma ucast_32_64_less [simp]: "(ucast (a :: u32) :: u64) < ucast b \<longleftrightarrow> a < b"
  by (simp add: word_less_nat_alt)

lemma ucast_32_64_le [simp]: "(ucast (a :: u32) :: u64) \<le> ucast b \<longleftrightarrow> a \<le> b"
  by (simp add: word_le_nat_alt)

lemma unat_max_64: "unat (- 1 :: u64) = 18446744073709551615"
  by (simp add: unsigned_minus_1_eq_mask mask_eq_exp_minus_1)

lemma zero_less_max_64: "(0 :: u64) < - 1"
  by (simp add: word_less_nat_alt unat_max_64)

lemma ucast_32_64_max [simp]: "(ucast (a :: u32) :: u64) < - 1"
  using unat_lt_32 [of a] by (simp add: word_less_nat_alt unat_max_64)

lemma ucast_32_64_min: "min (ucast (a :: u32)) (ucast b) = (ucast (min a b) :: u64)"
  by (simp add: min_def)

subsection \<open>Bit-level helpers of bithacks.h\<close>

text \<open>\<open>MAX\<close> and \<open>MIN\<close> are the polymorphic order operations \<open>max\<close> and \<open>min\<close>
  of HOL (both pick the second argument when the two are equal, which cannot be observed on
  integers).  \<open>__builtin_ctzl\<close> is the position of the lowest set bit; it is undefined on
  0, where the model returns 64.\<close>

fun ctz_from :: "nat \<Rightarrow> nat \<Rightarrow> u64 \<Rightarrow> nat" where
  "ctz_from 0 i w = i"
| "ctz_from (Suc n) i w = (if bit w i then i else ctz_from n (Suc i) w)"

definition ctz :: "u64 \<Rightarrow> nat" where
  "ctz w = ctz_from 64 0 w"

lemma ctz_from_spec:
  assumes "\<exists>j. i \<le> j \<and> j < i + n \<and> bit w j"
  shows "bit w (ctz_from n i w) \<and> i \<le> ctz_from n i w \<and> ctz_from n i w < i + n
       \<and> (\<forall>j. i \<le> j \<and> j < ctz_from n i w \<longrightarrow> \<not> bit w j)"
  using assms
proof (induction n i w rule: ctz_from.induct)
  case (1 i w)
  then show ?case by auto
next
  case (2 n i w)
  show ?case
  proof (cases "bit w i")
    case True
    then show ?thesis by auto
  next
    case False
    with "2.prems" obtain j where "Suc i \<le> j" "j < Suc i + n" "bit w j"
      by (metis Suc_leI add_Suc_shift le_neq_implies_less)
    then have "\<exists>j. Suc i \<le> j \<and> j < Suc i + n \<and> bit w j" by blast
    note ih = "2.IH" [OF False this]
    have "\<not> bit w j" if "i \<le> j" "j < ctz_from n (Suc i) w" for j
      using ih that False by (cases "j = i") auto
    with ih False show ?thesis by auto
  qed
qed

lemma ctz_spec:
  assumes "w \<noteq> 0"
  shows "bit w (ctz w)" and "ctz w < 64" and "\<And>j. j < ctz w \<Longrightarrow> \<not> bit w j"
proof -
  obtain j where "bit w j"
    using assms by (auto simp: bit_eq_iff)
  then have "\<exists>j. 0 \<le> j \<and> j < 0 + 64 \<and> bit w j"
    using bit_imp_le_length by fastforce
  from ctz_from_spec [OF this]
  show "bit w (ctz w)" "ctz w < 64" "\<And>j. j < ctz w \<Longrightarrow> \<not> bit w j"
    by (auto simp: ctz_def)
qed

definition isPow2 :: "'a::len word \<Rightarrow> bool" where
  "isPow2 val \<longleftrightarrow> val \<noteq> 0 \<and> val AND (val - 1) = 0"

fun clz_from :: "nat \<Rightarrow> 'a::len word \<Rightarrow> nat" where
  "clz_from 0 w = 0"
| "clz_from (Suc n) w = (if bit w n then n else clz_from n w)"

definition ilog2 :: "'a::len word \<Rightarrow> nat" where
  "ilog2 val = (if val \<noteq> 0 then clz_from LENGTH('a) val else 0)"

subsection \<open>Loops over a list\<close>

text \<open>A loop over the elements of a list whose body may fail.\<close>

fun mfold :: "('a \<Rightarrow> 's \<Rightarrow> 's res) \<Rightarrow> 'a list \<Rightarrow> 's \<Rightarrow> 's res" where
  "mfold f [] s = Inr s"
| "mfold f (x # xs) s = rbind (f x s) (mfold f xs)"

lemma mfold_append: "mfold f (xs @ ys) s = rbind (mfold f xs s) (mfold f ys)"
  by (induction xs arbitrary: s) (auto simp: rbind_def split: sum.splits)

lemma mfold_cong [fundef_cong]:
  "xs = ys \<Longrightarrow> s = t \<Longrightarrow> (\<And>x u. x \<in> set ys \<Longrightarrow> f x u = g x u) \<Longrightarrow> mfold f xs s = mfold g ys t"
proof (induction ys arbitrary: xs s t)
  case (Cons y ys)
  then have "f y t = g y t" "\<And>u. mfold f ys u = mfold g ys u" by auto
  with Cons.prems show ?case by (auto intro!: rbind_cong)
qed simp

text \<open>An invariant of the loop, and a step that never fails under it.\<close>

lemma mfold_inv:
  assumes "\<And>x s. x \<in> set xs \<Longrightarrow> P s \<Longrightarrow> \<exists>s'. f x s = Inr s' \<and> P s'" and "P s"
  shows "\<exists>s'. mfold f xs s = Inr s' \<and> P s'"
  using assms
proof (induction xs arbitrary: s)
  case (Cons x xs)
  from Cons.prems(1) [of x s] Cons.prems(2) obtain s' where "f x s = Inr s'" "P s'" by auto
  with Cons.IH [of s'] Cons.prems(1) show ?case by auto
qed simp

end
