(* ===== verification/MemTypes.thy ===== *)
theory MemTypes
  imports Prelude
begin

text \<open>
  The vocabulary of the memory hierarchy (memory_hierarchy.h): access and invalidation
  types, MESI states, the MSHR entry, the request records and their flags.

  A request carries a pointer to the MESI state of the requested line in the requester.  It is
  modelled by a \<open>stateRef\<close>: a line of the bottom controller of a cache, or a
  temporary on the requester's stack.  \<open>double\<close> fields are rational numbers.

  \<open>MemReq_init\<close> is the brace initialisation every requester of the code uses: nine
  values, in the declaration order of the struct.
\<close>

datatype AccessType = GETS | GETX | PUTS | PUTX

datatype InvType = INV | INVX | FWD

datatype MESIState = I | S | E | M

definition IsGet :: "AccessType \<Rightarrow> bool" where
  "IsGet t \<longleftrightarrow> t = GETS \<or> t = GETX"

definition IsPut :: "AccessType \<Rightarrow> bool" where
  "IsPut t \<longleftrightarrow> t = PUTS \<or> t = PUTX"

text \<open>The numeric values the enumerations have in C++; the states are ordered by them, which is
  also the order of increasing permission.\<close>

fun mesi_code :: "MESIState \<Rightarrow> nat" where
  "mesi_code I = 0" | "mesi_code S = 1" | "mesi_code E = 2" | "mesi_code M = 3"

lemma mesi_code_inject [simp]: "mesi_code a = mesi_code b \<longleftrightarrow> a = b"
  by (cases a; cases b) simp_all

instantiation MESIState :: linorder
begin

definition less_eq_MESIState :: "MESIState \<Rightarrow> MESIState \<Rightarrow> bool" where
  "less_eq_MESIState a b \<longleftrightarrow> mesi_code a \<le> mesi_code b"

definition less_MESIState :: "MESIState \<Rightarrow> MESIState \<Rightarrow> bool" where
  "less_MESIState a b \<longleftrightarrow> mesi_code a < mesi_code b"

instance
  by standard (auto simp: less_eq_MESIState_def less_MESIState_def)

end

fun access_code :: "AccessType \<Rightarrow> nat" where
  "access_code GETS = 0" | "access_code GETX = 1" | "access_code PUTS = 2" | "access_code PUTX = 3"

fun inv_code :: "InvType \<Rightarrow> nat" where
  "inv_code INV = 0" | "inv_code INVX = 1" | "inv_code FWD = 2"

text \<open>The debug names are looked up in arrays; an index outside the array is an assertion.\<close>

definition accessTypeNames :: "string list" where
  "accessTypeNames = [''GETS'', ''GETX'', ''PUTS'', ''PUTX'']"

definition invTypeNames :: "string list" where
  "invTypeNames = [''INV'', ''INVX'']"

definition mesiStateNames :: "string list" where
  "mesiStateNames = [''I'', ''S'', ''E'', ''M'']"

definition AccessTypeName :: "AccessType \<Rightarrow> string res" where
  "AccessTypeName t =
     check (access_code t < length accessTypeNames) AssertFailed (aget accessTypeNames (access_code t))"

definition InvTypeName :: "InvType \<Rightarrow> string res" where
  "InvTypeName t =
     check (inv_code t < length invTypeNames) AssertFailed (aget invTypeNames (inv_code t))"

definition MESIStateName :: "MESIState \<Rightarrow> string res" where
  "MESIStateName s =
     check (mesi_code s < length mesiStateNames) AssertFailed (aget mesiStateNames (mesi_code s))"

subsection \<open>Requests\<close>

datatype stateRef = LineState nat nat | TempState nat

record MSHR =
  mshr_lineAddr :: u64
  mshr_valid :: bool
  mshr_id :: u32
  mshr_PMC :: rat
  mshr_signature :: u32

record MemReq =
  lineAddr :: u64
  acctype :: AccessType
  childId :: nat
  state :: stateRef
  cycle :: u64
  childLock :: "nat option"
  initialState :: MESIState
  srcId :: u32
  pmcs :: rat
  signature :: u32
  flags :: u32

record InvReq =
  inv_lineAddr :: u64
  inv_type :: InvType
  inv_writeback :: bool
  inv_cycle :: u64
  inv_srcId :: u32

definition IFETCH :: u32 where "IFETCH = 2"
definition NOEXCL :: u32 where "NOEXCL = 4"
definition NONINCLWB :: u32 where "NONINCLWB = 8"
definition PUTX_KEEPEXCL :: u32 where "PUTX_KEEPEXCL = 16"
definition PREFETCH :: u32 where "PREFETCH = 32"

lemmas flag_defs = IFETCH_def NOEXCL_def NONINCLWB_def PUTX_KEEPEXCL_def PREFETCH_def

definition set_flag :: "u32 \<Rightarrow> MemReq \<Rightarrow> MemReq" where
  "set_flag f r = r\<lparr>flags := flags r OR f\<rparr>"

definition is_flag :: "u32 \<Rightarrow> MemReq \<Rightarrow> bool" where
  "is_flag f r \<longleftrightarrow> flags r AND f \<noteq> 0"

text \<open>
  \<open>MemReq req = {addr, type, childId, state, cycle, lock, initialState, srcId, x}\<close>: an
  aggregate initialisation with nine values for a struct of eleven members, so the ninth value
  initialises the ninth member, \<open>pmcs\<close>, and the last two members are zeroed.
\<close>

definition MemReq_init ::
  "u64 \<Rightarrow> AccessType \<Rightarrow> nat \<Rightarrow> stateRef \<Rightarrow> u64 \<Rightarrow> nat option \<Rightarrow> MESIState \<Rightarrow> u32 \<Rightarrow> u32 \<Rightarrow> MemReq" where
  "MemReq_init la ty cid st cyc lk ini src ninth =
     \<lparr>lineAddr = la, acctype = ty, childId = cid, state = st, cycle = cyc, childLock = lk,
      initialState = ini, srcId = src, pmcs = of_nat (unat ninth), signature = 0, flags = 0\<rparr>"

lemma MemReq_init_simps [simp]:
  "lineAddr (MemReq_init la ty cid st cyc lk ini src n) = la"
  "acctype (MemReq_init la ty cid st cyc lk ini src n) = ty"
  "childId (MemReq_init la ty cid st cyc lk ini src n) = cid"
  "state (MemReq_init la ty cid st cyc lk ini src n) = st"
  "cycle (MemReq_init la ty cid st cyc lk ini src n) = cyc"
  "initialState (MemReq_init la ty cid st cyc lk ini src n) = ini"
  "srcId (MemReq_init la ty cid st cyc lk ini src n) = src"
  "flags (MemReq_init la ty cid st cyc lk ini src n) = 0"
  by (simp_all add: MemReq_init_def)

lemma is_flag_init [simp]: "\<not> is_flag f (MemReq_init la ty cid st cyc lk ini src n)"
  by (simp add: is_flag_def)

text \<open>A plain read request, for concrete instances.\<close>

definition req_of :: "u64 \<Rightarrow> MemReq" where
  "req_of a = MemReq_init a GETS 0 (TempState 0) 0 None I 0 0"

end
