(* ===== verification/PrioQueue.thy ===== *)
theory PrioQueue
  imports Prelude
begin

text \<open>
  The priority queue of the contention simulation (prio_queue.h): \<open>B\<close> blocks of 64 cycles
  each around the current block, and an ordered multimap for elements further away.  Elements of
  one cycle form an intrusive singly linked list through their \<open>next\<close> field.

  The state keeps the pointers: \<open>arr\<close> holds the list heads of a block, \<open>occ\<close> its
  occupancy bits, \<open>nxt\<close> the \<open>next\<close> fields of the elements.  Cycles and block numbers
  are naturals (a 64-bit cycle count does not wrap in a simulation).  The search for the next
  populated block is a loop that need not end on a corrupt queue; it takes a fuel argument, and
  the correctness lemma says which fuel is enough.

  The specification is a partial map from elements to their cycles: \<open>pq_rel\<close> relates a
  queue to that map, and each operation is shown to implement its counterpart on it.
\<close>

record 'a pqblock =
  arr :: "'a option list"
  occ :: u64

record 'a pq =
  blocks :: "'a pqblock list"
  feMap :: "(nat \<times> 'a) list"
  curBlock :: nat
  elems :: nat
  nxt :: "'a \<Rightarrow> 'a option"

definition pqblock_init :: "'a pqblock" where
  "pqblock_init = \<lparr>arr = replicate 64 None, occ = 0\<rparr>"

definition pq_init :: "nat \<Rightarrow> ('a \<Rightarrow> 'a option) \<Rightarrow> 'a pq" where
  "pq_init B n = \<lparr>blocks = replicate B pqblock_init, feMap = [], curBlock = 0, elems = 0, nxt = n\<rparr>"

text \<open>\<open>PQBlock::enqueue\<close> and \<open>PQBlock::dequeue\<close>; the \<open>next\<close> fields are threaded.\<close>

definition block_enqueue ::
  "'a \<Rightarrow> nat \<Rightarrow> 'a pqblock \<Rightarrow> ('a \<Rightarrow> 'a option) \<Rightarrow> ('a pqblock \<times> ('a \<Rightarrow> 'a option)) res" where
  "block_enqueue obj pos b n =
     check (n obj = None) AssertFailed
      (rbind (aget (arr b) pos) (\<lambda>h.
        Inr (b\<lparr>occ := occ b OR push_bit pos 1, arr := (arr b)[pos := Some obj]\<rparr>, n(obj := h))))"

definition block_dequeue ::
  "'a pqblock \<Rightarrow> ('a \<Rightarrow> 'a option) \<Rightarrow> ('a \<times> nat \<times> 'a pqblock \<times> ('a \<Rightarrow> 'a option)) res" where
  "block_dequeue b n =
     check (occ b \<noteq> 0) AssertFailed
      (let pos = ctz (occ b) in
       rbind (aget (arr b) pos) (\<lambda>h.
       rbind (deref h) (\<lambda>r.
        let nx = n r;
            oc = (if nx = None then occ b XOR push_bit pos 1 else occ b)
        in Inr (r, pos, b\<lparr>arr := (arr b)[pos := nx], occ := oc\<rparr>, n(r := None)))))"

text \<open>\<open>g_multimap::insert\<close>: after the elements with an equal key.\<close>

fun fe_insert :: "nat \<Rightarrow> 'a \<Rightarrow> (nat \<times> 'a) list \<Rightarrow> (nat \<times> 'a) list" where
  "fe_insert c x [] = [(c, x)]"
| "fe_insert c x ((c', y) # r) = (if c' \<le> c then (c', y) # fe_insert c x r else (c, x) # (c', y) # r)"

definition put_near :: "nat \<Rightarrow> 'a \<Rightarrow> nat \<Rightarrow> 'a pq \<Rightarrow> 'a pq res" where
  "put_near B obj cyc q =
     rbind (aget (blocks q) (cyc div 64 mod B)) (\<lambda>b.
     rbind (block_enqueue obj (cyc mod 64) b (nxt q)) (\<lambda>(b', n').
       Inr (q\<lparr>blocks := (blocks q)[cyc div 64 mod B := b'], nxt := n'\<rparr>)))"

definition enqueue :: "nat \<Rightarrow> 'a \<Rightarrow> nat \<Rightarrow> 'a pq \<Rightarrow> 'a pq res" where
  "enqueue B obj cyc q =
     check (curBlock q \<le> cyc div 64) AssertFailed
      (if cyc div 64 < curBlock q + B
       then rbind (put_near B obj cyc q) (\<lambda>q'. Inr (q'\<lparr>elems := elems q' + 1\<rparr>))
       else Inr (q\<lparr>feMap := fe_insert cyc obj (feMap q), elems := elems q + 1\<rparr>))"

text \<open>The refill loop over the front of the far elements.\<close>

fun refill :: "nat \<Rightarrow> (nat \<times> 'a) list \<Rightarrow> 'a pq \<Rightarrow> 'a pq res" where
  "refill B [] q = Inr (q\<lparr>feMap := []\<rparr>)"
| "refill B ((c, x) # r) q =
     (if c < (curBlock q + B) * 64
      then check (curBlock q \<le> c div 64) AssertFailed
            (check (c div 64 < curBlock q + B) AssertFailed
              (rbind (put_near B x c q) (\<lambda>q'. refill B r q')))
      else Inr (q\<lparr>feMap := (c, x) # r\<rparr>))"

fun advance :: "nat \<Rightarrow> nat \<Rightarrow> 'a pq \<Rightarrow> 'a pq res" where
  "advance 0 B q = Inl OutOfFuel"
| "advance (Suc fuel) B q =
     rbind (aget (blocks q) (curBlock q mod B)) (\<lambda>b.
      if occ b \<noteq> 0 then Inr q
      else let q1 = q\<lparr>curBlock := curBlock q + 1\<rparr> in
           rbind (if curBlock q1 mod (B div 2) = 0 \<and> feMap q1 \<noteq> []
                  then refill B (feMap q1) q1 else Inr q1)
                 (advance fuel B))"

definition dequeue :: "nat \<Rightarrow> nat \<Rightarrow> 'a pq \<Rightarrow> ('a \<times> nat \<times> 'a pq) res" where
  "dequeue fuel B q =
     check (elems q \<noteq> 0) AssertFailed
      (rbind (advance fuel B q) (\<lambda>q1.
       rbind (aget (blocks q1) (curBlock q1 mod B)) (\<lambda>b.
       rbind (block_dequeue b (nxt q1)) (\<lambda>(obj, off, b', n').
         Inr (obj, curBlock q1 * 64 + off,
              q1\<lparr>blocks := (blocks q1)[curBlock q1 mod B := b'], nxt := n',
                 elems := elems q1 - 1\<rparr>)))))"

definition pq_size :: "'a pq \<Rightarrow> nat" where
  "pq_size q = elems q"

fun first_far :: "(nat \<times> 'a) list \<Rightarrow> nat res" where
  "first_far [] = Inl NullDeref"
| "first_far ((c, x) # r) = Inr c"

text \<open>The two scans of \<open>firstCycle\<close>, over the block offsets \<open>i\<close>.\<close>

fun scan_near :: "nat \<Rightarrow> 'a pq \<Rightarrow> nat list \<Rightarrow> nat option res" where
  "scan_near B q [] = Inr None"
| "scan_near B q (i # is) =
     rbind (aget (blocks q) ((curBlock q + i) mod B)) (\<lambda>b.
       if occ b \<noteq> 0 then Inr (Some ((curBlock q + i) * 64 + ctz (occ b))) else scan_near B q is)"

definition firstCycle :: "nat \<Rightarrow> 'a pq \<Rightarrow> nat res" where
  "firstCycle B q =
     check (elems q \<noteq> 0) AssertFailed
      (rbind (scan_near B q [0..<B div 2]) (\<lambda>r1.
        case r1 of Some c \<Rightarrow> Inr c
        | None \<Rightarrow> rbind (scan_near B q [B div 2..<B]) (\<lambda>r2.
            case r2 of
              Some c \<Rightarrow> if feMap q = [] then Inr c
                         else rbind (first_far (feMap q)) (\<lambda>f. Inr (min c f))
            | None \<Rightarrow> first_far (feMap q))))"

subsection \<open>List segments and the abstraction relation\<close>

fun lseg :: "('a \<Rightarrow> 'a option) \<Rightarrow> 'a option \<Rightarrow> 'a list \<Rightarrow> bool" where
  "lseg n h [] \<longleftrightarrow> h = None"
| "lseg n h (x # xs) \<longleftrightarrow> h = Some x \<and> lseg n (n x) xs"

lemma lseg_frame: "y \<notin> set xs \<Longrightarrow> lseg (n(y := v)) h xs = lseg n h xs"
  by (induction xs arbitrary: h) auto

lemma lseg_None [simp]: "lseg n None xs \<longleftrightarrow> xs = []"
  by (cases xs) auto

lemma lseg_Some: "lseg n (Some x) xs \<longleftrightarrow> (\<exists>ys. xs = x # ys \<and> lseg n (n x) ys)"
  by (cases xs) auto

definition cell_ok :: "'a pqblock \<Rightarrow> ('a \<Rightarrow> 'a option) \<Rightarrow> nat \<Rightarrow> 'a list \<Rightarrow> bool" where
  "cell_ok b n p xs \<longleftrightarrow> lseg n (arr b ! p) xs \<and> (bit (occ b) p \<longleftrightarrow> xs \<noteq> [])"

text \<open>The cell of cycle \<open>c\<close>, and what makes the cells of a queue agree with the lists
  \<open>near c\<close> of the elements of each cycle in the window.\<close>

definition cells_ok :: "nat \<Rightarrow> 'a pq \<Rightarrow> (nat \<Rightarrow> 'a list) \<Rightarrow> bool" where
  "cells_ok B q near \<longleftrightarrow>
     length (blocks q) = B \<and> (\<forall>b \<in> set (blocks q). length (arr b) = 64) \<and>
     (\<forall>c. curBlock q \<le> c div 64 \<and> c div 64 < curBlock q + B \<longrightarrow>
        cell_ok (blocks q ! (c div 64 mod B)) (nxt q) (c mod 64) (near c)) \<and>
     (\<forall>c. near c \<noteq> [] \<longrightarrow> curBlock q \<le> c div 64 \<and> c div 64 < curBlock q + B)"

lemma cells_okD:
  "cells_ok B q near \<Longrightarrow> curBlock q \<le> k \<Longrightarrow> k < curBlock q + B \<Longrightarrow> c div 64 = k \<Longrightarrow>
   cell_ok (blocks q ! (k mod B)) (nxt q) (c mod 64) (near c)"
  by (auto simp: cells_ok_def)

definition base :: "nat \<Rightarrow> nat \<Rightarrow> nat" where
  "base B k = k div (B div 2) * (B div 2)"

definition far_ok :: "nat \<Rightarrow> 'a pq \<Rightarrow> bool" where
  "far_ok B q \<longleftrightarrow> sorted (map fst (feMap q)) \<and>
     (\<forall>(c, x) \<in> set (feMap q). (base B (curBlock q) + B) * 64 \<le> c)"

text \<open>Where the elements are: \<open>Q x = Some c\<close> iff \<open>x\<close> is queued for cycle \<open>c\<close>.\<close>

definition holds ::
  "('a \<rightharpoonup> nat) \<Rightarrow> (nat \<Rightarrow> 'a list) \<Rightarrow> (nat \<times> 'a) list \<Rightarrow> ('a \<Rightarrow> 'a option) \<Rightarrow> bool" where
  "holds Q near far n \<longleftrightarrow>
     (\<forall>x c. Q x = Some c \<longleftrightarrow> x \<in> set (near c) \<or> (c, x) \<in> set far) \<and>
     (\<forall>c. distinct (near c)) \<and> distinct (map snd far) \<and>
     (\<forall>c x. (c, x) \<in> set far \<longrightarrow> x \<notin> set (near c) \<and> n x = None) \<and>
     (\<forall>x. Q x = None \<longrightarrow> n x = None)"

definition pq_rel :: "nat \<Rightarrow> 'a pq \<Rightarrow> ('a \<rightharpoonup> nat) \<Rightarrow> bool" where
  "pq_rel B q Q \<longleftrightarrow>
     (\<exists>near. cells_ok B q near \<and> holds Q near (feMap q) (nxt q)) \<and> far_ok B q \<and>
     finite (dom Q) \<and> elems q = card (dom Q)"

lemma holds_near: "holds Q near far n \<Longrightarrow> x \<in> set (near c) \<Longrightarrow> Q x = Some c"
  by (auto simp: holds_def)

lemma holds_far: "holds Q near far n \<Longrightarrow> (c, x) \<in> set far \<Longrightarrow> Q x = Some c"
  by (auto simp: holds_def)

lemma holds_far_near:
  "holds Q near far n \<Longrightarrow> (c, x) \<in> set far \<Longrightarrow> x \<notin> set (near d) \<and> n x = None"
  by (metis holds_def holds_far holds_near option.inject)

lemma holds_notin: "holds Q near far n \<Longrightarrow> Q x = None \<Longrightarrow> x \<notin> set (near c) \<and> (c, x) \<notin> set far"
  by (metis holds_far holds_near option.distinct(1))

lemma window_mod_eq:
  assumes "k \<le> a" "a < k + B" "k \<le> b" "b < k + B" "a mod B = b mod (B::nat)"
  shows "a = b"
proof -
  have "a mod B = b mod B \<Longrightarrow> a \<le> b \<Longrightarrow> b < a + B \<Longrightarrow> a = b" for a b :: nat
    by (metis add_diff_cancel_left' le_Suc_ex less_add_eq_less mod_eq_dvd_iff_nat
        nat_add_left_cancel_less nat_dvd_not_less not_gr_zero add.right_neutral)
  from this [of a b] this [of b a] assms show ?thesis by linarith
qed

lemma push_bit_1_bit: "bit (2 ^ p :: u64) j \<longleftrightarrow> j = p \<and> p < 64"
  by (auto simp: bit_exp_iff possible_bit_def)

subsection \<open>Putting an element into its block\<close>

lemma put_near_spec:
  assumes c: "cells_ok B q near" and w: "curBlock q \<le> cyc div 64" "cyc div 64 < curBlock q + B"
    and n: "nxt q x = None" and nx: "\<And>c. x \<notin> set (near c)"
  shows "\<exists>q'. put_near B x cyc q = Inr q' \<and> cells_ok B q' (near(cyc := x # near cyc)) \<and>
     curBlock q' = curBlock q \<and> feMap q' = feMap q \<and> elems q' = elems q \<and>
     (\<forall>y. y \<noteq> x \<longrightarrow> nxt q' y = nxt q y)"
proof -
  let ?i = "cyc div 64 mod B" and ?p = "cyc mod 64"
  let ?b = "blocks q ! ?i"
  let ?b' = "?b\<lparr>occ := occ ?b OR push_bit ?p 1, arr := (arr ?b)[?p := Some x]\<rparr>"
  let ?n' = "(nxt q)(x := arr ?b ! ?p)"
  let ?q' = "q\<lparr>blocks := (blocks q)[?i := ?b'], nxt := ?n'\<rparr>"
  have B: "B > 0" using w by simp
  have i: "?i < length (blocks q)" and l: "length (blocks q) = B"
    using c B by (auto simp: cells_ok_def)
  have lb: "length (arr b) = 64" if "b \<in> set (blocks q)" for b
    using c that by (auto simp: cells_ok_def)
  have la: "length (arr ?b) = 64" using i by (intro lb) simp
  have run: "put_near B x cyc q = Inr ?q'"
    using i la n by (simp add: put_near_def block_enqueue_def)
  have cell: "cell_ok (blocks ?q' ! (c' div 64 mod B)) ?n' (c' mod 64) ((near(cyc := x # near cyc)) c')"
    if w': "curBlock q \<le> c' div 64" "c' div 64 < curBlock q + B" for c'
  proof -
    have old: "cell_ok (blocks q ! (c' div 64 mod B)) (nxt q) (c' mod 64) (near c')"
      using c w' by (auto simp: cells_ok_def)
    show ?thesis
    proof (cases "c' div 64 mod B = ?i")
      case False
      then have "c' \<noteq> cyc" by auto
      with False old nx i show ?thesis by (simp add: cell_ok_def lseg_frame)
    next
      case True
      then have blk: "c' div 64 = cyc div 64" using window_mod_eq w w' by blast
      show ?thesis
      proof (cases "c' = cyc")
        case True
        with old nx i la show ?thesis
          by (simp add: cell_ok_def lseg_frame bit_or_iff push_bit_1_bit)
      next
        case False
        with blk have "c' mod 64 \<noteq> ?p" by (metis div_mult_mod_eq)
        with False True old nx i la show ?thesis
          by (simp add: cell_ok_def lseg_frame bit_or_iff push_bit_1_bit)
      qed
    qed
  qed
  have "cells_ok B ?q' (near(cyc := x # near cyc))"
    unfolding cells_ok_def
  proof (intro conjI allI impI ballI)
    show "length (blocks ?q') = B" using l by simp
    show "length (arr b) = 64" if "b \<in> set (blocks ?q')" for b
      using that la lb set_update_subset_insert [of "blocks q" ?i ?b'] by auto
    show "cell_ok (blocks ?q' ! (c' div 64 mod B)) (nxt ?q') (c' mod 64)
        ((near(cyc := x # near cyc)) c')"
      if "curBlock ?q' \<le> c' div 64 \<and> c' div 64 < curBlock ?q' + B" for c'
      using cell [of c'] that by simp
    show "curBlock ?q' \<le> c' div 64" "c' div 64 < curBlock ?q' + B"
      if "(near(cyc := x # near cyc)) c' \<noteq> []" for c'
      using that w c by (auto simp: cells_ok_def split: if_splits)
  qed
  with run show ?thesis by auto
qed

subsection \<open>Refilling the window from the far elements\<close>

lemma holds_move:
  assumes h: "holds Q near ((c, x) # r) n" and n': "\<And>y. y \<noteq> x \<Longrightarrow> n' y = n y"
  shows "holds Q (near(c := x # near c)) r n'"
proof -
  have Qx: "Q x = Some c" and nin: "x \<notin> set (near d)" for d
    using holds_far [OF h, of c x] holds_far_near [OF h, of c x] by auto
  have xr: "x \<notin> snd ` set r" and dr: "distinct (map snd r)" and dn: "distinct (near d)" for d
    using h by (auto simp: holds_def)
  have q: "Q y = Some d \<longleftrightarrow> y \<in> set (near d) \<or> (d = c \<and> y = x) \<or> (d, y) \<in> set r" for y d
    using h unfolding holds_def by simp
  have "Q y = Some d \<longleftrightarrow> y \<in> set ((near(c := x # near c)) d) \<or> (d, y) \<in> set r" for y d
    by (cases "d = c") (auto simp: q)
  moreover have "n' y = None" if "Q y = None" for y
    using that Qx n' [of y] h unfolding holds_def by (metis option.distinct(1))
  moreover have "y \<notin> set ((near(c := x # near c)) d) \<and> n' y = None" if yr: "(d, y) \<in> set r" for y d
  proof -
    have "y \<noteq> x" using yr xr by force
    moreover have "y \<notin> set (near d) \<and> n y = None" using holds_far_near [OF h, of d y] yr by auto
    ultimately show ?thesis using n' by (cases "d = c") auto
  qed
  moreover have "distinct ((near(c := x # near c)) d)" for d using dn nin by simp
  ultimately show ?thesis using dr unfolding holds_def by blast
qed

lemma refill_spec:
  assumes "cells_ok B q near" "holds Q near fs (nxt q)"
    and "\<forall>(c, x) \<in> set fs. curBlock q * 64 \<le> c"
  shows "\<exists>q' near'. refill B fs q = Inr q' \<and> cells_ok B q' near' \<and>
     holds Q near' (feMap q') (nxt q') \<and> curBlock q' = curBlock q \<and> elems q' = elems q \<and>
     feMap q' = dropWhile (\<lambda>(c, x). c < (curBlock q + B) * 64) fs"
  using assms
proof (induction fs arbitrary: q near)
  case Nil
  then show ?case by (auto simp: cells_ok_def)
next
  case (Cons cx r)
  obtain c x where cx: "cx = (c, x)" by force
  show ?case
  proof (cases "c < (curBlock q + B) * 64")
    case False
    with Cons.prems cx show ?thesis by (auto simp: cells_ok_def)
  next
    case True
    have h: "holds Q near ((c, x) # r) (nxt q)" using Cons.prems(2) cx by simp
    then have nin: "x \<notin> set (near d)" and nn: "nxt q x = None" for d
      using holds_far_near [OF h, of c x] by auto
    have w: "curBlock q \<le> c div 64" "c div 64 < curBlock q + B"
      using Cons.prems(3) cx True by auto
    obtain q1 where q1: "put_near B x c q = Inr q1" "cells_ok B q1 (near(c := x # near c))"
        "curBlock q1 = curBlock q" "feMap q1 = feMap q" "elems q1 = elems q"
        "\<And>y. y \<noteq> x \<Longrightarrow> nxt q1 y = nxt q y"
      using put_near_spec [OF Cons.prems(1) w nn nin] by auto
    have "holds Q (near(c := x # near c)) r (nxt q1)"
      using h q1(6) by (rule holds_move)
    from Cons.IH [OF q1(2) this] Cons.prems(3) q1 w True cx show ?thesis by auto
  qed
qed

lemma dropWhile_sorted:
  assumes "sorted (map fst fs)"
  shows "\<forall>(c, x) \<in> set (dropWhile (\<lambda>(c, x). c < (k::nat)) fs). k \<le> c"
  using assms by (induction fs) auto

lemma base_le: "base B k \<le> k"
  by (simp add: base_def)

lemma base_gt: "0 < B div 2 \<Longrightarrow> k < base B k + B div 2"
  using dividend_less_div_times [of "B div 2" k] by (simp add: base_def add.commute)

lemma base_Suc:
  assumes "0 < B div 2"
  shows "base B (Suc k) = (if Suc k mod (B div 2) = 0 then Suc k else base B k)"
proof -
  let ?h = "B div 2"
  have "base B (Suc k) = Suc k - Suc k mod ?h"
    by (simp add: base_def minus_mod_eq_div_mult)
  moreover have "base B k = k - k mod ?h"
    by (simp add: base_def minus_mod_eq_div_mult)
  ultimately show ?thesis by (auto simp: mod_Suc)
qed

text \<open>One step of the search: an empty current block leaves the window, a new empty one enters
  it, and the far elements that now fit move in.\<close>

lemma cells_ok_step:
  assumes c: "cells_ok B q near" and e: "occ (blocks q ! (curBlock q mod B)) = 0" and B: "0 < B"
  shows "cells_ok B (q\<lparr>curBlock := curBlock q + 1\<rparr>) near"
    and "near d \<noteq> [] \<Longrightarrow> curBlock q < d div 64"
proof -
  have emp: "near d = []" if "d div 64 = curBlock q" for d
  proof -
    have "cell_ok (blocks q ! (curBlock q mod B)) (nxt q) (d mod 64) (near d)"
      using B by (intro cells_okD [OF c _ _ that]) simp_all
    with e show ?thesis by (simp add: cell_ok_def)
  qed
  show gt: "curBlock q < d div 64" if "near d \<noteq> []" for d
    using c emp that by (metis cells_ok_def le_neq_implies_less)
  have new: "cell_ok (blocks q ! (d div 64 mod B)) (nxt q) (d mod 64) (near d)"
    if d: "d div 64 = curBlock q + B" for d
  proof -
    let ?d = "curBlock q * 64 + d mod 64"
    have "?d div 64 = curBlock q" "?d mod 64 = d mod 64" by simp_all
    then have "cell_ok (blocks q ! (curBlock q mod B)) (nxt q) (d mod 64) (near ?d)"
      using cells_okD [OF c, of "curBlock q" ?d] B by simp
    moreover have "near ?d = []" "near d = []"
      using emp [of ?d] d c by (auto simp: cells_ok_def)
    ultimately show ?thesis using d by simp
  qed
  show "cells_ok B (q\<lparr>curBlock := curBlock q + 1\<rparr>) near"
    unfolding cells_ok_def
  proof (intro conjI allI impI)
    fix d assume "curBlock (q\<lparr>curBlock := curBlock q + 1\<rparr>) \<le> d div 64 \<and>
        d div 64 < curBlock (q\<lparr>curBlock := curBlock q + 1\<rparr>) + B"
    then show "cell_ok (blocks (q\<lparr>curBlock := curBlock q + 1\<rparr>) ! (d div 64 mod B))
        (nxt (q\<lparr>curBlock := curBlock q + 1\<rparr>)) (d mod 64) (near d)"
      using c new [of d] by (cases "d div 64 = curBlock q + B") (auto simp: cells_ok_def)
  qed (use c gt in \<open>auto simp: cells_ok_def Suc_le_eq less_Suc_eq\<close>)
qed

lemma advance_step:
  assumes r: "pq_rel B q Q" and B: "2 \<le> B"
    and e: "occ (blocks q ! (curBlock q mod B)) = 0"
  shows "\<exists>q'. (if Suc (curBlock q) mod (B div 2) = 0 \<and> feMap q \<noteq> []
       then refill B (feMap q) (q\<lparr>curBlock := curBlock q + 1\<rparr>)
       else Inr (q\<lparr>curBlock := curBlock q + 1\<rparr>)) = Inr q' \<and>
     pq_rel B q' Q \<and> curBlock q' = Suc (curBlock q)"
    and "Q x = Some c \<Longrightarrow> curBlock q < c div 64"
proof -
  let ?q1 = "q\<lparr>curBlock := curBlock q + 1\<rparr>"
  obtain near where n: "cells_ok B q near" "holds Q near (feMap q) (nxt q)"
    and f: "far_ok B q" and Q: "finite (dom Q)" "elems q = card (dom Q)"
    using r by (auto simp: pq_rel_def)
  have h: "0 < B div 2" "0 < B" using B by simp_all
  have n1: "cells_ok B ?q1 near" and gt: "\<And>d. near d \<noteq> [] \<Longrightarrow> curBlock q < d div 64"
    using cells_ok_step [OF n(1) e h(2)] by auto
  have far: "curBlock q < base B (curBlock q) + B"
    using base_gt [OF h(1), of "curBlock q"] by linarith
  have fge: "Suc (curBlock q) * 64 \<le> c" if "(c, x) \<in> set (feMap q)" for c x
  proof -
    have "(base B (curBlock q) + B) * 64 \<le> c" using f that by (auto simp: far_ok_def)
    moreover have "Suc (curBlock q) * 64 \<le> (base B (curBlock q) + B) * 64"
      using far by (intro mult_le_mono1) simp
    ultimately show ?thesis by (rule order_trans [rotated])
  qed
  show "curBlock q < c div 64" if "Q x = Some c" for x c
  proof -
    have "x \<in> set (near c) \<or> (c, x) \<in> set (feMap q)" using that n(2) by (auto simp: holds_def)
    then show ?thesis
    proof
      assume "x \<in> set (near c)" then show ?thesis using gt [of c] by (cases "near c") auto
    next
      assume "(c, x) \<in> set (feMap q)" from fge [OF this] show ?thesis by simp
    qed
  qed
  show "\<exists>q'. (if Suc (curBlock q) mod (B div 2) = 0 \<and> feMap q \<noteq> []
       then refill B (feMap q) ?q1 else Inr ?q1) = Inr q' \<and> pq_rel B q' Q \<and>
       curBlock q' = Suc (curBlock q)"
  proof (cases "Suc (curBlock q) mod (B div 2) = 0 \<and> feMap q \<noteq> []")
    case True
    obtain q' near' where q': "refill B (feMap q) ?q1 = Inr q'" "cells_ok B q' near'"
        "holds Q near' (feMap q') (nxt q')" "curBlock q' = Suc (curBlock q)" "elems q' = elems q"
        "feMap q' = dropWhile (\<lambda>(c, x). c < (Suc (curBlock q) + B) * 64) (feMap q)"
      using refill_spec [OF n1, of Q "feMap q"] n(2) fge by fastforce
    have s: "sorted (map fst (feMap q))" using f by (simp add: far_ok_def)
    then have "sorted (map fst (feMap q'))"
      unfolding q'(6) by (metis dropWhile_eq_drop drop_map sorted_wrt_drop)
    moreover have "base B (curBlock q') = Suc (curBlock q)"
      using True q'(4) base_Suc [OF h(1)] by simp
    ultimately have "far_ok B q'"
      using dropWhile_sorted [OF s] q'(6) by (fastforce simp: far_ok_def)
    with q' Q True show ?thesis unfolding pq_rel_def by auto
  next
    case False
    then have "far_ok B ?q1"
      using f base_Suc [OF h(1)] by (auto simp: far_ok_def)
    with n1 n(2) Q have "pq_rel B ?q1 Q" by (auto simp: pq_rel_def)
    then show ?thesis unfolding if_not_P [OF False] by auto
  qed
qed

subsection \<open>The search ends at the block of the earliest element\<close>

definition min_cyc :: "('a \<rightharpoonup> nat) \<Rightarrow> nat \<Rightarrow> bool" where
  "min_cyc Q m \<longleftrightarrow> (\<exists>x. Q x = Some m) \<and> (\<forall>x c. Q x = Some c \<longrightarrow> m \<le> c)"

lemma min_cyc_exists:
  assumes "Q x = Some c"
  shows "\<exists>m. min_cyc Q m"
proof -
  let ?P = "\<lambda>m. \<exists>x. Q x = Some m"
  have "?P (LEAST m. ?P m)" using assms by (intro LeastI_ex [of ?P]) blast
  moreover have "(LEAST m. ?P m) \<le> d" if "Q y = Some d" for y d
    using that by (intro Least_le [of ?P]) blast
  ultimately show ?thesis unfolding min_cyc_def by blast
qed

lemma min_cyc_unique: "min_cyc Q m \<Longrightarrow> min_cyc Q m' \<Longrightarrow> m = m'"
  by (meson antisym min_cyc_def)

lemma far_ok_gt:
  assumes "far_ok B q" "2 \<le> B" "(c, x) \<in> set (feMap q)"
  shows "curBlock q + B div 2 \<le> c div 64" and "curBlock q < c div 64"
proof -
  have "(base B (curBlock q) + B) * 64 \<le> c" using assms by (auto simp: far_ok_def)
  from div_le_mono [OF this, of 64] have "base B (curBlock q) + B \<le> c div 64" by simp
  with base_gt [of B "curBlock q"] assms(2)
  show "curBlock q + B div 2 \<le> c div 64" "curBlock q < c div 64" by linarith+
qed

lemma pq_rel_ge:
  assumes "pq_rel B q Q" "2 \<le> B" "Q x = Some c"
  shows "curBlock q \<le> c div 64"
proof -
  obtain near where n: "cells_ok B q near" "holds Q near (feMap q) (nxt q)" and f: "far_ok B q"
    using assms(1) by (auto simp: pq_rel_def)
  from n(2) assms(3) have "x \<in> set (near c) \<or> (c, x) \<in> set (feMap q)" by (auto simp: holds_def)
  then show ?thesis
  proof
    assume "x \<in> set (near c)"
    then have "near c \<noteq> []" by auto
    with n(1) show ?thesis by (simp add: cells_ok_def)
  next
    assume "(c, x) \<in> set (feMap q)"
    from far_ok_gt(2) [OF f assms(2) this] show ?thesis by simp
  qed
qed

lemma occ_near:
  assumes c: "cells_ok B q near" and B: "0 < B" and k: "curBlock q \<le> k" "k < curBlock q + B"
    and o: "occ (blocks q ! (k mod B)) \<noteq> 0"
  shows "near (k * 64 + ctz (occ (blocks q ! (k mod B)))) \<noteq> []"
    and "d div 64 = k \<Longrightarrow> near d \<noteq> [] \<Longrightarrow> k * 64 + ctz (occ (blocks q ! (k mod B))) \<le> d"
proof -
  let ?o = "occ (blocks q ! (k mod B))"
  have lt: "ctz ?o < 64" by (rule ctz_spec(2) [OF o])
  then have "(k * 64 + ctz ?o) div 64 = k" by simp
  from cells_okD [OF c k this] ctz_spec(1) [OF o] lt
  show "near (k * 64 + ctz ?o) \<noteq> []" by (auto simp: cell_ok_def)
  show "k * 64 + ctz ?o \<le> d" if d: "d div 64 = k" "near d \<noteq> []"
  proof -
    from cells_okD [OF c k d(1)] d(2) have "bit ?o (d mod 64)" by (simp add: cell_ok_def)
    then have "ctz ?o \<le> d mod 64" using ctz_spec(3) [OF o] not_less by blast
    with d(1) show ?thesis by (metis add_le_cancel_left div_mult_mod_eq)
  qed
qed

lemma advance_spec:
  assumes "pq_rel B q Q" "2 \<le> B" "min_cyc Q m" "m div 64 < curBlock q + fuel"
  shows "\<exists>q'. advance fuel B q = Inr q' \<and> pq_rel B q' Q \<and> curBlock q' = m div 64 \<and>
     occ (blocks q' ! (curBlock q' mod B)) \<noteq> 0"
  using assms
proof (induction fuel arbitrary: q)
  case 0
  then show ?case using pq_rel_ge [OF 0(1,2)] by (fastforce simp: min_cyc_def)
next
  case (Suc fuel)
  let ?i = "curBlock q mod B"
  obtain near where n: "cells_ok B q near" "holds Q near (feMap q) (nxt q)"
    using Suc.prems(1) by (auto simp: pq_rel_def)
  have i: "?i < length (blocks q)" using n(1) Suc.prems(2) by (simp add: cells_ok_def)
  have ge: "curBlock q \<le> m div 64"
    using pq_rel_ge [OF Suc.prems(1,2)] Suc.prems(3) by (auto simp: min_cyc_def)
  show ?case
  proof (cases "occ (blocks q ! ?i) = 0")
    case False
    let ?d = "curBlock q * 64 + ctz (occ (blocks q ! ?i))"
    have "near ?d \<noteq> []" using occ_near(1) [OF n(1) _ _ _ False] Suc.prems(2) by simp
    then obtain x where "Q x = Some ?d" using holds_near [OF n(2)] by (meson last_in_set)
    then have "m \<le> ?d" using Suc.prems(3) by (auto simp: min_cyc_def)
    then have "m div 64 \<le> ?d div 64" by (rule div_le_mono)
    also have "?d div 64 = curBlock q" using ctz_spec(2) [OF False] by simp
    finally have "m div 64 = curBlock q" using ge by simp
    with False i Suc.prems(1) show ?thesis by simp
  next
    case True
    obtain q' where q': "(if Suc (curBlock q) mod (B div 2) = 0 \<and> feMap q \<noteq> []
        then refill B (feMap q) (q\<lparr>curBlock := curBlock q + 1\<rparr>)
        else Inr (q\<lparr>curBlock := curBlock q + 1\<rparr>)) = Inr q'" "pq_rel B q' Q"
        "curBlock q' = Suc (curBlock q)"
      using advance_step(1) [OF Suc.prems(1,2) True] by auto
    have "m div 64 < curBlock q' + fuel" using Suc.prems(4) q'(3) by simp
    note ih = Suc.IH [OF q'(2) Suc.prems(2,3) this]
    have "advance (Suc fuel) B q = rbind (if Suc (curBlock q) mod (B div 2) = 0 \<and> feMap q \<noteq> []
        then refill B (feMap q) (q\<lparr>curBlock := curBlock q + 1\<rparr>)
        else Inr (q\<lparr>curBlock := curBlock q + 1\<rparr>)) (advance fuel B)"
      using i True by (simp add: Let_def)
    with ih show ?thesis unfolding q'(1) by simp
  qed
qed

subsection \<open>The operations implement the specification\<close>

lemma pq_rel_init:
  assumes "\<And>x. n x = None"
  shows "pq_rel B (pq_init B n) Map.empty"
proof -
  have "cells_ok B (pq_init B n) (\<lambda>_. [])"
    by (auto simp: cells_ok_def pq_init_def pqblock_init_def cell_ok_def)
  moreover have "holds Map.empty (\<lambda>_. []) [] n" using assms by (simp add: holds_def)
  ultimately show ?thesis
    by (auto simp: pq_rel_def far_ok_def pq_init_def intro!: exI [of _ "\<lambda>_. []"])
qed

lemma fe_insert_set: "set (fe_insert c x fs) = insert (c, x) (set fs)"
  by (induction c x fs rule: fe_insert.induct) auto

lemma fe_insert_sorted: "sorted (map fst fs) \<Longrightarrow> sorted (map fst (fe_insert c x fs))"
  by (induction c x fs rule: fe_insert.induct) (auto simp: fe_insert_set)

lemma fe_insert_distinct:
  "distinct (map snd fs) \<Longrightarrow> x \<notin> snd ` set fs \<Longrightarrow> distinct (map snd (fe_insert c x fs))"
  by (induction c x fs rule: fe_insert.induct) (auto simp: fe_insert_set)

lemma holds_insert_near:
  assumes h: "holds Q near far n" and x: "Q x = None" and n': "\<And>y. y \<noteq> x \<Longrightarrow> n' y = n y"
  shows "holds (Q(x \<mapsto> c)) (near(c := x # near c)) far n'"
proof -
  have nin: "x \<notin> set (near d)" "(d, x) \<notin> set far" for d
    using holds_notin [OF h x] by auto
  have q: "Q y = Some d \<longleftrightarrow> y \<in> set (near d) \<or> (d, y) \<in> set far" for y d
    using h unfolding holds_def by simp
  have "(Q(x \<mapsto> c)) y = Some d \<longleftrightarrow> y \<in> set ((near(c := x # near c)) d) \<or> (d, y) \<in> set far" for y d
    using q [of y d] nin by (cases "y = x"; cases "d = c") auto
  moreover have "n' y = None" if "(Q(x \<mapsto> c)) y = None" for y
    using that n' [of y] h unfolding holds_def by (cases "y = x") auto
  moreover have "y \<notin> set ((near(c := x # near c)) d) \<and> n' y = None" if yf: "(d, y) \<in> set far" for y d
  proof -
    have "y \<noteq> x" using yf nin by auto
    with holds_far_near [OF h yf] n' show ?thesis by (cases "d = c") auto
  qed
  moreover have "distinct ((near(c := x # near c)) d)" "distinct (map snd far)" for d
    using h nin by (auto simp: holds_def)
  ultimately show ?thesis unfolding holds_def by blast
qed

lemma holds_insert_far:
  assumes h: "holds Q near far n" and x: "Q x = None"
  shows "holds (Q(x \<mapsto> c)) near (fe_insert c x far) n"
proof -
  have nin: "x \<notin> set (near d)" "(d, x) \<notin> set far" and nx: "n x = None" for d
    using holds_notin [OF h x] h x by (auto simp: holds_def)
  have q: "Q y = Some d \<longleftrightarrow> y \<in> set (near d) \<or> (d, y) \<in> set far" for y d
    using h unfolding holds_def by simp
  have "(Q(x \<mapsto> c)) y = Some d \<longleftrightarrow> y \<in> set (near d) \<or> (d, y) \<in> set (fe_insert c x far)" for y d
    using q [of y d] nin [of d] by (cases "y = x"; cases "d = c") (auto simp: fe_insert_set)
  moreover have "n y = None" if "(Q(x \<mapsto> c)) y = None" for y
    using that h unfolding holds_def by (cases "y = x") auto
  moreover have "y \<notin> set (near d) \<and> n y = None" if "(d, y) \<in> set (fe_insert c x far)" for y d
    using that holds_far_near [OF h] nin nx by (auto simp: fe_insert_set)
  moreover have "distinct (map snd (fe_insert c x far))"
    using h nin by (intro fe_insert_distinct) (auto simp: holds_def)
  moreover have "distinct (near d)" for d using h by (simp add: holds_def)
  ultimately show ?thesis unfolding holds_def by blast
qed

lemma enqueue_spec:
  assumes r: "pq_rel B q Q" and B: "2 \<le> B" and x: "Q x = None" and c: "curBlock q \<le> c div 64"
  shows "\<exists>q'. enqueue B x c q = Inr q' \<and> pq_rel B q' (Q(x \<mapsto> c)) \<and> curBlock q' = curBlock q"
proof -
  obtain near where n: "cells_ok B q near" "holds Q near (feMap q) (nxt q)"
    and f: "far_ok B q" and Q: "finite (dom Q)" "elems q = card (dom Q)"
    using r by (auto simp: pq_rel_def)
  have card: "card (dom (Q(x \<mapsto> c))) = card (dom Q) + 1" "finite (dom (Q(x \<mapsto> c)))"
    using Q x by (simp_all add: domIff)
  show ?thesis
  proof (cases "c div 64 < curBlock q + B")
    case True
    have "nxt q x = None" "x \<notin> set (near d)" for d
      using n(2) x holds_notin [OF n(2) x] by (auto simp: holds_def)
    from put_near_spec [OF n(1) c True this] obtain q1 where q1: "put_near B x c q = Inr q1"
        "cells_ok B q1 (near(c := x # near c))" "curBlock q1 = curBlock q" "feMap q1 = feMap q"
        "elems q1 = elems q" "\<forall>y. y \<noteq> x \<longrightarrow> nxt q1 y = nxt q y" by blast
    have h: "holds (Q(x \<mapsto> c)) (near(c := x # near c)) (feMap q1) (nxt q1)"
      using holds_insert_near [OF n(2) x, of "nxt q1" c] q1 by simp
    have "cells_ok B (q1\<lparr>elems := elems q1 + 1\<rparr>) (near(c := x # near c))"
      using q1(2) by (simp add: cells_ok_def)
    moreover have "far_ok B (q1\<lparr>elems := elems q1 + 1\<rparr>)" using f q1 by (simp add: far_ok_def)
    ultimately have "pq_rel B (q1\<lparr>elems := elems q1 + 1\<rparr>) (Q(x \<mapsto> c))"
      unfolding pq_rel_def using h card Q q1(5) by auto
    with q1 c True show ?thesis by (simp add: enqueue_def)
  next
    case False
    let ?q' = "q\<lparr>feMap := fe_insert c x (feMap q), elems := elems q + 1\<rparr>"
    have "base B (curBlock q) + B \<le> c div 64" using False base_le [of B "curBlock q"] by linarith
    then have "(base B (curBlock q) + B) * 64 \<le> c"
      by (simp add: less_eq_div_iff_mult_less_eq)
    then have "far_ok B ?q'" using f by (auto simp: far_ok_def fe_insert_set fe_insert_sorted)
    moreover have "cells_ok B ?q' near" using n(1) by (simp add: cells_ok_def)
    ultimately have "pq_rel B ?q' (Q(x \<mapsto> c))"
      unfolding pq_rel_def using holds_insert_far [OF n(2) x, of c] card Q by auto
    with False c show ?thesis by (simp add: enqueue_def)
  qed
qed

lemma holds_remove:
  assumes h: "holds Q near far n" and m: "near m = x # xs"
  shows "holds (Q(x := None)) (near(m := xs)) far (n(x := None))"
proof -
  have Qx: "Q x = Some m" using holds_near [OF h, of x m] m by simp
  have d: "distinct (near d)" and df: "distinct (map snd far)" for d using h by (auto simp: holds_def)
  have xn: "x \<notin> set xs" using d [of m] m by simp
  have xd: "x \<notin> set (near e)" if "e \<noteq> m" for e using holds_near [OF h, of x e] Qx that by auto
  have xf: "(e, x) \<notin> set far" for e using holds_far_near [OF h, of e x m] m by auto
  have q: "Q y = Some e \<longleftrightarrow> y \<in> set (near e) \<or> (e, y) \<in> set far" for y e
    using h unfolding holds_def by simp
  have "(Q(x := None)) y = Some e \<longleftrightarrow> y \<in> set ((near(m := xs)) e) \<or> (e, y) \<in> set far" for y e
    using q [of y e] xn xd [of e] xf [of e] m by (cases "y = x"; cases "e = m") auto
  moreover have "(n(x := None)) y = None" if "(Q(x := None)) y = None" for y
    using that h unfolding holds_def by (cases "y = x") auto
  moreover have "y \<notin> set ((near(m := xs)) e) \<and> (n(x := None)) y = None" if "(e, y) \<in> set far" for y e
    using holds_far_near [OF h that, of e] m by (cases "e = m") auto
  moreover have "distinct ((near(m := xs)) e)" for e using d [of m] d [of e] m by simp
  ultimately show ?thesis using df unfolding holds_def by blast
qed

lemma take_near_spec:
  assumes c: "cells_ok B q near" and w: "curBlock q \<le> m div 64" "m div 64 < curBlock q + B"
    and m: "near m = x # xs" and d: "distinct (x # xs)" and nin: "\<And>e. e \<noteq> m \<Longrightarrow> x \<notin> set (near e)"
    and b: "b = blocks q ! (m div 64 mod B)" and ct: "ctz (occ b) = m mod 64"
  shows "\<exists>b'. block_dequeue b (nxt q) = Inr (x, m mod 64, b', (nxt q)(x := None)) \<and>
     cells_ok B (q\<lparr>blocks := (blocks q)[m div 64 mod B := b'], nxt := (nxt q)(x := None)\<rparr>)
       (near(m := xs))"
proof -
  let ?i = "m div 64 mod B" and ?p = "m mod 64"
  let ?b' = "b\<lparr>arr := (arr b)[?p := nxt q x],
               occ := (if nxt q x = None then occ b XOR push_bit ?p 1 else occ b)\<rparr>"
  let ?q' = "q\<lparr>blocks := (blocks q)[?i := ?b'], nxt := (nxt q)(x := None)\<rparr>"
  have B: "B > 0" using w by simp
  have i: "?i < length (blocks q)" and l: "length (blocks q) = B"
    using c B by (auto simp: cells_ok_def)
  have lb: "length (arr b) = 64" if "b \<in> set (blocks q)" for b
    using c that by (auto simp: cells_ok_def)
  have la: "length (arr b) = 64" using i b by (intro lb) simp
  have cm: "cell_ok b (nxt q) ?p (x # xs)"
    using cells_okD [OF c w refl] b m by simp
  then have seg: "arr b ! ?p = Some x" "lseg (nxt q) (nxt q x) xs" and bt: "bit (occ b) ?p"
    by (auto simp: cell_ok_def)
  have oc: "occ b \<noteq> 0" using bt by (metis bit_0_eq bot_apply bot_bool_def)
  have run: "block_dequeue b (nxt q) = Inr (x, ?p, ?b', (nxt q)(x := None))"
    using la seg oc ct by (simp add: block_dequeue_def Let_def)
  have nxn: "nxt q x = None \<longleftrightarrow> xs = []" using seg(2) by (cases xs) auto
  have cell: "cell_ok (blocks ?q' ! (c' div 64 mod B)) (nxt ?q') (c' mod 64) ((near(m := xs)) c')"
    if w': "curBlock q \<le> c' div 64" "c' div 64 < curBlock q + B" for c'
  proof -
    have old: "cell_ok (blocks q ! (c' div 64 mod B)) (nxt q) (c' mod 64) (near c')"
      using c w' by (auto simp: cells_ok_def)
    show ?thesis
    proof (cases "c' = m")
      case True
      have "lseg ((nxt q)(x := None)) (nxt q x) xs" using seg(2) d by (simp add: lseg_frame)
      moreover have "bit (occ ?b') ?p \<longleftrightarrow> xs \<noteq> []"
        using bt nxn by (simp add: bit_xor_iff push_bit_1_bit)
      ultimately show ?thesis using True i la by (simp add: cell_ok_def)
    next
      case False
      have fr: "lseg ((nxt q)(x := None)) h (near c') = lseg (nxt q) h (near c')" for h
        using nin [OF False] by (rule lseg_frame)
      show ?thesis
      proof (cases "c' div 64 mod B = ?i")
        case same: True
        then have "c' div 64 = m div 64" using window_mod_eq w w' by blast
        with False have ne: "c' mod 64 \<noteq> ?p" by (metis div_mult_mod_eq)
        then have "bit (occ ?b') (c' mod 64) = bit (occ b) (c' mod 64)"
          by (simp add: bit_xor_iff push_bit_1_bit)
        with ne old same False fr i la b show ?thesis by (simp add: cell_ok_def)
      next
        case diff: False
        with old False fr i show ?thesis by (simp add: cell_ok_def)
      qed
    qed
  qed
  have "cells_ok B ?q' (near(m := xs))"
    unfolding cells_ok_def
  proof (intro conjI allI impI ballI)
    show "length (blocks ?q') = B" using l by simp
    show "length (arr bb) = 64" if "bb \<in> set (blocks ?q')" for bb
      using that la lb set_update_subset_insert [of "blocks q" ?i ?b'] by auto
    show "cell_ok (blocks ?q' ! (c' div 64 mod B)) (nxt ?q') (c' mod 64) ((near(m := xs)) c')"
      if "curBlock ?q' \<le> c' div 64 \<and> c' div 64 < curBlock ?q' + B" for c'
      using cell [of c'] that by simp
    show "curBlock ?q' \<le> c' div 64" "c' div 64 < curBlock ?q' + B"
      if "(near(m := xs)) c' \<noteq> []" for c'
      using that w c by (auto simp: cells_ok_def split: if_splits)
  qed
  with run show ?thesis by blast
qed

text \<open>The earliest element is in the window once the search has stopped.\<close>

lemma min_in_window:
  assumes r: "pq_rel B q Q" and B: "2 \<le> B" and m: "min_cyc Q m" and k: "curBlock q = m div 64"
    and n: "cells_ok B q near" "holds Q near (feMap q) (nxt q)"
  obtains x xs where "near m = x # xs" and "Q x = Some m"
    and "occ (blocks q ! (curBlock q mod B)) \<noteq> 0"
    and "ctz (occ (blocks q ! (curBlock q mod B))) = m mod 64"
proof -
  have f: "far_ok B q" using r by (auto simp: pq_rel_def)
  obtain y where y: "Q y = Some m" using m by (auto simp: min_cyc_def)
  have "(m, y) \<notin> set (feMap q)" using far_ok_gt(2) [OF f B] k by fastforce
  with y n(2) have "y \<in> set (near m)" by (auto simp: holds_def)
  then obtain x xs where x: "near m = x # xs" by (cases "near m") auto
  let ?o = "occ (blocks q ! (curBlock q mod B))"
  have w: "curBlock q \<le> curBlock q" "curBlock q < curBlock q + B" "0 < B" using B by simp_all
  have "cell_ok (blocks q ! (curBlock q mod B)) (nxt q) (m mod 64) (near m)"
    using cells_okD [OF n(1) w(1,2)] k by simp
  then have "bit ?o (m mod 64)" using x by (simp add: cell_ok_def)
  then have o: "?o \<noteq> 0" by (metis bit_0_eq bot_apply bot_bool_def)
  let ?d = "curBlock q * 64 + ctz ?o"
  have "near ?d \<noteq> []" by (rule occ_near(1) [OF n(1) w(3) w(1,2) o])
  then obtain z where "Q z = Some ?d" using holds_near [OF n(2)] by (meson last_in_set)
  then have "m \<le> ?d" using m by (auto simp: min_cyc_def)
  moreover have "?d \<le> m" using occ_near(2) [OF n(1) w(3) w(1,2) o] x k by simp
  ultimately have "ctz ?o = m mod 64" using k by (metis add_left_cancel antisym div_mult_mod_eq)
  with x o that holds_near [OF n(2), of x m] show ?thesis by simp
qed

lemma dequeue_spec:
  assumes r: "pq_rel B q Q" and B: "2 \<le> B" and m: "min_cyc Q m"
    and fuel: "m div 64 < curBlock q + fuel"
  shows "\<exists>x q'. dequeue fuel B q = Inr (x, m, q') \<and> Q x = Some m \<and> pq_rel B q' (Q(x := None)) \<and>
     curBlock q' = m div 64"
proof -
  obtain q1 where q1: "advance fuel B q = Inr q1" "pq_rel B q1 Q" "curBlock q1 = m div 64"
    using advance_spec [OF r B m fuel] by blast
  obtain near where n: "cells_ok B q1 near" "holds Q near (feMap q1) (nxt q1)"
    and f: "far_ok B q1" and Q: "finite (dom Q)" "elems q1 = card (dom Q)"
    using q1(2) by (auto simp: pq_rel_def)
  obtain x xs where x: "near m = x # xs" "Q x = Some m"
      "occ (blocks q1 ! (curBlock q1 mod B)) \<noteq> 0"
      "ctz (occ (blocks q1 ! (curBlock q1 mod B))) = m mod 64"
    using min_in_window [OF q1(2) B m q1(3) n] by blast
  let ?i = "m div 64 mod B"
  have w: "curBlock q1 \<le> m div 64" "m div 64 < curBlock q1 + B" using q1(3) B by simp_all
  have d: "distinct (x # xs)" using n(2) x(1) by (metis holds_def)
  have nin: "x \<notin> set (near e)" if "e \<noteq> m" for e using holds_near [OF n(2), of x e] x(2) that by auto
  obtain b' where b': "block_dequeue (blocks q1 ! ?i) (nxt q1) = Inr (x, m mod 64, b', (nxt q1)(x := None))"
      "cells_ok B (q1\<lparr>blocks := (blocks q1)[?i := b'], nxt := (nxt q1)(x := None)\<rparr>) (near(m := xs))"
    using take_near_spec [OF n(1) w x(1) d nin refl] x(4) q1(3) by auto
  let ?q' = "q1\<lparr>blocks := (blocks q1)[?i := b'], nxt := (nxt q1)(x := None), elems := elems q1 - 1\<rparr>"
  have "cells_ok B ?q' (near(m := xs))" using b'(2) by (simp add: cells_ok_def)
  moreover have "holds (Q(x := None)) (near(m := xs)) (feMap ?q') (nxt ?q')"
    using holds_remove [OF n(2) x(1)] by simp
  moreover have "far_ok B ?q'" using f by (simp add: far_ok_def)
  moreover have "finite (dom (Q(x := None)))" "elems ?q' = card (dom (Q(x := None)))"
    using Q x(2) by (simp_all add: card_Diff_singleton domI)
  ultimately have rel: "pq_rel B ?q' (Q(x := None))" unfolding pq_rel_def by blast
  have el: "elems q \<noteq> 0"
    using r x(2) by (auto simp: pq_rel_def card_gt_0_iff)
  have i: "?i < length (blocks q1)" using n(1) B by (simp add: cells_ok_def)
  have "dequeue fuel B q = Inr (x, m, ?q')"
    using el q1(1,3) i b'(1) by (simp add: dequeue_def)
  with rel x(2) q1(3) show ?thesis by auto
qed

subsection \<open>Reading the earliest cycle\<close>

lemma scan_near_spec:
  assumes c: "cells_ok B q near" and "a \<le> b" "b \<le> B"
    and "\<And>d. near d \<noteq> [] \<Longrightarrow> curBlock q + a \<le> d div 64"
  shows "\<exists>r. scan_near B q [a..<b] = Inr r \<and>
     (case r of Some e \<Rightarrow> near e \<noteq> [] \<and> (\<forall>d. near d \<noteq> [] \<longrightarrow> e \<le> d) \<and> e div 64 < curBlock q + b
      | None \<Rightarrow> \<forall>d. near d \<noteq> [] \<longrightarrow> curBlock q + b \<le> d div 64)"
  using assms(2-)
proof (induction "b - a" arbitrary: a)
  case 0
  then show ?case by auto
next
  case (Suc k)
  then have ab: "a < b" by simp
  let ?k = "curBlock q + a"
  have B: "0 < B" using ab Suc.prems(2) by simp
  have i: "?k mod B < length (blocks q)" using c B by (simp add: cells_ok_def)
  have w: "curBlock q \<le> ?k" "?k < curBlock q + B" using ab Suc.prems(2) by simp_all
  show ?case
  proof (cases "occ (blocks q ! (?k mod B)) = 0")
    case True
    have ne: "near d \<noteq> [] \<Longrightarrow> curBlock q + Suc a \<le> d div 64" for d
    proof -
      assume d: "near d \<noteq> []"
      have "d div 64 \<noteq> ?k" using cells_okD [OF c w] True d by (fastforce simp: cell_ok_def)
      with Suc.prems(3) [OF d] show ?thesis by simp
    qed
    have "k = b - Suc a" "Suc a \<le> b" using Suc.hyps(2) ab by simp_all
    from Suc.hyps(1) [OF this Suc.prems(2) ne] True i ab show ?thesis by (simp add: upt_rec)
  next
    case False
    let ?e = "?k * 64 + ctz (occ (blocks q ! (?k mod B)))"
    have lt: "ctz (occ (blocks q ! (?k mod B))) < 64" by (rule ctz_spec(2) [OF False])
    have "near ?e \<noteq> []" by (rule occ_near(1) [OF c B w False])
    moreover have "?e \<le> d" if d: "near d \<noteq> []" for d
    proof (cases "d div 64 = ?k")
      case True
      then show ?thesis by (rule occ_near(2) [OF c B w False _ d])
    next
      case False
      with Suc.prems(3) [OF d] have "Suc ?k \<le> d div 64" by simp
      then have "Suc ?k * 64 \<le> d" by (simp add: less_eq_div_iff_mult_less_eq)
      with lt show ?thesis by simp
    qed
    moreover have "?e div 64 < curBlock q + b" using lt ab by simp
    ultimately show ?thesis using False i ab by (simp add: upt_rec)
  qed
qed

lemma firstCycle_spec:
  assumes r: "pq_rel B q Q" and B: "2 \<le> B" and m: "min_cyc Q m"
  shows "firstCycle B q = Inr m"
proof -
  obtain near where c: "cells_ok B q near" and h: "holds Q near (feMap q) (nxt q)"
    and f: "far_ok B q" and Q: "finite (dom Q)" "elems q = card (dom Q)"
    using r by (auto simp: pq_rel_def)
  obtain y where y: "Q y = Some m" using m by (auto simp: min_cyc_def)
  have el: "elems q \<noteq> 0" using Q y by (auto simp: card_gt_0_iff)
  have nearge: "m \<le> d" if "near d \<noteq> []" for d
    using that holds_near [OF h] m by (meson last_in_set min_cyc_def)
  have farge: "m \<le> d" if "(d, z) \<in> set (feMap q)" for d z
    using holds_far [OF h that] m by (auto simp: min_cyc_def)
  have where_m: "near m \<noteq> [] \<or> (m, y) \<in> set (feMap q)" using h y by (auto simp: holds_def)
  have farlo: "first_far (feMap q) = Inr m" if "near m = []"
  proof -
    have my: "(m, y) \<in> set (feMap q)" using where_m that by simp
    then obtain e z t where fe: "feMap q = (e, z) # t" by (cases "feMap q") auto
    have "m \<le> e" using farge [of e z] fe by simp
    moreover have "e \<le> m" using f my fe by (auto simp: far_ok_def)
    ultimately show ?thesis using fe by simp
  qed
  have "\<And>d. near d \<noteq> [] \<Longrightarrow> curBlock q + 0 \<le> d div 64" using c by (auto simp: cells_ok_def)
  from scan_near_spec [OF c _ _ this, of "B div 2"] obtain r1 where
    r1: "scan_near B q [0..<B div 2] = Inr r1" "case r1 of Some e \<Rightarrow> near e \<noteq> [] \<and>
      (\<forall>d. near d \<noteq> [] \<longrightarrow> e \<le> d) \<and> e div 64 < curBlock q + B div 2 | None \<Rightarrow> \<forall>d. near d \<noteq> [] \<longrightarrow> curBlock q + B div 2 \<le> d div 64"
    by auto
  show ?thesis
  proof (cases r1)
    case (Some e)
    have "near m \<noteq> []"
    proof
      assume "near m = []"
      with where_m have "(m, y) \<in> set (feMap q)" by simp
      from far_ok_gt(1) [OF f B this] have "curBlock q + B div 2 \<le> m div 64" .
      moreover have "m \<le> e" using nearge r1(2) Some by simp
      ultimately have "curBlock q + B div 2 \<le> e div 64" using div_le_mono le_trans by blast
      then show False using r1(2) Some by simp
    qed
    with r1 Some have "e = m" using nearge [of e] by (auto intro: antisym)
    with r1(1) Some el show ?thesis by (simp add: firstCycle_def)
  next
    case None
    with r1(2) have "\<And>d. near d \<noteq> [] \<Longrightarrow> curBlock q + B div 2 \<le> d div 64" by simp
    from scan_near_spec [OF c _ _ this, of B] obtain r2 where
      r2: "scan_near B q [B div 2..<B] = Inr r2" "case r2 of Some e \<Rightarrow> near e \<noteq> [] \<and>
        (\<forall>d. near d \<noteq> [] \<longrightarrow> e \<le> d) \<and> e div 64 < curBlock q + B | None \<Rightarrow> \<forall>d. near d \<noteq> [] \<longrightarrow> curBlock q + B \<le> d div 64"
      by auto
    show ?thesis
    proof (cases r2)
      case (Some e)
      show ?thesis
      proof (cases "near m = []")
        case True
        have "m \<le> e" using nearge r2(2) Some by simp
        moreover have "feMap q \<noteq> []" using True where_m by auto
        ultimately show ?thesis using farlo [OF True] r1(1) None r2(1) Some el
          by (simp add: firstCycle_def min_def)
      next
        case False
        then have e: "e = m" using r2(2) Some nearge [of e] by (auto intro: antisym)
        have "m \<le> d" if ff: "first_far (feMap q) = Inr d" for d
        proof -
          obtain z where "(d, z) \<in> set (feMap q)" using ff by (cases "feMap q") (auto, blast)
          then show ?thesis by (rule farge)
        qed
        then show ?thesis using r1(1) None r2(1) Some el e
          by (cases "feMap q") (auto simp: firstCycle_def min_def)
      qed
    next
      case None2: None
      have "near m = []"
      proof (rule ccontr)
        assume "near m \<noteq> []"
        with r2(2) None2 c show False by (fastforce simp: cells_ok_def)
      qed
      from farlo [OF this] r1(1) None r2(1) None2 el show ?thesis by (simp add: firstCycle_def)
    qed
  qed
qed

subsection \<open>The interface\<close>

text \<open>
  What the contention simulation relies on: \<open>rel q Q\<close> says that the queue \<open>q\<close> holds the elements and
  cycles of the map \<open>Q\<close>, \<open>floor q\<close> is the earliest cycle it still accepts.
\<close>

locale prio_queue =
  fixes rel :: "'q \<Rightarrow> ('a \<rightharpoonup> nat) \<Rightarrow> bool"
    and enq :: "'a \<Rightarrow> nat \<Rightarrow> 'q \<Rightarrow> 'q res"
    and deq :: "'q \<Rightarrow> ('a \<times> nat \<times> 'q) res"
    and first :: "'q \<Rightarrow> nat res"
    and floor :: "'q \<Rightarrow> nat"
    and count :: "'q \<Rightarrow> nat"
  assumes enq_ok: "rel q Q \<Longrightarrow> Q x = None \<Longrightarrow> floor q \<le> c \<Longrightarrow>
      \<exists>q'. enq x c q = Inr q' \<and> rel q' (Q(x \<mapsto> c)) \<and> floor q' = floor q"
    and deq_ok: "rel q Q \<Longrightarrow> min_cyc Q m \<Longrightarrow>
      \<exists>x q'. deq q = Inr (x, m, q') \<and> Q x = Some m \<and> rel q' (Q(x := None)) \<and> floor q' \<le> m"
    and first_ok: "rel q Q \<Longrightarrow> min_cyc Q m \<Longrightarrow> first q = Inr m"
    and count_ok: "rel q Q \<Longrightarrow> finite (dom Q) \<and> count q = card (dom Q)"
begin

lemma min_exists:
  assumes "rel q Q" "count q \<noteq> 0"
  shows "\<exists>m. min_cyc Q m"
proof -
  have "Q \<noteq> Map.empty" using count_ok [OF assms(1)] assms(2) by auto
  then obtain x c where "Q x = Some c" by fastforce
  then show ?thesis by (rule min_cyc_exists)
qed

lemma deq_first:
  assumes "rel q Q" "count q \<noteq> 0"
  shows "\<exists>x c q'. deq q = Inr (x, c, q') \<and> first q = Inr c \<and> Q x = Some c \<and> rel q' (Q(x := None)) \<and>
    floor q' \<le> c \<and> (\<forall>y d. Q y = Some d \<longrightarrow> c \<le> d)"
  using min_exists [OF assms] deq_ok [OF assms(1)] first_ok [OF assms(1)]
  unfolding min_cyc_def by metis

lemma first_min:
  assumes "rel q Q" "count q \<noteq> 0"
  shows "\<exists>x c. first q = Inr c \<and> Q x = Some c \<and> (\<forall>y d. Q y = Some d \<longrightarrow> c \<le> d)"
  using deq_first [OF assms] by blast

lemma first_ge:
  assumes "rel q Q" "count q \<noteq> 0" "first q = Inr c" "\<And>y d. Q y = Some d \<Longrightarrow> k \<le> d"
  shows "k \<le> c"
  using first_min [OF assms(1,2)] assms(3,4) by auto

lemma count_0: "rel q Q \<Longrightarrow> count q = 0 \<longleftrightarrow> Q = Map.empty"
  using count_ok by fastforce

end

text \<open>
  The contention simulation uses blocks of 64 cycles in a window of 1024 blocks.  The search of
  \<open>dequeue\<close> passes one block per step, so the distance to the block of the first cycle
  bounds it.
\<close>

definition PQ_BLOCKS :: nat where "PQ_BLOCKS = 1024"

definition deq_fuel :: "nat \<Rightarrow> 'a pq \<Rightarrow> nat" where
  "deq_fuel B q = (case firstCycle B q of Inr m \<Rightarrow> Suc (m div 64) - curBlock q | Inl _ \<Rightarrow> 1)"

definition deq :: "nat \<Rightarrow> 'a pq \<Rightarrow> ('a \<times> nat \<times> 'a pq) res" where
  "deq B q = dequeue (deq_fuel B q) B q"

definition pq_floor :: "'a pq \<Rightarrow> nat" where
  "pq_floor q = curBlock q * 64"

lemma deq_spec:
  assumes "pq_rel B q Q" "2 \<le> B" "min_cyc Q m"
  shows "\<exists>x q'. deq B q = Inr (x, m, q') \<and> Q x = Some m \<and> pq_rel B q' (Q(x := None)) \<and>
     curBlock q' = m div 64"
  unfolding deq_def
  by (rule dequeue_spec [OF assms]) (simp add: deq_fuel_def firstCycle_spec [OF assms])

lemma deq_floor: "deq B q = Inr (x, c, q') \<Longrightarrow> pq_floor q' \<le> c"
  by (auto simp: deq_def dequeue_def block_dequeue_def pq_floor_def Let_def res_simps split: prod.splits)

interpretation cpq: prio_queue "pq_rel PQ_BLOCKS" "enqueue PQ_BLOCKS" "deq PQ_BLOCKS"
  "firstCycle PQ_BLOCKS" pq_floor pq_size
proof unfold_locales
  have B: "2 \<le> PQ_BLOCKS" by (simp add: PQ_BLOCKS_def)
  fix q :: "'a pq" and Q :: "'a \<rightharpoonup> nat" and x c m
  assume r: "pq_rel PQ_BLOCKS q Q"
  show "\<exists>q'. enqueue PQ_BLOCKS x c q = Inr q' \<and> pq_rel PQ_BLOCKS q' (Q(x \<mapsto> c)) \<and>
      pq_floor q' = pq_floor q" if "Q x = None" "pq_floor q \<le> c"
    using enqueue_spec [OF r B that(1), of c] that(2)
    by (auto simp: pq_floor_def less_eq_div_iff_mult_less_eq)
  show "\<exists>x q'. deq PQ_BLOCKS q = Inr (x, m, q') \<and> Q x = Some m \<and>
      pq_rel PQ_BLOCKS q' (Q(x := None)) \<and> pq_floor q' \<le> m" if "min_cyc Q m"
    using deq_spec [OF r B that] by (auto simp: pq_floor_def)
  show "firstCycle PQ_BLOCKS q = Inr m" if "min_cyc Q m"
    by (rule firstCycle_spec [OF r B that])
  show "finite (dom Q) \<and> pq_size q = card (dom Q)"
    using r by (simp add: pq_rel_def pq_size_def)
qed

subsection \<open>Properties\<close>

text \<open>C2. Enqueueing an element that is not queued, at a cycle that is not before the current block,
  succeeds and adds exactly that element at that cycle, whether it lands in the window or among the
  far elements; an earlier cycle fails the assertion.\<close>

theorem pq_enqueue_correct:
  assumes "pq_rel PQ_BLOCKS q Q" and "Q x = None"
  shows "if curBlock q \<le> c div 64
    then \<exists>q'. enqueue PQ_BLOCKS x c q = Inr q' \<and> pq_rel PQ_BLOCKS q' (Q(x \<mapsto> c))
    else enqueue PQ_BLOCKS x c q = Inl AssertFailed"
  using cpq.enq_ok [OF assms, of c]
  by (auto simp: pq_floor_def less_eq_div_iff_mult_less_eq enqueue_def)

text \<open>C1. On a non-empty queue \<open>dequeue\<close> returns (its search loop ends within the distance to the
  first populated block), no assertion fails, and it removes an element of the earliest cycle queued,
  which is the cycle \<open>firstCycle\<close> announced.\<close>

theorem pq_dequeue_correct:
  assumes "pq_rel PQ_BLOCKS q Q" and "pq_size q \<noteq> 0"
  shows "\<exists>x c q'. dequeue (deq_fuel PQ_BLOCKS q) PQ_BLOCKS q = Inr (x, c, q') \<and>
    firstCycle PQ_BLOCKS q = Inr c \<and> Q x = Some c \<and> pq_rel PQ_BLOCKS q' (Q(x := None)) \<and>
    (\<forall>y d. Q y = Some d \<longrightarrow> c \<le> d)"
  using cpq.deq_first [OF assms] by (auto simp: deq_def)

lemma pq_rel_start: "pq_rel PQ_BLOCKS (pq_init PQ_BLOCKS (\<lambda>_. None)) Map.empty"
  by (rule pq_rel_init) simp

lemma pq_enqueue_correct_witness:
  "\<exists>q'. enqueue PQ_BLOCKS (7 :: nat) 70000 (pq_init PQ_BLOCKS (\<lambda>_. None)) = Inr q' \<and>
     pq_rel PQ_BLOCKS q' [7 \<mapsto> 70000]"
  using pq_enqueue_correct [OF pq_rel_start, where x = "7 :: nat" and c = 70000] by (simp add: pq_init_def)

lemma pq_two_queued:
  "\<exists>q. pq_rel PQ_BLOCKS q [7 :: nat \<mapsto> 70000, 8 \<mapsto> 3] \<and> pq_size q \<noteq> 0"
proof -
  obtain q where q: "pq_rel PQ_BLOCKS q [7 :: nat \<mapsto> 70000]" "curBlock q = 0"
    using enqueue_spec [OF pq_rel_start, where x = "7 :: nat" and c = 70000] by (auto simp: pq_init_def PQ_BLOCKS_def)
  obtain q' where "pq_rel PQ_BLOCKS q' [7 :: nat \<mapsto> 70000, 8 \<mapsto> 3]"
    using enqueue_spec [OF q(1), where x = 8 and c = 3] q(2) by (auto simp: PQ_BLOCKS_def)
  then show ?thesis using cpq.count_0 by fastforce
qed

lemma pq_dequeue_correct_witness:
  "\<exists>q q'. dequeue (deq_fuel PQ_BLOCKS q) PQ_BLOCKS q = Inr (8 :: nat, 3, q') \<and>
     pq_rel PQ_BLOCKS q' [7 \<mapsto> 70000]"
proof -
  obtain q where q: "pq_rel PQ_BLOCKS q [7 :: nat \<mapsto> 70000, 8 \<mapsto> 3]" "pq_size q \<noteq> 0"
    using pq_two_queued by blast
  obtain x c q' where d: "dequeue (deq_fuel PQ_BLOCKS q) PQ_BLOCKS q = Inr (x, c, q')"
      "[7 :: nat \<mapsto> 70000, 8 \<mapsto> 3] x = Some c" "pq_rel PQ_BLOCKS q' ([7 :: nat \<mapsto> 70000, 8 \<mapsto> 3](x := None))"
      "\<forall>y d. [7 :: nat \<mapsto> 70000, 8 \<mapsto> 3] y = Some d \<longrightarrow> c \<le> d"
    using pq_dequeue_correct [OF q] by blast
  have "c \<le> 3" using d(4) [rule_format, of 8 3] by simp
  with d(2) have "x = 8" "c = 3" by (auto split: if_splits)
  with d show ?thesis by (auto simp: fun_upd_twist)
qed

end
