(* ===== verification/HashFamily.thy ===== *)
theory HashFamily
  imports Prelude
begin

text \<open>
  The hash families of the cache arrays (hash.h, hash.cpp): the H3 family, whose matrix is filled
  from a random generator at construction, and the identity.  The generator (a vendored Mersenne
  twister) is a parameter: a function from its state to a 32-bit output and the next state.

  The lemmas show that the hand-unrolled evaluation is an exclusive-or of rotated rows, hence
  linear over exclusive-or, that its matrix accesses stay inside the allocated matrix, and that
  it is not the function of the simpler loop kept in the source's comment.
\<close>

record h3 =
  numFuncs :: nat
  resShift :: nat
  hMatrix :: "u64 list"

definition h3_resShift :: "nat \<Rightarrow> nat res" where
  "h3_resShift outputBits =
     (if outputBits \<le> 8 then Inr 3
      else if outputBits \<le> 16 then Inr 2
      else if outputBits \<le> 32 then Inr 1
      else if outputBits \<le> 64 then Inr 0
      else Inl Panicked)"

fun gen_val :: "('g \<Rightarrow> u32 \<times> 'g) \<Rightarrow> nat \<Rightarrow> u64 \<Rightarrow> 'g \<Rightarrow> u64 \<times> 'g" where
  "gen_val randInt 0 val g = (val, g)"
| "gen_val randInt (Suc k) val g =
     (let val1 = push_bit 1 val; (r, g1) = randInt g
      in gen_val randInt k (if r mod 2 = 0 then val1 + 1 else val1) g1)"

fun gen_matrix :: "('g \<Rightarrow> u32 \<times> 'g) \<Rightarrow> nat \<Rightarrow> 'g \<Rightarrow> u64 list" where
  "gen_matrix randInt 0 g = []"
| "gen_matrix randInt (Suc n) g =
     (let (val, g1) = gen_val randInt 64 0 g in val # gen_matrix randInt n g1)"

definition H3HashFamily :: "('g \<Rightarrow> u32 \<times> 'g) \<Rightarrow> 'g \<Rightarrow> nat \<Rightarrow> nat \<Rightarrow> h3 res" where
  "H3HashFamily randInt seed numFunctions outputBits =
     rbind (h3_resShift outputBits) (\<lambda>sh.
       Inr \<lparr>numFuncs = numFunctions, resShift = sh,
            hMatrix = gen_matrix randInt (64 div 2 ^ sh * numFunctions) seed\<rparr>)"

text \<open>\<open>(r << k) | (r >> (64 - k))\<close>\<close>

definition rotl :: "nat \<Rightarrow> u64 \<Rightarrow> u64" where
  "rotl k r = push_bit k r OR drop_bit (64 - k) r"

text \<open>One iteration of the unrolled loop: eight rows from \<open>base\<close>.\<close>

definition h3_round :: "u64 list \<Rightarrow> u64 \<Rightarrow> nat \<Rightarrow> u64 \<Rightarrow> u64 res" where
  "h3_round M val base res =
     rbind (aget M base) (\<lambda>m0. rbind (aget M (base + 1)) (\<lambda>m1.
     rbind (aget M (base + 2)) (\<lambda>m2. rbind (aget M (base + 3)) (\<lambda>m3.
     rbind (aget M (base + 4)) (\<lambda>m4. rbind (aget M (base + 5)) (\<lambda>m5.
     rbind (aget M (base + 6)) (\<lambda>m6. rbind (aget M (base + 7)) (\<lambda>m7.
      let res0 = val AND m0; res1 = val AND m1; res2 = val AND m2; res3 = val AND m3;
          res4 = val AND m4; res5 = val AND m5; res6 = val AND m6; res7 = val AND m7;
          ra = res XOR (res0 XOR rotl 1 res1 XOR rotl 2 res2 XOR rotl 3 res3);
          rb = ra XOR (rotl 4 res4 XOR rotl 5 res5 XOR rotl 6 res6 XOR rotl 7 res7)
      in Inr (rotl 8 rb)))))))))"

fun h3_loop :: "u64 list \<Rightarrow> u64 \<Rightarrow> nat \<Rightarrow> nat \<Rightarrow> u64 \<Rightarrow> u64 res" where
  "h3_loop M val 0 base res = Inr res"
| "h3_loop M val (Suc n) base res =
     rbind (h3_round M val base res) (h3_loop M val n (base + 8))"

definition h3_fold :: "nat \<Rightarrow> u64 \<Rightarrow> u64" where
  "h3_fold sh res =
     (let f = (\<lambda>k r. drop_bit k r XOR r) in
      if sh = 1 then f 32 res
      else if sh = 2 then f 16 (f 32 res)
      else if sh = 3 then f 8 (f 16 (f 32 res))
      else res)"

definition h3_hash :: "h3 \<Rightarrow> nat \<Rightarrow> u64 \<Rightarrow> u64 res" where
  "h3_hash h fid val =
     check (fid < numFuncs h) AssertFailed
      (rbind (h3_loop (hMatrix h) val (64 div 2 ^ resShift h div 8) (fid * 2 ^ (6 - resShift h)) 0)
        (\<lambda>res. Inr (h3_fold (resShift h) res)))"

definition id_hash :: "nat \<Rightarrow> u64 \<Rightarrow> u64" where
  "id_hash fid val = val"

text \<open>The loop of the source's comment, for 64-bit hashes.\<close>

fun h3_comment_loop :: "u64 list \<Rightarrow> u64 \<Rightarrow> nat \<Rightarrow> nat \<Rightarrow> u64 \<Rightarrow> u64 res" where
  "h3_comment_loop M val 0 x res = Inr res"
| "h3_comment_loop M val (Suc n) x res =
     rbind (aget M x) (\<lambda>m. h3_comment_loop M val n (x + 1) (rotl 1 (res XOR (val AND m))))"

definition h3_comment_hash :: "h3 \<Rightarrow> nat \<Rightarrow> u64 \<Rightarrow> u64 res" where
  "h3_comment_hash h fid val = h3_comment_loop (hMatrix h) val 64 (fid * 64) 0"

subsection \<open>Rotations\<close>

lemma bit_rotl: "k \<le> 64 \<Longrightarrow> bit (rotl k r) n \<longleftrightarrow>
    n < 64 \<and> (if n < k then bit r (n + (64 - k)) else bit r (n - k))"
  using bit_imp_le_length [of r]
  by (auto simp: rotl_def bit_or_iff bit_push_bit_iff bit_drop_bit_eq add.commute possible_bit_def
      dest: bit_imp_le_length)

lemma rotl_xor: "k \<le> 64 \<Longrightarrow> rotl k (a XOR b) = rotl k a XOR rotl k b"
  by (auto simp: bit_eq_iff bit_rotl bit_xor_iff)

lemma rotl_rotl: "j + k \<le> 64 \<Longrightarrow> rotl j (rotl k a) = rotl (j + k) a"
  by (rule bit_eqI) (auto simp: bit_rotl dest: bit_imp_le_length intro!: arg_cong [of _ _ "bit a"])

lemma rotl_0 [simp]: "rotl k 0 = 0"
  by (simp add: rotl_def)

lemma rotl_eq_0: "k \<le> 64 \<Longrightarrow> rotl k a = 0 \<Longrightarrow> a = 0"
proof (rule bit_eqI)
  fix n
  assume k: "k \<le> 64" and z: "rotl k a = 0"
  show "bit a n = bit 0 n"
  proof (cases "bit a n")
    case True
    then have n: "n < 64" by (auto dest: bit_imp_le_length)
    have "\<not> bit (rotl k a) ((n + k) mod 64)" using z by simp
    with True n k show ?thesis
      by (cases "n + k < 64") (auto simp: bit_rotl mod_if split: if_splits)
  qed simp
qed

subsection \<open>The unrolled loop is an exclusive-or of rotated rows\<close>

definition h3_rows :: "u64 list \<Rightarrow> u64 \<Rightarrow> nat \<Rightarrow> u64" where
  "h3_rows M val base =
     (val AND M ! base) XOR rotl 1 (val AND M ! (base + 1)) XOR rotl 2 (val AND M ! (base + 2)) XOR
     rotl 3 (val AND M ! (base + 3)) XOR rotl 4 (val AND M ! (base + 4)) XOR
     rotl 5 (val AND M ! (base + 5)) XOR rotl 6 (val AND M ! (base + 6)) XOR
     rotl 7 (val AND M ! (base + 7))"

lemma h3_round_eq:
  "base + 7 < length M \<Longrightarrow> h3_round M val base res = Inr (rotl 8 (res XOR h3_rows M val base))"
  by (simp add: h3_round_def h3_rows_def Let_def xor.assoc)

fun h3_sum :: "u64 list \<Rightarrow> u64 \<Rightarrow> nat \<Rightarrow> nat \<Rightarrow> u64 \<Rightarrow> u64" where
  "h3_sum M val 0 base res = res"
| "h3_sum M val (Suc n) base res = h3_sum M val n (base + 8) (rotl 8 (res XOR h3_rows M val base))"

lemma h3_loop_eq:
  "base + 8 * n \<le> length M \<Longrightarrow> h3_loop M val n base res = Inr (h3_sum M val n base res)"
  by (induction n arbitrary: base res) (simp_all add: h3_round_eq)

lemma xor4: "(a XOR b) XOR (c XOR d) = (a XOR c) XOR (b XOR (d :: u64))"
  by (simp add: xor.assoc xor.left_commute)

lemma and_xor: "(a XOR b) AND m = (a AND m) XOR (b AND (m :: u64))"
  by (rule bit_eqI) (auto simp: bit_and_iff bit_xor_iff)

lemma h3_rows_xor: "h3_rows M (a XOR b) base = h3_rows M a base XOR h3_rows M b base"
  by (simp add: h3_rows_def and_xor rotl_xor xor.assoc xor.commute xor.left_commute)

lemma h3_sum_xor:
  "h3_sum M (a XOR b) n base (r XOR s) = h3_sum M a n base r XOR h3_sum M b n base s"
proof (induction n arbitrary: base r s)
  case (Suc n)
  have "rotl 8 ((r XOR s) XOR h3_rows M (a XOR b) base) =
      rotl 8 (r XOR h3_rows M a base) XOR rotl 8 (s XOR h3_rows M b base)"
    by (simp only: h3_rows_xor xor4 [of r s] rotl_xor)
  then show ?case by (simp only: h3_sum.simps Suc.IH)
qed simp

lemma h3_fold_xor: "h3_fold sh (a XOR b) = h3_fold sh a XOR h3_fold sh b"
proof -
  have f: "drop_bit k (a XOR b) XOR (a XOR b) = (drop_bit k a XOR a) XOR (drop_bit k b XOR (b :: u64))"
    for k a b by (simp only: drop_bit_xor xor4)
  show ?thesis unfolding h3_fold_def Let_def by (simp only: f split: if_split) blast
qed

subsection \<open>Bounds of the matrix accesses\<close>

lemma gen_matrix_length [simp]: "length (gen_matrix randInt n g) = n"
  by (induction n arbitrary: g) (auto simp: Let_def split: prod.split)

definition h3_ok :: "h3 \<Rightarrow> bool" where
  "h3_ok h \<longleftrightarrow> resShift h \<le> 3 \<and> length (hMatrix h) = 64 div 2 ^ resShift h * numFuncs h"

lemma H3HashFamily_ok:
  "H3HashFamily randInt seed nf ob = Inr h \<Longrightarrow> h3_ok h \<and> numFuncs h = nf"
  by (auto simp: H3HashFamily_def h3_ok_def h3_resShift_def res_simps split: if_splits)

lemma h3_hash_eq:
  assumes "h3_ok h" "fid < numFuncs h"
  shows "h3_hash h fid val =
    Inr (h3_fold (resShift h) (h3_sum (hMatrix h) val (8 div 2 ^ resShift h) (fid * 2 ^ (6 - resShift h)) 0))"
proof -
  define s where "s = resShift h"
  have s: "s \<in> {0, 1, 2, 3}" using assms(1) by (auto simp: h3_ok_def s_def)
  have l: "length (hMatrix h) = 64 div 2 ^ s * numFuncs h" using assms(1) by (simp add: h3_ok_def s_def)
  have "fid * 2 ^ (6 - s) + 8 * (8 div 2 ^ s) = 64 div 2 ^ s * Suc fid" "64 div 2 ^ s div 8 = (8 :: nat) div 2 ^ s"
    using s by auto
  moreover have "64 div 2 ^ s * Suc fid \<le> length (hMatrix h)"
    unfolding l using assms(2) by (intro mult_le_mono2) simp
  ultimately show ?thesis
    using assms(2) by (simp add: h3_hash_def s_def [symmetric] h3_loop_eq)
qed

subsection \<open>Properties\<close>

text \<open>Every hash function of a family that the constructor builds evaluates without an access
  outside the matrix, and it is linear over exclusive-or: the hash of \<open>a XOR b\<close> is the
  exclusive-or of the hashes, after the folding to the output width included.\<close>

lemma h3_hash_linear:
  assumes "H3HashFamily randInt seed nf outputBits = Inr h" and "fid < nf"
  shows "\<exists>ra rb. h3_hash h fid a = Inr ra \<and> h3_hash h fid b = Inr rb \<and>
    h3_hash h fid (a XOR b) = Inr (ra XOR rb)"
proof -
  have ok: "h3_ok h" "fid < numFuncs h" using H3HashFamily_ok [OF assms(1)] assms(2) by auto
  show ?thesis
    using h3_sum_xor [of "hMatrix h" a b _ _ 0 0] by (simp add: h3_hash_eq [OF ok] h3_fold_xor)
qed

definition h3_row1 :: h3 where
  "h3_row1 = \<lparr>numFuncs = 1, resShift = 0, hMatrix = (replicate 64 0)[1 := 1]\<rparr>"

lemma h3_comment_loop_0:
  "x + n \<le> 64 \<Longrightarrow> 1 < x \<Longrightarrow>
   h3_comment_loop ((replicate 64 0)[1 := 1]) val n x res = Inr ((rotl 1 ^^ n) res)"
proof (induction n arbitrary: x res)
  case (Suc n)
  then have "aget ((replicate 64 0)[1 := 1 :: u64]) x = Inr 0" by (simp add: nth_list_update)
  then show ?case using Suc by (simp add: funpow_swap1)
qed simp

lemma rotl_1_pow: "n \<le> 64 \<Longrightarrow> (rotl 1 ^^ n) a = rotl n a"
  by (induction n) (simp_all add: rotl_rotl, simp add: rotl_def)

text \<open>The simpler loop that the comment above \<open>hash\<close> gives as the code's reference computes
  another function: the comment's loop rotates row \<open>x\<close> of a block further left the earlier it is, the unrolled
  code rotates it by \<open>x\<close>.  With a matrix whose only non-zero row is the second, and its
  bit 0 set, the hashes of 1 are 2 and \<open>2 ^ 63\<close>.\<close>

theorem h3_comment_diverges:
  "h3_ok h3_row1 \<and> h3_hash h3_row1 0 1 = Inr 2 \<and> h3_comment_hash h3_row1 0 1 = Inr (2 ^ 63)"
proof (intro conjI)
  show "h3_ok h3_row1" by (simp add: h3_ok_def h3_row1_def)
  show "h3_hash h3_row1 0 1 = Inr 2" by code_simp
  have start: "h3_comment_loop ((replicate 64 0)[1 := 1]) 1 (Suc (Suc n)) 0 0 =
      Inr ((rotl 1 ^^ n) (rotl 1 1))" if "n \<le> 62" for n
    using that h3_comment_loop_0 [of 2 n 1 "rotl 1 1"] by (simp add: numeral_2_eq_2)
  have "h3_comment_hash h3_row1 0 1 = Inr ((rotl 1 ^^ 62) (rotl 1 1))"
    using start [of 62] by (simp add: h3_comment_hash_def h3_row1_def)
  also have "\<dots> = Inr (2 ^ 63)"
  proof -
    have "(rotl 1 ^^ 62) (rotl 1 1) = rotl 62 (rotl 1 1)" by (rule rotl_1_pow) simp
    also have "\<dots> = 2 ^ 63" by (simp add: rotl_def)
    finally show ?thesis by (rule arg_cong)
  qed
  finally show "h3_comment_hash h3_row1 0 1 = Inr (2 ^ 63)" .
qed

lemma h3_hash_linear_witness:
  "\<exists>h ra rb. H3HashFamily (\<lambda>g. (g, g + 1)) 5 2 16 = Inr h \<and> h3_hash h 1 6 = Inr ra \<and>
    h3_hash h 1 12 = Inr rb \<and> h3_hash h 1 (6 XOR 12) = Inr (ra XOR rb)"
proof -
  obtain h where h: "H3HashFamily (\<lambda>g. (g, g + 1)) 5 2 16 = Inr h"
    by (simp add: H3HashFamily_def h3_resShift_def)
  show ?thesis using h3_hash_linear [OF h, of 1 6 12] h by auto
qed

end
