(* ===== verification/ReplPolicies.thy ===== *)
theory ReplPolicies
  imports MemTypes
begin

text \<open>
  The replacement policies (repl_policies.h, rrip_repl.h).  A policy is an object with three
  virtual methods, \<open>update\<close>, \<open>replaced\<close> and \<open>rankCands\<close>; the record \<open>ReplPolicy\<close>
  is its method table, over the policy's own state.  The candidates of an array are the list
  of line numbers that its iterator visits.  The coherence controller that some policies ask for
  sharers and validity is the record \<open>ccinfo\<close> of the two functions they call.

  The locale \<open>repl_policy\<close> states what the cache arrays rely on: ranking returns one of the
  candidates, and no call fails when the calls come in the order lookup/update*, rank,
  update*, replaced.  Policies that keep candidates between calls have a \<open>ready\<close> and
  a \<open>ranked\<close> state.
\<close>

record ccinfo =
  cc_numSharers :: "nat \<Rightarrow> u32"
  cc_isValid :: "nat \<Rightarrow> bool"

record 'r ReplPolicy =
  rp_update :: "nat \<Rightarrow> MemReq \<Rightarrow> 'r \<Rightarrow> 'r res"
  rp_replaced :: "nat \<Rightarrow> 'r \<Rightarrow> 'r res"
  rp_rankCands :: "ccinfo \<Rightarrow> MemReq \<Rightarrow> nat list \<Rightarrow> 'r \<Rightarrow> (nat \<times> 'r) res"

locale repl_policy =
  fixes rp :: "'r ReplPolicy"
    and lines :: "'r \<Rightarrow> nat"
    and ready :: "'r \<Rightarrow> bool"
    and ranked :: "'r \<Rightarrow> bool"
    and cands_ok :: "'r \<Rightarrow> nat list \<Rightarrow> bool"
  assumes upd_ready: "ready r \<Longrightarrow> i < lines r \<Longrightarrow>
      \<exists>r'. rp_update rp i q r = Inr r' \<and> ready r' \<and> lines r' = lines r \<and> cands_ok r' = cands_ok r"
    and upd_ranked: "ranked r \<Longrightarrow> i < lines r \<Longrightarrow>
      \<exists>r'. rp_update rp i q r = Inr r' \<and> ranked r' \<and> lines r' = lines r \<and> cands_ok r' = cands_ok r"
    and repl: "ranked r \<Longrightarrow> i < lines r \<Longrightarrow>
      \<exists>r'. rp_replaced rp i r = Inr r' \<and> ready r' \<and> lines r' = lines r \<and> cands_ok r' = cands_ok r"
    and rank: "ready r \<Longrightarrow> cands_ok r cs \<Longrightarrow> set cs \<subseteq> {..<lines r} \<Longrightarrow> cs \<noteq> [] \<Longrightarrow>
      \<exists>v r'. rp_rankCands rp cc q cs r = Inr (v, r') \<and> v \<in> set cs \<and> ranked r' \<and>
        lines r' = lines r \<and> cands_ok r' = cands_ok r"
begin

text \<open>A whole replacement: rank, then the old line leaves and the new one is touched.\<close>

lemma rank_replace_update:
  assumes "ready r" "cands_ok r cs" "set cs \<subseteq> {..<lines r}" "cs \<noteq> []"
  shows "\<exists>v r1 r2 r3. rp_rankCands rp cc q cs r = Inr (v, r1) \<and> v \<in> set cs \<and>
    rp_replaced rp v r1 = Inr r2 \<and> rp_update rp v q r2 = Inr r3 \<and> ready r3 \<and>
    lines r3 = lines r \<and> cands_ok r3 = cands_ok r"
proof -
  from rank [OF assms, of cc q] obtain v r1 where 1: "rp_rankCands rp cc q cs r = Inr (v, r1)"
      "v \<in> set cs" "ranked r1" "lines r1 = lines r" "cands_ok r1 = cands_ok r" by blast
  then have v: "v < lines r1" using assms(3) by auto
  from repl [OF 1(3) v] obtain r2 where 2: "rp_replaced rp v r1 = Inr r2" "ready r2"
      "lines r2 = lines r1" "cands_ok r2 = cands_ok r1" by blast
  then have "v < lines r2" using v by simp
  from upd_ready [OF 2(2) this, of q] 1 2 show ?thesis by metis
qed

end

text \<open>\<open>LegacyReplPolicy::rank\<close>: start, record every candidate, pick the best.\<close>

fun record_all :: "(nat \<Rightarrow> 'r \<Rightarrow> 'r res) \<Rightarrow> nat list \<Rightarrow> 'r \<Rightarrow> 'r res" where
  "record_all rec [] r = Inr r"
| "record_all rec (c # cs) r = rbind (rec c r) (record_all rec cs)"

definition legacy_rank ::
  "(MemReq \<Rightarrow> 'r \<Rightarrow> 'r) \<Rightarrow> (nat \<Rightarrow> 'r \<Rightarrow> 'r res) \<Rightarrow> ('r \<Rightarrow> (nat \<times> 'r) res) \<Rightarrow>
   MemReq \<Rightarrow> nat list \<Rightarrow> 'r \<Rightarrow> (nat \<times> 'r) res" where
  "legacy_rank start rec best req cands r = rbind (record_all rec cands (start req r)) best"

text \<open>The accesses of a history, latest first.\<close>

fun after_updates :: "'r ReplPolicy \<Rightarrow> (nat \<times> MemReq) list \<Rightarrow> 'r \<Rightarrow> 'r res" where
  "after_updates rp [] r = Inr r"
| "after_updates rp ((i, q) # h) r = rbind (after_updates rp h r) (rp_update rp i q)"

text \<open>When line \<open>x\<close> was last accessed in a history: 0 if never, else the number of the access.\<close>

fun last_use :: "(nat \<times> MemReq) list \<Rightarrow> nat \<Rightarrow> nat" where
  "last_use [] x = 0"
| "last_use ((i, q) # h) x = (if i = x then Suc (length h) else last_use h x)"

lemma last_use_le: "last_use h x \<le> length h"
  by (induction h x rule: last_use.induct) auto

text \<open>Appending to a buffer of fixed size, as \<open>candArray[candIdx++] = id\<close> does.\<close>

lemma take_append_update:
  "k < length buf \<Longrightarrow> take (Suc k) (buf[k := x]) = take k buf @ [x]"
  by (simp add: take_Suc_conv_app_nth)

subsection \<open>LRU\<close>

record lru =
  lru_timestamp :: u64
  lru_array :: "u64 list"

definition lru_init :: "nat \<Rightarrow> lru" where
  "lru_init n = \<lparr>lru_timestamp = 1, lru_array = replicate n 0\<rparr>"

definition lru_update :: "nat \<Rightarrow> MemReq \<Rightarrow> lru \<Rightarrow> lru res" where
  "lru_update i req r =
     rbind (aput (lru_array r) i (lru_timestamp r)) (\<lambda>a.
       Inr (r\<lparr>lru_array := a, lru_timestamp := lru_timestamp r + 1\<rparr>))"

definition lru_replaced :: "nat \<Rightarrow> lru \<Rightarrow> lru res" where
  "lru_replaced i r = rbind (aput (lru_array r) i 0) (\<lambda>a. Inr (r\<lparr>lru_array := a\<rparr>))"

definition lru_score :: "bool \<Rightarrow> ccinfo \<Rightarrow> lru \<Rightarrow> nat \<Rightarrow> u64 res" where
  "lru_score sharersAware cc r i =
     rbind (aget (lru_array r) i) (\<lambda>a.
       Inr ((if sharersAware then ucast (cc_numSharers cc i) else 0) * lru_timestamp r +
            a * (if cc_isValid cc i then 1 else 0)))"

text \<open>The loop of \<open>rank\<close>; the score is kept in a 32-bit variable.\<close>

fun lru_rank_loop :: "bool \<Rightarrow> ccinfo \<Rightarrow> lru \<Rightarrow> nat list \<Rightarrow> nat \<Rightarrow> u64 \<Rightarrow> nat res" where
  "lru_rank_loop sa cc r [] bestCand bestScore = Inr bestCand"
| "lru_rank_loop sa cc r (c # cs) bestCand bestScore =
     rbind (lru_score sa cc r c) (\<lambda>sc.
       let s = ucast (ucast sc :: u32) :: u64 in
       lru_rank_loop sa cc r cs (if s < bestScore then c else bestCand) (min s bestScore))"

definition lru_rank :: "bool \<Rightarrow> ccinfo \<Rightarrow> MemReq \<Rightarrow> nat list \<Rightarrow> lru \<Rightarrow> (nat \<times> lru) res" where
  "lru_rank sa cc req cands r =
     rbind (lru_rank_loop sa cc r cands (2 ^ 32 - 1) (- 1)) (\<lambda>b. Inr (b, r))"

definition LRUReplPolicy :: "bool \<Rightarrow> lru ReplPolicy" where
  "LRUReplPolicy sa =
     \<lparr>rp_update = lru_update, rp_replaced = lru_replaced, rp_rankCands = lru_rank sa\<rparr>"

definition lru_key :: "bool \<Rightarrow> ccinfo \<Rightarrow> lru \<Rightarrow> nat \<Rightarrow> u32" where
  "lru_key sa cc r c =
     ucast ((if sa then ucast (cc_numSharers cc c) else 0) * lru_timestamp r +
            lru_array r ! c * (if cc_isValid cc c then 1 else 0))"

lemma lru_rank_loop_spec:
  assumes "set cs \<subseteq> {..<length (lru_array r)}" and "b = ucast (k :: u32)" and "lru_key sa cc r v = k"
  shows "\<exists>w. lru_rank_loop sa cc r cs v b = Inr w \<and> w \<in> insert v (set cs) \<and>
    (\<forall>c \<in> insert v (set cs). lru_key sa cc r w \<le> lru_key sa cc r c)"
  using assms
proof (induction cs arbitrary: v b k)
  case (Cons c cs)
  let ?s = "lru_key sa cc r c"
  have step: "lru_rank_loop sa cc r (c # cs) v b =
      lru_rank_loop sa cc r cs (if ?s < k then c else v) (ucast (min ?s k))"
    using Cons.prems by (simp add: lru_score_def lru_key_def Let_def ucast_32_64_min)
  have "\<exists>w. lru_rank_loop sa cc r cs (if ?s < k then c else v) (ucast (min ?s k)) = Inr w \<and>
      w \<in> insert (if ?s < k then c else v) (set cs) \<and>
      (\<forall>x \<in> insert (if ?s < k then c else v) (set cs). lru_key sa cc r w \<le> lru_key sa cc r x)"
    using Cons.prems by (intro Cons.IH) auto
  then obtain w where w: "lru_rank_loop sa cc r cs (if ?s < k then c else v) (ucast (min ?s k)) = Inr w"
      "w \<in> insert (if ?s < k then c else v) (set cs)"
      "\<forall>x \<in> insert (if ?s < k then c else v) (set cs). lru_key sa cc r w \<le> lru_key sa cc r x" by blast
  have "lru_key sa cc r w \<le> ?s" "lru_key sa cc r w \<le> lru_key sa cc r v"
    using w(3) Cons.prems(3) by (auto split: if_splits)
  with w step show ?case by (auto split: if_splits)
qed simp

lemma lru_rank_spec:
  assumes "set cs \<subseteq> {..<length (lru_array r)}" "cs \<noteq> []"
  shows "\<exists>v. lru_rank sa cc q cs r = Inr (v, r) \<and> v \<in> set cs \<and>
    (\<forall>c \<in> set cs. lru_key sa cc r v \<le> lru_key sa cc r c)"
proof -
  obtain c cs' where cs: "cs = c # cs'" using assms(2) by (cases cs) auto
  have "min (ucast (lru_key sa cc r c)) (- 1) = (ucast (lru_key sa cc r c) :: u64)"
    by (meson less_imp_le min.absorb1 ucast_32_64_max)
  then have "lru_rank_loop sa cc r cs (2 ^ 32 - 1) (- 1) =
      lru_rank_loop sa cc r cs' c (ucast (lru_key sa cc r c))"
    using assms(1) cs by (simp add: lru_score_def lru_key_def Let_def)
  with lru_rank_loop_spec [of cs' r _ "lru_key sa cc r c" sa cc c] assms(1) cs show ?thesis
    by (auto simp: lru_rank_def)
qed

interpretation lru_rp: repl_policy "LRUReplPolicy sa" "\<lambda>r. length (lru_array r)" "\<lambda>_. True" "\<lambda>_. True"
  "\<lambda>_ _. True" for sa
proof unfold_locales
  fix r :: lru and cs :: "nat list" and cc q
  assume "set cs \<subseteq> {..<length (lru_array r)}" "cs \<noteq> []"
  from lru_rank_spec [OF this, of sa cc q]
  show "\<exists>v r'. rp_rankCands (LRUReplPolicy sa) cc q cs r = Inr (v, r') \<and> v \<in> set cs \<and> True \<and>
      length (lru_array r') = length (lru_array r) \<and> (\<lambda>_. True) = (\<lambda>_. True)"
    by (auto simp: LRUReplPolicy_def)
qed (auto simp: LRUReplPolicy_def lru_update_def lru_replaced_def)

lemma lru_history:
  assumes "length h + 1 < 2 ^ 64" "fst ` set h \<subseteq> {..<n}"
  shows "\<exists>r. after_updates (LRUReplPolicy sa) h (lru_init n) = Inr r \<and>
    unat (lru_timestamp r) = Suc (length h) \<and> length (lru_array r) = n \<and>
    (\<forall>x < n. unat (lru_array r ! x) = last_use h x)"
  using assms
proof (induction h)
  case Nil
  then show ?case by (simp add: lru_init_def)
next
  case (Cons iq h)
  obtain i q where iq: "iq = (i, q)" by force
  from Cons obtain r where r: "after_updates (LRUReplPolicy sa) h (lru_init n) = Inr r"
      "unat (lru_timestamp r) = Suc (length h)" "length (lru_array r) = n"
      "\<forall>x < n. unat (lru_array r ! x) = last_use h x" by auto
  have "unat (lru_timestamp r + 1) = Suc (Suc (length h))"
    using r(2) Cons.prems(1) by (simp add: unat_word_ariths)
  moreover have "i < n" using Cons.prems(2) iq by simp
  ultimately show ?case
    using r iq by (auto simp: LRUReplPolicy_def lru_update_def nth_list_update)
qed

text \<open>C22. As long as fewer than 2^32 - 1 accesses were made, LRU evicts, among valid candidates
  without sharers, one whose last access is no later than any other candidate's.\<close>

theorem lru_evicts_least_recent:
  assumes "length h < 2 ^ 32 - 1" and "fst ` set h \<subseteq> {..<n}" and "set cs \<subseteq> {..<n}" and "cs \<noteq> []"
    and "\<forall>c \<in> set cs. cc_isValid cc c \<and> cc_numSharers cc c = 0"
  shows "\<exists>r v. after_updates (LRUReplPolicy sa) h (lru_init n) = Inr r \<and>
    rp_rankCands (LRUReplPolicy sa) cc q cs r = Inr (v, r) \<and> v \<in> set cs \<and>
    (\<forall>c \<in> set cs. last_use h v \<le> last_use h c)"
proof -
  from lru_history [OF _ assms(2), of sa] assms(1) obtain r where
    r: "after_updates (LRUReplPolicy sa) h (lru_init n) = Inr r" "length (lru_array r) = n"
      "\<forall>x < n. unat (lru_array r ! x) = last_use h x" by auto
  have key: "unat (lru_key sa cc r c) = last_use h c" if "c \<in> set cs" for c
  proof -
    have c: "c < n" using assms(3) that by auto
    then have "unat (lru_array r ! c) < 2 ^ 32"
      using r(3) last_use_le [of h c] assms(1) by (simp add: le_less_trans)
    then show ?thesis using assms(5) that r(3) c by (simp add: lru_key_def unat_ucast_64_32)
  qed
  from lru_rank_spec [of cs r sa cc q] assms(3,4) r(2) obtain v where
    "lru_rank sa cc q cs r = Inr (v, r)" "v \<in> set cs" "\<forall>c \<in> set cs. lru_key sa cc r v \<le> lru_key sa cc r c" by auto
  with r(1) key show ?thesis by (auto simp: LRUReplPolicy_def word_le_nat_alt)
qed

text \<open>C25. After exactly 2^32 accesses it evicts the line accessed last: \<open>rank\<close> keeps the 64-bit
  score in a 32-bit variable, so the newest line scores 0.\<close>

theorem lru_truncation_evicts_newest:
  assumes "length h = 2 ^ 32 - 1" and "fst ` set h \<subseteq> {..<n}" and "1 < n" and "cc_isValid cc 0" and "cc_isValid cc 1"
  shows "\<exists>r. after_updates (LRUReplPolicy False) ((0, q) # h) (lru_init n) = Inr r \<and>
    rp_rankCands (LRUReplPolicy False) cc q [0, 1] r = Inr (0, r) \<and>
    last_use ((0, q) # h) 1 < last_use ((0, q) # h) 0"
proof -
  from lru_history [of "(0, q) # h" n False] assms(1-3) obtain r where
    r: "after_updates (LRUReplPolicy False) ((0, q) # h) (lru_init n) = Inr r" "length (lru_array r) = n"
      "\<forall>x < n. unat (lru_array r ! x) = last_use ((0, q) # h) x" by auto
  have "unat (lru_array r ! 0) = 2 ^ 32" using r(3) [rule_format, of 0] assms(1,3) by simp
  then have "lru_array r ! 0 = 2 ^ 32" by (simp add: word_unat_eq_iff)
  then have "ucast (lru_array r ! 0) = (0 :: u32)" by simp
  then have "rp_rankCands (LRUReplPolicy False) cc q [0, 1] r = Inr (0, r)"
    using r(2) assms(3-5) zero_less_max_64 by (simp add: LRUReplPolicy_def lru_rank_def lru_score_def Let_def)
  with r(1) last_use_le [of h 1] show ?thesis by auto
qed

lemma lru_evicts_least_recent_witness:
  "\<exists>r. after_updates (LRUReplPolicy True) [(1, (req_of 5)), (0, (req_of 5)), (2, (req_of 5)), (1, (req_of 5))] (lru_init 3) = Inr r \<and>
     rp_rankCands (LRUReplPolicy True) \<lparr>cc_numSharers = \<lambda>_. 0, cc_isValid = \<lambda>_. True\<rparr> (req_of 5) [0, 1, 2] r = Inr (2, r)"
proof -
  let ?h = "[(1, (req_of 5)), (0, (req_of 5)), (2, (req_of 5)), (1, (req_of 5))]"
  obtain r v where v: "after_updates (LRUReplPolicy True) ?h (lru_init 3) = Inr r"
      "rp_rankCands (LRUReplPolicy True) \<lparr>cc_numSharers = \<lambda>_. 0, cc_isValid = \<lambda>_. True\<rparr> (req_of 5) [0, 1, 2] r = Inr (v, r)"
      "v \<in> set [0, 1, 2]" "\<forall>c \<in> set [0, 1, 2]. last_use ?h v \<le> last_use ?h c"
    using lru_evicts_least_recent [of ?h 3 "[0, 1, 2]" "\<lparr>cc_numSharers = \<lambda>_. 0, cc_isValid = \<lambda>_. True\<rparr>" True "req_of 5"] by auto
  from v(3,4) have "v = 2" by auto
  with v show ?thesis by auto
qed

lemma lru_truncation_evicts_newest_witness:
  "\<exists>r. after_updates (LRUReplPolicy False) ((0, (req_of 5)) # replicate (2 ^ 32 - 1) (1, (req_of 5))) (lru_init 2) = Inr r \<and>
     rp_rankCands (LRUReplPolicy False) \<lparr>cc_numSharers = \<lambda>_. 0, cc_isValid = \<lambda>_. True\<rparr> (req_of 5) [0, 1] r = Inr (0, r)"
  using lru_truncation_evicts_newest [of "replicate (2 ^ 32 - 1) (1, (req_of 5))" 2
      "\<lparr>cc_numSharers = \<lambda>_. 0, cc_isValid = \<lambda>_. True\<rparr>" "req_of 5", OF length_replicate] by auto

subsection \<open>Not-recently-used\<close>

record nru =
  nru_array :: "u32 list"
  nru_candArray :: "nat list"
  nru_youngLines :: u32
  nru_candVal :: u32
  nru_candIdx :: nat

definition nru_init :: "nat \<Rightarrow> nat \<Rightarrow> nru" where
  "nru_init numLines numCands =
     \<lparr>nru_array = replicate numLines 0, nru_candArray = replicate numCands 0,
      nru_youngLines = 0, nru_candVal = 2 ^ 20, nru_candIdx = 0\<rparr>"

definition nru_update :: "nat \<Rightarrow> MemReq \<Rightarrow> nru \<Rightarrow> nru res" where
  "nru_update i req r =
     rbind (aget (nru_array r) i) (\<lambda>a.
      let young = nru_youngLines r + (1 - drop_bit 1 a);
          arr = (nru_array r)[i := a OR 2]
      in if length arr div 2 \<le> unat young
         then Inr (r\<lparr>nru_array := map (drop_bit 1) arr, nru_youngLines := 0\<rparr>)
         else Inr (r\<lparr>nru_array := arr, nru_youngLines := young\<rparr>))"

definition nru_recordCandidate :: "nat \<Rightarrow> nru \<Rightarrow> nru res" where
  "nru_recordCandidate i r =
     rbind (aget (nru_array r) i) (\<lambda>iVal.
      if iVal < nru_candVal r
      then rbind (aput (nru_candArray r) 0 i) (\<lambda>ca.
        Inr (r\<lparr>nru_candVal := iVal, nru_candArray := ca, nru_candIdx := 1\<rparr>))
      else if iVal = nru_candVal r
      then rbind (aput (nru_candArray r) (nru_candIdx r) i) (\<lambda>ca.
        Inr (r\<lparr>nru_candArray := ca, nru_candIdx := nru_candIdx r + 1\<rparr>))
      else Inr r)"

definition nru_getBestCandidate :: "nru \<Rightarrow> (nat \<times> nru) res" where
  "nru_getBestCandidate r =
     check (nru_candIdx r > 0) AssertFailed
      (rbind (aget (nru_candArray r) (unat (nru_youngLines r) mod nru_candIdx r)) (\<lambda>b. Inr (b, r)))"

definition nru_replaced :: "nat \<Rightarrow> nru \<Rightarrow> nru res" where
  "nru_replaced i r =
     rbind (aput (nru_array r) i 0) (\<lambda>a.
       Inr (r\<lparr>nru_candVal := 2 ^ 20, nru_candIdx := 0, nru_array := a\<rparr>))"

definition NRUReplPolicy :: "nru ReplPolicy" where
  "NRUReplPolicy =
     \<lparr>rp_update = nru_update, rp_replaced = nru_replaced,
      rp_rankCands = (\<lambda>cc. legacy_rank (\<lambda>_ r. r) nru_recordCandidate nru_getBestCandidate)\<rparr>"

definition nru_inv :: "nru \<Rightarrow> bool" where
  "nru_inv r \<longleftrightarrow> (\<forall>a \<in> set (nru_array r). a < 4)"

definition nru_ready :: "nru \<Rightarrow> bool" where
  "nru_ready r \<longleftrightarrow> nru_inv r \<and> nru_candVal r = 2 ^ 20 \<and> nru_candIdx r = 0"

text \<open>What the candidate buffer holds after the candidates \<open>ps\<close> were recorded.\<close>

definition nru_seen :: "nat list \<Rightarrow> nru \<Rightarrow> bool" where
  "nru_seen ps r \<longleftrightarrow>
     (ps = [] \<longrightarrow> nru_candVal r = 2 ^ 20) \<and> nru_candIdx r \<le> length ps \<and> (ps \<noteq> [] \<longrightarrow> 0 < nru_candIdx r) \<and>
     (\<forall>p \<in> set ps. nru_candVal r \<le> nru_array r ! p) \<and>
     (\<forall>c \<in> set (take (nru_candIdx r) (nru_candArray r)). c \<in> set ps \<and> nru_array r ! c = nru_candVal r)"

lemma word_less_4: "a < (4 :: u32) \<Longrightarrow> a \<in> {0, 1, 2, 3}"
proof -
  assume "a < 4"
  then have "unat a < 4" by (simp add: word_less_nat_alt)
  then have "unat a = 0 \<or> unat a = 1 \<or> unat a = 2 \<or> unat a = 3" by arith
  then show ?thesis by (auto simp: word_unat_eq_iff)
qed

lemma young_less_4: "a < 4 \<Longrightarrow> a OR 2 < (4 :: u32)" "a < 4 \<Longrightarrow> drop_bit (Suc 0) a < (4 :: u32)"
    "a < 4 \<Longrightarrow> drop_bit (Suc 0) a OR 1 < (4 :: u32)"
  by (auto dest!: word_less_4)

lemma nru_inv_update:
  "nru_inv r \<Longrightarrow> i < length (nru_array r) \<Longrightarrow> nru_update i q r = Inr r' \<Longrightarrow> nru_inv r'"
  by (auto simp: nru_inv_def nru_update_def Let_def res_simps young_less_4 dest!: set_update_subset_insert [THEN subsetD]
      split: if_splits)

lemma nru_record_step:
  assumes "nru_inv r" "nru_seen ps r" "i < length (nru_array r)" "length ps < length (nru_candArray r)"
  shows "\<exists>r'. nru_recordCandidate i r = Inr r' \<and> nru_seen (ps @ [i]) r' \<and> nru_array r' = nru_array r \<and>
    length (nru_candArray r') = length (nru_candArray r) \<and> nru_youngLines r' = nru_youngLines r"
proof -
  let ?v = "nru_array r ! i"
  have k: "nru_candIdx r < length (nru_candArray r)" using assms(2,4) by (simp add: nru_seen_def)
  have v4: "?v < 4" using assms(1,3) by (simp add: nru_inv_def)
  have v20: "\<not> 2 ^ 20 < ?v" using v4 by (simp add: word_less_nat_alt)
  consider "?v < nru_candVal r" | "?v = nru_candVal r" | "nru_candVal r < ?v" by (rule linorder_cases)
  then show ?thesis
  proof cases
    case 1
    have "nru_seen (ps @ [i]) (r\<lparr>nru_candVal := ?v, nru_candArray := (nru_candArray r)[0 := i], nru_candIdx := 1\<rparr>)"
      using assms(2) 1 k by (cases "nru_candArray r") (auto simp: nru_seen_def)
    moreover have "0 < length (nru_candArray r)" using k by linarith
    ultimately show ?thesis using 1 assms(3) by (auto simp: nru_recordCandidate_def)
  next
    case 2
    have "ps \<noteq> []" using assms(2) 2 v4 by (auto simp: nru_seen_def)
    then have "nru_seen (ps @ [i]) (r\<lparr>nru_candArray := (nru_candArray r)[nru_candIdx r := i],
        nru_candIdx := nru_candIdx r + 1\<rparr>)"
      using assms(2) 2 k by (auto simp: nru_seen_def take_append_update)
    with 2 assms(3) k show ?thesis by (auto simp: nru_recordCandidate_def)
  next
    case 3
    have "ps \<noteq> []" using assms(2) 3 v20 by (auto simp: nru_seen_def)
    with 3 assms(2) have "nru_seen (ps @ [i]) r" by (auto simp: nru_seen_def)
    with 3 assms(3) show ?thesis by (auto simp: nru_recordCandidate_def)
  qed
qed

lemma nru_record_all:
  assumes "nru_inv r" "nru_seen ps r" "set cs \<subseteq> {..<length (nru_array r)}"
    "length ps + length cs \<le> length (nru_candArray r)"
  shows "\<exists>r'. record_all nru_recordCandidate cs r = Inr r' \<and> nru_seen (ps @ cs) r' \<and>
    nru_array r' = nru_array r \<and> length (nru_candArray r') = length (nru_candArray r) \<and>
    nru_youngLines r' = nru_youngLines r"
  using assms
proof (induction cs arbitrary: ps r)
  case (Cons c cs)
  from nru_record_step [OF Cons.prems(1,2), of c] Cons.prems(3,4) obtain r1 where
    1: "nru_recordCandidate c r = Inr r1" "nru_seen (ps @ [c]) r1" "nru_array r1 = nru_array r"
      "length (nru_candArray r1) = length (nru_candArray r)" "nru_youngLines r1 = nru_youngLines r" by auto
  have "\<exists>r'. record_all nru_recordCandidate cs r1 = Inr r' \<and> nru_seen ((ps @ [c]) @ cs) r' \<and>
    nru_array r' = nru_array r1 \<and> length (nru_candArray r') = length (nru_candArray r1) \<and>
    nru_youngLines r' = nru_youngLines r1"
    using Cons.prems 1 by (intro Cons.IH) (auto simp: nru_inv_def)
  with 1 show ?case by auto
qed auto

lemma nru_rank_spec:
  assumes "nru_ready r" "set cs \<subseteq> {..<length (nru_array r)}" "length cs \<le> length (nru_candArray r)" "cs \<noteq> []"
  shows "\<exists>v r'. rp_rankCands NRUReplPolicy cc q cs r = Inr (v, r') \<and> v \<in> set cs \<and> nru_inv r' \<and>
    (\<forall>c \<in> set cs. nru_array r ! v \<le> nru_array r ! c) \<and> nru_array r' = nru_array r \<and>
    length (nru_candArray r') = length (nru_candArray r)"
proof -
  have "nru_seen [] r" using assms(1) by (simp add: nru_ready_def nru_seen_def)
  with nru_record_all [of r "[]" cs] assms obtain r' where r': "record_all nru_recordCandidate cs r = Inr r'"
      "nru_seen cs r'" "nru_array r' = nru_array r" "length (nru_candArray r') = length (nru_candArray r)"
    by (auto simp: nru_ready_def)
  let ?k = "unat (nru_youngLines r') mod nru_candIdx r'"
  have k: "?k < nru_candIdx r'" "nru_candIdx r' \<le> length (nru_candArray r')"
    using r'(2,4) assms(3,4) by (auto simp: nru_seen_def)
  then have "nru_candArray r' ! ?k \<in> set (take (nru_candIdx r') (nru_candArray r'))"
    by (auto simp: in_set_conv_nth intro!: exI [of _ ?k])
  with r' k assms(1) show ?thesis
    by (auto simp: NRUReplPolicy_def legacy_rank_def nru_getBestCandidate_def nru_seen_def
        nru_ready_def nru_inv_def)
qed

interpretation nru_rp: repl_policy NRUReplPolicy "\<lambda>r. length (nru_array r)" nru_ready nru_inv
  "\<lambda>r cs. length cs \<le> length (nru_candArray r)"
proof unfold_locales
  fix r :: nru and i :: nat and q cs cc
  show "\<exists>r'. rp_update NRUReplPolicy i q r = Inr r' \<and> nru_ready r' \<and> length (nru_array r') = length (nru_array r) \<and>
      (\<lambda>cs. length cs \<le> length (nru_candArray r')) = (\<lambda>cs. length cs \<le> length (nru_candArray r))"
    if "nru_ready r" "i < length (nru_array r)"
    using that nru_inv_update [of r i q]
    by (auto simp: NRUReplPolicy_def nru_ready_def nru_update_def Let_def)
  show "\<exists>r'. rp_update NRUReplPolicy i q r = Inr r' \<and> nru_inv r' \<and> length (nru_array r') = length (nru_array r) \<and>
      (\<lambda>cs. length cs \<le> length (nru_candArray r')) = (\<lambda>cs. length cs \<le> length (nru_candArray r))"
    if "nru_inv r" "i < length (nru_array r)"
    using that nru_inv_update [of r i q] by (auto simp: NRUReplPolicy_def nru_update_def Let_def)
  show "\<exists>r'. rp_replaced NRUReplPolicy i r = Inr r' \<and> nru_ready r' \<and> length (nru_array r') = length (nru_array r) \<and>
      (\<lambda>cs. length cs \<le> length (nru_candArray r')) = (\<lambda>cs. length cs \<le> length (nru_candArray r))"
    if "nru_inv r" "i < length (nru_array r)"
    using that by (auto simp: NRUReplPolicy_def nru_replaced_def nru_ready_def nru_inv_def
        dest!: set_update_subset_insert [THEN subsetD])
  show "\<exists>v r'. rp_rankCands NRUReplPolicy cc q cs r = Inr (v, r') \<and> v \<in> set cs \<and> nru_inv r' \<and>
      length (nru_array r') = length (nru_array r) \<and>
      (\<lambda>cs. length cs \<le> length (nru_candArray r')) = (\<lambda>cs. length cs \<le> length (nru_candArray r))"
    if "nru_ready r" "length cs \<le> length (nru_candArray r)" "set cs \<subseteq> {..<length (nru_array r)}" "cs \<noteq> []"
    using nru_rank_spec [OF that(1,3,2,4), of cc q] by auto
qed

end
