(* ===== verification/RripRepl.thy ===== *)
theory RripRepl
  imports ReplPolicies
begin

text \<open>
  The SRRIP policy (rrip_repl.h).  Re-reference prediction values are 32-bit words.  The search
  for a victim ages all candidates until one has the largest value; it has no other exit, so it
  takes a fuel argument, and \<open>srrip_fuel\<close> is shown to be enough for every non-empty
  candidate list.
\<close>

record srrip =
  rrpv :: "u32 list"
  srrip_candArray :: "nat list"
  wasInserted :: "bool list"
  srrip_candIdx :: nat
  MAX_RRPV :: u32

definition srrip_init :: "nat \<Rightarrow> nat \<Rightarrow> u32 \<Rightarrow> srrip" where
  "srrip_init numLines numCands maxRRPV =
     \<lparr>rrpv = replicate numLines (maxRRPV - 1), srrip_candArray = replicate numCands 0,
      wasInserted = replicate numLines False, srrip_candIdx = 0, MAX_RRPV = maxRRPV\<rparr>"

definition srrip_update :: "nat \<Rightarrow> MemReq \<Rightarrow> srrip \<Rightarrow> srrip res" where
  "srrip_update i req r =
     rbind (aget (wasInserted r) i) (\<lambda>w.
      if w then Inr (r\<lparr>wasInserted := (wasInserted r)[i := False]\<rparr>)
      else rbind (aput (rrpv r) i 0) (\<lambda>v. Inr (r\<lparr>rrpv := v\<rparr>)))"

definition srrip_startReplacement :: "MemReq \<Rightarrow> srrip \<Rightarrow> srrip" where
  "srrip_startReplacement req r = r\<lparr>srrip_candIdx := 0\<rparr>"

definition srrip_recordCandidate :: "nat \<Rightarrow> srrip \<Rightarrow> srrip res" where
  "srrip_recordCandidate i r =
     rbind (aput (srrip_candArray r) (srrip_candIdx r) i) (\<lambda>ca.
       Inr (r\<lparr>srrip_candArray := ca, srrip_candIdx := srrip_candIdx r + 1\<rparr>))"

text \<open>The two inner loops of \<open>getBestCandidate\<close>.\<close>

fun srrip_find :: "u32 \<Rightarrow> u32 list \<Rightarrow> nat list \<Rightarrow> nat option res" where
  "srrip_find m vs [] = Inr None"
| "srrip_find m vs (c # cs) =
     rbind (aget vs c) (\<lambda>v. if v = m then Inr (Some c) else srrip_find m vs cs)"

fun srrip_age :: "u32 \<Rightarrow> nat list \<Rightarrow> u32 list \<Rightarrow> u32 list res" where
  "srrip_age m [] vs = Inr vs"
| "srrip_age m (c # cs) vs =
     rbind (aget vs c) (\<lambda>v. rbind (aput vs c (min (v + 1) m)) (srrip_age m cs))"

fun srrip_loop :: "nat \<Rightarrow> u32 \<Rightarrow> nat list \<Rightarrow> u32 list \<Rightarrow> (nat \<times> u32 list) res" where
  "srrip_loop 0 m cs vs = Inl OutOfFuel"
| "srrip_loop (Suc fuel) m cs vs =
     rbind (srrip_find m vs cs) (\<lambda>f.
      case f of Some c \<Rightarrow> Inr (c, vs)
      | None \<Rightarrow> rbind (srrip_age m cs vs) (srrip_loop fuel m cs))"

definition srrip_fuel :: "srrip \<Rightarrow> nat" where
  "srrip_fuel r = Suc (unat (MAX_RRPV r))"

definition srrip_getBestCandidate :: "srrip \<Rightarrow> (nat \<times> srrip) res" where
  "srrip_getBestCandidate r =
     rbind (srrip_loop (srrip_fuel r) (MAX_RRPV r) (take (srrip_candIdx r) (srrip_candArray r)) (rrpv r))
       (\<lambda>(c, vs). Inr (c, r\<lparr>rrpv := vs\<rparr>))"

definition srrip_replaced :: "nat \<Rightarrow> srrip \<Rightarrow> srrip res" where
  "srrip_replaced i r =
     rbind (aput (rrpv r) i (MAX_RRPV r - 1)) (\<lambda>v.
     rbind (aput (wasInserted r) i True) (\<lambda>w.
       Inr (r\<lparr>srrip_candIdx := 0, rrpv := v, wasInserted := w\<rparr>)))"

definition SRRIPReplPolicy :: "srrip ReplPolicy" where
  "SRRIPReplPolicy =
     \<lparr>rp_update = srrip_update, rp_replaced = srrip_replaced,
      rp_rankCands = (\<lambda>cc. legacy_rank srrip_startReplacement srrip_recordCandidate srrip_getBestCandidate)\<rparr>"

subsection \<open>Finding and ageing\<close>

definition srrip_inv :: "srrip \<Rightarrow> bool" where
  "srrip_inv r \<longleftrightarrow> 0 < MAX_RRPV r \<and> MAX_RRPV r \<noteq> - 1 \<and> (\<forall>v \<in> set (rrpv r). v \<le> MAX_RRPV r) \<and>
     length (wasInserted r) = length (rrpv r)"

lemma srrip_find_spec:
  "set cs \<subseteq> {..<length vs} \<Longrightarrow>
   srrip_find m vs cs = Inr (find (\<lambda>c. vs ! c = m) cs)"
  by (induction cs) auto

lemma word_min_Suc:
  assumes "v < (m :: u32)"
  shows "min (v + 1) m = v + 1" and "unat (v + 1) = Suc (unat v)"
proof -
  have "unat v < unat m" using assms by (simp add: word_less_nat_alt)
  moreover show u: "unat (v + 1) = Suc (unat v)"
    using calculation unat_lt_32 [of m] by (simp add: unat_word_ariths)
  ultimately show "min (v + 1) m = v + 1"
    by (simp add: min_def word_le_nat_alt)
qed

lemma less_word_plus_1: "m \<noteq> - 1 \<Longrightarrow> m < m + (1 :: u32)"
proof -
  assume "m \<noteq> - 1"
  then have "unat (m + 1) = Suc (unat m)"
    using unatSuc [of m] by (simp add: add.commute add_eq_0_iff)
  then show ?thesis by (simp add: word_less_nat_alt)
qed

lemma srrip_age_length: "srrip_age m cs vs = Inr ws \<Longrightarrow> length ws = length vs"
  by (induction m cs vs rule: srrip_age.induct) (auto simp: res_simps)

lemma srrip_age_spec:
  assumes "set cs \<subseteq> {..<length vs}" "\<forall>v \<in> set vs. v \<le> m" and max: "m \<noteq> - 1"
  shows "\<exists>ws. srrip_age m cs vs = Inr ws \<and> length ws = length vs \<and> (\<forall>v \<in> set ws. v \<le> m) \<and>
    (\<forall>i < length vs. vs ! i \<le> ws ! i) \<and> (\<forall>i < length vs. i \<in> set cs \<longrightarrow> vs ! i < m \<longrightarrow> vs ! i < ws ! i)"
  using assms(1,2)
proof (induction cs arbitrary: vs)
  case (Cons c cs)
  let ?vs = "vs[c := min (vs ! c + 1) m]"
  have c: "c < length vs" using Cons.prems(1) by simp
  have grow: "vs ! c \<le> min (vs ! c + 1) m \<and> (vs ! c < m \<longrightarrow> vs ! c < min (vs ! c + 1) m)"
  proof (cases "vs ! c < m")
    case True
    then show ?thesis using word_min_Suc [OF True] by (simp add: word_less_nat_alt word_le_nat_alt)
  next
    case False
    with Cons.prems(2) c have e: "vs ! c = m" by (meson nth_mem order.antisym not_le)
    have "m < m + 1" using max by (simp add: less_word_plus_1)
    with e show ?thesis by (simp add: min_def)
  qed
  have "\<forall>v \<in> set ?vs. v \<le> m" using Cons.prems(2) by (auto dest!: set_update_subset_insert [THEN subsetD])
  moreover have "set cs \<subseteq> {..<length ?vs}" using Cons.prems(1) by simp
  ultimately obtain ws where ws: "srrip_age m cs ?vs = Inr ws" "length ws = length ?vs"
      "\<forall>v \<in> set ws. v \<le> m" "\<forall>i < length ?vs. ?vs ! i \<le> ws ! i"
      "\<forall>i < length ?vs. i \<in> set cs \<longrightarrow> ?vs ! i < m \<longrightarrow> ?vs ! i < ws ! i"
    using Cons.IH [of ?vs] by blast
  have le: "vs ! i \<le> ws ! i" if "i < length vs" for i
    using ws(4) [rule_format, of i] that c order.trans [OF conjunct1 [OF grow], of "ws ! c"]
    by (cases "i = c") auto
  moreover have "vs ! i < ws ! i" if "i < length vs" "i \<in> set (c # cs)" "vs ! i < m" for i
  proof (cases "i = c")
    case True
    then have "vs ! i < min (vs ! c + 1) m" using grow that by blast
    also have "\<dots> \<le> ws ! i" using ws(4) [rule_format, of c] c True by simp
    finally show ?thesis .
  next
    case False
    then show ?thesis using ws(5) [rule_format, of i] that by auto
  qed
  ultimately show ?case using ws c by auto
qed auto

text \<open>The search ends: the first candidate's value grows in every round that finds none.\<close>

lemma srrip_loop_ok:
  assumes "set (c # cs) \<subseteq> {..<length vs}" "\<forall>v \<in> set vs. v \<le> m" "unat m - unat (vs ! c) < fuel" and max: "m \<noteq> - 1"
  shows "\<exists>w ws. srrip_loop fuel m (c # cs) vs = Inr (w, ws) \<and> w \<in> set (c # cs) \<and> ws ! w = m \<and>
    length ws = length vs \<and> (\<forall>v \<in> set ws. v \<le> m)"
  using assms(1-3)
proof (induction fuel arbitrary: vs)
  case (Suc fuel)
  show ?case
  proof (cases "find (\<lambda>c. vs ! c = m) (c # cs)")
    case (Some w)
    then have "w \<in> set (c # cs)" "vs ! w = m" unfolding find_Some_iff by (metis nth_mem)+
    with Suc.prems Some show ?thesis
      by (auto simp: srrip_find_spec simp del: srrip_find.simps find.simps)
  next
    case None
    then have lt: "vs ! c < m" using Suc.prems(1,2) by (auto simp: find_None_iff intro: le_neq_trans)
    from srrip_age_spec [OF Suc.prems(1,2) max] obtain ws where
      ws: "srrip_age m (c # cs) vs = Inr ws" "length ws = length vs" "\<forall>v \<in> set ws. v \<le> m" "vs ! c < ws ! c"
      using Suc.prems(1) lt by auto
    have "unat m - unat (ws ! c) < fuel"
      using Suc.prems(3) ws(4) lt by (auto simp: word_less_nat_alt)
    with Suc.IH [of ws] ws Suc.prems(1) None show ?thesis
      by (auto simp: srrip_find_spec simp del: srrip_find.simps find.simps srrip_age.simps)
  qed
qed simp

subsection \<open>The victim is the first candidate of the largest value\<close>

lemma srrip_age_distinct:
  assumes "set cs \<subseteq> {..<length vs}" "distinct cs" "\<forall>c \<in> set cs. vs ! c < m"
  shows "\<exists>ws. srrip_age m cs vs = Inr ws \<and> length ws = length vs \<and>
    (\<forall>i < length vs. ws ! i = (if i \<in> set cs then vs ! i + 1 else vs ! i))"
  using assms
proof (induction cs arbitrary: vs)
  case (Cons c cs)
  let ?vs = "vs[c := vs ! c + 1]"
  have c: "c < length vs" and cn: "c \<notin> set cs" using Cons.prems by auto
  have "\<forall>d \<in> set cs. ?vs ! d < m" using Cons.prems cn by (metis list.set_intros(2) nth_list_update_neq)
  with Cons.IH [of ?vs] Cons.prems(1,2) obtain ws where ws: "srrip_age m cs ?vs = Inr ws" "length ws = length vs"
      "\<forall>i < length vs. ws ! i = (if i \<in> set cs then ?vs ! i + 1 else ?vs ! i)" by auto
  have "min (vs ! c + 1) m = vs ! c + 1" using Cons.prems(3) by (simp add: word_min_Suc)
  with ws c cn show ?case by (auto simp: nth_list_update)
qed auto

lemma srrip_loop_exact:
  assumes "set cs \<subseteq> {..<length vs}" "distinct cs" "d \<in> set cs" "vs ! d = mx"
    "\<forall>c \<in> set cs. vs ! c \<le> mx" "mx \<le> m" "unat m - unat mx < fuel"
  shows "\<exists>w ws. srrip_loop fuel m cs vs = Inr (w, ws) \<and> find (\<lambda>c. vs ! c = mx) cs = Some w \<and>
    length ws = length vs \<and> (\<forall>i < length vs. ws ! i = (if i \<in> set cs then vs ! i + (m - mx) else vs ! i))"
  using assms
proof (induction fuel arbitrary: vs mx)
  case (Suc fuel)
  show ?case
  proof (cases "mx = m")
    case True
    moreover have "find (\<lambda>c. vs ! c = m) cs \<noteq> None"
      using Suc.prems(3,4) True by (auto simp: find_None_iff)
    ultimately show ?thesis using Suc.prems(1) by (auto simp: srrip_find_spec)
  next
    case False
    then have mxm: "mx < m" using Suc.prems(6) by simp
    then have lt: "\<forall>c \<in> set cs. vs ! c < m" using Suc.prems(5) by (auto intro: le_less_trans)
    then have none: "find (\<lambda>c. vs ! c = m) cs = None" by (auto simp: find_None_iff)
    from srrip_age_distinct [OF Suc.prems(1,2) lt] obtain vs' where
      vs': "srrip_age m cs vs = Inr vs'" "length vs' = length vs"
        "\<forall>i < length vs. vs' ! i = (if i \<in> set cs then vs ! i + 1 else vs ! i)" by blast
    have mx1: "unat (mx + 1) = Suc (unat mx)" by (rule word_min_Suc(2) [OF mxm])
    have eq: "vs' ! c = mx + 1 \<longleftrightarrow> vs ! c = mx" and up: "vs' ! c \<le> mx + 1" if "c \<in> set cs" for c
    proof -
      have c: "c < length vs" "vs ! c \<le> mx" using that Suc.prems(1,5) by auto
      have "unat (vs ! c + 1) = Suc (unat (vs ! c))" using lt that by (intro word_min_Suc(2)) blast
      with c that vs'(3) mx1 show "vs' ! c = mx + 1 \<longleftrightarrow> vs ! c = mx" "vs' ! c \<le> mx + 1"
        by (auto simp: word_le_nat_alt)
    qed
    have "mx + 1 \<le> m" "unat m - unat (mx + 1) < fuel"
      using mxm mx1 Suc.prems(7) by (auto simp: word_le_nat_alt word_less_nat_alt)
    with Suc.IH [of vs' "mx + 1"] Suc.prems(1-4) vs'(2) eq up obtain w ws where
      ws: "srrip_loop fuel m cs vs' = Inr (w, ws)" "find (\<lambda>c. vs' ! c = mx + 1) cs = Some w"
        "length ws = length vs" "\<forall>i < length vs. ws ! i = (if i \<in> set cs then vs' ! i + (m - (mx + 1)) else vs' ! i)"
      by auto
    have "find (\<lambda>c. vs' ! c = mx + 1) cs = find (\<lambda>c. vs ! c = mx) cs"
      by (rule find_cong) (auto simp: eq)
    moreover have "vs ! i + 1 + (m - (mx + 1)) = vs ! i + (m - mx)" for i by simp
    ultimately show ?thesis using ws vs' none Suc.prems(1) by (auto simp: srrip_find_spec)
  qed
qed simp

lemma srrip_record_all:
  assumes "srrip_candIdx r + length cs \<le> length (srrip_candArray r)"
  shows "\<exists>ca. record_all srrip_recordCandidate cs r =
      Inr (r\<lparr>srrip_candArray := ca, srrip_candIdx := srrip_candIdx r + length cs\<rparr>) \<and>
    take (srrip_candIdx r + length cs) ca = take (srrip_candIdx r) (srrip_candArray r) @ cs \<and>
    length ca = length (srrip_candArray r)"
  using assms
proof (induction cs arbitrary: r)
  case (Cons c cs)
  let ?r = "r\<lparr>srrip_candArray := (srrip_candArray r)[srrip_candIdx r := c], srrip_candIdx := srrip_candIdx r + 1\<rparr>"
  have k: "srrip_candIdx r < length (srrip_candArray r)" using Cons.prems by simp
  then have "srrip_recordCandidate c r = Inr ?r" by (simp add: srrip_recordCandidate_def)
  moreover from Cons.IH [of ?r] Cons.prems k show ?case
    using calculation by (auto simp: take_append_update)
qed (auto intro!: exI [of _ "srrip_candArray r" for r])

lemma srrip_rank_spec:
  assumes "length cs \<le> length (srrip_candArray r)"
  shows "\<exists>ca. length ca = length (srrip_candArray r) \<and>
    rp_rankCands SRRIPReplPolicy cc q cs r =
      rbind (srrip_loop (srrip_fuel r) (MAX_RRPV r) cs (rrpv r)) (\<lambda>(w, ws).
        Inr (w, r\<lparr>srrip_candArray := ca, srrip_candIdx := length cs, rrpv := ws\<rparr>))"
proof -
  let ?r = "srrip_startReplacement q r"
  from srrip_record_all [of ?r cs] assms obtain ca where
    ca: "record_all srrip_recordCandidate cs ?r = Inr (?r\<lparr>srrip_candArray := ca, srrip_candIdx := length cs\<rparr>)"
      "take (length cs) ca = cs" "length ca = length (srrip_candArray r)"
    by (auto simp: srrip_startReplacement_def)
  have "rp_rankCands SRRIPReplPolicy cc q cs r =
      rbind (srrip_loop (srrip_fuel r) (MAX_RRPV r) cs (rrpv r)) (\<lambda>(w, ws).
        Inr (w, r\<lparr>srrip_candArray := ca, srrip_candIdx := length cs, rrpv := ws\<rparr>))"
    using ca by (simp add: SRRIPReplPolicy_def legacy_rank_def srrip_getBestCandidate_def srrip_fuel_def
        srrip_startReplacement_def del: srrip_loop.simps)
  with ca(3) show ?thesis by blast
qed

interpretation srrip_rp: repl_policy SRRIPReplPolicy "\<lambda>r. length (rrpv r)" srrip_inv srrip_inv
  "\<lambda>r cs. length cs \<le> length (srrip_candArray r)"
proof unfold_locales
  fix r :: srrip and i :: nat and q cs cc
  have inv: "0 < MAX_RRPV r" "MAX_RRPV r \<noteq> - 1" "\<forall>v \<in> set (rrpv r). v \<le> MAX_RRPV r"
      "length (wasInserted r) = length (rrpv r)" if "srrip_inv r"
    using that by (auto simp: srrip_inv_def)
  show "\<exists>r'. rp_update SRRIPReplPolicy i q r = Inr r' \<and> srrip_inv r' \<and> length (rrpv r') = length (rrpv r) \<and>
      (\<lambda>cs. length cs \<le> length (srrip_candArray r')) = (\<lambda>cs. length cs \<le> length (srrip_candArray r))"
    if "srrip_inv r" "i < length (rrpv r)"
    using that by (auto simp: SRRIPReplPolicy_def srrip_update_def srrip_inv_def
        dest!: set_update_subset_insert [THEN subsetD])
  have "MAX_RRPV r - 1 \<le> MAX_RRPV r" if "srrip_inv r"
    using inv(1) [OF that] by (simp add: word_le_nat_alt word_less_nat_alt unat_sub_if')
  then show "\<exists>r'. rp_replaced SRRIPReplPolicy i r = Inr r' \<and> srrip_inv r' \<and> length (rrpv r') = length (rrpv r) \<and>
      (\<lambda>cs. length cs \<le> length (srrip_candArray r')) = (\<lambda>cs. length cs \<le> length (srrip_candArray r))"
    if "srrip_inv r" "i < length (rrpv r)"
    using that by (auto simp: SRRIPReplPolicy_def srrip_replaced_def srrip_inv_def
        dest!: set_update_subset_insert [THEN subsetD])
  show "\<exists>v r'. rp_rankCands SRRIPReplPolicy cc q cs r = Inr (v, r') \<and> v \<in> set cs \<and> srrip_inv r' \<and>
      length (rrpv r') = length (rrpv r) \<and>
      (\<lambda>cs. length cs \<le> length (srrip_candArray r')) = (\<lambda>cs. length cs \<le> length (srrip_candArray r))"
    if h: "srrip_inv r" "length cs \<le> length (srrip_candArray r)" "set cs \<subseteq> {..<length (rrpv r)}" "cs \<noteq> []"
  proof -
    obtain c cs' where cs: "cs = c # cs'" using h(4) by (cases cs) auto
    have "unat (MAX_RRPV r) - unat (rrpv r ! c) < srrip_fuel r" by (simp add: srrip_fuel_def)
    from srrip_loop_ok [OF h(3) [unfolded cs] inv(3) [OF h(1)] this inv(2) [OF h(1)]] obtain w ws where
      "srrip_loop (srrip_fuel r) (MAX_RRPV r) cs (rrpv r) = Inr (w, ws)" "w \<in> set cs"
      "length ws = length (rrpv r)" "\<forall>v \<in> set ws. v \<le> MAX_RRPV r"
      using cs by auto
    moreover obtain ca where "length ca = length (srrip_candArray r)" "rp_rankCands SRRIPReplPolicy cc q cs r =
        rbind (srrip_loop (srrip_fuel r) (MAX_RRPV r) cs (rrpv r)) (\<lambda>(w, ws).
          Inr (w, r\<lparr>srrip_candArray := ca, srrip_candIdx := length cs, rrpv := ws\<rparr>))"
      using srrip_rank_spec [OF h(2), of cc q] by blast
    ultimately show ?thesis using inv [OF h(1)] by (auto simp: srrip_inv_def)
  qed
qed

text \<open>C23. With distinct candidates, ranking ends and picks the first candidate that has the
  largest re-reference prediction value; every candidate, and no other line, is aged by the
  distance of that value to the maximum.\<close>

theorem srrip_victim:
  assumes "srrip_inv r" and "length cs \<le> length (srrip_candArray r)" and "set cs \<subseteq> {..<length (rrpv r)}"
    and "distinct cs" and "d \<in> set cs" and "\<forall>c \<in> set cs. rrpv r ! c \<le> rrpv r ! d"
  shows "\<exists>v r'. rp_rankCands SRRIPReplPolicy cc q cs r = Inr (v, r') \<and>
    find (\<lambda>c. rrpv r ! c = rrpv r ! d) cs = Some v \<and>
    (\<forall>i < length (rrpv r). rrpv r' ! i =
       (if i \<in> set cs then rrpv r ! i + (MAX_RRPV r - rrpv r ! d) else rrpv r ! i))"
proof -
  have "rrpv r ! d \<le> MAX_RRPV r" using assms(1,3,5) by (auto simp: srrip_inv_def)
  moreover have "unat (MAX_RRPV r) - unat (rrpv r ! d) < srrip_fuel r" by (simp add: srrip_fuel_def)
  ultimately obtain w ws where "srrip_loop (srrip_fuel r) (MAX_RRPV r) cs (rrpv r) = Inr (w, ws)"
      "find (\<lambda>c. rrpv r ! c = rrpv r ! d) cs = Some w"
      "\<forall>i < length (rrpv r). ws ! i = (if i \<in> set cs then rrpv r ! i + (MAX_RRPV r - rrpv r ! d) else rrpv r ! i)"
    using srrip_loop_exact [OF assms(3,4,5) refl assms(6)] by blast
  moreover obtain ca where "rp_rankCands SRRIPReplPolicy cc q cs r =
      rbind (srrip_loop (srrip_fuel r) (MAX_RRPV r) cs (rrpv r)) (\<lambda>(w, ws).
        Inr (w, r\<lparr>srrip_candArray := ca, srrip_candIdx := length cs, rrpv := ws\<rparr>))"
    using srrip_rank_spec [OF assms(2), of cc q] by blast
  ultimately show ?thesis by auto
qed

definition cc0 :: ccinfo where
  "cc0 = \<lparr>cc_numSharers = (\<lambda>_. 0), cc_isValid = (\<lambda>_. True)\<rparr>"

lemma srrip_victim_witness:
  "\<exists>r'. rp_rankCands SRRIPReplPolicy cc0 (req_of 0) [0, 1, 2] ((srrip_init 3 3 3)\<lparr>rrpv := [0, 2, 2]\<rparr>) = Inr (1, r') \<and>
     rrpv r' ! 0 = 1 \<and> rrpv r' ! 2 = 3"
proof -
  let ?r = "(srrip_init 3 3 3)\<lparr>rrpv := [0, 2, 2]\<rparr>"
  have "srrip_inv ?r" by (simp add: srrip_inv_def srrip_init_def)
  moreover have "length [0, 1, 2] \<le> length (srrip_candArray ?r)" by (simp add: srrip_init_def)
  moreover have "set [0, 1, 2] \<subseteq> {..<length (rrpv ?r)}" "distinct [0, 1, 2 :: nat]" "1 \<in> set [0, 1, 2 :: nat]"
    "\<forall>c \<in> set [0, 1, 2]. rrpv ?r ! c \<le> rrpv ?r ! 1" by simp_all
  ultimately obtain v r' where v: "rp_rankCands SRRIPReplPolicy cc0 (req_of 0) [0, 1, 2] ?r = Inr (v, r')"
      "find (\<lambda>c. rrpv ?r ! c = rrpv ?r ! 1) [0, 1, 2] = Some v"
      "\<forall>i < length (rrpv ?r). rrpv r' ! i =
         (if i \<in> set [0, 1, 2] then rrpv ?r ! i + (MAX_RRPV ?r - rrpv ?r ! 1) else rrpv ?r ! i)"
    using srrip_victim by blast
  have "v = 1" using v(2) by simp
  with v(1) v(3) [rule_format, of 0] v(3) [rule_format, of 2] show ?thesis
    by (auto simp: srrip_init_def)
qed

end
