(* ===== verification/CacheArrays.thy ===== *)
theory CacheArrays
  imports ReplPolicies HashFamily
begin

text \<open>
  The set-associative cache array (cache_arrays.h, cache_arrays.cpp) and the contract that the
  caches rely on.  The replacement policy is a method table and its state, the hash family a
  function of the function number and the address (\<open>h3_hash_linear\<close> shows that the hashes the
  arrays use are defined).  A line number that is absent (-1 in the code) is \<open>None\<close>.

  The contract \<open>cache_array\<close> abstracts an array to the partial map from line addresses to line
  numbers; address 0 marks an empty line.
\<close>

subsection \<open>The tag store as a map\<close>

definition arr_holds :: "u64 list \<Rightarrow> u64 \<Rightarrow> nat option" where
  "arr_holds xs a = (if a = 0 then None else find (\<lambda>i. xs ! i = a) [0..<length xs])"

definition arr_distinct :: "u64 list \<Rightarrow> bool" where
  "arr_distinct xs \<longleftrightarrow> (\<forall>i < length xs. \<forall>j < length xs. xs ! i = xs ! j \<and> xs ! i \<noteq> 0 \<longrightarrow> i = j)"

lemma arr_holds_Some:
  assumes "arr_distinct xs"
  shows "arr_holds xs a = Some i \<longleftrightarrow> a \<noteq> 0 \<and> i < length xs \<and> xs ! i = a"
proof
  assume "arr_holds xs a = Some i"
  then show "a \<noteq> 0 \<and> i < length xs \<and> xs ! i = a"
    by (auto simp: arr_holds_def find_Some_iff split: if_splits)
next
  assume a: "a \<noteq> 0 \<and> i < length xs \<and> xs ! i = a"
  then have "arr_holds xs a \<noteq> None" by (auto simp: arr_holds_def find_None_iff)
  then obtain j where j: "arr_holds xs a = Some j" by auto
  then have "j < length xs" "xs ! j = a" by (auto simp: arr_holds_def find_Some_iff split: if_splits)
  then show "arr_holds xs a = Some i" using a assms j by (auto simp: arr_distinct_def)
qed

lemma arr_holds_None:
  "arr_holds xs a = None \<longleftrightarrow> a = 0 \<or> (\<forall>i < length xs. xs ! i \<noteq> a)"
  by (auto simp: arr_holds_def find_None_iff)

lemma arr_distinct_update:
  assumes "arr_distinct xs" "arr_holds xs a = None"
  shows "arr_distinct (xs[i := a])"
  unfolding arr_distinct_def
proof (intro allI impI)
  fix j k
  assume jk: "j < length (xs[i := a])" "k < length (xs[i := a])" "xs[i := a] ! j = xs[i := a] ! k \<and> xs[i := a] ! j \<noteq> 0"
  then show "j = k"
    using assms by (cases "j = i"; cases "k = i") (auto simp: arr_distinct_def arr_holds_None)
qed

lemma option_ext: "(\<And>x. f = Some x \<longleftrightarrow> g = Some x) \<Longrightarrow> f = g"
  by (cases f; cases g) auto

lemma arr_holds_update:
  assumes "arr_distinct xs" "arr_holds xs a = None" "a \<noteq> 0" "i < length xs"
  shows "arr_holds (xs[i := a]) b =
    (if b = a then Some i else if arr_holds xs b = Some i then None else arr_holds xs b)"
proof (rule option_ext)
  fix j
  have new: "arr_holds (xs[i := a]) b = Some j \<longleftrightarrow> b \<noteq> 0 \<and> j < length xs \<and> xs[i := a] ! j = b"
    using arr_holds_Some [OF arr_distinct_update [OF assms(1,2)]] by simp
  have old: "arr_holds xs b = Some j \<longleftrightarrow> b \<noteq> 0 \<and> j < length xs \<and> xs ! j = b" for j
    by (rule arr_holds_Some [OF assms(1)])
  have na: "xs ! j \<noteq> a" if "j < length xs" for j using that assms(2,3) by (auto simp: arr_holds_None)
  show "arr_holds (xs[i := a]) b = Some j \<longleftrightarrow>
      (if b = a then Some i else if arr_holds xs b = Some i then None else arr_holds xs b) = Some j"
  proof (cases "b = a")
    case True
    then show ?thesis using new na assms(3,4) by (cases "j = i") auto
  next
    case False
    then show ?thesis using new old [of j] old [of i] assms(4) by (cases "j = i") auto
  qed
qed

subsection \<open>The contract of a cache array\<close>

text \<open>\<open>pend s a i\<close>: a replacement of line \<open>i\<close> by address \<open>a\<close> is prepared.\<close>

locale cache_array =
  fixes lookup :: "u64 \<Rightarrow> MemReq \<Rightarrow> bool \<Rightarrow> 's \<Rightarrow> (nat option \<times> 's) res"
    and preinsert :: "ccinfo \<Rightarrow> u64 \<Rightarrow> MemReq \<Rightarrow> 's \<Rightarrow> (nat \<times> u64 \<times> 's) res"
    and postinsert :: "u64 \<Rightarrow> MemReq \<Rightarrow> nat \<Rightarrow> 's \<Rightarrow> 's res"
    and tags :: "'s \<Rightarrow> u64 list"
    and inv :: "'s \<Rightarrow> bool"
    and pend :: "'s \<Rightarrow> u64 \<Rightarrow> nat \<Rightarrow> bool"
  assumes inv_distinct: "inv s \<Longrightarrow> arr_distinct (tags s)"
    and lookup_inv: "inv s \<Longrightarrow> a \<noteq> 0 \<Longrightarrow>
      \<exists>s'. lookup a q u s = Inr (arr_holds (tags s) a, s') \<and> inv s' \<and> tags s' = tags s"
    and lookup_pend: "pend s b i \<Longrightarrow> a \<noteq> 0 \<Longrightarrow>
      \<exists>s'. lookup a q u s = Inr (arr_holds (tags s) a, s') \<and> pend s' b i \<and> tags s' = tags s"
    and preinsert_inv: "inv s \<Longrightarrow> a \<noteq> 0 \<Longrightarrow> arr_holds (tags s) a = None \<Longrightarrow>
      \<exists>i s'. preinsert cc a q s = Inr (i, tags s ! i, s') \<and> i < length (tags s) \<and> pend s' a i \<and> tags s' = tags s"
    and postinsert_pend: "pend s a i \<Longrightarrow>
      \<exists>s'. postinsert a q i s = Inr s' \<and> inv s' \<and> tags s' = (tags s)[i := a]"
begin

lemma insert_lookup:
  assumes s: "inv s" and a: "a \<noteq> 0" "arr_holds (tags s) a = None"
  shows "\<exists>i wb s1 s2. preinsert cc a q s = Inr (i, wb, s1) \<and> postinsert a q i s1 = Inr s2 \<and> inv s2 \<and>
    (wb \<noteq> 0 \<longrightarrow> arr_holds (tags s) wb = Some i) \<and>
    (\<forall>b r u. b \<noteq> 0 \<longrightarrow> (\<exists>s3. lookup b r u s2 =
       Inr (if b = a then Some i else if b = wb then None else arr_holds (tags s) b, s3) \<and> inv s3))"
proof -
  obtain i s1 where p: "preinsert cc a q s = Inr (i, tags s ! i, s1)" "i < length (tags s)"
      "pend s1 a i" "tags s1 = tags s" using preinsert_inv [OF s a, of cc q] by blast
  obtain s2 where t: "postinsert a q i s1 = Inr s2" "inv s2" "tags s2 = (tags s)[i := a]"
    using postinsert_pend [OF p(3), of q] p(4) by auto
  have d: "arr_distinct (tags s)" by (rule inv_distinct [OF s])
  have holds: "arr_holds (tags s2) b = (if b = a then Some i else if b = tags s ! i then None else arr_holds (tags s) b)"
    if "b \<noteq> 0" for b
    using that t(3) arr_holds_update [OF d a(2,1) p(2), of b] arr_holds_Some [OF d] p(2)
    by (auto split: option.splits)
  have W: "tags s ! i \<noteq> 0 \<longrightarrow> arr_holds (tags s) (tags s ! i) = Some i"
    using p(2) arr_holds_Some [OF d] by simp
  have "\<exists>s3. lookup b r u s2 = Inr (if b = a then Some i else if b = tags s ! i then None
      else arr_holds (tags s) b, s3) \<and> inv s3" if "b \<noteq> 0" for b r u
    using lookup_inv [OF t(2) that, of r u] holds [OF that] by auto
  with p(1) t(1,2) W show ?thesis by blast
qed

end

subsection \<open>The set-associative array\<close>

record 'r SetAssocArray =
  sa_array :: "u64 list"
  sa_rp :: 'r
  sa_numSets :: nat
  sa_assoc :: nat

definition SetAssocArray_init :: "nat \<Rightarrow> nat \<Rightarrow> 'r \<Rightarrow> 'r SetAssocArray res" where
  "SetAssocArray_init numLines assoc r =
     check (isPow2 (of_nat (numLines div assoc) :: u32)) AssertFailed
      (Inr \<lparr>sa_array = replicate numLines 0, sa_rp = r, sa_numSets = numLines div assoc, sa_assoc = assoc\<rparr>)"

definition set_index :: "(nat \<Rightarrow> u64 \<Rightarrow> u64) \<Rightarrow> nat \<Rightarrow> nat \<Rightarrow> u64 \<Rightarrow> nat" where
  "set_index hf numSets w a = unat (hf w a AND of_nat (numSets - 1))"

fun sa_scan :: "u64 list \<Rightarrow> u64 \<Rightarrow> nat list \<Rightarrow> nat option res" where
  "sa_scan arr a [] = Inr None"
| "sa_scan arr a (i # is) = rbind (aget arr i) (\<lambda>x. if x = a then Inr (Some i) else sa_scan arr a is)"

definition sa_cands :: "(nat \<Rightarrow> u64 \<Rightarrow> u64) \<Rightarrow> 'r SetAssocArray \<Rightarrow> u64 \<Rightarrow> nat list" where
  "sa_cands hf s a = (let first = set_index hf (sa_numSets s) 0 a * sa_assoc s in [first..<first + sa_assoc s])"

definition sa_lookup ::
  "'r ReplPolicy \<Rightarrow> (nat \<Rightarrow> u64 \<Rightarrow> u64) \<Rightarrow> u64 \<Rightarrow> MemReq \<Rightarrow> bool \<Rightarrow> 'r SetAssocArray \<Rightarrow>
   (nat option \<times> 'r SetAssocArray) res" where
  "sa_lookup rp hf a req upd s =
     rbind (sa_scan (sa_array s) a (sa_cands hf s a)) (\<lambda>f.
      case f of None \<Rightarrow> Inr (None, s)
      | Some i \<Rightarrow> if upd then rbind (rp_update rp i req (sa_rp s)) (\<lambda>r. Inr (Some i, s\<lparr>sa_rp := r\<rparr>))
                  else Inr (Some i, s))"

definition sa_preinsert ::
  "'r ReplPolicy \<Rightarrow> (nat \<Rightarrow> u64 \<Rightarrow> u64) \<Rightarrow> ccinfo \<Rightarrow> u64 \<Rightarrow> MemReq \<Rightarrow> 'r SetAssocArray \<Rightarrow>
   (nat \<times> u64 \<times> 'r SetAssocArray) res" where
  "sa_preinsert rp hf cc a req s =
     rbind (rp_rankCands rp cc req (sa_cands hf s a) (sa_rp s)) (\<lambda>(c, r).
     rbind (aget (sa_array s) c) (\<lambda>wb. Inr (c, wb, s\<lparr>sa_rp := r\<rparr>)))"

definition sa_postinsert ::
  "'r ReplPolicy \<Rightarrow> u64 \<Rightarrow> MemReq \<Rightarrow> nat \<Rightarrow> 'r SetAssocArray \<Rightarrow> 'r SetAssocArray res" where
  "sa_postinsert rp a req c s =
     rbind (rp_replaced rp c (sa_rp s)) (\<lambda>r.
     rbind (aput (sa_array s) c a) (\<lambda>arr.
     rbind (rp_update rp c req r) (\<lambda>r'. Inr (s\<lparr>sa_array := arr, sa_rp := r'\<rparr>))))"

lemma set_index_less: "0 < n \<Longrightarrow> n < 2 ^ 32 \<Longrightarrow> set_index hf n w a < n"
proof -
  assume n: "0 < n" "n < 2 ^ 32"
  have "unat (of_nat m :: u64) = m" if "m < 2 ^ 32" for m
    using that by (simp add: unsigned_of_nat take_bit_nat_eq_self)
  then have "unat (of_nat (n - 1) :: u64) = n - 1" using n by (simp del: of_nat_diff)
  moreover have "hf w a AND of_nat (n - 1) \<le> (of_nat (n - 1) :: u64)" by (simp add: word_and_le1)
  ultimately show ?thesis using n by (simp add: set_index_def word_le_nat_alt)
qed

lemma sa_scan_spec: "set is \<subseteq> {..<length arr} \<Longrightarrow> sa_scan arr a is = Inr (find (\<lambda>i. arr ! i = a) is)"
  by (induction "is") auto

text \<open>Shape and placement: every line is in the set its address hashes to.\<close>

definition sa_shape :: "(nat \<Rightarrow> u64 \<Rightarrow> u64) \<Rightarrow> 'r SetAssocArray \<Rightarrow> bool" where
  "sa_shape hf s \<longleftrightarrow>
     0 < sa_numSets s \<and> sa_numSets s < 2 ^ 32 \<and> 0 < sa_assoc s \<and>
     length (sa_array s) = sa_numSets s * sa_assoc s \<and> arr_distinct (sa_array s) \<and>
     (\<forall>i < length (sa_array s). sa_array s ! i \<noteq> 0 \<longrightarrow>
        i div sa_assoc s = set_index hf (sa_numSets s) 0 (sa_array s ! i))"

lemma div_eq_range:
  assumes "0 < (n :: nat)"
  shows "i div n = k \<longleftrightarrow> k * n \<le> i \<and> i < k * n + n"
proof
  assume "i div n = k"
  then show "k * n \<le> i \<and> i < k * n + n"
    using dividend_less_div_times [OF assms, of i] div_times_less_eq_dividend [of i n] by auto
next
  assume "k * n \<le> i \<and> i < k * n + n"
  then show "i div n = k" by (intro div_nat_eqI) (auto simp: mult.commute)
qed

lemma sa_cands_set:
  assumes "sa_shape hf s"
  shows "set (sa_cands hf s a) = {i. i div sa_assoc s = set_index hf (sa_numSets s) 0 a}"
    and "set (sa_cands hf s a) \<subseteq> {..<length (sa_array s)}" and "sa_cands hf s a \<noteq> []"
proof -
  let ?k = "set_index hf (sa_numSets s) 0 a" and ?n = "sa_assoc s"
  have n: "0 < ?n" and k: "?k < sa_numSets s" and len: "length (sa_array s) = sa_numSets s * ?n"
    using assms set_index_less by (auto simp: sa_shape_def)
  have iff: "?k * ?n \<le> i \<and> i < ?k * ?n + ?n \<longleftrightarrow> i div ?n = ?k" for i
    using div_eq_range [OF n, of i ?k] by blast
  have "set (sa_cands hf s a) = {i. ?k * ?n \<le> i \<and> i < ?k * ?n + ?n}" by (auto simp: sa_cands_def Let_def)
  then show "set (sa_cands hf s a) = {i. i div ?n = ?k}" unfolding iff .
  have "?k * ?n + ?n \<le> sa_numSets s * ?n"
    using k by (metis Suc_leI add.commute mult_Suc mult_le_mono1)
  then show "set (sa_cands hf s a) \<subseteq> {..<length (sa_array s)}" using len by (auto simp: sa_cands_def Let_def)
  show "sa_cands hf s a \<noteq> []" using n by (simp add: sa_cands_def Let_def)
qed

lemma sa_scan_holds:
  assumes "sa_shape hf s" "a \<noteq> 0"
  shows "sa_scan (sa_array s) a (sa_cands hf s a) = Inr (arr_holds (sa_array s) a)"
proof -
  have d: "arr_distinct (sa_array s)" using assms(1) by (simp add: sa_shape_def)
  have "find (\<lambda>i. sa_array s ! i = a) (sa_cands hf s a) = arr_holds (sa_array s) a"
  proof (cases "arr_holds (sa_array s) a")
    case None
    then have "find (\<lambda>i. sa_array s ! i = a) (sa_cands hf s a) = None"
      using assms sa_cands_set(2) [OF assms(1), of a] by (auto simp: arr_holds_None find_None_iff)
    with None show ?thesis by simp
  next
    case (Some i)
    then have i: "i < length (sa_array s)" "sa_array s ! i = a" using arr_holds_Some [OF d] by auto
    then have "i \<in> set (sa_cands hf s a)"
      using assms sa_cands_set(1) [OF assms(1), of a] by (auto simp: sa_shape_def)
    with i have "find (\<lambda>i. sa_array s ! i = a) (sa_cands hf s a) \<noteq> None" by (auto simp: find_None_iff)
    then obtain j where j: "find (\<lambda>i. sa_array s ! i = a) (sa_cands hf s a) = Some j" by auto
    then have "sa_array s ! j = a" "j \<in> set (sa_cands hf s a)"
      unfolding find_Some_iff by (metis nth_mem)+
    moreover have "j < length (sa_array s)" using calculation sa_cands_set(2) [OF assms(1), of a] by auto
    ultimately have "arr_holds (sa_array s) a = Some j" using arr_holds_Some [OF d] assms(2) by simp
    then have "j = i" using Some by simp
    with j Some show ?thesis by simp
  qed
  with sa_scan_spec [OF sa_cands_set(2) [OF assms(1)]] show ?thesis by metis
qed

text \<open>The invariants between replacements and between \<open>preinsert\<close> and \<open>postinsert\<close>.\<close>

definition sa_inv ::
  "('r \<Rightarrow> bool) \<Rightarrow> ('r \<Rightarrow> nat) \<Rightarrow> ('r \<Rightarrow> nat list \<Rightarrow> bool) \<Rightarrow> (nat \<Rightarrow> u64 \<Rightarrow> u64) \<Rightarrow> 'r SetAssocArray \<Rightarrow> bool" where
  "sa_inv rdy lns cok hf s \<longleftrightarrow>
     sa_shape hf s \<and> rdy (sa_rp s) \<and> lns (sa_rp s) = length (sa_array s) \<and>
     (\<forall>k. cok (sa_rp s) [k..<k + sa_assoc s])"

definition sa_pend ::
  "('r \<Rightarrow> bool) \<Rightarrow> ('r \<Rightarrow> nat) \<Rightarrow> ('r \<Rightarrow> nat list \<Rightarrow> bool) \<Rightarrow> (nat \<Rightarrow> u64 \<Rightarrow> u64) \<Rightarrow> 'r SetAssocArray \<Rightarrow> u64 \<Rightarrow> nat \<Rightarrow> bool" where
  "sa_pend rkd lns cok hf s a i \<longleftrightarrow>
     sa_inv rkd lns cok hf s \<and> a \<noteq> 0 \<and> arr_holds (sa_array s) a = None \<and> i \<in> set (sa_cands hf s a)"

lemma sa_shape_insert:
  assumes "sa_shape hf s" "arr_holds (sa_array s) a = None" "i \<in> set (sa_cands hf s a)"
  shows "sa_shape hf (s\<lparr>sa_array := (sa_array s)[i := a], sa_rp := r\<rparr>)"
proof -
  have "j div sa_assoc s = set_index hf (sa_numSets s) 0 ((sa_array s)[i := a] ! j)"
    if "j < length (sa_array s)" "(sa_array s)[i := a] ! j \<noteq> 0" for j
    using that assms sa_cands_set(1) [OF assms(1), of a] by (cases "j = i") (auto simp: sa_shape_def)
  then show ?thesis
    using assms(1) arr_distinct_update [OF _ assms(2), of i] by (auto simp: sa_shape_def)
qed

lemma sa_cands_rp [simp]: "sa_cands hf (s\<lparr>sa_rp := r\<rparr>) = sa_cands hf s"
  by (simp add: sa_cands_def fun_eq_iff)

lemma sa_shape_rp: "sa_shape hf (s\<lparr>sa_rp := r\<rparr>) = sa_shape hf s"
  by (simp add: sa_shape_def)

context repl_policy begin

lemma sa_lookup_ok:
  assumes s: "sa_inv rdy lines cands_ok hf s" and a: "a \<noteq> 0"
    and upd: "\<And>r i. rdy r \<Longrightarrow> i < lines r \<Longrightarrow>
      \<exists>r'. rp_update rp i q r = Inr r' \<and> rdy r' \<and> lines r' = lines r \<and> cands_ok r' = cands_ok r"
  shows "\<exists>s'. sa_lookup rp hf a q u s = Inr (arr_holds (sa_array s) a, s') \<and> sa_inv rdy lines cands_ok hf s' \<and>
    sa_array s' = sa_array s \<and> sa_cands hf s' = sa_cands hf s"
proof (cases "arr_holds (sa_array s) a")
  case None
  then show ?thesis using s a by (auto simp: sa_lookup_def sa_inv_def sa_scan_holds)
next
  case (Some i)
  have sh: "sa_shape hf s" using s by (simp add: sa_inv_def)
  then have "i < length (sa_array s)" using Some arr_holds_Some [of "sa_array s"] by (auto simp: sa_shape_def)
  then obtain r' where "rp_update rp i q (sa_rp s) = Inr r'" "rdy r'" "lines r' = lines (sa_rp s)"
      "cands_ok r' = cands_ok (sa_rp s)" using upd [of "sa_rp s" i] s by (auto simp: sa_inv_def)
  with Some s a sh show ?thesis
    by (auto simp: sa_lookup_def sa_inv_def sa_scan_holds sa_shape_rp)
qed

lemma sa_preinsert_ok:
  assumes s: "sa_inv ready lines cands_ok hf s" and a: "a \<noteq> 0" "arr_holds (sa_array s) a = None"
  shows "\<exists>i s'. sa_preinsert rp hf cc a q s = Inr (i, sa_array s ! i, s') \<and> i < length (sa_array s) \<and>
    sa_pend ranked lines cands_ok hf s' a i \<and> sa_array s' = sa_array s"
proof -
  have sh: "sa_shape hf s" using s by (simp add: sa_inv_def)
  note c = sa_cands_set [OF sh, of a]
  have "ready (sa_rp s)" "cands_ok (sa_rp s) (sa_cands hf s a)" "set (sa_cands hf s a) \<subseteq> {..<lines (sa_rp s)}"
    using s c(2) by (auto simp: sa_inv_def sa_cands_def Let_def)
  from rank [OF this c(3), of cc q] obtain v r' where
    v: "rp_rankCands rp cc q (sa_cands hf s a) (sa_rp s) = Inr (v, r')" "v \<in> set (sa_cands hf s a)"
      "ranked r'" "lines r' = lines (sa_rp s)" "cands_ok r' = cands_ok (sa_rp s)" by blast
  then have vl: "v < length (sa_array s)" using c(2) by auto
  have "sa_pend ranked lines cands_ok hf (s\<lparr>sa_rp := r'\<rparr>) a v"
    using s a v by (simp add: sa_pend_def sa_inv_def sa_shape_rp)
  with v(1) vl show ?thesis by (auto simp: sa_preinsert_def)
qed

lemma sa_postinsert_ok:
  assumes "sa_pend ranked lines cands_ok hf s a i"
  shows "\<exists>s'. sa_postinsert rp a q i s = Inr s' \<and> sa_inv ready lines cands_ok hf s' \<and>
    sa_array s' = (sa_array s)[i := a]"
proof -
  have s: "sa_inv ranked lines cands_ok hf s" and a: "arr_holds (sa_array s) a = None" "i \<in> set (sa_cands hf s a)"
    using assms by (auto simp: sa_pend_def)
  have sh: "sa_shape hf s" and r: "ranked (sa_rp s)" "lines (sa_rp s) = length (sa_array s)"
    using s by (auto simp: sa_inv_def)
  have i: "i < length (sa_array s)" using sa_cands_set(2) [OF sh] a(2) by blast
  then obtain r1 where r1: "rp_replaced rp i (sa_rp s) = Inr r1" "ready r1" "lines r1 = lines (sa_rp s)"
      "cands_ok r1 = cands_ok (sa_rp s)" using repl [OF r(1), of i] r(2) by auto
  then obtain r2 where r2: "rp_update rp i q r1 = Inr r2" "ready r2" "lines r2 = lines r1"
      "cands_ok r2 = cands_ok r1" using upd_ready [OF r1(2), of i q] i r(2) by auto
  have "sa_inv ready lines cands_ok hf (s\<lparr>sa_array := (sa_array s)[i := a], sa_rp := r2\<rparr>)"
    using s r1 r2 sa_shape_insert [OF sh a] by (simp add: sa_inv_def)
  then show ?thesis using i r1(1) r2(1) by (auto simp: sa_postinsert_def)
qed

end

sublocale repl_policy \<subseteq> sa: cache_array "sa_lookup rp hf" "sa_preinsert rp hf" "sa_postinsert rp" sa_array
  "sa_inv ready lines cands_ok hf" "sa_pend ranked lines cands_ok hf" for hf
proof unfold_locales
  fix s :: "'r SetAssocArray" and a b i q u cc
  show "arr_distinct (sa_array s)" if "sa_inv ready lines cands_ok hf s"
    using that by (simp add: sa_inv_def sa_shape_def)
  show "\<exists>s'. sa_lookup rp hf a q u s = Inr (arr_holds (sa_array s) a, s') \<and>
      sa_inv ready lines cands_ok hf s' \<and> sa_array s' = sa_array s"
    if "sa_inv ready lines cands_ok hf s" "a \<noteq> 0"
    using sa_lookup_ok [OF that upd_ready, of q u] by blast
  show "\<exists>s'. sa_lookup rp hf a q u s = Inr (arr_holds (sa_array s) a, s') \<and>
      sa_pend ranked lines cands_ok hf s' b i \<and> sa_array s' = sa_array s"
    if "sa_pend ranked lines cands_ok hf s b i" "a \<noteq> 0"
    using sa_lookup_ok [of ranked hf s a q u, OF _ that(2) upd_ranked] that(1) by (auto simp: sa_pend_def)
  show "\<exists>i s'. sa_preinsert rp hf cc a q s = Inr (i, sa_array s ! i, s') \<and> i < length (sa_array s) \<and>
      sa_pend ranked lines cands_ok hf s' a i \<and> sa_array s' = sa_array s"
    if "sa_inv ready lines cands_ok hf s" "a \<noteq> 0" "arr_holds (sa_array s) a = None"
    by (rule sa_preinsert_ok [OF that])
  show "\<exists>s'. sa_postinsert rp a q i s = Inr s' \<and> sa_inv ready lines cands_ok hf s' \<and>
      sa_array s' = (sa_array s)[i := a]"
    if "sa_pend ranked lines cands_ok hf s a i"
    by (rule sa_postinsert_ok [OF that])
qed

end
