(* ===== verification/CareRepl.thy ===== *)
theory CareRepl
  imports CacheArrays
begin

text \<open>
  The CARE policy (care_repl.h): a signature history table predicts re-reference confidence and
  miss cost, lines are evicted by their eviction priority value, and \<open>DTRM\<close> adapts the two cost
  thresholds to the share of costly misses.

  The pure miss contribution of a miss (a \<open>double\<close>) is a rational number.  The share of costly
  misses is computed in single precision and compared with the double constants 0.05 and 0.005:
  \<open>f32_div\<close> is the correctly rounded quotient (24 significant bits, ties to even) of two
  integers with a quotient of at most one, and the constants are the exact values of the doubles.
\<close>

record SHTEntry =
  sht_rc :: u32
  sht_pd :: u32

record care =
  care_rc :: "u32 list"
  care_pd :: "u32 list"
  care_pmcs :: "u32 list"
  care_rBit :: "bool list"
  care_epv :: "u32 list"
  care_lineAddr :: "u64 list"
  sht :: "SHTEntry list"
  care_candArray :: "nat list"
  care_candIdx :: nat
  TMC :: u32
  miss_period :: u32
  current_period :: u32
  PMC_high :: u32
  PMC_low :: u32
  incomingAddr :: u64

definition CARE_RC_MAX :: u32 where "CARE_RC_MAX = 7"
definition CARE_PD_MAX :: u32 where "CARE_PD_MAX = 7"
definition CARE_EPV_LOW_REUSE :: u32 where "CARE_EPV_LOW_REUSE = 3"
definition CARE_EPV_MOD_LOW_COST :: u32 where "CARE_EPV_MOD_LOW_COST = 2"
definition CARE_EPV_MOD_HIGH_COST :: u32 where "CARE_EPV_MOD_HIGH_COST = 1"
definition CARE_EPV_HIGH_REUSE :: u32 where "CARE_EPV_HIGH_REUSE = 0"

lemmas care_consts = CARE_RC_MAX_def CARE_PD_MAX_def CARE_EPV_LOW_REUSE_def
  CARE_EPV_MOD_LOW_COST_def CARE_EPV_MOD_HIGH_COST_def CARE_EPV_HIGH_REUSE_def

definition care_hashAddr :: "care \<Rightarrow> u64 \<Rightarrow> nat" where
  "care_hashAddr r addr =
     unat (ucast ((addr XOR drop_bit 10 addr) AND ucast (of_nat (length (sht r)) - 1 :: u32)) :: u32)"

definition computeEPV :: "u32 \<Rightarrow> u32 \<Rightarrow> u32" where
  "computeEPV rcVal pdVal =
     (if rcVal = 0 then CARE_EPV_LOW_REUSE
      else if rcVal = CARE_RC_MAX then CARE_EPV_HIGH_REUSE
      else if pdVal = 0 then CARE_EPV_MOD_LOW_COST else CARE_EPV_MOD_HIGH_COST)"

definition care_init :: "nat \<Rightarrow> nat \<Rightarrow> nat \<Rightarrow> care" where
  "care_init numLines numCands shtEntries =
     \<lparr>care_rc = replicate numLines 0, care_pd = replicate numLines 0, care_pmcs = replicate numLines 0,
      care_rBit = replicate numLines False, care_epv = replicate numLines CARE_EPV_LOW_REUSE,
      care_lineAddr = replicate numLines 0, sht = replicate shtEntries \<lparr>sht_rc = 0, sht_pd = 0\<rparr>,
      care_candArray = replicate numCands 0, care_candIdx = 0, TMC = 0, miss_period = 16000,
      current_period = 0, PMC_high = 350, PMC_low = 50, incomingAddr = 0\<rparr>"

text \<open>\<open>FindID\<close>: the first line holding an address, and the 32-bit value of -1 if there is none.\<close>

fun find_addr :: "u64 \<Rightarrow> u64 list \<Rightarrow> nat \<Rightarrow> nat" where
  "find_addr a [] i = 2 ^ 32 - 1"
| "find_addr a (b # bs) i = (if b = a then i else find_addr a bs (Suc i))"

definition FindID :: "care \<Rightarrow> u64 \<Rightarrow> nat" where
  "FindID r a = find_addr a (care_lineAddr r) 0"

subsection \<open>Single-precision quotients\<close>

text \<open>The least shift \<open>s\<close> with \<open>2^23 * b \<le> a * 2^s\<close>; \<open>round_even\<close> rounds \<open>n / d\<close>.\<close>

fun f32_shift :: "nat \<Rightarrow> nat \<Rightarrow> nat \<Rightarrow> nat \<Rightarrow> nat" where
  "f32_shift 0 a b s = s"
| "f32_shift (Suc fuel) a b s = (if 2 ^ 23 * b \<le> a * 2 ^ s then s else f32_shift fuel a b (Suc s))"

definition round_even :: "nat \<Rightarrow> nat \<Rightarrow> nat" where
  "round_even n d =
     (let q = n div d; r = n mod d in
      if 2 * r < d then q else if d < 2 * r then q + 1 else if even q then q else q + 1)"

definition f32_div :: "nat \<Rightarrow> nat \<Rightarrow> rat" where
  "f32_div a b =
     (if a = 0 then 0
      else let s = f32_shift 60 a b 0 in of_nat (round_even (a * 2 ^ s) b) / 2 ^ s)"

definition dbl_0_05 :: rat where "dbl_0_05 = 3602879701896397 / 2 ^ 56"
definition dbl_0_005 :: rat where "dbl_0_005 = 5764607523034235 / 2 ^ 60"

definition care_DTRM :: "rat \<Rightarrow> care \<Rightarrow> care" where
  "care_DTRM mshrPMC r =
     (let cp = current_period r + 1;
          tmc = (if of_nat (unat (PMC_high r)) \<le> mshrPMC then TMC r + 1 else TMC r);
          r1 = r\<lparr>current_period := cp, TMC := tmc\<rparr> in
      if miss_period r \<le> cp
      then let share = f32_div (unat tmc) (unat cp);
               r2 = (if dbl_0_05 < share
                     then r1\<lparr>PMC_high := PMC_high r + 70, PMC_low := PMC_low r + 10\<rparr>
                     else if share < dbl_0_005
                     then if \<not> PMC_low r \<le> 10
                          then r1\<lparr>PMC_high := PMC_high r - 70, PMC_low := PMC_low r - 10\<rparr> else r1
                     else r1)
           in r2\<lparr>current_period := 0, TMC := 0\<rparr>
      else r1)"

subsection \<open>The policy's methods\<close>

definition sht_inc_rc :: "SHTEntry \<Rightarrow> SHTEntry" where
  "sht_inc_rc e = (if sht_rc e < CARE_RC_MAX then e\<lparr>sht_rc := sht_rc e + 1\<rparr> else e)"

definition care_update :: "nat \<Rightarrow> MemReq \<Rightarrow> care \<Rightarrow> care res" where
  "care_update i req r =
     rbind (aget (care_rBit r) i) (\<lambda>rb.
      if rb then Inr r
      else rbind (aget (care_rc r) i) (\<lambda>rc0. rbind (aget (care_lineAddr r) i) (\<lambda>la.
        let rc1 = (if rc0 < CARE_RC_MAX then rc0 + 1 else rc0);
            idx = care_hashAddr r la in
        rbind (aget (sht r) idx) (\<lambda>e. rbind (aget (care_pd r) i) (\<lambda>pd0.
        rbind (aput (care_epv r) i (computeEPV rc1 pd0)) (\<lambda>ep.
          Inr (r\<lparr>care_rBit := (care_rBit r)[i := True], care_rc := (care_rc r)[i := rc1],
                 sht := (sht r)[idx := sht_inc_rc e], care_epv := ep\<rparr>)))))))"

definition quantizePMC :: "u64 \<Rightarrow> rat \<Rightarrow> nat \<Rightarrow> care \<Rightarrow> care res" where
  "quantizePMC addr mshrPMC i r =
     (if i < length (care_rc r)
      then rbind (aput (care_pmcs r) i
             (if mshrPMC < of_nat (unat (PMC_low r)) then 0
              else if of_nat (unat (PMC_high r)) < mshrPMC then 3 else 1))
             (\<lambda>p. Inr (r\<lparr>care_pmcs := p\<rparr>))
      else Inr r)"

definition shtPMCUpdate :: "u64 \<Rightarrow> rat \<Rightarrow> nat \<Rightarrow> care \<Rightarrow> care res" where
  "shtPMCUpdate addr mshrPMC i r =
     (if i < length (care_rc r)
      then let idx = care_hashAddr r addr in
           rbind (aget (care_pmcs r) i) (\<lambda>p. rbind (aget (sht r) idx) (\<lambda>e.
             if p = 3 \<and> sht_pd e < 7 then Inr (r\<lparr>sht := (sht r)[idx := e\<lparr>sht_pd := sht_pd e + 1\<rparr>]\<rparr>)
             else if p = 0 \<and> 0 < sht_pd e then Inr (r\<lparr>sht := (sht r)[idx := e\<lparr>sht_pd := sht_pd e - 1\<rparr>]\<rparr>)
             else Inr r))
      else Inr r)"

definition care_startReplacement :: "MemReq \<Rightarrow> care \<Rightarrow> care" where
  "care_startReplacement req r = r\<lparr>care_candIdx := 0, incomingAddr := MemReq.lineAddr req\<rparr>"

definition care_recordCandidate :: "nat \<Rightarrow> care \<Rightarrow> care res" where
  "care_recordCandidate i r =
     rbind (aput (care_candArray r) (care_candIdx r) i) (\<lambda>ca.
       Inr (r\<lparr>care_candArray := ca, care_candIdx := care_candIdx r + 1\<rparr>))"

text \<open>The comparison of the loop of \<open>getBestCandidate\<close>: does \<open>cand\<close> replace \<open>best\<close>?\<close>

definition care_better :: "care \<Rightarrow> nat \<Rightarrow> nat \<Rightarrow> bool res" where
  "care_better r cand best =
     rbind (aget (care_epv r) cand) (\<lambda>ec. rbind (aget (care_epv r) best) (\<lambda>eb.
      if eb < ec then Inr True
      else if ec = eb
      then rbind (aget (care_rc r) cand) (\<lambda>rc. rbind (aget (care_rc r) best) (\<lambda>rb.
        if rc < rb then Inr True
        else if rc = rb
        then rbind (aget (care_pd r) cand) (\<lambda>pc. rbind (aget (care_pd r) best) (\<lambda>pb. Inr (pc < pb)))
        else Inr False))
      else Inr False))"

fun care_best :: "care \<Rightarrow> nat list \<Rightarrow> nat \<Rightarrow> nat res" where
  "care_best r [] best = Inr best"
| "care_best r (c # cs) best = rbind (care_better r c best) (\<lambda>b. care_best r cs (if b then c else best))"

definition care_getBestCandidate :: "care \<Rightarrow> (nat \<times> care) res" where
  "care_getBestCandidate r =
     rbind (aget (care_candArray r) 0) (\<lambda>c0.
     rbind (care_best r (drop 1 (take (care_candIdx r) (care_candArray r))) c0) (\<lambda>b. Inr (b, r)))"

text \<open>The decay of the evicted line's entry, and the blend of the line's cost into the incoming one's.\<close>

definition sht_dec_rc :: "SHTEntry \<Rightarrow> SHTEntry" where
  "sht_dec_rc e = (if 0 < sht_rc e then e\<lparr>sht_rc := sht_rc e - 1\<rparr> else e)"

definition sht_blend_pd :: "u32 \<Rightarrow> SHTEntry \<Rightarrow> SHTEntry" where
  "sht_blend_pd pd e =
     (if sht_pd e < pd \<and> sht_pd e < CARE_PD_MAX then e\<lparr>sht_pd := sht_pd e + 1\<rparr>
      else if pd < sht_pd e \<and> 0 < sht_pd e then e\<lparr>sht_pd := sht_pd e - 1\<rparr> else e)"

definition care_decay :: "u64 \<Rightarrow> care \<Rightarrow> SHTEntry list res" where
  "care_decay la r =
     (if la \<noteq> 0
      then rbind (aget (sht r) (care_hashAddr r la)) (\<lambda>e.
             Inr ((sht r)[care_hashAddr r la := sht_dec_rc e]))
      else Inr (sht r))"

definition care_replaced :: "nat \<Rightarrow> care \<Rightarrow> care res" where
  "care_replaced i r =
     rbind (aget (care_lineAddr r) i) (\<lambda>la.
     rbind (care_decay la r) (\<lambda>t.
     let inIdx = care_hashAddr r (incomingAddr r) in
     rbind (aget t inIdx) (\<lambda>e. rbind (aget (care_pd r) i) (\<lambda>pd0.
      let e' = sht_blend_pd pd0 e in
      rbind (aput (care_rc r) i (sht_rc e)) (\<lambda>rcs.
      rbind (aput (care_pd r) i (sht_pd e')) (\<lambda>pds.
      rbind (aput (care_lineAddr r) i (incomingAddr r)) (\<lambda>las.
      rbind (aput (care_epv r) i (computeEPV (sht_rc e) (sht_pd e'))) (\<lambda>eps.
      rbind (aput (care_rBit r) i False) (\<lambda>rbs.
      rbind (aput (care_pmcs r) i 0) (\<lambda>pms.
        Inr (r\<lparr>care_rc := rcs, care_pd := pds, care_lineAddr := las, care_epv := eps, care_rBit := rbs,
               care_pmcs := pms, sht := t[inIdx := e'], care_candIdx := 0\<rparr>)))))))))))"

definition CAREReplPolicy :: "care ReplPolicy" where
  "CAREReplPolicy =
     \<lparr>rp_update = care_update, rp_replaced = care_replaced,
      rp_rankCands = (\<lambda>cc. legacy_rank care_startReplacement care_recordCandidate care_getBestCandidate)\<rparr>"

subsection \<open>The invariant\<close>

definition sht_ok :: "SHTEntry \<Rightarrow> bool" where
  "sht_ok e \<longleftrightarrow> sht_rc e \<le> 7 \<and> sht_pd e \<le> 7"

definition care_inv :: "care \<Rightarrow> bool" where
  "care_inv r \<longleftrightarrow>
     (let n = length (care_rc r) in
      length (care_pd r) = n \<and> length (care_pmcs r) = n \<and> length (care_rBit r) = n \<and>
      length (care_epv r) = n \<and> length (care_lineAddr r) = n \<and>
      0 < length (sht r) \<and> length (sht r) < 2 ^ 32 \<and> (\<forall>e \<in> set (sht r). sht_ok e) \<and>
      (\<forall>i < n. care_rc r ! i \<le> 7 \<and> care_pd r ! i \<le> 7 \<and>
         care_epv r ! i = computeEPV (care_rc r ! i) (care_pd r ! i)))"

lemma care_hashAddr_less:
  assumes "0 < length (sht r)" "length (sht r) < 2 ^ 32"
  shows "care_hashAddr r a < length (sht r)"
proof -
  let ?x = "a XOR drop_bit 10 a" and ?m = "of_nat (length (sht r)) - 1 :: u32"
  have m: "unat ?m = length (sht r) - 1"
    using assms Suc_leI [OF assms(1)] by (simp add: unat_sub_if' unsigned_of_nat take_bit_nat_eq_self)
  have le: "?x AND ucast ?m \<le> (ucast ?m :: u64)" by (simp add: word_and_le1)
  then have "unat (?x AND ucast ?m) \<le> unat ?m" by (simp add: word_le_nat_alt)
  moreover have "unat (ucast (?x AND ucast ?m) :: u32) = unat (?x AND ucast ?m)"
    using calculation unat_lt_32 [of ?m] by (intro unat_ucast_64_32) simp
  ultimately show ?thesis using m assms(1) \<open>unat (?x AND ucast ?m) \<le> unat ?m\<close>
    unfolding care_hashAddr_def by linarith
qed

lemma u32_le7_inc: "(a :: u32) \<le> 7 \<Longrightarrow> a < 7 \<Longrightarrow> a + 1 \<le> 7"
  by (simp add: word_le_nat_alt word_less_nat_alt unat_word_ariths)

lemma u32_dec: "(a :: u32) \<le> k \<Longrightarrow> 0 < a \<Longrightarrow> a - 1 \<le> k"
  by (simp add: word_le_nat_alt word_less_nat_alt unat_sub_if')

lemma sht_steps_ok:
  "sht_ok e \<Longrightarrow> sht_ok (sht_inc_rc e)" "sht_ok e \<Longrightarrow> sht_ok (sht_dec_rc e)"
  "sht_ok e \<Longrightarrow> sht_ok (sht_blend_pd p e)"
  by (auto simp: sht_ok_def sht_inc_rc_def sht_dec_rc_def sht_blend_pd_def care_consts u32_dec
      intro: u32_le7_inc)

lemma sht_update_ok:
  "\<forall>e \<in> set t. sht_ok e \<Longrightarrow> sht_ok e' \<Longrightarrow> \<forall>e \<in> set (t[i := e']). sht_ok e"
  by (auto dest!: set_update_subset_insert [THEN subsetD])

lemma care_invD:
  assumes "care_inv r"
  shows "length (care_pd r) = length (care_rc r)" "length (care_pmcs r) = length (care_rc r)"
    "length (care_rBit r) = length (care_rc r)" "length (care_epv r) = length (care_rc r)"
    "length (care_lineAddr r) = length (care_rc r)" "\<forall>e \<in> set (sht r). sht_ok e"
    "care_hashAddr r a < length (sht r)"
    "i < length (care_rc r) \<Longrightarrow> care_rc r ! i \<le> 7 \<and> care_pd r ! i \<le> 7 \<and>
       care_epv r ! i = computeEPV (care_rc r ! i) (care_pd r ! i)"
  using assms care_hashAddr_less [of r a] by (auto simp: care_inv_def Let_def)

lemma care_inv_hashAddr: "length (sht r') = length (sht r) \<Longrightarrow> care_hashAddr r' a = care_hashAddr r a"
  by (simp add: care_hashAddr_def)

lemma care_inv_set_line:
  assumes inv: "care_inv r" and i: "i < length (care_rc r)" and v: "rc \<le> 7" "pd \<le> 7"
    and t: "length t = length (sht r)" "\<forall>e \<in> set t. sht_ok e"
    and l: "length la = length (care_rc r)" "length rb = length (care_rc r)" "length pm = length (care_rc r)"
  shows "care_inv (r\<lparr>care_rc := (care_rc r)[i := rc], care_pd := (care_pd r)[i := pd], care_lineAddr := la,
    care_epv := (care_epv r)[i := computeEPV rc pd], care_rBit := rb, care_pmcs := pm, sht := t,
    care_candIdx := k\<rparr>)"
proof -
  note d = care_invD [OF inv]
  have "(care_rc r)[i := rc] ! j \<le> 7 \<and> (care_pd r)[i := pd] ! j \<le> 7 \<and>
      (care_epv r)[i := computeEPV rc pd] ! j = computeEPV ((care_rc r)[i := rc] ! j) ((care_pd r)[i := pd] ! j)"
    if "j < length (care_rc r)" for j
    using d(8) [OF that] d(1,4) v that by (cases "j = i") simp_all
  then show ?thesis using inv t l unfolding care_inv_def Let_def by simp
qed

lemma care_update_ok:
  assumes inv: "care_inv r" and i: "i < length (care_rc r)"
  shows "\<exists>r'. care_update i q r = Inr r' \<and> care_inv r' \<and> length (care_rc r') = length (care_rc r) \<and>
    length (care_candArray r') = length (care_candArray r)"
proof (cases "care_rBit r ! i")
  case True
  then show ?thesis using inv i care_invD(3) [OF inv] by (simp add: care_update_def)
next
  case False
  note d = care_invD [OF inv]
  let ?h = "care_hashAddr r (care_lineAddr r ! i)"
  define rc where "rc = (if care_rc r ! i < CARE_RC_MAX then care_rc r ! i + 1 else care_rc r ! i)"
  let ?r = "r\<lparr>care_rc := (care_rc r)[i := rc], care_pd := (care_pd r)[i := care_pd r ! i],
    care_lineAddr := care_lineAddr r, care_epv := (care_epv r)[i := computeEPV rc (care_pd r ! i)],
    care_rBit := (care_rBit r)[i := True], care_pmcs := care_pmcs r,
    sht := (sht r)[?h := sht_inc_rc (sht r ! ?h)], care_candIdx := care_candIdx r\<rparr>"
  have run: "care_update i q r = Inr ?r"
    using False i d(1-5,7) by (simp add: care_update_def Let_def rc_def [symmetric])
  have rc: "rc \<le> 7" using d(8) [OF i] u32_le7_inc by (auto simp: care_consts rc_def)
  have "sht_ok (sht_inc_rc (sht r ! ?h))" using d(6,7) by (intro sht_steps_ok) auto
  then have "\<forall>e \<in> set ((sht r)[?h := sht_inc_rc (sht r ! ?h)]). sht_ok e" using d(6) by (rule sht_update_ok [rotated])
  then have "care_inv ?r"
    by (rule care_inv_set_line [OF inv i rc, rotated 2]) (use d(1-5) d(8) [OF i] in simp_all)
  with run show ?thesis by simp
qed

lemma care_decay_ok:
  assumes "care_inv r"
  shows "\<exists>t. care_decay la r = Inr t \<and> length t = length (sht r) \<and> (\<forall>e \<in> set t. sht_ok e)"
proof (cases "la = 0")
  case True
  then show ?thesis using care_invD(6) [OF assms] by (auto simp: care_decay_def)
next
  case False
  let ?h = "care_hashAddr r la"
  have h: "?h < length (sht r)" by (rule care_invD(7) [OF assms])
  then have "sht_ok (sht r ! ?h)" using care_invD(6) [OF assms] by simp
  then have "sht_ok (sht_dec_rc (sht r ! ?h))" by (rule sht_steps_ok)
  from sht_update_ok [OF care_invD(6) [OF assms] this, of ?h] False h show ?thesis
    by (simp add: care_decay_def)
qed

lemma care_replaced_ok:
  assumes inv: "care_inv r" and i: "i < length (care_rc r)"
  shows "\<exists>r'. care_replaced i r = Inr r' \<and> care_inv r' \<and> length (care_rc r') = length (care_rc r) \<and>
    length (care_candArray r') = length (care_candArray r) \<and>
    care_lineAddr r' = (care_lineAddr r)[i := incomingAddr r]"
proof -
  note d = care_invD [OF inv]
  let ?g = "care_hashAddr r (incomingAddr r)"
  obtain t where t: "care_decay (care_lineAddr r ! i) r = Inr t" "length t = length (sht r)"
      "\<forall>e \<in> set t. sht_ok e"
    using care_decay_ok [OF inv] by blast
  have e: "sht_ok (t ! ?g)" using t d(7) by (metis nth_mem)
  let ?e = "sht_blend_pd (care_pd r ! i) (t ! ?g)"
  have e': "sht_ok ?e" by (rule sht_steps_ok [OF e])
  let ?r = "r\<lparr>care_rc := (care_rc r)[i := sht_rc (t ! ?g)], care_pd := (care_pd r)[i := sht_pd ?e],
    care_lineAddr := (care_lineAddr r)[i := incomingAddr r],
    care_epv := (care_epv r)[i := computeEPV (sht_rc (t ! ?g)) (sht_pd ?e)],
    care_rBit := (care_rBit r)[i := False], care_pmcs := (care_pmcs r)[i := 0],
    sht := t[?g := ?e], care_candIdx := 0\<rparr>"
  have run: "care_replaced i r = Inr ?r"
    using i d(1-5,7) t(1,2) by (simp add: care_replaced_def Let_def)
  have "\<forall>e \<in> set (t[?g := ?e]). sht_ok e" by (rule sht_update_ok [OF t(3) e'])
  then have "care_inv ?r"
    by (rule care_inv_set_line [OF inv i, rotated 3]) (use d(1-5) t(2) e e' in \<open>simp_all add: sht_ok_def\<close>)
  with run show ?thesis by simp
qed

lemma care_record_all:
  assumes "care_candIdx r + length cs \<le> length (care_candArray r)"
  shows "\<exists>ca. record_all care_recordCandidate cs r =
      Inr (r\<lparr>care_candArray := ca, care_candIdx := care_candIdx r + length cs\<rparr>) \<and>
    take (care_candIdx r + length cs) ca = take (care_candIdx r) (care_candArray r) @ cs \<and>
    length ca = length (care_candArray r)"
  using assms
proof (induction cs arbitrary: r)
  case (Cons c cs)
  let ?r = "r\<lparr>care_candArray := (care_candArray r)[care_candIdx r := c], care_candIdx := care_candIdx r + 1\<rparr>"
  have k: "care_candIdx r < length (care_candArray r)" using Cons.prems by simp
  then have "care_recordCandidate c r = Inr ?r" by (simp add: care_recordCandidate_def)
  moreover from Cons.IH [of ?r] Cons.prems k show ?case
    using calculation by (auto simp: take_append_update)
qed (auto intro!: exI [of _ "care_candArray r" for r])

subsection \<open>The victim\<close>

text \<open>The eviction order: higher priority value, then lower confidence, then lower cost.\<close>

definition care_worse :: "care \<Rightarrow> nat \<Rightarrow> nat \<Rightarrow> bool" where
  "care_worse r a b \<longleftrightarrow>
     care_epv r ! b < care_epv r ! a \<or>
     care_epv r ! a = care_epv r ! b \<and>
       (care_rc r ! a < care_rc r ! b \<or> care_rc r ! a = care_rc r ! b \<and> care_pd r ! a < care_pd r ! b)"

lemma care_better_eq:
  assumes "care_inv r" "c < length (care_rc r)" "b < length (care_rc r)"
  shows "care_better r c b = Inr (care_worse r c b)"
  using assms care_invD(1,4) [OF assms(1)] by (auto simp: care_better_def care_worse_def)

lemma care_worse_trans: "\<not> care_worse r a b \<Longrightarrow> \<not> care_worse r b c \<Longrightarrow> \<not> care_worse r a c"
  by (auto simp: care_worse_def)

lemma care_worse_irrefl: "\<not> care_worse r a a"
  by (simp add: care_worse_def)

lemma care_worse_asym: "care_worse r a b \<Longrightarrow> \<not> care_worse r b a"
  by (auto simp: care_worse_def)

lemma care_best_spec:
  assumes "care_inv r" "set (b # cs) \<subseteq> {..<length (care_rc r)}"
  shows "\<exists>v. care_best r cs b = Inr v \<and> v \<in> set (b # cs) \<and> (\<forall>c \<in> set (b # cs). \<not> care_worse r c v)"
  using assms(2)
proof (induction cs arbitrary: b)
  case (Cons c cs)
  let ?b = "if care_worse r c b then c else b"
  have step: "care_best r (c # cs) b = care_best r cs ?b"
    using Cons.prems care_better_eq [OF assms(1), of c b] by simp
  have "set (?b # cs) \<subseteq> {..<length (care_rc r)}" using Cons.prems by simp
  from Cons.IH [OF this] obtain v where v: "care_best r cs ?b = Inr v" "v \<in> set (?b # cs)"
      "\<forall>c \<in> set (?b # cs). \<not> care_worse r c v" by blast
  have "\<not> care_worse r c v" "\<not> care_worse r b v"
    using v(3) care_worse_trans [of r _ ?b v] care_worse_asym [of r c b] by (auto split: if_splits)
  with v step show ?case by (auto split: if_splits)
qed (simp add: care_worse_irrefl)

lemma care_rank_spec:
  assumes inv: "care_inv r" and cs: "set cs \<subseteq> {..<length (care_rc r)}" "cs \<noteq> []" "length cs \<le> length (care_candArray r)"
  shows "\<exists>v r'. rp_rankCands CAREReplPolicy cc q cs r = Inr (v, r') \<and> v \<in> set cs \<and> care_inv r' \<and>
    (\<forall>c \<in> set cs. \<not> care_worse r c v) \<and> incomingAddr r' = MemReq.lineAddr q \<and>
    care_rc r' = care_rc r \<and> length (care_candArray r') = length (care_candArray r)"
proof -
  let ?r = "care_startReplacement q r"
  from care_record_all [of ?r cs] cs(3) obtain ca where
    ca: "record_all care_recordCandidate cs ?r = Inr (?r\<lparr>care_candArray := ca, care_candIdx := length cs\<rparr>)"
      "take (length cs) ca = cs" "length ca = length (care_candArray r)"
    by (auto simp: care_startReplacement_def)
  let ?r1 = "?r\<lparr>care_candArray := ca, care_candIdx := length cs\<rparr>"
  have w: "care_worse ?r1 = care_worse r" and inv1: "care_inv ?r1" and rc: "care_rc ?r1 = care_rc r"
    using inv by (auto simp: care_worse_def care_startReplacement_def care_inv_def Let_def fun_eq_iff)
  obtain c cs' where c: "cs = c # cs'" using cs(2) by (cases cs) auto
  then have "ca ! 0 = c" "0 < length ca" using ca(2) by (cases ca; simp)+
  moreover obtain v where "care_best ?r1 cs' c = Inr v" "v \<in> set cs" "\<forall>d \<in> set cs. \<not> care_worse r d v"
    using care_best_spec [OF inv1, of c cs'] cs(1) c rc w by auto
  ultimately show ?thesis
    using ca inv1 rc c by (auto simp: CAREReplPolicy_def legacy_rank_def care_getBestCandidate_def
        care_startReplacement_def)
qed

interpretation care_rp: repl_policy CAREReplPolicy "\<lambda>r. length (care_rc r)" care_inv care_inv
  "\<lambda>r cs. length cs \<le> length (care_candArray r)"
proof unfold_locales
  fix r :: care and i :: nat and q cs cc
  show "\<exists>r'. rp_update CAREReplPolicy i q r = Inr r' \<and> care_inv r' \<and> length (care_rc r') = length (care_rc r) \<and>
      (\<lambda>cs. length cs \<le> length (care_candArray r')) = (\<lambda>cs. length cs \<le> length (care_candArray r))"
    if "care_inv r" "i < length (care_rc r)"
    using care_update_ok [OF that, of q] by (auto simp: CAREReplPolicy_def)
  show "\<exists>r'. rp_replaced CAREReplPolicy i r = Inr r' \<and> care_inv r' \<and> length (care_rc r') = length (care_rc r) \<and>
      (\<lambda>cs. length cs \<le> length (care_candArray r')) = (\<lambda>cs. length cs \<le> length (care_candArray r))"
    if "care_inv r" "i < length (care_rc r)"
    using care_replaced_ok [OF that] by (auto simp: CAREReplPolicy_def)
  show "\<exists>v r'. rp_rankCands CAREReplPolicy cc q cs r = Inr (v, r') \<and> v \<in> set cs \<and> care_inv r' \<and>
      length (care_rc r') = length (care_rc r) \<and>
      (\<lambda>cs. length cs \<le> length (care_candArray r')) = (\<lambda>cs. length cs \<le> length (care_candArray r))"
    if "care_inv r" "length cs \<le> length (care_candArray r)" "set cs \<subseteq> {..<length (care_rc r)}" "cs \<noteq> []"
    using care_rank_spec [OF that(1,3,4,2), of cc q] by auto
qed

subsection \<open>The thresholds\<close>

lemma f32_shift_ge:
  "2 ^ 23 * b \<le> a * 2 ^ (s + fuel) \<Longrightarrow> 2 ^ 23 * b \<le> a * 2 ^ f32_shift fuel a b s"
  by (induction fuel a b s rule: f32_shift.induct) auto

lemma round_even_error:
  assumes "0 < d"
  shows "2 * d * round_even n d \<le> 2 * n + d" and "2 * n \<le> 2 * d * round_even n d + d"
proof -
  define q where "q = n div d"
  define r where "r = n mod d"
  have n: "n = d * q + r" and r: "r < d" using assms by (simp_all add: q_def r_def)
  consider "round_even n d = q" "2 * r \<le> d" | "round_even n d = q + 1" "d \<le> 2 * r"
    unfolding round_even_def Let_def q_def [symmetric] r_def [symmetric]
    by (cases "2 * r < d"; cases "d < 2 * r"; cases "even q"; simp; linarith)
  then show "2 * d * round_even n d \<le> 2 * n + d" "2 * n \<le> 2 * d * round_even n d + d"
    using n r by (cases; simp add: algebra_simps; linarith)+
qed

lemma rat_close:
  assumes "0 < b" "2 * b * k \<le> 2 * (a * t) + b" "2 * (a * t) \<le> 2 * b * k + b" "0 < t"
  shows "\<bar>of_nat k / of_nat t - of_nat a / of_nat b\<bar> \<le> (1 / (2 * of_nat t) :: rat)"
proof -
  have "of_nat (2 * b * k) \<le> (of_nat (2 * (a * t) + b) :: rat)" using assms(2) by (simp only: of_nat_le_iff)
  moreover have "of_nat (2 * (a * t)) \<le> (of_nat (2 * b * k + b) :: rat)" using assms(3) by (simp only: of_nat_le_iff)
  ultimately have d: "2 * of_nat b * of_nat k - 2 * (of_nat a * of_nat t) \<le> (of_nat b :: rat)"
    "- (2 * of_nat b * of_nat k - 2 * (of_nat a * of_nat t)) \<le> (of_nat b :: rat)" by simp_all
  let ?d = "2 * of_nat t * of_nat b :: rat"
  have pos: "0 \<le> ?d" by simp
  have eq: "of_nat k / of_nat t - of_nat a / of_nat b =
      (2 * of_nat b * of_nat k - 2 * (of_nat a * of_nat t)) / ?d" and one: "1 / (2 * of_nat t) = of_nat b / ?d"
    using assms(1,4) by (simp_all add: field_simps)
  show ?thesis unfolding eq one
    using divide_right_mono [OF d(1) pos] divide_right_mono [OF d(2) pos]
    by (intro abs_leI) (simp_all only: minus_divide_left)
qed

lemma f32_div_error:
  assumes a: "0 < a" "a \<le> b" and b: "b < 2 ^ 36"
  shows "\<bar>f32_div a b - of_nat a / of_nat b\<bar> \<le> 1 / 2 ^ 24"
proof -
  define s where "s = f32_shift 60 a b 0"
  define k where "k = round_even (a * 2 ^ s) b"
  have b0: "0 < b" using a by simp
  have f: "f32_div a b = of_nat k / of_nat (2 ^ s)" using a by (simp add: f32_div_def Let_def s_def k_def)
  have "2 ^ 23 * b \<le> 2 ^ 23 * 2 ^ 36" using b by (intro mult_le_mono2) simp
  also have "\<dots> \<le> (2 ^ (0 + 60) :: nat)" by simp
  also have "\<dots> \<le> a * 2 ^ (0 + 60)" using a by simp
  finally have "2 ^ 23 * b \<le> a * 2 ^ s" unfolding s_def by (rule f32_shift_ge)
  also have "\<dots> \<le> b * 2 ^ s" using a by (intro mult_le_mono1)
  finally have "2 ^ 23 * b \<le> 2 ^ s * b" by (simp only: mult.commute)
  then have s: "2 ^ 23 \<le> (2 ^ s :: nat)" using b0 by (simp only: mult_le_cancel2)
  have s': "(2 ^ 23 :: rat) \<le> of_nat (2 ^ s)" using s by (metis of_nat_le_iff of_nat_numeral of_nat_power)
  have "\<bar>of_nat k / of_nat (2 ^ s) - of_nat a / of_nat b\<bar> \<le> (1 / (2 * of_nat (2 ^ s)) :: rat)"
    using round_even_error [OF b0, of "a * 2 ^ s"] b0 unfolding k_def [symmetric] by (intro rat_close) simp_all
  also have "\<dots> \<le> 1 / (2 * 2 ^ 23)" using s' by (intro divide_left_mono mult_left_mono) simp_all
  also have "\<dots> = 1 / 2 ^ 24" by simp
  finally show ?thesis using f by (simp only:)
qed

lemma f32_shift_eq:
  assumes "a * 2 ^ t < 2 ^ 23 * b" "2 ^ 23 * b \<le> a * 2 ^ Suc t"
  shows "s \<le> Suc t \<Longrightarrow> Suc t \<le> s + fuel \<Longrightarrow> f32_shift fuel a b s = Suc t"
proof (induction fuel arbitrary: s)
  case (Suc fuel)
  show ?case
  proof (cases "s = Suc t")
    case True
    then show ?thesis using assms(2) by simp
  next
    case False
    then have "(2 :: nat) ^ s \<le> 2 ^ t" using Suc.prems by (intro power_increasing) auto
    then have "a * 2 ^ s \<le> a * 2 ^ t" by (rule mult_le_mono2)
    then have "\<not> 2 ^ 23 * b \<le> a * 2 ^ s" using assms(1) by linarith
    then show ?thesis using Suc False by simp
  qed
qed simp

lemma f32_div_800: "dbl_0_05 < f32_div 800 16000"
proof -
  have "f32_shift 60 800 16000 0 = Suc 27" by (rule f32_shift_eq) simp_all
  moreover have "round_even (800 * 2 ^ Suc 27) 16000 = 13421773" by (simp add: round_even_def Let_def)
  ultimately show ?thesis by (simp add: f32_div_def Let_def dbl_0_05_def)
qed

lemma f32_div_80: "f32_div 80 16000 < dbl_0_005"
proof -
  have "f32_shift 60 80 16000 0 = Suc 30" by (rule f32_shift_eq) simp_all
  moreover have "round_even (80 * 2 ^ Suc 30) 16000 = 10737418" by (simp add: round_even_def Let_def)
  ultimately show ?thesis by (simp add: f32_div_def Let_def dbl_0_005_def)
qed

lemma f32_div_period:
  assumes "0 < a" "a \<le> 16000"
  shows "f32_div a 16000 \<le> of_nat a / 16000 + 1 / 2 ^ 24" and "of_nat a / 16000 - 1 / 2 ^ 24 \<le> f32_div a 16000"
proof -
  have "\<bar>f32_div a 16000 - of_nat a / of_nat 16000\<bar> \<le> 1 / 2 ^ 24" using assms by (intro f32_div_error) simp_all
  then show "f32_div a 16000 \<le> of_nat a / 16000 + 1 / 2 ^ 24" "of_nat a / 16000 - 1 / 2 ^ 24 \<le> f32_div a 16000"
    unfolding abs_le_iff of_nat_numeral by linarith+
qed

lemma f32_div_le:
  assumes "0 < a" "a \<le> c" "c \<le> 16000"
  shows "f32_div a 16000 \<le> of_nat c / 16000 + 1 / 2 ^ 24"
proof -
  have "(of_nat a :: rat) \<le> of_nat c" using assms by simp
  then show ?thesis using f32_div_period(1) [of a] assms by simp
qed

lemma f32_div_ge:
  assumes "0 < c" "c \<le> a" "a \<le> 16000"
  shows "of_nat c / 16000 - 1 / 2 ^ 24 \<le> f32_div a 16000"
proof -
  have "(of_nat c :: rat) \<le> of_nat a" using assms by simp
  then show ?thesis using f32_div_period(2) [of a] assms by simp
qed

lemma share_high: "a \<le> 16000 \<Longrightarrow> dbl_0_05 < f32_div a 16000 \<longleftrightarrow> 800 \<le> a"
proof -
  assume a: "a \<le> 16000"
  consider "a = 0" | "a = 800" | "0 < a" "a \<le> 799" | "801 \<le> a" by linarith
  then show ?thesis
  proof cases
    case 1
    then show ?thesis by (simp add: f32_div_def dbl_0_05_def)
  next
    case 2
    then show ?thesis using f32_div_800 by simp
  next
    case 3
    have "f32_div a 16000 \<le> 799 / 16000 + 1 / 2 ^ 24" using f32_div_le [OF 3] by simp
    also have "\<dots> \<le> dbl_0_05" by (simp add: dbl_0_05_def)
    finally show ?thesis using 3 by simp
  next
    case 4
    have "dbl_0_05 < 801 / 16000 - 1 / 2 ^ 24" by (simp add: dbl_0_05_def)
    also have "\<dots> \<le> f32_div a 16000" using f32_div_ge [OF _ 4 a] by simp
    finally show ?thesis using 4 by simp
  qed
qed

lemma share_low: "a \<le> 16000 \<Longrightarrow> f32_div a 16000 < dbl_0_005 \<longleftrightarrow> a \<le> 80"
proof -
  assume a: "a \<le> 16000"
  consider "a = 0" | "a = 80" | "0 < a" "a \<le> 79" | "81 \<le> a" by linarith
  then show ?thesis
  proof cases
    case 1
    then show ?thesis by (simp add: f32_div_def dbl_0_005_def)
  next
    case 2
    then show ?thesis using f32_div_80 by simp
  next
    case 3
    have "f32_div a 16000 \<le> 79 / 16000 + 1 / 2 ^ 24" using f32_div_le [OF 3] by simp
    also have "\<dots> < dbl_0_005" by (simp add: dbl_0_005_def)
    finally show ?thesis using 3 by simp
  next
    case 4
    have "dbl_0_005 \<le> 81 / 16000 - 1 / 2 ^ 24" by (simp add: dbl_0_005_def)
    also have "\<dots> \<le> f32_div a 16000" using f32_div_ge [OF _ 4 a] by simp
    finally show ?thesis using 4 by simp
  qed
qed

definition dtrm_inv :: "nat \<Rightarrow> care \<Rightarrow> bool" where
  "dtrm_inv n r \<longleftrightarrow> miss_period r = 16000 \<and> unat (current_period r) = n mod 16000 \<and>
     unat (TMC r) \<le> unat (current_period r) \<and>
     (\<exists>k. 1 \<le> k \<and> k \<le> 5 + n div 16000 \<and> unat (PMC_low r) = 10 * k \<and> unat (PMC_high r) = 70 * k)"

text \<open>The misses counted as costly in a period, one more miss included.\<close>

definition dtrm_tmc :: "rat \<Rightarrow> care \<Rightarrow> nat" where
  "dtrm_tmc p r = unat (TMC r) + (if of_nat (unat (PMC_high r)) \<le> p then 1 else 0)"

lemma dtrm_tmc_word:
  assumes "dtrm_inv n r"
  shows "unat (if of_nat (unat (PMC_high r)) \<le> p then TMC r + 1 else TMC r) = dtrm_tmc p r"
    and "dtrm_tmc p r \<le> Suc (n mod 16000)" and "unat (current_period r + 1) = Suc (n mod 16000)"
proof -
  have b: "unat (TMC r) < 16000" "unat (current_period r) = n mod 16000" "unat (TMC r) \<le> n mod 16000"
    using assms by (auto simp: dtrm_inv_def intro: le_less_trans)
  then show "unat (if of_nat (unat (PMC_high r)) \<le> p then TMC r + 1 else TMC r) = dtrm_tmc p r"
    "dtrm_tmc p r \<le> Suc (n mod 16000)"
    by (auto simp: dtrm_tmc_def unat_word_ariths)
  have "n mod 16000 < 16000" by simp
  with b show "unat (current_period r + 1) = Suc (n mod 16000)" by (simp add: unat_word_ariths)
qed

lemma dtrm_mid:
  assumes "dtrm_inv n r" "Suc n mod 16000 \<noteq> 0"
  shows "dtrm_inv (Suc n) (care_DTRM p r) \<and> PMC_low (care_DTRM p r) = PMC_low r \<and>
    PMC_high (care_DTRM p r) = PMC_high r"
proof -
  note w = dtrm_tmc_word(1,2) [OF assms(1), of p] dtrm_tmc_word(3) [OF assms(1)]
  have m: "Suc (n mod 16000) = Suc n mod 16000" "Suc n div 16000 = n div 16000" "Suc n mod 16000 < 16000"
    using assms(2) by (auto simp: mod_Suc div_Suc split: if_splits)
  have "miss_period r = 16000" using assms(1) by (simp add: dtrm_inv_def)
  then have "\<not> miss_period r \<le> current_period r + 1"
    using w(3) m by (simp add: word_le_nat_alt)
  then show ?thesis
    using w m assms(1) by (auto simp: care_DTRM_def Let_def dtrm_inv_def)
qed

lemma dtrm_inv_new_period:
  assumes "miss_period r = 16000" "Suc n mod 16000 = 0" "1 \<le> k" "k \<le> 5 + Suc n div 16000"
    "unat l = 10 * k" "unat h = 70 * k"
  shows "dtrm_inv (Suc n) (r\<lparr>current_period := 0, TMC := 0, PMC_high := h, PMC_low := l\<rparr>)"
  unfolding dtrm_inv_def using assms by (intro conjI exI [of _ k]) simp_all

lemma dtrm_period_end:
  assumes inv: "dtrm_inv n r" and e: "Suc n mod 16000 = 0" and n: "n < 2 ^ 39"
  shows "dtrm_inv (Suc n) (care_DTRM p r) \<and>
    unat (PMC_low (care_DTRM p r)) =
      (if 800 \<le> dtrm_tmc p r then unat (PMC_low r) + 10
       else if dtrm_tmc p r \<le> 80 \<and> 10 < unat (PMC_low r) then unat (PMC_low r) - 10
       else unat (PMC_low r))"
proof -
  note w = dtrm_tmc_word(1,2) [OF inv, of p] dtrm_tmc_word(3) [OF inv]
  have m: "Suc (n mod 16000) = 16000" "Suc n div 16000 = Suc (n div 16000)"
    using e by (auto simp: mod_Suc div_Suc split: if_splits)
  obtain k where k: "1 \<le> k" "k \<le> 5 + n div 16000" "unat (PMC_low r) = 10 * k" "unat (PMC_high r) = 70 * k"
    and mp: "miss_period r = 16000" using inv by (auto simp: dtrm_inv_def)
  have "n div 16000 \<le> 2 ^ 39 div 16000" using n by (intro div_le_mono) simp
  then have kb: "k \<le> 34359744" using k(2) by simp
  have up: "unat (PMC_low r + 10) = 10 * Suc k" "unat (PMC_high r + 70) = 70 * Suc k"
    using k(3,4) kb by (simp_all add: unat_word_ariths)
  have down: "unat (PMC_low r - 10) = 10 * (k - 1)" "unat (PMC_high r - 70) = 70 * (k - 1)" if "1 < k"
  proof -
    have "10 \<le> PMC_low r" "70 \<le> PMC_high r" using k(3,4) that by (simp_all add: word_le_nat_alt)
    then show "unat (PMC_low r - 10) = 10 * (k - 1)" "unat (PMC_high r - 70) = 70 * (k - 1)"
      using k(3,4) by (simp_all add: unat_sub diff_mult_distrib2)
  qed
  have le10: "PMC_low r \<le> 10 \<longleftrightarrow> \<not> 1 < k" using k(1,3) by (auto simp: word_le_nat_alt)
  have t: "dtrm_tmc p r \<le> 16000" using w(2) m by simp
  have fin: "miss_period r \<le> current_period r + 1" using w(3) m mp by (simp add: word_le_nat_alt)
  define share where "share = f32_div (dtrm_tmc p r) 16000"
  have hi: "dbl_0_05 < share \<longleftrightarrow> 800 \<le> dtrm_tmc p r" and lo: "share < dbl_0_005 \<longleftrightarrow> dtrm_tmc p r \<le> 80"
    using share_high [OF t] share_low [OF t] by (simp_all only: share_def)
  have sh: "f32_div (unat (if of_nat (unat (PMC_high r)) \<le> p then TMC r + 1 else TMC r)) (unat (current_period r + 1)) = share"
    by (simp only: w(1,3) m share_def)
  let ?out = "\<lambda>h l. r\<lparr>current_period := 0, TMC := 0, PMC_high := h, PMC_low := l\<rparr>"
  consider (hi) "800 \<le> dtrm_tmc p r" | (lo) "dtrm_tmc p r \<le> 80" "1 < k"
    | (mid) "\<not> 800 \<le> dtrm_tmc p r" "\<not> (dtrm_tmc p r \<le> 80 \<and> 1 < k)" by linarith
  then show ?thesis
  proof cases
    case hi
    then have "dbl_0_05 < share" using \<open>dbl_0_05 < share \<longleftrightarrow> 800 \<le> dtrm_tmc p r\<close> by simp
    then have "care_DTRM p r = ?out (PMC_high r + 70) (PMC_low r + 10)"
      unfolding care_DTRM_def Let_def sh using fin by simp
    moreover have "dtrm_inv (Suc n) (?out (PMC_high r + 70) (PMC_low r + 10))"
      using mp e k(1,2) m(2) up by (intro dtrm_inv_new_period [where k = "Suc k"]) simp_all
    ultimately show ?thesis using hi up(1) k(3) by simp
  next
    case lo
    then have "\<not> dbl_0_05 < share" "share < dbl_0_005" "\<not> PMC_low r \<le> 10"
      using hi \<open>share < dbl_0_005 \<longleftrightarrow> dtrm_tmc p r \<le> 80\<close> le10 by simp_all
    then have "care_DTRM p r = ?out (PMC_high r - 70) (PMC_low r - 10)"
      unfolding care_DTRM_def Let_def sh using fin by simp
    moreover have "dtrm_inv (Suc n) (?out (PMC_high r - 70) (PMC_low r - 10))"
      using mp e lo k(2) m(2) down by (intro dtrm_inv_new_period [where k = "k - 1"]) simp_all
    moreover have "unat (PMC_low r - 10) = unat (PMC_low r) - 10" using down(1) [OF lo(2)] k(3) by simp
    ultimately show ?thesis using lo k(3) by simp
  next
    case mid
    then have "\<not> dbl_0_05 < share" "\<not> (share < dbl_0_005 \<and> \<not> PMC_low r \<le> 10)"
      using hi lo le10 by simp_all
    then have "care_DTRM p r = ?out (PMC_high r) (PMC_low r)"
      unfolding care_DTRM_def Let_def sh using fin by auto
    moreover have "dtrm_inv (Suc n) (?out (PMC_high r) (PMC_low r))"
      using mp e k m(2) by (intro dtrm_inv_new_period [where k = k]) simp_all
    ultimately show ?thesis using mid k(3) by auto
  qed
qed

lemma dtrm_run:
  assumes "length ms < 2 ^ 39"
  shows "dtrm_inv (length ms) (fold care_DTRM ms (care_init n c s))"
  using assms
proof (induction ms rule: rev_induct)
  case Nil
  have "unat (50 :: u32) = 10 * 5" "unat (350 :: u32) = 70 * 5" by simp_all
  then show ?case unfolding dtrm_inv_def by (intro conjI exI [of _ 5]) (simp_all add: care_init_def)
next
  case (snoc p ms)
  then have inv: "dtrm_inv (length ms) (fold care_DTRM ms (care_init n c s))" by simp
  show ?case
  proof (cases "Suc (length ms) mod 16000 = 0")
    case True
    then show ?thesis using dtrm_period_end [OF inv True, of p] snoc.prems by simp
  next
    case False
    then show ?thesis using dtrm_mid [OF inv False, of p] by simp
  qed
qed

lemma shtPMCUpdate_ok:
  assumes inv: "care_inv r"
  shows "\<exists>r'. shtPMCUpdate a p i r = Inr r' \<and> care_inv r'"
proof (cases "i < length (care_rc r)")
  case True
  note d = care_invD [OF inv]
  let ?h = "care_hashAddr r a"
  have e: "sht_ok (sht r ! ?h)" using d(6,7) by simp
  have keep: "care_inv (r\<lparr>sht := (sht r)[?h := e']\<rparr>)" if "sht_ok e'" for e'
    using inv sht_update_ok [OF d(6) that, of ?h] by (auto simp: care_inv_def Let_def)
  have "sht_ok ((sht r ! ?h)\<lparr>sht_pd := sht_pd (sht r ! ?h) + 1\<rparr>)" if "sht_pd (sht r ! ?h) < 7"
    using e that by (auto simp: sht_ok_def intro: u32_le7_inc)
  moreover have "sht_ok ((sht r ! ?h)\<lparr>sht_pd := sht_pd (sht r ! ?h) - 1\<rparr>)" if "0 < sht_pd (sht r ! ?h)"
    using e that by (auto simp: sht_ok_def intro: u32_dec)
  ultimately show ?thesis
    using True d(2,7) keep inv by (auto simp: shtPMCUpdate_def Let_def)
qed (use inv in \<open>simp add: shtPMCUpdate_def\<close>)

lemma quantizePMC_ok:
  assumes "care_inv r"
  shows "\<exists>r'. quantizePMC a p i r = Inr r' \<and> care_inv r'"
  using assms by (auto simp: quantizePMC_def care_inv_def Let_def)

lemma care_DTRM_ok: "care_inv r \<Longrightarrow> care_inv (care_DTRM p r)"
  by (simp add: care_inv_def care_DTRM_def Let_def)

subsection \<open>Properties\<close>

text \<open>C5. No operation of the CARE policy fails or breaks its invariant: every line's eviction
  priority is the one computed from its confidence and cost, and all four kinds of counters, of the
  lines and of the history table, stay within 0 to 7.  The operations on a missed line accept any
  line number, the -1 of a failed \<open>FindID\<close> included.\<close>

theorem care_ops_keep_invariant:
  assumes "care_inv r"
  shows "(\<exists>r'. shtPMCUpdate a p i r = Inr r' \<and> care_inv r') \<and>
    (\<exists>r'. quantizePMC a p i r = Inr r' \<and> care_inv r') \<and>
    care_inv (care_DTRM p r) \<and>
    (j < length (care_rc r) \<longrightarrow> (\<exists>r'. care_update j q r = Inr r' \<and> care_inv r') \<and>
       (\<exists>r'. care_replaced j r = Inr r' \<and> care_inv r'))"
  using shtPMCUpdate_ok [OF assms] quantizePMC_ok [OF assms] care_DTRM_ok [OF assms]
    care_update_ok [OF assms] care_replaced_ok [OF assms] by blast

text \<open>C6. Ranking never fails on candidates inside the cache; the victim is a candidate that no other
  candidate precedes in the eviction order: highest eviction priority, then lowest confidence,
  then lowest cost.\<close>

theorem care_victim:
  assumes "care_inv r" and "set cs \<subseteq> {..<length (care_rc r)}" and "cs \<noteq> []"
    and "length cs \<le> length (care_candArray r)"
  shows "\<exists>v r'. rp_rankCands CAREReplPolicy cc q cs r = Inr (v, r') \<and> v \<in> set cs \<and>
    (\<forall>c \<in> set cs. care_epv r ! c \<le> care_epv r ! v \<and>
       (care_epv r ! c = care_epv r ! v \<longrightarrow> care_rc r ! v \<le> care_rc r ! c \<and>
          (care_rc r ! c = care_rc r ! v \<longrightarrow> care_pd r ! v \<le> care_pd r ! c)))"
proof -
  have "care_epv r ! c \<le> care_epv r ! v \<and>
       (care_epv r ! c = care_epv r ! v \<longrightarrow> care_rc r ! v \<le> care_rc r ! c \<and>
          (care_rc r ! c = care_rc r ! v \<longrightarrow> care_pd r ! v \<le> care_pd r ! c))"
    if "\<not> care_worse r c v" for c v
    using that by (auto simp: care_worse_def not_less)
  then show ?thesis using care_rank_spec [OF assms, of cc q] by blast
qed

text \<open>After any number of misses below 2^39, the threshold of a costly miss is seven times the
  low threshold, without a wrap-around, and the low threshold stays at or above 10.\<close>

lemma dtrm_threshold_bounds:
  assumes "length ms < 2 ^ 39" and "r = fold care_DTRM ms (care_init n c s)"
  shows "unat (PMC_high r) = 7 * unat (PMC_low r) \<and> 10 \<le> unat (PMC_low r) \<and>
    unat (PMC_low r) \<le> 50 + 10 * (length ms div 16000) \<and>
    unat (current_period r) = length ms mod 16000"
  using dtrm_run [OF assms(1), of n c s] assms(2) by (auto simp: dtrm_inv_def)

text \<open>What happens at the end of a period of 16000 misses: the thresholds go up when at
  least 800 of them were costly, and down when at most 80 were, unless the low threshold is 10
  already.  At exactly 800 and exactly 80 the source's comments (more than 5\<open>%\<close>, less than 0.5\<open>%\<close>) say no
  change; the comparison of a single-precision quotient with a double constant decides otherwise.\<close>

theorem dtrm_period_step:
  assumes "length ms < 2 ^ 39" and "Suc (length ms) mod 16000 = 0"
    and "r = fold care_DTRM ms (care_init n c s)"
  shows "unat (PMC_low (care_DTRM p r)) =
      (if 800 \<le> dtrm_tmc p r then unat (PMC_low r) + 10
       else if dtrm_tmc p r \<le> 80 \<and> 10 < unat (PMC_low r) then unat (PMC_low r) - 10
       else unat (PMC_low r))"
  using dtrm_period_end [OF dtrm_run [OF assms(1), of n c s] assms(2,1), of p] assms(3) by simp

lemma care_inv_init: "0 < s \<Longrightarrow> s < 2 ^ 32 \<Longrightarrow> care_inv (care_init n c s)"
  by (auto simp: care_inv_def care_init_def Let_def sht_ok_def computeEPV_def)

lemma care_ops_keep_invariant_witness:
  "\<exists>r'. care_replaced 1 (care_init 4 2 4) = Inr r' \<and> care_inv r'"
proof -
  have "care_inv (care_init 4 2 4)" by (rule care_inv_init) simp_all
  from care_ops_keep_invariant [OF this, of 0 0 0 1] show ?thesis by (simp add: care_init_def)
qed

lemma care_victim_witness:
  "\<exists>v r'. rp_rankCands CAREReplPolicy \<lparr>cc_numSharers = (\<lambda>_. 0), cc_isValid = (\<lambda>_. True)\<rparr>
      (req_of 9) [2, 3] (care_init 4 2 4) = Inr (v, r') \<and> v \<in> {2, 3}"
proof -
  have "care_inv (care_init 4 2 4)" by (rule care_inv_init) simp_all
  from care_victim [OF this, of "[2, 3]"] show ?thesis by (fastforce simp: care_init_def)
qed

lemma dtrm_threshold_bounds_witness:
  "unat (PMC_high (fold care_DTRM [400, 20] (care_init 4 2 4))) =
     7 * unat (PMC_low (fold care_DTRM [400, 20] (care_init 4 2 4)))"
  using dtrm_threshold_bounds [OF _ refl, of "[400, 20]" 4 2 4] by simp

lemma dtrm_period_step_witness:
  "\<exists>r. r = fold care_DTRM (replicate 15999 0) (care_init 4 2 4) \<and> unat (PMC_low (care_DTRM 0 r)) =
      (if 800 \<le> dtrm_tmc 0 r then unat (PMC_low r) + 10
       else if dtrm_tmc 0 r \<le> 80 \<and> 10 < unat (PMC_low r) then unat (PMC_low r) - 10
       else unat (PMC_low r))"
  using dtrm_period_step [of "replicate 15999 0" _ 4 2 4 0, OF _ _ refl] by simp

text \<open>C4. In a set-associative array that evicts by CARE, inserting an absent address never fails and keeps
  every line in the set its address hashes to; afterwards a lookup finds the new line at the returned
  position, no longer finds the evicted address, and finds every other line where it was.\<close>

theorem care_array_insert_lookup:
  assumes "sa_inv care_inv (\<lambda>r. length (care_rc r)) (\<lambda>r cs. length cs \<le> length (care_candArray r)) hf s"
    and "a \<noteq> 0" and "arr_holds (sa_array s) a = None"
  shows "\<exists>i wb s1 s2. sa_preinsert CAREReplPolicy hf cc a q s = Inr (i, wb, s1) \<and>
    sa_postinsert CAREReplPolicy a q i s1 = Inr s2 \<and>
    sa_inv care_inv (\<lambda>r. length (care_rc r)) (\<lambda>r cs. length cs \<le> length (care_candArray r)) hf s2 \<and>
    (wb \<noteq> 0 \<longrightarrow> arr_holds (sa_array s) wb = Some i) \<and>
    (\<forall>b r u. b \<noteq> 0 \<longrightarrow> (\<exists>s3. sa_lookup CAREReplPolicy hf b r u s2 =
       Inr (if b = a then Some i else if b = wb then None else arr_holds (sa_array s) b, s3)))"
  using care_rp.sa.insert_lookup [OF assms, of cc q] by blast

lemma care_array_insert_lookup_witness:
  "\<exists>i wb s1 s2. sa_preinsert CAREReplPolicy (\<lambda>w a. a) \<lparr>cc_numSharers = \<lambda>_. 0, cc_isValid = \<lambda>_. False\<rparr> 77
      (req_of 77)
      \<lparr>sa_array = replicate 8 0, sa_rp = care_init 8 2 8, sa_numSets = 4, sa_assoc = 2\<rparr> = Inr (i, wb, s1) \<and>
    sa_postinsert CAREReplPolicy 77 (req_of 77) i s1 = Inr s2"
proof -
  let ?s = "\<lparr>sa_array = replicate 8 0, sa_rp = care_init 8 2 8, sa_numSets = 4, sa_assoc = 2\<rparr>"
  have "care_inv (care_init 8 2 8)" by (rule care_inv_init) simp_all
  then have s: "sa_inv care_inv (\<lambda>r. length (care_rc r)) (\<lambda>r cs. length cs \<le> length (care_candArray r)) (\<lambda>w a. a) ?s"
    by (simp add: sa_inv_def sa_shape_def arr_distinct_def care_init_def)
  have a: "(77 :: u64) \<noteq> 0" "arr_holds (sa_array ?s) 77 = None" by (simp_all add: arr_holds_None)
  from care_array_insert_lookup [OF s a] show ?thesis by blast
qed

end
