(* ===== verification/ZCache.thy ===== *)
theory ZCache
  imports CacheArrays "HOL-Library.Multiset"
begin

text \<open>
  The zcache array (cache_arrays.h, cache_arrays.cpp): a skew-associative array whose replacement
  walks a graph of relocations in breadth-first order and then moves a chain of lines.

  \<open>z_lookupArray\<close> maps physical positions to line numbers, \<open>z_array\<close> line numbers to
  addresses.  The candidate array of a walk is the list of its valid entries; an entry that the
  code writes and then overwrites (a revisit of the expanded line) is not kept, and the writes
  are checked against the size of the array.  Indices -1 are \<open>None\<close>.

  The lemmas show that the walk stays inside its array, that the relocation chain is free of
  repetitions and fits the swap array, and that the relocations keep every cached line at a
  position one of its hash functions names, so that the array meets the cache array contract.
\<close>

record ZWalkInfo =
  zw_pos :: nat
  zw_lineId :: nat
  zw_parent :: "nat option"

record 'r ZArray =
  z_array :: "u64 list"
  z_lookupArray :: "nat list"
  z_rp :: 'r
  z_numSets :: nat
  z_ways :: nat
  z_cands :: nat
  z_swapArray :: "nat list"
  z_swapArrayLen :: nat
  z_lastCandIdx :: nat
  z_statSwaps :: nat

definition ZArray_init :: "nat \<Rightarrow> nat \<Rightarrow> nat \<Rightarrow> 'r \<Rightarrow> 'r ZArray res" where
  "ZArray_init numLines ways cands r =
     check (1 < ways) AssertFailed (check (ways \<le> cands) AssertFailed
      (check (numLines mod ways = 0) AssertFailed
      (check (isPow2 (of_nat (numLines div ways) :: u32)) AssertFailed
        (Inr \<lparr>z_array = replicate numLines 0, z_lookupArray = [0..<numLines], z_rp = r,
              z_numSets = numLines div ways, z_ways = ways, z_cands = cands,
              z_swapArray = replicate (cands div ways + 2) 0, z_swapArrayLen = 0,
              z_lastCandIdx = 0, z_statSwaps = 0\<rparr>))))"

definition z_pos :: "(nat \<Rightarrow> u64 \<Rightarrow> u64) \<Rightarrow> nat \<Rightarrow> nat \<Rightarrow> u64 \<Rightarrow> nat" where
  "z_pos hf ns w a = w * ns + set_index hf ns w a"

fun z_find :: "(nat \<Rightarrow> u64 \<Rightarrow> u64) \<Rightarrow> 'r ZArray \<Rightarrow> u64 \<Rightarrow> nat list \<Rightarrow> nat option res" where
  "z_find hf s a [] = Inr None"
| "z_find hf s a (w # ws) =
     rbind (aget (z_lookupArray s) (z_pos hf (z_numSets s) w a)) (\<lambda>l.
     rbind (aget (z_array s) l) (\<lambda>x. if x = a then Inr (Some l) else z_find hf s a ws))"

definition z_lookup ::
  "'r ReplPolicy \<Rightarrow> (nat \<Rightarrow> u64 \<Rightarrow> u64) \<Rightarrow> u64 \<Rightarrow> MemReq \<Rightarrow> bool \<Rightarrow> 'r ZArray \<Rightarrow> (nat option \<times> 'r ZArray) res" where
  "z_lookup rp hf a req upd s =
     check (a \<noteq> 0) Panicked
      (rbind (z_find hf s a [0..<z_ways s]) (\<lambda>f.
        case f of None \<Rightarrow> Inr (None, s)
        | Some i \<Rightarrow> if upd then rbind (rp_update rp i req (z_rp s)) (\<lambda>r. Inr (Some i, s\<lparr>z_rp := r\<rparr>))
                    else Inr (Some i, s)))"

text \<open>The seeds of the walk, with the conjunction of the valid bits.\<close>

fun z_seeds :: "(nat \<Rightarrow> u64 \<Rightarrow> u64) \<Rightarrow> 'r ZArray \<Rightarrow> u64 \<Rightarrow> nat list \<Rightarrow> (ZWalkInfo list \<times> bool) \<Rightarrow> (ZWalkInfo list \<times> bool) res" where
  "z_seeds hf s a [] cv = Inr cv"
| "z_seeds hf s a (w # ws) (cs, v) =
     (let pos = z_pos hf (z_numSets s) w a in
      rbind (aget (z_lookupArray s) pos) (\<lambda>l.
      rbind (aget (z_array s) l) (\<lambda>x.
        z_seeds hf s a ws (cs @ [\<lparr>zw_pos = pos, zw_lineId = l, zw_parent = None\<rparr>], v \<and> x \<noteq> 0))))"

text \<open>The expansion of one fringe entry \<open>fs\<close>, whose line \<open>fid\<close> holds address \<open>fa\<close>.\<close>

fun z_expand ::
  "(nat \<Rightarrow> u64 \<Rightarrow> u64) \<Rightarrow> 'r ZArray \<Rightarrow> nat \<Rightarrow> nat \<Rightarrow> u64 \<Rightarrow> nat list \<Rightarrow> (ZWalkInfo list \<times> bool) \<Rightarrow>
   (ZWalkInfo list \<times> bool) res" where
  "z_expand hf s fs fid fa [] cv = Inr cv"
| "z_expand hf s fs fid fa (w # ws) (cs, v) =
     (let pos = z_pos hf (z_numSets s) w fa in
      rbind (aget (z_lookupArray s) pos) (\<lambda>l.
      check (length cs < z_cands s + z_ways s) OutOfBounds
      (rbind (aget (z_array s) l) (\<lambda>x.
        z_expand hf s fs fid fa ws
          (if l \<noteq> fid then cs @ [\<lparr>zw_pos = pos, zw_lineId = l, zw_parent = Some fs\<rparr>] else cs,
           v \<and> x \<noteq> 0)))))"

fun z_fringe ::
  "nat \<Rightarrow> (nat \<Rightarrow> u64 \<Rightarrow> u64) \<Rightarrow> 'r ZArray \<Rightarrow> nat \<Rightarrow> (ZWalkInfo list \<times> bool) \<Rightarrow> (ZWalkInfo list \<times> bool) res" where
  "z_fringe fuel hf s fs (cs, v) =
     (if length cs < z_cands s \<and> v
      then case fuel of 0 \<Rightarrow> Inl OutOfFuel
        | Suc f \<Rightarrow>
            rbind (aget cs fs) (\<lambda>c.
            rbind (aget (z_array s) (zw_lineId c)) (\<lambda>fa.
            check (fa \<noteq> 0) AssertFailed
            (rbind (z_expand hf s fs (zw_lineId c) fa [0..<z_ways s] (cs, v)) (z_fringe f hf s (fs + 1)))))
      else Inr (cs, v))"

declare z_fringe.simps [simp del]

fun z_min_idx :: "nat \<Rightarrow> ZWalkInfo list \<Rightarrow> nat \<Rightarrow> nat option" where
  "z_min_idx best [] i = None"
| "z_min_idx best (c # cs) i = (if best = zw_lineId c then Some i else z_min_idx best cs (Suc i))"

fun z_fill_swaps :: "nat \<Rightarrow> ZWalkInfo list \<Rightarrow> nat option \<Rightarrow> nat \<Rightarrow> nat list \<Rightarrow> (nat list \<times> nat) res" where
  "z_fill_swaps fuel cs None k sw = Inr (sw, k)"
| "z_fill_swaps 0 cs (Some i) k sw = Inl OutOfFuel"
| "z_fill_swaps (Suc f) cs (Some i) k sw =
     rbind (aget cs i) (\<lambda>c. rbind (aput sw k (zw_pos c)) (\<lambda>sw'.
       z_fill_swaps f cs (zw_parent c) (k + 1) sw'))"

definition z_preinsert ::
  "'r ReplPolicy \<Rightarrow> (nat \<Rightarrow> u64 \<Rightarrow> u64) \<Rightarrow> ccinfo \<Rightarrow> u64 \<Rightarrow> MemReq \<Rightarrow> 'r ZArray \<Rightarrow> (nat \<times> u64 \<times> 'r ZArray) res" where
  "z_preinsert rp hf cc a req s =
     rbind (z_seeds hf s a [0..<z_ways s] ([], True)) (\<lambda>seeds.
     rbind (z_fringe (z_cands s) hf s 0 seeds) (\<lambda>(cs, v).
     check (\<not> v \<or> z_cands s \<le> length cs) AssertFailed
     (let cands = take (z_cands s) cs in
      rbind (rp_rankCands rp cc req (map zw_lineId cands) (z_rp s)) (\<lambda>(best, r).
      check (best < length (z_array s)) AssertFailed
      (case z_min_idx best cands 0 of
         None \<Rightarrow> Inl AssertFailed
       | Some i \<Rightarrow>
           rbind (z_fill_swaps (length cands) cands (Some i) 0 (z_swapArray s)) (\<lambda>(sw, k).
           rbind (aget (z_array s) best) (\<lambda>wb.
             Inr (best, wb, s\<lparr>z_rp := r, z_lastCandIdx := i, z_swapArray := sw, z_swapArrayLen := k\<rparr>))))))))"

text \<open>The swaps of \<open>postinsert\<close> over the positions of the swap array.\<close>

fun z_rotate :: "nat list \<Rightarrow> nat \<Rightarrow> nat list \<Rightarrow> nat list res" where
  "z_rotate [] c L = Inl OutOfBounds"
| "z_rotate [p] c L = aput L p c"
| "z_rotate (p # q # ps) c L = rbind (aget L q) (\<lambda>l. rbind (aput L p l) (z_rotate (q # ps) c))"

definition z_postinsert :: "'r ReplPolicy \<Rightarrow> u64 \<Rightarrow> MemReq \<Rightarrow> nat \<Rightarrow> 'r ZArray \<Rightarrow> 'r ZArray res" where
  "z_postinsert rp a req c s =
     rbind (aget (z_swapArray s) 0) (\<lambda>p0.
     rbind (aget (z_lookupArray s) p0) (\<lambda>l.
     check (l = c) AssertFailed
     (rbind (z_rotate (take (z_swapArrayLen s) (z_swapArray s)) c (z_lookupArray s)) (\<lambda>L.
      rbind (rp_replaced rp c (z_rp s)) (\<lambda>r.
      rbind (aput (z_array s) c a) (\<lambda>arr.
      rbind (rp_update rp c req r) (\<lambda>r'.
        Inr (s\<lparr>z_lookupArray := L, z_array := arr, z_rp := r',
               z_statSwaps := z_statSwaps s + (z_swapArrayLen s - 1)\<rparr>))))))))"

subsection \<open>Placement\<close>

definition z_shape :: "(nat \<Rightarrow> u64 \<Rightarrow> u64) \<Rightarrow> 'r ZArray \<Rightarrow> bool" where
  "z_shape hf s \<longleftrightarrow>
     (let n = z_ways s * z_numSets s in
      2 \<le> z_ways s \<and> z_ways s \<le> z_cands s \<and> 0 < z_numSets s \<and> z_numSets s < 2 ^ 32 \<and>
      length (z_array s) = n \<and> length (z_lookupArray s) = n \<and>
      distinct (z_lookupArray s) \<and> set (z_lookupArray s) = {..<n} \<and> arr_distinct (z_array s) \<and>
      length (z_swapArray s) = z_cands s div z_ways s + 2 \<and>
      (\<forall>p < n. z_array s ! (z_lookupArray s ! p) \<noteq> 0 \<longrightarrow>
         p = z_pos hf (z_numSets s) (p div z_numSets s) (z_array s ! (z_lookupArray s ! p))))"

lemma z_shapeD:
  assumes "z_shape hf s"
  shows "2 \<le> z_ways s" "z_ways s \<le> z_cands s" "0 < z_numSets s" "z_numSets s < 2 ^ 32"
    "length (z_array s) = z_ways s * z_numSets s" "length (z_lookupArray s) = z_ways s * z_numSets s"
    "distinct (z_lookupArray s)" "set (z_lookupArray s) = {..<z_ways s * z_numSets s}"
    "arr_distinct (z_array s)" "length (z_swapArray s) = z_cands s div z_ways s + 2"
    "p < z_ways s * z_numSets s \<Longrightarrow> z_array s ! (z_lookupArray s ! p) \<noteq> 0 \<Longrightarrow>
       p = z_pos hf (z_numSets s) (p div z_numSets s) (z_array s ! (z_lookupArray s ! p))"
  using assms by (auto simp: z_shape_def Let_def)

lemma z_pos_bounds:
  assumes "0 < ns" "ns < 2 ^ 32" "w < ways"
  shows "z_pos hf ns w a < ways * ns" and "z_pos hf ns w a div ns = w"
proof -
  have k: "set_index hf ns w a < ns" by (rule set_index_less [OF assms(1,2)])
  then show "z_pos hf ns w a div ns = w" by (simp add: z_pos_def)
  have "z_pos hf ns w a < Suc w * ns" using k by (simp add: z_pos_def)
  also have "\<dots> \<le> ways * ns" using assms(3) by (intro mult_le_mono1) simp
  finally show "z_pos hf ns w a < ways * ns" .
qed

lemma z_line_less: "z_shape hf s \<Longrightarrow> p < z_ways s * z_numSets s \<Longrightarrow> z_lookupArray s ! p < z_ways s * z_numSets s"
  using z_shapeD(6,8) [of hf s] by (metis lessThan_iff nth_mem)

lemma z_line_inj:
  "z_shape hf s \<Longrightarrow> p < z_ways s * z_numSets s \<Longrightarrow> q < z_ways s * z_numSets s \<Longrightarrow>
   z_lookupArray s ! p = z_lookupArray s ! q \<Longrightarrow> p = q"
  using z_shapeD(6,7) [of hf s] by (simp add: nth_eq_iff_index_eq)

lemma z_find_spec:
  assumes sh: "z_shape hf s" and w: "\<forall>w \<in> set ws. w < z_ways s"
  shows "z_find hf s a ws =
    Inr (map_option (\<lambda>w. z_lookupArray s ! z_pos hf (z_numSets s) w a)
      (find (\<lambda>w. z_array s ! (z_lookupArray s ! z_pos hf (z_numSets s) w a) = a) ws))"
  using w
proof (induction ws)
  case (Cons w ws)
  have "z_pos hf (z_numSets s) w a < z_ways s * z_numSets s"
    using Cons.prems z_pos_bounds(1) [OF z_shapeD(3,4) [OF sh]] by simp
  with z_line_less [OF sh this] z_shapeD(5,6) [OF sh] Cons show ?case by simp
qed simp

lemma z_find_holds:
  assumes sh: "z_shape hf s" and a: "a \<noteq> 0"
  shows "z_find hf s a [0..<z_ways s] = Inr (arr_holds (z_array s) a)"
proof -
  let ?line = "\<lambda>w. z_lookupArray s ! z_pos hf (z_numSets s) w a"
  let ?f = "find (\<lambda>w. z_array s ! ?line w = a) [0..<z_ways s]"
  note d = z_shapeD [OF sh]
  have line: "?line w < length (z_array s)" if "w < z_ways s" for w
    using z_line_less [OF sh z_pos_bounds(1) [OF d(3,4) that]] d(5) by simp
  have "map_option ?line ?f = arr_holds (z_array s) a"
  proof (cases "arr_holds (z_array s) a")
    case None
    then have "?f = None" using a line by (auto simp: arr_holds_None find_None_iff)
    with None show ?thesis by simp
  next
    case (Some i)
    then have i: "i < z_ways s * z_numSets s" "z_array s ! i = a"
      using arr_holds_Some [OF d(9)] d(5) by auto
    then obtain p where p: "p < z_ways s * z_numSets s" "z_lookupArray s ! p = i"
      using d(6,8) by (metis in_set_conv_nth lessThan_iff)
    let ?w = "p div z_numSets s"
    have "?w < z_ways s" using p(1) by (simp add: less_mult_imp_div_less)
    moreover have "p = z_pos hf (z_numSets s) ?w a" using d(11) [OF p(1)] p(2) i(2) a by simp
    then have "?line ?w = i" using p(2) by simp
    ultimately have "?f \<noteq> None" using i(2) by (auto simp: find_None_iff intro!: bexI [of _ ?w])
    then obtain w where w: "?f = Some w" by auto
    then have "w < z_ways s" "z_array s ! ?line w = a" by (auto simp: find_Some_iff)
    with a line have "arr_holds (z_array s) a = Some (?line w)" using arr_holds_Some [OF d(9)] by simp
    with w show ?thesis by simp
  qed
  with z_find_spec [OF sh, of "[0..<z_ways s]" a] show ?thesis by simp
qed

subsection \<open>The closed form of the walk's steps\<close>

definition z_entry :: "(nat \<Rightarrow> u64 \<Rightarrow> u64) \<Rightarrow> 'r ZArray \<Rightarrow> u64 \<Rightarrow> nat option \<Rightarrow> nat \<Rightarrow> ZWalkInfo" where
  "z_entry hf s a par w =
     \<lparr>zw_pos = z_pos hf (z_numSets s) w a, zw_lineId = z_lookupArray s ! z_pos hf (z_numSets s) w a,
      zw_parent = par\<rparr>"

lemma z_entry_line_less:
  assumes "z_shape hf s" "w < z_ways s"
  shows "z_pos hf (z_numSets s) w a < length (z_lookupArray s)"
    and "z_lookupArray s ! z_pos hf (z_numSets s) w a < length (z_array s)"
  using z_pos_bounds(1) [OF z_shapeD(3,4) [OF assms(1)] assms(2)] z_line_less [OF assms(1)]
    z_shapeD(5,6) [OF assms(1)] by auto

lemma z_seeds_eq:
  assumes sh: "z_shape hf s" and w: "\<forall>w \<in> set ws. w < z_ways s"
  shows "z_seeds hf s a ws (cs, v) = Inr (cs @ map (z_entry hf s a None) ws,
    v \<and> (\<forall>w \<in> set ws. z_array s ! zw_lineId (z_entry hf s a None w) \<noteq> 0))"
  using w
proof (induction ws arbitrary: cs v)
  case (Cons w ws)
  with z_entry_line_less [OF sh, of w a] show ?case by (auto simp: Let_def z_entry_def)
qed simp

lemma z_expand_eq:
  assumes sh: "z_shape hf s" and "\<forall>w \<in> set ws. w < z_ways s" and "length cs + length ws \<le> z_cands s + z_ways s"
  shows "z_expand hf s fs fid fa ws (cs, v) =
    Inr (cs @ map (z_entry hf s fa (Some fs)) (filter (\<lambda>w. z_lookupArray s ! z_pos hf (z_numSets s) w fa \<noteq> fid) ws),
      v \<and> (\<forall>w \<in> set ws. z_array s ! (z_lookupArray s ! z_pos hf (z_numSets s) w fa) \<noteq> 0))"
  using assms(2,3)
proof (induction ws arbitrary: cs v)
  case (Cons w ws)
  with z_entry_line_less [OF sh, of w fa] show ?case by (auto simp: Let_def z_entry_def)
qed simp

subsection \<open>The walk\<close>

text \<open>The address of the line of a candidate; what every candidate satisfies; and the candidates
  of one line: the first one's parent is the first one of its own line.\<close>

definition z_addr :: "'r ZArray \<Rightarrow> ZWalkInfo \<Rightarrow> u64" where
  "z_addr s c = z_array s ! zw_lineId c"

definition z_cand_ok :: "(nat \<Rightarrow> u64 \<Rightarrow> u64) \<Rightarrow> 'r ZArray \<Rightarrow> u64 \<Rightarrow> ZWalkInfo list \<Rightarrow> nat \<Rightarrow> bool" where
  "z_cand_ok hf s a cs i \<longleftrightarrow>
     zw_pos (cs ! i) < z_ways s * z_numSets s \<and> zw_lineId (cs ! i) = z_lookupArray s ! zw_pos (cs ! i) \<and>
     (case zw_parent (cs ! i) of
        None \<Rightarrow> \<exists>w < z_ways s. zw_pos (cs ! i) = z_pos hf (z_numSets s) w a
      | Some p \<Rightarrow> p + z_ways s \<le> i \<and> z_addr s (cs ! p) \<noteq> 0 \<and> zw_lineId (cs ! i) \<noteq> zw_lineId (cs ! p) \<and>
          (\<exists>w < z_ways s. zw_pos (cs ! i) = z_pos hf (z_numSets s) w (z_addr s (cs ! p))))"

definition z_first :: "ZWalkInfo list \<Rightarrow> nat \<Rightarrow> bool" where
  "z_first cs i \<longleftrightarrow> (\<forall>j < i. zw_lineId (cs ! j) \<noteq> zw_lineId (cs ! i))"

definition z_chain :: "(nat \<Rightarrow> u64 \<Rightarrow> u64) \<Rightarrow> 'r ZArray \<Rightarrow> u64 \<Rightarrow> ZWalkInfo list \<Rightarrow> bool" where
  "z_chain hf s a cs \<longleftrightarrow>
     (\<forall>i < length cs. z_cand_ok hf s a cs i) \<and>
     (\<forall>i < length cs. \<forall>p. z_first cs i \<and> zw_parent (cs ! i) = Some p \<longrightarrow> z_first cs p)"

definition z_walk :: "(nat \<Rightarrow> u64 \<Rightarrow> u64) \<Rightarrow> 'r ZArray \<Rightarrow> u64 \<Rightarrow> nat \<Rightarrow> ZWalkInfo list \<Rightarrow> bool" where
  "z_walk hf s a fs cs \<longleftrightarrow>
     z_ways s + fs \<le> length cs \<and>
     (\<forall>i < length cs. z_cand_ok hf s a cs i) \<and>
     (\<forall>i < length cs. \<forall>p. zw_parent (cs ! i) = Some p \<longrightarrow> p < fs) \<and>
     (\<forall>j < length cs. \<forall>i < j. \<forall>p q. zw_parent (cs ! i) = Some p \<and> zw_parent (cs ! j) = Some q \<longrightarrow> p \<le> q) \<and>
     (\<forall>e < fs. \<forall>w < z_ways s.
        let l = z_lookupArray s ! z_pos hf (z_numSets s) w (z_addr s (cs ! e)) in
        l \<noteq> zw_lineId (cs ! e) \<longrightarrow> (\<exists>q < length cs. zw_parent (cs ! q) = Some e \<and> zw_lineId (cs ! q) = l))"

lemma z_cand_ok_prefix:
  assumes "z_cand_ok hf s a cs i" "\<And>j. j \<le> i \<Longrightarrow> ds ! j = cs ! j"
  shows "z_cand_ok hf s a ds i"
proof (cases "zw_parent (cs ! i)")
  case None
  with assms show ?thesis by (simp add: z_cand_ok_def)
next
  case (Some p)
  with assms(1) have "p \<le> i" by (simp add: z_cand_ok_def)
  with assms Some show ?thesis by (simp add: z_cand_ok_def z_addr_def)
qed

lemma z_walk_chain:
  assumes w: "z_walk hf s a fs cs"
  shows "z_chain hf s a cs"
  unfolding z_chain_def
proof (intro conjI allI impI)
  show "z_cand_ok hf s a cs i" if "i < length cs" for i using w that by (simp add: z_walk_def)
  fix i p
  assume i: "i < length cs" and fp: "z_first cs i \<and> zw_parent (cs ! i) = Some p"
  have ok: "z_cand_ok hf s a cs i" and pf: "p < fs" using w i fp by (auto simp: z_walk_def)
  show "z_first cs p"
    unfolding z_first_def
  proof (intro allI impI notI)
    fix e
    assume e: "e < p" and same: "zw_lineId (cs ! e) = zw_lineId (cs ! p)"
    obtain v where v: "v < z_ways s" "zw_pos (cs ! i) = z_pos hf (z_numSets s) v (z_addr s (cs ! p))"
      using ok fp by (auto simp: z_cand_ok_def)
    have line: "zw_lineId (cs ! i) = z_lookupArray s ! z_pos hf (z_numSets s) v (z_addr s (cs ! e))"
      and ne: "zw_lineId (cs ! i) \<noteq> zw_lineId (cs ! e)"
      using ok fp v same by (auto simp: z_cand_ok_def z_addr_def)
    have "e < fs" using e pf by simp
    then obtain q where q: "q < length cs" "zw_parent (cs ! q) = Some e" "zw_lineId (cs ! q) = zw_lineId (cs ! i)"
      using w v(1) line ne unfolding z_walk_def Let_def by metis
    have "q < i"
    proof (rule ccontr)
      assume "\<not> q < i"
      then consider "q = i" | "i < q" by linarith
      then show False
      proof cases
        case 1
        then show ?thesis using q(2) fp e by simp
      next
        case 2
        then have "p \<le> e" using w q(1,2) fp unfolding z_walk_def by blast
        then show ?thesis using e by simp
      qed
    qed
    then show False using fp q(3) by (auto simp: z_first_def)
  qed
qed

lemma z_chain_take: "z_chain hf s a cs \<Longrightarrow> z_chain hf s a (take m cs)"
proof -
  assume c: "z_chain hf s a cs"
  have first: "z_first (take m cs) i = z_first cs i" if "i < m" for i
    using that by (auto simp: z_first_def)
  show ?thesis
    unfolding z_chain_def
  proof (intro conjI allI impI)
    show "z_cand_ok hf s a (take m cs) i" if i: "i < length (take m cs)" for i
    proof (rule z_cand_ok_prefix)
      show "z_cand_ok hf s a cs i" using c i unfolding z_chain_def by simp
      show "take m cs ! j = cs ! j" if "j \<le> i" for j using that i by simp
    qed
    fix i p
    assume i: "i < length (take m cs)" and fp: "z_first (take m cs) i \<and> zw_parent (take m cs ! i) = Some p"
    then have ci: "z_first cs i" "zw_parent (cs ! i) = Some p" "i < length cs" "i < m" using first [of i] by auto
    then have "z_first cs p" "z_cand_ok hf s a cs i" using c unfolding z_chain_def by blast+
    moreover have "p \<le> i" using calculation(2) ci(2) by (simp add: z_cand_ok_def)
    ultimately show "z_first (take m cs) p" using first [of p] ci(4) by simp
  qed
qed

text \<open>At most one of the positions of an address holds a given line.\<close>

lemma distinct_all_eq_length: "distinct xs \<Longrightarrow> \<forall>x \<in> set xs. \<forall>y \<in> set xs. x = y \<Longrightarrow> length xs \<le> 1"
proof (rule ccontr)
  assume d: "distinct xs" and e: "\<forall>x \<in> set xs. \<forall>y \<in> set xs. x = y" and "\<not> length xs \<le> 1"
  then have l: "0 < length xs" "1 < length xs" by linarith+
  have "xs ! 0 = xs ! 1" using e nth_mem [OF l(1)] nth_mem [OF l(2)] by blast
  then show False using nth_eq_iff_index_eq [OF d l] by simp
qed

lemma z_other_ways:
  assumes sh: "z_shape hf s"
  shows "z_ways s \<le> Suc (length (filter (\<lambda>w. z_lookupArray s ! z_pos hf (z_numSets s) w fa \<noteq> fid) [0..<z_ways s]))"
proof -
  define line where "line w = z_lookupArray s ! z_pos hf (z_numSets s) w fa" for w
  have inj: "v = w" if "v < z_ways s" "w < z_ways s" "line v = line w" for v w
  proof -
    note zb = z_pos_bounds [OF z_shapeD(3,4) [OF sh]]
    have "z_pos hf (z_numSets s) v fa = z_pos hf (z_numSets s) w fa"
      by (rule z_line_inj [OF sh zb(1) [OF that(1)] zb(1) [OF that(2)]]) (use that(3) in \<open>simp only: line_def\<close>)
    then show ?thesis using zb(2) [OF that(1), of hf fa] zb(2) [OF that(2), of hf fa] by metis
  qed
  have "distinct (filter (\<lambda>w. \<not> line w \<noteq> fid) [0..<z_ways s])" by simp
  then have "length (filter (\<lambda>w. \<not> line w \<noteq> fid) [0..<z_ways s]) \<le> 1"
    by (rule distinct_all_eq_length) (auto intro: inj)
  moreover have "length (filter (\<lambda>w. line w \<noteq> fid) [0..<z_ways s]) +
      length (filter (\<lambda>w. \<not> line w \<noteq> fid) [0..<z_ways s]) = z_ways s"
    using sum_length_filter_compl [of "\<lambda>w. line w \<noteq> fid" "[0..<z_ways s]"] by simp
  ultimately show ?thesis unfolding line_def by linarith
qed

lemma z_walk_seeds:
  assumes sh: "z_shape hf s"
  shows "z_walk hf s a 0 (map (z_entry hf s a None) [0..<z_ways s])"
  using z_pos_bounds(1) [OF z_shapeD(3,4) [OF sh]]
  by (auto simp: z_walk_def z_cand_ok_def z_entry_def)

lemma z_walk_expand:
  assumes sh: "z_shape hf s" and w: "z_walk hf s a fs cs" and fs: "fs < length cs" and fa: "z_addr s (cs ! fs) \<noteq> 0"
    and new: "new = map (z_entry hf s (z_addr s (cs ! fs)) (Some fs))
      (filter (\<lambda>w. z_lookupArray s ! z_pos hf (z_numSets s) w (z_addr s (cs ! fs)) \<noteq> zw_lineId (cs ! fs)) [0..<z_ways s])"
  shows "z_walk hf s a (Suc fs) (cs @ new)"
proof -
  let ?fa = "z_addr s (cs ! fs)"
  have len: "z_ways s + fs \<le> length cs" using w by (simp add: z_walk_def)
  have new_at: "new ! k \<in> set new" if "k < length new" for k using that by simp
  have mem: "\<exists>v < z_ways s. c = z_entry hf s ?fa (Some fs) v \<and> zw_lineId c \<noteq> zw_lineId (cs ! fs)" if "c \<in> set new" for c
    using that by (auto simp: new z_entry_def)
  have at: "(cs @ new) ! i = (if i < length cs then cs ! i else new ! (i - length cs))" for i
    by (simp add: nth_append)
  have parent: "zw_parent ((cs @ new) ! i) = Some fs" if "length cs \<le> i" "i < length (cs @ new)" for i
  proof -
    have "i - length cs < length new" using that unfolding length_append by linarith
    from mem [OF new_at [OF this]] that(1) show ?thesis by (auto simp: at z_entry_def)
  qed
  have old: "p < fs" if "zw_parent ((cs @ new) ! i) = Some p" "i < length cs" for i p
  proof -
    have "zw_parent (cs ! i) = Some p" using that by (simp add: at)
    then show ?thesis using w that(2) unfolding z_walk_def by blast
  qed
  have c1: "z_ways s + Suc fs \<le> length (cs @ new)"
  proof -
    have "1 \<le> length new" using z_other_ways [OF sh, of ?fa "zw_lineId (cs ! fs)"] z_shapeD(1) [OF sh]
      by (simp add: new)
    then show ?thesis using len by simp
  qed
  have c2: "z_cand_ok hf s a (cs @ new) i" if i: "i < length (cs @ new)" for i
  proof (cases "i < length cs")
    case True
    then have "z_cand_ok hf s a cs i" using w unfolding z_walk_def by blast
    then show ?thesis by (rule z_cand_ok_prefix) (use True in \<open>simp add: at\<close>)
  next
    case False
    then have "i - length cs < length new" using i unfolding length_append by linarith
    from mem [OF new_at [OF this]] False obtain v where v: "v < z_ways s" "(cs @ new) ! i = z_entry hf s ?fa (Some fs) v"
        "zw_lineId ((cs @ new) ! i) \<noteq> zw_lineId (cs ! fs)" by (auto simp: at)
    moreover have "fs + z_ways s \<le> i" using False len by simp
    moreover have "(cs @ new) ! fs = cs ! fs" using fs by (simp add: at)
    ultimately show ?thesis
      using fa z_pos_bounds(1) [OF z_shapeD(3,4) [OF sh] v(1)] by (auto simp: z_cand_ok_def z_entry_def)
  qed
  have c3: "p < Suc fs" if "i < length (cs @ new)" "zw_parent ((cs @ new) ! i) = Some p" for i p
  proof (cases "i < length cs")
    case True
    then show ?thesis using old [OF that(2)] by simp
  next
    case False
    then show ?thesis using parent [of i] that by simp
  qed
  have c4: "p \<le> q" if "j < length (cs @ new)" "i < j" "zw_parent ((cs @ new) ! i) = Some p" "zw_parent ((cs @ new) ! j) = Some q" for i j p q
  proof (cases "j < length cs")
    case True
    then have "zw_parent (cs ! i) = Some p" "zw_parent (cs ! j) = Some q" using that by (simp_all add: at)
    then show ?thesis using w True that(2) unfolding z_walk_def by blast
  next
    case False
    then have "q = fs" using parent [of j] that by simp
    moreover have "p < Suc fs" using c3 [of i p] that by simp
    ultimately show ?thesis by simp
  qed
  have c5: "\<exists>q < length (cs @ new). zw_parent ((cs @ new) ! q) = Some e \<and>
      zw_lineId ((cs @ new) ! q) = z_lookupArray s ! z_pos hf (z_numSets s) v (z_addr s ((cs @ new) ! e))"
    if e: "e < Suc fs" and v: "v < z_ways s"
      and ne: "z_lookupArray s ! z_pos hf (z_numSets s) v (z_addr s ((cs @ new) ! e)) \<noteq> zw_lineId ((cs @ new) ! e)" for e v
  proof (cases "e = fs")
    case False
    then have "e < fs" "(cs @ new) ! e = cs ! e" using e fs by (auto simp: at)
    with w v ne obtain q where "q < length cs" "zw_parent (cs ! q) = Some e"
        "zw_lineId (cs ! q) = z_lookupArray s ! z_pos hf (z_numSets s) v (z_addr s (cs ! e))"
      unfolding z_walk_def Let_def by metis
    with \<open>(cs @ new) ! e = cs ! e\<close> show ?thesis by (intro exI [of _ q]) (simp add: at)
  next
    case True
    then have [simp]: "(cs @ new) ! e = cs ! fs" using fs by (simp add: at)
    have "z_lookupArray s ! z_pos hf (z_numSets s) v ?fa \<noteq> zw_lineId (cs ! fs)"
      using ne \<open>(cs @ new) ! e = cs ! fs\<close> by metis
    then have "z_entry hf s ?fa (Some fs) v \<in> set new" using v by (auto simp: new)
    then obtain k where "k < length new" "new ! k = z_entry hf s ?fa (Some fs) v" by (auto simp: in_set_conv_nth)
    then show ?thesis using True using fs by (intro exI [of _ "length cs + k"]) (auto simp: at z_entry_def)
  qed
  show ?thesis unfolding z_walk_def Let_def using c1 c2 c3 c4 c5 by blast
qed

subsection \<open>The fringe loop ends with enough candidates\<close>

lemma z_fringe_ok:
  assumes sh: "z_shape hf s"
  shows "z_walk hf s a fs cs \<Longrightarrow> (v \<longrightarrow> (\<forall>c \<in> set cs. z_addr s c \<noteq> 0)) \<Longrightarrow> z_cands s \<le> length cs + fuel \<Longrightarrow>
    \<exists>cs' v' fs'. z_fringe fuel hf s fs (cs, v) = Inr (cs', v') \<and> z_walk hf s a fs' cs' \<and>
      (v' \<longrightarrow> z_cands s \<le> length cs')"
proof (induction fuel arbitrary: fs cs v)
  case 0
  then show ?case by (auto simp: z_fringe.simps)
next
  case (Suc fuel)
  show ?case
  proof (cases "length cs < z_cands s \<and> v")
    case False
    then have "z_fringe (Suc fuel) hf s fs (cs, v) = Inr (cs, v)" by (subst z_fringe.simps) (simp only: if_False)
    then show ?thesis using Suc.prems(1) False by auto
  next
    case True
    let ?c = "cs ! fs"
    let ?new = "map (z_entry hf s (z_addr s ?c) (Some fs))
      (filter (\<lambda>w. z_lookupArray s ! z_pos hf (z_numSets s) w (z_addr s ?c) \<noteq> zw_lineId ?c) [0..<z_ways s])"
    let ?v = "v \<and> (\<forall>w \<in> set [0..<z_ways s]. z_array s ! (z_lookupArray s ! z_pos hf (z_numSets s) w (z_addr s ?c)) \<noteq> 0)"
    have fs: "fs < length cs" using Suc.prems(1) z_shapeD(1) [OF sh] by (simp add: z_walk_def)
    have ok: "z_cand_ok hf s a cs fs" using Suc.prems(1) fs unfolding z_walk_def by blast
    have line: "zw_lineId ?c < length (z_array s)"
      using ok z_line_less [OF sh] z_shapeD(5) [OF sh] by (auto simp: z_cand_ok_def)
    have fa: "z_addr s ?c \<noteq> 0" using Suc.prems(2) True fs by simp
    have "z_expand hf s fs (zw_lineId ?c) (z_addr s ?c) [0..<z_ways s] (cs, v) = Inr (cs @ ?new, ?v)"
      using True by (intro z_expand_eq [OF sh]) auto
    then have step: "z_fringe (Suc fuel) hf s fs (cs, v) = z_fringe fuel hf s (fs + 1) (cs @ ?new, ?v)"
      using True fs line fa by (subst z_fringe.simps) (simp add: z_addr_def)
    have walk: "z_walk hf s a (Suc fs) (cs @ ?new)" by (rule z_walk_expand [OF sh Suc.prems(1) fs fa refl])
    have valid: "?v \<longrightarrow> (\<forall>c \<in> set (cs @ ?new). z_addr s c \<noteq> 0)"
      using Suc.prems(2) by (auto simp: z_entry_def z_addr_def)
    have "1 \<le> length ?new" using z_other_ways [OF sh, of "z_addr s ?c" "zw_lineId ?c"] z_shapeD(1) [OF sh] by simp
    then have "z_cands s \<le> length (cs @ ?new) + fuel" using Suc.prems(3) by simp
    from Suc.IH [OF walk valid this] show ?thesis using step by simp
  qed
qed

subsection \<open>The relocation chain\<close>

definition z_is_path :: "ZWalkInfo list \<Rightarrow> nat list \<Rightarrow> bool" where
  "z_is_path cs is \<longleftrightarrow>
     is \<noteq> [] \<and> distinct is \<and> (\<forall>j \<in> set is. j < length cs \<and> z_first cs j) \<and>
     zw_parent (cs ! last is) = None \<and>
     (\<forall>k. Suc k < length is \<longrightarrow> zw_parent (cs ! (is ! k)) = Some (is ! Suc k))"

lemma z_path:
  assumes c: "z_chain hf s a cs" and w: "0 < z_ways s"
  shows "i < length cs \<Longrightarrow> z_first cs i \<Longrightarrow>
    \<exists>is. z_is_path cs is \<and> hd is = i \<and> (\<forall>j \<in> set is. j \<le> i) \<and> length is \<le> i div z_ways s + 1 \<and>
      (\<forall>f k sw. i < f \<longrightarrow> k + length is \<le> length sw \<longrightarrow>
        (\<exists>sw'. z_fill_swaps f cs (Some i) k sw = Inr (sw', k + length is) \<and> length sw' = length sw \<and>
           take (k + length is) sw' = take k sw @ map (\<lambda>j. zw_pos (cs ! j)) is))"
proof (induction i rule: less_induct)
  case (less i)
  show ?case
  proof (cases "zw_parent (cs ! i)")
    case None
    have "\<exists>sw'. z_fill_swaps f cs (Some i) k sw = Inr (sw', k + length [i]) \<and> length sw' = length sw \<and>
        take (k + length [i]) sw' = take k sw @ map (\<lambda>j. zw_pos (cs ! j)) [i]"
      if "i < f" "k + length [i] \<le> length sw" for f k sw
      using that less.prems(1) None by (cases f) (simp_all add: take_append_update)
    moreover have "z_is_path cs [i]" using less.prems None by (simp add: z_is_path_def)
    ultimately show ?thesis by (intro exI [of _ "[i]"]) simp
  next
    case (Some p)
    have ok: "z_cand_ok hf s a cs i" and fp: "z_first cs p"
      using c less.prems Some unfolding z_chain_def by blast+
    then have pw: "p + z_ways s \<le> i" using Some by (simp add: z_cand_ok_def)
    then have pi: "p < i" using w by simp
    from less.IH [OF pi _ fp] less.prems(1) pi obtain js where
      js: "z_is_path cs js" "hd js = p" "\<forall>j \<in> set js. j \<le> p" "length js \<le> p div z_ways s + 1"
      and fill: "\<And>f k sw. p < f \<Longrightarrow> k + length js \<le> length sw \<Longrightarrow>
        \<exists>sw'. z_fill_swaps f cs (Some p) k sw = Inr (sw', k + length js) \<and> length sw' = length sw \<and>
           take (k + length js) sw' = take k sw @ map (\<lambda>j. zw_pos (cs ! j)) js" by auto
    have jne: "js \<noteq> []" using js(1) by (simp add: z_is_path_def)
    have path: "z_is_path cs (i # js)"
      unfolding z_is_path_def
    proof (intro conjI allI impI)
      show "distinct (i # js)" using js(1,3) pi by (auto simp: z_is_path_def)
      show "\<forall>j \<in> set (i # js). j < length cs \<and> z_first cs j" using js(1) less.prems by (auto simp: z_is_path_def)
      show "zw_parent (cs ! last (i # js)) = None" using js(1) jne by (simp add: z_is_path_def)
      fix k
      assume k: "Suc k < length (i # js)"
      show "zw_parent (cs ! ((i # js) ! k)) = Some ((i # js) ! Suc k)"
      proof (cases k)
        case 0
        then show ?thesis using Some js(2) jne by (simp add: hd_conv_nth)
      next
        case (Suc m)
        then show ?thesis using js(1) k by (simp add: z_is_path_def)
      qed
    qed simp
    have len: "length (i # js) \<le> i div z_ways s + 1"
    proof -
      have "p div z_ways s \<le> (i - z_ways s) div z_ways s" using pw by (intro div_le_mono) simp
      moreover have "i div z_ways s = Suc ((i - z_ways s) div z_ways s)" using pw w by (intro le_div_geq) simp_all
      ultimately show ?thesis using js(4) by simp
    qed
    have run: "\<exists>sw'. z_fill_swaps f cs (Some i) k sw = Inr (sw', k + length (i # js)) \<and> length sw' = length sw \<and>
        take (k + length (i # js)) sw' = take k sw @ map (\<lambda>j. zw_pos (cs ! j)) (i # js)"
      if f: "i < f" and k: "k + length (i # js) \<le> length sw" for f k sw
    proof -
      obtain g where g: "f = Suc g" using f by (cases f) auto
      let ?sw = "sw[k := zw_pos (cs ! i)]"
      have "p < g" "Suc k + length js \<le> length ?sw" using pi f g k by simp_all
      from fill [OF this] obtain sw' where sw': "z_fill_swaps g cs (Some p) (Suc k) ?sw = Inr (sw', Suc k + length js)"
          "length sw' = length ?sw" "take (Suc k + length js) sw' = take (Suc k) ?sw @ map (\<lambda>j. zw_pos (cs ! j)) js" by blast
      have "take (Suc k) ?sw = take k sw @ [zw_pos (cs ! i)]" using k by (intro take_append_update) simp
      then show ?thesis using sw' g k less.prems(1) Some by simp
    qed
    show ?thesis using path len run pi js(3) by (intro exI [of _ "i # js"]) auto
  qed
qed

lemma z_min_idx_spec:
  assumes "best \<in> zw_lineId ` set cs"
  shows "\<exists>i. z_min_idx best cs k = Some (k + i) \<and> i < length cs \<and> zw_lineId (cs ! i) = best \<and> z_first cs i"
  using assms
proof (induction cs arbitrary: k)
  case (Cons c cs)
  show ?case
  proof (cases "best = zw_lineId c")
    case True
    then show ?thesis by (auto simp: z_first_def)
  next
    case False
    then obtain i where "z_min_idx best cs (Suc k) = Some (Suc k + i)" "i < length cs" "zw_lineId (cs ! i) = best" "z_first cs i"
      using Cons by fastforce
    then show ?thesis using False
      by (intro exI [of _ "Suc i"]) (auto simp: z_first_def nth_Cons split: nat.split)
  qed
qed simp

subsection \<open>The swaps\<close>

lemma z_rotate_spec:
  assumes "ps \<noteq> []" "distinct ps" "set ps \<subseteq> {..<length L}"
  shows "\<exists>L'. z_rotate ps c L = Inr L' \<and> length L' = length L \<and>
    (\<forall>p. p \<notin> set ps \<longrightarrow> L' ! p = L ! p) \<and> L' ! last ps = c \<and>
    (\<forall>k. Suc k < length ps \<longrightarrow> L' ! (ps ! k) = L ! (ps ! Suc k)) \<and>
    mset L' + {#L ! hd ps#} = mset L + {#c#}"
  using assms
proof (induction ps c L rule: z_rotate.induct)
  case (2 p c L)
  then have p: "p < length L" by simp
  have "mset (L[p := c]) + {#L ! p#} = mset L + {#c#}"
    using p by (simp add: mset_update)
  with p show ?case by simp
next
  case (3 p q ps c L)
  let ?L = "L[p := L ! q]"
  have pq: "p < length L" "q < length L" "p \<noteq> q" "p \<notin> set (q # ps)" using "3.prems" by auto
  have "\<exists>L'. z_rotate (q # ps) c ?L = Inr L' \<and> length L' = length ?L \<and>
    (\<forall>x. x \<notin> set (q # ps) \<longrightarrow> L' ! x = ?L ! x) \<and> L' ! last (q # ps) = c \<and>
    (\<forall>k. Suc k < length (q # ps) \<longrightarrow> L' ! ((q # ps) ! k) = ?L ! ((q # ps) ! Suc k)) \<and>
    mset L' + {#?L ! hd (q # ps)#} = mset ?L + {#c#}"
    using "3.prems" pq by (intro "3.IH" [of "L ! q" ?L]) auto
  then obtain L' where L': "z_rotate (q # ps) c ?L = Inr L'" "length L' = length ?L"
      "\<And>x. x \<notin> set (q # ps) \<Longrightarrow> L' ! x = ?L ! x" "L' ! last (q # ps) = c"
      "\<And>k. Suc k < length (q # ps) \<Longrightarrow> L' ! ((q # ps) ! k) = ?L ! ((q # ps) ! Suc k)"
      "mset L' + {#?L ! q#} = mset ?L + {#c#}" by auto
  have run: "z_rotate (p # q # ps) c L = Inr L'" using pq L'(1) by simp
  have shift: "L' ! ((p # q # ps) ! k) = L ! ((p # q # ps) ! Suc k)" if k: "Suc k < length (p # q # ps)" for k
  proof (cases k)
    case 0
    then show ?thesis using L'(3) [of p] pq by simp
  next
    case (Suc m)
    then have "L' ! ((q # ps) ! m) = ?L ! ((q # ps) ! Suc m)" using k by (intro L'(5)) simp
    moreover have "(q # ps) ! Suc m \<in> set (q # ps)" using Suc k by (intro nth_mem) simp
    then have "(q # ps) ! Suc m \<noteq> p" using pq(4) by metis
    ultimately show ?thesis using Suc by simp
  qed
  have other: "L' ! x = L ! x" if "x \<notin> set (p # q # ps)" for x using L'(3) [of x] that by simp
  have "mset ?L + {#L ! p#} = mset L + {#L ! q#}" using pq by (simp add: mset_update)
  then have ms: "mset L' + {#L ! p#} = mset L + {#c#}"
  proof -
    have "mset L' + {#L ! q#} = mset ?L + {#c#}" using L'(6) pq(3) by simp
    then have "mset L' + {#L ! q#} + {#L ! p#} = (mset ?L + {#L ! p#}) + {#c#}" by simp
    also have "\<dots> = (mset L + {#c#}) + {#L ! q#}"
      unfolding \<open>mset ?L + {#L ! p#} = mset L + {#L ! q#}\<close> by simp
    finally show ?thesis by simp
  qed
  show ?case
  proof (intro exI conjI allI impI)
    show "z_rotate (p # q # ps) c L = Inr L'" by (rule run)
    show "mset L' + {#L ! hd (p # q # ps)#} = mset L + {#c#}" using ms by simp
    show "L' ! last (p # q # ps) = c" using L'(4) by simp
    show "length L' = length L" using L'(2) by simp
    show "\<And>x. x \<notin> set (p # q # ps) \<Longrightarrow> L' ! x = L ! x" by (rule other)
    show "\<And>k. Suc k < length (p # q # ps) \<Longrightarrow> L' ! ((p # q # ps) ! k) = L ! ((p # q # ps) ! Suc k)" by (rule shift)
  qed
qed simp

text \<open>A prepared replacement: the chain of positions in the swap array.\<close>

definition z_moves :: "(nat \<Rightarrow> u64 \<Rightarrow> u64) \<Rightarrow> 'r ZArray \<Rightarrow> u64 \<Rightarrow> nat \<Rightarrow> bool" where
  "z_moves hf s a c \<longleftrightarrow>
     (let ps = take (z_swapArrayLen s) (z_swapArray s) in
      ps \<noteq> [] \<and> distinct ps \<and> set ps \<subseteq> {..<z_ways s * z_numSets s} \<and> z_lookupArray s ! hd ps = c \<and>
      (\<exists>w < z_ways s. last ps = z_pos hf (z_numSets s) w a) \<and>
      (\<forall>k. Suc k < length ps \<longrightarrow> (\<exists>w < z_ways s. ps ! k =
         z_pos hf (z_numSets s) w (z_array s ! (z_lookupArray s ! (ps ! Suc k))))))"

lemma z_path_moves:
  assumes sh: "z_shape hf s" and c: "z_chain hf s a cs" and p: "z_is_path cs is"
    and ps: "take (z_swapArrayLen t) (z_swapArray t) = map (\<lambda>j. zw_pos (cs ! j)) is"
    and t: "z_lookupArray t = z_lookupArray s" "z_array t = z_array s" "z_ways t = z_ways s" "z_numSets t = z_numSets s"
  shows "z_moves hf t a (zw_lineId (cs ! hd is))"
proof -
  have isne: "is \<noteq> []" and din: "distinct is" and il: "\<And>j. j \<in> set is \<Longrightarrow> j < length cs \<and> z_first cs j"
    and lastp: "zw_parent (cs ! last is) = None"
    and par: "\<And>k. Suc k < length is \<Longrightarrow> zw_parent (cs ! (is ! k)) = Some (is ! Suc k)"
    using p by (auto simp: z_is_path_def)
  have ok: "z_cand_ok hf s a cs j" if "j \<in> set is" for j using c il [OF that] unfolding z_chain_def by blast
  have line: "zw_lineId (cs ! j) = z_lookupArray s ! zw_pos (cs ! j)" and pos: "zw_pos (cs ! j) < z_ways s * z_numSets s"
    if "j \<in> set is" for j using ok [OF that] by (auto simp: z_cand_ok_def)
  have inj: "inj_on (\<lambda>j. zw_pos (cs ! j)) (set is)"
  proof (rule inj_onI)
    fix j k
    assume jk: "j \<in> set is" "k \<in> set is" "zw_pos (cs ! j) = zw_pos (cs ! k)"
    then have "zw_lineId (cs ! j) = zw_lineId (cs ! k)" using line by metis
    then show "j = k" using il [OF jk(1)] il [OF jk(2)] unfolding z_first_def by (metis linorder_neqE_nat)
  qed
  have "last is \<in> set is" "hd is \<in> set is" using isne by simp_all
  then have last: "\<exists>w < z_ways s. zw_pos (cs ! last is) = z_pos hf (z_numSets s) w a"
    using ok [of "last is"] lastp by (simp add: z_cand_ok_def)
  have step: "\<exists>w < z_ways s. zw_pos (cs ! (is ! k)) =
      z_pos hf (z_numSets s) w (z_array s ! (z_lookupArray s ! zw_pos (cs ! (is ! Suc k))))" if k: "Suc k < length is" for k
    using ok [of "is ! k"] par [OF k] k line [of "is ! Suc k"] by (simp add: z_cand_ok_def z_addr_def)
  show ?thesis
    unfolding z_moves_def Let_def ps t
    using isne din inj pos last step line [OF \<open>hd is \<in> set is\<close>]
    by (auto simp: distinct_map hd_map last_map)
qed

lemma z_moves_shape:
  assumes sh: "z_shape hf s" and m: "z_moves hf s a c" and a: "a \<noteq> 0" "arr_holds (z_array s) a = None"
  shows "\<exists>L. z_rotate (take (z_swapArrayLen s) (z_swapArray s)) c (z_lookupArray s) = Inr L \<and>
    c < length (z_array s) \<and>
    z_shape hf (s\<lparr>z_lookupArray := L, z_array := (z_array s)[c := a], z_rp := r, z_statSwaps := k\<rparr>)"
proof -
  define ps where "ps = take (z_swapArrayLen s) (z_swapArray s)"
  let ?n = "z_ways s * z_numSets s" and ?pos = "z_pos hf (z_numSets s)" and ?L0 = "z_lookupArray s"
  note d = z_shapeD [OF sh]
  have ne: "ps \<noteq> []" and dist: "distinct ps" and sub: "set ps \<subseteq> {..<?n}" and hd: "?L0 ! hd ps = c"
    and la: "\<exists>w < z_ways s. last ps = ?pos w a"
    and st: "\<And>k. Suc k < length ps \<Longrightarrow> \<exists>w < z_ways s. ps ! k = ?pos w (z_array s ! (?L0 ! (ps ! Suc k)))"
    using m unfolding z_moves_def Let_def ps_def [symmetric] by auto
  obtain L where L: "z_rotate ps c ?L0 = Inr L" "length L = length ?L0"
      "\<And>p. p \<notin> set ps \<Longrightarrow> L ! p = ?L0 ! p" "L ! last ps = c"
      "\<And>k. Suc k < length ps \<Longrightarrow> L ! (ps ! k) = ?L0 ! (ps ! Suc k)"
      "mset L + {#?L0 ! hd ps#} = mset ?L0 + {#c#}"
    using z_rotate_spec [of ps ?L0 c] ne dist sub d(6) by auto
  have ms: "mset L = mset ?L0" using L(6) hd by simp
  have hps: "hd ps < ?n" using sub ne by (metis hd_in_set lessThan_iff subsetD)
  have cl: "c < length (z_array s)" using z_line_less [OF sh hps] hd d(5) by simp
  have uniq: "p = hd ps" if "p < ?n" "?L0 ! p = c" for p
    by (rule z_line_inj [OF sh that(1) hps]) (use that(2) hd in simp)
  have place: "p = ?pos (p div z_numSets s) ((z_array s)[c := a] ! (L ! p))"
    if p: "p < ?n" and nz: "(z_array s)[c := a] ! (L ! p) \<noteq> 0" for p
  proof (cases "p \<in> set ps")
    case False
    then have "p \<noteq> hd ps" using ne by auto
    then have "?L0 ! p \<noteq> c" using uniq [OF p] by blast
    then show ?thesis using d(11) [OF p] L(3) [OF False] nz by simp
  next
    case True
    then obtain k where k: "k < length ps" "ps ! k = p" by (auto simp: in_set_conv_nth)
    show ?thesis
    proof (cases "Suc k < length ps")
      case last: False
      then have "p = last ps" using k ne by (metis Suc_lessI diff_Suc_1 last_conv_nth)
      then obtain w where "w < z_ways s" "p = ?pos w a" using la by blast
      then show ?thesis using z_pos_bounds(2) [OF d(3,4), of w _ hf a] L(4) cl \<open>p = last ps\<close> by simp
    next
      case True
      let ?q = "ps ! Suc k"
      have "?q \<noteq> hd ps" using True dist ne by (simp add: hd_conv_nth nth_eq_iff_index_eq)
      moreover have "?q < ?n" using True sub by (metis lessThan_iff nth_mem subsetD)
      ultimately have "?L0 ! ?q \<noteq> c" using uniq by blast
      moreover obtain w where w: "w < z_ways s" "p = ?pos w (z_array s ! (?L0 ! ?q))" using st [OF True] k by auto
      moreover have "p div z_numSets s = w" using z_pos_bounds(2) [OF d(3,4) w(1)] w(2) by simp
      moreover have "L ! p = ?L0 ! ?q" using L(5) [OF True] k by simp
      ultimately show ?thesis by simp
    qed
  qed
  have "distinct L" using ms d(7) by (metis mset_eq_imp_distinct_iff)
  moreover have "set L = {..<?n}" using ms d(8) by (metis mset_eq_setD)
  moreover have "arr_distinct ((z_array s)[c := a])" by (rule arr_distinct_update [OF d(9) a(2)])
  ultimately have "z_shape hf (s\<lparr>z_lookupArray := L, z_array := (z_array s)[c := a], z_rp := r, z_statSwaps := k\<rparr>)"
    unfolding z_shape_def Let_def using d(1-6,10) L(2) place by simp
  with L(1) cl show ?thesis unfolding ps_def by blast
qed

subsection \<open>The contract\<close>

definition z_inv ::
  "('r \<Rightarrow> bool) \<Rightarrow> ('r \<Rightarrow> nat) \<Rightarrow> ('r \<Rightarrow> nat list \<Rightarrow> bool) \<Rightarrow> (nat \<Rightarrow> u64 \<Rightarrow> u64) \<Rightarrow> 'r ZArray \<Rightarrow> bool" where
  "z_inv rdy lns cok hf s \<longleftrightarrow>
     z_shape hf s \<and> rdy (z_rp s) \<and> lns (z_rp s) = length (z_array s) \<and>
     (\<forall>cs. cs \<noteq> [] \<and> length cs \<le> z_cands s \<longrightarrow> cok (z_rp s) cs)"

definition z_pend ::
  "('r \<Rightarrow> bool) \<Rightarrow> ('r \<Rightarrow> nat) \<Rightarrow> ('r \<Rightarrow> nat list \<Rightarrow> bool) \<Rightarrow> (nat \<Rightarrow> u64 \<Rightarrow> u64) \<Rightarrow> 'r ZArray \<Rightarrow> u64 \<Rightarrow> nat \<Rightarrow> bool" where
  "z_pend rkd lns cok hf s a c \<longleftrightarrow>
     z_inv rkd lns cok hf s \<and> a \<noteq> 0 \<and> arr_holds (z_array s) a = None \<and> z_moves hf s a c"

lemma z_shape_rp: "z_shape hf (s\<lparr>z_rp := r\<rparr>) = z_shape hf s"
  by (simp add: z_shape_def)

lemma z_moves_rp: "z_moves hf (s\<lparr>z_rp := r\<rparr>) = z_moves hf s"
  by (simp add: z_moves_def fun_eq_iff)

context repl_policy begin

lemma z_lookup_ok:
  assumes s: "z_inv rdy lines cands_ok hf s" and a: "a \<noteq> 0"
    and upd: "\<And>r i. rdy r \<Longrightarrow> i < lines r \<Longrightarrow>
      \<exists>r'. rp_update rp i q r = Inr r' \<and> rdy r' \<and> lines r' = lines r \<and> cands_ok r' = cands_ok r"
  shows "\<exists>s'. z_lookup rp hf a q u s = Inr (arr_holds (z_array s) a, s') \<and> z_inv rdy lines cands_ok hf s' \<and>
    z_array s' = z_array s \<and> z_moves hf s' = z_moves hf s"
proof (cases "arr_holds (z_array s) a")
  case None
  then show ?thesis using s a by (auto simp: z_lookup_def z_inv_def z_find_holds)
next
  case (Some i)
  have sh: "z_shape hf s" using s by (simp add: z_inv_def)
  then have "i < length (z_array s)" using Some arr_holds_Some [OF z_shapeD(9) [OF sh]] by auto
  then obtain r' where "rp_update rp i q (z_rp s) = Inr r'" "rdy r'" "lines r' = lines (z_rp s)"
      "cands_ok r' = cands_ok (z_rp s)" using upd [of "z_rp s" i] s by (auto simp: z_inv_def)
  with Some s a sh show ?thesis
    by (auto simp: z_lookup_def z_inv_def z_find_holds z_shape_rp z_moves_rp)
qed

lemma z_preinsert_ok:
  assumes s: "z_inv ready lines cands_ok hf s" and a: "a \<noteq> 0" "arr_holds (z_array s) a = None"
  shows "\<exists>i s'. z_preinsert rp hf cc a q s = Inr (i, z_array s ! i, s') \<and> i < length (z_array s) \<and>
    z_pend ranked lines cands_ok hf s' a i \<and> z_array s' = z_array s"
proof -
  have sh: "z_shape hf s" using s by (simp add: z_inv_def)
  note d = z_shapeD [OF sh]
  let ?seeds = "map (z_entry hf s a None) [0..<z_ways s]"
  let ?v = "\<forall>w \<in> set [0..<z_ways s]. z_array s ! zw_lineId (z_entry hf s a None w) \<noteq> 0"
  have seeds: "z_seeds hf s a [0..<z_ways s] ([], True) = Inr (?seeds, ?v)"
    using z_seeds_eq [OF sh, of "[0..<z_ways s]" a "[]" True] by simp
  have "?v \<longrightarrow> (\<forall>c \<in> set ?seeds. z_addr s c \<noteq> 0)" by (simp add: z_addr_def)
  from z_fringe_ok [OF sh z_walk_seeds [OF sh] this, of "z_cands s"] obtain cs v fs where
    fr: "z_fringe (z_cands s) hf s 0 (?seeds, ?v) = Inr (cs, v)" "z_walk hf s a fs cs"
      "v \<longrightarrow> z_cands s \<le> length cs" by auto
  define cands where "cands = take (z_cands s) cs"
  have chain: "z_chain hf s a cands" unfolding cands_def by (rule z_chain_take [OF z_walk_chain [OF fr(2)]])
  have "z_ways s \<le> length cs" using fr(2) by (simp add: z_walk_def)
  then have ne: "cands \<noteq> []" and lc: "length cands \<le> z_cands s"
    using d(1,2) by (auto simp: cands_def)
  have lines_ok: "set (map zw_lineId cands) \<subseteq> {..<length (z_array s)}"
  proof
    fix l
    assume "l \<in> set (map zw_lineId cands)"
    then obtain i where i: "i < length cands" "l = zw_lineId (cands ! i)" by (auto simp: in_set_conv_nth)
    then have "z_cand_ok hf s a cands i" using chain by (simp add: z_chain_def)
    then show "l \<in> {..<length (z_array s)}" using i(2) z_line_less [OF sh] d(5) by (auto simp: z_cand_ok_def)
  qed
  have "ready (z_rp s)" "cands_ok (z_rp s) (map zw_lineId cands)" "set (map zw_lineId cands) \<subseteq> {..<lines (z_rp s)}"
      "map zw_lineId cands \<noteq> []"
    using s ne lc lines_ok by (auto simp: z_inv_def)
  from rank [OF this, of cc q] obtain b r' where
    r': "rp_rankCands rp cc q (map zw_lineId cands) (z_rp s) = Inr (b, r')" "b \<in> set (map zw_lineId cands)"
      "ranked r'" "lines r' = lines (z_rp s)" "cands_ok r' = cands_ok (z_rp s)" by blast
  have bl: "b < length (z_array s)" using r'(2) lines_ok by blast
  obtain i where i: "z_min_idx b cands 0 = Some i" "i < length cands" "zw_lineId (cands ! i) = b" "z_first cands i"
    using z_min_idx_spec [of b cands 0] r'(2) by auto
  obtain ip where ip: "z_is_path cands ip" "hd ip = i" "length ip \<le> i div z_ways s + 1"
    and fill: "\<And>f k sw. i < f \<Longrightarrow> k + length ip \<le> length sw \<Longrightarrow>
        \<exists>sw'. z_fill_swaps f cands (Some i) k sw = Inr (sw', k + length ip) \<and> length sw' = length sw \<and>
           take (k + length ip) sw' = take k sw @ map (\<lambda>j. zw_pos (cands ! j)) ip"
    using z_path [OF chain _ i(2,4)] d(1) by auto
  have "i div z_ways s \<le> z_cands s div z_ways s" using i(2) lc by (intro div_le_mono) simp
  then have "0 + length ip \<le> length (z_swapArray s)" using ip(3) d(10) by simp
  from fill [OF i(2) this] obtain sw where
    sw: "z_fill_swaps (length cands) cands (Some i) 0 (z_swapArray s) = Inr (sw, length ip)"
      "length sw = length (z_swapArray s)" "take (length ip) sw = map (\<lambda>j. zw_pos (cands ! j)) ip" by auto
  let ?s = "s\<lparr>z_rp := r', z_lastCandIdx := i, z_swapArray := sw, z_swapArrayLen := length ip\<rparr>"
  have run: "z_preinsert rp hf cc a q s = Inr (b, z_array s ! b, ?s)"
    using seeds fr(1,3) r'(1) i(1) sw(1) bl
    by (simp add: z_preinsert_def Let_def cands_def [symmetric])
  have "z_moves hf ?s a (zw_lineId (cands ! hd ip))"
    by (rule z_path_moves [OF sh chain ip(1)]) (use sw(3) in simp_all)
  moreover have "z_shape hf ?s" using sh sw(2) by (simp add: z_shape_def)
  ultimately have "z_pend ranked lines cands_ok hf ?s a b"
    using s a r' ip(2) i(3) by (simp add: z_pend_def z_inv_def)
  with run bl show ?thesis by (intro exI [of _ b] exI [of _ ?s]) simp
qed

lemma z_postinsert_ok:
  assumes "z_pend ranked lines cands_ok hf s a c"
  shows "\<exists>s'. z_postinsert rp a q c s = Inr s' \<and> z_inv ready lines cands_ok hf s' \<and> z_array s' = (z_array s)[c := a]"
proof -
  have s: "z_inv ranked lines cands_ok hf s" and a: "a \<noteq> 0" "arr_holds (z_array s) a = None" and m: "z_moves hf s a c"
    using assms by (auto simp: z_pend_def)
  have sh: "z_shape hf s" using s by (simp add: z_inv_def)
  note d = z_shapeD [OF sh]
  have ps: "take (z_swapArrayLen s) (z_swapArray s) \<noteq> []" "set (take (z_swapArrayLen s) (z_swapArray s)) \<subseteq> {..<z_ways s * z_numSets s}"
      "z_lookupArray s ! hd (take (z_swapArrayLen s) (z_swapArray s)) = c"
    using m by (auto simp: z_moves_def Let_def)
  have hd: "hd (take (z_swapArrayLen s) (z_swapArray s)) = z_swapArray s ! 0" and l0: "0 < length (z_swapArray s)"
    using ps(1) by (auto simp: hd_conv_nth)
  have p0: "z_swapArray s ! 0 < length (z_lookupArray s)"
    using ps(1,2) hd d(6) by (metis hd_in_set lessThan_iff subsetD)
  obtain L where L: "z_rotate (take (z_swapArrayLen s) (z_swapArray s)) c (z_lookupArray s) = Inr L"
      "c < length (z_array s)" using z_moves_shape [OF sh m a] by blast
  obtain r1 where r1: "rp_replaced rp c (z_rp s) = Inr r1" "ready r1" "lines r1 = lines (z_rp s)"
      "cands_ok r1 = cands_ok (z_rp s)" using repl [of "z_rp s" c] s L(2) by (auto simp: z_inv_def)
  then obtain r2 where r2: "rp_update rp c q r1 = Inr r2" "ready r2" "lines r2 = lines r1"
      "cands_ok r2 = cands_ok r1" using upd_ready [OF r1(2), of c q] s L(2) by (auto simp: z_inv_def)
  let ?s = "s\<lparr>z_lookupArray := L, z_array := (z_array s)[c := a], z_rp := r2,
    z_statSwaps := z_statSwaps s + (z_swapArrayLen s - 1)\<rparr>"
  have "z_postinsert rp a q c s = Inr ?s"
    using l0 p0 ps(3) hd L r1(1) r2(1) by (simp add: z_postinsert_def)
  moreover have "z_shape hf ?s" using z_moves_shape [OF sh m a] L(1) by auto
  then have "z_inv ready lines cands_ok hf ?s" using s r1 r2 by (simp add: z_inv_def)
  ultimately show ?thesis by simp
qed

end

sublocale repl_policy \<subseteq> z: cache_array "z_lookup rp hf" "z_preinsert rp hf" "z_postinsert rp" z_array
  "z_inv ready lines cands_ok hf" "z_pend ranked lines cands_ok hf" for hf
proof unfold_locales
  fix s :: "'r ZArray" and a b i q u cc
  show "arr_distinct (z_array s)" if "z_inv ready lines cands_ok hf s"
    using that z_shapeD(9) [of hf s] by (simp add: z_inv_def)
  show "\<exists>s'. z_lookup rp hf a q u s = Inr (arr_holds (z_array s) a, s') \<and>
      z_inv ready lines cands_ok hf s' \<and> z_array s' = z_array s"
    if "z_inv ready lines cands_ok hf s" "a \<noteq> 0"
    using z_lookup_ok [OF that upd_ready, of q u] by blast
  show "\<exists>s'. z_lookup rp hf a q u s = Inr (arr_holds (z_array s) a, s') \<and>
      z_pend ranked lines cands_ok hf s' b i \<and> z_array s' = z_array s"
    if "z_pend ranked lines cands_ok hf s b i" "a \<noteq> 0"
    using z_lookup_ok [of ranked hf s a q u, OF _ that(2) upd_ranked] that(1) by (auto simp: z_pend_def)
  show "\<exists>i s'. z_preinsert rp hf cc a q s = Inr (i, z_array s ! i, s') \<and> i < length (z_array s) \<and>
      z_pend ranked lines cands_ok hf s' a i \<and> z_array s' = z_array s"
    if "z_inv ready lines cands_ok hf s" "a \<noteq> 0" "arr_holds (z_array s) a = None"
    by (rule z_preinsert_ok [OF that])
  show "\<exists>s'. z_postinsert rp a q i s = Inr s' \<and> z_inv ready lines cands_ok hf s' \<and>
      z_array s' = (z_array s)[i := a]"
    if "z_pend ranked lines cands_ok hf s a i"
    by (rule z_postinsert_ok [OF that])
qed

subsection \<open>Properties\<close>

lemma ZArray_init_inv:
  assumes "ZArray_init numLines ways cands r = Inr s" "numLines < 2 ^ 32" "rdy r" "lns r = numLines"
    "\<And>cs. cs \<noteq> [] \<Longrightarrow> length cs \<le> cands \<Longrightarrow> cok r cs"
  shows "z_inv rdy lns cok hf s"
proof -
  have c: "1 < ways" "ways \<le> cands" "numLines mod ways = 0" "isPow2 (of_nat (numLines div ways) :: u32)"
    and s: "s = \<lparr>z_array = replicate numLines 0, z_lookupArray = [0..<numLines], z_rp = r,
              z_numSets = numLines div ways, z_ways = ways, z_cands = cands,
              z_swapArray = replicate (cands div ways + 2) 0, z_swapArrayLen = 0,
              z_lastCandIdx = 0, z_statSwaps = 0\<rparr>"
    using assms(1) by (auto simp: ZArray_init_def res_simps)
  have "numLines div ways \<noteq> 0" using c(4) by (cases "numLines div ways = 0") (simp_all add: isPow2_def)
  moreover have "numLines div ways < 2 ^ 32" using assms(2) div_le_dividend [of numLines ways] by linarith
  moreover have "ways * (numLines div ways) = numLines" using c(3) by auto
  ultimately have "z_shape hf s" using c by (auto simp: s z_shape_def Let_def arr_distinct_def)
  then show ?thesis using assms(3-5) by (simp add: z_inv_def s)
qed

text \<open>C3. In a zcache that evicts by LRU, inserting an absent address never fails (the walk stays inside its
  arrays, the chain fits the swap array), and afterwards a lookup of any address finds the new line at the
  returned position, no longer finds the evicted address, and finds every other line
  under the number it had, although lines have moved between positions.\<close>

theorem zcache_insert_lookup:
  assumes "z_inv (\<lambda>_. True) (\<lambda>r. length (lru_array r)) (\<lambda>_ _. True) hf s"
    and "a \<noteq> 0" and "arr_holds (z_array s) a = None"
  shows "\<exists>i wb s1 s2. z_preinsert (LRUReplPolicy sa) hf cc a q s = Inr (i, wb, s1) \<and>
    z_postinsert (LRUReplPolicy sa) a q i s1 = Inr s2 \<and>
    z_inv (\<lambda>_. True) (\<lambda>r. length (lru_array r)) (\<lambda>_ _. True) hf s2 \<and>
    (wb \<noteq> 0 \<longrightarrow> arr_holds (z_array s) wb = Some i) \<and>
    (\<forall>b r u. b \<noteq> 0 \<longrightarrow> (\<exists>s3. z_lookup (LRUReplPolicy sa) hf b r u s2 =
       Inr (if b = a then Some i else if b = wb then None else arr_holds (z_array s) b, s3)))"
  using lru_rp.z.insert_lookup [OF assms, of sa cc q] by blast

text \<open>C24. The lookup of a zcache finds an address exactly when some line holds it, although it probes only
  one position per way; address 0 ends the simulation.\<close>

theorem zcache_lookup_complete:
  assumes "z_inv (\<lambda>_. True) (\<lambda>r. length (lru_array r)) (\<lambda>_ _. True) hf s"
  shows "if a = 0 then z_lookup (LRUReplPolicy sa) hf a q u s = Inl Panicked
    else \<exists>f s'. z_lookup (LRUReplPolicy sa) hf a q u s = Inr (f, s') \<and>
      (\<forall>i. f = Some i \<longleftrightarrow> i < length (z_array s) \<and> z_array s ! i = a)"
proof (cases "a = 0")
  case True
  then show ?thesis by (simp add: z_lookup_def)
next
  case False
  then show ?thesis
    using lru_rp.z.lookup_inv [OF assms False, of sa q u] arr_holds_Some [OF lru_rp.z.inv_distinct [OF assms]] by auto
qed

lemma zcache_example:
  "\<exists>s. ZArray_init 8 2 4 (lru_init 8) = Inr s \<and>
     z_inv (\<lambda>_. True) (\<lambda>r. length (lru_array r)) (\<lambda>_ _. True) (\<lambda>w a. a) s \<and> z_array s = replicate 8 0"
proof -
  obtain s where s: "ZArray_init 8 2 4 (lru_init 8) = Inr s" "z_array s = replicate 8 0"
    by (simp add: ZArray_init_def isPow2_def)
  have "z_inv (\<lambda>_. True) (\<lambda>r. length (lru_array r)) (\<lambda>_ _. True) (\<lambda>w a. a) s"
    by (rule ZArray_init_inv [OF s(1)]) (simp_all add: lru_init_def)
  with s show ?thesis by blast
qed

lemma zcache_insert_lookup_witness:
  "\<exists>s i wb s1 s2. z_preinsert (LRUReplPolicy False) (\<lambda>w a. a) \<lparr>cc_numSharers = \<lambda>_. 0, cc_isValid = \<lambda>_. False\<rparr>
      77 (req_of 77) s = Inr (i, wb, s1) \<and> z_postinsert (LRUReplPolicy False) 77 (req_of 77) i s1 = Inr s2 \<and>
     (\<exists>s3. z_lookup (LRUReplPolicy False) (\<lambda>w a. a) 77 (req_of 77) False s2 = Inr (Some i, s3))"
proof -
  obtain s :: "lru ZArray" where s: "z_inv (\<lambda>_. True) (\<lambda>r. length (lru_array r)) (\<lambda>_ _. True) (\<lambda>w a. a) s" "z_array s = replicate 8 0"
    using zcache_example by blast
  have a: "(77 :: u64) \<noteq> 0" "arr_holds (z_array s) 77 = None" by (simp_all add: s(2) arr_holds_None)
  let ?cc = "\<lparr>cc_numSharers = \<lambda>_. 0, cc_isValid = \<lambda>_. False\<rparr>"
  obtain i wb s1 s2 where p: "z_preinsert (LRUReplPolicy False) (\<lambda>w a. a) ?cc 77 (req_of 77) s = Inr (i, wb, s1)"
      "z_postinsert (LRUReplPolicy False) 77 (req_of 77) i s1 = Inr s2"
    and l: "\<forall>b r u. b \<noteq> 0 \<longrightarrow> (\<exists>s3. z_lookup (LRUReplPolicy False) (\<lambda>w a. a) b r u s2 =
       Inr (if b = 77 then Some i else if b = wb then None else arr_holds (z_array s) b, s3))"
    using zcache_insert_lookup [OF s(1) a, of False ?cc "req_of 77"] by blast
  have "\<exists>s3. z_lookup (LRUReplPolicy False) (\<lambda>w a. a) 77 (req_of 77) False s2 = Inr (Some i, s3)"
    using l [rule_format, of 77 "req_of 77" False] by simp
  with p show ?thesis by blast
qed

lemma zcache_lookup_complete_witness:
  "\<exists>s s'. ZArray_init 8 2 4 (lru_init 8) = Inr s \<and>
     z_lookup (LRUReplPolicy False) (\<lambda>w a. a) 77 (req_of 77) True s = Inr (None, s')"
proof -
  obtain s where s: "ZArray_init 8 2 4 (lru_init 8) = Inr s" "z_array s = replicate 8 0"
      "z_inv (\<lambda>_. True) (\<lambda>r. length (lru_array r)) (\<lambda>_ _. True) (\<lambda>w a. a) s"
    using zcache_example by blast
  from zcache_lookup_complete [OF s(3), of 77 False "req_of 77" True] obtain f s' where
    f: "z_lookup (LRUReplPolicy False) (\<lambda>w a. a) 77 (req_of 77) True s = Inr (f, s')"
      "\<forall>i. f = Some i \<longleftrightarrow> i < 8 \<and> replicate 8 0 ! i = (77 :: u64)"
    by (auto simp: s(2))
  have "f = None"
  proof (rule ccontr)
    assume "f \<noteq> None"
    then obtain i where "f = Some i" by auto
    then have "i < 8" "replicate 8 0 ! i = (77 :: u64)" using f(2) by blast+
    then show False by simp
  qed
  with f(1) s(1) show ?thesis by blast
qed

end
