(* ===== verification/Coherence.thy ===== *)
theory Coherence
  imports MemTypes
begin

text \<open>
  The MESI coherence controllers (coherence_ctrls.h, coherence_ctrls.cpp).

  Requests carry pointers to line states, and a controller calls into other caches while it
  works on its own arrays, so all controllers share one state, \<open>coh\<close>: for every cache, by its
  number, the array of its bottom controller (\<open>bccArray\<close>), its profiling counters, and the
  directory of its top controller (\<open>tccArray\<close>); and the temporaries that requests of cores
  point to.  \<open>get_st\<close> and \<open>set_st\<close> follow a pointer.  Locks are not modelled: the operations
  are the ones that run between taking and releasing both locks of a controller.

  A controller's fixed parameters are a \<open>cc_cfg\<close>.  The virtual calls are parameters of the
  operations: \<open>acc p req w\<close> is \<open>parents[p]->access(req)\<close>, \<open>invl c req w\<close> is
  \<open>children[c]->invalidate(req)\<close>, whose Boolean result is the final value of \<open>*req.writeback\<close>.
\<close>

record BccProf =
  profGETSHit :: nat
  profGETSMiss :: nat
  profGETXHit :: nat
  profGETXMissIM :: nat
  profGETXMissSM :: nat
  profPUTS :: nat
  profPUTX :: nat
  profINV :: nat
  profINVX :: nat
  profFWD :: nat
  profGETNextLevelLat :: nat
  profGETNetLat :: nat

record Entry =
  numSharers :: u32
  sharers :: "bool list"
  exclusive :: bool

record coh =
  bccArray :: "nat \<Rightarrow> MESIState list"
  bccProf :: "nat \<Rightarrow> BccProf"
  tccArray :: "nat \<Rightarrow> Entry list"
  temps :: "nat \<Rightarrow> MESIState"

record cc_cfg =
  cc_id :: nat
  selfId :: nat
  parentRTTs :: "u32 list"
  childrenRTTs :: "u32 list"
  nonInclusiveHack :: bool

definition MAX_CACHE_CHILDREN :: nat where "MAX_CACHE_CHILDREN = 256"

fun get_st :: "stateRef \<Rightarrow> 'x coh_scheme \<Rightarrow> MESIState res" where
  "get_st (LineState c l) w = aget (bccArray w c) l"
| "get_st (TempState n) w = Inr (temps w n)"

fun set_st :: "stateRef \<Rightarrow> MESIState \<Rightarrow> 'x coh_scheme \<Rightarrow> 'x coh_scheme res" where
  "set_st (LineState c l) s w =
     rbind (aput (bccArray w c) l s) (\<lambda>a. Inr (w\<lparr>bccArray := (bccArray w)(c := a)\<rparr>))"
| "set_st (TempState n) s w = Inr (w\<lparr>temps := (temps w)(n := s)\<rparr>)"

definition prof :: "cc_cfg \<Rightarrow> (BccProf \<Rightarrow> BccProf) \<Rightarrow> 'x coh_scheme \<Rightarrow> 'x coh_scheme" where
  "prof cfg f w = w\<lparr>bccProf := (bccProf w)(cc_id cfg := f (bccProf w (cc_id cfg)))\<rparr>"

subsection \<open>The bottom controller\<close>

definition bcc_init :: "nat \<Rightarrow> MESIState list" where
  "bcc_init numLines = replicate numLines I"

fun parent_hash :: "nat \<Rightarrow> u64 \<Rightarrow> u32 \<Rightarrow> u32" where
  "parent_hash 0 tmp res = res"
| "parent_hash (Suc i) tmp res = parent_hash i (drop_bit 16 tmp) (res XOR ucast (0xffff AND tmp))"

definition getParentId :: "cc_cfg \<Rightarrow> u64 \<Rightarrow> nat res" where
  "getParentId cfg a =
     check (parentRTTs cfg \<noteq> []) Panicked (Inr (unat (parent_hash 4 a 0) mod length (parentRTTs cfg)))"

definition isExclusive :: "MESIState \<Rightarrow> bool" where
  "isExclusive s \<longleftrightarrow> s = E \<or> s = M"

definition bcc_processEviction ::
  "(nat \<Rightarrow> MemReq \<Rightarrow> 'x coh_scheme \<Rightarrow> (u64 \<times> 'x coh_scheme) res) \<Rightarrow> cc_cfg \<Rightarrow>
   u64 \<Rightarrow> nat \<Rightarrow> bool \<Rightarrow> u64 \<Rightarrow> u32 \<Rightarrow> 'x coh_scheme \<Rightarrow> (u64 \<times> 'x coh_scheme) res" where
  "bcc_processEviction acc cfg wbLineAddr lineId lowerLevelWriteback cyc src w =
     (let st = LineState (cc_id cfg) lineId in
      rbind (get_st st w) (\<lambda>s0.
      rbind (if lowerLevelWriteback then check (s0 = M \<or> s0 = E) AssertFailed (set_st st M w) else Inr w) (\<lambda>w1.
      rbind (get_st st w1) (\<lambda>s.
      rbind (case s of
          I \<Rightarrow> Inr (cyc, w1)
        | M \<Rightarrow> rbind (getParentId cfg wbLineAddr) (\<lambda>p.
            acc p (MemReq_init wbLineAddr PUTX (selfId cfg) st cyc (Some (cc_id cfg)) s src 0) w1)
        | _ \<Rightarrow> rbind (getParentId cfg wbLineAddr) (\<lambda>p.
            acc p (MemReq_init wbLineAddr PUTS (selfId cfg) st cyc (Some (cc_id cfg)) s src 0) w1)) (\<lambda>(resp, w2).
      rbind (get_st st w2) (\<lambda>s'. check (s' = I) AssertFailed (Inr (resp, w2))))))))"

text \<open>The miss path shared by GETS and GETX: the request, and the latency it adds.\<close>

definition bcc_fetch ::
  "(nat \<Rightarrow> MemReq \<Rightarrow> 'x coh_scheme \<Rightarrow> (u64 \<times> 'x coh_scheme) res) \<Rightarrow> cc_cfg \<Rightarrow>
   u64 \<Rightarrow> nat \<Rightarrow> AccessType \<Rightarrow> MESIState \<Rightarrow> u64 \<Rightarrow> u32 \<Rightarrow> u32 \<Rightarrow> 'x coh_scheme \<Rightarrow> (u64 \<times> 'x coh_scheme) res" where
  "bcc_fetch acc cfg a lineId ty s cyc src fl w =
     rbind (getParentId cfg a) (\<lambda>p.
     rbind (acc p (MemReq_init a ty (selfId cfg) (LineState (cc_id cfg) lineId) cyc (Some (cc_id cfg)) s src fl) w)
       (\<lambda>(resp, w1).
     rbind (aget (parentRTTs cfg) p) (\<lambda>netLat.
       let nextLevelLat = ucast (resp - cyc) :: u32 in
       Inr (cyc + ucast (nextLevelLat + netLat),
            prof cfg (\<lambda>q. q\<lparr>profGETNextLevelLat := profGETNextLevelLat q + unat nextLevelLat,
                             profGETNetLat := profGETNetLat q + unat netLat\<rparr>) w1))))"

definition bcc_processAccess ::
  "(nat \<Rightarrow> MemReq \<Rightarrow> 'x coh_scheme \<Rightarrow> (u64 \<times> 'x coh_scheme) res) \<Rightarrow> cc_cfg \<Rightarrow>
   u64 \<Rightarrow> nat \<Rightarrow> AccessType \<Rightarrow> u64 \<Rightarrow> u32 \<Rightarrow> u32 \<Rightarrow> 'x coh_scheme \<Rightarrow> (u64 \<times> 'x coh_scheme) res" where
  "bcc_processAccess acc cfg a lineId ty cyc src fl w =
     (let st = LineState (cc_id cfg) lineId in
      rbind (get_st st w) (\<lambda>s.
      rbind (case ty of
          PUTS \<Rightarrow> check (s \<noteq> I) AssertFailed
            (Inr (cyc, prof cfg (\<lambda>q. q\<lparr>profPUTS := profPUTS q + 1\<rparr>) w))
        | PUTX \<Rightarrow> check (s = M \<or> s = E) AssertFailed
            (rbind (if s = E then set_st st M w else Inr w) (\<lambda>w1.
              Inr (cyc, prof cfg (\<lambda>q. q\<lparr>profPUTX := profPUTX q + 1\<rparr>) w1)))
        | GETS \<Rightarrow>
            if s = I
            then rbind (bcc_fetch acc cfg a lineId GETS s cyc src fl w) (\<lambda>(resp, w1).
                 rbind (get_st st w1) (\<lambda>s'.
                   check (s' = S \<or> s' = E) AssertFailed
                    (Inr (resp, prof cfg (\<lambda>q. q\<lparr>profGETSMiss := profGETSMiss q + 1\<rparr>) w1))))
            else Inr (cyc, prof cfg (\<lambda>q. q\<lparr>profGETSHit := profGETSHit q + 1\<rparr>) w)
        | GETX \<Rightarrow>
            rbind (if s = I \<or> s = S
                   then bcc_fetch acc cfg a lineId GETX s cyc src fl
                     (prof cfg (\<lambda>q. if s = I then q\<lparr>profGETXMissIM := profGETXMissIM q + 1\<rparr>
                                    else q\<lparr>profGETXMissSM := profGETXMissSM q + 1\<rparr>) w)
                   else rbind (if s = E then set_st st M w else Inr w) (\<lambda>w1.
                     Inr (cyc, prof cfg (\<lambda>q. q\<lparr>profGETXHit := profGETXHit q + 1\<rparr>) w1))) (\<lambda>(resp, w1).
            rbind (get_st st w1) (\<lambda>s'. check (s' = M) AssertFailed (Inr (resp, w1))))) (\<lambda>(resp, w1).
      check (cyc \<le> resp) AssertFailed (Inr (resp, w1)))))"

definition bcc_processWritebackOnAccess :: "cc_cfg \<Rightarrow> nat \<Rightarrow> 'x coh_scheme \<Rightarrow> 'x coh_scheme res" where
  "bcc_processWritebackOnAccess cfg lineId w =
     (let st = LineState (cc_id cfg) lineId in
      rbind (get_st st w) (\<lambda>s. check (s = M \<or> s = E) AssertFailed
        (if s = E then set_st st M w else Inr w)))"

text \<open>The Boolean is \<open>*reqWriteback\<close>.\<close>

definition bcc_processInval :: "cc_cfg \<Rightarrow> nat \<Rightarrow> InvType \<Rightarrow> bool \<Rightarrow> 'x coh_scheme \<Rightarrow> (bool \<times> 'x coh_scheme) res" where
  "bcc_processInval cfg lineId ty wb w =
     (let st = LineState (cc_id cfg) lineId in
      rbind (get_st st w) (\<lambda>s. check (s \<noteq> I) AssertFailed
       (case ty of
          INVX \<Rightarrow> check (s = E \<or> s = M) AssertFailed
            (rbind (set_st st S w) (\<lambda>w1. Inr (wb \<or> s = M, prof cfg (\<lambda>q. q\<lparr>profINVX := profINVX q + 1\<rparr>) w1)))
        | INV \<Rightarrow> rbind (set_st st I w) (\<lambda>w1.
            Inr (wb \<or> s = M, prof cfg (\<lambda>q. q\<lparr>profINV := profINV q + 1\<rparr>) w1))
        | FWD \<Rightarrow> check (s = S) AssertFailed
            (Inr (wb, prof cfg (\<lambda>q. q\<lparr>profFWD := profFWD q + 1\<rparr>) w)))))"

definition bcc_processNonInclusiveWriteback ::
  "(nat \<Rightarrow> MemReq \<Rightarrow> 'x coh_scheme \<Rightarrow> (u64 \<times> 'x coh_scheme) res) \<Rightarrow> cc_cfg \<Rightarrow>
   u64 \<Rightarrow> AccessType \<Rightarrow> u64 \<Rightarrow> stateRef \<Rightarrow> u32 \<Rightarrow> u32 \<Rightarrow> 'x coh_scheme \<Rightarrow> (u64 \<times> 'x coh_scheme) res" where
  "bcc_processNonInclusiveWriteback acc cfg a ty cyc st src fl w =
     check (nonInclusiveHack cfg) Panicked
      (rbind (get_st st w) (\<lambda>s. rbind (getParentId cfg a) (\<lambda>p.
        acc p (MemReq_init a ty (selfId cfg) st cyc (Some (cc_id cfg)) s src (fl OR NONINCLWB)) w)))"

definition bcc_isValid :: "cc_cfg \<Rightarrow> nat \<Rightarrow> 'x coh_scheme \<Rightarrow> bool res" where
  "bcc_isValid cfg lineId w = rbind (get_st (LineState (cc_id cfg) lineId) w) (\<lambda>s. Inr (s \<noteq> I))"

subsection \<open>The top controller\<close>

definition Entry_clear :: "Entry \<Rightarrow> Entry" where
  "Entry_clear e = \<lparr>numSharers = 0, sharers = replicate MAX_CACHE_CHILDREN False, exclusive = False\<rparr>"

definition Entry_isEmpty :: "Entry \<Rightarrow> bool" where
  "Entry_isEmpty e \<longleftrightarrow> numSharers e = 0"

definition Entry_isExclusive :: "Entry \<Rightarrow> bool" where
  "Entry_isExclusive e \<longleftrightarrow> numSharers e = 1 \<and> exclusive e"

definition tcc_init :: "nat \<Rightarrow> Entry list" where
  "tcc_init numLines = replicate numLines \<lparr>numSharers = 0, sharers = replicate MAX_CACHE_CHILDREN False, exclusive = False\<rparr>"

definition get_entry :: "cc_cfg \<Rightarrow> nat \<Rightarrow> 'x coh_scheme \<Rightarrow> Entry res" where
  "get_entry cfg lineId w = aget (tccArray w (cc_id cfg)) lineId"

definition set_entry :: "cc_cfg \<Rightarrow> nat \<Rightarrow> Entry \<Rightarrow> 'x coh_scheme \<Rightarrow> 'x coh_scheme res" where
  "set_entry cfg lineId e w =
     rbind (aput (tccArray w (cc_id cfg)) lineId e) (\<lambda>t. Inr (w\<lparr>tccArray := (tccArray w)(cc_id cfg := t)\<rparr>))"

text \<open>The loop over the children: world, maximum cycle, writeback flag, invalidations sent.\<close>

fun tcc_inv_loop ::
  "(nat \<Rightarrow> InvReq \<Rightarrow> 'x coh_scheme \<Rightarrow> (u64 \<times> bool \<times> 'x coh_scheme) res) \<Rightarrow> cc_cfg \<Rightarrow>
   u64 \<Rightarrow> nat \<Rightarrow> InvType \<Rightarrow> u64 \<Rightarrow> u32 \<Rightarrow> nat list \<Rightarrow> 'x coh_scheme \<times> u64 \<times> bool \<times> u32 \<Rightarrow>
   ('x coh_scheme \<times> u64 \<times> bool \<times> u32) res" where
  "tcc_inv_loop invl cfg a lineId ty cyc src [] st = Inr st"
| "tcc_inv_loop invl cfg a lineId ty cyc src (c # cs) (w, mx, wb, sent) =
     rbind (get_entry cfg lineId w) (\<lambda>e.
     rbind (aget (sharers e) c) (\<lambda>b.
      if b
      then rbind (invl c \<lparr>inv_lineAddr = a, inv_type = ty, inv_writeback = wb, inv_cycle = cyc, inv_srcId = src\<rparr> w)
             (\<lambda>(resp, wb', w1).
           rbind (aget (childrenRTTs cfg) c) (\<lambda>rtt.
           rbind (get_entry cfg lineId w1) (\<lambda>e1.
           rbind (if ty = INV then set_entry cfg lineId (e1\<lparr>sharers := (sharers e1)[c := False]\<rparr>) w1 else Inr w1) (\<lambda>w2.
             tcc_inv_loop invl cfg a lineId ty cyc src cs (w2, max (resp + ucast rtt) mx, wb', sent + 1)))))
      else tcc_inv_loop invl cfg a lineId ty cyc src cs (w, mx, wb, sent)))"

definition tcc_sendInvalidates ::
  "(nat \<Rightarrow> InvReq \<Rightarrow> 'x coh_scheme \<Rightarrow> (u64 \<times> bool \<times> 'x coh_scheme) res) \<Rightarrow> cc_cfg \<Rightarrow>
   u64 \<Rightarrow> nat \<Rightarrow> InvType \<Rightarrow> bool \<Rightarrow> u64 \<Rightarrow> u32 \<Rightarrow> 'x coh_scheme \<Rightarrow> (u64 \<times> bool \<times> 'x coh_scheme) res" where
  "tcc_sendInvalidates invl cfg a lineId ty wb cyc src w =
     rbind (get_entry cfg lineId w) (\<lambda>e.
      if ty = INVX \<and> \<not> Entry_isExclusive e then Inr (cyc, wb, w)
      else if Entry_isEmpty e then Inr (cyc, wb, w)
      else rbind (tcc_inv_loop invl cfg a lineId ty cyc src [0..<length (childrenRTTs cfg)] (w, cyc, wb, 0))
             (\<lambda>(w1, mx, wb', sent).
           rbind (get_entry cfg lineId w1) (\<lambda>e1.
           check (sent = numSharers e1) AssertFailed
            (rbind (if ty = INV then set_entry cfg lineId (e1\<lparr>numSharers := 0\<rparr>) w1
                    else check (exclusive e1) AssertFailed (check (numSharers e1 = 1) AssertFailed
                      (set_entry cfg lineId (e1\<lparr>exclusive := False\<rparr>) w1))) (\<lambda>w2.
             Inr (mx, wb', w2))))))"

definition tcc_processEviction ::
  "(nat \<Rightarrow> InvReq \<Rightarrow> 'x coh_scheme \<Rightarrow> (u64 \<times> bool \<times> 'x coh_scheme) res) \<Rightarrow> cc_cfg \<Rightarrow>
   u64 \<Rightarrow> nat \<Rightarrow> bool \<Rightarrow> u64 \<Rightarrow> u32 \<Rightarrow> 'x coh_scheme \<Rightarrow> (u64 \<times> bool \<times> 'x coh_scheme) res" where
  "tcc_processEviction invl cfg a lineId wb cyc src w =
     (if nonInclusiveHack cfg
      then rbind (get_entry cfg lineId w) (\<lambda>e. rbind (set_entry cfg lineId (Entry_clear e) w) (\<lambda>w1. Inr (cyc, wb, w1)))
      else tcc_sendInvalidates invl cfg a lineId INV wb cyc src w)"

text \<open>The case of a put: the child leaves the sharers.\<close>

definition tcc_remove_sharer :: "cc_cfg \<Rightarrow> nat \<Rightarrow> nat \<Rightarrow> stateRef \<Rightarrow> 'x coh_scheme \<Rightarrow> 'x coh_scheme res" where
  "tcc_remove_sharer cfg lineId child st w =
     rbind (get_entry cfg lineId w) (\<lambda>e.
     rbind (aget (sharers e) child) (\<lambda>b. check b AssertFailed
      (rbind (set_entry cfg lineId (e\<lparr>sharers := (sharers e)[child := False], numSharers := numSharers e - 1\<rparr>) w)
        (set_st st I))))"

definition tcc_processAccess ::
  "(nat \<Rightarrow> InvReq \<Rightarrow> 'x coh_scheme \<Rightarrow> (u64 \<times> bool \<times> 'x coh_scheme) res) \<Rightarrow> cc_cfg \<Rightarrow>
   u64 \<Rightarrow> nat \<Rightarrow> AccessType \<Rightarrow> nat \<Rightarrow> bool \<Rightarrow> stateRef \<Rightarrow> bool \<Rightarrow> u64 \<Rightarrow> u32 \<Rightarrow> u32 \<Rightarrow> 'x coh_scheme \<Rightarrow>
   (u64 \<times> bool \<times> 'x coh_scheme) res" where
  "tcc_processAccess invl cfg a lineId ty child haveExclusive st wb cyc src fl w =
     rbind (get_entry cfg lineId w) (\<lambda>e.
      case ty of
        PUTX \<Rightarrow> check (Entry_isExclusive e) AssertFailed
          (if fl AND PUTX_KEEPEXCL \<noteq> 0
           then rbind (aget (sharers e) child) (\<lambda>b. check b AssertFailed
                 (rbind (get_st st w) (\<lambda>s. check (s = M) AssertFailed
                   (rbind (set_st st E w) (\<lambda>w1. Inr (cyc, wb, w1))))))
           else rbind (tcc_remove_sharer cfg lineId child st w) (\<lambda>w1. Inr (cyc, wb, w1)))
      | PUTS \<Rightarrow> rbind (tcc_remove_sharer cfg lineId child st w) (\<lambda>w1. Inr (cyc, wb, w1))
      | GETS \<Rightarrow>
          if Entry_isEmpty e \<and> haveExclusive \<and> fl AND NOEXCL = 0
          then rbind (aput (sharers e) child True) (\<lambda>sh.
               rbind (set_entry cfg lineId (e\<lparr>exclusive := True, sharers := sh, numSharers := 1\<rparr>) w) (\<lambda>w1.
               rbind (set_st st E w1) (\<lambda>w2. Inr (cyc, wb, w2))))
          else rbind (aget (sharers e) child) (\<lambda>b. check (\<not> b) AssertFailed
               (rbind (if Entry_isExclusive e then tcc_sendInvalidates invl cfg a lineId INVX wb cyc src w
                       else Inr (cyc, wb, w)) (\<lambda>(resp, wb', w1).
                rbind (get_entry cfg lineId w1) (\<lambda>e1. check (\<not> Entry_isExclusive e1) AssertFailed
                 (rbind (aput (sharers e1) child True) (\<lambda>sh.
                  rbind (set_entry cfg lineId (e1\<lparr>sharers := sh, numSharers := numSharers e1 + 1, exclusive := False\<rparr>) w1) (\<lambda>w2.
                  rbind (set_st st S w2) (\<lambda>w3. Inr (resp, wb', w3)))))))))
      | GETX \<Rightarrow> check haveExclusive AssertFailed
          (rbind (aget (sharers e) child) (\<lambda>b.
           rbind (if b then check (\<not> Entry_isExclusive e) AssertFailed
                        (set_entry cfg lineId (e\<lparr>sharers := (sharers e)[child := False], numSharers := numSharers e - 1\<rparr>) w)
                  else Inr w) (\<lambda>w1.
           rbind (tcc_sendInvalidates invl cfg a lineId INV wb cyc src w1) (\<lambda>(resp, wb', w2).
           rbind (get_entry cfg lineId w2) (\<lambda>e2.
           rbind (aput (sharers e2) child True) (\<lambda>sh.
           rbind (set_entry cfg lineId (e2\<lparr>sharers := sh, numSharers := numSharers e2 + 1, exclusive := True\<rparr>) w2) (\<lambda>w3.
           check (numSharers e2 + 1 = 1) AssertFailed
            (rbind (set_st st M w3) (\<lambda>w4. Inr (resp, wb', w4)))))))))))"

definition tcc_processInval ::
  "(nat \<Rightarrow> InvReq \<Rightarrow> 'x coh_scheme \<Rightarrow> (u64 \<times> bool \<times> 'x coh_scheme) res) \<Rightarrow> cc_cfg \<Rightarrow>
   u64 \<Rightarrow> nat \<Rightarrow> InvType \<Rightarrow> bool \<Rightarrow> u64 \<Rightarrow> u32 \<Rightarrow> 'x coh_scheme \<Rightarrow> (u64 \<times> bool \<times> 'x coh_scheme) res" where
  "tcc_processInval invl cfg a lineId ty wb cyc src w =
     (if ty = FWD then check (\<not> nonInclusiveHack cfg) AssertFailed (Inr (cyc, wb, w))
      else tcc_sendInvalidates invl cfg a lineId ty wb cyc src w)"

definition tcc_numSharers :: "cc_cfg \<Rightarrow> nat \<Rightarrow> 'x coh_scheme \<Rightarrow> u32 res" where
  "tcc_numSharers cfg lineId w = rbind (get_entry cfg lineId w) (\<lambda>e. Inr (numSharers e))"

subsection \<open>Races and the combined controllers\<close>

text \<open>\<open>CheckForMESIRace\<close>: whether to skip the access, and the type it may have changed.\<close>

definition CheckForMESIRace :: "AccessType \<Rightarrow> MESIState \<Rightarrow> MESIState \<Rightarrow> (bool \<times> AccessType) res" where
  "CheckForMESIRace ty s initial =
     (if s = initial then Inr (False, ty)
      else if ty = PUTS \<or> ty = PUTX
      then if s = I then Inr (True, ty)
           else check (s = S) AssertFailed (Inr (False, PUTS))
      else if ty = GETX
      then check (initial = S) AssertFailed (check (s = I) AssertFailed (Inr (False, ty)))
      else Inl Panicked)"

definition startAccess :: "MemReq \<Rightarrow> 'x coh_scheme \<Rightarrow> (bool \<times> MemReq) res" where
  "startAccess req w =
     rbind (get_st (state req) w) (\<lambda>s.
     rbind (CheckForMESIRace (acctype req) s (initialState req)) (\<lambda>(skip, ty). Inr (skip, req\<lparr>acctype := ty\<rparr>)))"

definition term_startAccess :: "MemReq \<Rightarrow> 'x coh_scheme \<Rightarrow> (bool \<times> MemReq) res" where
  "term_startAccess req w = check (IsGet (acctype req)) AssertFailed (startAccess req w)"

definition cc_shouldAllocate :: "cc_cfg \<Rightarrow> MemReq \<Rightarrow> bool res" where
  "cc_shouldAllocate cfg req =
     (if IsGet (acctype req) then Inr True else check (nonInclusiveHack cfg) Panicked (Inr False))"

definition cc_processEviction ::
  "(nat \<Rightarrow> MemReq \<Rightarrow> 'x coh_scheme \<Rightarrow> (u64 \<times> 'x coh_scheme) res) \<Rightarrow>
   (nat \<Rightarrow> InvReq \<Rightarrow> 'x coh_scheme \<Rightarrow> (u64 \<times> bool \<times> 'x coh_scheme) res) \<Rightarrow> cc_cfg \<Rightarrow>
   MemReq \<Rightarrow> u64 \<Rightarrow> nat \<Rightarrow> u64 \<Rightarrow> 'x coh_scheme \<Rightarrow> (u64 \<times> 'x coh_scheme) res" where
  "cc_processEviction acc invl cfg req wbLineAddr lineId cyc w =
     rbind (tcc_processEviction invl cfg wbLineAddr lineId False cyc (srcId req) w) (\<lambda>(ev, wb, w1).
       bcc_processEviction acc cfg wbLineAddr lineId wb ev (srcId req) w1)"

text \<open>The third component of the result is \<open>getDoneCycle\<close>, when the access sets it.\<close>

definition cc_processAccess ::
  "(nat \<Rightarrow> MemReq \<Rightarrow> 'x coh_scheme \<Rightarrow> (u64 \<times> 'x coh_scheme) res) \<Rightarrow>
   (nat \<Rightarrow> InvReq \<Rightarrow> 'x coh_scheme \<Rightarrow> (u64 \<times> bool \<times> 'x coh_scheme) res) \<Rightarrow> cc_cfg \<Rightarrow>
   MemReq \<Rightarrow> nat option \<Rightarrow> u64 \<Rightarrow> 'x coh_scheme \<Rightarrow> (u64 \<times> u64 option \<times> 'x coh_scheme) res" where
  "cc_processAccess acc invl cfg req line cyc w =
     rbind (case line of None \<Rightarrow> Inr True
            | Some l \<Rightarrow> if IsPut (acctype req) then rbind (bcc_isValid cfg l w) (\<lambda>v. Inr (\<not> v)) else Inr False) (\<lambda>bypass.
      case line of
        Some l \<Rightarrow>
          if bypass
          then check (nonInclusiveHack cfg) AssertFailed (check (IsPut (acctype req)) AssertFailed
                (rbind (bcc_processNonInclusiveWriteback acc cfg (MemReq.lineAddr req) (acctype req) cyc (state req) (srcId req) (flags req) w)
                  (\<lambda>(resp, w1). Inr (resp, None, w1))))
          else
            (let isPrefetch = is_flag PREFETCH req; fl = flags req AND NOT PREFETCH in
             check (\<not> isPrefetch \<or> acctype req = GETS) AssertFailed
              (rbind (bcc_processAccess acc cfg (MemReq.lineAddr req) l (acctype req) cyc (srcId req) fl w) (\<lambda>(resp, w1).
               if isPrefetch then Inr (resp, Some resp, w1)
               else rbind (get_st (LineState (cc_id cfg) l) w1) (\<lambda>s.
                    rbind (tcc_processAccess invl cfg (MemReq.lineAddr req) l (acctype req) (childId req) (isExclusive s)
                             (state req) False resp (srcId req) fl w1) (\<lambda>(resp2, wb, w2).
                    rbind (if wb then bcc_processWritebackOnAccess cfg l w2 else Inr w2) (\<lambda>w3.
                      Inr (resp2, Some resp, w3)))))))
      | None \<Rightarrow>
          check (nonInclusiveHack cfg) AssertFailed (check (IsPut (acctype req)) AssertFailed
            (rbind (bcc_processNonInclusiveWriteback acc cfg (MemReq.lineAddr req) (acctype req) cyc (state req) (srcId req) (flags req) w)
              (\<lambda>(resp, w1). Inr (resp, None, w1)))))"

definition cc_processInv ::
  "(nat \<Rightarrow> InvReq \<Rightarrow> 'x coh_scheme \<Rightarrow> (u64 \<times> bool \<times> 'x coh_scheme) res) \<Rightarrow> cc_cfg \<Rightarrow>
   InvReq \<Rightarrow> nat \<Rightarrow> u64 \<Rightarrow> 'x coh_scheme \<Rightarrow> (u64 \<times> bool \<times> 'x coh_scheme) res" where
  "cc_processInv invl cfg req lineId cyc w =
     rbind (tcc_processInval invl cfg (inv_lineAddr req) lineId (inv_type req) (inv_writeback req) cyc (inv_srcId req) w)
       (\<lambda>(resp, wb, w1).
     rbind (bcc_processInval cfg lineId (inv_type req) wb w1) (\<lambda>(wb', w2). Inr (resp, wb', w2)))"

text \<open>The terminal controller: a bottom controller alone.\<close>

definition term_processEviction ::
  "(nat \<Rightarrow> MemReq \<Rightarrow> 'x coh_scheme \<Rightarrow> (u64 \<times> 'x coh_scheme) res) \<Rightarrow> cc_cfg \<Rightarrow>
   MemReq \<Rightarrow> u64 \<Rightarrow> nat \<Rightarrow> u64 \<Rightarrow> 'x coh_scheme \<Rightarrow> (u64 \<times> 'x coh_scheme) res" where
  "term_processEviction acc cfg req wbLineAddr lineId cyc w =
     bcc_processEviction acc cfg wbLineAddr lineId False cyc (srcId req) w"

definition term_processAccess ::
  "(nat \<Rightarrow> MemReq \<Rightarrow> 'x coh_scheme \<Rightarrow> (u64 \<times> 'x coh_scheme) res) \<Rightarrow> cc_cfg \<Rightarrow>
   MemReq \<Rightarrow> nat option \<Rightarrow> u64 \<Rightarrow> 'x coh_scheme \<Rightarrow> (u64 \<times> 'x coh_scheme) res" where
  "term_processAccess acc cfg req line cyc w =
     (case line of None \<Rightarrow> Inl AssertFailed
      | Some l \<Rightarrow> bcc_processAccess acc cfg (MemReq.lineAddr req) l (acctype req) cyc (srcId req) (flags req) w)"

definition term_processInv ::
  "cc_cfg \<Rightarrow> InvReq \<Rightarrow> nat \<Rightarrow> u64 \<Rightarrow> 'x coh_scheme \<Rightarrow> (u64 \<times> bool \<times> 'x coh_scheme) res" where
  "term_processInv cfg req lineId cyc w =
     rbind (bcc_processInval cfg lineId (inv_type req) (inv_writeback req) w) (\<lambda>(wb, w1). Inr (cyc, wb, w1))"

subsection \<open>Pointers to line states\<close>

lemma get_set_same: "set_st r s w = Inr w' \<Longrightarrow> get_st r w' = Inr s"
  by (cases r) (auto simp: res_simps)

lemma set_st_ok: "get_st r w = Inr s0 \<Longrightarrow> \<exists>w'. set_st r s w = Inr w' \<and> get_st r w' = Inr s"
  by (cases r) (auto simp: res_simps)

lemma set_st_self: "get_st r w = Inr s \<Longrightarrow> set_st r s w = Inr w"
  by (cases r) (auto simp: res_simps fun_upd_idem)

lemma get_st_prof [simp]: "get_st r (prof cfg f w) = get_st r w"
  by (cases r) (simp_all add: prof_def)

lemma tccArray_prof [simp]: "tccArray (prof cfg f w) = tccArray w"
  by (simp add: prof_def)

lemma bccArray_prof [simp]: "bccArray (prof cfg f w) = bccArray w"
  by (simp add: prof_def)

lemma set_st_tcc: "set_st r s w = Inr w' \<Longrightarrow> tccArray w' = tccArray w"
  by (cases r) (auto simp: res_simps)

lemma bcc_isValid_get: "bcc_isValid cfg l w = Inr v \<longleftrightarrow> (\<exists>s. get_st (LineState (cc_id cfg) l) w = Inr s \<and> v = (s \<noteq> I))"
  by (auto simp: bcc_isValid_def res_simps)

lemma getParentId_ok: "parentRTTs cfg \<noteq> [] \<Longrightarrow> \<exists>p. getParentId cfg a = Inr p \<and> p < length (parentRTTs cfg)"
  by (simp add: getParentId_def)

text \<open>A sum of a cycle and a 32-bit latency that does not wrap around.\<close>

lemma add_lat_ge:
  assumes "unat (c :: u64) + 2 ^ 32 \<le> 2 ^ 64"
  shows "c \<le> c + ucast (l :: u32)" and "unat (c + ucast l) = unat c + unat l"
proof -
  have l: "unat l < 2 ^ 32" using unat_lt_32 [of l] by simp
  then have "unat c + unat (ucast l :: u64) < 2 ^ LENGTH(64)" using assms by simp
  then show 1: "unat (c + ucast l) = unat c + unat l" by (simp add: unat_word_ariths)
  then show "c \<le> c + ucast l" by (simp add: word_le_nat_alt)
qed

lemma add_lat_gt:
  assumes "unat (c :: u64) + 2 ^ 32 \<le> 2 ^ 64" "0 < l"
  shows "c < c + ucast (l :: u32)"
  using add_lat_ge(2) [OF assms(1), of l] assms(2) by (simp add: word_less_nat_alt word_gt_0_no)

subsection \<open>What a parent promises\<close>

text \<open>
  \<open>mem_parent\<close> is the contract of \<open>parents[p]->access(req)\<close>: a get on a line the requester does
  not have (or has only shared, for GETX) ends with the pointed state granting the permission, a
  put ends with it invalid, and the response is not earlier than the request.  \<open>pre p q w\<close> is
  what the parent asks for; it does not depend on the profiling counters or on a silent
  E to M transition.
\<close>

definition req_legal :: "AccessType \<Rightarrow> MESIState \<Rightarrow> bool" where
  "req_legal ty s \<longleftrightarrow> (case ty of GETS \<Rightarrow> s = I | GETX \<Rightarrow> s = I \<or> s = S
      | PUTS \<Rightarrow> s = S \<or> s = E | PUTX \<Rightarrow> s = M)"

definition grants :: "AccessType \<Rightarrow> MESIState \<Rightarrow> bool" where
  "grants ty s \<longleftrightarrow> (case ty of GETS \<Rightarrow> s = S \<or> s = E | GETX \<Rightarrow> s = M | PUTS \<Rightarrow> s = I | PUTX \<Rightarrow> s = I)"

locale mem_parent =
  fixes acc :: "nat \<Rightarrow> MemReq \<Rightarrow> 'x coh_scheme \<Rightarrow> (u64 \<times> 'x coh_scheme) res"
    and pre :: "nat \<Rightarrow> u64 \<Rightarrow> stateRef \<Rightarrow> u64 \<Rightarrow> 'x coh_scheme \<Rightarrow> bool"
  assumes acc_ok: "pre p (MemReq.lineAddr q) (state q) (cycle q) w \<Longrightarrow> get_st (state q) w = Inr (initialState q) \<Longrightarrow>
      req_legal (acctype q) (initialState q) \<Longrightarrow>
      \<exists>r w' s. acc p q w = Inr (r, w') \<and> cycle q \<le> r \<and> get_st (state q) w' = Inr s \<and> grants (acctype q) s"
    and pre_prof: "pre p a r c (prof cfg f w) = pre p a r c w"
    and pre_silent: "pre p a r c w \<Longrightarrow> get_st r' w = Inr E \<Longrightarrow> set_st r' M w = Inr w' \<Longrightarrow> pre p a r c w'"
begin

lemma bcc_fetch_ok:
  assumes par: "parentRTTs cfg \<noteq> []" and pre: "\<And>p. p < length (parentRTTs cfg) \<Longrightarrow> pre p a (LineState (cc_id cfg) l) cyc w"
    and s: "get_st (LineState (cc_id cfg) l) w = Inr s" "req_legal ty s"
    and cyc: "unat cyc + 2 ^ 32 \<le> 2 ^ 64"
  shows "\<exists>r w' s'. bcc_fetch acc cfg a l ty s cyc src fl w = Inr (r, w') \<and> cyc \<le> r \<and>
    get_st (LineState (cc_id cfg) l) w' = Inr s' \<and> grants ty s'"
proof -
  obtain p where p: "getParentId cfg a = Inr p" "p < length (parentRTTs cfg)"
    using getParentId_ok [OF par] by blast
  let ?q = "MemReq_init a ty (selfId cfg) (LineState (cc_id cfg) l) cyc (Some (cc_id cfg)) s src fl"
  obtain r w' s' where acc: "acc p ?q w = Inr (r, w')" "get_st (LineState (cc_id cfg) l) w' = Inr s'" "grants ty s'"
    using acc_ok [of p ?q w] pre [OF p(2)] s by auto
  show ?thesis using acc p add_lat_ge(1) [OF cyc] by (simp add: bcc_fetch_def Let_def del: get_st.simps)
qed

lemma bcc_access_ok:
  assumes par: "parentRTTs cfg \<noteq> []" and pre: "\<And>p. p < length (parentRTTs cfg) \<Longrightarrow> pre p a (LineState (cc_id cfg) l) cyc w"
    and s: "get_st (LineState (cc_id cfg) l) w = Inr s"
    and put: "ty = PUTS \<Longrightarrow> s \<noteq> I" "ty = PUTX \<Longrightarrow> s = E \<or> s = M"
    and cyc: "unat cyc + 2 ^ 32 \<le> 2 ^ 64"
  shows "\<exists>r w' s'. bcc_processAccess acc cfg a l ty cyc src fl w = Inr (r, w') \<and> cyc \<le> r \<and>
    get_st (LineState (cc_id cfg) l) w' = Inr s' \<and>
    (case ty of GETS \<Rightarrow> if s = I then s' = S \<or> s' = E else s' = s | GETX \<Rightarrow> s' = M | PUTS \<Rightarrow> s' = s | PUTX \<Rightarrow> s' = M)"
proof (cases ty)
  case GETS
  show ?thesis
  proof (cases "s = I")
    case True
    then obtain r w' s' where "bcc_fetch acc cfg a l GETS s cyc src fl w = Inr (r, w')" "cyc \<le> r"
        "get_st (LineState (cc_id cfg) l) w' = Inr s'" "grants GETS s'"
      using bcc_fetch_ok [OF par pre s(1) _ cyc, of GETS src fl] by (auto simp: req_legal_def)
    with True s GETS show ?thesis
      by (auto simp: bcc_processAccess_def Let_def grants_def simp del: get_st.simps)
  qed (use s GETS in \<open>simp add: bcc_processAccess_def Let_def del: get_st.simps\<close>)
next
  case GETX
  show ?thesis
  proof (cases "s = I \<or> s = S")
    case True
    let ?w = "prof cfg (\<lambda>q. if s = I then q\<lparr>profGETXMissIM := profGETXMissIM q + 1\<rparr>
                                    else q\<lparr>profGETXMissSM := profGETXMissSM q + 1\<rparr>) w"
    have "pre p a (LineState (cc_id cfg) l) cyc ?w" if "p < length (parentRTTs cfg)" for p
      unfolding pre_prof by (rule pre [OF that])
    moreover have "get_st (LineState (cc_id cfg) l) ?w = Inr s" using s by (simp del: get_st.simps)
    ultimately obtain r w' s' where "bcc_fetch acc cfg a l GETX s cyc src fl ?w = Inr (r, w')" "cyc \<le> r"
        "get_st (LineState (cc_id cfg) l) w' = Inr s'" "grants GETX s'"
      using bcc_fetch_ok [OF par _ _ _ cyc, of a l ?w s GETX src fl] True by (auto simp: req_legal_def)
    with True s GETX show ?thesis
      by (simp add: bcc_processAccess_def Let_def grants_def del: get_st.simps)
  next
    case False
    then have "s = E \<or> s = M" by (cases s) auto
    moreover obtain w1 where "set_st (LineState (cc_id cfg) l) M w = Inr w1"
        "get_st (LineState (cc_id cfg) l) w1 = Inr M" using set_st_ok [OF s] by blast
    ultimately show ?thesis using GETX s
      by (auto simp: bcc_processAccess_def Let_def simp del: get_st.simps set_st.simps)
  qed
next
  case PUTS
  then show ?thesis using s put(1) by (simp add: bcc_processAccess_def Let_def del: get_st.simps)
next
  case PUTX
  moreover obtain w1 where "set_st (LineState (cc_id cfg) l) M w = Inr w1"
      "get_st (LineState (cc_id cfg) l) w1 = Inr M" using set_st_ok [OF s] by blast
  ultimately show ?thesis using s put(2)
    by (auto simp: bcc_processAccess_def Let_def simp del: get_st.simps set_st.simps)
qed

lemma bcc_evict_ok:
  assumes par: "parentRTTs cfg \<noteq> []" and pre: "\<And>p. p < length (parentRTTs cfg) \<Longrightarrow> pre p a (LineState (cc_id cfg) l) cyc w"
    and s: "get_st (LineState (cc_id cfg) l) w = Inr s" and lw: "lw \<Longrightarrow> s = E \<or> s = M"
  shows "\<exists>r w'. bcc_processEviction acc cfg a l lw cyc src w = Inr (r, w') \<and> cyc \<le> r \<and>
    get_st (LineState (cc_id cfg) l) w' = Inr I"
proof -
  let ?st = "LineState (cc_id cfg) l"
  define s1 where "s1 = (if lw then M else s)"
  obtain w1 where w1: "(if lw then set_st ?st M w else Inr w) = Inr w1" "get_st ?st w1 = Inr s1"
    using set_st_ok [OF s, of M] s by (cases lw) (auto simp: s1_def simp del: get_st.simps set_st.simps)
  have pre1: "pre p a ?st cyc w1" if "p < length (parentRTTs cfg)" for p
    using w1(1) lw pre [OF that] s pre_silent [OF pre [OF that], of ?st w1] set_st_self [of ?st w M]
    by (cases lw; cases "s = M") (auto simp del: get_st.simps set_st.simps)
  obtain p where p: "getParentId cfg a = Inr p" "p < length (parentRTTs cfg)"
    using getParentId_ok [OF par] by blast
  let ?q = "\<lambda>ty. MemReq_init a ty (selfId cfg) ?st cyc (Some (cc_id cfg)) s1 src 0"
  have put: "\<exists>r w'. acc p (?q ty) w1 = Inr (r, w') \<and> cyc \<le> r \<and> get_st ?st w' = Inr I"
    if "ty = PUTS \<or> ty = PUTX" "req_legal ty s1" for ty
    using acc_ok [of p "?q ty" w1] pre1 [OF p(2)] w1(2) that by (auto simp: grants_def simp del: get_st.simps)
  have run: "bcc_processEviction acc cfg a l lw cyc src w =
      rbind (case s1 of I \<Rightarrow> Inr (cyc, w1) | M \<Rightarrow> acc p (?q PUTX) w1 | _ \<Rightarrow> acc p (?q PUTS) w1) (\<lambda>(resp, w2).
      rbind (get_st ?st w2) (\<lambda>s'. check (s' = I) AssertFailed (Inr (resp, w2))))"
    using s w1 lw p
    by (cases lw) (auto simp: bcc_processEviction_def s1_def Let_def simp del: get_st.simps set_st.simps split: MESIState.splits)
  show ?thesis
  proof (cases s1)
    case I
    then show ?thesis using run w1(2) by (simp del: get_st.simps)
  next
    case S
    then show ?thesis using run put [of PUTS] by (auto simp: req_legal_def simp del: get_st.simps)
  next
    case E
    then show ?thesis using run put [of PUTS] by (auto simp: req_legal_def simp del: get_st.simps)
  next
    case M
    then show ?thesis using run put [of PUTX] by (auto simp: req_legal_def simp del: get_st.simps)
  qed
qed

end

text \<open>A memory that only writes the state of the requested line.\<close>

definition only_line :: "stateRef \<Rightarrow> 'x coh_scheme \<Rightarrow> 'x coh_scheme \<Rightarrow> bool" where
  "only_line r w w' \<longleftrightarrow> tccArray w' = tccArray w \<and> (\<forall>r'. r' \<noteq> r \<longrightarrow> get_st r' w' = get_st r' w)"

lemma only_line_refl: "only_line r w w"
  by (simp add: only_line_def)

lemma only_line_trans: "only_line r w1 w2 \<Longrightarrow> only_line r w2 w3 \<Longrightarrow> only_line r w1 w3"
  by (simp add: only_line_def)

lemma only_line_set: "set_st r s w = Inr w' \<Longrightarrow> only_line r w w'"
proof -
  assume a: "set_st r s w = Inr w'"
  have "get_st r' w' = get_st r' w" if "r' \<noteq> r" for r'
    using a that by (cases r; cases r') (auto simp: res_simps aget_def nth_list_update split: if_splits)
  then show ?thesis using set_st_tcc [OF a] by (simp add: only_line_def)
qed

lemma only_line_prof: "only_line r w (prof cfg f w)"
  by (simp add: only_line_def)

text \<open>The steps of an eviction: a dirty copy below marks the line, then at most one call to a parent.\<close>

lemma bcc_evict_cases:
  assumes "bcc_processEviction acc cfg a l lw cyc src w = Inr (r, w')"
  shows "\<exists>w1. (w1 = w \<or> set_st (LineState (cc_id cfg) l) M w = Inr w1) \<and>
    (w' = w1 \<or> (\<exists>p q r1. acc p q w1 = Inr (r1, w') \<and> state q = LineState (cc_id cfg) l))"
proof -
  let ?st = "LineState (cc_id cfg) l"
  obtain s0 w1 where 1: "get_st ?st w = Inr s0" "(if lw then set_st ?st M w else Inr w) = Inr w1"
    using assms
    by (cases lw) (auto simp: bcc_processEviction_def res_simps Let_def simp del: get_st.simps set_st.simps)
  then obtain s where s: "get_st ?st w1 = Inr s"
    using assms
    by (cases lw) (auto simp: bcc_processEviction_def res_simps Let_def simp del: get_st.simps set_st.simps)
  have "w' = w1 \<or> (\<exists>p q r1. acc p q w1 = Inr (r1, w') \<and> state q = ?st)"
  proof (cases s)
    case I
    with assms 1 s show ?thesis
      by (cases lw) (auto simp: bcc_processEviction_def res_simps Let_def simp del: get_st.simps set_st.simps)
  next
    case S
    with assms 1 s obtain p where "acc p (MemReq_init a PUTS (selfId cfg) ?st cyc (Some (cc_id cfg)) s src 0) w1 = Inr (r, w')"
      by (cases lw) (auto simp: bcc_processEviction_def res_simps Let_def simp del: get_st.simps set_st.simps)
    then show ?thesis by fastforce
  next
    case E
    with assms 1 s obtain p where "acc p (MemReq_init a PUTS (selfId cfg) ?st cyc (Some (cc_id cfg)) s src 0) w1 = Inr (r, w')"
      by (cases lw) (auto simp: bcc_processEviction_def res_simps Let_def simp del: get_st.simps set_st.simps)
    then show ?thesis by fastforce
  next
    case M
    with assms 1 s obtain p where "acc p (MemReq_init a PUTX (selfId cfg) ?st cyc (Some (cc_id cfg)) s src 0) w1 = Inr (r, w')"
      by (cases lw) (auto simp: bcc_processEviction_def res_simps Let_def simp del: get_st.simps set_st.simps)
    then show ?thesis by fastforce
  qed
  moreover have "w1 = w \<or> set_st ?st M w = Inr w1" using 1(2) by (cases lw) (auto simp del: set_st.simps)
  ultimately show ?thesis by blast
qed

locale mem_leaf = mem_parent +
  assumes acc_frame: "acc p q w = Inr (r, w') \<Longrightarrow> only_line (state q) w w'"
begin

lemma bcc_fetch_frame:
  "bcc_fetch acc cfg a l ty s cyc src fl w = Inr (r, w') \<Longrightarrow> only_line (LineState (cc_id cfg) l) w w'"
proof -
  assume "bcc_fetch acc cfg a l ty s cyc src fl w = Inr (r, w')"
  then obtain p q r1 w1 f where "acc p q w = Inr (r1, w1)" "state q = LineState (cc_id cfg) l" "w' = prof cfg f w1"
    by (auto simp: bcc_fetch_def res_simps Let_def)
  then show ?thesis using acc_frame only_line_prof only_line_trans by metis
qed

lemma bcc_access_frame:
  assumes "bcc_processAccess acc cfg a l ty cyc src fl w = Inr (r, w')"
  shows "only_line (LineState (cc_id cfg) l) w w'"
proof -
  let ?st = "LineState (cc_id cfg) l"
  have "only_line ?st w w'" if s: "get_st ?st w = Inr s" for s
  proof (cases ty)
    case GETS
    show ?thesis
    proof (cases "s = I")
      case True
      then obtain r1 w1 f where "bcc_fetch acc cfg a l GETS s cyc src fl w = Inr (r1, w1)" "w' = prof cfg f w1"
        using assms GETS s by (auto simp: bcc_processAccess_def res_simps Let_def simp del: get_st.simps)
      then show ?thesis using bcc_fetch_frame only_line_prof only_line_trans by metis
    next
      case False
      then show ?thesis using assms GETS s only_line_prof
        by (auto simp: bcc_processAccess_def res_simps Let_def simp del: get_st.simps)
    qed
  next
    case GETX
    show ?thesis
    proof (cases "s = I \<or> s = S")
      case True
      then obtain r1 f where "bcc_fetch acc cfg a l GETX s cyc src fl (prof cfg f w) = Inr (r1, w')"
        using assms GETX s by (auto simp: bcc_processAccess_def res_simps Let_def simp del: get_st.simps)
      then show ?thesis using bcc_fetch_frame only_line_prof only_line_trans by metis
    next
      case False
      then obtain w1 f where "w' = prof cfg f w1" "w1 = w \<or> set_st ?st M w = Inr w1"
        using assms GETX s
        by (auto simp: bcc_processAccess_def res_simps Let_def simp del: get_st.simps set_st.simps split: if_splits)
      then show ?thesis using only_line_set only_line_refl only_line_prof only_line_trans by metis
    qed
  next
    case PUTS
    then show ?thesis using assms s only_line_prof
      by (auto simp: bcc_processAccess_def res_simps Let_def simp del: get_st.simps)
  next
    case PUTX
    then obtain w1 f where "w' = prof cfg f w1" "w1 = w \<or> set_st ?st M w = Inr w1"
      using assms s
      by (auto simp: bcc_processAccess_def res_simps Let_def simp del: get_st.simps set_st.simps split: if_splits)
    then show ?thesis using only_line_set only_line_refl only_line_prof only_line_trans by metis
  qed
  moreover have "\<exists>s. get_st ?st w = Inr s"
    using assms by (auto simp: bcc_processAccess_def res_simps Let_def simp del: get_st.simps set_st.simps)
  ultimately show ?thesis by blast
qed

lemma bcc_evict_frame:
  assumes "bcc_processEviction acc cfg a l lw cyc src w = Inr (r, w')"
  shows "only_line (LineState (cc_id cfg) l) w w'"
  using bcc_evict_cases [OF assms] acc_frame only_line_set only_line_refl only_line_trans by metis

end

end
