(* ===== verification/MemCtrls.thy ===== *)
theory MemCtrls
  imports Coherence
begin

text \<open>
  The bound-phase memory controllers (mem_ctrls.h, mem_ctrls.cpp): the fixed-latency
  \<open>SimpleMemory\<close> and \<open>MD1Memory\<close>, whose latency follows an M/D/1 queueing model of the load of
  the past phases.  Both end every access with the pointed MESI state set and provide the contract
  \<open>mem_parent\<close> the bottom coherence controllers rely on; the properties of those controllers are
  stated here over the memories.

  \<open>double\<close> values are rational numbers; a conversion to \<open>uint32_t\<close> is the floor, taken modulo
  2^32.  The phase counter and length of the global state are arguments of the MD1 access.
\<close>

subsection \<open>The memory side of the protocol\<close>

definition mem_grant :: "MemReq \<Rightarrow> MESIState" where
  "mem_grant q = (case acctype q of PUTS \<Rightarrow> I | PUTX \<Rightarrow> I
      | GETS \<Rightarrow> if is_flag NOEXCL q then S else E | GETX \<Rightarrow> M)"

definition SimpleMemory_access :: "u32 \<Rightarrow> MemReq \<Rightarrow> 'x coh_scheme \<Rightarrow> (u64 \<times> 'x coh_scheme) res" where
  "SimpleMemory_access lat q w =
     rbind (set_st (state q) (mem_grant q) w) (\<lambda>w1.
       let respCycle = cycle q + ucast lat in
       check (cycle q < respCycle) AssertFailed (Inr (respCycle, w1)))"

definition mem_pre :: "u32 \<Rightarrow> nat \<Rightarrow> u64 \<Rightarrow> stateRef \<Rightarrow> u64 \<Rightarrow> 'x coh_scheme \<Rightarrow> bool" where
  "mem_pre lat p a r c w \<longleftrightarrow> 0 < lat \<and> unat c + 2 ^ 32 \<le> 2 ^ 64 \<and> (\<exists>s. get_st r w = Inr s)"

lemma mem_grant_grants: "grants (acctype q) (mem_grant q)"
  by (simp add: grants_def mem_grant_def split: AccessType.split)

lemma get_st_silent:
  assumes "get_st r w = Inr s" "set_st r' s' w = Inr w'"
  shows "\<exists>s''. get_st r w' = Inr s''"
  using assms by (cases r; cases r') (auto simp: res_simps)

lemma SimpleMemory_access_ok:
  assumes "mem_pre lat p a (state q) (cycle q) w"
  shows "\<exists>w'. SimpleMemory_access lat q w = Inr (cycle q + ucast lat, w') \<and>
    set_st (state q) (mem_grant q) w = Inr w' \<and> get_st (state q) w' = Inr (mem_grant q)"
proof -
  obtain s where s: "get_st (state q) w = Inr s" and l: "0 < lat" "unat (cycle q) + 2 ^ 32 \<le> 2 ^ 64"
    using assms by (auto simp: mem_pre_def)
  obtain w' where "set_st (state q) (mem_grant q) w = Inr w'" "get_st (state q) w' = Inr (mem_grant q)"
    using set_st_ok [OF s] by blast
  then show ?thesis using add_lat_gt [OF l(2,1)] by (simp add: SimpleMemory_access_def Let_def)
qed

interpretation simple_mem: mem_leaf "\<lambda>p. SimpleMemory_access lat" "mem_pre lat" for lat
proof unfold_locales
  fix p q c a f cfg and r r' :: stateRef and rc :: u64 and w w' :: "'x coh_scheme"
  show "\<exists>r w' s. SimpleMemory_access lat q w = Inr (r, w') \<and> cycle q \<le> r \<and> get_st (state q) w' = Inr s \<and> grants (acctype q) s"
    if pre: "mem_pre lat p (MemReq.lineAddr q) (state q) (cycle q) w"
  proof -
    have "unat (cycle q) + 2 ^ 32 \<le> 2 ^ 64" using pre by (simp add: mem_pre_def)
    from add_lat_ge(1) [OF this, of lat] SimpleMemory_access_ok [OF pre] mem_grant_grants [of q]
    show ?thesis by blast
  qed
  show "mem_pre lat p a r c (prof cfg f w) = mem_pre lat p a r c w"
    by (simp add: mem_pre_def)
  show "mem_pre lat p a r c w'" if "mem_pre lat p a r c w" "get_st r' w = Inr E" "set_st r' M w = Inr w'"
    using that get_st_silent [OF _ that(3)] by (auto simp: mem_pre_def)
  show "only_line (state q) w w'" if "SimpleMemory_access lat q w = Inr (rc, w')"
    using that only_line_set by (auto simp: SimpleMemory_access_def res_simps Let_def)
qed

subsection \<open>The M/D/1 controller\<close>

record MD1Memory =
  lastPhase :: u64
  maxRequestsPerCycle :: rat
  smoothedPhaseAccesses :: rat
  zeroLoadLatency :: u32
  curLatency :: u32
  md1_profReads :: nat
  md1_profWrites :: nat
  md1_profTotalRdLat :: nat
  md1_profTotalWrLat :: nat
  md1_profLoad :: nat
  md1_profUpdates :: nat
  md1_profClampedLoads :: nat
  curPhaseAccesses :: u32

text \<open>The divisions of the constructor are by the configured frequency and line size, which the
  configuration reader keeps positive.\<close>

definition MD1Memory_init :: "u32 \<Rightarrow> u32 \<Rightarrow> u32 \<Rightarrow> u32 \<Rightarrow> MD1Memory res" where
  "MD1Memory_init requestSize megacyclesPerSecond megabytesPerSecond zll =
     (let bytesPerCycle = of_nat (unat megabytesPerSecond) / of_nat (unat megacyclesPerSecond) :: rat;
          mr = bytesPerCycle / of_nat (unat requestSize) in
      check (mr > 0) AssertFailed
       (Inr \<lparr>lastPhase = 0, maxRequestsPerCycle = mr, smoothedPhaseAccesses = 0, zeroLoadLatency = zll,
             curLatency = zll, md1_profReads = 0, md1_profWrites = 0, md1_profTotalRdLat = 0,
             md1_profTotalWrLat = 0, md1_profLoad = 0, md1_profUpdates = 0, md1_profClampedLoads = 0,
             curPhaseAccesses = 0\<rparr>))"

definition to_u32 :: "rat \<Rightarrow> u32" where
  "to_u32 x = word_of_int \<lfloor>x\<rfloor>"

definition updateLatency :: "u64 \<Rightarrow> u32 \<Rightarrow> MD1Memory \<Rightarrow> MD1Memory" where
  "updateLatency numPhases phaseLength m =
     (let phaseCycles = ucast ((numPhases - lastPhase m) * ucast phaseLength) :: u32 in
      if phaseCycles < 10000 then m
      else
       (let sm = of_nat (unat (curPhaseAccesses m)) * (1/2) + smoothedPhaseAccesses m * (1/2);
            requestsPerCycle = sm / of_nat (unat phaseCycles);
            load0 = requestsPerCycle / maxRequestsPerCycle m;
            clamped = load0 > 95/100;
            load = (if clamped then 95/100 else load0);
            latMultiplier = 1 + (1/2) * load / (1 - load) in
        m\<lparr>smoothedPhaseAccesses := sm,
          md1_profClampedLoads := md1_profClampedLoads m + (if clamped then 1 else 0),
          curLatency := to_u32 (latMultiplier * of_nat (unat (zeroLoadLatency m))),
          md1_profLoad := md1_profLoad m + unat (to_u32 (load * 100)),
          md1_profUpdates := md1_profUpdates m + 1,
          curPhaseAccesses := 0,
          lastPhase := numPhases\<rparr>))"

definition MD1Memory_access ::
  "u64 \<Rightarrow> u32 \<Rightarrow> MemReq \<Rightarrow> MD1Memory \<times> 'x coh_scheme \<Rightarrow> (u64 \<times> MD1Memory \<times> 'x coh_scheme) res" where
  "MD1Memory_access numPhases phaseLength q mw =
     (let m0 = fst mw; w = snd mw;
          m = (if numPhases > lastPhase m0 then updateLatency numPhases phaseLength m0 else m0);
          rd = m\<lparr>md1_profReads := md1_profReads m + 1, md1_profTotalRdLat := md1_profTotalRdLat m + unat (curLatency m),
                 curPhaseAccesses := curPhaseAccesses m + 1\<rparr>;
          m' = (case acctype q of
              PUTX \<Rightarrow> m\<lparr>md1_profWrites := md1_profWrites m + 1, md1_profTotalWrLat := md1_profTotalWrLat m + unat (curLatency m),
                        curPhaseAccesses := curPhaseAccesses m + 1\<rparr>
            | PUTS \<Rightarrow> m | GETS \<Rightarrow> rd | GETX \<Rightarrow> rd) in
      rbind (set_st (state q) (mem_grant q) w) (\<lambda>w1.
        Inr (cycle q + (if acctype q = PUTS then 0 else ucast (curLatency m')), m', w1)))"

text \<open>The invariant: the load is clamped, so the latency stays between one and 10.5 times the
  zero-load latency.\<close>

definition md1_ok :: "MD1Memory \<Rightarrow> bool" where
  "md1_ok m \<longleftrightarrow> maxRequestsPerCycle m > 0 \<and> smoothedPhaseAccesses m \<ge> 0 \<and>
     21 * unat (zeroLoadLatency m) < 2 * 2 ^ 32 \<and>
     unat (zeroLoadLatency m) \<le> unat (curLatency m) \<and> 2 * unat (curLatency m) \<le> 21 * unat (zeroLoadLatency m)"

lemma unat_to_u32: "0 \<le> x \<Longrightarrow> x < 2 ^ 32 \<Longrightarrow> unat (to_u32 x) = nat \<lfloor>x\<rfloor>"
proof -
  assume "0 \<le> x" "x < 2 ^ 32"
  then have f: "0 \<le> \<lfloor>x\<rfloor>" "\<lfloor>x\<rfloor> < 2 ^ LENGTH(32)" by (simp_all add: floor_less_iff)
  then show ?thesis by (simp add: to_u32_def unsigned_of_int take_bit_int_eq_self)
qed

lemma md1_multiplier:
  assumes "0 \<le> (l :: rat)" "l \<le> 95/100"
  shows "1 \<le> 1 + (1/2) * l / (1 - l)" "1 + (1/2) * l / (1 - l) \<le> 21/2"
proof -
  have p: "0 < 1 - l" using assms by simp
  then show "1 \<le> 1 + (1/2) * l / (1 - l)" using assms(1) by simp
  have "(1/2) * l \<le> 19/2 * (1 - l)" using assms(2) by simp
  then have "(1/2) * l / (1 - l) \<le> 19/2" using p by (simp add: pos_divide_le_eq)
  then show "1 + (1/2) * l / (1 - l) \<le> 21/2" by simp
qed

lemma updateLatency_ok:
  assumes "md1_ok m"
  shows "md1_ok (updateLatency np pl m)" "zeroLoadLatency (updateLatency np pl m) = zeroLoadLatency m"
proof -
  define pc where "pc = (ucast ((np - lastPhase m) * ucast pl) :: u32)"
  define sm where "sm = of_nat (unat (curPhaseAccesses m)) * (1/2) + smoothedPhaseAccesses m * (1/2)"
  define l0 where "l0 = sm / of_nat (unat pc) / maxRequestsPerCycle m"
  define l where "l = (if l0 > 95/100 then 95/100 else l0)"
  define x where "x = (1 + (1/2) * l / (1 - l)) * of_nat (unat (zeroLoadLatency m))"
  have run: "updateLatency np pl m = (if pc < 10000 then m else
      m\<lparr>smoothedPhaseAccesses := sm,
          md1_profClampedLoads := md1_profClampedLoads m + (if l0 > 95/100 then 1 else 0),
          curLatency := to_u32 x, md1_profLoad := md1_profLoad m + unat (to_u32 (l * 100)),
          md1_profUpdates := md1_profUpdates m + 1, curPhaseAccesses := 0, lastPhase := np\<rparr>)"
    by (simp only: updateLatency_def Let_def pc_def sm_def l0_def l_def x_def)
  then show "zeroLoadLatency (updateLatency np pl m) = zeroLoadLatency m" by simp
  have "0 \<le> of_nat (unat (curPhaseAccesses m)) * (1/2 :: rat)" by (intro mult_nonneg_nonneg of_nat_0_le_iff) simp
  moreover have "0 \<le> smoothedPhaseAccesses m * (1/2)" using assms by (simp add: md1_ok_def)
  ultimately have sm: "0 \<le> sm" unfolding sm_def by (rule add_nonneg_nonneg)
  then have "0 \<le> l0" unfolding l0_def
    using assms sm by (intro divide_nonneg_nonneg of_nat_0_le_iff) (simp_all add: md1_ok_def)
  then have l: "0 \<le> l" "l \<le> 95/100" by (auto simp: l_def)
  define zn where "zn = unat (zeroLoadLatency m)"
  let ?z = "of_nat zn :: rat"
  have x: "x = (1 + (1/2) * l / (1 - l)) * ?z" by (simp only: x_def zn_def)
  have z: "0 \<le> ?z" by simp
  have x1: "?z \<le> x" using mult_right_mono [OF md1_multiplier(1) [OF l] z] by (simp add: x)
  have x2: "x \<le> 21/2 * ?z" using mult_right_mono [OF md1_multiplier(2) [OF l] z] by (simp only: x)
  have "of_nat (21 * zn) < (of_nat (2 * 2 ^ 32) :: rat)"
    using assms unfolding of_nat_less_iff md1_ok_def zn_def by blast
  then have x3: "x < 2 ^ 32" using x2 by simp
  have u: "unat (to_u32 x) = nat \<lfloor>x\<rfloor>" using unat_to_u32 x1 x3 z by (meson order_trans)
  have lo: "zn \<le> nat \<lfloor>x\<rfloor>" using le_floor_iff [of "int zn" x] x1 by simp
  have "of_nat (nat \<lfloor>x\<rfloor>) \<le> x" using x1 z by (simp add: of_nat_floor)
  then have "2 * of_nat (nat \<lfloor>x\<rfloor>) \<le> 21 * ?z" using x2 by linarith
  then have "of_nat (2 * nat \<lfloor>x\<rfloor>) \<le> (of_nat (21 * zn) :: rat)" by simp
  then have hi: "2 * nat \<lfloor>x\<rfloor> \<le> 21 * zn" by (simp only: of_nat_le_iff)
  show "md1_ok (updateLatency np pl m)" using assms sm lo hi u by (simp add: run md1_ok_def zn_def)
qed

lemma MD1Memory_access_ok:
  assumes m: "md1_ok m" and p: "get_st (state q) w = Inr s" "unat (cycle q) + 2 ^ 32 \<le> 2 ^ 64"
  shows "\<exists>r m' w'. MD1Memory_access np pl q (m, w) = Inr (r, m', w') \<and> md1_ok m' \<and>
    zeroLoadLatency m' = zeroLoadLatency m \<and>
    r = cycle q + (if acctype q = PUTS then 0 else ucast (curLatency m')) \<and> cycle q \<le> r \<and>
    set_st (state q) (mem_grant q) w = Inr w' \<and> get_st (state q) w' = Inr (mem_grant q)"
proof -
  define m1 where "m1 = (if np > lastPhase m then updateLatency np pl m else m)"
  have m1: "md1_ok m1" "zeroLoadLatency m1 = zeroLoadLatency m"
    using m updateLatency_ok [OF m] by (auto simp: m1_def)
  obtain w' where w': "set_st (state q) (mem_grant q) w = Inr w'" "get_st (state q) w' = Inr (mem_grant q)"
    using set_st_ok [OF p(1)] by blast
  define rd where "rd = m1\<lparr>md1_profReads := md1_profReads m1 + 1,
      md1_profTotalRdLat := md1_profTotalRdLat m1 + unat (curLatency m1), curPhaseAccesses := curPhaseAccesses m1 + 1\<rparr>"
  define m' where "m' = (case acctype q of
              PUTX \<Rightarrow> m1\<lparr>md1_profWrites := md1_profWrites m1 + 1, md1_profTotalWrLat := md1_profTotalWrLat m1 + unat (curLatency m1),
                        curPhaseAccesses := curPhaseAccesses m1 + 1\<rparr>
            | PUTS \<Rightarrow> m1 | GETS \<Rightarrow> rd | GETX \<Rightarrow> rd)"
  have run: "MD1Memory_access np pl q (m, w) =
      Inr (cycle q + (if acctype q = PUTS then 0 else ucast (curLatency m')), m', w')"
    unfolding MD1Memory_access_def Let_def fst_conv snd_conv m1_def [symmetric] rd_def [symmetric] m'_def [symmetric]
    by (simp add: w'(1))
  have "md1_ok m'" "zeroLoadLatency m' = zeroLoadLatency m"
    using m1 by (auto simp: m'_def rd_def md1_ok_def split: AccessType.splits)
  moreover have "cycle q \<le> cycle q + (if acctype q = PUTS then 0 else ucast (curLatency m'))"
    using add_lat_ge(1) [OF p(2)] by simp
  ultimately show ?thesis using run w' by blast
qed

record md1_world = coh +
  md1 :: MD1Memory

definition md1_acc ::
  "u64 \<Rightarrow> u32 \<Rightarrow> nat \<Rightarrow> MemReq \<Rightarrow> 'x md1_world_scheme \<Rightarrow> (u64 \<times> 'x md1_world_scheme) res" where
  "md1_acc np pl p q w = rbind (MD1Memory_access np pl q (md1 w, w)) (\<lambda>(r, m, w1). Inr (r, w1\<lparr>md1 := m\<rparr>))"

lemma set_st_md1: "set_st r s w = Inr w' \<Longrightarrow> md1 w' = md1 w"
  by (cases r) (auto simp: res_simps)

lemma get_st_md1 [simp]: "get_st r (w\<lparr>md1 := m\<rparr>) = get_st r w"
  by (cases r) simp_all

definition md1_pre :: "nat \<Rightarrow> u64 \<Rightarrow> stateRef \<Rightarrow> u64 \<Rightarrow> 'x md1_world_scheme \<Rightarrow> bool" where
  "md1_pre p a r c w \<longleftrightarrow> md1_ok (md1 w) \<and> unat c + 2 ^ 32 \<le> 2 ^ 64 \<and> (\<exists>s. get_st r w = Inr s)"

lemma md1_prof [simp]: "md1 (prof cfg f w) = md1 w"
  by (simp add: prof_def)

interpretation md1_mem: mem_leaf "md1_acc np pl" md1_pre for np pl
proof unfold_locales
  fix p q c a f cfg and r r' :: stateRef and rc :: u64 and w w' :: "'x md1_world_scheme"
  show "\<exists>r w' s. md1_acc np pl p q w = Inr (r, w') \<and> cycle q \<le> r \<and> get_st (state q) w' = Inr s \<and> grants (acctype q) s"
    if pre: "md1_pre p (MemReq.lineAddr q) (state q) (cycle q) w"
  proof -
    obtain s where "md1_ok (md1 w)" "get_st (state q) w = Inr s" "unat (cycle q) + 2 ^ 32 \<le> 2 ^ 64"
      using pre by (auto simp: md1_pre_def)
    from MD1Memory_access_ok [OF this, of np pl] obtain rc m' w1 where
      "MD1Memory_access np pl q (md1 w, w) = Inr (rc, m', w1)" "cycle q \<le> rc"
      "get_st (state q) w1 = Inr (mem_grant q)" by blast
    then show ?thesis using mem_grant_grants [of q] by (auto simp: md1_acc_def)
  qed
  show "md1_pre p a r c (prof cfg f w) = md1_pre p a r c w"
    by (simp add: md1_pre_def)
  show "md1_pre p a r c w'" if "md1_pre p a r c w" "get_st r' w = Inr E" "set_st r' M w = Inr w'"
    using that get_st_silent [OF _ that(3)] set_st_md1 [OF that(3)] by (auto simp: md1_pre_def)
  show "only_line (state q) w w'" if "md1_acc np pl p q w = Inr (rc, w')"
    using that only_line_set [of "state q" "mem_grant q" w]
    by (auto simp: md1_acc_def MD1Memory_access_def res_simps Let_def only_line_def)
qed

subsection \<open>Properties of the bottom controller over a memory\<close>

text \<open>A bottom controller whose parents are fixed-latency memories serves every access: no
  assertion fails and the response is not earlier than the request.  A get or put the line has
  permission for only makes the silent upgrade, a miss leaves the line shared or exclusive (GETS)
  or modified (GETX), and no state but the line's, no directory of any cache, changes.\<close>

lemma bottom_access_correct:
  fixes w :: coh
  assumes "parentRTTs cfg \<noteq> []" "0 < lat" "unat cyc + 2 ^ 32 \<le> 2 ^ 64"
    and "get_st (LineState (cc_id cfg) l) w = Inr s"
    and "ty = PUTS \<Longrightarrow> s \<noteq> I" "ty = PUTX \<Longrightarrow> s = E \<or> s = M"
  shows "\<exists>r w' s'. bcc_processAccess (\<lambda>p. SimpleMemory_access lat) cfg a l ty cyc src fl w = Inr (r, w') \<and>
    cyc \<le> r \<and> only_line (LineState (cc_id cfg) l) w w' \<and> get_st (LineState (cc_id cfg) l) w' = Inr s' \<and>
    (case ty of GETS \<Rightarrow> if s = I then s' = S \<or> s' = E else s' = s
      | GETX \<Rightarrow> s' = M | PUTS \<Rightarrow> s' = s | PUTX \<Rightarrow> s' = M)"
proof -
  have "mem_pre lat p a (LineState (cc_id cfg) l) cyc w" for p
    using assms(2,3,4) by (auto simp: mem_pre_def)
  with simple_mem.bcc_access_ok [OF assms(1) _ assms(4,5,6,3)] simple_mem.bcc_access_frame
  show ?thesis by metis
qed

text \<open>Evicting a line to a fixed-latency memory, with or without a dirty copy below, always
  succeeds: the line ends invalid, the response is not earlier than the request, and no other
  state or directory changes.\<close>

lemma bottom_eviction_correct:
  fixes w :: coh
  assumes "parentRTTs cfg \<noteq> []" "0 < lat" "unat cyc + 2 ^ 32 \<le> 2 ^ 64"
    and "get_st (LineState (cc_id cfg) l) w = Inr s" "lw \<Longrightarrow> s = E \<or> s = M"
  shows "\<exists>r w'. bcc_processEviction (\<lambda>p. SimpleMemory_access lat) cfg a l lw cyc src w = Inr (r, w') \<and>
    cyc \<le> r \<and> get_st (LineState (cc_id cfg) l) w' = Inr I \<and> only_line (LineState (cc_id cfg) l) w w'"
proof -
  have "mem_pre lat p a (LineState (cc_id cfg) l) cyc w" for p
    using assms(2,3,4) by (auto simp: mem_pre_def)
  with simple_mem.bcc_evict_ok [OF assms(1) _ assms(4,5)] simple_mem.bcc_evict_frame
  show ?thesis by metis
qed

text \<open>From a correctly sized M/D/1 controller every access succeeds, whatever the number and
  length of the phases: the latency it charges is between one and 10.5 times the zero-load latency
  (nothing for a clean writeback), the controller stays in that range, and the pointed state gets
  the permission the request asks for.\<close>

lemma md1_access_bounds:
  fixes w :: coh
  assumes "md1_ok m" "get_st (state q) w = Inr s" "unat (cycle q) + 2 ^ 32 \<le> 2 ^ 64"
  shows "\<exists>r m' w'. MD1Memory_access np pl q (m, w) = Inr (r, m', w') \<and> md1_ok m' \<and>
    get_st (state q) w' = Inr (mem_grant q) \<and> grants (acctype q) (mem_grant q) \<and>
    (if acctype q = PUTS then r = cycle q
     else unat (cycle q) + unat (zeroLoadLatency m) \<le> unat r \<and>
          2 * (unat r - unat (cycle q)) \<le> 21 * unat (zeroLoadLatency m))"
proof -
  from MD1Memory_access_ok [OF assms, of np pl] obtain r m' w' where
    run: "MD1Memory_access np pl q (m, w) = Inr (r, m', w')" and ok: "md1_ok m'" "zeroLoadLatency m' = zeroLoadLatency m"
    and r: "r = cycle q + (if acctype q = PUTS then 0 else ucast (curLatency m'))"
    and st: "get_st (state q) w' = Inr (mem_grant q)" by blast
  have "unat (cycle q + ucast (curLatency m')) = unat (cycle q) + unat (curLatency m')"
    by (rule add_lat_ge(2) [OF assms(3)])
  with ok r have "if acctype q = PUTS then r = cycle q
     else unat (cycle q) + unat (zeroLoadLatency m) \<le> unat r \<and>
          2 * (unat r - unat (cycle q)) \<le> 21 * unat (zeroLoadLatency m)"
    by (auto simp: md1_ok_def)
  with run ok(1) st mem_grant_grants [of q] show ?thesis by blast
qed

subsection \<open>Concrete instances\<close>

definition cfg0 :: cc_cfg where
  "cfg0 = \<lparr>cc_id = 0, selfId = 0, parentRTTs = [3], childrenRTTs = [2, 2], nonInclusiveHack = False\<rparr>"

definition prof0 :: BccProf where
  "prof0 = \<lparr>profGETSHit = 0, profGETSMiss = 0, profGETXHit = 0, profGETXMissIM = 0, profGETXMissSM = 0,
     profPUTS = 0, profPUTX = 0, profINV = 0, profINVX = 0, profFWD = 0, profGETNextLevelLat = 0, profGETNetLat = 0\<rparr>"

definition coh0 :: coh where
  "coh0 = \<lparr>bccArray = (\<lambda>_. bcc_init 4), bccProf = (\<lambda>_. prof0), tccArray = (\<lambda>_. tcc_init 4), temps = (\<lambda>_. I)\<rparr>"

lemma get_coh0: "get_st (LineState 0 1) coh0 = Inr I"
  by (simp add: coh0_def bcc_init_def)

lemma bottom_access_correct_witness:
  "\<exists>r w'. bcc_processAccess (\<lambda>p. SimpleMemory_access 100) cfg0 64 1 GETX 10 0 0 coh0 = Inr (r, w') \<and>
    (10 :: u64) \<le> r \<and> get_st (LineState 0 1) w' = Inr M"
  using bottom_access_correct [of cfg0 100 10 1 coh0 I GETX 64 0 0] get_coh0
  by (auto simp: cfg0_def simp del: get_st.simps)

lemma bottom_eviction_correct_witness:
  "\<exists>r w'. bcc_processEviction (\<lambda>p. SimpleMemory_access 100) cfg0 64 1 False 10 0 coh0 = Inr (r, w') \<and>
    (10 :: u64) \<le> r \<and> get_st (LineState 0 1) w' = Inr I"
  using bottom_eviction_correct [of cfg0 100 10 1 coh0 I False 64 0] get_coh0
  by (auto simp: cfg0_def simp del: get_st.simps)

definition md1_0 :: MD1Memory where
  "md1_0 = \<lparr>lastPhase = 0, maxRequestsPerCycle = 1/16, smoothedPhaseAccesses = 0, zeroLoadLatency = 100,
     curLatency = 100, md1_profReads = 0, md1_profWrites = 0, md1_profTotalRdLat = 0, md1_profTotalWrLat = 0,
     md1_profLoad = 0, md1_profUpdates = 0, md1_profClampedLoads = 0, curPhaseAccesses = 0\<rparr>"

lemma md1_0_init: "MD1Memory_init 64 1000 4000 100 = Inr md1_0"
  by (simp add: MD1Memory_init_def md1_0_def Let_def)

lemma md1_access_bounds_witness:
  "\<exists>r m' w'. MD1Memory_access 5 10000 (req_of 64) (md1_0, coh0) = Inr (r, m', w') \<and> md1_ok m' \<and>
    100 \<le> unat r \<and> 2 * unat r \<le> 2100"
proof -
  have "md1_ok md1_0" by (simp add: md1_ok_def md1_0_def)
  moreover have "get_st (state (req_of 64)) coh0 = Inr I" by (simp add: req_of_def coh0_def)
  moreover have "unat (cycle (req_of 64)) + 2 ^ 32 \<le> 2 ^ 64" by (simp add: req_of_def)
  ultimately show ?thesis
    using md1_access_bounds [of md1_0 "req_of 64" coh0 I 5 10000] by (auto simp: req_of_def md1_0_def)
qed

end
