(* ===== verification/Directory.thy ===== *)
theory Directory
  imports MemCtrls CacheArrays
begin

text \<open>
  The top coherence controller keeps a directory of its children (coherence_ctrls.cpp), and the
  caches below it obey its invalidations (cache.cpp).  The locale \<open>child_caches\<close> states what the
  controller relies on: a child holding a line in a state answers an invalidation or downgrade by
  lowering exactly that state and reporting dirty data, and does not touch the directory.  Inside
  it, every operation of the controller is shown to keep the directory equal to the states of the
  children.  The contract is provided by caches with terminal controllers over any cache array.
\<close>

subsection \<open>A directory entry and the states it describes\<close>

text \<open>\<open>f c\<close> is the state of the line in child \<open>c\<close>; there are \<open>n\<close> children.\<close>

definition holders :: "nat \<Rightarrow> (nat \<Rightarrow> MESIState) \<Rightarrow> nat set" where
  "holders n f = {c. c < n \<and> f c \<noteq> I}"

definition dir_entry :: "nat \<Rightarrow> (nat \<Rightarrow> MESIState) \<Rightarrow> Entry \<Rightarrow> bool" where
  "dir_entry n f e \<longleftrightarrow>
     length (sharers e) = MAX_CACHE_CHILDREN \<and>
     (\<forall>c < MAX_CACHE_CHILDREN. sharers e ! c \<longleftrightarrow> c \<in> holders n f) \<and>
     unat (numSharers e) = card (holders n f) \<and>
     (exclusive e \<longrightarrow> card (holders n f) \<le> 1) \<and>
     (\<forall>c < n. f c \<noteq> I \<longrightarrow> (exclusive e \<longleftrightarrow> f c = E \<or> f c = M))"

text \<open>Single writer or many readers.\<close>

definition swmr :: "nat \<Rightarrow> (nat \<Rightarrow> MESIState) \<Rightarrow> bool" where
  "swmr n f \<longleftrightarrow> (\<forall>c < n. \<forall>d < n. (f c = E \<or> f c = M) \<longrightarrow> d \<noteq> c \<longrightarrow> f d = I)"

lemma finite_holders [simp]: "finite (holders n f)"
  by (rule finite_subset [of _ "{..<n}"]) (auto simp: holders_def)

lemma card_holders: "card (holders n f) \<le> n"
  using card_mono [of "{..<n}" "holders n f"] by (auto simp: holders_def)

lemma card_le_1_unique: "finite A \<Longrightarrow> card A \<le> 1 \<Longrightarrow> x \<in> A \<Longrightarrow> y \<in> A \<Longrightarrow> x = y"
  by (metis One_nat_def card_le_Suc0_iff_eq)

lemma dir_entry_swmr: "dir_entry n f e \<Longrightarrow> swmr n f"
proof -
  assume d: "dir_entry n f e"
  have "f b = I" if "c < n" "b < n" "f c = E \<or> f c = M" "b \<noteq> c" for c b
  proof (rule ccontr)
    assume "f b \<noteq> I"
    then have m: "b \<in> holders n f" "c \<in> holders n f" using that by (auto simp: holders_def)
    have "exclusive e" using d that by (auto simp: dir_entry_def)
    then have "card (holders n f) \<le> 1" using d by (simp add: dir_entry_def)
    then show False using card_le_1_unique [OF finite_holders _ m] that by simp
  qed
  then show ?thesis unfolding swmr_def by blast
qed

lemma dir_entry_empty: "dir_entry n f e \<Longrightarrow> Entry_isEmpty e \<longleftrightarrow> holders n f = {}"
  by (metis Entry_isEmpty_def card_eq_0_iff dir_entry_def finite_holders unat_eq_0)

lemma unat_eq_1_iff: "unat (x :: u32) = 1 \<longleftrightarrow> x = 1"
  by (metis unsigned_1 unsigned_word_eqI)

lemma dir_entry_exclusive:
  "dir_entry n f e \<Longrightarrow> Entry_isExclusive e \<longleftrightarrow> (\<exists>c < n. f c = E \<or> f c = M)"
proof
  assume d: "dir_entry n f e" and "Entry_isExclusive e"
  then have "exclusive e" "card (holders n f) = 1"
    by (auto simp: Entry_isExclusive_def dir_entry_def simp flip: unat_eq_1_iff)
  then obtain c where "c \<in> holders n f" by (metis card.empty empty_iff equals0I zero_neq_one)
  then show "\<exists>c < n. f c = E \<or> f c = M" using d \<open>exclusive e\<close> by (auto simp: dir_entry_def holders_def)
next
  assume d: "dir_entry n f e" and "\<exists>c < n. f c = E \<or> f c = M"
  then obtain c where c: "c < n" "f c = E \<or> f c = M" by blast
  then have x: "exclusive e" using d by (auto simp: dir_entry_def)
  have "c \<in> holders n f" using c by (auto simp: holders_def)
  then have "0 < card (holders n f)" by (auto simp: card_gt_0_iff)
  then have "unat (numSharers e) = 1" using d x by (auto simp: dir_entry_def)
  then show "Entry_isExclusive e" using x by (simp add: Entry_isExclusive_def flip: unat_eq_1_iff)
qed

lemma unat_dec: "(x :: u32) \<noteq> 0 \<Longrightarrow> unat (x - 1) = unat x - 1"
proof -
  assume "x \<noteq> 0"
  then have "0 < unat x" by (simp add: unat_gt_0)
  then have "1 \<le> x" by (simp add: word_le_nat_alt)
  then show ?thesis by (simp add: unat_sub)
qed

lemma unat_inc: "unat (x :: u32) < 256 \<Longrightarrow> unat (x + 1) = unat x + 1"
  by (simp add: unat_word_ariths)

text \<open>A child leaves the sharers, a child joins them.\<close>

lemma dir_entry_remove:
  assumes d: "dir_entry n g e" and c: "c < n" "g c \<noteq> I" and n: "n \<le> MAX_CACHE_CHILDREN"
  shows "dir_entry n (g(c := I)) (e\<lparr>sharers := (sharers e)[c := False], numSharers := numSharers e - 1\<rparr>)"
proof -
  have h: "holders n (g(c := I)) = holders n g - {c}" and m: "c \<in> holders n g"
    using c by (auto simp: holders_def)
  then have card: "card (holders n (g(c := I))) = card (holders n g) - 1" by simp
  have "card (holders n g) \<noteq> 0" using m by auto
  then have "numSharers e \<noteq> 0" using d by (auto simp: dir_entry_def)
  then have u: "unat (numSharers e - 1) = card (holders n (g(c := I)))"
    using unat_dec d card by (simp add: dir_entry_def)
  have bits: "(sharers e)[c := False] ! b \<longleftrightarrow> b \<in> holders n (g(c := I))" if "b < MAX_CACHE_CHILDREN" for b
    using that d unfolding h by (cases "b = c") (auto simp: dir_entry_def)
  have x: "exclusive e \<longrightarrow> card (holders n (g(c := I))) \<le> 1" using d card by (auto simp: dir_entry_def)
  show ?thesis using d u bits x by (simp add: dir_entry_def)
qed

lemma dir_entry_add:
  assumes d: "dir_entry n g e" and c: "c < n" "g c = I" "s \<noteq> I" and n: "n \<le> MAX_CACHE_CHILDREN"
    and x: "x \<longleftrightarrow> s = E \<or> s = M" "x \<longrightarrow> holders n g = {}" "\<not> x \<longrightarrow> (\<forall>b < n. g b \<noteq> E \<and> g b \<noteq> M)"
  shows "dir_entry n (g(c := s)) (e\<lparr>sharers := (sharers e)[c := True], numSharers := numSharers e + 1, exclusive := x\<rparr>)"
proof -
  have h: "holders n (g(c := s)) = insert c (holders n g)" and m: "c \<notin> holders n g"
    using c by (auto simp: holders_def)
  then have card: "card (holders n (g(c := s))) = card (holders n g) + 1" by simp
  have "card (holders n (g(c := s))) \<le> 256" using card_holders [of n "g(c := s)"] n by (simp add: MAX_CACHE_CHILDREN_def)
  then have "unat (numSharers e) < 256" using d card by (simp add: dir_entry_def)
  then have u: "unat (numSharers e + 1) = card (holders n (g(c := s)))"
    using unat_inc d card by (simp add: dir_entry_def)
  have bits: "(sharers e)[c := True] ! b \<longleftrightarrow> b \<in> holders n (g(c := s))" if "b < MAX_CACHE_CHILDREN" for b
    using that d unfolding h by (cases "b = c") (auto simp: dir_entry_def)
  have X: "x \<longrightarrow> card (holders n (g(c := s))) \<le> 1" using x(2) card by simp
  have "(g(c := s)) b \<noteq> I \<longrightarrow> (x \<longleftrightarrow> (g(c := s)) b = E \<or> (g(c := s)) b = M)" if "b < n" for b
  proof (cases "b = c")
    case False
    then show ?thesis using x(2,3) that by (cases x) (auto simp: holders_def)
  qed (use x(1) in simp)
  with d u bits X show ?thesis by (simp add: dir_entry_def)
qed

lemma dir_entry_bit: "dir_entry n g e \<Longrightarrow> c < n \<Longrightarrow> n \<le> MAX_CACHE_CHILDREN \<Longrightarrow> aget (sharers e) c = Inr (g c \<noteq> I)"
  by (auto simp: dir_entry_def holders_def)

subsection \<open>What the children promise\<close>

text \<open>
  \<open>k\<close> is the cache of the controller, \<open>n\<close> the number of its children, \<open>cst w c a\<close> the state of
  the line of address \<open>a\<close> in child \<open>c\<close>, \<open>cref w c a r\<close> that the pointer \<open>r\<close> of a request refers
  to that state, and \<open>wok\<close> the well-formedness of the children.
\<close>

definition keeps_top :: "nat \<Rightarrow> 'x coh_scheme \<Rightarrow> 'x coh_scheme \<Rightarrow> bool" where
  "keeps_top k w w' \<longleftrightarrow> tccArray w' k = tccArray w k \<and> bccArray w' k = bccArray w k"

definition lower :: "(nat \<Rightarrow> u64 \<Rightarrow> MESIState) \<Rightarrow> nat \<Rightarrow> u64 \<Rightarrow> MESIState \<Rightarrow> nat \<Rightarrow> u64 \<Rightarrow> MESIState" where
  "lower f c a s = f(c := (f c)(a := s))"

text \<open>The states of the line of \<open>a\<close> become \<open>g\<close>.\<close>

definition upd_line :: "(nat \<Rightarrow> u64 \<Rightarrow> MESIState) \<Rightarrow> u64 \<Rightarrow> (nat \<Rightarrow> MESIState) \<Rightarrow> nat \<Rightarrow> u64 \<Rightarrow> MESIState" where
  "upd_line f a g = (\<lambda>c b. if b = a then g c else f c b)"

lemma lower_apply: "lower f c a s d b = (if d = c \<and> b = a then s else f d b)"
  by (simp add: lower_def)

text \<open>The abstract transition of the states \<open>g\<close> of one line when child \<open>ch\<close> is served: \<open>he\<close>
  that the parent has exclusive permission, \<open>fl\<close> the flags of the request.\<close>

definition line_next ::
  "nat \<Rightarrow> AccessType \<Rightarrow> nat \<Rightarrow> bool \<Rightarrow> u32 \<Rightarrow> (nat \<Rightarrow> MESIState) \<Rightarrow> nat \<Rightarrow> MESIState" where
  "line_next n ty ch he fl g =
     (case ty of
        GETS \<Rightarrow> if he \<and> fl AND NOEXCL = 0 \<and> (\<forall>c < n. g c = I) then g(ch := E)
                else (\<lambda>c. if c < n \<and> (g c = E \<or> g c = M) then S else g c)(ch := S)
      | GETX \<Rightarrow> (\<lambda>c. if c < n then I else g c)(ch := M)
      | PUTS \<Rightarrow> g(ch := I)
      | PUTX \<Rightarrow> g(ch := if fl AND PUTX_KEEPEXCL \<noteq> 0 then E else I))"

text \<open>The accesses the protocol sends: the requester's own state fits the request, and a parent that
  gives or keeps exclusive permission has it.\<close>

definition access_legal :: "AccessType \<Rightarrow> MESIState \<Rightarrow> bool \<Rightarrow> bool" where
  "access_legal ty s he \<longleftrightarrow> (case ty of GETS \<Rightarrow> s = I | GETX \<Rightarrow> (s = I \<or> s = S) \<and> he
      | PUTS \<Rightarrow> s \<noteq> I | PUTX \<Rightarrow> s = M)"

locale child_caches =
  fixes invl :: "nat \<Rightarrow> InvReq \<Rightarrow> 'x coh_scheme \<Rightarrow> (u64 \<times> bool \<times> 'x coh_scheme) res"
    and cst :: "'x coh_scheme \<Rightarrow> nat \<Rightarrow> u64 \<Rightarrow> MESIState"
    and cref :: "'x coh_scheme \<Rightarrow> nat \<Rightarrow> u64 \<Rightarrow> stateRef \<Rightarrow> bool"
    and wok :: "'x coh_scheme \<Rightarrow> bool"
    and k :: nat and n :: nat
  assumes inv_ok: "wok w \<Longrightarrow> c < n \<Longrightarrow> inv_lineAddr q = a \<Longrightarrow> cst w c a = s \<Longrightarrow>
      inv_type q = INV \<and> s \<noteq> I \<or> inv_type q = INVX \<and> (s = E \<or> s = M) \<Longrightarrow>
      \<exists>r w'. invl c q w = Inr (r, inv_writeback q \<or> s = M, w') \<and> wok w' \<and> cref w' = cref w \<and>
        cst w' = lower (cst w) c a (if inv_type q = INV then I else S) \<and> keeps_top k w w'"
    and set_ok: "wok w \<Longrightarrow> c < n \<Longrightarrow> cref w c a p \<Longrightarrow>
      \<exists>w'. set_st p s w = Inr w' \<and> wok w' \<and> cref w' = cref w \<and> cst w' = lower (cst w) c a s \<and> keeps_top k w w'"
    and get_ok: "wok w \<Longrightarrow> c < n \<Longrightarrow> cref w c a p \<Longrightarrow> get_st p w = Inr (cst w c a)"
    and top_ok: "wok (w\<lparr>tccArray := (tccArray w)(k := t)\<rparr>) = wok w"
      "cst (w\<lparr>tccArray := (tccArray w)(k := t)\<rparr>) = cst w"
      "cref (w\<lparr>tccArray := (tccArray w)(k := t)\<rparr>) = cref w"
begin

text \<open>An operation of the controller: the children end in states \<open>f\<close>, the entry of line \<open>l\<close> is
  \<open>e\<close>, all else of the controller is kept.\<close>

definition top_step ::
  "'x coh_scheme \<Rightarrow> 'x coh_scheme \<Rightarrow> nat \<Rightarrow> (nat \<Rightarrow> u64 \<Rightarrow> MESIState) \<Rightarrow> Entry \<Rightarrow> bool" where
  "top_step w w' l f e \<longleftrightarrow> wok w' \<and> cref w' = cref w \<and> bccArray w' k = bccArray w k \<and> cst w' = f \<and>
     tccArray w' k = (tccArray w k)[l := e]"

lemma set_entry_ok:
  assumes "cc_id cfg = k" "l < length (tccArray w k)"
  shows "\<exists>w'. set_entry cfg l e w = Inr w' \<and> wok w' = wok w \<and> cst w' = cst w \<and> cref w' = cref w \<and>
    tccArray w' k = (tccArray w k)[l := e] \<and> bccArray w' = bccArray w"
  using assms by (simp add: set_entry_def top_ok)

text \<open>The states the directory knows of: on an upgrade the requester \<open>sk\<close> has left the
  sharers while it still holds the line.\<close>

definition view :: "nat set \<Rightarrow> u64 \<Rightarrow> 'x coh_scheme \<Rightarrow> nat \<Rightarrow> MESIState" where
  "view sk a w c = (if c \<in> sk then I else cst w c a)"

text \<open>One round of invalidations.\<close>

lemma inv_loop_INV:
  assumes k: "cc_id cfg = k" and n: "length (childrenRTTs cfg) = n"
  shows "wok w \<Longrightarrow> l < length (tccArray w k) \<Longrightarrow> set cs \<subseteq> {..<n} \<Longrightarrow> distinct cs \<Longrightarrow>
    length (sharers (tccArray w k ! l)) = MAX_CACHE_CHILDREN \<Longrightarrow> n \<le> MAX_CACHE_CHILDREN \<Longrightarrow>
    (\<And>c. c \<in> set cs \<Longrightarrow> sharers (tccArray w k ! l) ! c \<longleftrightarrow> view sk a w c \<noteq> I) \<Longrightarrow>
    \<exists>w' mx' sh. tcc_inv_loop invl cfg a l INV cyc src cs (w, mx, wb, sent) =
        Inr (w', mx', wb \<or> (\<exists>c \<in> set cs. view sk a w c = M), sent + of_nat (length (filter (\<lambda>c. view sk a w c \<noteq> I) cs))) \<and>
      wok w' \<and> mx \<le> mx' \<and> cref w' = cref w \<and> bccArray w' k = bccArray w k \<and>
      cst w' = (\<lambda>c b. if c \<in> set cs \<and> c \<notin> sk \<and> b = a then I else cst w c b) \<and>
      tccArray w' k = (tccArray w k)[l := (tccArray w k ! l)\<lparr>sharers := sh\<rparr>] \<and>
      length sh = MAX_CACHE_CHILDREN \<and>
      (\<forall>c < MAX_CACHE_CHILDREN. sh ! c \<longleftrightarrow> sharers (tccArray w k ! l) ! c \<and> c \<notin> set cs)"
proof (induction cs arbitrary: w mx wb sent)
  case Nil
  then show ?case
    by (intro exI [of _ w] exI [of _ mx] exI [of _ "sharers (tccArray w k ! l)"]) simp
next
  case (Cons c cs)
  let ?e = "tccArray w k ! l"
  have c: "c < n" "c < MAX_CACHE_CHILDREN" "c \<notin> set cs" using Cons.prems by auto
  have ge: "get_entry cfg l w = Inr ?e" using k Cons.prems(2) by (simp add: get_entry_def)
  have b: "aget (sharers ?e) c = Inr (view sk a w c \<noteq> I)" using c Cons.prems(5) Cons.prems(7) [of c] by simp
  show ?case
  proof (cases "view sk a w c = I")
    case True
    have step: "tcc_inv_loop invl cfg a l INV cyc src (c # cs) (w, mx, wb, sent) =
        tcc_inv_loop invl cfg a l INV cyc src cs (w, mx, wb, sent)"
      using True ge b by simp
    from Cons.IH [of w mx wb sent] Cons.prems obtain w' mx' sh where
      run: "tcc_inv_loop invl cfg a l INV cyc src cs (w, mx, wb, sent) =
        Inr (w', mx', wb \<or> (\<exists>c \<in> set cs. view sk a w c = M), sent + of_nat (length (filter (\<lambda>c. view sk a w c \<noteq> I) cs)))"
      and R: "wok w'" "mx \<le> mx'" "cref w' = cref w" "bccArray w' k = bccArray w k"
        "cst w' = (\<lambda>c b. if c \<in> set cs \<and> c \<notin> sk \<and> b = a then I else cst w c b)"
        "tccArray w' k = (tccArray w k)[l := ?e\<lparr>sharers := sh\<rparr>]" "length sh = MAX_CACHE_CHILDREN"
      and sh: "\<forall>c < MAX_CACHE_CHILDREN. sh ! c \<longleftrightarrow> sharers ?e ! c \<and> c \<notin> set cs" by auto
    have "(\<exists>d \<in> set (c # cs). view sk a w d = M) = (\<exists>d \<in> set cs. view sk a w d = M)"
      "filter (\<lambda>c. view sk a w c \<noteq> I) (c # cs) = filter (\<lambda>c. view sk a w c \<noteq> I) cs" using True by auto
    with run have run': "tcc_inv_loop invl cfg a l INV cyc src (c # cs) (w, mx, wb, sent) =
        Inr (w', mx', wb \<or> (\<exists>d \<in> set (c # cs). view sk a w d = M), sent + of_nat (length (filter (\<lambda>c. view sk a w c \<noteq> I) (c # cs))))"
      unfolding step by simp
    have C: "cst w' = (\<lambda>d b. if d \<in> set (c # cs) \<and> d \<notin> sk \<and> b = a then I else cst w d b)"
      unfolding R(5) using True by (auto simp: fun_eq_iff view_def split: if_splits)
    have "\<forall>d < MAX_CACHE_CHILDREN. sh ! d \<longleftrightarrow> sharers ?e ! d \<and> d \<notin> set (c # cs)"
      using sh Cons.prems(7) [of c] True by auto
    with run' R(1-4) C R(6,7) show ?thesis by blast
  next
    case False
    let ?q = "\<lparr>inv_lineAddr = a, inv_type = INV, inv_writeback = wb, inv_cycle = cyc, inv_srcId = src\<rparr>"
    have vc: "view sk a w c = cst w c a" "c \<notin> sk" using False by (auto simp: view_def split: if_splits)
    from inv_ok [OF Cons.prems(1) c(1), of ?q a "view sk a w c"] False vc(1) obtain r w1 where
      i: "invl c ?q w = Inr (r, wb \<or> view sk a w c = M, w1)" and w1: "wok w1" "cref w1 = cref w"
        "cst w1 = lower (cst w) c a I" "tccArray w1 k = tccArray w k" "bccArray w1 k = bccArray w k"
      by (auto simp: keeps_top_def)
    have l1: "l < length (tccArray w1 k)" using w1(4) Cons.prems(2) by simp
    from set_entry_ok [OF k l1, of "?e\<lparr>sharers := (sharers ?e)[c := False]\<rparr>"] obtain w2 where
      s: "set_entry cfg l (?e\<lparr>sharers := (sharers ?e)[c := False]\<rparr>) w1 = Inr w2" and w2: "wok w2"
        "cst w2 = lower (cst w) c a I" "cref w2 = cref w" "bccArray w2 k = bccArray w k"
        "tccArray w2 k = (tccArray w k)[l := ?e\<lparr>sharers := (sharers ?e)[c := False]\<rparr>]"
      using w1 by auto
    have e2: "tccArray w2 k ! l = ?e\<lparr>sharers := (sharers ?e)[c := False]\<rparr>"
      using w2(5) Cons.prems(2) by simp
    have rtt: "c < length (childrenRTTs cfg)" using c n by simp
    have ge1: "get_entry cfg l w1 = Inr ?e" using k l1 w1(4) by (simp add: get_entry_def)
    define mx1 where "mx1 = max (r + ucast (childrenRTTs cfg ! c)) mx"
    have step: "tcc_inv_loop invl cfg a l INV cyc src (c # cs) (w, mx, wb, sent) =
        tcc_inv_loop invl cfg a l INV cyc src cs (w2, mx1, wb \<or> view sk a w c = M, sent + 1)"
      using False ge b i rtt ge1 s by (simp add: mx1_def)
    have other: "view sk a w2 d = view sk a w d" if "d \<in> set cs" for d
      using that c(3) w2(2) by (auto simp: lower_apply view_def)
    have bits: "sharers (tccArray w2 k ! l) ! d \<longleftrightarrow> view sk a w2 d \<noteq> I" if "d \<in> set cs" for d
      using that Cons.prems(7) [of d] other [OF that] c(3) unfolding e2
      by (metis Entry.select_convs(2) Entry.surjective Entry.update_convs(2) list.set_intros(2) nth_list_update_neq)
    have P: "l < length (tccArray w2 k)" "length (sharers (tccArray w2 k ! l)) = MAX_CACHE_CHILDREN"
      "set cs \<subseteq> {..<n}" "distinct cs" using w2(5) e2 Cons.prems by auto
    from Cons.IH [OF w2(1) P(1,3,4,2) Cons.prems(6) bits, of mx1 "wb \<or> view sk a w c = M" "sent + 1"] obtain w' mx' sh where
      run: "tcc_inv_loop invl cfg a l INV cyc src cs (w2, mx1, wb \<or> view sk a w c = M, sent + 1) =
        Inr (w', mx', (wb \<or> view sk a w c = M) \<or> (\<exists>c \<in> set cs. view sk a w2 c = M),
             sent + 1 + of_nat (length (filter (\<lambda>c. view sk a w2 c \<noteq> I) cs)))"
      and R: "wok w'" "mx1 \<le> mx'" "cref w' = cref w2" "bccArray w' k = bccArray w2 k"
        "cst w' = (\<lambda>c b. if c \<in> set cs \<and> c \<notin> sk \<and> b = a then I else cst w2 c b)"
        "tccArray w' k = (tccArray w2 k)[l := (tccArray w2 k ! l)\<lparr>sharers := sh\<rparr>]"
        "length sh = MAX_CACHE_CHILDREN"
      and sh: "\<forall>c < MAX_CACHE_CHILDREN. sh ! c \<longleftrightarrow> sharers (tccArray w2 k ! l) ! c \<and> c \<notin> set cs" by blast
    have f: "filter (\<lambda>c. view sk a w2 c \<noteq> I) cs = filter (\<lambda>c. view sk a w c \<noteq> I) cs"
      by (rule filter_cong) (simp_all add: other)
    have m: "(\<exists>d \<in> set cs. view sk a w2 d = M) = (\<exists>d \<in> set cs. view sk a w d = M)" using other by auto
    have "((wb \<or> view sk a w c = M) \<or> (\<exists>d \<in> set cs. view sk a w2 d = M)) = (wb \<or> (\<exists>d \<in> set (c # cs). view sk a w d = M))"
      unfolding m by auto
    moreover have "sent + 1 + of_nat (length (filter (\<lambda>c. view sk a w2 c \<noteq> I) cs)) =
        sent + of_nat (length (filter (\<lambda>c. view sk a w c \<noteq> I) (c # cs)))"
      unfolding f using False by simp
    ultimately have run': "tcc_inv_loop invl cfg a l INV cyc src (c # cs) (w, mx, wb, sent) =
        Inr (w', mx', wb \<or> (\<exists>d \<in> set (c # cs). view sk a w d = M), sent + of_nat (length (filter (\<lambda>c. view sk a w c \<noteq> I) (c # cs))))"
      unfolding step run by simp
    have C: "cst w' = (\<lambda>d b. if d \<in> set (c # cs) \<and> d \<notin> sk \<and> b = a then I else cst w d b)"
      unfolding R(5) w2(2) using vc(2) by (auto simp: fun_eq_iff lower_apply)
    have T: "tccArray w' k = (tccArray w k)[l := ?e\<lparr>sharers := sh\<rparr>]" unfolding R(6) e2 unfolding w2(5) by simp
    have "sharers (tccArray w2 k ! l) ! d = (sharers ?e ! d \<and> d \<noteq> c)" if "d < MAX_CACHE_CHILDREN" for d
      unfolding e2 using that Cons.prems(5) by (cases "d = c") auto
    then have S: "\<forall>d < MAX_CACHE_CHILDREN. sh ! d \<longleftrightarrow> sharers ?e ! d \<and> d \<notin> set (c # cs)"
      using sh by auto
    have "mx \<le> mx'" using R(2) by (auto simp: mx1_def)
    moreover have "cref w' = cref w" "bccArray w' k = bccArray w k" using R(3,4) w2(3,4) by simp_all
    ultimately show ?thesis using run' R(1,7) C T S by blast
  qed
qed

text \<open>A downgrade reaches the only sharer.\<close>

lemma inv_loop_INVX:
  assumes k: "cc_id cfg = k" and n: "length (childrenRTTs cfg) = n" "n \<le> MAX_CACHE_CHILDREN"
  shows "wok w \<Longrightarrow> l < length (tccArray w k) \<Longrightarrow> set cs \<subseteq> {..<n} \<Longrightarrow> distinct cs \<Longrightarrow>
    length (sharers (tccArray w k ! l)) = MAX_CACHE_CHILDREN \<Longrightarrow>
    (\<And>c. c \<in> set cs \<Longrightarrow> sharers (tccArray w k ! l) ! c \<longleftrightarrow> c = x) \<Longrightarrow>
    (x \<in> set cs \<Longrightarrow> cst w x a = E \<or> cst w x a = M) \<Longrightarrow>
    \<exists>w' mx'. tcc_inv_loop invl cfg a l INVX cyc src cs (w, mx, wb, sent) =
        Inr (w', mx', wb \<or> (x \<in> set cs \<and> cst w x a = M), sent + (if x \<in> set cs then 1 else 0)) \<and>
      wok w' \<and> mx \<le> mx' \<and> cref w' = cref w \<and> bccArray w' k = bccArray w k \<and> tccArray w' k = tccArray w k \<and>
      cst w' = (if x \<in> set cs then lower (cst w) x a S else cst w)"
proof (induction cs arbitrary: w mx wb sent)
  case Nil
  then show ?case by simp
next
  case (Cons c cs)
  let ?e = "tccArray w k ! l"
  have c: "c < n" "c < MAX_CACHE_CHILDREN" "c \<notin> set cs" using Cons.prems n by auto
  have ge: "get_entry cfg l w = Inr ?e" using k Cons.prems(2) by (simp add: get_entry_def)
  have b: "aget (sharers ?e) c = Inr (c = x)" using c Cons.prems(5) Cons.prems(6) [of c] by simp
  show ?case
  proof (cases "c = x")
    case False
    have step: "tcc_inv_loop invl cfg a l INVX cyc src (c # cs) (w, mx, wb, sent) =
        tcc_inv_loop invl cfg a l INVX cyc src cs (w, mx, wb, sent)"
      using False ge b by simp
    have "(x \<in> set (c # cs)) = (x \<in> set cs)" using False by auto
    moreover note Cons.IH [of w mx wb sent]
    ultimately show ?thesis unfolding step using Cons.prems by simp
  next
    case True
    let ?q = "\<lparr>inv_lineAddr = a, inv_type = INVX, inv_writeback = wb, inv_cycle = cyc, inv_srcId = src\<rparr>"
    from inv_ok [OF Cons.prems(1) c(1), of ?q a "cst w c a"] True Cons.prems(7) obtain r w1 where
      i: "invl c ?q w = Inr (r, wb \<or> cst w c a = M, w1)" and w1: "wok w1" "cref w1 = cref w"
        "cst w1 = lower (cst w) c a S" "tccArray w1 k = tccArray w k" "bccArray w1 k = bccArray w k"
      by (auto simp: keeps_top_def)
    have rtt: "c < length (childrenRTTs cfg)" using c n by simp
    have l1: "l < length (tccArray w1 k)" using w1(4) Cons.prems(2) by simp
    have ge1: "get_entry cfg l w1 = Inr ?e" using k l1 w1(4) by (simp add: get_entry_def)
    define mx1 where "mx1 = max (r + ucast (childrenRTTs cfg ! c)) mx"
    have step: "tcc_inv_loop invl cfg a l INVX cyc src (c # cs) (w, mx, wb, sent) =
        tcc_inv_loop invl cfg a l INVX cyc src cs (w1, mx1, wb \<or> cst w c a = M, sent + 1)"
      using True ge b i rtt ge1 by (simp add: mx1_def)
    have nx: "x \<notin> set cs" using True c(3) by simp
    have bits: "sharers (tccArray w1 k ! l) ! d \<longleftrightarrow> d = x" if "d \<in> set cs" for d
      using that Cons.prems(6) [of d] w1(4) by simp
    have P: "set cs \<subseteq> {..<n}" "distinct cs" "length (sharers (tccArray w1 k ! l)) = MAX_CACHE_CHILDREN"
      using Cons.prems w1(4) by auto
    from Cons.IH [OF w1(1) l1 P bits, of mx1 "wb \<or> cst w c a = M" "sent + 1"] nx obtain w' mx' where
      run: "tcc_inv_loop invl cfg a l INVX cyc src cs (w1, mx1, wb \<or> cst w c a = M, sent + 1) =
        Inr (w', mx', wb \<or> cst w c a = M, sent + 1)"
      and R: "wok w'" "mx1 \<le> mx'" "cref w' = cref w1" "bccArray w' k = bccArray w1 k"
        "tccArray w' k = tccArray w1 k" "cst w' = cst w1" by auto
    have "mx \<le> mx'" using R(2) by (auto simp: mx1_def)
    then show ?thesis unfolding step using run R w1 True by simp
  qed
qed

lemma count_holders:
  "length (filter (\<lambda>c. f c \<noteq> I) [0..<n]) = card (holders n f)"
proof -
  have "holders n f = set (filter (\<lambda>c. f c \<noteq> I) [0..<n])" by (auto simp: holders_def)
  moreover have "distinct (filter (\<lambda>c. f c \<noteq> I) [0..<n])" by simp
  ultimately show ?thesis using distinct_card by metis
qed

lemma send_INV:
  assumes k: "cc_id cfg = k" and n: "length (childrenRTTs cfg) = n" "n \<le> MAX_CACHE_CHILDREN"
    and w: "wok w" "l < length (tccArray w k)" and d: "dir_entry n (view sk a w) (tccArray w k ! l)"
  shows "\<exists>w' mx e. tcc_sendInvalidates invl cfg a l INV wb cyc src w =
      Inr (mx, wb \<or> (\<exists>c < n. view sk a w c = M), w') \<and> cyc \<le> mx \<and>
    top_step w w' l (upd_line (cst w) a (\<lambda>c. if c < n \<and> c \<notin> sk then I else cst w c a)) e \<and> dir_entry n (\<lambda>_. I) e"
proof -
  let ?e = "tccArray w k ! l" and ?f = "view sk a w" and ?g = "\<lambda>c. if c < n \<and> c \<notin> sk then I else cst w c a"
  have ge: "get_entry cfg l w = Inr ?e" using k w(2) by (simp add: get_entry_def)
  show ?thesis
  proof (cases "Entry_isEmpty ?e")
    case True
    then have I: "\<And>c. c < n \<Longrightarrow> view sk a w c = I" using dir_entry_empty [OF d] by (auto simp: holders_def)
    have "(if c < n \<and> c \<notin> sk then I else cst w c a) = cst w c a" for c
      using I [of c] by (auto simp: view_def split: if_splits)
    then have "upd_line (cst w) a (\<lambda>c. if c < n \<and> c \<notin> sk then I else cst w c a) = cst w" by (simp add: upd_line_def fun_eq_iff)
    moreover have "dir_entry n (\<lambda>_. I) ?e" using d I by (simp add: dir_entry_def holders_def)
    ultimately have "top_step w w l (upd_line (cst w) a (\<lambda>c. if c < n \<and> c \<notin> sk then I else cst w c a)) ?e \<and> dir_entry n (\<lambda>_. I) ?e"
      using w by (simp add: top_step_def)
    moreover have "tcc_sendInvalidates invl cfg a l INV wb cyc src w = Inr (cyc, wb \<or> (\<exists>c < n. view sk a w c = M), w)"
      using True ge I by (auto simp: tcc_sendInvalidates_def)
    ultimately show ?thesis by blast
  next
    case False
    have len: "length (sharers ?e) = MAX_CACHE_CHILDREN" and bits: "\<And>c. c < n \<Longrightarrow> sharers ?e ! c \<longleftrightarrow> view sk a w c \<noteq> I"
      and bits2: "\<And>c. n \<le> c \<Longrightarrow> c < MAX_CACHE_CHILDREN \<Longrightarrow> \<not> sharers ?e ! c"
      using d n(2) by (auto simp: dir_entry_def holders_def)
    have bits': "\<And>c. c \<in> set [0..<n] \<Longrightarrow> sharers ?e ! c \<longleftrightarrow> view sk a w c \<noteq> I" using bits by simp
    have sub: "set [0..<n] \<subseteq> {..<n}" by auto
    from inv_loop_INV [OF k n(1) w sub distinct_upt len n(2) bits', of cyc src cyc wb 0] obtain w1 mx sh where
      run: "tcc_inv_loop invl cfg a l INV cyc src [0..<n] (w, cyc, wb, 0) =
        Inr (w1, mx, wb \<or> (\<exists>c \<in> set [0..<n]. view sk a w c = M), 0 + of_nat (length (filter (\<lambda>c. view sk a w c \<noteq> I) [0..<n])))"
      and R: "wok w1" "cyc \<le> mx" "cref w1 = cref w" "bccArray w1 k = bccArray w k"
        "cst w1 = (\<lambda>c b. if c \<in> set [0..<n] \<and> c \<notin> sk \<and> b = a then I else cst w c b)"
        "tccArray w1 k = (tccArray w k)[l := ?e\<lparr>sharers := sh\<rparr>]" "length sh = MAX_CACHE_CHILDREN"
      and sh: "\<forall>c < MAX_CACHE_CHILDREN. sh ! c \<longleftrightarrow> sharers ?e ! c \<and> c \<notin> set [0..<n]" by blast
    let ?e1 = "?e\<lparr>sharers := sh\<rparr>"
    have l1: "l < length (tccArray w1 k)" using R(6) w(2) by simp
    have ge1: "get_entry cfg l w1 = Inr ?e1" using k l1 R(6) w(2) by (simp add: get_entry_def)
    have "unat (numSharers ?e) = length (filter (\<lambda>c. view sk a w c \<noteq> I) [0..<n])"
      using d unfolding dir_entry_def count_holders by blast
    moreover have "of_nat (unat (numSharers ?e)) = numSharers ?e" by simp
    ultimately have sent: "0 + of_nat (length (filter (\<lambda>c. view sk a w c \<noteq> I) [0..<n])) = numSharers ?e"
      by simp
    from set_entry_ok [OF k l1, of "?e1\<lparr>numSharers := 0\<rparr>"] obtain w2 where
      s: "set_entry cfg l (?e1\<lparr>numSharers := 0\<rparr>) w1 = Inr w2" and w2: "wok w2" "cst w2 = cst w1" "cref w2 = cref w1"
        "bccArray w2 = bccArray w1" "tccArray w2 k = (tccArray w1 k)[l := ?e1\<lparr>numSharers := 0\<rparr>]"
      using R(1) by auto
    have "tcc_sendInvalidates invl cfg a l INV wb cyc src w = Inr (mx, wb \<or> (\<exists>c < n. view sk a w c = M), w2)"
      using False ge run ge1 sent s n(1) by (auto simp: tcc_sendInvalidates_def)
    moreover have "top_step w w2 l (upd_line (cst w) a (\<lambda>c. if c < n \<and> c \<notin> sk then I else cst w c a)) (?e1\<lparr>numSharers := 0\<rparr>)"
      using R w2 by (auto simp: top_step_def upd_line_def fun_eq_iff)
    moreover have "dir_entry n (\<lambda>_. I) (?e1\<lparr>numSharers := 0\<rparr>)"
      using R(7) sh bits2 by (auto simp: dir_entry_def holders_def not_less)
    ultimately show ?thesis using R(2) by blast
  qed
qed

text \<open>The downgraded states of a line.\<close>

definition shared :: "(nat \<Rightarrow> MESIState) \<Rightarrow> nat \<Rightarrow> MESIState" where
  "shared g c = (if c < n \<and> (g c = E \<or> g c = M) then S else g c)"

lemma send_INVX:
  assumes k: "cc_id cfg = k" and n: "length (childrenRTTs cfg) = n" "n \<le> MAX_CACHE_CHILDREN"
    and w: "wok w" "l < length (tccArray w k)" and d: "dir_entry n (view {} a w) (tccArray w k ! l)"
  shows "\<exists>w' mx e. tcc_sendInvalidates invl cfg a l INVX wb cyc src w =
      Inr (mx, wb \<or> (\<exists>c < n. cst w c a = M), w') \<and> cyc \<le> mx \<and>
    top_step w w' l (upd_line (cst w) a (shared (view {} a w))) e \<and>
    dir_entry n (shared (view {} a w)) e \<and> \<not> Entry_isExclusive e"
proof -
  let ?e = "tccArray w k ! l" and ?g = "view {} a w"
  have ge: "get_entry cfg l w = Inr ?e" using k w(2) by (simp add: get_entry_def)
  have g: "?g c = cst w c a" for c by (simp add: view_def)
  show ?thesis
  proof (cases "Entry_isExclusive ?e")
    case False
    then have no: "\<forall>c < n. \<not> (?g c = E \<or> ?g c = M)" using dir_entry_exclusive [OF d] by blast
    then have sg: "shared ?g = ?g" by (auto simp: shared_def fun_eq_iff)
    have "top_step w w l (upd_line (cst w) a ?g) ?e"
      using w g by (auto simp: top_step_def upd_line_def fun_eq_iff)
    then have "top_step w w l (upd_line (cst w) a (shared ?g)) ?e \<and> dir_entry n (shared ?g) ?e"
      using d unfolding sg by blast
    moreover have "tcc_sendInvalidates invl cfg a l INVX wb cyc src w = Inr (cyc, wb \<or> (\<exists>c < n. cst w c a = M), w)"
      using False ge no g by (auto simp: tcc_sendInvalidates_def)
    ultimately show ?thesis using False by blast
  next
    case True
    then obtain x where x: "x < n" "cst w x a = E \<or> cst w x a = M" using dir_entry_exclusive [OF d] g by auto
    have e1: "numSharers ?e = 1" "exclusive ?e" using True by (auto simp: Entry_isExclusive_def)
    have len: "length (sharers ?e) = MAX_CACHE_CHILDREN" using d by (simp add: dir_entry_def)
    have others: "cst w c a = I" if "c < n" "c \<noteq> x" for c
      using dir_entry_swmr [OF d] that x unfolding swmr_def g by blast
    have sub: "set [0..<n] \<subseteq> {..<n}" by auto
    have bits: "sharers ?e ! c \<longleftrightarrow> c = x" if "c \<in> set [0..<n]" for c
      using that d n(2) others [of c] x g by (auto simp: dir_entry_def holders_def)
    have xs: "x \<in> set [0..<n]" using x(1) by simp
    from inv_loop_INVX [OF k n w sub distinct_upt len bits x(2), of cyc src cyc wb 0] xs obtain w1 mx where
      run: "tcc_inv_loop invl cfg a l INVX cyc src [0..<n] (w, cyc, wb, 0) = Inr (w1, mx, wb \<or> cst w x a = M, 0 + 1)"
      and R: "wok w1" "cyc \<le> mx" "cref w1 = cref w" "bccArray w1 k = bccArray w k" "tccArray w1 k = tccArray w k"
        "cst w1 = lower (cst w) x a S" by auto
    have l1: "l < length (tccArray w1 k)" using R(5) w(2) by simp
    have ge1: "get_entry cfg l w1 = Inr ?e" using k l1 R(5) by (simp add: get_entry_def)
    from set_entry_ok [OF k l1, of "?e\<lparr>exclusive := False\<rparr>"] obtain w2 where
      s: "set_entry cfg l (?e\<lparr>exclusive := False\<rparr>) w1 = Inr w2" and w2: "wok w2" "cst w2 = cst w1" "cref w2 = cref w1"
        "bccArray w2 = bccArray w1" "tccArray w2 k = (tccArray w1 k)[l := ?e\<lparr>exclusive := False\<rparr>]"
      using R(1) by auto
    have ne: "\<not> Entry_isEmpty ?e" using e1 by (simp add: Entry_isEmpty_def)
    have wbeq: "(wb \<or> cst w x a = M) = (wb \<or> (\<exists>c < n. cst w c a = M))"
      using others x(1) by (metis MESIState.distinct(5))
    have "tcc_sendInvalidates invl cfg a l INVX wb cyc src w = Inr (mx, wb \<or> (\<exists>c < n. cst w c a = M), w2)"
      unfolding wbeq [symmetric] using True ne ge run ge1 s n(1) e1 by (simp add: tcc_sendInvalidates_def)
    moreover have "shared ?g c = (?g(x := S)) c" for c
      using x others [of c] g by (cases "c = x"; cases "c < n") (auto simp: shared_def)
    then have sg: "shared ?g = ?g(x := S)" by (rule ext)
    have "top_step w w2 l (upd_line (cst w) a (shared ?g)) (?e\<lparr>exclusive := False\<rparr>)"
      unfolding sg using R w2 by (auto simp: top_step_def upd_line_def lower_def fun_eq_iff view_def)
    moreover have "dir_entry n (shared ?g) (?e\<lparr>exclusive := False\<rparr>)"
    proof -
      have h: "holders n (shared ?g) = holders n ?g" unfolding sg using x g by (auto simp: holders_def)
      have "\<forall>c < n. shared ?g c \<noteq> E \<and> shared ?g c \<noteq> M" by (simp add: shared_def)
      then show ?thesis using d unfolding dir_entry_def h by auto
    qed
    moreover have "\<not> Entry_isExclusive (?e\<lparr>exclusive := False\<rparr>)" by (simp add: Entry_isExclusive_def)
    ultimately show ?thesis using R(2) by blast
  qed
qed

lemma upd_line_lower: "lower f ch a s = upd_line f a ((\<lambda>c. f c a)(ch := s))"
  by (auto simp: lower_def upd_line_def fun_eq_iff)

lemma lower_upd_line: "lower (upd_line f a g) ch a s = upd_line f a (g(ch := s))"
  by (auto simp: lower_def upd_line_def fun_eq_iff)

lemma top_step_pointer:
  assumes w: "top_step w w1 l f e" "cref w ch a p" "ch < n"
  shows "\<exists>w2. set_st p s w1 = Inr w2 \<and> top_step w w2 l (lower f ch a s) e"
proof -
  have "wok w1" "cref w1 ch a p" using w by (auto simp: top_step_def)
  from set_ok [OF this(1) w(3) this(2), of s] w(1) show ?thesis
    by (auto simp: top_step_def keeps_top_def)
qed

lemma top_step_entry:
  assumes "top_step w w1 l f e" "cc_id cfg = k" "l < length (tccArray w k)"
  shows "get_entry cfg l w1 = Inr e" and "\<exists>w2. set_entry cfg l e' w1 = Inr w2 \<and> top_step w w2 l f e'"
proof -
  have l1: "l < length (tccArray w1 k)" using assms by (auto simp: top_step_def)
  show "get_entry cfg l w1 = Inr e" using assms l1 by (auto simp: get_entry_def top_step_def)
  show "\<exists>w2. set_entry cfg l e' w1 = Inr w2 \<and> top_step w w2 l f e'"
    using set_entry_ok [OF assms(2) l1, of e'] assms by (auto simp: top_step_def)
qed

lemma top_step_refl: "wok w \<Longrightarrow> top_step w w l (cst w) (tccArray w k ! l)"
  by (simp add: top_step_def)

lemma remove_sharer_ok:
  assumes k: "cc_id cfg = k" and n: "n \<le> MAX_CACHE_CHILDREN"
    and w: "wok w" "l < length (tccArray w k)" and d: "dir_entry n (\<lambda>c. cst w c a) (tccArray w k ! l)"
    and c: "ch < n" "cref w ch a p" "cst w ch a \<noteq> I"
  shows "\<exists>w' e. tcc_remove_sharer cfg l ch p w = Inr w' \<and>
    top_step w w' l (upd_line (cst w) a ((\<lambda>c. cst w c a)(ch := I))) e \<and> dir_entry n ((\<lambda>c. cst w c a)(ch := I)) e"
proof -
  let ?e = "tccArray w k ! l"
  let ?e' = "?e\<lparr>sharers := (sharers ?e)[ch := False], numSharers := numSharers ?e - 1\<rparr>"
  note t = top_step_entry [OF top_step_refl [OF w(1)] k w(2)]
  obtain w1 where w1: "set_entry cfg l ?e' w = Inr w1" "top_step w w1 l (cst w) ?e'" using t(2) by blast
  obtain w2 where w2: "set_st p I w1 = Inr w2" "top_step w w2 l (lower (cst w) ch a I) ?e'"
    using top_step_pointer [OF w1(2) c(2,1)] by blast
  have "tcc_remove_sharer cfg l ch p w = Inr w2"
    using t(1) dir_entry_bit [OF d c(1) n] c(3) w1(1) w2(1) by (simp add: tcc_remove_sharer_def)
  moreover have "dir_entry n ((\<lambda>c. cst w c a)(ch := I)) ?e'" by (rule dir_entry_remove [OF d c(1,3) n])
  ultimately show ?thesis using w2(2) unfolding upd_line_lower by blast
qed

text \<open>Every access the protocol allows is served, and is the abstract transition.\<close>

lemma top_access_ok:
  assumes k: "cc_id cfg = k" and n: "length (childrenRTTs cfg) = n" "n \<le> MAX_CACHE_CHILDREN"
    and w: "wok w" "l < length (tccArray w k)" and d: "dir_entry n (\<lambda>c. cst w c a) (tccArray w k ! l)"
    and c: "ch < n" "cref w ch a p" and legal: "access_legal ty (cst w ch a) he"
  shows "\<exists>w' r e. tcc_processAccess invl cfg a l ty ch he p wb cyc src fl w =
      Inr (r, wb \<or> ((ty = GETS \<or> ty = GETX) \<and> (\<exists>c < n. cst w c a = M)), w') \<and> cyc \<le> r \<and>
    top_step w w' l (upd_line (cst w) a (line_next n ty ch he fl (\<lambda>c. cst w c a))) e \<and>
    dir_entry n (line_next n ty ch he fl (\<lambda>c. cst w c a)) e"
proof -
  let ?e = "tccArray w k ! l" and ?g = "\<lambda>c. cst w c a"
  note t = top_step_entry [OF top_step_refl [OF w(1)] k w(2)]
  note bit = dir_entry_bit [OF d c(1) n(2)]
  have len: "length (sharers ?e) = MAX_CACHE_CHILDREN" "ch < MAX_CACHE_CHILDREN"
    using d c(1) n(2) by (auto simp: dir_entry_def)
  have gv: "view {} a w = ?g" by (simp add: view_def fun_eq_iff)
  show ?thesis
  proof (cases ty)
    case PUTS
    then have "cst w ch a \<noteq> I" using legal by (simp add: access_legal_def)
    from remove_sharer_ok [OF k n(2) w d c this] show ?thesis
      using PUTS t(1) by (auto simp: tcc_processAccess_def line_next_def)
  next
    case PUTX
    then have s: "cst w ch a = M" using legal by (simp add: access_legal_def)
    then have ex: "Entry_isExclusive ?e" using dir_entry_exclusive [OF d] c(1) by blast
    show ?thesis
    proof (cases "fl AND PUTX_KEEPEXCL = 0")
      case True
      from remove_sharer_ok [OF k n(2) w d c] s obtain w' e where
        "tcc_remove_sharer cfg l ch p w = Inr w'" "top_step w w' l (upd_line (cst w) a (?g(ch := I))) e"
        "dir_entry n (?g(ch := I)) e" by auto
      then show ?thesis using PUTX t(1) ex True by (auto simp: tcc_processAccess_def line_next_def)
    next
      case False
      obtain w' where w': "set_st p E w = Inr w'" "top_step w w' l (lower (cst w) ch a E) ?e"
        using top_step_pointer [OF top_step_refl [OF w(1)] c(2,1)] by blast
      have h: "holders n (?g(ch := E)) = holders n ?g" using s by (auto simp: holders_def)
      have o: "cst w b a = I" if "b < n" "b \<noteq> ch" for b
        using dir_entry_swmr [OF d] that s c(1) unfolding swmr_def by blast
      have "exclusive ?e" using ex by (simp add: Entry_isExclusive_def)
      then have "\<forall>b < n. (?g(ch := E)) b \<noteq> I \<longrightarrow> (exclusive ?e \<longleftrightarrow> (?g(ch := E)) b = E \<or> (?g(ch := E)) b = M)"
        using o by simp
      then have "dir_entry n (?g(ch := E)) ?e" using d unfolding dir_entry_def h by blast
      moreover have "tcc_processAccess invl cfg a l ty ch he p wb cyc src fl w = Inr (cyc, wb, w')"
        using PUTX t(1) ex False w'(1) bit s get_ok [OF w(1) c] by (simp add: tcc_processAccess_def)
      ultimately show ?thesis using w'(2) PUTX False unfolding upd_line_lower
        by (auto simp: line_next_def)
    qed
  next
    case GETS
    then have s: "cst w ch a = I" using legal by (simp add: access_legal_def)
    show ?thesis
    proof (cases "he \<and> fl AND NOEXCL = 0 \<and> (\<forall>c < n. ?g c = I)")
      case True
      then have em: "Entry_isEmpty ?e" "holders n ?g = {}" using dir_entry_empty [OF d] by (auto simp: holders_def)
      let ?e' = "?e\<lparr>exclusive := True, sharers := (sharers ?e)[ch := True], numSharers := 1\<rparr>"
      obtain w1 where w1: "set_entry cfg l ?e' w = Inr w1" "top_step w w1 l (cst w) ?e'" using t(2) by blast
      obtain w2 where w2: "set_st p E w1 = Inr w2" "top_step w w2 l (lower (cst w) ch a E) ?e'"
        using top_step_pointer [OF w1(2) c(2,1)] by blast
      have run: "tcc_processAccess invl cfg a l ty ch he p wb cyc src fl w = Inr (cyc, wb, w2)"
        using GETS True t(1) em len w1(1) w2(1) by (simp add: tcc_processAccess_def)
      have "numSharers ?e = 0" using em by (simp add: Entry_isEmpty_def)
      then have "?e' = ?e\<lparr>sharers := (sharers ?e)[ch := True], numSharers := numSharers ?e + 1, exclusive := True\<rparr>"
        by simp
      moreover have "dir_entry n (?g(ch := E)) (?e\<lparr>sharers := (sharers ?e)[ch := True], numSharers := numSharers ?e + 1, exclusive := True\<rparr>)"
        by (rule dir_entry_add [OF d c(1) s _ n(2)]) (use em in auto)
      ultimately have "dir_entry n (?g(ch := E)) ?e'" by simp
      moreover have "line_next n ty ch he fl ?g = ?g(ch := E)" using GETS True by (simp add: line_next_def)
      moreover have "\<not> (\<exists>c < n. cst w c a = M)" using True by auto
      ultimately show ?thesis using run w2(2) unfolding upd_line_lower by auto
    next
      case False
      have nx: "\<exists>w1 r e1. (if Entry_isExclusive ?e then tcc_sendInvalidates invl cfg a l INVX wb cyc src w else Inr (cyc, wb, w)) =
          Inr (r, wb \<or> (\<exists>c < n. cst w c a = M), w1) \<and> cyc \<le> r \<and> top_step w w1 l (upd_line (cst w) a (shared ?g)) e1 \<and>
          dir_entry n (shared ?g) e1 \<and> \<not> Entry_isExclusive e1"
      proof (cases "Entry_isExclusive ?e")
        case True
        then show ?thesis using send_INVX [OF k n w, of a wb cyc src] d unfolding gv by auto
      next
        case nex: False
        then have no: "\<forall>c < n. \<not> (?g c = E \<or> ?g c = M)" using dir_entry_exclusive [OF d] by blast
        then have sg: "shared ?g = ?g" by (auto simp: shared_def fun_eq_iff)
        have "upd_line (cst w) a ?g = cst w" by (auto simp: upd_line_def fun_eq_iff)
        then show ?thesis using nex no d top_step_refl [OF w(1), of l] unfolding sg by auto
      qed
      then obtain w1 r e1 where r1: "(if Entry_isExclusive ?e then tcc_sendInvalidates invl cfg a l INVX wb cyc src w else Inr (cyc, wb, w)) =
          Inr (r, wb \<or> (\<exists>c < n. cst w c a = M), w1)" "cyc \<le> r" "top_step w w1 l (upd_line (cst w) a (shared ?g)) e1"
          "dir_entry n (shared ?g) e1" "\<not> Entry_isExclusive e1" by blast
      let ?e' = "e1\<lparr>sharers := (sharers e1)[ch := True], numSharers := numSharers e1 + 1, exclusive := False\<rparr>"
      obtain w2 where w2: "set_entry cfg l ?e' w1 = Inr w2" "top_step w w2 l (upd_line (cst w) a (shared ?g)) ?e'"
        using top_step_entry(2) [OF r1(3) k w(2)] by blast
      obtain w3 where w3: "set_st p S w2 = Inr w3" "top_step w w3 l (lower (upd_line (cst w) a (shared ?g)) ch a S) ?e'"
        using top_step_pointer [OF w2(2) c(2,1)] by blast
      have len1: "length (sharers e1) = MAX_CACHE_CHILDREN" using r1(4) by (simp add: dir_entry_def)
      have ne: "(Entry_isEmpty ?e \<and> he \<and> fl AND NOEXCL = 0) = False"
        using False dir_entry_empty [OF d] by (auto simp: holders_def)
      have run: "tcc_processAccess invl cfg a l ty ch he p wb cyc src fl w = Inr (r, wb \<or> (\<exists>c < n. cst w c a = M), w3)"
        using GETS ne t(1) bit s r1(1,5) top_step_entry(1) [OF r1(3) k w(2)] len1 len(2) w2(1) w3(1)
        by (simp add: tcc_processAccess_def) blast
      have "dir_entry n ((shared ?g)(ch := S)) ?e'"
        by (rule dir_entry_add [OF r1(4) c(1) _ _ n(2)]) (use s in \<open>auto simp: shared_def\<close>)
      moreover have "line_next n ty ch he fl ?g = (shared ?g)(ch := S)"
        unfolding GETS line_next_def using False by (auto simp: shared_def fun_eq_iff)
      ultimately show ?thesis using run w3(2) r1(2) GETS unfolding lower_upd_line by auto
    qed
  next
    case GETX
    then have s: "cst w ch a = I \<or> cst w ch a = S" and he: he using legal by (auto simp: access_legal_def)
    let ?v = "view {ch} a w"
    have vg: "?v = ?g(ch := I)" by (auto simp: view_def fun_eq_iff)
    let ?e1 = "if cst w ch a = I then ?e else ?e\<lparr>sharers := (sharers ?e)[ch := False], numSharers := numSharers ?e - 1\<rparr>"
    have d1: "dir_entry n ?v ?e1"
    proof (cases "cst w ch a = I")
      case True
      then have "?v = ?g" by (auto simp: view_def fun_eq_iff)
      then show ?thesis using d True by simp
    qed (use dir_entry_remove [OF d c(1) _ n(2)] vg in simp)
    obtain w1 where w1: "(if cst w ch a \<noteq> I then set_entry cfg l ?e1 w else Inr w) = Inr w1" "top_step w w1 l (cst w) ?e1"
      using t(2) [of ?e1] top_step_refl [OF w(1), of l] by (cases "cst w ch a = I") auto
    have nex: "cst w ch a = S \<Longrightarrow> \<not> Entry_isExclusive ?e"
      using dir_entry_swmr [OF d] dir_entry_exclusive [OF d] c(1)
      unfolding swmr_def by (metis MESIState.distinct(1,7,9))
    have w1': "wok w1" "l < length (tccArray w1 k)" "cst w1 = cst w" "tccArray w1 k ! l = ?e1"
      using w1(2) w(2) by (auto simp: top_step_def)
    have v1: "view {ch} a w1 = ?v" using w1'(3) by (simp add: view_def fun_eq_iff)
    from send_INV [OF k n w1'(1,2), of "{ch}" a wb cyc src] d1 obtain w2 r e2 where
      s2: "tcc_sendInvalidates invl cfg a l INV wb cyc src w1 = Inr (r, wb \<or> (\<exists>c < n. ?v c = M), w2)" "cyc \<le> r"
        "top_step w1 w2 l (upd_line (cst w) a (\<lambda>c. if c < n \<and> c \<notin> {ch} then I else cst w c a)) e2" "dir_entry n (\<lambda>_. I) e2"
      unfolding v1 w1'(3,4) by blast
    let ?f = "upd_line (cst w) a (\<lambda>c. if c < n \<and> c \<noteq> ch then I else cst w c a)"
    have ts: "top_step w w2 l ?f e2" using s2(3) w1(2) by (auto simp: top_step_def)
    let ?e' = "e2\<lparr>sharers := (sharers e2)[ch := True], numSharers := numSharers e2 + 1, exclusive := True\<rparr>"
    obtain w3 where w3: "set_entry cfg l ?e' w2 = Inr w3" "top_step w w3 l ?f ?e'"
      using top_step_entry(2) [OF ts k w(2)] by blast
    obtain w4 where w4: "set_st p M w3 = Inr w4" "top_step w w4 l (lower ?f ch a M) ?e'"
      using top_step_pointer [OF w3(2) c(2,1)] by blast
    have e2: "length (sharers e2) = MAX_CACHE_CHILDREN" "numSharers e2 = 0"
      using s2(4) by (auto simp: dir_entry_def holders_def unat_eq_0)
    have "?v c = M \<longleftrightarrow> cst w c a = M" for c using s by (auto simp: view_def)
    then have M: "(\<exists>c < n. ?v c = M) = (\<exists>c < n. cst w c a = M)" by simp
    have run: "tcc_processAccess invl cfg a l ty ch he p wb cyc src fl w = Inr (r, wb \<or> (\<exists>c < n. ?v c = M), w4)"
      using GETX he t(1) bit nex s w1(1) s2(1) top_step_entry(1) [OF ts k w(2)] e2 len(2) w3(1) w4(1)
      by (auto simp: tcc_processAccess_def split: if_splits)
    have "dir_entry n ((\<lambda>_. I)(ch := M)) ?e'"
      by (rule dir_entry_add [OF s2(4) c(1) _ _ n(2)]) (auto simp: holders_def)
    moreover have LN: "line_next n ty ch he fl ?g c = ((\<lambda>_. I)(ch := M)) c" if "c < n" for c
      using that GETX by (auto simp: line_next_def)
    moreover have "holders n (line_next n ty ch he fl ?g) = holders n ((\<lambda>_. I)(ch := M))"
      using LN unfolding holders_def by (metis (no_types, lifting))
    ultimately have "dir_entry n (line_next n ty ch he fl ?g) ?e'" unfolding dir_entry_def by auto
    moreover have "lower ?f ch a M = upd_line (cst w) a (line_next n ty ch he fl ?g)"
      using GETX c(1) by (auto simp: lower_def upd_line_def line_next_def fun_eq_iff)
    ultimately show ?thesis using run w4(2) s2(2) GETX M by auto
  qed
qed

end

end
