(* ===== verification/Caches.thy ===== *)
theory Caches
  imports Directory
begin

text \<open>
  The cache (cache.h, cache.cpp) around its tag array and its coherence controller.  The shared
  state of the controllers grows by the arrays: \<open>arrays w k\<close> is the array of cache \<open>k\<close>.  The array is
  a method table \<open>CacheArray\<close> over its own state, as in the code; the controllers' calls into
  \<open>processInv\<close> are an argument.

  A child with a terminal controller obeys the invalidations of its parent: any array that keeps the
  \<open>cache_array\<close> contract makes the caches over it \<open>child_caches\<close>.
\<close>

record ('s) CacheArray =
  ca_lookup :: "u64 \<Rightarrow> MemReq \<Rightarrow> bool \<Rightarrow> 's \<Rightarrow> (nat option \<times> 's) res"
  ca_preinsert :: "ccinfo \<Rightarrow> u64 \<Rightarrow> MemReq \<Rightarrow> 's \<Rightarrow> (nat \<times> u64 \<times> 's) res"
  ca_postinsert :: "u64 \<Rightarrow> MemReq \<Rightarrow> nat \<Rightarrow> 's \<Rightarrow> 's res"

record 's cworld = coh +
  arrays :: "nat \<Rightarrow> 's"

text \<open>An array reads the request only to update the replacement policy; an invalidation looks up with
  a null request and without the update.\<close>

definition null_req :: MemReq where
  "null_req = req_of 0"

lemma sa_lookup_req: "sa_lookup rp hf a q False s = sa_lookup rp hf a q' False s"
  by (simp add: sa_lookup_def cong: option.case_cong)

definition Cache_lookup ::
  "('s CacheArray) \<Rightarrow> nat \<Rightarrow> u64 \<Rightarrow> MemReq \<Rightarrow> bool \<Rightarrow> ('s, 'x) cworld_scheme \<Rightarrow>
   (nat option \<times> ('s, 'x) cworld_scheme) res" where
  "Cache_lookup ca k a q upd w =
     rbind (ca_lookup ca a q upd (arrays w k)) (\<lambda>(l, s). Inr (l, w\<lparr>arrays := (arrays w)(k := s)\<rparr>))"

definition Cache_finishInvalidate ::
  "'s CacheArray \<Rightarrow> nat \<Rightarrow> u32 \<Rightarrow>
   (InvReq \<Rightarrow> nat \<Rightarrow> u64 \<Rightarrow> ('s, 'x) cworld_scheme \<Rightarrow> (u64 \<times> bool \<times> ('s, 'x) cworld_scheme) res) \<Rightarrow>
   InvReq \<Rightarrow> ('s, 'x) cworld_scheme \<Rightarrow> (u64 \<times> bool \<times> ('s, 'x) cworld_scheme) res" where
  "Cache_finishInvalidate ca k invLat pinv q w =
     rbind (Cache_lookup ca k (inv_lineAddr q) null_req False w) (\<lambda>(line, w1).
       case line of None \<Rightarrow> Inl AssertFailed
       | Some l \<Rightarrow> pinv q l (inv_cycle q + ucast invLat) w1)"

text \<open>The invalidation handler of child \<open>c\<close>, a cache with a terminal controller.\<close>

definition term_invalidate ::
  "'s CacheArray \<Rightarrow> (nat \<Rightarrow> cc_cfg) \<Rightarrow> u32 \<Rightarrow> nat \<Rightarrow> InvReq \<Rightarrow> ('s, 'x) cworld_scheme \<Rightarrow>
   (u64 \<times> bool \<times> ('s, 'x) cworld_scheme) res" where
  "term_invalidate ca kcfg invLat c q w =
     Cache_finishInvalidate ca (cc_id (kcfg c)) invLat (term_processInv (kcfg c)) q w"

subsection \<open>States of the children's lines\<close>

definition line_state :: "('s \<Rightarrow> u64 list) \<Rightarrow> nat \<Rightarrow> ('s, 'x) cworld_scheme \<Rightarrow> u64 \<Rightarrow> MESIState" where
  "line_state tags k w a = (case arr_holds (tags (arrays w k)) a of None \<Rightarrow> I | Some l \<Rightarrow> bccArray w k ! l)"

definition kid_state ::
  "('s \<Rightarrow> u64 list) \<Rightarrow> (nat \<Rightarrow> cc_cfg) \<Rightarrow> nat \<Rightarrow> ('s, 'x) cworld_scheme \<Rightarrow> nat \<Rightarrow> u64 \<Rightarrow> MESIState" where
  "kid_state tags kcfg n w c a = (if c < n then line_state tags (cc_id (kcfg c)) w a else I)"

definition kid_ref ::
  "('s \<Rightarrow> u64 list) \<Rightarrow> (nat \<Rightarrow> cc_cfg) \<Rightarrow> ('s, 'x) cworld_scheme \<Rightarrow> nat \<Rightarrow> u64 \<Rightarrow> stateRef \<Rightarrow> bool" where
  "kid_ref tags kcfg w c a p \<longleftrightarrow>
     (\<exists>l. arr_holds (tags (arrays w (cc_id (kcfg c)))) a = Some l \<and> p = LineState (cc_id (kcfg c)) l)"

definition kids_ok ::
  "('s \<Rightarrow> u64 list) \<Rightarrow> ('s \<Rightarrow> bool) \<Rightarrow> (nat \<Rightarrow> cc_cfg) \<Rightarrow> nat \<Rightarrow> nat \<Rightarrow> ('s, 'x) cworld_scheme \<Rightarrow> bool" where
  "kids_ok tags aok kcfg k n w \<longleftrightarrow>
     (\<forall>c < n. \<forall>d < n. cc_id (kcfg c) = cc_id (kcfg d) \<longrightarrow> c = d) \<and>
     (\<forall>c < n. cc_id (kcfg c) \<noteq> k \<and> aok (arrays w (cc_id (kcfg c))) \<and>
        length (bccArray w (cc_id (kcfg c))) = length (tags (arrays w (cc_id (kcfg c)))))"

context cache_array begin

text \<open>Writing the state of the line a child holds for an address.\<close>

lemma kid_set_line:
  assumes ok: "kids_ok tags inv kcfg k n w" and c: "c < n"
    and l: "arr_holds (tags (arrays w (cc_id (kcfg c)))) a = Some l"
    and w': "bccArray w' = (bccArray w)(cc_id (kcfg c) := (bccArray w (cc_id (kcfg c)))[l := s])" "tccArray w' = tccArray w"
    and f: "\<And>b. tags (arrays w' b) = tags (arrays w b)" "\<And>b. inv (arrays w b) \<Longrightarrow> inv (arrays w' b)"
  shows "kids_ok tags inv kcfg k n w'" and "kid_ref tags kcfg w' = kid_ref tags kcfg w"
    and "kid_state tags kcfg n w' = lower (kid_state tags kcfg n w) c a s" and "keeps_top k w w'"
proof -
  let ?i = "cc_id (kcfg c)"
  show "kids_ok tags inv kcfg k n w'" using ok f w' by (auto simp: kids_ok_def)
  show "kid_ref tags kcfg w' = kid_ref tags kcfg w" by (simp add: kid_ref_def f(1) fun_eq_iff)
  have i: "?i \<noteq> k" "inv (arrays w ?i)" "length (bccArray w ?i) = length (tags (arrays w ?i))"
    using ok c by (auto simp: kids_ok_def)
  show "keeps_top k w w'" using i(1) w' by (simp add: keeps_top_def)
  have d: "arr_distinct (tags (arrays w ?i))" by (rule inv_distinct [OF i(2)])
  have ll: "l < length (bccArray w ?i)" using l i(3) arr_holds_Some [OF d] by simp
  have "kid_state tags kcfg n w' b x = lower (kid_state tags kcfg n w) c a s b x" for b x
  proof (cases "b = c")
    case True
    have "arr_holds (tags (arrays w ?i)) x = Some l \<longleftrightarrow> x = a"
      using l arr_holds_Some [OF d] by metis
    then show ?thesis using True c ll l w'
      by (auto simp: kid_state_def line_state_def f(1) lower_apply nth_list_update split: option.splits)
  next
    case False
    then have "b < n \<Longrightarrow> cc_id (kcfg b) \<noteq> ?i" using ok c by (auto simp: kids_ok_def)
    then show ?thesis using False w'
      by (auto simp: kid_state_def line_state_def f(1) lower_apply split: option.splits)
  qed
  then show "kid_state tags kcfg n w' = lower (kid_state tags kcfg n w) c a s" by (intro ext)
qed

definition tbl :: "'s CacheArray" where
  "tbl = \<lparr>ca_lookup = lookup, ca_preinsert = preinsert, ca_postinsert = postinsert\<rparr>"

lemma term_invalidate_ok:
  assumes ok: "kids_ok tags inv kcfg k n w" and c: "c < n" and a: "inv_lineAddr q = a"
    and s: "kid_state tags kcfg n w c a = s"
    and legal: "inv_type q = INV \<and> s \<noteq> I \<or> inv_type q = INVX \<and> (s = E \<or> s = M)"
  shows "\<exists>r w'. term_invalidate tbl kcfg invLat c q w = Inr (r, inv_writeback q \<or> s = M, w') \<and>
    kids_ok tags inv kcfg k n w' \<and> kid_ref tags kcfg w' = kid_ref tags kcfg w \<and>
    kid_state tags kcfg n w' = lower (kid_state tags kcfg n w) c a (if inv_type q = INV then I else S) \<and>
    keeps_top k w w'"
proof -
  let ?i = "cc_id (kcfg c)"
  have i: "inv (arrays w ?i)" "length (bccArray w ?i) = length (tags (arrays w ?i))"
    using ok c by (auto simp: kids_ok_def)
  have d: "arr_distinct (tags (arrays w ?i))" by (rule inv_distinct [OF i(1)])
  obtain l where l: "arr_holds (tags (arrays w ?i)) a = Some l" "bccArray w ?i ! l = s"
    using s legal c by (auto simp: kid_state_def line_state_def split: option.splits)
  have al: "a \<noteq> 0" "l < length (bccArray w ?i)" using l(1) i(2) arr_holds_Some [OF d] by auto
  from lookup_inv [OF i(1) al(1), of null_req False] l(1) obtain s' where
    s': "lookup a null_req False (arrays w ?i) = Inr (Some l, s')" "inv s'" "tags s' = tags (arrays w ?i)" by auto
  define t where "t = (if inv_type q = INV then I else S)"
  obtain w' where run: "term_invalidate tbl kcfg invLat c q w = Inr (inv_cycle q + ucast invLat, inv_writeback q \<or> s = M, w')"
    and w': "bccArray w' = (bccArray w)(?i := (bccArray w ?i)[l := t])" "tccArray w' = tccArray w"
      "arrays w' = (arrays w)(?i := s')"
    using legal l(2) al(2) s'(1) a
    by (cases "inv_type q")
      (auto simp: term_invalidate_def Cache_finishInvalidate_def Cache_lookup_def tbl_def term_processInv_def
        bcc_processInval_def Let_def prof_def t_def)
  have f: "\<And>b. tags (arrays w' b) = tags (arrays w b)" "\<And>b. inv (arrays w b) \<Longrightarrow> inv (arrays w' b)"
    using s' w'(3) by auto
  from kid_set_line [OF ok c l(1) w'(1,2) f] run show ?thesis unfolding t_def by blast
qed

end

sublocale cache_array \<subseteq> kids: child_caches "term_invalidate tbl kcfg invLat"
  "kid_state tags kcfg n" "kid_ref tags kcfg" "kids_ok tags inv kcfg k n" k n for kcfg invLat k n
proof unfold_locales
  fix w :: "('s, 'x) cworld_scheme" and c a p q s t
  show "\<exists>r w'. term_invalidate tbl kcfg invLat c q w = Inr (r, inv_writeback q \<or> s = M, w') \<and>
      kids_ok tags inv kcfg k n w' \<and> kid_ref tags kcfg w' = kid_ref tags kcfg w \<and>
      kid_state tags kcfg n w' = lower (kid_state tags kcfg n w) c a (if inv_type q = INV then I else S) \<and>
      keeps_top k w w'"
    if "kids_ok tags inv kcfg k n w" "c < n" "inv_lineAddr q = a" "kid_state tags kcfg n w c a = s"
      "inv_type q = INV \<and> s \<noteq> I \<or> inv_type q = INVX \<and> (s = E \<or> s = M)"
    by (rule term_invalidate_ok [OF that])
  show "\<exists>w'. set_st p s w = Inr w' \<and> kids_ok tags inv kcfg k n w' \<and> kid_ref tags kcfg w' = kid_ref tags kcfg w \<and>
      kid_state tags kcfg n w' = lower (kid_state tags kcfg n w) c a s \<and> keeps_top k w w'"
    if ok: "kids_ok tags inv kcfg k n w" "c < n" "kid_ref tags kcfg w c a p"
  proof -
    let ?i = "cc_id (kcfg c)"
    obtain l where l: "arr_holds (tags (arrays w ?i)) a = Some l" "p = LineState ?i l"
      using ok(3) by (auto simp: kid_ref_def)
    have i: "inv (arrays w ?i)" "length (bccArray w ?i) = length (tags (arrays w ?i))"
      using ok by (auto simp: kids_ok_def)
    then have "l < length (bccArray w ?i)" using l(1) arr_holds_Some [OF inv_distinct [OF i(1)]] by simp
    then obtain w' where w': "set_st p s w = Inr w'" "bccArray w' = (bccArray w)(?i := (bccArray w ?i)[l := s])"
        "tccArray w' = tccArray w" "arrays w' = arrays w"
      using l(2) by simp
    with kid_set_line [OF ok(1,2) l(1) w'(2,3)] show ?thesis by simp
  qed
  show "get_st p w = Inr (kid_state tags kcfg n w c a)"
    if ok: "kids_ok tags inv kcfg k n w" "c < n" "kid_ref tags kcfg w c a p"
  proof -
    let ?i = "cc_id (kcfg c)"
    obtain l where l: "arr_holds (tags (arrays w ?i)) a = Some l" "p = LineState ?i l"
      using ok(3) by (auto simp: kid_ref_def)
    have i: "inv (arrays w ?i)" "length (bccArray w ?i) = length (tags (arrays w ?i))"
      using ok by (auto simp: kids_ok_def)
    then have "l < length (bccArray w ?i)" using l(1) arr_holds_Some [OF inv_distinct [OF i(1)]] by simp
    then show ?thesis using l ok(2) by (simp add: kid_state_def line_state_def)
  qed
  show "kids_ok tags inv kcfg k n (w\<lparr>tccArray := (tccArray w)(k := t)\<rparr>) = kids_ok tags inv kcfg k n w"
    by (simp add: kids_ok_def)
  show "kid_state tags kcfg n (w\<lparr>tccArray := (tccArray w)(k := t)\<rparr>) = kid_state tags kcfg n w"
    by (auto simp: kid_state_def line_state_def fun_eq_iff split: option.splits)
  show "kid_ref tags kcfg (w\<lparr>tccArray := (tccArray w)(k := t)\<rparr>) = kid_ref tags kcfg w"
    by (simp add: kid_ref_def fun_eq_iff)
qed

subsection \<open>Properties of a directory over set-associative caches\<close>

text \<open>The virtual table of a set-associative array.\<close>

definition sa_table :: "'r ReplPolicy \<Rightarrow> (nat \<Rightarrow> u64 \<Rightarrow> u64) \<Rightarrow> 'r SetAssocArray CacheArray" where
  "sa_table rp hf = \<lparr>ca_lookup = sa_lookup rp hf, ca_preinsert = sa_preinsert rp hf, ca_postinsert = sa_postinsert rp\<rparr>"

lemma lru_table_tbl: "sa_table (LRUReplPolicy sh) hf = lru_rp.sa.tbl sh hf"
  by (simp add: sa_table_def lru_rp.sa.tbl_def)

text \<open>Well-formed LRU set-associative arrays, and the line states of caches over them.\<close>

abbreviation lru_sa_ok :: "(nat \<Rightarrow> u64 \<Rightarrow> u64) \<Rightarrow> lru SetAssocArray \<Rightarrow> bool" where
  "lru_sa_ok hf \<equiv> sa_inv (\<lambda>_. True) (\<lambda>r. length (lru_array r)) (\<lambda>_ _. True) hf"

abbreviation sa_states ::
  "(nat \<Rightarrow> cc_cfg) \<Rightarrow> nat \<Rightarrow> ('r SetAssocArray, 'x) cworld_scheme \<Rightarrow> nat \<Rightarrow> u64 \<Rightarrow> MESIState" where
  "sa_states \<equiv> kid_state sa_array"

text \<open>C26. The directory of a cache whose children are set-associative LRU caches serves every access
  the protocol allows: no assertion fails, the response is not earlier than the request, the states
  the children hold for the line make the abstract transition \<open>line_next\<close> and no other line's
  state changes, the writeback flag reports the dirty copies, and afterwards the directory entry
  again records exactly the children that hold the line, of which an exclusive one is alone.\<close>

theorem directory_access_coherent:
  fixes w :: "(lru SetAssocArray, 'x) cworld_scheme"
  assumes "length (childrenRTTs cfg) = n" "n \<le> MAX_CACHE_CHILDREN"
    and "kids_ok sa_array (lru_sa_ok hf) kcfg (cc_id cfg) n w" "l < length (tccArray w (cc_id cfg))"
    and "dir_entry n (\<lambda>c. sa_states kcfg n w c a) (tccArray w (cc_id cfg) ! l)"
    and "ch < n" "kid_ref sa_array kcfg w ch a p" "access_legal ty (sa_states kcfg n w ch a) he"
  shows "\<exists>r w'. tcc_processAccess (term_invalidate (sa_table (LRUReplPolicy sh) hf) kcfg invLat)
        cfg a l ty ch he p wb cyc src fl w =
      Inr (r, wb \<or> ((ty = GETS \<or> ty = GETX) \<and> (\<exists>c < n. sa_states kcfg n w c a = M)), w') \<and> cyc \<le> r \<and>
    sa_states kcfg n w' = upd_line (sa_states kcfg n w) a (line_next n ty ch he fl (\<lambda>c. sa_states kcfg n w c a)) \<and>
    kids_ok sa_array (lru_sa_ok hf) kcfg (cc_id cfg) n w' \<and>
    dir_entry n (\<lambda>c. sa_states kcfg n w' c a) (tccArray w' (cc_id cfg) ! l) \<and> swmr n (\<lambda>c. sa_states kcfg n w' c a)"
proof -
  from lru_rp.sa.kids.top_access_ok [OF refl assms, of sh invLat wb cyc src fl] obtain w' r e where
    run: "tcc_processAccess (term_invalidate (sa_table (LRUReplPolicy sh) hf) kcfg invLat) cfg a l ty ch he p wb cyc src fl w =
      Inr (r, wb \<or> ((ty = GETS \<or> ty = GETX) \<and> (\<exists>c < n. sa_states kcfg n w c a = M)), w')" "cyc \<le> r"
    and st: "sa_states kcfg n w' = upd_line (sa_states kcfg n w) a (line_next n ty ch he fl (\<lambda>c. sa_states kcfg n w c a))"
      "kids_ok sa_array (lru_sa_ok hf) kcfg (cc_id cfg) n w'" "tccArray w' (cc_id cfg) = (tccArray w (cc_id cfg))[l := e]"
    and e: "dir_entry n (line_next n ty ch he fl (\<lambda>c. sa_states kcfg n w c a)) e"
    unfolding lru_table_tbl lru_rp.sa.kids.top_step_def by blast
  have "(\<lambda>c. sa_states kcfg n w' c a) = line_next n ty ch he fl (\<lambda>c. sa_states kcfg n w c a)"
    by (simp add: st(1) upd_line_def)
  then have "dir_entry n (\<lambda>c. sa_states kcfg n w' c a) (tccArray w' (cc_id cfg) ! l)"
    using e st(3) assms(4) by simp
  with run st(1,2) dir_entry_swmr show ?thesis by blast
qed


text \<open>An access whose line changed state while it waited for its lock is resolved correctly: for
  a request that was legal when issued and a line that has since been invalidated or downgraded,
  no assertion of the race check fails, the access is skipped just when it is a put of a line that
  is gone, and otherwise its type, a clean put in place of a dirty one after a downgrade, is legal
  for the state the line has now.\<close>

lemma mesi_race_resolved:
  assumes "req_legal ty s0" and "s = s0 \<or> s = I \<or> s = S \<and> (s0 = E \<or> s0 = M)"
  shows "\<exists>skip ty'. CheckForMESIRace ty s s0 = Inr (skip, ty') \<and> skip = (IsPut ty \<and> s = I) \<and>
    (\<not> skip \<longrightarrow> req_legal ty' s) \<and> IsGet ty' = IsGet ty"
  using assms by (cases ty; cases s; cases s0) (auto simp: CheckForMESIRace_def req_legal_def IsPut_def IsGet_def)

lemma mesi_race_resolved_witness:
  "CheckForMESIRace PUTX S M = Inr (False, PUTS)"
  using mesi_race_resolved [of PUTX M S] by (auto simp: CheckForMESIRace_def req_legal_def IsPut_def IsGet_def)

subsection \<open>A concrete pair of caches below a directory\<close>

definition kcfg0 :: "nat \<Rightarrow> cc_cfg" where
  "kcfg0 c = \<lparr>cc_id = Suc c, selfId = c, parentRTTs = [2], childrenRTTs = [], nonInclusiveHack = False\<rparr>"

definition lru_sa0 :: "lru SetAssocArray" where
  "lru_sa0 = \<lparr>sa_array = [64, 0], sa_rp = lru_init 2, sa_numSets = 1, sa_assoc = 2\<rparr>"

definition cw0 :: "lru SetAssocArray cworld" where
  "cw0 = \<lparr>bccArray = (\<lambda>k. if k = 2 then [M, I] else [I, I]), bccProf = (\<lambda>_. prof0),
     tccArray = (\<lambda>_. [\<lparr>numSharers = 1, sharers = (replicate MAX_CACHE_CHILDREN False)[1 := True], exclusive = True\<rparr>]),
     temps = (\<lambda>_. I), arrays = (\<lambda>_. lru_sa0)\<rparr>"

lemma cw0_kids: "kids_ok sa_array (lru_sa_ok (\<lambda>_ a. a)) kcfg0 0 2 cw0"
  by (auto simp: kids_ok_def cw0_def kcfg0_def lru_sa0_def sa_inv_def sa_shape_def arr_distinct_def set_index_def
      lru_init_def less_2_cases_iff less_Suc_eq)

lemma cw0_states: "sa_states kcfg0 2 cw0 c a = (if c = 1 \<and> a = 64 then M else I)"
  by (auto simp: kid_state_def line_state_def cw0_def kcfg0_def lru_sa0_def arr_holds_def less_2_cases_iff)

lemma cw0_holders: "holders 2 (\<lambda>c. sa_states kcfg0 2 cw0 c 64) = {1}"
  by (auto simp: holders_def cw0_states)

lemma cw0_entry: "dir_entry 2 (\<lambda>c. sa_states kcfg0 2 cw0 c 64) (tccArray cw0 0 ! 0)"
  unfolding dir_entry_def cw0_holders
  by (auto simp: cw0_states) (auto simp: cw0_def MAX_CACHE_CHILDREN_def nth_list_update split: if_splits)

lemma cw0_lines: "length (tccArray cw0 0) = 1"
  by (simp add: cw0_def)

theorem directory_access_coherent_witness:
  "\<exists>r w'. tcc_processAccess (term_invalidate (sa_table (LRUReplPolicy False) (\<lambda>_ a. a)) kcfg0 1)
      (cfg0\<lparr>cc_id := 0\<rparr>) 64 0 GETX 0 True (LineState 1 0) False 10 0 0 cw0 = Inr (r, True, w') \<and>
    sa_states kcfg0 2 w' 0 64 = M \<and> sa_states kcfg0 2 w' 1 64 = I"
proof -
  have "kid_ref sa_array kcfg0 cw0 0 64 (LineState 1 0)"
    by (simp add: kid_ref_def cw0_def kcfg0_def lru_sa0_def arr_holds_def)
  from directory_access_coherent [of "cfg0\<lparr>cc_id := 0\<rparr>" 2 "\<lambda>_ a. a" kcfg0 cw0 0 64 0 "LineState 1 0" GETX True False 1 False 10 0 0]
    cw0_kids cw0_entry this
  show ?thesis
    by (auto simp: cfg0_def MAX_CACHE_CHILDREN_def access_legal_def cw0_states cw0_lines upd_line_def line_next_def)
qed


end
