(* ===== verification/SlabAlloc.thy ===== *)
theory SlabAlloc
  imports Prelude
begin

text \<open>
  The slab allocator of the timing events (slab_alloc.h).  A slab hands out consecutive bytes of
  its buffer and counts the elements that are live; when the last one is freed the slab is reused.
  Addresses are pairs of a slab number and an offset: masking an address to its slab is the first
  projection.  The mutex around the free list is not modelled.
\<close>

definition SLAB_SIZE :: nat where "SLAB_SIZE = 65536"

text \<open>The size of \<open>Slab::buf\<close>: the slab without a pointer and two 32-bit fields.\<close>

definition BUF_SIZE :: nat where "BUF_SIZE = SLAB_SIZE - 8 - 4 - 4"

record Slab =
  liveElems :: u32
  usedBytes :: u32

record SlabAlloc =
  slabs :: "Slab list"
  curSlab :: nat
  freeList :: "nat list"
  liveSlabs :: u32

definition Slab_clear :: "Slab \<Rightarrow> Slab" where
  "Slab_clear s = s\<lparr>liveElems := 0, usedBytes := 0\<rparr>"

definition Slab_alloc :: "u32 \<Rightarrow> Slab \<Rightarrow> nat option \<times> Slab" where
  "Slab_alloc bytes s =
     (let ptr = unat (usedBytes s); s1 = s\<lparr>usedBytes := usedBytes s + bytes\<rparr> in
      if unat (usedBytes s1) < BUF_SIZE then (Some ptr, s1\<lparr>liveElems := liveElems s1 + 1\<rparr>) else (None, s1))"

text \<open>A free slab is taken from the back of the free list, or a new one is initialised.\<close>

definition allocSlab :: "SlabAlloc \<Rightarrow> SlabAlloc" where
  "allocSlab a =
     (let a1 = (if freeList a \<noteq> []
                then a\<lparr>curSlab := last (freeList a), freeList := butlast (freeList a)\<rparr>
                else a\<lparr>slabs := slabs a @ [\<lparr>liveElems = 0, usedBytes = 0\<rparr>], curSlab := length (slabs a)\<rparr>)
      in a1\<lparr>liveSlabs := liveSlabs a1 + 1\<rparr>)"

definition SlabAlloc_init :: SlabAlloc where
  "SlabAlloc_init = allocSlab \<lparr>slabs = [], curSlab = 0, freeList = [], liveSlabs = 0\<rparr>"

definition cur_alloc :: "u32 \<Rightarrow> SlabAlloc \<Rightarrow> (nat option \<times> SlabAlloc) res" where
  "cur_alloc sz a =
     rbind (aget (slabs a) (curSlab a)) (\<lambda>s.
       let (p, s') = Slab_alloc sz s in Inr (p, a\<lparr>slabs := (slabs a)[curSlab a := s']\<rparr>))"

definition slab_alloc :: "u32 \<Rightarrow> SlabAlloc \<Rightarrow> ((nat \<times> nat) \<times> SlabAlloc) res" where
  "slab_alloc sz a =
     check (unat sz < SLAB_SIZE) AssertFailed
      (rbind (cur_alloc sz a) (\<lambda>(p, a1).
        case p of
          Some off \<Rightarrow> Inr ((curSlab a1, off), a1)
        | None \<Rightarrow> rbind (cur_alloc sz (allocSlab a1)) (\<lambda>(p', a2).
            case p' of None \<Rightarrow> Inl AssertFailed | Some off \<Rightarrow> Inr ((curSlab a2, off), a2))))"

definition freeSlab :: "nat \<Rightarrow> SlabAlloc \<Rightarrow> SlabAlloc res" where
  "freeSlab i a =
     rbind (aget (slabs a) i) (\<lambda>s.
      let a1 = a\<lparr>slabs := (slabs a)[i := Slab_clear s]\<rparr>;
          a2 = (if i \<noteq> curSlab a1 then a1\<lparr>freeList := freeList a1 @ [i], liveSlabs := liveSlabs a1 - 1\<rparr> else a1)
      in check (liveSlabs a2 \<noteq> 0) AssertFailed (Inr a2))"

definition freeElem :: "nat \<times> nat \<Rightarrow> SlabAlloc \<Rightarrow> SlabAlloc res" where
  "freeElem p a =
     rbind (aget (slabs a) (fst p)) (\<lambda>s.
      let prev = liveElems s; a1 = a\<lparr>slabs := (slabs a)[fst p := s\<lparr>liveElems := liveElems s - 1\<rparr>]\<rparr> in
      check (prev \<noteq> 0 \<and> prev < usedBytes s) AssertFailed
       (if prev = 1 then freeSlab (fst p) a1 else Inr a1))"

subsection \<open>The allocated elements\<close>

text \<open>
  \<open>slab_inv a A\<close>: \<open>A\<close> lists the live elements, each a slab number, an offset and a size of at least
  two bytes.  The live count of a slab is the number of its elements, which lie disjoint in its
  used bytes; a slab of the free list holds none, and the current slab is not on the free list.
\<close>

type_synonym elem = "(nat \<times> nat) \<times> nat"

definition in_slab :: "nat \<Rightarrow> elem list \<Rightarrow> elem list" where
  "in_slab i A = filter (\<lambda>e. fst (fst e) = i) A"

definition apart :: "elem \<Rightarrow> elem \<Rightarrow> bool" where
  "apart e f \<longleftrightarrow> fst (fst e) \<noteq> fst (fst f) \<or> snd (fst e) + snd e \<le> snd (fst f) \<or> snd (fst f) + snd f \<le> snd (fst e)"

definition slab_ok :: "Slab \<Rightarrow> elem list \<Rightarrow> bool" where
  "slab_ok s E \<longleftrightarrow>
     unat (liveElems s) = length E \<and> 2 * length E \<le> unat (usedBytes s) \<and>
     unat (usedBytes s) < 2 * SLAB_SIZE \<and>
     (\<forall>e \<in> set E. 2 \<le> snd e \<and> snd (fst e) + snd e \<le> unat (usedBytes s) \<and> snd (fst e) + snd e < BUF_SIZE)"

definition slab_inv :: "SlabAlloc \<Rightarrow> elem list \<Rightarrow> bool" where
  "slab_inv a A \<longleftrightarrow>
     curSlab a < length (slabs a) \<and> distinct (freeList a) \<and> set (freeList a) \<subseteq> {..<length (slabs a)} \<and>
     curSlab a \<notin> set (freeList a) \<and> length (slabs a) < 2 ^ 32 \<and>
     unat (liveSlabs a) + length (freeList a) = length (slabs a) \<and>
     (\<forall>i < length (slabs a). slab_ok (slabs a ! i) (in_slab i A)) \<and>
     (\<forall>i \<in> set (freeList a). usedBytes (slabs a ! i) = 0) \<and>
     unat (usedBytes (slabs a ! curSlab a)) < BUF_SIZE \<and>
     (in_slab (curSlab a) A = [] \<longrightarrow> usedBytes (slabs a ! curSlab a) = 0) \<and>
     (\<forall>e \<in> set A. fst (fst e) < length (slabs a)) \<and>
     sorted_wrt apart A"

lemma slab_sizes: "SLAB_SIZE = 65536" "BUF_SIZE = 65520"
  by (simp_all add: SLAB_SIZE_def BUF_SIZE_def)

lemma unat_add_small: "unat (a :: u32) + unat b < 2 ^ 32 \<Longrightarrow> unat (a + b) = unat a + unat b"
  by (simp add: unat_word_ariths)

lemma in_slab_simps [simp]:
  "in_slab i [] = []" "in_slab i (e # A) = (if fst (fst e) = i then e # in_slab i A else in_slab i A)"
  "set (in_slab i A) = {e \<in> set A. fst (fst e) = i}"
  by (auto simp: in_slab_def)

text \<open>An allocation that fits in the current slab.\<close>

lemma cur_alloc_fits:
  assumes inv: "slab_inv a A" and sz: "2 \<le> unat sz" and fit: "unat (usedBytes (slabs a ! curSlab a)) + unat sz < BUF_SIZE"
  defines "u \<equiv> usedBytes (slabs a ! curSlab a)"
  shows "\<exists>a'. cur_alloc sz a = Inr (Some (unat u), a') \<and> curSlab a' = curSlab a \<and>
    length (slabs a') = length (slabs a) \<and> slab_inv a' (((curSlab a, unat u), unat sz) # A)"
proof -
  let ?c = "curSlab a" and ?s = "slabs a ! curSlab a" and ?e = "((curSlab a, unat u), unat sz)"
  have c: "?c < length (slabs a)" and cs: "slab_ok ?s (in_slab ?c A)" using inv by (auto simp: slab_inv_def)
  have us: "unat (u + sz) = unat u + unat sz"
    using fit unat_add_small [of u sz] by (simp add: u_def slab_sizes)
  have live: "unat (liveElems ?s) = length (in_slab ?c A)" "2 * length (in_slab ?c A) \<le> unat u"
    using cs by (auto simp: slab_ok_def u_def)
  then have ls: "unat (liveElems ?s + 1) = Suc (length (in_slab ?c A))"
    using fit unat_add_small [of "liveElems ?s" 1] by (simp add: u_def slab_sizes)
  let ?s' = "?s\<lparr>usedBytes := u + sz, liveElems := liveElems ?s + 1\<rparr>"
  have run: "cur_alloc sz a = Inr (Some (unat u), a\<lparr>slabs := (slabs a)[?c := ?s']\<rparr>)"
    using c fit us by (simp add: cur_alloc_def Slab_alloc_def u_def Let_def)
  have ok': "slab_ok ?s' (?e # in_slab ?c A)"
    using cs live fit sz us [unfolded u_def] by (auto simp: slab_ok_def ls us u_def slab_sizes intro: trans_le_add1)
  have ap: "apart ?e e" if "e \<in> set A" for e
  proof (cases e)
    case (Pair p n)
    then show ?thesis using that cs by (cases p; cases "fst p = ?c") (auto simp: apart_def slab_ok_def u_def)
  qed
  let ?a = "a\<lparr>slabs := (slabs a)[?c := ?s']\<rparr>"
  have slot: "slab_ok (slabs ?a ! i) (in_slab i (?e # A))" if "i < length (slabs ?a)" for i
    using inv ok' that by (cases "i = ?c") (auto simp: slab_inv_def)
  have "slab_inv ?a (?e # A)"
    unfolding slab_inv_def
  proof (intro conjI)
    show "\<forall>i < length (slabs ?a). slab_ok (slabs ?a ! i) (in_slab i (?e # A))" using slot by blast
    show "\<forall>i \<in> set (freeList ?a). usedBytes (slabs ?a ! i) = 0"
      using inv by (auto simp: slab_inv_def nth_list_update)
    show "sorted_wrt apart (?e # A)" using inv ap by (simp add: slab_inv_def)
  qed (use inv c us fit in \<open>auto simp: slab_inv_def u_def\<close>)
  then show ?thesis using run by auto
qed

text \<open>Taking a slab, from the free list or a new one, once the current slab is too full.\<close>

lemma allocSlab_ok:
  assumes inv: "slab_inv a A" and room: "length (slabs a) < 2 ^ 32 - 1" and full: "in_slab (curSlab a) A \<noteq> []"
    and u: "unat (usedBytes u) < 2 * SLAB_SIZE" "usedBytes (slabs a ! curSlab a) \<le> usedBytes u" "liveElems u = liveElems (slabs a ! curSlab a)"
  defines "b \<equiv> allocSlab (a\<lparr>slabs := (slabs a)[curSlab a := u]\<rparr>)"
  shows "slab_inv b A" and "usedBytes (slabs b ! curSlab b) = 0" and "in_slab (curSlab b) A = []"
proof -
  let ?a = "a\<lparr>slabs := (slabs a)[curSlab a := u]\<rparr>"
  have c: "curSlab a < length (slabs a)" and fr: "set (freeList a) \<subseteq> {..<length (slabs a)}" "distinct (freeList a)" "curSlab a \<notin> set (freeList a)"
    and ls: "unat (liveSlabs a) + length (freeList a) = length (slabs a)"
    and ok: "\<And>i. i < length (slabs a) \<Longrightarrow> slab_ok (slabs a ! i) (in_slab i A)"
    and z: "\<And>i. i \<in> set (freeList a) \<Longrightarrow> usedBytes (slabs a ! i) = 0"
    and A: "\<forall>e \<in> set A. fst (fst e) < length (slabs a)" "sorted_wrt apart A"
    using inv by (auto simp: slab_inv_def)
  have grow: "unat (usedBytes (slabs a ! curSlab a)) \<le> unat (usedBytes u)" using u(2) by (simp add: word_le_nat_alt)
  have oku: "slab_ok u (in_slab (curSlab a) A)"
    using ok [OF c] u(1,3) order_trans [OF _ grow] unfolding slab_ok_def by force
  have ok': "slab_ok (slabs ?a ! i) (in_slab i A)" if "i < length (slabs a)" for i
    using ok [OF that] oku that by (cases "i = curSlab a") auto
  have live: "unat (liveSlabs a + 1) = unat (liveSlabs a) + 1"
    using unat_add_small [of "liveSlabs a" 1] ls room by simp
  have *: "slab_inv b A \<and> usedBytes (slabs b ! curSlab b) = 0 \<and> in_slab (curSlab b) A = []"
  proof (cases "freeList a = []")
    case False
    define i where "i = last (freeList a)"
    have il: "i \<in> set (freeList a)" using False by (simp add: i_def)
    then have i: "i < length (slabs a)" "i \<noteq> curSlab a" using fr by auto
    have b: "b = ?a\<lparr>curSlab := i, freeList := butlast (freeList a), liveSlabs := liveSlabs a + 1\<rparr>"
      using False by (simp add: b_def allocSlab_def Let_def i_def)
    have sp: "freeList a = butlast (freeList a) @ [i]" using False by (simp add: i_def)
    then have d: "distinct (butlast (freeList a))" "i \<notin> set (butlast (freeList a))" "set (butlast (freeList a)) \<subseteq> set (freeList a)"
      using fr(2) by (auto simp: distinct_butlast dest: in_set_butlastD)
        (metis distinct_append disjoint_insert(1) list.set(2))
    have e: "usedBytes (slabs ?a ! i) = 0" using z [OF il] i by simp
    then have none: "in_slab i A = []" using ok' [OF i(1)] by (auto simp: slab_ok_def)
    have "length (freeList a) = Suc (length (butlast (freeList a)))" using False by simp
    then have "slab_inv b A"
      unfolding slab_inv_def b using c fr ls live ok' z A i d e none inv
      by (auto simp: slab_inv_def nth_list_update slab_sizes)
    then show ?thesis using e none by (simp add: b)
  next
    case True
    let ?n = "\<lparr>liveElems = 0, usedBytes = 0\<rparr>"
    have b: "b = ?a\<lparr>slabs := (slabs ?a) @ [?n], curSlab := length (slabs a), liveSlabs := liveSlabs a + 1\<rparr>"
      using True by (simp add: b_def allocSlab_def Let_def)
    have none: "in_slab (length (slabs a)) A = []" using A(1) by (auto simp: in_slab_def filter_empty_conv)
    have "slab_ok ((slabs ?a @ [?n]) ! i) (in_slab i A)" if "i < Suc (length (slabs a))" for i
      using ok' [of i] that none by (cases "i = length (slabs a)") (auto simp: nth_append slab_ok_def slab_sizes)
    then have "slab_inv b A"
      unfolding slab_inv_def b using True ls live A none room
      by (auto simp: nth_append slab_sizes)
    then show ?thesis using none by (simp add: b nth_append)
  qed
  show "slab_inv b A" "usedBytes (slabs b ! curSlab b) = 0" "in_slab (curSlab b) A = []" using * by auto
qed

lemma slab_alloc_ok:
  assumes inv: "slab_inv a A" and sz: "2 \<le> unat sz" "unat sz < BUF_SIZE" and room: "length (slabs a) < 2 ^ 32 - 1"
  shows "\<exists>p a'. slab_alloc sz a = Inr (p, a') \<and> slab_inv a' ((p, unat sz) # A)"
proof -
  let ?s = "slabs a ! curSlab a"
  have S: "unat sz < SLAB_SIZE" using sz by (simp add: slab_sizes)
  show ?thesis
  proof (cases "unat (usedBytes ?s) + unat sz < BUF_SIZE")
    case True
    from cur_alloc_fits [OF inv sz(1) True] S show ?thesis by (auto simp: slab_alloc_def)
  next
    case False
    let ?u = "?s\<lparr>usedBytes := usedBytes ?s + sz\<rparr>"
    have c: "curSlab a < length (slabs a)" "unat (usedBytes ?s) < BUF_SIZE" using inv by (auto simp: slab_inv_def)
    then have us: "unat (usedBytes ?u) = unat (usedBytes ?s) + unat sz"
      using unat_add_small [of "usedBytes ?s" sz] sz by (simp add: slab_sizes)
    have full: "in_slab (curSlab a) A \<noteq> []"
    proof
      assume "in_slab (curSlab a) A = []"
      then have "usedBytes ?s = 0" using inv by (simp add: slab_inv_def)
      then show False using False sz by simp
    qed
    have u: "unat (usedBytes ?u) < 2 * SLAB_SIZE" "usedBytes ?s \<le> usedBytes ?u" "liveElems ?u = liveElems ?s"
      using us c sz by (auto simp: word_le_nat_alt slab_sizes)
    let ?a1 = "a\<lparr>slabs := (slabs a)[curSlab a := ?u]\<rparr>"
    have r1: "cur_alloc sz a = Inr (None, ?a1)"
      using c False us by (simp add: cur_alloc_def Slab_alloc_def Let_def)
    note b = allocSlab_ok [OF inv room full u]
    have "unat (usedBytes (slabs (allocSlab ?a1) ! curSlab (allocSlab ?a1))) + unat sz < BUF_SIZE" using b(2) sz by simp
    from cur_alloc_fits [OF b(1) sz(1) this] r1 S show ?thesis by (auto simp: slab_alloc_def)
  qed
qed

text \<open>Freeing a live element never fails; the count of its slab drops, and a slab that empties
  goes back to the free list, unless it is the current one, which is rewound.\<close>

lemma slab_ok_remove:
  assumes ok: "slab_ok s (in_slab (fst (fst e)) (A @ e # B))"
  shows "liveElems s \<noteq> 0" and "liveElems s < usedBytes s"
    and "slab_ok (s\<lparr>liveElems := liveElems s - 1\<rparr>) (in_slab (fst (fst e)) (A @ B))"
    and "liveElems s = 1 \<Longrightarrow> in_slab (fst (fst e)) (A @ B) = []"
    and "liveElems s \<noteq> 1 \<Longrightarrow> in_slab (fst (fst e)) (A @ B) \<noteq> []"
proof -
  let ?E = "in_slab (fst (fst e)) (A @ B)"
  have app: "in_slab i (xs @ ys) = in_slab i xs @ in_slab i ys" for i xs ys by (simp add: in_slab_def)
  have live: "unat (liveElems s) = Suc (length ?E)" and used: "2 * Suc (length ?E) \<le> unat (usedBytes s)"
    using ok by (auto simp: slab_ok_def app)
  show ne: "liveElems s \<noteq> 0" using live by auto
  show "liveElems s < usedBytes s" using live used by (simp add: word_less_nat_alt)
  have "unat (liveElems s - 1) = length ?E" using live ne by (simp add: unat_sub_if' unat_eq_0)
  then show "slab_ok (s\<lparr>liveElems := liveElems s - 1\<rparr>) ?E"
    using ok used by (auto simp: slab_ok_def app)
  show "liveElems s = 1 \<Longrightarrow> ?E = []" using live by simp
  show "?E \<noteq> []" if "liveElems s \<noteq> 1"
  proof
    assume "?E = []"
    then have "unat (liveElems s) = unat (1 :: u32)" using live by simp
    then show False using that unsigned_word_eqI by blast
  qed
qed

lemma slab_clear_ok: "slab_ok (Slab_clear s) []" "usedBytes (Slab_clear s) = 0"
  by (simp_all add: slab_ok_def Slab_clear_def slab_sizes)

lemma in_slab_append: "in_slab i (xs @ ys) = in_slab i xs @ in_slab i ys"
  by (simp add: in_slab_def)

text \<open>At least the current slab and the given one are live when the latter is not free.\<close>

lemma two_live:
  assumes "slab_inv a A" "i < length (slabs a)" "i \<noteq> curSlab a" "i \<notin> set (freeList a)"
  shows "2 \<le> unat (liveSlabs a)"
proof -
  have fr: "distinct (freeList a)" "set (freeList a) \<subseteq> {..<length (slabs a)} - {i, curSlab a}" "curSlab a < length (slabs a)"
    "unat (liveSlabs a) + length (freeList a) = length (slabs a)"
    using assms by (auto simp: slab_inv_def)
  have "length (freeList a) \<le> card ({..<length (slabs a)} - {i, curSlab a})"
    using card_mono [OF _ fr(2)] distinct_card [OF fr(1)] by simp
  also have "\<dots> = length (slabs a) - 2" using assms(2,3) fr(3) by (subst card_Diff_subset) auto
  finally have "length (freeList a) \<le> length (slabs a) - 2" .
  moreover have "2 \<le> length (slabs a)" using assms(2,3) fr(3) by linarith
  ultimately show ?thesis using fr(4) by linarith
qed

lemma freeElem_ok:
  assumes inv: "slab_inv a (A @ (p, n) # B)"
  shows "\<exists>a'. freeElem p a = Inr a' \<and> slab_inv a' (A @ B)"
proof -
  let ?i = "fst p" and ?s = "slabs a ! fst p" and ?C = "A @ (p, n) # B"
  let ?s1 = "?s\<lparr>liveElems := liveElems ?s - 1\<rparr>"
  let ?a1 = "a\<lparr>slabs := (slabs a)[?i := ?s1]\<rparr>"
  have i: "?i < length (slabs a)" and ok: "\<And>j. j < length (slabs a) \<Longrightarrow> slab_ok (slabs a ! j) (in_slab j ?C)"
    and z: "\<And>j. j \<in> set (freeList a) \<Longrightarrow> usedBytes (slabs a ! j) = 0"
    using inv by (auto simp: slab_inv_def)
  note rm = slab_ok_remove [of ?s "(p, n)" A B, simplified, OF ok [OF i]]
  have nf: "?i \<notin> set (freeList a)" using z [of ?i] rm(2) by auto
  have other: "in_slab j ?C = in_slab j (A @ B)" if "j \<noteq> ?i" for j using that by (auto simp: in_slab_append)
  have srt: "sorted_wrt apart (A @ B)" using inv by (auto simp: slab_inv_def sorted_wrt_append)
  show ?thesis
  proof (cases "liveElems ?s = 1")
    case False
    have slot: "slab_ok ((slabs ?a1) ! j) (in_slab j (A @ B))" if "j < length (slabs a)" for j
      using ok [OF that] rm(3) i other [of j] by (cases "j = ?i") auto
    have "slab_inv ?a1 (A @ B)"
      unfolding slab_inv_def
    proof (intro conjI)
      show "in_slab (curSlab ?a1) (A @ B) = [] \<longrightarrow> usedBytes (slabs ?a1 ! curSlab ?a1) = 0"
        using inv rm(5) [OF False] other [of "curSlab a"] by (cases "curSlab a = ?i") (auto simp: slab_inv_def)
    qed (use inv slot srt i nf in \<open>auto simp: slab_inv_def nth_list_update\<close>)
    then show ?thesis using False i rm(1,2) by (simp add: freeElem_def Let_def)
  next
    case True
    let ?a2 = "a\<lparr>slabs := (slabs a)[?i := Slab_clear ?s1]\<rparr>"
    have slot: "slab_ok ((slabs ?a2) ! j) (in_slab j (A @ B))" if "j < length (slabs a)" for j
      using ok [OF that] rm(4) [OF True] slab_clear_ok [of ?s1] i other [of j] by (cases "j = ?i") auto
    show ?thesis
    proof (cases "?i = curSlab a")
      case cur: True
      have "liveSlabs a \<noteq> 0"
      proof
        assume "liveSlabs a = 0"
        then have "length (freeList a) = length (slabs a)" using inv by (simp add: slab_inv_def)
        moreover have "card (set (freeList a)) \<le> card ({..<length (slabs a)} - {curSlab a})"
          using inv by (intro card_mono) (auto simp: slab_inv_def)
        moreover have "card ({..<length (slabs a)} - {curSlab a}) < length (slabs a)" using i cur by simp
        moreover have "card (set (freeList a)) = length (freeList a)"
          using inv by (simp add: slab_inv_def distinct_card)
        ultimately show False by linarith
      qed
      then have run: "freeElem p a = Inr ?a2"
        using True i rm(1,2) cur by (simp add: freeElem_def freeSlab_def Let_def)
      have "slab_inv ?a2 (A @ B)"
        unfolding slab_inv_def using inv slot srt i nf cur slab_clear_ok(2) [of ?s1]
        by (auto simp: slab_inv_def nth_list_update slab_sizes)
      then show ?thesis using run by blast
    next
      case ncur: False
      let ?a3 = "?a2\<lparr>freeList := freeList a @ [?i], liveSlabs := liveSlabs a - 1\<rparr>"
      have two: "2 \<le> unat (liveSlabs a)" using two_live [OF inv i ncur nf] .
      then have l: "unat (liveSlabs a - 1) = unat (liveSlabs a) - 1" by (simp add: unat_sub_if')
      then have "liveSlabs a - 1 \<noteq> 0" using two by auto
      then have run: "freeElem p a = Inr ?a3"
        using True i rm(1,2) ncur by (simp add: freeElem_def freeSlab_def Let_def)
      have cs: "in_slab (curSlab a) ?C = in_slab (curSlab a) (A @ B)" by (rule other) (use ncur in simp)
      have "slab_inv ?a3 (A @ B)"
        unfolding slab_inv_def
      proof (intro conjI)
        show "in_slab (curSlab ?a3) (A @ B) = [] \<longrightarrow> usedBytes (slabs ?a3 ! curSlab ?a3) = 0"
          using inv ncur cs by (auto simp: slab_inv_def)
      qed (use inv slot srt i nf ncur slab_clear_ok(2) [of ?s1] l two in \<open>auto simp: slab_inv_def nth_list_update slab_sizes\<close>)
      then show ?thesis using run by blast
    qed
  qed
qed

subsection \<open>Programs over the allocator\<close>

text \<open>
  A client allocates elements and frees live ones; \<open>FreeNth k\<close> frees the \<open>k\<close>-th
  element of the list of live ones.  \<open>slab_run\<close> keeps that list beside the allocator.
\<close>

datatype slab_op = AllocOp u32 | FreeNth nat

definition slab_step :: "slab_op \<Rightarrow> SlabAlloc \<times> elem list \<Rightarrow> (SlabAlloc \<times> elem list) res" where
  "slab_step x s =
     (case x of
        AllocOp sz \<Rightarrow> rbind (slab_alloc sz (fst s)) (\<lambda>(p, a). Inr (a, (p, unat sz) # snd s))
      | FreeNth k \<Rightarrow> rbind (aget (snd s) k) (\<lambda>e.
          rbind (freeElem (fst e) (fst s)) (\<lambda>a. Inr (a, take k (snd s) @ drop (Suc k) (snd s)))))"

fun slab_legal :: "nat \<Rightarrow> slab_op list \<Rightarrow> bool" where
  "slab_legal n [] \<longleftrightarrow> True"
| "slab_legal n (AllocOp sz # xs) \<longleftrightarrow> 2 \<le> unat sz \<and> unat sz < BUF_SIZE \<and> slab_legal (Suc n) xs"
| "slab_legal n (FreeNth k # xs) \<longleftrightarrow> k < n \<and> slab_legal (n - 1) xs"

lemma slab_init_ok: "slab_inv SlabAlloc_init []" "length (slabs SlabAlloc_init) = 1"
  by (simp_all add: slab_inv_def SlabAlloc_init_def allocSlab_def Let_def slab_ok_def slab_sizes)

lemma cur_alloc_length: "cur_alloc sz a = Inr (p, a') \<Longrightarrow> length (slabs a') = length (slabs a)"
  by (auto simp: cur_alloc_def res_simps split: prod.splits)

lemma allocSlab_length: "length (slabs (allocSlab a)) \<le> Suc (length (slabs a))"
  by (simp add: allocSlab_def Let_def)

lemma slab_alloc_length:
  assumes "slab_alloc sz a = Inr (p, a')"
  shows "length (slabs a') \<le> Suc (length (slabs a))"
proof -
  obtain q a1 where a1: "cur_alloc sz a = Inr (q, a1)" using assms by (auto simp: slab_alloc_def res_simps)
  note l1 = cur_alloc_length [OF a1]
  show ?thesis
  proof (cases q)
    case None
    then obtain r a2 where a2: "cur_alloc sz (allocSlab a1) = Inr (r, a2)" "a2 = a'"
      using assms a1 by (auto simp: slab_alloc_def res_simps split: option.splits)
    then show ?thesis using l1 cur_alloc_length [OF a2(1)] allocSlab_length [of a1] by simp
  qed (use assms a1 l1 in \<open>simp add: slab_alloc_def res_simps\<close>)
qed

lemma freeElem_length:
  assumes "freeElem p a = Inr a'"
  shows "length (slabs a') = length (slabs a)"
  using assms by (auto simp: freeElem_def freeSlab_def res_simps Let_def split: if_splits)

lemma slab_step_ok:
  assumes inv: "slab_inv a A" and legal: "slab_legal (length A) (x # xs)" and room: "length (slabs a) < 2 ^ 32 - 1"
  shows "\<exists>a' A'. slab_step x (a, A) = Inr (a', A') \<and> slab_inv a' A' \<and> slab_legal (length A') xs \<and>
    length (slabs a') \<le> Suc (length (slabs a))"
proof (cases x)
  case (AllocOp sz)
  with legal have sz: "2 \<le> unat sz" "unat sz < BUF_SIZE" "slab_legal (Suc (length A)) xs" by auto
  from slab_alloc_ok [OF inv sz(1,2) room] obtain p a' where r: "slab_alloc sz a = Inr (p, a')" "slab_inv a' ((p, unat sz) # A)" by blast
  then show ?thesis using sz slab_alloc_length [OF r(1)] by (simp add: slab_step_def AllocOp)
next
  case (FreeNth k)
  with legal have k: "k < length A" "slab_legal (length A - 1) xs" by auto
  obtain p n where e: "A ! k = (p, n)" by fastforce
  have "A = take k A @ (p, n) # drop (Suc k) A" using id_take_nth_drop [OF k(1)] e by simp
  then obtain a' where r: "freeElem p a = Inr a'" "slab_inv a' (take k A @ drop (Suc k) A)"
    using freeElem_ok [of a "take k A" p n "drop (Suc k) A"] inv by metis
  have "length (take k A @ drop (Suc k) A) = length A - 1" using k(1) by simp
  then show ?thesis using r k e freeElem_length [OF r(1)] by (simp add: slab_step_def FreeNth)
qed

lemma slab_run_ok:
  "slab_inv a A \<Longrightarrow> slab_legal (length A) xs \<Longrightarrow> length (slabs a) + length xs < 2 ^ 32 \<Longrightarrow>
    \<exists>a' A'. mfold slab_step xs (a, A) = Inr (a', A') \<and> slab_inv a' A'"
proof (induction xs arbitrary: a A)
  case (Cons x xs)
  then have "length (slabs a) < 2 ^ 32 - 1" by simp
  from slab_step_ok [OF Cons.prems(1,2) this] obtain a' A' where
    s: "slab_step x (a, A) = Inr (a', A')" "slab_inv a' A'" "slab_legal (length A') xs" "length (slabs a') \<le> Suc (length (slabs a))"
    by blast
  have "length (slabs a') + length xs < 2 ^ 32" using s(4) Cons.prems(3) by simp
  from Cons.IH [OF s(2,3) this] s(1) show ?case by simp
qed simp

text \<open>C28. A program of allocations of 2 to 65519 bytes and of frees of live elements never trips an
  assertion of the slab allocator; afterwards the live elements lie inside their slabs' buffers,
  no two of them overlap, and the live count of every slab is the number of its live elements.\<close>

theorem slab_programs_safe:
  assumes "slab_legal 0 xs" and "length xs < 2 ^ 32 - 1"
  shows "\<exists>a A. mfold slab_step xs (SlabAlloc_init, []) = Inr (a, A) \<and>
    (\<forall>p n. (p, n) \<in> set A \<longrightarrow> fst p < length (slabs a) \<and> snd p + n < BUF_SIZE) \<and>
    (\<forall>i j. i < j \<longrightarrow> j < length A \<longrightarrow> apart (A ! i) (A ! j)) \<and>
    (\<forall>i < length (slabs a). unat (liveElems (slabs a ! i)) = length (in_slab i A))"
proof -
  have "length (slabs SlabAlloc_init) + length xs < 2 ^ 32" using assms(2) slab_init_ok(2) by simp
  then obtain a A where r: "mfold slab_step xs (SlabAlloc_init, []) = Inr (a, A)" and i: "slab_inv a A"
    using slab_run_ok [OF slab_init_ok(1), of xs] assms(1) by auto
  have "fst p < length (slabs a) \<and> snd p + n < BUF_SIZE" if "(p, n) \<in> set A" for p n
  proof -
    have f: "fst p < length (slabs a)" using i that by (auto simp: slab_inv_def)
    then have "slab_ok (slabs a ! fst p) (in_slab (fst p) A)" using i by (auto simp: slab_inv_def)
    then show ?thesis using f that by (auto simp: slab_ok_def)
  qed
  moreover have "apart (A ! k) (A ! j)" if "k < j" "j < length A" for k j
    using i that by (auto simp: slab_inv_def sorted_wrt_iff_nth_less)
  moreover have "unat (liveElems (slabs a ! k)) = length (in_slab k A)" if "k < length (slabs a)" for k
    using i that by (auto simp: slab_inv_def slab_ok_def)
  ultimately show ?thesis using r by blast
qed

theorem slab_programs_safe_witness:
  "\<exists>a A. mfold slab_step [AllocOp 60000, AllocOp 8000, FreeNth 1, AllocOp 64, FreeNth 0] (SlabAlloc_init, []) = Inr (a, A) \<and>
    (\<forall>p n. (p, n) \<in> set A \<longrightarrow> fst p < length (slabs a) \<and> snd p + n < BUF_SIZE) \<and>
    (\<forall>i j. i < j \<longrightarrow> j < length A \<longrightarrow> apart (A ! i) (A ! j)) \<and>
    (\<forall>i < length (slabs a). unat (liveElems (slabs a ! i)) = length (in_slab i A))"
  by (rule slab_programs_safe) (simp_all add: slab_sizes)

text \<open>Freeing one element twice, as a crossing event and the source event embedded in it do,
  recycles a slab that still holds a live element: with two 64-byte elements in the slab, after
  the first is freed twice the allocator hands out the bytes of the second again.\<close>

theorem slab_double_free:
  "\<exists>a1 a2. mfold slab_step [AllocOp 64, AllocOp 64] (SlabAlloc_init, []) = Inr (a1, [((0, 64), 64), ((0, 0), 64)]) \<and>
     rbind (freeElem (0, 0) a1) (\<lambda>a. rbind (freeElem (0, 0) a) (\<lambda>a. rbind (slab_alloc 64 a) (\<lambda>(_, a). slab_alloc 64 a)))
       = Inr ((0, 64), a2)"
  by (simp add: slab_step_def slab_alloc_def cur_alloc_def Slab_alloc_def SlabAlloc_init_def allocSlab_def
      freeElem_def freeSlab_def Slab_clear_def Let_def slab_sizes)

end
