(* ===== verification/TimingEvents.thy ===== *)
theory TimingEvents
  imports PrioQueue MemTypes "HOL-Library.Multiset"
begin

text \<open>
  The events of the weave phase (timing_event.h, timing_event.cpp), the recorder that allocates
  them (event_recorder.h), and the event queues of the contention simulation (contention_sim.cpp).

  Events are numbered; \<open>events w e\<close> is the event, or \<open>None\<close> once it is freed.  The virtual
  methods are resolved by the kind of the event: \<open>KPlain\<close> stands for the classes that only override
  \<open>simulate\<close>, whose body is a parameter.  A crossing event and the source event embedded in
  it are two events.  Cycles and delays are natural numbers (cycles are 64-bit counters that the
  queues bound by the phase length); \<open>minStartCycle\<close> is \<open>None\<close> for -1, and a domain of -1 is
  \<open>None\<close>.  The counter \<open>numParents\<close> keeps its width, since a delay event decrements it unchecked.
\<close>

subsection \<open>State\<close>

datatype EventState = EV_INVALID | EV_NONE | EV_QUEUED | EV_RUNNING | EV_HELD | EV_DONE

datatype Children = Single "nat option" | Blocks "nat option list list"

definition TIMING_BLOCK_EVENTS :: nat where "TIMING_BLOCK_EVENTS = 3"

record Crossing =
  x_srcDomain :: nat
  x_called :: bool
  x_doneCycle :: nat
  x_origStartCycle :: int
  x_parentEv :: nat
  x_preSlack :: nat
  x_postSlack :: nat
  x_evRec :: nat
  x_cpe :: nat

datatype EvKind = KPlain | KDelay | KCross Crossing | KCrossSrc nat

record TimingEvent =
  privCycle :: nat
  ev_state :: EventState
  ev_cycle :: nat
  minStartCycle :: "nat option"
  kids :: Children
  domain :: "nat option"
  numChildren :: nat
  numParents :: u32
  preDelay :: nat
  postDelay :: nat
  ev_kind :: EvKind

record TimingRecord =
  tr_addr :: u64
  tr_reqCycle :: nat
  tr_respCycle :: nat
  tr_type :: AccessType
  tr_startEvent :: "nat option"
  tr_endEvent :: "nat option"

record EventRecorder =
  rec_tr :: TimingRecord
  crossingStack :: "nat list"
  rec_srcId :: nat
  lastGapCycles :: nat
  lastStartSlack :: int

record DomainData =
  dom_pq :: "nat pq"
  curCycle :: nat
  dom_prio :: nat
  queuePrio :: nat

record weave =
  events :: "nat \<Rightarrow> TimingEvent option"
  nextEv :: nat
  domains :: "DomainData list"
  lastCrossing :: "nat \<Rightarrow> nat \<times> nat option"
  recorders :: "nat \<Rightarrow> EventRecorder"
  limit :: nat
  lastLimit :: nat
  inCSim :: bool
  phaseLength :: nat

definition get_ev :: "nat \<Rightarrow> 'x weave_scheme \<Rightarrow> TimingEvent res" where
  "get_ev e w = deref (events w e)"

definition set_ev :: "nat \<Rightarrow> TimingEvent \<Rightarrow> 'x weave_scheme \<Rightarrow> 'x weave_scheme" where
  "set_ev e t w = w\<lparr>events := (events w)(e \<mapsto> t)\<rparr>"

text \<open>The constructor of an event and of a delay event.\<close>

definition TimingEvent_init :: "nat \<Rightarrow> nat \<Rightarrow> nat option \<Rightarrow> EvKind \<Rightarrow> TimingEvent" where
  "TimingEvent_init pre post dm k =
     \<lparr>privCycle = 0, ev_state = EV_NONE, ev_cycle = 0, minStartCycle = None, kids = Single None, domain = dm,
      numChildren = 0, numParents = 0, preDelay = pre, postDelay = post, ev_kind = k\<rparr>"

definition DelayEvent_init :: "nat \<Rightarrow> TimingEvent" where
  "DelayEvent_init delay = TimingEvent_init delay 0 None KDelay"

definition new_ev :: "TimingEvent \<Rightarrow> 'x weave_scheme \<Rightarrow> nat \<times> 'x weave_scheme" where
  "new_ev t w = (nextEv w, (set_ev (nextEv w) t w)\<lparr>nextEv := Suc (nextEv w)\<rparr>)"

subsection \<open>Recorders\<close>

definition pushRecord :: "TimingRecord \<Rightarrow> EventRecorder \<Rightarrow> EventRecorder res" where
  "pushRecord r er = check (tr_startEvent (rec_tr er) = None) AssertFailed
     (check (tr_startEvent r \<noteq> None) AssertFailed (Inr (er\<lparr>rec_tr := r\<rparr>)))"

definition tr_clear :: "TimingRecord \<Rightarrow> TimingRecord" where
  "tr_clear r = r\<lparr>tr_startEvent := None\<rparr>"

definition popRecord :: "EventRecorder \<Rightarrow> TimingRecord \<times> EventRecorder" where
  "popRecord er = (rec_tr er, er\<lparr>rec_tr := tr_clear (rec_tr er)\<rparr>)"

definition hasRecord :: "EventRecorder \<Rightarrow> bool" where
  "hasRecord er \<longleftrightarrow> tr_startEvent (rec_tr er) \<noteq> None"

definition getSlack :: "int \<Rightarrow> EventRecorder \<Rightarrow> int" where
  "getSlack orig er = orig + lastStartSlack er"

definition setGapCycles :: "nat \<Rightarrow> EventRecorder \<Rightarrow> EventRecorder" where
  "setGapCycles g er = er\<lparr>lastGapCycles := g\<rparr>"

definition setStartSlack :: "int \<Rightarrow> EventRecorder \<Rightarrow> EventRecorder" where
  "setStartSlack s er = (if lastStartSlack er \<noteq> s then er\<lparr>lastStartSlack := s\<rparr> else er)"

subsection \<open>Children\<close>

text \<open>
  The children in the order they are visited.  The visit reads the slots as it goes: a block is
  addressed from the oldest one, so that its number stays the same when a block is added in front,
  and a block that is added during the visit is not visited.
\<close>

datatype slot = InPlace | InBlock nat nat

fun somes :: "'a option list \<Rightarrow> 'a list" where
  "somes [] = []"
| "somes (None # xs) = []"
| "somes (Some x # xs) = x # somes xs"

fun kid_list :: "Children \<Rightarrow> nat list" where
  "kid_list (Single None) = []"
| "kid_list (Single (Some c)) = [c]"
| "kid_list (Blocks bs) = concat (map somes bs)"

definition block_slot :: "nat \<Rightarrow> nat \<Rightarrow> nat \<Rightarrow> 'x weave_scheme \<Rightarrow> nat option res" where
  "block_slot e j i w = rbind (get_ev e w) (\<lambda>t.
     case kids t of Blocks bs \<Rightarrow> rbind (aget (rev bs) j) (\<lambda>b. aget b i) | Single _ \<Rightarrow> Inl NullDeref)"

fun visit_slots ::
  "(slot \<Rightarrow> nat \<Rightarrow> 'x weave_scheme \<Rightarrow> 'x weave_scheme res) \<Rightarrow> nat \<Rightarrow> nat \<Rightarrow> nat list \<Rightarrow> nat \<times> 'x weave_scheme \<Rightarrow>
   (nat \<times> 'x weave_scheme) res" where
  "visit_slots f e j [] st = Inr st"
| "visit_slots f e j (i # is) (n, w) =
     rbind (block_slot e j i w) (\<lambda>s. case s of None \<Rightarrow> Inr (n, w)
       | Some c \<Rightarrow> rbind (f (InBlock j i) c w) (\<lambda>w'. visit_slots f e j is (n + 1, w')))"

fun visit_blocks ::
  "(slot \<Rightarrow> nat \<Rightarrow> 'x weave_scheme \<Rightarrow> 'x weave_scheme res) \<Rightarrow> nat \<Rightarrow> nat \<Rightarrow> nat \<times> 'x weave_scheme \<Rightarrow>
   (nat \<times> 'x weave_scheme) res" where
  "visit_blocks f e 0 st = Inr st"
| "visit_blocks f e (Suc j) st =
     rbind (visit_slots f e j [0..<TIMING_BLOCK_EVENTS] st) (visit_blocks f e j)"

definition visitChildren ::
  "(slot \<Rightarrow> nat \<Rightarrow> 'x weave_scheme \<Rightarrow> 'x weave_scheme res) \<Rightarrow> nat \<Rightarrow> 'x weave_scheme \<Rightarrow> 'x weave_scheme res" where
  "visitChildren f e w =
     rbind (get_ev e w) (\<lambda>t.
      if numChildren t = 0 then Inr w
      else if numChildren t = 1
      then (case kids t of Single (Some c) \<Rightarrow> f InPlace c w | _ \<Rightarrow> Inl NullDeref)
      else (case kids t of Single _ \<Rightarrow> Inl NullDeref
        | Blocks bs \<Rightarrow> rbind (visit_blocks f e (length bs) (0, w)) (\<lambda>(n, w').
            rbind (get_ev e w') (\<lambda>t'. check (n = numChildren t') AssertFailed (Inr w')))))"

fun propagateDomain :: "nat \<Rightarrow> nat option \<Rightarrow> nat \<Rightarrow> 'x weave_scheme \<Rightarrow> 'x weave_scheme res" where
  "propagateDomain 0 dm e w = Inl OutOfFuel"
| "propagateDomain (Suc fuel) dm e w =
     rbind (get_ev e w) (\<lambda>t. check (domain t = None) AssertFailed
      (visitChildren (\<lambda>_ c w1. rbind (get_ev c w1) (\<lambda>tc.
          if domain tc = None then propagateDomain fuel dm c w1 else Inr w1))
        e (set_ev e (t\<lparr>domain := dm\<rparr>) w)))"

text \<open>Linking a child: the first is stored in place, the others in blocks of three, newest block
  first.\<close>

definition link_child :: "nat \<Rightarrow> TimingEvent \<Rightarrow> TimingEvent res" where
  "link_child c t =
     (if numChildren t = 0 then Inr (t\<lparr>numChildren := 1, kids := Single (Some c)\<rparr>)
      else if numChildren t = 1
      then (case kids t of Single f \<Rightarrow> Inr (t\<lparr>kids := Blocks [[f, Some c, None]], numChildren := 2\<rparr>)
            | Blocks _ \<Rightarrow> Inl NullDeref)
      else (case kids t of
          Blocks bs \<Rightarrow>
            (let idx = numChildren t mod TIMING_BLOCK_EVENTS;
                 bs1 = (if idx = 0 then replicate TIMING_BLOCK_EVENTS None # bs else bs) in
             case bs1 of [] \<Rightarrow> Inl NullDeref
             | b # r \<Rightarrow> rbind (aput b idx (Some c)) (\<lambda>b'.
                 Inr (t\<lparr>kids := Blocks (b' # r), numChildren := numChildren t + 1\<rparr>)))
        | Single _ \<Rightarrow> Inl NullDeref))"

definition addChild :: "nat \<Rightarrow> nat \<Rightarrow> nat \<Rightarrow> 'x weave_scheme \<Rightarrow> 'x weave_scheme res" where
  "addChild fuel p c w =
     rbind (get_ev p w) (\<lambda>tp. check (ev_state tp = EV_NONE \<or> ev_state tp = EV_QUEUED) AssertFailed
      (rbind (get_ev c w) (\<lambda>tc. check (ev_state tc = EV_NONE) AssertFailed
        (rbind (link_child c tp) (\<lambda>tp'.
         rbind (if domain tp' \<noteq> None \<and> domain tc = None then propagateDomain fuel (domain tp') c (set_ev p tp' w)
                else Inr (set_ev p tp' w)) (\<lambda>w1.
         rbind (get_ev c w1) (\<lambda>tc1. Inr (set_ev c (tc1\<lparr>numParents := numParents tc1 + 1\<rparr>) w1))))))))"

subsection \<open>The event queues\<close>

definition dom_enqueue :: "nat \<Rightarrow> nat \<Rightarrow> nat \<Rightarrow> 'x weave_scheme \<Rightarrow> 'x weave_scheme res" where
  "dom_enqueue e d cyc w =
     rbind (aget (domains w) d) (\<lambda>dd.
     rbind (enqueue PQ_BLOCKS e cyc (dom_pq dd)) (\<lambda>q. Inr (w\<lparr>domains := (domains w)[d := dd\<lparr>dom_pq := q\<rparr>]\<rparr>)))"

definition cs_enqueue :: "nat \<Rightarrow> nat \<Rightarrow> 'x weave_scheme \<Rightarrow> 'x weave_scheme res" where
  "cs_enqueue e cyc w =
     check (inCSim w) AssertFailed
      (rbind (get_ev e w) (\<lambda>t. check (lastLimit w \<le> cyc) AssertFailed
       (check (cyc < lastLimit w + 10 * phaseLength w + 1000000) AssertFailed
        (rbind (case domain t of None \<Rightarrow> Inl OutOfBounds | Some d \<Rightarrow> Inr d) (\<lambda>d.
         rbind (aget (domains w) d) (\<lambda>dd. check (curCycle dd \<le> cyc) AssertFailed
          (check (numParents t = 0) AssertFailed
            (dom_enqueue e d cyc (set_ev e (t\<lparr>privCycle := cyc\<rparr>) w)))))))))"

definition cs_enqueueSynced :: "nat \<Rightarrow> nat \<Rightarrow> 'x weave_scheme \<Rightarrow> 'x weave_scheme res" where
  "cs_enqueueSynced e cyc w =
     check (\<not> inCSim w) AssertFailed
      (rbind (get_ev e w) (\<lambda>t.
       case domain t of None \<Rightarrow> Inl AssertFailed
       | Some d \<Rightarrow> check (d < length (domains w)) AssertFailed
          (check (lastLimit w \<le> cyc) AssertFailed
           (check (cyc < lastLimit w + 10 * phaseLength w + 10000) AssertFailed
            (check (numParents t = 0) AssertFailed
              (dom_enqueue e d cyc (set_ev e (t\<lparr>privCycle := cyc\<rparr>) w)))))))"

definition ev_queue :: "nat \<Rightarrow> nat \<Rightarrow> 'x weave_scheme \<Rightarrow> 'x weave_scheme res" where
  "ev_queue e cyc w =
     rbind (get_ev e w) (\<lambda>t. check (ev_state t = EV_NONE \<and> numParents t = 0) AssertFailed
       (cs_enqueueSynced e cyc (set_ev e (t\<lparr>ev_state := EV_QUEUED\<rparr>) w)))"

definition requeue :: "nat \<Rightarrow> nat \<Rightarrow> 'x weave_scheme \<Rightarrow> 'x weave_scheme res" where
  "requeue e cyc w =
     rbind (get_ev e w) (\<lambda>t. check (numParents t = 0) AssertFailed
       (check (ev_state t = EV_RUNNING \<or> ev_state t = EV_HELD) AssertFailed
         (cs_enqueue e cyc (set_ev e (t\<lparr>ev_state := EV_QUEUED\<rparr>) w))))"

definition hold :: "nat \<Rightarrow> 'x weave_scheme \<Rightarrow> 'x weave_scheme res" where
  "hold e w = rbind (get_ev e w) (\<lambda>t. check (ev_state t = EV_RUNNING) AssertFailed
     (Inr (set_ev e (t\<lparr>ev_state := EV_HELD\<rparr>) w)))"

definition release :: "nat \<Rightarrow> 'x weave_scheme \<Rightarrow> 'x weave_scheme res" where
  "release e w = rbind (get_ev e w) (\<lambda>t. check (ev_state t = EV_HELD) AssertFailed
     (Inr (set_ev e (t\<lparr>ev_state := EV_RUNNING\<rparr>) w)))"

definition setRunning :: "nat \<Rightarrow> 'x weave_scheme \<Rightarrow> 'x weave_scheme res" where
  "setRunning e w = rbind (get_ev e w) (\<lambda>t. check (ev_state t = EV_NONE) AssertFailed
     (Inr (set_ev e (t\<lparr>ev_state := EV_RUNNING\<rparr>) w)))"

definition getCurCycle :: "nat \<Rightarrow> 'x weave_scheme \<Rightarrow> nat res" where
  "getCurCycle d w = check (d < length (domains w)) AssertFailed (rbind (aget (domains w) d) (\<lambda>dd.
     check (curCycle dd < 2 ^ 63) AssertFailed (Inr (curCycle dd))))"

definition setPrio :: "nat \<Rightarrow> nat \<Rightarrow> 'x weave_scheme \<Rightarrow> 'x weave_scheme res" where
  "setPrio d p w = rbind (aget (domains w) d) (\<lambda>dd. Inr (w\<lparr>domains := (domains w)[d := dd\<lparr>dom_prio := p\<rparr>]\<rparr>))"

subsection \<open>Finishing an event\<close>

text \<open>The base class's \<open>parentDone\<close>: the event is queued when its last parent is done.\<close>

definition base_parentDone :: "nat \<Rightarrow> nat \<Rightarrow> 'x weave_scheme \<Rightarrow> 'x weave_scheme res" where
  "base_parentDone e startCycle w =
     rbind (get_ev e w) (\<lambda>t.
      let t1 = t\<lparr>ev_cycle := max (ev_cycle t) startCycle\<rparr> in
      check (numParents t1 \<noteq> 0) AssertFailed
       (let t2 = t1\<lparr>numParents := numParents t1 - 1\<rparr> in
        if numParents t2 = 0
        then check (ev_state t2 = EV_NONE) AssertFailed
              (cs_enqueue e (ev_cycle t2 + preDelay t2) (set_ev e (t2\<lparr>ev_state := EV_QUEUED\<rparr>) w))
        else Inr (set_ev e t2 w)))"

definition markSrcEventDone :: "nat \<Rightarrow> nat \<Rightarrow> 'x weave_scheme \<Rightarrow> 'x weave_scheme res" where
  "markSrcEventDone ce cyc w =
     rbind (get_ev ce w) (\<lambda>t. case ev_kind t of
        KCross x \<Rightarrow> check (\<not> x_called x) AssertFailed
          (rbind (getCurCycle (x_srcDomain x) w) (\<lambda>src. check (src \<le> cyc) AssertFailed
            (Inr (set_ev ce (t\<lparr>ev_kind := KCross (x\<lparr>x_doneCycle := cyc, x_called := True\<rparr>)\<rparr>) w))))
      | _ \<Rightarrow> Inl NullDeref)"

text \<open>The parent's part of a crossing event: a parent that finishes after the source raises the done
  cycle.\<close>

definition cross_parentDone :: "nat \<Rightarrow> Crossing \<Rightarrow> nat \<Rightarrow> 'x weave_scheme \<Rightarrow> 'x weave_scheme res" where
  "cross_parentDone e x startCycle w =
     rbind (get_ev e w) (\<lambda>t.
      let cyc = max startCycle (case minStartCycle t of None \<Rightarrow> 2 ^ 64 - 1 | Some m \<Rightarrow> m);
          x' = (if x_called x \<and> x_doneCycle x < cyc then x\<lparr>x_doneCycle := cyc\<rparr> else x)
      in base_parentDone e cyc (set_ev e (t\<lparr>ev_kind := KCross x'\<rparr>) w))"

definition free_ev :: "nat \<Rightarrow> 'x weave_scheme \<Rightarrow> 'x weave_scheme" where
  "free_ev e w = w\<lparr>events := (events w)(e := None)\<rparr>"

text \<open>\<open>done\<close>, with the children's \<open>parentDone\<close> as an argument.\<close>

definition ev_done ::
  "(nat \<Rightarrow> nat \<Rightarrow> 'x weave_scheme \<Rightarrow> 'x weave_scheme res) \<Rightarrow> nat \<Rightarrow> nat \<Rightarrow> 'x weave_scheme \<Rightarrow> 'x weave_scheme res" where
  "ev_done pd e doneCycle w =
     rbind (get_ev e w) (\<lambda>t. check (ev_state t = EV_RUNNING) AssertFailed
      (rbind (visitChildren (\<lambda>_ c. pd c (doneCycle + postDelay t)) e (set_ev e (t\<lparr>ev_state := EV_DONE\<rparr>) w))
        (\<lambda>w'. Inr (free_ev e w'))))"

fun parentDone :: "nat \<Rightarrow> nat \<Rightarrow> nat \<Rightarrow> 'x weave_scheme \<Rightarrow> 'x weave_scheme res" where
  "parentDone 0 e startCycle w = Inl OutOfFuel"
| "parentDone (Suc fuel) e startCycle w =
     rbind (get_ev e w) (\<lambda>t. case ev_kind t of
        KPlain \<Rightarrow> base_parentDone e startCycle w
      | KDelay \<Rightarrow>
          (let t1 = t\<lparr>ev_cycle := max (ev_cycle t) startCycle, numParents := numParents t - 1\<rparr> in
           if numParents t1 = 0
           then ev_done (\<lambda>c s. parentDone fuel c s) e (ev_cycle t1 + preDelay t1) (set_ev e (t1\<lparr>ev_state := EV_RUNNING\<rparr>) w)
           else Inr (set_ev e t1 w))
      | KCross x \<Rightarrow> cross_parentDone e x startCycle w
      | KCrossSrc ce \<Rightarrow> check (numParents t = 1) AssertFailed
          (check (numChildren t = 0) AssertFailed
            (rbind (markSrcEventDone ce startCycle (set_ev e (t\<lparr>numParents := 0\<rparr>) w)) (\<lambda>w1.
             rbind (get_ev e w1) (\<lambda>t1. check (ev_state t1 = EV_NONE) AssertFailed
              (ev_done (\<lambda>c s. parentDone fuel c s) e startCycle (set_ev e (t1\<lparr>ev_state := EV_RUNNING\<rparr>) w1)))))))"

declare parentDone.simps [simp del]

lemma parentDone_plain: "events w e = Some t \<Longrightarrow> ev_kind t = KPlain \<Longrightarrow> parentDone (Suc fuel) e s w = base_parentDone e s w"
  by (simp add: parentDone.simps get_ev_def)

definition event_done :: "nat \<Rightarrow> nat \<Rightarrow> nat \<Rightarrow> 'x weave_scheme \<Rightarrow> 'x weave_scheme res" where
  "event_done fuel = ev_done (parentDone fuel)"

subsection \<open>Simulating an event\<close>

definition u64_of :: "int \<Rightarrow> nat" where
  "u64_of i = nat (i mod 2 ^ 64)"

definition cross_simulate :: "nat \<Rightarrow> nat \<Rightarrow> Crossing \<Rightarrow> nat \<Rightarrow> 'x weave_scheme \<Rightarrow> 'x weave_scheme res" where
  "cross_simulate fuel e x simCycle w =
     rbind (get_ev e w) (\<lambda>t.
     rbind (case domain t of None \<Rightarrow> Inl OutOfBounds | Some d \<Rightarrow> Inr d) (\<lambda>d.
      if \<not> x_called x
      then rbind (getCurCycle (x_srcDomain x) w) (\<lambda>src.
           let curSrcCycle = src + x_preSlack x + x_postSlack x;
               coreRelCycle = u64_of (getSlack (x_origStartCycle x) (recorders w (x_evRec x)) + int (x_postSlack x));
               nextCycle = max coreRelCycle (max curSrcCycle simCycle)
           in rbind (setPrio d (if nextCycle = simCycle then 1 else 2) (set_ev e (t\<lparr>numParents := 0\<rparr>) w)) (requeue e nextCycle))
      else rbind (setPrio d 0 w) (event_done fuel e (max simCycle (x_doneCycle x)))))"

text \<open>\<open>simulate\<close> by the kind of the event; \<open>sim\<close> is the method of the plain events.\<close>

definition simulate ::
  "(nat \<Rightarrow> nat \<Rightarrow> 'x weave_scheme \<Rightarrow> 'x weave_scheme res) \<Rightarrow> nat \<Rightarrow> nat \<Rightarrow> nat \<Rightarrow> 'x weave_scheme \<Rightarrow> 'x weave_scheme res" where
  "simulate sim fuel e c w =
     rbind (get_ev e w) (\<lambda>t. case ev_kind t of
        KPlain \<Rightarrow> sim e c w | KDelay \<Rightarrow> Inl Panicked | KCross x \<Rightarrow> cross_simulate fuel e x c w | KCrossSrc _ \<Rightarrow> Inl Panicked)"

definition ev_run ::
  "(nat \<Rightarrow> nat \<Rightarrow> 'x weave_scheme \<Rightarrow> 'x weave_scheme res) \<Rightarrow> nat \<Rightarrow> nat \<Rightarrow> nat \<Rightarrow> 'x weave_scheme \<Rightarrow> 'x weave_scheme res" where
  "ev_run sim fuel e startCycle w =
     rbind (get_ev e w) (\<lambda>t. check (ev_state t = EV_NONE \<or> ev_state t = EV_QUEUED) AssertFailed
      (check (\<exists>m. minStartCycle t = Some m \<and> m \<le> startCycle) AssertFailed
        (simulate sim fuel e startCycle (set_ev e (t\<lparr>ev_state := EV_RUNNING\<rparr>) w))))"

subsection \<open>Crossings between domains\<close>

definition crossing_idx :: "nat \<Rightarrow> nat \<Rightarrow> nat \<Rightarrow> nat \<Rightarrow> nat" where
  "crossing_idx numDomains sid srcDomain dstDomain = (sid * numDomains + srcDomain) * numDomains + dstDomain"

definition enqueueCrossing ::
  "nat \<Rightarrow> nat \<Rightarrow> nat \<Rightarrow> nat \<Rightarrow> nat \<Rightarrow> nat \<Rightarrow> nat \<Rightarrow> 'x weave_scheme \<Rightarrow> 'x weave_scheme res" where
  "enqueueCrossing fuel ev cyc sid srcDomain dstDomain er w =
     (let cs = crossingStack (recorders w er) in
      rbind (get_ev ev w) (\<lambda>t.
      rbind (if cs = [] then Inr None
             else rbind (get_ev (last cs) w) (\<lambda>b. case (ev_kind b, ev_kind t) of
               (KCross bx, KCross x) \<Rightarrow>
                 Inr (if Some (x_srcDomain bx) = domain t \<and> domain b = Some (x_srcDomain x) then Some bx else None)
             | _ \<Rightarrow> Inl NullDeref)) (\<lambda>req.
      case req of
        Some bx \<Rightarrow> addChild fuel (x_parentEv bx) ev
          (w\<lparr>recorders := (recorders w)(er := (recorders w er)\<lparr>crossingStack := butlast cs\<rparr>)\<rparr>)
      | None \<Rightarrow>
         (let w1 = w\<lparr>recorders := (recorders w)(er := (recorders w er)\<lparr>crossingStack := cs @ [ev]\<rparr>)\<rparr>;
              i = crossing_idx (length (domains w)) sid srcDomain dstDomain
          in rbind (aget (domains w1) srcDomain) (\<lambda>sd.
             let lst = lastCrossing w1 i in
             rbind (if curCycle sd < fst lst \<and> fst lst \<le> cyc
                    then rbind (deref (snd lst)) (\<lambda>le. addChild fuel le ev w1)
                    else check (curCycle sd \<le> cyc) AssertFailed (cs_enqueueSynced ev cyc w1)) (\<lambda>w2.
               Inr (w2\<lparr>lastCrossing := (lastCrossing w2)(i := (cyc, Some ev))\<rparr>)))))))"

text \<open>The constructor of a crossing event from \<open>p\<close> to \<open>c\<close> and of the source event in it; the result is
  the pair of both.\<close>

definition CrossingEvent_new :: "nat \<Rightarrow> nat \<Rightarrow> nat \<Rightarrow> nat \<Rightarrow> nat \<Rightarrow> 'x weave_scheme \<Rightarrow> (nat \<times> nat \<times> 'x weave_scheme) res" where
  "CrossingEvent_new fuel p c minStart er w =
     rbind (get_ev p w) (\<lambda>tp. rbind (get_ev c w) (\<lambda>tc.
      check (domain tp \<noteq> domain tc) AssertFailed
       (case domain tp of None \<Rightarrow> Inl AssertFailed | Some src \<Rightarrow>
         (let ce = nextEv w; cpe = Suc (nextEv w);
              preSl = (if postDelay tp = 0 then 1 else postDelay tp);
              ms = (if postDelay tp = 0 then minStart + 1 else minStart);
              x = \<lparr>x_srcDomain = src, x_called = False, x_doneCycle = 0,
                   x_origStartCycle = int ms - int (lastGapCycles (recorders w er)), x_parentEv = p,
                   x_preSlack = preSl, x_postSlack = preDelay tc, x_evRec = er, x_cpe = cpe\<rparr>;
              t = TimingEvent_init 0 0 (domain tc) (KCross x);
              ts = (TimingEvent_init 0 0 (Some src) (KCrossSrc ce))\<lparr>numParents := 1\<rparr>;
              w1 = (set_ev cpe ts (set_ev ce t w))\<lparr>nextEv := Suc (Suc (nextEv w))\<rparr>
          in rbind (addChild fuel ce c w1) (\<lambda>w2.
             rbind (get_ev ce w2) (\<lambda>t2.
             rbind (case domain tc of None \<Rightarrow> Inl OutOfBounds | Some d \<Rightarrow> Inr d) (\<lambda>d.
             rbind (enqueueCrossing fuel ce (max (lastLimit w2) ms) (rec_srcId (recorders w2 er)) src d er
                      (set_ev ce (t2\<lparr>minStartCycle := Some ms\<rparr>) w2)) (\<lambda>w3. Inr (ce, cpe, w3)))))))))"

definition handleCrossing :: "nat \<Rightarrow> nat \<Rightarrow> nat \<Rightarrow> nat \<Rightarrow> bool \<Rightarrow> 'x weave_scheme \<Rightarrow> (nat \<times> 'x weave_scheme) res" where
  "handleCrossing fuel p c er unlinkChild w =
     rbind (get_ev c w) (\<lambda>tc.
     rbind (if unlinkChild then check (numParents tc \<noteq> 0) AssertFailed (Inr (set_ev c (tc\<lparr>numParents := numParents tc - 1\<rparr>) w))
            else Inr w) (\<lambda>w1.
     rbind (get_ev p w1) (\<lambda>tp. case minStartCycle tp of None \<Rightarrow> Inl AssertFailed
       | Some m \<Rightarrow> rbind (CrossingEvent_new fuel p c (m + postDelay tp) er w1) (\<lambda>(ce, cpe, w2). Inr (cpe, w2)))))"

definition set_slot :: "nat \<Rightarrow> slot \<Rightarrow> nat \<Rightarrow> 'x weave_scheme \<Rightarrow> 'x weave_scheme res" where
  "set_slot e s c w =
     rbind (get_ev e w) (\<lambda>t. case (s, kids t) of
        (InPlace, Single _) \<Rightarrow> Inr (set_ev e (t\<lparr>kids := Single (Some c)\<rparr>) w)
      | (InBlock j i, Blocks bs) \<Rightarrow>
          rbind (aget (rev bs) j) (\<lambda>b. rbind (aput b i (Some c)) (\<lambda>b'.
            Inr (set_ev e (t\<lparr>kids := Blocks (rev ((rev bs)[j := b']))\<rparr>) w)))
      | _ \<Rightarrow> Inl NullDeref)"

fun produceCrossings :: "nat \<Rightarrow> nat \<Rightarrow> nat \<Rightarrow> 'x weave_scheme \<Rightarrow> 'x weave_scheme res" where
  "produceCrossings 0 er e w = Inl OutOfFuel"
| "produceCrossings (Suc fuel) er e w =
     rbind (get_ev e w) (\<lambda>t. check (domain t \<noteq> None) AssertFailed
      (visitChildren (\<lambda>s c w1.
         rbind (get_ev e w1) (\<lambda>t1. rbind (get_ev c w1) (\<lambda>tc.
         rbind (if domain tc \<noteq> domain t1
                then rbind (handleCrossing fuel e c er True w1) (\<lambda>(n, w2). set_slot e s n w2)
                else Inr w1) (produceCrossings fuel er c)))) e w))"

subsection \<open>The children of an event\<close>

text \<open>Well-formed children: every block but the newest is full.\<close>

definition blk :: "nat list \<Rightarrow> nat option list" where
  "blk xs = map Some xs @ replicate (3 - length xs) None"

definition blocks_ok :: "nat list list \<Rightarrow> bool" where
  "blocks_ok xss \<longleftrightarrow> (\<exists>xs r. xss = xs # r \<and> xs \<noteq> [] \<and> length xs \<le> 3 \<and> (\<forall>ys \<in> set r. length ys = 3))"

definition kids_wf :: "TimingEvent \<Rightarrow> bool" where
  "kids_wf t \<longleftrightarrow> length (kid_list (kids t)) = numChildren t \<and>
     (if numChildren t = 0 then kids t = Single None
      else if numChildren t = 1 then \<exists>c. kids t = Single (Some c)
      else \<exists>xss. kids t = Blocks (map blk xss) \<and> blocks_ok xss)"

lemma somes_blk [simp]: "somes (blk xs) = xs"
proof -
  have "somes (map Some xs @ replicate n None) = xs" for n
    by (induction xs) (cases n; simp)+
  then show ?thesis by (simp add: blk_def)
qed

lemma kid_list_blk [simp]: "kid_list (Blocks (map blk xss)) = concat xss"
  by (simp add: comp_def)

lemma length_full: "\<forall>ys \<in> set r. length ys = 3 \<Longrightarrow> length (concat r) = 3 * length (r :: nat list list)"
  by (induction r) auto

lemma blk_put:
  assumes "length xs < 3"
  shows "length xs < length (blk xs)" "(blk xs)[length xs := Some c] = blk (xs @ [c])"
proof -
  obtain n where n: "3 - length xs = Suc n" using assms by (metis Suc_diff_Suc)
  show "length xs < length (blk xs)" by (simp add: blk_def n)
  have "3 - length (xs @ [c]) = n" using n by simp
  then show "(blk xs)[length xs := Some c] = blk (xs @ [c])" by (simp add: blk_def n list_update_append)
qed

lemma kids_wf_blocks:
  assumes "kids t = Blocks (map blk xss)" "blocks_ok xss" "numChildren t = length (concat xss)" "2 \<le> numChildren t"
  shows "kids_wf t"
proof -
  have "length (kid_list (kids t)) = numChildren t" unfolding assms(1,3) kid_list_blk ..
  moreover have "numChildren t \<noteq> 0" "numChildren t \<noteq> 1" using assms(4) by auto
  ultimately show ?thesis using assms(1,2) unfolding kids_wf_def by auto
qed

lemma link_child_ok:
  assumes "kids_wf t"
  shows "\<exists>k. link_child c t = Inr (t\<lparr>kids := k, numChildren := numChildren t + 1\<rparr>) \<and>
    kids_wf (t\<lparr>kids := k, numChildren := numChildren t + 1\<rparr>) \<and> mset (kid_list k) = add_mset c (mset (kid_list (kids t)))"
proof -
  consider "numChildren t = 0" | f where "numChildren t = 1" "kids t = Single (Some f)"
    | xs r where "2 \<le> numChildren t" "kids t = Blocks (map blk (xs # r))" "xs \<noteq> []" "length xs \<le> 3"
        "\<forall>ys \<in> set r. length ys = 3" "numChildren t = length xs + 3 * length r"
  proof (cases "numChildren t = 0 \<or> numChildren t = 1")
    case True
    then show ?thesis using assms that by (auto simp: kids_wf_def)
  next
    case False
    then obtain xs r where k: "kids t = Blocks (map blk (xs # r))" "xs \<noteq> []" "length xs \<le> 3" "\<forall>ys \<in> set r. length ys = 3"
      using assms by (auto simp: kids_wf_def blocks_ok_def)
    then have "numChildren t = length xs + 3 * length r"
      using assms length_full [of r] by (simp add: kids_wf_def comp_def)
    moreover have "2 \<le> numChildren t" using False by arith
    ultimately show ?thesis using k that(3) [of xs r] by blast
  qed
  then show ?thesis
  proof cases
    case 1
    then have "link_child c t = Inr (t\<lparr>kids := Single (Some c), numChildren := numChildren t + 1\<rparr>)"
      by (simp add: link_child_def)
    then show ?thesis using 1 assms by (intro exI [of _ "Single (Some c)"]) (simp add: kids_wf_def)
  next
    case (2 f)
    have b: "[Some f, Some c, None] = blk [f, c]" by (simp add: blk_def)
    have "blocks_ok [[f, c]]" by (simp add: blocks_ok_def)
    then have "\<exists>xss. [[Some f, Some c, None]] = map blk xss \<and> blocks_ok xss"
      by (intro exI [of _ "[[f, c]]"]) (simp add: b)
    moreover have "link_child c t = Inr (t\<lparr>kids := Blocks [[Some f, Some c, None]], numChildren := numChildren t + 1\<rparr>)"
      using 2 by (simp add: link_child_def numeral_2_eq_2)
    ultimately show ?thesis using 2 unfolding kids_wf_def
      by (intro exI [of _ "Blocks [[Some f, Some c, None]]"]) auto
  next
    case (3 xs r)
    then have nc: "numChildren t \<noteq> 0" "numChildren t \<noteq> 1" by auto
    show ?thesis
    proof (cases "length xs = 3")
      case True
      then have idx: "numChildren t mod 3 = 0" using 3(6) by simp
      let ?xss = "[c] # xs # r"
      have b: "replicate 3 None = blk []" by (simp add: blk_def)
      have "(replicate 3 None)[0 := Some c] = blk [c]" using blk_put(2) [of "[]" c] b by simp
      then have run: "link_child c t = Inr (t\<lparr>kids := Blocks (map blk ?xss), numChildren := numChildren t + 1\<rparr>)"
        using nc idx 3(2) by (simp add: link_child_def TIMING_BLOCK_EVENTS_def Let_def)
      have "blocks_ok ?xss" using True 3(5) by (auto simp: blocks_ok_def)
      moreover have "length (kid_list (kids t)) = numChildren t" using assms by (simp add: kids_wf_def)
      ultimately have "kids_wf (t\<lparr>kids := Blocks (map blk ?xss), numChildren := numChildren t + 1\<rparr>)"
        using 3(1,2) by (intro kids_wf_blocks [where xss = ?xss]) (auto simp: comp_def)
      moreover have "mset (kid_list (Blocks (map blk ?xss))) = add_mset c (mset (kid_list (kids t)))"
        unfolding 3(2) kid_list_blk by simp
      ultimately show ?thesis using run by blast
    next
      case False
      then have len: "length xs < 3" "0 < length xs" using 3(3,4) by auto
      then have idx: "numChildren t mod 3 = length xs" using 3(6) by simp
      let ?xss = "(xs @ [c]) # r"
      have run: "link_child c t = Inr (t\<lparr>kids := Blocks (map blk ?xss), numChildren := numChildren t + 1\<rparr>)"
        using nc idx len 3(2,3) blk_put(1) [OF len(1)] blk_put(2) [OF len(1), of c]
        by (simp add: link_child_def TIMING_BLOCK_EVENTS_def Let_def)
      have "blocks_ok ?xss" using len 3(5) by (auto simp: blocks_ok_def)
      moreover have "length (kid_list (kids t)) = numChildren t" using assms by (simp add: kids_wf_def)
      ultimately have "kids_wf (t\<lparr>kids := Blocks (map blk ?xss), numChildren := numChildren t + 1\<rparr>)"
        using 3(1,2) by (intro kids_wf_blocks [where xss = ?xss]) (auto simp: comp_def)
      moreover have "mset (kid_list (Blocks (map blk ?xss))) = add_mset c (mset (kid_list (kids t)))"
        unfolding 3(2) kid_list_blk by simp
      ultimately show ?thesis using run by blast
    qed
  qed
qed

text \<open>A visit whose steps keep the children of the visited event is a loop over the list of them.\<close>

definition same_kids :: "nat \<Rightarrow> 'x weave_scheme \<Rightarrow> 'x weave_scheme \<Rightarrow> bool" where
  "same_kids e w w' \<longleftrightarrow> (\<forall>t. events w e = Some t \<longrightarrow>
     (\<exists>t'. events w' e = Some t' \<and> kids t' = kids t \<and> numChildren t' = numChildren t))"

definition keeps_kids ::
  "('x weave_scheme \<Rightarrow> bool) \<Rightarrow> (nat \<Rightarrow> 'x weave_scheme \<Rightarrow> 'x weave_scheme res) \<Rightarrow> nat \<Rightarrow> nat list \<Rightarrow> bool" where
  "keeps_kids P g e ys \<longleftrightarrow> (\<forall>c \<in> set ys. \<forall>w w'. P w \<longrightarrow> g c w = Inr w' \<longrightarrow> P w' \<and> same_kids e w w')"

lemma keeps_kids_step: "keeps_kids P g e ys \<Longrightarrow> c \<in> set ys \<Longrightarrow> g c w = Inr w' \<Longrightarrow> P w \<Longrightarrow> P w' \<and> same_kids e w w'"
  by (auto simp: keeps_kids_def)

lemma keeps_kids_mono: "keeps_kids P g e ys \<Longrightarrow> set xs \<subseteq> set ys \<Longrightarrow> keeps_kids P g e xs"
  by (auto simp: keeps_kids_def)

lemma visit_slots_eq:
  assumes g: "keeps_kids P g e ys"
    and b: "j < length xss" "rev xss ! j = xs @ ys" "length (xs @ ys) \<le> 3"
    and w: "events w e = Some t" "kids t = Blocks (map blk xss)" "P w"
  shows "visit_slots (\<lambda>_. g) e j [length xs..<3] (n, w) = rbind (mfold g ys w) (\<lambda>w'. Inr (n + length ys, w'))"
  using g b(2,3) w
proof (induction ys arbitrary: xs w t n)
  case Nil
  show ?case
  proof (cases "length xs < 3")
    case True
    have "rev (map blk xss) ! j = blk xs" using b(1) Nil.prems(2) by (simp add: rev_map)
    moreover have "blk xs ! length xs = None" "length xs < length (blk xs)" using True by (simp_all add: blk_def nth_append)
    ultimately have "block_slot e j (length xs) w = Inr None"
      using b(1) Nil.prems(4,5) by (simp add: block_slot_def get_ev_def)
    then show ?thesis using True by (simp add: upt_conv_Cons)
  qed simp
next
  case (Cons y ys)
  then have len: "length xs < 3" by simp
  have "rev (map blk xss) ! j = blk (xs @ y # ys)" using b(1) Cons.prems(2) by (simp add: rev_map)
  moreover have "blk (xs @ y # ys) ! length xs = Some y" "length xs < length (blk (xs @ y # ys))"
    by (simp_all add: blk_def nth_append)
  ultimately have s: "block_slot e j (length xs) w = Inr (Some y)"
    using b(1) Cons.prems(4,5) by (simp add: block_slot_def get_ev_def)
  show ?case
  proof (cases "g y w")
    case (Inl er)
    then show ?thesis using s len by (simp add: upt_conv_Cons)
  next
    case (Inr w')
    then obtain t' where t': "events w' e = Some t'" "kids t' = kids t" "P w'"
      using keeps_kids_step [OF Cons.prems(1) _ Inr Cons.prems(6)] Cons.prems(4) by (auto simp: same_kids_def)
    have gs: "keeps_kids P g e ys" using keeps_kids_mono [OF Cons.prems(1)] by auto
    have "visit_slots (\<lambda>_. g) e j [length (xs @ [y])..<3] (n + 1, w') = rbind (mfold g ys w') (\<lambda>w'. Inr (n + 1 + length ys, w'))"
      by (rule Cons.IH [OF gs _ _ t'(1)]) (use Cons.prems(2,3,5) t'(2,3) in auto)
    then show ?thesis using s len Inr by (simp add: upt_conv_Cons)
  qed
qed

lemma mfold_same_kids: "keeps_kids P g e ys \<Longrightarrow> P w \<Longrightarrow> mfold g ys w = Inr w' \<Longrightarrow> P w' \<and> same_kids e w w'"
proof (induction ys arbitrary: w)
  case (Cons y ys)
  then obtain w1 where w1: "g y w = Inr w1" "mfold g ys w1 = Inr w'" by (auto simp: res_simps)
  have a: "P w1" "same_kids e w w1" using keeps_kids_step [OF Cons.prems(1) _ w1(1) Cons.prems(2)] by simp_all
  moreover have "P w' \<and> same_kids e w1 w'"
    by (rule Cons.IH [OF _ a(1) w1(2)], rule keeps_kids_mono [OF Cons.prems(1)]) auto
  ultimately show ?case unfolding same_kids_def by metis
qed (simp add: same_kids_def)

lemma visit_blocks_eq:
  assumes g: "keeps_kids P g e (concat xss)"
    and b: "\<And>ys. ys \<in> set xss \<Longrightarrow> length ys \<le> 3"
  shows "j \<le> length xss \<Longrightarrow> events w e = Some t \<Longrightarrow> kids t = Blocks (map blk xss) \<Longrightarrow> P w \<Longrightarrow>
    visit_blocks (\<lambda>_. g) e j (n, w) = rbind (mfold g (concat (rev (take j (rev xss)))) w)
      (\<lambda>w'. Inr (n + length (concat (rev (take j (rev xss)))), w'))"
proof (induction j arbitrary: n w t)
  case (Suc j)
  let ?b = "rev xss ! j" and ?r = "concat (rev (take j (rev xss)))"
  have j: "j < length xss" and m: "?b \<in> set xss" using Suc.prems(1) by (simp_all add: rev_nth)
  have tk: "concat (rev (take (Suc j) (rev xss))) = ?b @ ?r" using j by (simp add: take_Suc_conv_app_nth)
  have gb: "keeps_kids P g e ?b" using keeps_kids_mono [OF g] m by auto
  from visit_slots_eq [OF gb, of j xss "[]" w t n] j b [OF m] Suc.prems(2-4)
  have s: "visit_slots (\<lambda>_. g) e j [0..<3] (n, w) = rbind (mfold g ?b w) (\<lambda>w'. Inr (n + length ?b, w'))" by simp
  show ?case
  proof (cases "mfold g ?b w")
    case (Inl er)
    then show ?thesis by (simp add: tk s TIMING_BLOCK_EVENTS_def mfold_append)
  next
    case (Inr w')
    then have "P w'" "same_kids e w w'" using mfold_same_kids [OF gb Suc.prems(4)] by auto
    then obtain t' where "events w' e = Some t'" "kids t' = kids t" "P w'" using Suc.prems(2) by (auto simp: same_kids_def)
    then show ?thesis using Suc.IH [of w' t' "n + length ?b"] Suc.prems(1,3) j Inr
      by (simp add: tk s TIMING_BLOCK_EVENTS_def mfold_append add.assoc)
  qed
qed simp

lemma visitChildren_eq:
  assumes t: "events w e = Some t" "kids_wf t"
    and g: "keeps_kids P g e (kid_list (kids t))" "P w"
  shows "visitChildren (\<lambda>_. g) e w = mfold g (kid_list (kids t)) w"
proof -
  consider "numChildren t = 0" "kids t = Single None" | c where "numChildren t = 1" "kids t = Single (Some c)"
    | xss where "numChildren t \<noteq> 0" "numChildren t \<noteq> 1" "kids t = Blocks (map blk xss)" "blocks_ok xss" "length (concat xss) = numChildren t"
    using t(2) by (auto simp: kids_wf_def comp_def split: if_splits)
  then show ?thesis
  proof cases
    case 1
    then show ?thesis using t(1) by (simp add: visitChildren_def get_ev_def)
  next
    case (2 c)
    have "rbind (g c w) Inr = g c w" by (cases "g c w") simp_all
    then show ?thesis using t(1) 2 by (simp add: visitChildren_def get_ev_def) (cases "g c w"; simp)
  next
    case (3 xss)
    have b: "length ys \<le> 3" if "ys \<in> set xss" for ys using 3(4) that by (auto simp: blocks_ok_def)
    have g': "keeps_kids P g e (concat xss)" using g(1) unfolding 3(3) kid_list_blk by blast
    from visit_blocks_eq [OF g' b, of "length xss" w t 0] t(1) 3(3) g(2)
    have v: "visit_blocks (\<lambda>_. g) e (length xss) (0, w) = rbind (mfold g (concat xss) w) (\<lambda>w'. Inr (length (concat xss), w'))"
      by simp
    show ?thesis
    proof (cases "mfold g (concat xss) w")
      case (Inl er)
      then show ?thesis using t(1) 3 v by (simp add: visitChildren_def get_ev_def comp_def)
    next
      case (Inr w')
      from mfold_same_kids [OF g' g(2) Inr] t(1) obtain t' where "events w' e = Some t'" "numChildren t' = numChildren t"
        by (auto simp: same_kids_def)
      then show ?thesis using t(1) 3 v Inr by (simp add: visitChildren_def get_ev_def comp_def)
    qed
  qed
qed

subsection \<open>Linking and visiting\<close>

definition linkable :: "nat \<Rightarrow> nat \<Rightarrow> 'x weave_scheme \<Rightarrow> bool" where
  "linkable p c w \<longleftrightarrow> c \<noteq> p \<and> (\<exists>tc. events w c = Some tc \<and> ev_state tc = EV_NONE \<and> domain tc \<noteq> None)"

lemma addChild_ok:
  assumes t: "events w p = Some t" "kids_wf t" "ev_state t = EV_NONE \<or> ev_state t = EV_QUEUED" and c: "linkable p c w"
  shows "\<exists>w' k. addChild fuel p c w = Inr w' \<and>
    events w' p = Some (t\<lparr>kids := k, numChildren := numChildren t + 1\<rparr>) \<and>
    kids_wf (t\<lparr>kids := k, numChildren := numChildren t + 1\<rparr>) \<and> mset (kid_list k) = add_mset c (mset (kid_list (kids t))) \<and>
    events w' c = Some ((the (events w c))\<lparr>numParents := numParents (the (events w c)) + 1\<rparr>) \<and>
    (\<forall>e. e \<noteq> p \<longrightarrow> e \<noteq> c \<longrightarrow> events w' e = events w e)"
proof -
  obtain tc dc where tc: "events w c = Some tc" "ev_state tc = EV_NONE" "domain tc = Some dc" "c \<noteq> p"
    using c by (auto simp: linkable_def)
  obtain k where k: "link_child c t = Inr (t\<lparr>kids := k, numChildren := numChildren t + 1\<rparr>)"
      "kids_wf (t\<lparr>kids := k, numChildren := numChildren t + 1\<rparr>)" "mset (kid_list k) = add_mset c (mset (kid_list (kids t)))"
    using link_child_ok [OF t(2)] by blast
  let ?t' = "t\<lparr>kids := k, numChildren := numChildren t + 1\<rparr>"
  have "addChild fuel p c w = Inr (set_ev c (tc\<lparr>numParents := numParents tc + 1\<rparr>) (set_ev p ?t' w))"
    using t tc k(1) by (simp add: addChild_def get_ev_def set_ev_def)
  with k(2,3) tc t show ?thesis by (auto simp: set_ev_def)
qed

lemma addChildren_ok:
  "events w p = Some t \<Longrightarrow> kids_wf t \<Longrightarrow> ev_state t = EV_NONE \<or> ev_state t = EV_QUEUED \<Longrightarrow>
    (\<And>c. c \<in> set cs \<Longrightarrow> linkable p c w) \<Longrightarrow>
    \<exists>w' t'. mfold (addChild fuel p) cs w = Inr w' \<and> events w' p = Some t' \<and> kids_wf t' \<and>
      mset (kid_list (kids t')) = mset (kid_list (kids t)) + mset cs \<and>
      (\<forall>e. e \<noteq> p \<longrightarrow> map_option (\<lambda>t. t\<lparr>numParents := 0\<rparr>) (events w' e) = map_option (\<lambda>t. t\<lparr>numParents := 0\<rparr>) (events w e)) \<and>
      (\<forall>e te. e \<noteq> p \<longrightarrow> events w e = Some te \<longrightarrow> (\<exists>te'. events w' e = Some te' \<and> numParents te' = numParents te + of_nat (count (mset cs) e)))"
proof (induction cs arbitrary: w t)
  case Nil
  then show ?case by simp
next
  case (Cons c cs)
  have lc: "linkable p c w" using Cons.prems(4) by simp
  from addChild_ok [OF Cons.prems(1-3) lc, of fuel] obtain w1 k where
    w1: "addChild fuel p c w = Inr w1" "events w1 p = Some (t\<lparr>kids := k, numChildren := numChildren t + 1\<rparr>)"
      "kids_wf (t\<lparr>kids := k, numChildren := numChildren t + 1\<rparr>)" "mset (kid_list k) = add_mset c (mset (kid_list (kids t)))"
      "events w1 c = Some ((the (events w c))\<lparr>numParents := numParents (the (events w c)) + 1\<rparr>)"
      "\<And>e. e \<noteq> p \<Longrightarrow> e \<noteq> c \<Longrightarrow> events w1 e = events w e" by blast
  obtain tc where tc: "events w c = Some tc" "c \<noteq> p" using lc by (auto simp: linkable_def)
  have l1: "linkable p x w1" if "x \<in> set cs" for x
    using Cons.prems(4) [of x] that w1(5,6) tc by (cases "x = c") (auto simp: linkable_def)
  from Cons.IH [OF w1(2,3) _ l1] Cons.prems(3) obtain w' t' where
    w': "mfold (addChild fuel p) cs w1 = Inr w'" "events w' p = Some t'" "kids_wf t'"
      "mset (kid_list (kids t')) = mset (kid_list k) + mset cs"
      "\<forall>e. e \<noteq> p \<longrightarrow> map_option (\<lambda>t. t\<lparr>numParents := 0\<rparr>) (events w' e) = map_option (\<lambda>t. t\<lparr>numParents := 0\<rparr>) (events w1 e)"
      "\<forall>e te. e \<noteq> p \<longrightarrow> events w1 e = Some te \<longrightarrow> (\<exists>te'. events w' e = Some te' \<and> numParents te' = numParents te + of_nat (count (mset cs) e))"
    by auto
  have a: "map_option (\<lambda>t. t\<lparr>numParents := 0\<rparr>) (events w' e) = map_option (\<lambda>t. t\<lparr>numParents := 0\<rparr>) (events w e)" if "e \<noteq> p" for e
    using w'(5) that w1(5,6) tc by (cases "e = c") auto
  have b: "\<exists>te'. events w' e = Some te' \<and> numParents te' = numParents te + of_nat (count (mset (c # cs)) e)"
    if "e \<noteq> p" "events w e = Some te" for e te
  proof (cases "e = c")
    case True
    then have "events w1 e = Some (te\<lparr>numParents := numParents te + 1\<rparr>)" using that w1(5) by simp
    with w'(6) that(1) obtain te' where "events w' e = Some te'" "numParents te' = numParents te + 1 + of_nat (count (mset cs) e)"
      by force
    then show ?thesis using True by (simp add: add.assoc)
  next
    case False
    then have "events w1 e = Some te" using that w1(6) by simp
    then show ?thesis using w'(6) that(1) False by auto
  qed
  show ?case using w1(1,4) w'(1-4) a b by auto
qed

text \<open>C30. Linking children to an event and visiting them is a round trip: from any event with
  well-formed children, linking a list of children that have a domain succeeds (in place, in the
  first block, or in a new block of three), raises every child's parent count by its number of
  occurrences, and a visit then runs its body over the old and the new children, each as often as
  it was linked, ending with the count that the visit asserts.\<close>

theorem children_visited_once:
  assumes "events w p = Some t" "kids_wf t" "ev_state t = EV_NONE \<or> ev_state t = EV_QUEUED"
    and "\<And>c. c \<in> set cs \<Longrightarrow> linkable p c w"
    and "keeps_kids (\<lambda>_. True) g p (kid_list (kids t) @ cs)"
  shows "\<exists>w' vs. mfold (addChild fuel p) cs w = Inr w' \<and> mset vs = mset (kid_list (kids t)) + mset cs \<and>
    visitChildren (\<lambda>_. g) p w' = mfold g vs w' \<and>
    (\<forall>c tc. c \<noteq> p \<longrightarrow> events w c = Some tc \<longrightarrow>
       (\<exists>tc'. events w' c = Some tc' \<and> numParents tc' = numParents tc + of_nat (count (mset cs) c)))"
proof -
  from addChildren_ok [OF assms(1-4), where fuel = fuel] obtain w' t' where
    w': "mfold (addChild fuel p) cs w = Inr w'" "events w' p = Some t'" "kids_wf t'"
      "mset (kid_list (kids t')) = mset (kid_list (kids t)) + mset cs"
    and n: "\<forall>c tc. c \<noteq> p \<longrightarrow> events w c = Some tc \<longrightarrow>
       (\<exists>tc'. events w' c = Some tc' \<and> numParents tc' = numParents tc + of_nat (count (mset cs) c))" by blast
  have "set (kid_list (kids t')) = set (kid_list (kids t) @ cs)" using w'(4) by (metis mset_append set_mset_mset)
  then have "keeps_kids (\<lambda>_. True) g p (kid_list (kids t'))" using assms(5) by (simp add: keeps_kids_def)
  from visitChildren_eq [OF w'(2,3) this] w'(1,4) n show ?thesis by blast
qed

definition weave0 :: weave where
  "weave0 = \<lparr>events = (\<lambda>e. if e < 6 then Some (TimingEvent_init 2 3 (Some 0) KPlain) else None), nextEv = 6, domains = [],
     lastCrossing = (\<lambda>_. (0, None)), recorders = (\<lambda>_. \<lparr>rec_tr = \<lparr>tr_addr = 0, tr_reqCycle = 0, tr_respCycle = 0,
       tr_type = GETS, tr_startEvent = None, tr_endEvent = None\<rparr>, crossingStack = [], rec_srcId = 0, lastGapCycles = 0,
       lastStartSlack = 0\<rparr>), limit = 0, lastLimit = 0, inCSim = False, phaseLength = 1000\<rparr>"

theorem children_visited_once_witness:
  "\<exists>w' vs. mfold (addChild 1 0) [1, 2, 3, 4, 5, 3] weave0 = Inr w' \<and> mset vs = {#1, 2, 3, 4, 5, 3#} \<and>
    visitChildren (\<lambda>_. setRunning) 0 w' = mfold setRunning vs w' \<and>
    (\<exists>t. events w' 3 = Some t \<and> numParents t = 2)"
proof -
  have k: "keeps_kids (\<lambda>_. True) setRunning 0 (kid_list (Single None) @ [1, 2, 3, 4, 5, 3])"
    by (auto simp: keeps_kids_def same_kids_def setRunning_def get_ev_def set_ev_def res_simps)
  have "events weave0 0 = Some (TimingEvent_init 2 3 (Some 0) KPlain)" by (simp add: weave0_def)
  moreover have "kids_wf (TimingEvent_init 2 3 (Some 0) KPlain)" by (simp add: kids_wf_def TimingEvent_init_def)
  moreover have "linkable 0 c weave0" if "c \<in> set [1, 2, 3, 4, 5, 3]" for c
    using that by (auto simp: linkable_def weave0_def TimingEvent_init_def)
  ultimately obtain w' vs where r: "mfold (addChild 1 0) [1, 2, 3, 4, 5, 3] weave0 = Inr w'"
      "mset vs = mset (kid_list (kids (TimingEvent_init 2 3 (Some 0) KPlain))) + mset [1, 2, 3, 4, 5, 3]"
      "visitChildren (\<lambda>_. setRunning) 0 w' = mfold setRunning vs w'"
      "\<forall>c tc. c \<noteq> 0 \<longrightarrow> events weave0 c = Some tc \<longrightarrow>
       (\<exists>tc'. events w' c = Some tc' \<and> numParents tc' = numParents tc + of_nat (count (mset [1, 2, 3, 4, 5, 3]) c))"
    using children_visited_once [of weave0 0 "TimingEvent_init 2 3 (Some 0) KPlain" "[1, 2, 3, 4, 5, 3]" setRunning 1] k
    by (auto simp: TimingEvent_init_def)
  have "events weave0 3 = Some (TimingEvent_init 2 3 (Some 0) KPlain)" by (simp add: weave0_def)
  from r(4) [rule_format, OF _ this] have "\<exists>t. events w' 3 = Some t \<and> numParents t = 2"
    by (simp add: TimingEvent_init_def)
  moreover have "mset vs = {#1, 2, 3, 4, 5, 3#}" using r(2) by (simp add: TimingEvent_init_def)
  ultimately show ?thesis using r(1,3) by blast
qed

end
