(* ===== verification/ContentionSim.thy ===== *)
theory ContentionSim
  imports TimingEvents
begin

text \<open>
  The weave phase (contention_sim.cpp): the loops of a simulation thread over its domains, and the
  phase.  A thread with one domain runs the events of its queue in order; a thread with several
  picks the domain with the least \<open>queuePrio\<close> (the first of them, where the standard's priority
  queue leaves the choice open), and sets domains aside whose crossing events wait.  The loops take
  fuel, since an event may be queued again.  The threads are modelled one after the other.  \<open>run\<close> is
  \<open>TimingEvent::run\<close> and \<open>sim\<close> is \<open>simulate\<close>.
\<close>

definition upd_dom :: "nat \<Rightarrow> (DomainData \<Rightarrow> DomainData) \<Rightarrow> 'x weave_scheme \<Rightarrow> 'x weave_scheme" where
  "upd_dom d f w = w\<lparr>domains := (domains w)[d := f (domains w ! d)]\<rparr>"

text \<open>Taking the first event of a domain.\<close>

definition dom_dequeue :: "nat \<Rightarrow> 'x weave_scheme \<Rightarrow> (nat \<times> nat \<times> 'x weave_scheme) res" where
  "dom_dequeue d w =
     rbind (aget (domains w) d) (\<lambda>dd.
     rbind (deq PQ_BLOCKS (dom_pq dd)) (\<lambda>(e, c, q). Inr (e, c, upd_dom d (\<lambda>dd. dd\<lparr>dom_pq := q\<rparr>) w)))"

text \<open>The cycle of the first event below the bound \<open>b\<close>, if there is one.\<close>

definition dom_first :: "(nat \<Rightarrow> bool) \<Rightarrow> nat \<Rightarrow> 'x weave_scheme \<Rightarrow> nat option res" where
  "dom_first b d w =
     rbind (aget (domains w) d) (\<lambda>dd.
      if pq_size (dom_pq dd) = 0 then Inr None
      else rbind (firstCycle PQ_BLOCKS (dom_pq dd)) (\<lambda>f. Inr (if b f then Some f else None)))"

text \<open>The cycle of a domain after an event.\<close>

definition next_cycle :: "nat \<Rightarrow> 'x weave_scheme \<Rightarrow> nat res" where
  "next_cycle d w =
     rbind (aget (domains w) d) (\<lambda>dd.
      if pq_size (dom_pq dd) = 0 then Inr (limit w) else firstCycle PQ_BLOCKS (dom_pq dd))"

definition phase_step ::
  "(nat \<Rightarrow> nat \<Rightarrow> 'x weave_scheme \<Rightarrow> 'x weave_scheme res) \<Rightarrow> nat \<Rightarrow> 'x weave_scheme \<Rightarrow> 'x weave_scheme res" where
  "phase_step run d w =
     rbind (aget (domains w) d) (\<lambda>dd.
     rbind (dom_dequeue d w) (\<lambda>(e, c, w1). check (curCycle dd \<le> c) AssertFailed
      (rbind (run e c (upd_dom d (\<lambda>dd. dd\<lparr>curCycle := c\<rparr>) w1)) (\<lambda>w2.
       rbind (next_cycle d w2) (\<lambda>n. check (c \<le> n) AssertFailed
        (Inr (upd_dom d (\<lambda>dd. dd\<lparr>curCycle := n\<rparr>) w2)))))))"

fun phase_loop ::
  "(nat \<Rightarrow> nat \<Rightarrow> 'x weave_scheme \<Rightarrow> 'x weave_scheme res) \<Rightarrow> nat \<Rightarrow> nat \<Rightarrow> 'x weave_scheme \<Rightarrow> 'x weave_scheme res" where
  "phase_loop run d 0 w = Inl OutOfFuel"
| "phase_loop run d (Suc fuel) w =
     rbind (dom_first (\<lambda>f. f < limit w) d w) (\<lambda>f. case f of
        None \<Rightarrow> Inr (upd_dom d (\<lambda>dd. dd\<lparr>curCycle := limit w\<rparr>) w)
      | Some _ \<Rightarrow> rbind (phase_step run d w) (phase_loop run d fuel))"

subsection \<open>Several domains per thread\<close>

record multi =
  domPq :: "nat list"
  stalledQueue :: "nat list"
  nextStalledQueue :: "nat list"
  numFinished :: nat

fun least_dom :: "(nat \<Rightarrow> nat) \<Rightarrow> nat \<Rightarrow> nat list \<Rightarrow> nat" where
  "least_dom p d [] = d"
| "least_dom p d (x # xs) = least_dom p (if p x < p d then x else d) xs"

text \<open>One turn of domain \<open>d\<close>: finished, or an event is simulated and the domain goes back to the
  priority queue or to a stalled queue.\<close>

definition multi_turn ::
  "(nat \<Rightarrow> nat \<Rightarrow> 'x weave_scheme \<Rightarrow> 'x weave_scheme res) \<Rightarrow> nat \<Rightarrow> (multi \<Rightarrow> multi) \<Rightarrow> multi \<times> 'x weave_scheme \<Rightarrow>
   (multi \<times> 'x weave_scheme) res" where
  "multi_turn act d stall st =
     (let m = fst st; w = snd st in
      rbind (dom_first (\<lambda>f. \<not> limit w < f) d w) (\<lambda>f. case f of
        None \<Rightarrow> Inr (m\<lparr>numFinished := numFinished m + 1\<rparr>, upd_dom d (\<lambda>dd. dd\<lparr>curCycle := limit w\<rparr>) w)
      | Some _ \<Rightarrow>
          rbind (dom_dequeue d w) (\<lambda>(e, c, w1).
          rbind (act e c (upd_dom d (\<lambda>dd. dd\<lparr>curCycle := c\<rparr>) w1)) (\<lambda>w2.
          rbind (next_cycle d w2) (\<lambda>n.
           let w3 = upd_dom d (\<lambda>dd. dd\<lparr>curCycle := n, queuePrio := n\<rparr>) w2 in
           Inr (if dom_prio (domains w3 ! d) = 0 then m\<lparr>domPq := domPq m @ [d]\<rparr> else stall m, w3))))))"

text \<open>A stalled domain's event is simulated without the checks of \<open>run\<close>.\<close>

definition stalled_act ::
  "(nat \<Rightarrow> nat \<Rightarrow> 'x weave_scheme \<Rightarrow> 'x weave_scheme res) \<Rightarrow> nat \<Rightarrow> nat \<Rightarrow> 'x weave_scheme \<Rightarrow> 'x weave_scheme res" where
  "stalled_act sim e c w = rbind (get_ev e w) (\<lambda>t. sim e c (set_ev e (t\<lparr>ev_state := EV_RUNNING\<rparr>) w))"

definition swap_stalled :: "multi \<Rightarrow> multi" where
  "swap_stalled m = (if stalledQueue m = []
     then m\<lparr>stalledQueue := nextStalledQueue m, nextStalledQueue := []\<rparr> else m)"

fun multi_loop ::
  "(nat \<Rightarrow> nat \<Rightarrow> 'x weave_scheme \<Rightarrow> 'x weave_scheme res) \<Rightarrow> (nat \<Rightarrow> nat \<Rightarrow> 'x weave_scheme \<Rightarrow> 'x weave_scheme res) \<Rightarrow>
   nat \<Rightarrow> nat \<Rightarrow> multi \<times> 'x weave_scheme \<Rightarrow> (multi \<times> 'x weave_scheme) res" where
  "multi_loop run sim thDomains 0 st = Inl OutOfFuel"
| "multi_loop run sim thDomains (Suc fuel) (m, w) =
     (if \<not> numFinished m < thDomains \<and> domPq m = [] then Inr (m, w)
      else case domPq m of
        x # xs \<Rightarrow>
          (let d = least_dom (\<lambda>d. queuePrio (domains w ! d)) x xs in
           rbind (multi_turn run d (\<lambda>m. m\<lparr>stalledQueue := stalledQueue m @ [d]\<rparr>) (m\<lparr>domPq := remove1 d (x # xs)\<rparr>, w))
             (multi_loop run sim thDomains fuel))
      | [] \<Rightarrow>
          (if stalledQueue m = [] then multi_loop run sim thDomains fuel (swap_stalled m, w)
           else let d = last (stalledQueue m) in
             rbind (multi_turn (stalled_act sim) d (\<lambda>m. m\<lparr>nextStalledQueue := nextStalledQueue m @ [d]\<rparr>)
                      (m\<lparr>stalledQueue := butlast (stalledQueue m)\<rparr>, w)) (\<lambda>(m', w').
               multi_loop run sim thDomains fuel (swap_stalled m', w'))))"

definition simulatePhaseThread ::
  "(nat \<Rightarrow> nat \<Rightarrow> 'x weave_scheme \<Rightarrow> 'x weave_scheme res) \<Rightarrow> (nat \<Rightarrow> nat \<Rightarrow> 'x weave_scheme \<Rightarrow> 'x weave_scheme res) \<Rightarrow>
   nat \<Rightarrow> nat \<Rightarrow> nat \<Rightarrow> 'x weave_scheme \<Rightarrow> 'x weave_scheme res" where
  "simulatePhaseThread run sim fuel firstDomain supDomain w =
     (if supDomain - firstDomain = 1 then phase_loop run firstDomain fuel w
      else rbind (multi_loop run sim (supDomain - firstDomain) fuel
             (\<lparr>domPq = [firstDomain..<supDomain], stalledQueue = [], nextStalledQueue = [], numFinished = 0\<rparr>, w))
             (\<lambda>(m, w'). Inr w'))"

text \<open>\<open>simThreads[i]\<close>: the domains of thread \<open>i\<close>.\<close>

definition thread_domains :: "nat \<Rightarrow> nat \<Rightarrow> nat \<Rightarrow> nat \<times> nat" where
  "thread_domains numDomains numSimThreads i = (i * numDomains div numSimThreads, (i + 1) * numDomains div numSimThreads)"

text \<open>The constructor: empty queues, cycles and limits 0, and no thread with a part of a domain.\<close>

definition DomainData_init :: DomainData where
  "DomainData_init = \<lparr>dom_pq = pq_init PQ_BLOCKS (\<lambda>_. None), curCycle = 0, dom_prio = 0, queuePrio = 0\<rparr>"

definition ContentionSim_init :: "nat \<Rightarrow> nat \<Rightarrow> nat \<Rightarrow> (nat \<Rightarrow> EventRecorder) \<Rightarrow> weave res" where
  "ContentionSim_init numDomains numSimThreads phLen recs =
     check (numDomains mod numSimThreads = 0) Panicked
      (Inr \<lparr>events = (\<lambda>_. None), nextEv = 0, domains = replicate numDomains DomainData_init,
         lastCrossing = (\<lambda>_. (0, None)), recorders = recs, limit = 0, lastLimit = 0, inCSim = False, phaseLength = phLen\<rparr>)"

text \<open>A phase: \<open>starts\<close> and \<open>ends\<close> are the cores' \<open>cSimStart\<close> and \<open>cSimEnd\<close>.\<close>

definition simulatePhase ::
  "('x weave_scheme \<Rightarrow> 'x weave_scheme res) \<Rightarrow> ('x weave_scheme \<Rightarrow> 'x weave_scheme res) \<Rightarrow>
   (nat \<Rightarrow> nat \<Rightarrow> 'x weave_scheme \<Rightarrow> 'x weave_scheme res) \<Rightarrow> (nat \<Rightarrow> nat \<Rightarrow> 'x weave_scheme \<Rightarrow> 'x weave_scheme res) \<Rightarrow>
   nat \<Rightarrow> nat \<Rightarrow> bool \<Rightarrow> nat \<Rightarrow> 'x weave_scheme \<Rightarrow> 'x weave_scheme res" where
  "simulatePhase starts ends run sim fuel numSimThreads skipContention lm w =
     (if skipContention then Inr w
      else let w1 = w\<lparr>limit := lm\<rparr> in check (lastLimit w1 \<le> lm) AssertFailed
        (rbind (starts w1) (\<lambda>w2.
         rbind (mfold (\<lambda>i. case thread_domains (length (domains w2)) numSimThreads i of
                  (a, b) \<Rightarrow> simulatePhaseThread run sim fuel a b) [0..<numSimThreads] (w2\<lparr>inCSim := True\<rparr>)) (\<lambda>w3.
         rbind (ends (w3\<lparr>inCSim := False\<rparr>)) (\<lambda>w4. Inr (w4\<lparr>lastLimit := lm\<rparr>))))))"

end
