(* ===== verification/WeavePhase.thy ===== *)
theory WeavePhase
  imports ContentionSim
begin

text \<open>
  Correctness of the loop of a simulation thread with one domain.  The locale \<open>phase_runner\<close> is the
  contract of the events' \<open>run\<close> towards the loop; \<open>ran\<close> logs the events in the order they run.  The
  contract is discharged for event graphs: events of one domain that finish at the cycle they
  start and hand that cycle to their children.
\<close>

record tweave = weave +
  ran :: "(nat \<times> nat) list"

definition logged ::
  "(nat \<Rightarrow> nat \<Rightarrow> 'x tweave_scheme \<Rightarrow> 'x tweave_scheme res) \<Rightarrow> nat \<Rightarrow> nat \<Rightarrow> 'x tweave_scheme \<Rightarrow> 'x tweave_scheme res" where
  "logged run e c w = rbind (run e c w) (\<lambda>w'. Inr (w'\<lparr>ran := ran w' @ [(c, e)]\<rparr>))"

text \<open>\<open>dom_at d w Q\<close>: the queue of domain \<open>d\<close> holds the events and cycles of \<open>Q\<close>, none in the past.\<close>

definition dom_at :: "nat \<Rightarrow> 'x weave_scheme \<Rightarrow> (nat \<rightharpoonup> nat) \<Rightarrow> bool" where
  "dom_at d w Q \<longleftrightarrow> d < length (domains w) \<and> pq_rel PQ_BLOCKS (dom_pq (domains w ! d)) Q \<and>
     pq_floor (dom_pq (domains w ! d)) \<le> curCycle (domains w ! d) \<and>
     (\<forall>e c. Q e = Some c \<longrightarrow> curCycle (domains w ! d) \<le> c)"

lemma upd_dom_simps [simp]:
  "length (domains (upd_dom d f w)) = length (domains w)" "events (upd_dom d f w) = events w"
  "limit (upd_dom d f w) = limit w" "lastLimit (upd_dom d f w) = lastLimit w" "inCSim (upd_dom d f w) = inCSim w"
  "phaseLength (upd_dom d f w) = phaseLength w"
  "d < length (domains w) \<Longrightarrow> domains (upd_dom d f w) ! d = f (domains w ! d)"
  by (simp_all add: upd_dom_def)

lemma ran_upd_dom [simp]: "ran (upd_dom d f w) = ran w"
  by (simp add: upd_dom_def)

lemma upd_dom_twice: "d < length (domains w) \<Longrightarrow> upd_dom d f (upd_dom d g w) = upd_dom d (\<lambda>dd. f (g dd)) w"
  by (simp add: upd_dom_def)

lemma dom_at_log [simp]: "dom_at d (w\<lparr>ran := l\<rparr>) Q = dom_at d w Q"
  by (simp add: dom_at_def)

lemma dom_first_ok:
  assumes "dom_at d w Q"
  shows "Q = Map.empty \<and> dom_first b d w = Inr None \<or>
    (\<exists>e c. Q e = Some c \<and> (\<forall>y k. Q y = Some k \<longrightarrow> c \<le> k) \<and> dom_first b d w = Inr (if b c then Some c else None))"
proof -
  have q: "d < length (domains w)" "pq_rel PQ_BLOCKS (dom_pq (domains w ! d)) Q" using assms by (auto simp: dom_at_def)
  show ?thesis
  proof (cases "pq_size (dom_pq (domains w ! d)) = 0")
    case True
    then show ?thesis using q cpq.count_0 [OF q(2)] by (simp add: dom_first_def)
  next
    case False
    from cpq.first_min [OF q(2) False] obtain e c where
      m: "firstCycle PQ_BLOCKS (dom_pq (domains w ! d)) = Inr c" "Q e = Some c" "\<forall>y k. Q y = Some k \<longrightarrow> c \<le> k" by blast
    have "dom_first b d w = Inr (if b c then Some c else None)" using q(1) False m(1) by (simp add: dom_first_def)
    with m show ?thesis by blast
  qed
qed

lemma next_cycle_ok:
  assumes "dom_at d w Q" "\<And>e k. Q e = Some k \<Longrightarrow> c \<le> k" "c \<le> limit w"
  shows "\<exists>n. next_cycle d w = Inr n \<and> c \<le> n \<and> (\<forall>e k. Q e = Some k \<longrightarrow> n \<le> k)"
proof -
  have q: "d < length (domains w)" "pq_rel PQ_BLOCKS (dom_pq (domains w ! d)) Q" using assms by (auto simp: dom_at_def)
  show ?thesis
  proof (cases "pq_size (dom_pq (domains w ! d)) = 0")
    case True
    then show ?thesis using q cpq.count_0 [OF q(2)] assms(3) by (simp add: next_cycle_def)
  next
    case False
    from cpq.first_min [OF q(2) False] q(1) False assms(2) show ?thesis by (auto simp: next_cycle_def)
  qed
qed

lemma dom_dequeue_ok:
  assumes "dom_at d w Q" "Q y = Some k"
  shows "\<exists>e c q. dom_dequeue d w = Inr (e, c, upd_dom d (\<lambda>dd. dd\<lparr>dom_pq := q\<rparr>) w) \<and> Q e = Some c \<and>
    (\<forall>y k. Q y = Some k \<longrightarrow> c \<le> k) \<and> curCycle (domains w ! d) \<le> c \<and>
    dom_at d (upd_dom d (\<lambda>dd. dd\<lparr>dom_pq := q, curCycle := c\<rparr>) w) (Q(e := None))"
proof -
  have q: "d < length (domains w)" "pq_rel PQ_BLOCKS (dom_pq (domains w ! d)) Q" using assms by (auto simp: dom_at_def)
  have "pq_size (dom_pq (domains w ! d)) \<noteq> 0" using cpq.count_0 [OF q(2)] assms(2) by auto
  from cpq.deq_first [OF q(2) this] obtain e c q' where
    "deq PQ_BLOCKS (dom_pq (domains w ! d)) = Inr (e, c, q')" "Q e = Some c" "pq_rel PQ_BLOCKS q' (Q(e := None))"
    "pq_floor q' \<le> c" "\<forall>y k. Q y = Some k \<longrightarrow> c \<le> k" by blast
  with q assms show ?thesis by (auto simp: dom_dequeue_def dom_at_def)
qed

subsection \<open>The contract of an event towards the loop\<close>

locale phase_runner =
  fixes run :: "nat \<Rightarrow> nat \<Rightarrow> 'x tweave_scheme \<Rightarrow> 'x tweave_scheme res"
    and inv :: "'x tweave_scheme \<Rightarrow> (nat \<rightharpoonup> nat) \<Rightarrow> bool"
    and d :: nat
    and msr :: "'x tweave_scheme \<Rightarrow> nat"
  assumes run_ok: "inv w Q \<Longrightarrow> Q e = Some c \<Longrightarrow> w1 = upd_dom d (\<lambda>dd. dd\<lparr>dom_pq := q, curCycle := c\<rparr>) w \<Longrightarrow>
      dom_at d w1 (Q(e := None)) \<Longrightarrow>
      \<exists>w' Q'. run e c w1 = Inr w' \<and> inv w' Q' \<and> dom_at d w' Q' \<and> curCycle (domains w' ! d) = c \<and>
        limit w' = limit w \<and> ran w' = ran w \<and> msr w' < msr w"
    and inv_cycle: "inv (upd_dom d (\<lambda>dd. dd\<lparr>curCycle := n\<rparr>) w) Q = inv w Q" "msr (upd_dom d (\<lambda>dd. dd\<lparr>curCycle := n\<rparr>) w) = msr w"
    and inv_log: "inv (w\<lparr>ran := l\<rparr>) Q = inv w Q" "msr (w\<lparr>ran := l\<rparr>) = msr w"
begin

lemma phase_step_ok:
  assumes i: "inv w Q" and a: "dom_at d w Q" and y: "Q y = Some k" and lt: "\<And>c. (\<forall>y k. Q y = Some k \<longrightarrow> c \<le> k) \<Longrightarrow> c \<le> k \<Longrightarrow> c < limit w"
  shows "\<exists>w' Q' e c. phase_step (logged run) d w = Inr w' \<and> inv w' Q' \<and> dom_at d w' Q' \<and> limit w' = limit w \<and>
    ran w' = ran w @ [(c, e)] \<and> msr w' < msr w \<and> curCycle (domains w ! d) \<le> c \<and> c < limit w \<and>
    c \<le> curCycle (domains w' ! d) \<and> pq_floor (dom_pq (domains w' ! d)) \<le> limit w"
proof -
  have d: "d < length (domains w)" using a by (simp add: dom_at_def)
  from dom_dequeue_ok [OF a y] obtain e c q where
    deq: "dom_dequeue d w = Inr (e, c, upd_dom d (\<lambda>dd. dd\<lparr>dom_pq := q\<rparr>) w)" "Q e = Some c"
      "\<forall>y k. Q y = Some k \<longrightarrow> c \<le> k" "curCycle (domains w ! d) \<le> c"
      "dom_at d (upd_dom d (\<lambda>dd. dd\<lparr>dom_pq := q, curCycle := c\<rparr>) w) (Q(e := None))" by blast
  have c: "c < limit w" using lt [OF deq(3)] deq(3) y by blast
  have w1: "upd_dom d (\<lambda>dd. dd\<lparr>curCycle := c\<rparr>) (upd_dom d (\<lambda>dd. dd\<lparr>dom_pq := q\<rparr>) w) =
      upd_dom d (\<lambda>dd. dd\<lparr>dom_pq := q, curCycle := c\<rparr>) w"
    by (simp add: upd_dom_twice [OF d])
  from run_ok [OF i deq(2) refl deq(5)] obtain w2 Q' where
    r: "run e c (upd_dom d (\<lambda>dd. dd\<lparr>dom_pq := q, curCycle := c\<rparr>) w) = Inr w2" and w2: "inv w2 Q'" "dom_at d w2 Q'"
      "curCycle (domains w2 ! d) = c" "limit w2 = limit w" "ran w2 = ran w" "msr w2 < msr w" by blast
  let ?w3 = "w2\<lparr>ran := ran w @ [(c, e)]\<rparr>"
  have ge: "\<And>e k. Q' e = Some k \<Longrightarrow> c \<le> k" using w2(2,3) by (auto simp: dom_at_def)
  from next_cycle_ok [of d ?w3 Q' c] w2(2,4) ge c obtain n where
    n: "next_cycle d ?w3 = Inr n" "c \<le> n" "\<forall>e k. Q' e = Some k \<longrightarrow> n \<le> k" by auto
  let ?w4 = "upd_dom d (\<lambda>dd. dd\<lparr>curCycle := n\<rparr>) ?w3"
  have "phase_step (logged run) d w = Inr ?w4"
    using d deq(1,4) w1 r w2(5) n(1,2) by (simp add: phase_step_def logged_def)
  moreover have "dom_at d ?w4 Q'" using w2(2,3) n by (auto simp: dom_at_def)
  moreover have "pq_floor (dom_pq (domains ?w4 ! d)) \<le> limit w" using w2(2,3) c by (auto simp: dom_at_def)
  moreover have "c \<le> curCycle (domains ?w4 ! d)" using w2(2) n(2) by (simp add: dom_at_def)
  moreover have "inv ?w4 Q'" "msr ?w4 < msr w" using w2(1,6) by (simp_all add: inv_cycle inv_log)
  moreover have "limit ?w4 = limit w" "ran ?w4 = ran w @ [(c, e)]" using w2(4,5) by simp_all
  ultimately show ?thesis using deq(4) c by blast
qed

lemma phase_loop_ok:
  "inv w Q \<Longrightarrow> dom_at d w Q \<Longrightarrow> pq_floor (dom_pq (domains w ! d)) \<le> limit w \<Longrightarrow> msr w < fuel \<Longrightarrow>
    \<exists>w' Q' l. phase_loop (logged run) d fuel w = Inr w' \<and> inv w' Q' \<and> dom_at d w' Q' \<and>
      curCycle (domains w' ! d) = limit w \<and> limit w' = limit w \<and> ran w' = ran w @ l \<and> sorted (map fst l) \<and>
      (\<forall>x \<in> set l. curCycle (domains w ! d) \<le> fst x \<and> fst x < limit w)"
proof (induction fuel arbitrary: w Q)
  case (Suc fuel)
  have d: "d < length (domains w)" using Suc.prems(2) by (simp add: dom_at_def)
  show ?case
  proof (cases "\<forall>y k. Q y = Some k \<longrightarrow> limit w \<le> k")
    case True
    from dom_first_ok [OF Suc.prems(2), of "\<lambda>f. f < limit w"] True
    have f: "dom_first (\<lambda>f. f < limit w) d w = Inr None" by (metis not_le)
    let ?w = "upd_dom d (\<lambda>dd. dd\<lparr>curCycle := limit w\<rparr>) w"
    have "dom_at d ?w Q" using Suc.prems(2,3) True by (auto simp: dom_at_def)
    then show ?thesis using f Suc.prems(1) d by (intro exI [of _ ?w] exI [of _ Q] exI [of _ "[]"]) (simp add: inv_cycle)
  next
    case False
    then obtain y k where y: "Q y = Some k" "k < limit w" by (auto simp: not_le)
    from dom_first_ok [OF Suc.prems(2), of "\<lambda>f. f < limit w"] obtain f where
      f: "dom_first (\<lambda>f. f < limit w) d w = Inr (Some f)"
    proof
      assume "\<exists>e c. Q e = Some c \<and> (\<forall>y k. Q y = Some k \<longrightarrow> c \<le> k) \<and>
        dom_first (\<lambda>f. f < limit w) d w = Inr (if c < limit w then Some c else None)"
      then obtain c where "\<forall>y k. Q y = Some k \<longrightarrow> c \<le> k"
        "dom_first (\<lambda>f. f < limit w) d w = Inr (if c < limit w then Some c else None)" by blast
      moreover from this(1) y have "c < limit w" by fastforce
      ultimately show thesis using that by auto
    qed (use y in auto)
    from phase_step_ok [OF Suc.prems(1,2) y(1)] y(2) obtain w1 Q1 e c where
      s: "phase_step (logged run) d w = Inr w1" and w1: "inv w1 Q1" "dom_at d w1 Q1" "limit w1 = limit w"
        "ran w1 = ran w @ [(c, e)]" "msr w1 < msr w" "curCycle (domains w ! d) \<le> c" "c < limit w"
        "c \<le> curCycle (domains w1 ! d)" "pq_floor (dom_pq (domains w1 ! d)) \<le> limit w" by fastforce
    from Suc.IH [OF w1(1,2)] w1(3,5,9) Suc.prems(4) obtain w' Q' l where
      l: "phase_loop (logged run) d fuel w1 = Inr w'" "inv w' Q'" "dom_at d w' Q'"
        "curCycle (domains w' ! d) = limit w" "limit w' = limit w" "ran w' = ran w1 @ l" "sorted (map fst l)"
        "\<forall>x \<in> set l. curCycle (domains w1 ! d) \<le> fst x \<and> fst x < limit w" by auto
    have "phase_loop (logged run) d (Suc fuel) w = Inr w'" using f s l(1) by simp
    moreover have "sorted (map fst ((c, e) # l))" using l(7,8) w1(8) by auto
    moreover have "\<forall>x \<in> set ((c, e) # l). curCycle (domains w ! d) \<le> fst x \<and> fst x < limit w"
      using l(8) w1(6-8) by auto
    moreover have "ran w' = ran w @ (c, e) # l" using l(6) w1(4) by simp
    ultimately show ?thesis using l(2-5) by blast
  qed
qed simp

end

subsection \<open>Event graphs\<close>

text \<open>
  The queue \<open>Q\<close> of domain \<open>d\<close> and the live events form a graph whose events are all of that domain
  and finish at the cycle they start.  An event in the queue has no parents left; one that waits has as many
  as live events, with multiplicity, have it as a child.  \<open>H\<close> bounds the cycle at which an event
  can start, below the horizon that the queue asserts, and the earliest start cycles that the bound phase
  gave the events are consistent with the delays.
\<close>

definition live :: "'x weave_scheme \<Rightarrow> nat set" where
  "live w = {e. events w e \<noteq> None}"

definition par :: "'x weave_scheme \<Rightarrow> nat set \<Rightarrow> nat \<Rightarrow> nat" where
  "par w A k = (\<Sum>p\<in>A. count_list (kid_list (kids (the (events w p)))) k)"

definition ev_static :: "nat \<Rightarrow> (nat \<Rightarrow> nat) \<Rightarrow> 'x weave_scheme \<Rightarrow> nat \<Rightarrow> TimingEvent \<Rightarrow> bool" where
  "ev_static d H w e t \<longleftrightarrow> ev_kind t = KPlain \<and> domain t = Some d \<and> kids_wf t \<and>
     (\<exists>m. minStartCycle t = Some m \<and> (\<forall>k \<in> set (kid_list (kids t)). \<exists>tk mk. events w k = Some tk \<and>
        minStartCycle tk = Some mk \<and> mk \<le> m + postDelay t + preDelay tk \<and> H e + postDelay t + preDelay tk \<le> H k))"

definition ev_dyn :: "(nat \<Rightarrow> nat) \<Rightarrow> (nat \<rightharpoonup> nat) \<Rightarrow> nat \<Rightarrow> TimingEvent \<Rightarrow> bool" where
  "ev_dyn H Q e t \<longleftrightarrow> (case Q e of
       Some c \<Rightarrow> ev_state t = EV_QUEUED \<and> numParents t = 0 \<and> c \<le> H e \<and> (\<exists>m. minStartCycle t = Some m \<and> m \<le> c)
     | None \<Rightarrow> ev_state t = EV_NONE \<and> numParents t \<noteq> 0 \<and> ev_cycle t + preDelay t \<le> H e)"

definition graph_ok :: "nat \<Rightarrow> (nat \<Rightarrow> nat) \<Rightarrow> 'x weave_scheme \<Rightarrow> (nat \<rightharpoonup> nat) \<Rightarrow> bool" where
  "graph_ok d H w Q \<longleftrightarrow> finite (live w) \<and> inCSim w \<and> dom Q \<subseteq> live w \<and>
     (\<forall>e. H e < lastLimit w + 10 * phaseLength w + 1000000) \<and> (\<forall>e c. Q e = Some c \<longrightarrow> lastLimit w \<le> c) \<and>
     (\<forall>e t. events w e = Some t \<longrightarrow> ev_static d H w e t \<and> ev_dyn H Q e t \<and> unat (numParents t) = par w (live w) e)"

text \<open>What running an event keeps besides the queue and the events.\<close>

definition weave_frame :: "nat \<Rightarrow> 'x tweave_scheme \<Rightarrow> 'x tweave_scheme \<Rightarrow> bool" where
  "weave_frame d w w' \<longleftrightarrow> limit w' = limit w \<and> lastLimit w' = lastLimit w \<and> inCSim w' = inCSim w \<and>
     phaseLength w' = phaseLength w \<and> ran w' = ran w \<and> curCycle (domains w' ! d) = curCycle (domains w ! d)"

lemma weave_frame_trans: "weave_frame d w w1 \<Longrightarrow> weave_frame d w1 w2 \<Longrightarrow> weave_frame d w w2"
  by (simp add: weave_frame_def)

lemma weave_frame_set_ev: "weave_frame d w (set_ev e t w)"
  by (simp add: weave_frame_def set_ev_def)

lemma dom_at_set_ev [simp]: "dom_at d (set_ev e t w) Q = dom_at d w Q"
  by (simp add: dom_at_def set_ev_def)

lemma cs_enqueue_ok:
  assumes t: "events w k = Some t" "domain t = Some d" "numParents t = 0" and a: "dom_at d w Q" "Q k = None"
    and c: "inCSim w" "lastLimit w \<le> cyc" "cyc < lastLimit w + 10 * phaseLength w + 1000000" "curCycle (domains w ! d) \<le> cyc"
  shows "\<exists>w'. cs_enqueue k cyc w = Inr w' \<and> events w' = (events w)(k \<mapsto> t\<lparr>privCycle := cyc\<rparr>) \<and>
    dom_at d w' (Q(k \<mapsto> cyc)) \<and> weave_frame d w w'"
proof -
  let ?q = "dom_pq (domains w ! d)"
  have d: "d < length (domains w)" and r: "pq_rel PQ_BLOCKS ?q Q" and f: "pq_floor ?q \<le> cyc"
    using a c(4) by (auto simp: dom_at_def)
  from cpq.enq_ok [OF r a(2) f] obtain q' where
    q': "enqueue PQ_BLOCKS k cyc ?q = Inr q'" "pq_rel PQ_BLOCKS q' (Q(k \<mapsto> cyc))" "pq_floor q' = pq_floor ?q" by blast
  let ?w = "w\<lparr>events := (events w)(k \<mapsto> t\<lparr>privCycle := cyc\<rparr>), domains := (domains w)[d := (domains w ! d)\<lparr>dom_pq := q'\<rparr>]\<rparr>"
  have "cs_enqueue k cyc w = Inr ?w"
    using t c d q'(1) by (simp add: cs_enqueue_def get_ev_def set_ev_def dom_enqueue_def)
  moreover have "dom_at d ?w (Q(k \<mapsto> cyc))" using a c(4) d q' by (auto simp: dom_at_def)
  moreover have "weave_frame d w ?w" using d by (simp add: weave_frame_def)
  ultimately show ?thesis by fastforce
qed

text \<open>The static part of an event.\<close>

definition ev_shape :: "TimingEvent \<Rightarrow> TimingEvent" where
  "ev_shape t = t\<lparr>privCycle := 0, ev_state := EV_NONE, ev_cycle := 0, numParents := 0\<rparr>"

lemma ev_shape_simps [simp]:
  "ev_shape (t\<lparr>privCycle := a\<rparr>) = ev_shape t" "ev_shape (t\<lparr>ev_state := b\<rparr>) = ev_shape t"
  "ev_shape (t\<lparr>ev_cycle := a\<rparr>) = ev_shape t" "ev_shape (t\<lparr>numParents := u\<rparr>) = ev_shape t"
  by (simp_all add: ev_shape_def)

lemma ev_shape_eqD:
  assumes "ev_shape t = ev_shape t'"
  shows "kids t = kids t'" "numChildren t = numChildren t'" "domain t = domain t'" "ev_kind t = ev_kind t'"
    "preDelay t = preDelay t'" "postDelay t = postDelay t'" "minStartCycle t = minStartCycle t'"
  using assms by (cases t; cases t'; simp add: ev_shape_def)+

text \<open>One parent of an event finishes at cycle \<open>s\<close>.\<close>

lemma base_parentDone_ok:
  assumes t: "events w k = Some t" "domain t = Some d" "unat (numParents t) = Suc n" "ev_dyn H Q k t"
    and a: "dom_at d w Q" and c: "inCSim w" "lastLimit w \<le> curCycle (domains w ! d)" "curCycle (domains w ! d) \<le> s"
    and h: "H k < lastLimit w + 10 * phaseLength w + 1000000" "s + preDelay t \<le> H k"
    and m: "minStartCycle t = Some m" "m \<le> s + preDelay t"
  shows "\<exists>w' Q' t'. base_parentDone k s w = Inr w' \<and> events w' = (events w)(k \<mapsto> t') \<and> ev_shape t' = ev_shape t \<and>
    unat (numParents t') = n \<and> ev_dyn H Q' k t' \<and> (\<forall>x. x \<noteq> k \<longrightarrow> Q' x = Q x) \<and> dom_at d w' Q' \<and> weave_frame d w w'"
proof -
  have np: "numParents t \<noteq> 0" using t(3) by auto
  then have Qk: "Q k = None" "ev_state t = EV_NONE" "ev_cycle t + preDelay t \<le> H k"
    using t(4) by (auto simp: ev_dyn_def split: option.splits)
  have n: "unat (numParents t - 1) = n" using t(3) np by (simp add: unat_sub_if' unat_eq_0)
  let ?t2 = "t\<lparr>ev_cycle := max (ev_cycle t) s, numParents := numParents t - 1\<rparr>"
  show ?thesis
  proof (cases "n = 0")
    case True
    then have z: "numParents t - 1 = 0" using n by (simp add: unat_eq_0)
    let ?t3 = "?t2\<lparr>ev_state := EV_QUEUED\<rparr>" and ?cyc = "max (ev_cycle t) s + preDelay t"
    have cyc: "lastLimit w \<le> ?cyc" "?cyc < lastLimit w + 10 * phaseLength w + 1000000" "curCycle (domains w ! d) \<le> ?cyc" "?cyc \<le> H k"
      using c(2,3) h Qk(3) by (auto simp: max_def)
    let ?w = "set_ev k ?t3 w"
    have w: "events ?w k = Some ?t3" "dom_at d ?w Q" "inCSim ?w" "lastLimit ?w = lastLimit w" "phaseLength ?w = phaseLength w"
      "domains ?w = domains w" using a c(1) by (simp_all add: set_ev_def) (simp add: dom_at_def)
    from cs_enqueue_ok [OF w(1) _ _ w(2) Qk(1) w(3), of ?cyc] cyc z t(2) w(4-6) obtain w' where
      w': "cs_enqueue k ?cyc ?w = Inr w'" "events w' = (events ?w)(k \<mapsto> ?t3\<lparr>privCycle := ?cyc\<rparr>)"
        "dom_at d w' (Q(k \<mapsto> ?cyc))" "weave_frame d ?w w'" by auto
    have "base_parentDone k s w = Inr w'"
      using t(1) np z Qk(2) w'(1) by (simp add: base_parentDone_def get_ev_def Let_def)
    moreover have "ev_dyn H (Q(k \<mapsto> ?cyc)) k (?t3\<lparr>privCycle := ?cyc\<rparr>)" using z cyc(4) m by (simp add: ev_dyn_def)
    moreover have "events w' = (events w)(k \<mapsto> ?t3\<lparr>privCycle := ?cyc\<rparr>)" using w'(2) by (simp add: set_ev_def)
    moreover have "weave_frame d w w'" using weave_frame_trans [OF weave_frame_set_ev w'(4)] .
    moreover have "ev_shape (?t3\<lparr>privCycle := ?cyc\<rparr>) = ev_shape t" by simp
    moreover have "unat (numParents (?t3\<lparr>privCycle := ?cyc\<rparr>)) = n" using n by simp
    ultimately show ?thesis using w'(3) by (metis fun_upd_other)
  next
    case False
    then have nz: "numParents t - 1 \<noteq> 0" using n by auto
    have "base_parentDone k s w = Inr (set_ev k ?t2 w)"
      using t(1) np nz by (simp add: base_parentDone_def get_ev_def Let_def)
    moreover have "ev_dyn H Q k ?t2" using Qk h(2) nz by (auto simp: ev_dyn_def max_def)
    ultimately show ?thesis using n a weave_frame_set_ev
      by (intro exI [of _ "set_ev k ?t2 w"] exI [of _ Q] exI [of _ ?t2]) (simp add: set_ev_def weave_frame_def dom_at_def)
  qed
qed

text \<open>The children of a finishing event \<open>e\<close>: \<open>rest\<close> are still to be told, \<open>N\<close> counts the parents
  among the other events.\<close>

definition mid :: "(nat \<Rightarrow> nat) \<Rightarrow> 'x weave_scheme \<Rightarrow> (nat \<Rightarrow> nat) \<Rightarrow> nat \<Rightarrow> 'x weave_scheme \<Rightarrow> (nat \<rightharpoonup> nat) \<Rightarrow> nat list \<Rightarrow> bool" where
  "mid H w0 N e w Q rest \<longleftrightarrow>
     (\<forall>x. map_option ev_shape (events w x) = map_option ev_shape (events w0 x)) \<and> Q e = None \<and> dom Q \<subseteq> live w0 \<and>
     (\<forall>x t. x \<noteq> e \<longrightarrow> events w x = Some t \<longrightarrow> ev_dyn H Q x t \<and> unat (numParents t) = N x + count_list rest x)"

lemma mid_live: "mid H w0 N e w Q rest \<Longrightarrow> live w = live w0"
proof -
  assume "mid H w0 N e w Q rest"
  then have "map_option ev_shape (events w x) = map_option ev_shape (events w0 x)" for x by (simp add: mid_def)
  then have "events w x = None \<longleftrightarrow> events w0 x = None" for x by (metis option.map_disc_iff)
  then show ?thesis by (simp add: live_def)
qed

lemma kids_done:
  assumes w0: "\<And>k. k \<in> set rest \<Longrightarrow> \<exists>tk mk. events w0 k = Some tk \<and> domain tk = Some d \<and> minStartCycle tk = Some mk \<and>
      mk \<le> s + preDelay tk \<and> s + preDelay tk \<le> H k"
  shows "mid H w0 N e w Q rest \<Longrightarrow> e \<notin> set rest \<Longrightarrow> dom_at d w Q \<Longrightarrow> inCSim w \<Longrightarrow>
    lastLimit w \<le> curCycle (domains w ! d) \<Longrightarrow> curCycle (domains w ! d) \<le> s \<Longrightarrow>
    (\<And>x. H x < lastLimit w + 10 * phaseLength w + 1000000) \<Longrightarrow>
    \<exists>w' Q'. mfold (\<lambda>k. base_parentDone k s) rest w = Inr w' \<and> mid H w0 N e w' Q' [] \<and> dom_at d w' Q' \<and>
      weave_frame d w w' \<and> events w' e = events w e"
  using w0
proof (induction rest arbitrary: w Q)
  case Nil
  then show ?case by (auto simp: weave_frame_def)
next
  case (Cons k rest)
  obtain tk mk where tk: "events w0 k = Some tk" "domain tk = Some d" "minStartCycle tk = Some mk"
      "mk \<le> s + preDelay tk" "s + preDelay tk \<le> H k" using Cons.prems(8) [of k] by auto
  have "map_option ev_shape (events w k) = Some (ev_shape tk)" using Cons.prems(1) tk(1) by (simp add: mid_def)
  then obtain t where t: "events w k = Some t" "ev_shape t = ev_shape tk" by auto
  note sh = ev_shape_eqD [OF t(2)]
  have ke: "k \<noteq> e" using Cons.prems(2) by auto
  then have dyn: "ev_dyn H Q k t" "unat (numParents t) = Suc (N k + count_list rest k)"
    using Cons.prems(1) t(1) by (auto simp: mid_def)
  from base_parentDone_ok [OF t(1) _ dyn(2,1) Cons.prems(3-6) Cons.prems(7)] tk(2-5) sh obtain w1 Q1 t1 where
    b: "base_parentDone k s w = Inr w1" "events w1 = (events w)(k \<mapsto> t1)" "ev_shape t1 = ev_shape t"
      "unat (numParents t1) = N k + count_list rest k" "ev_dyn H Q1 k t1" "\<forall>x. x \<noteq> k \<longrightarrow> Q1 x = Q x"
      "dom_at d w1 Q1" "weave_frame d w w1" by auto
  have m1: "mid H w0 N e w1 Q1 rest"
    unfolding mid_def
  proof (intro conjI allI impI)
    show "map_option ev_shape (events w1 x) = map_option ev_shape (events w0 x)" for x
      using Cons.prems(1) b(2,3) t tk(1) by (cases "x = k") (auto simp: mid_def)
    show "Q1 e = None" using Cons.prems(1) b(6) ke by (simp add: mid_def)
    have "dom Q1 \<subseteq> insert k (dom Q)" using b(6) by (metis domIff insertI1 insertI2 subsetI)
    moreover have "dom Q \<subseteq> live w0" using Cons.prems(1) by (simp add: mid_def)
    moreover have "k \<in> live w0" using tk(1) by (simp add: live_def)
    ultimately show "dom Q1 \<subseteq> live w0" by blast
    fix x t' assume x: "x \<noteq> e" "events w1 x = Some t'"
    show "ev_dyn H Q1 x t'"
      using x b(2,5,6) Cons.prems(1) by (cases "x = k") (auto simp: mid_def ev_dyn_def)
    show "unat (numParents t') = N x + count_list rest x"
      using x b(2,4) Cons.prems(1) by (cases "x = k") (auto simp: mid_def)
  qed
  have f: "lastLimit w1 = lastLimit w" "inCSim w1" "phaseLength w1 = phaseLength w" "curCycle (domains w1 ! d) = curCycle (domains w ! d)"
    using b(8) Cons.prems(4) by (auto simp: weave_frame_def)
  have e: "events w1 e = events w e" using b(2) ke by simp
  from Cons.IH [OF m1 _ b(7) f(2)] f Cons.prems(2,5-8) obtain w' Q' where
    r: "mfold (\<lambda>k. base_parentDone k s) rest w1 = Inr w'" "mid H w0 N e w' Q' []" "dom_at d w' Q'"
      "weave_frame d w1 w'" "events w' e = events w1 e" by auto
  show ?case using b(1) r e weave_frame_trans [OF b(8) r(4)] by auto
qed

lemma par_remove: "finite A \<Longrightarrow> e \<in> A \<Longrightarrow> par w A k = par w (A - {e}) k + count_list (kid_list (kids (the (events w e)))) k"
  by (simp add: par_def sum.remove)

lemma par_cong: "(\<And>p. p \<in> A \<Longrightarrow> kids (the (events w p)) = kids (the (events w' p))) \<Longrightarrow> par w A k = par w' A k"
  by (simp add: par_def)

text \<open>The run of an event that finishes when it starts.\<close>

definition plain_run :: "nat \<Rightarrow> nat \<Rightarrow> nat \<Rightarrow> 'x weave_scheme \<Rightarrow> 'x weave_scheme res" where
  "plain_run fuel = ev_run (event_done fuel) fuel"

lemma dom_enqueue_events: "dom_enqueue e d c w = Inr w' \<Longrightarrow> events w' = events w"
  by (auto simp: dom_enqueue_def res_simps)

lemma cs_enqueue_events:
  assumes "cs_enqueue k c w = Inr w'"
  shows "\<exists>t. events w k = Some t \<and> events w' = (events w)(k \<mapsto> t\<lparr>privCycle := c\<rparr>)"
proof -
  obtain t d where t: "events w k = Some t" "dom_enqueue k d c (set_ev k (t\<lparr>privCycle := c\<rparr>) w) = Inr w'"
    using assms by (auto simp: cs_enqueue_def res_simps get_ev_def)
  then show ?thesis using dom_enqueue_events [OF t(2)] by (simp add: set_ev_def)
qed

lemma base_parentDone_events:
  assumes "base_parentDone k s w = Inr w'"
  shows "\<exists>t t'. events w k = Some t \<and> events w' = (events w)(k \<mapsto> t') \<and> ev_shape t' = ev_shape t"
proof -
  obtain t where t: "events w k = Some t" using assms by (auto simp: base_parentDone_def res_simps get_ev_def)
  let ?t2 = "t\<lparr>ev_cycle := max (ev_cycle t) s, numParents := numParents t - 1\<rparr>"
  show ?thesis
  proof (cases "numParents t - 1 = 0")
    case True
    then have e: "cs_enqueue k (max (ev_cycle t) s + preDelay t) (set_ev k (?t2\<lparr>ev_state := EV_QUEUED\<rparr>) w) = Inr w'"
      using assms t by (auto simp: base_parentDone_def res_simps get_ev_def Let_def)
    from cs_enqueue_events [OF e] t show ?thesis by (auto simp: set_ev_def)
  next
    case False
    then have "w' = set_ev k ?t2 w"
      using assms t by (auto simp: base_parentDone_def res_simps get_ev_def Let_def)
    then show ?thesis using t by (auto simp: set_ev_def)
  qed
qed

lemma mfold_eq_on:
  assumes "keeps_kids P g e ys" "\<And>c w. c \<in> set ys \<Longrightarrow> P w \<Longrightarrow> h c w = g c w"
  shows "P w \<Longrightarrow> mfold h ys w = mfold g ys w"
  using assms
proof (induction ys arbitrary: w)
  case (Cons y ys)
  have eq: "h y w = g y w" using Cons.prems by simp
  show ?case
  proof (cases "g y w")
    case (Inr w1)
    then have "P w1" using keeps_kids_step [OF Cons.prems(2) _ Inr Cons.prems(1)] by simp
    moreover have "keeps_kids P g e ys" using keeps_kids_mono [OF Cons.prems(2)] by auto
    ultimately have "mfold h ys w1 = mfold g ys w1" using Cons.IH Cons.prems(3) by simp
    then show ?thesis using eq Inr by simp
  qed (simp add: eq)
qed simp

text \<open>Visiting the children of a plain event whose children are plain.\<close>

lemma done_visit:
  assumes t: "events w e = Some t" "kids_wf t" and ne: "e \<notin> set (kid_list (kids t))"
    and k: "\<And>k. k \<in> set (kid_list (kids t)) \<Longrightarrow> \<exists>tk. events w k = Some tk \<and> ev_kind tk = KPlain"
  shows "visitChildren (\<lambda>_ c. parentDone (Suc fuel) c s) e w = mfold (\<lambda>k. base_parentDone k s) (kid_list (kids t)) w"
proof -
  let ?K = "kid_list (kids t)"
  let ?P = "\<lambda>w :: 'a weave_scheme. \<forall>k \<in> set ?K. \<exists>tk. events w k = Some tk \<and> ev_kind tk = KPlain"
  have eq: "parentDone (Suc fuel) c s w = base_parentDone c s w" if "c \<in> set ?K" "?P w" for c and w :: "'a weave_scheme"
    using bspec [OF that(2,1)] parentDone_plain by blast
  have keep: "keeps_kids ?P (\<lambda>k. base_parentDone k s) e ?K"
    unfolding keeps_kids_def
  proof (intro ballI allI impI)
    fix c and w w' :: "'a weave_scheme"
    assume c: "c \<in> set ?K" "?P w" "base_parentDone c s w = Inr w'"
    from base_parentDone_events [OF c(3)] obtain tc tc' where
      ev: "events w c = Some tc" "events w' = (events w)(c \<mapsto> tc')" "ev_shape tc' = ev_shape tc" by blast
    have "\<exists>tk. events w' k = Some tk \<and> ev_kind tk = KPlain" if "k \<in> set ?K" for k
      using bspec [OF c(2) that] ev(1,2) ev_shape_eqD(4) [OF ev(3)] by (cases "k = c") simp_all
    then have "?P w'" by blast
    moreover have "same_kids e w w'" using ev(2) ne c(1) by (auto simp: same_kids_def)
    ultimately show "?P w' \<and> same_kids e w w'" by blast
  qed
  have keep': "keeps_kids ?P (\<lambda>c. parentDone (Suc fuel) c s) e ?K"
    using keep eq unfolding keeps_kids_def by (metis (no_types, lifting))
  have P: "?P w" using k by blast
  show ?thesis
    by (rule trans [OF visitChildren_eq [OF t keep' P] mfold_eq_on [OF keep eq P]])
qed

lemma not_own_child:
  assumes g: "graph_ok d H w Q" and e: "events w e = Some t" "numParents t = 0" and x: "events w x = Some tx"
  shows "e \<notin> set (kid_list (kids tx))"
proof -
  have "unat (numParents t) = par w (live w) e" "finite (live w)" using g e(1) by (auto simp: graph_ok_def)
  then have "par w (live w) e = 0" "finite (live w)" using e(2) by simp_all
  moreover have "x \<in> live w" using x by (simp add: live_def)
  ultimately have "count_list (kid_list (kids (the (events w x)))) e = 0" by (simp add: par_def)
  then show ?thesis using x by (simp add: count_list_0_iff)
qed

lemma ev_static_shape:
  assumes "ev_static d H w e t" "ev_shape t' = ev_shape t"
    and "\<And>k tk. k \<in> set (kid_list (kids t)) \<Longrightarrow> events w k = Some tk \<Longrightarrow> \<exists>tk'. events w' k = Some tk' \<and> ev_shape tk' = ev_shape tk"
  shows "ev_static d H w' e t'"
proof -
  note sh = ev_shape_eqD [OF assms(2)]
  obtain m where m: "minStartCycle t = Some m" and k: "\<forall>k \<in> set (kid_list (kids t)). \<exists>tk mk. events w k = Some tk \<and>
      minStartCycle tk = Some mk \<and> mk \<le> m + postDelay t + preDelay tk \<and> H e + postDelay t + preDelay tk \<le> H k"
    using assms(1) by (auto simp: ev_static_def)
  have "\<exists>tk mk. events w' k = Some tk \<and> minStartCycle tk = Some mk \<and> mk \<le> m + postDelay t + preDelay tk \<and>
      H e + postDelay t + preDelay tk \<le> H k" if c: "k \<in> set (kid_list (kids t))" for k
  proof -
    from bspec [OF k c] obtain tk mk where tk: "events w k = Some tk" "minStartCycle tk = Some mk"
      "mk \<le> m + postDelay t + preDelay tk" "H e + postDelay t + preDelay tk \<le> H k" by blast
    from assms(3) [OF c tk(1)] obtain tk' where tk': "events w' k = Some tk'" "ev_shape tk' = ev_shape tk" by blast
    show ?thesis using tk tk'(1) ev_shape_eqD(5,7) [OF tk'(2)] by auto
  qed
  moreover have "kids_wf t'" using assms(1) sh(1,2) by (simp add: ev_static_def kids_wf_def)
  ultimately show ?thesis using assms(1) sh m by (simp add: ev_static_def)
qed

lemma plain_run_ok:
  fixes w :: "'x tweave_scheme"
  assumes g: "graph_ok d H w Q" and e: "Q e = Some c" and w1: "w1 = upd_dom d (\<lambda>dd. dd\<lparr>dom_pq := q, curCycle := c\<rparr>) w"
    and a: "dom_at d w1 (Q(e := None))"
  shows "\<exists>w' Q'. plain_run (Suc fuel) e c w1 = Inr w' \<and> graph_ok d H w' Q' \<and> dom_at d w' Q' \<and>
    curCycle (domains w' ! d) = c \<and> limit w' = limit w \<and> ran w' = ran w \<and> card (live w') < card (live w)"
proof -
  have "e \<in> live w" using g e by (auto simp: graph_ok_def)
  then obtain t where t: "events w e = Some t" by (auto simp: live_def)
  have st: "ev_static d H w e t" "ev_dyn H Q e t" using g t by (auto simp: graph_ok_def)
  then obtain m where m: "minStartCycle t = Some m" "m \<le> c" and dy: "numParents t = 0" "ev_state t = EV_QUEUED" "c \<le> H e"
    using e by (auto simp: ev_dyn_def)
  have k: "ev_kind t = KPlain" "domain t = Some d" "kids_wf t" using st(1) by (auto simp: ev_static_def)
  have no: "e \<notin> set (kid_list (kids tx))" if "events w x = Some tx" for x tx
    by (rule not_own_child [OF g t dy(1) that])
  let ?K = "kid_list (kids t)" and ?t3 = "t\<lparr>ev_state := EV_DONE\<rparr>"
  let ?w3 = "set_ev e ?t3 w1" and ?s = "c + postDelay t" and ?N = "par w (live w - {e})" and ?Q = "Q(e := None)"
  have ev3: "events ?w3 = (events w)(e \<mapsto> ?t3)" by (simp add: w1 set_ev_def)
  have d: "d < length (domains w)" using a by (simp add: dom_at_def w1)
  have cur: "curCycle (domains ?w3 ! d) = c" using d by (simp add: w1 set_ev_def)
  have gk: "\<exists>tk mk. events w k = Some tk \<and> domain tk = Some d \<and> ev_kind tk = KPlain \<and> minStartCycle tk = Some mk \<and>
      mk \<le> m + postDelay t + preDelay tk \<and> H e + postDelay t + preDelay tk \<le> H k" if c: "k \<in> set ?K" for k
  proof -
    obtain tk mk where "events w k = Some tk" "minStartCycle tk = Some mk"
      "mk \<le> m + postDelay t + preDelay tk" "H e + postDelay t + preDelay tk \<le> H k"
      using st(1) c m(1) unfolding ev_static_def by fastforce
    moreover from this(1) have "ev_static d H w k tk" using g by (auto simp: graph_ok_def)
    ultimately show ?thesis by (auto simp: ev_static_def)
  qed
  have w0: "\<exists>tk mk. events ?w3 k = Some tk \<and> domain tk = Some d \<and> minStartCycle tk = Some mk \<and>
      mk \<le> ?s + preDelay tk \<and> ?s + preDelay tk \<le> H k" if c: "k \<in> set ?K" for k
  proof -
    have "k \<noteq> e" using no [OF t] c by auto
    then show ?thesis using gk [OF c] m(2) dy(3) unfolding ev3 by fastforce
  qed
  have fin: "finite (live w)" using g by (simp add: graph_ok_def)
  have par: "par w (live w) x = ?N x + count_list ?K x" for x
    using par_remove [OF fin \<open>e \<in> live w\<close>, of w x] t by simp
  have lv: "live ?w3 = live w" using t unfolding live_def ev3 by auto
  have md: "mid H ?w3 ?N e ?w3 ?Q ?K"
    unfolding mid_def
  proof (intro conjI allI impI)
    show "dom ?Q \<subseteq> live ?w3" using g unfolding lv by (auto simp: graph_ok_def)
    fix x tx assume x: "x \<noteq> e" "events ?w3 x = Some tx"
    then have x': "events w x = Some tx" by (simp add: ev3)
    then show "ev_dyn H ?Q x tx" using g x(1) by (auto simp: graph_ok_def ev_dyn_def)
    show "unat (numParents tx) = ?N x + count_list ?K x" using g x' par by (auto simp: graph_ok_def)
  qed simp_all
  have pre: "inCSim ?w3" "lastLimit ?w3 = lastLimit w" "phaseLength ?w3 = phaseLength w" "lastLimit w \<le> c"
    using g e by (auto simp: graph_ok_def w1 set_ev_def upd_dom_def)
  from kids_done [OF w0 md no [OF t]] a pre cur g obtain w4 Q4 where
    r: "mfold (\<lambda>k. base_parentDone k ?s) ?K ?w3 = Inr w4" "mid H ?w3 ?N e w4 Q4 []" "dom_at d w4 Q4"
      "weave_frame d ?w3 w4" "events w4 e = events ?w3 e" by (auto simp: graph_ok_def)
  have vis: "visitChildren (\<lambda>_ c. parentDone (Suc fuel) c ?s) e ?w3 = Inr w4"
  proof -
    have "events ?w3 e = Some ?t3" "kids_wf ?t3" using k(3) by (simp_all add: ev3 kids_wf_def)
    moreover have "\<exists>tk. events ?w3 k = Some tk \<and> ev_kind tk = KPlain" if "k \<in> set (kid_list (kids ?t3))" for k
      using gk [of k] that no [OF t] by (auto simp: ev3)
    ultimately show ?thesis using done_visit [of ?w3 e ?t3 fuel ?s] no [OF t] r(1) by simp
  qed
  let ?w' = "free_ev e w4"
  have "set_ev e (t\<lparr>ev_state := EV_RUNNING, ev_state := EV_DONE\<rparr>) (set_ev e (t\<lparr>ev_state := EV_RUNNING\<rparr>) w1) = ?w3"
    by (simp add: set_ev_def)
  then have run: "plain_run (Suc fuel) e c w1 = Inr ?w'"
    using t m dy(2) k(1) vis
    by (simp add: plain_run_def ev_run_def simulate_def event_done_def ev_done_def get_ev_def set_ev_def w1)
  have lw: "live w4 = live w" using mid_live [OF r(2)] lv by simp
  have lw': "live ?w' = live w - {e}" unfolding lw [symmetric] by (auto simp: live_def free_ev_def)
  have card: "card (live ?w') < card (live w)" unfolding lw' by (rule card_Diff1_less [OF fin \<open>e \<in> live w\<close>])
  have ad: "dom_at d ?w' Q4" using r(3) by (simp add: dom_at_def free_ev_def)
  have fr: "curCycle (domains ?w' ! d) = c" "limit ?w' = limit w" "ran ?w' = ran w" "inCSim ?w'" "lastLimit ?w' = lastLimit w" "phaseLength ?w' = phaseLength w"
    using r(4) cur pre by (auto simp: weave_frame_def free_ev_def w1 set_ev_def upd_dom_def)
  have shape: "\<exists>t0. events w x = Some t0 \<and> ev_shape tx = ev_shape t0" if "events ?w' x = Some tx" for x tx
  proof -
    have x: "x \<noteq> e" "events w4 x = Some tx" using that by (auto simp: free_ev_def split: if_splits)
    then have "map_option ev_shape (events w x) = Some (ev_shape tx)" using r(2) unfolding mid_def ev3 by (metis fun_upd_other option.simps(9))
    then show ?thesis by auto
  qed
  have bk: "\<exists>tk'. events ?w' x = Some tk' \<and> ev_shape tk' = ev_shape tk" if "events w x = Some tk" "x \<noteq> e" for x tk
  proof -
    have "map_option ev_shape (events w4 x) = Some (ev_shape tk)" using that r(2) by (simp add: mid_def ev3)
    then show ?thesis using that(2) by (auto simp: free_ev_def)
  qed
  have "graph_ok d H ?w' Q4"
    unfolding graph_ok_def
  proof (intro conjI allI impI)
    show "finite (live ?w')" using fin by (simp add: lw')
    show "dom Q4 \<subseteq> live ?w'" using r(2) unfolding lw' mid_def lv by auto
    show "H x < lastLimit ?w' + 10 * phaseLength ?w' + 1000000" for x using g fr(5,6) by (simp add: graph_ok_def)
    show "lastLimit ?w' \<le> k" if "Q4 x = Some k" for x k
    proof -
      have "c \<le> k" using ad that fr(1) by (auto simp: dom_at_def)
      then show ?thesis using pre(4) fr(5) by simp
    qed
    fix x tx assume x: "events ?w' x = Some tx"
    from shape [OF x] obtain t0 where t0: "events w x = Some t0" "ev_shape tx = ev_shape t0" by blast
    have "ev_static d H w x t0" using g t0(1) by (auto simp: graph_ok_def)
    from ev_static_shape [OF this t0(2)] bk no [OF t0(1)] show "ev_static d H ?w' x tx" by blast
    have xe: "x \<noteq> e" "events w4 x = Some tx" using x by (auto simp: free_ev_def split: if_splits)
    then show "ev_dyn H Q4 x tx" using r(2) by (auto simp: mid_def)
    have "par ?w' (live ?w') x = ?N x"
      unfolding lw'
    proof (rule par_cong)
      fix p assume p: "p \<in> live w - {e}"
      then obtain tp where tp: "events w p = Some tp" by (auto simp: live_def)
      have "p \<noteq> e" using p by simp
      from bk [OF tp this] obtain tp' where tp': "events ?w' p = Some tp'" "ev_shape tp' = ev_shape tp" by blast
      show "kids (the (events ?w' p)) = kids (the (events w p))" using tp tp'(1) ev_shape_eqD(1) [OF tp'(2)] by simp
    qed
    then show "unat (numParents tx) = par ?w' (live ?w') x" using xe r(2) by (auto simp: mid_def)
  qed (use fr in simp)
  then show ?thesis using run ad fr(1-3) card by blast
qed

interpretation graph_phase: phase_runner "plain_run (Suc fuel)" "graph_ok d H" d "\<lambda>w. card (live w)" for d H fuel
proof unfold_locales
  fix w w1 :: "'x tweave_scheme" and Q e c q n l
  show "\<exists>w' Q'. plain_run (Suc fuel) e c w1 = Inr w' \<and> graph_ok d H w' Q' \<and> dom_at d w' Q' \<and>
      curCycle (domains w' ! d) = c \<and> limit w' = limit w \<and> ran w' = ran w \<and> card (live w') < card (live w)"
    if "graph_ok d H w Q" "Q e = Some c" "w1 = upd_dom d (\<lambda>dd. dd\<lparr>dom_pq := q, curCycle := c\<rparr>) w" "dom_at d w1 (Q(e := None))"
    by (rule plain_run_ok [OF that])
  show "graph_ok d H (upd_dom d (\<lambda>dd. dd\<lparr>curCycle := n\<rparr>) w) Q = graph_ok d H w Q"
    "card (live (upd_dom d (\<lambda>dd. dd\<lparr>curCycle := n\<rparr>) w)) = card (live w)"
    by (simp_all add: graph_ok_def live_def ev_static_def par_def)
  show "graph_ok d H (w\<lparr>ran := l\<rparr>) Q = graph_ok d H w Q" "card (live (w\<lparr>ran := l\<rparr>)) = card (live w)"
    by (simp_all add: graph_ok_def live_def ev_static_def par_def)
qed

subsection \<open>Properties\<close>

text \<open>C29. The weave phase of one domain, over any graph of events that finish when they start, runs to
  its end with no assertion failing: with more fuel than live events the loop returns, the events
  run in the order of their cycles, none before the domain's cycle or at the limit or later, every
  event that is left is at the limit or later, and the remaining graph is again well-formed.\<close>

theorem weave_phase_in_order:
  fixes w :: "'x tweave_scheme"
  assumes "graph_ok d H w Q" "dom_at d w Q" "pq_floor (dom_pq (domains w ! d)) \<le> limit w" "card (live w) < fuel"
  shows "\<exists>w' Q' l. phase_loop (logged (plain_run 1)) d fuel w = Inr w' \<and> ran w' = ran w @ l \<and>
    sorted (map fst l) \<and> (\<forall>x \<in> set l. curCycle (domains w ! d) \<le> fst x \<and> fst x < limit w) \<and>
    curCycle (domains w' ! d) = limit w \<and> (\<forall>e c. Q' e = Some c \<longrightarrow> limit w \<le> c) \<and> graph_ok d H w' Q' \<and> dom_at d w' Q'"
proof -
  from graph_phase.phase_loop_ok [OF assms, where fuela = 0] obtain w' Q' l where
    r: "phase_loop (logged (plain_run 1)) d fuel w = Inr w'" "graph_ok d H w' Q'" "dom_at d w' Q'"
      "curCycle (domains w' ! d) = limit w" "ran w' = ran w @ l" "sorted (map fst l)"
      "\<forall>x \<in> set l. curCycle (domains w ! d) \<le> fst x \<and> fst x < limit w" by auto
  moreover have "\<forall>e c. Q' e = Some c \<longrightarrow> limit w \<le> c" using r(3,4) by (auto simp: dom_at_def)
  ultimately show ?thesis by blast
qed

text \<open>A waiting event is queued exactly when the last of its parents finishes, whatever the order
  in which they do, at the latest of their cycles plus its own delay; no assertion of the queue
  fails when that lies between the domain's cycle and the horizon.\<close>

lemma event_queued_at_latest:
  fixes w :: "'x tweave_scheme"
  assumes "events w k = Some t" "ev_kind t = KPlain" "domain t = Some d" "ev_state t = EV_NONE"
    and "ss \<noteq> []" "length ss = unat (numParents t)" "dom_at d w Q" "Q k = None" "inCSim w"
    and "lastLimit w \<le> curCycle (domains w ! d)" "\<And>s. s \<in> set ss \<Longrightarrow> curCycle (domains w ! d) \<le> s"
    and "Max (set (ev_cycle t # ss)) + preDelay t < lastLimit w + 10 * phaseLength w + 1000000"
  shows "\<exists>w' t'. mfold (\<lambda>s. parentDone 1 k s) ss w = Inr w' \<and>
    dom_at d w' (Q(k \<mapsto> Max (set (ev_cycle t # ss)) + preDelay t)) \<and>
    events w' k = Some t' \<and> ev_state t' = EV_QUEUED \<and> (\<forall>e. e \<noteq> k \<longrightarrow> events w' e = events w e)"
  using assms
proof (induction ss arbitrary: w t)
  case Nil
  then show ?case by simp
next
  case (Cons s ss)
  have np: "numParents t \<noteq> 0" using Cons.prems(6) by auto
  have n: "unat (numParents t - 1) = length ss" using Cons.prems(6) np by (simp add: unat_sub_if' unat_eq_0)
  have pd: "parentDone 1 k s w = base_parentDone k s w" using parentDone_plain [OF Cons.prems(1,2), of 0] by simp
  let ?t2 = "t\<lparr>ev_cycle := max (ev_cycle t) s, numParents := numParents t - 1\<rparr>"
  show ?case
  proof (cases "ss = []")
    case True
    then have z: "numParents t - 1 = 0" using n by (simp add: unat_eq_0)
    let ?w = "set_ev k (?t2\<lparr>ev_state := EV_QUEUED\<rparr>) w" and ?cyc = "max (ev_cycle t) s + preDelay t"
    have m: "Max (set (ev_cycle t # s # ss)) = max (ev_cycle t) s" using True by simp
    have w: "events ?w k = Some (?t2\<lparr>ev_state := EV_QUEUED\<rparr>)" "dom_at d ?w Q" "inCSim ?w" "domains ?w = domains w"
      "lastLimit ?w = lastLimit w" "phaseLength ?w = phaseLength w" using Cons.prems(7,9) by (simp_all add: set_ev_def dom_at_def)
    have "curCycle (domains w ! d) \<le> s" using Cons.prems(11) by simp
    then have cyc: "lastLimit w \<le> ?cyc" "curCycle (domains w ! d) \<le> ?cyc" "?cyc < lastLimit w + 10 * phaseLength w + 1000000"
      using Cons.prems(10,12) m by auto
    from cs_enqueue_ok [OF w(1) _ _ w(2) Cons.prems(8) w(3), of ?cyc] cyc z Cons.prems(3) w(4-6) obtain w' where
      w': "cs_enqueue k ?cyc ?w = Inr w'" "events w' = (events ?w)(k \<mapsto> ?t2\<lparr>ev_state := EV_QUEUED, privCycle := ?cyc\<rparr>)"
        "dom_at d w' (Q(k \<mapsto> ?cyc))" by auto
    have "base_parentDone k s w = Inr w'"
      using Cons.prems(1,4) np z w'(1) by (simp add: base_parentDone_def get_ev_def Let_def)
    then have "mfold (\<lambda>s. parentDone 1 k s) (s # ss) w = Inr w'" using pd True by simp
    moreover have "ev_state (?t2\<lparr>ev_state := EV_QUEUED, privCycle := ?cyc\<rparr>) = EV_QUEUED" by simp
    moreover have "events w' k = Some (?t2\<lparr>ev_state := EV_QUEUED, privCycle := ?cyc\<rparr>)" "\<forall>e. e \<noteq> k \<longrightarrow> events w' e = events w e"
      using w'(2) by (simp_all add: set_ev_def)
    ultimately show ?thesis using w'(3) unfolding m by blast
  next
    case False
    then have nz: "numParents t - 1 \<noteq> 0" using n by auto
    let ?w = "set_ev k ?t2 w"
    have run: "parentDone 1 k s w = Inr ?w"
      unfolding pd using Cons.prems(1) np nz by (simp add: base_parentDone_def get_ev_def Let_def)
    have m: "Max (set (ev_cycle ?t2 # ss)) = Max (set (ev_cycle t # s # ss))"
      using False by (simp add: max.assoc)
    have d: "dom_at d ?w Q" "inCSim ?w" "domains ?w = domains w" "lastLimit ?w = lastLimit w" "phaseLength ?w = phaseLength w"
      using Cons.prems(7,9) by (simp_all add: set_ev_def dom_at_def)
    have h: "Max (set (ev_cycle ?t2 # ss)) + preDelay ?t2 < lastLimit ?w + 10 * phaseLength ?w + 1000000"
      unfolding m using Cons.prems(12) d(4,5) by simp
    have "\<exists>w' t'. mfold (\<lambda>s. parentDone 1 k s) ss ?w = Inr w' \<and>
        dom_at d w' (Q(k \<mapsto> Max (set (ev_cycle ?t2 # ss)) + preDelay ?t2)) \<and>
        events w' k = Some t' \<and> ev_state t' = EV_QUEUED \<and> (\<forall>e. e \<noteq> k \<longrightarrow> events w' e = events ?w e)"
      by (rule Cons.IH [OF _ _ _ _ False _ d(1) Cons.prems(8) d(2) _ _ h])
        (use Cons.prems(2-4,10,11) n d(3,4) in \<open>simp_all add: set_ev_def\<close>)
    then obtain w' t' where "mfold (\<lambda>s. parentDone 1 k s) ss ?w = Inr w'" "dom_at d w' (Q(k \<mapsto> Max (set (ev_cycle t # s # ss)) + preDelay t))"
      "events w' k = Some t'" "ev_state t' = EV_QUEUED" "\<forall>e. e \<noteq> k \<longrightarrow> events w' e = events ?w e"
      unfolding m by auto
    moreover have "events ?w e = events w e" if "e \<noteq> k" for e using that by (simp add: set_ev_def)
    moreover have "mfold (\<lambda>s. parentDone 1 k s) (s # ss) w = mfold (\<lambda>s. parentDone 1 k s) ss ?w" using run by simp
    ultimately show ?thesis by (intro exI [of _ w'] exI [of _ t']) metis
  qed
qed

subsection \<open>A concrete phase\<close>

definition tev :: "nat \<Rightarrow> TimingEvent" where
  "tev e = (if e = 0 then (TimingEvent_init 0 3 (Some 0) KPlain)\<lparr>ev_state := EV_QUEUED, minStartCycle := Some 4,
                              kids := Single (Some 1), numChildren := 1\<rparr>
            else (TimingEvent_init 2 0 (Some 0) KPlain)\<lparr>minStartCycle := Some 9, numParents := 1\<rparr>)"

definition tweave_of :: "nat pq \<Rightarrow> tweave" where
  "tweave_of q = \<lparr>events = (\<lambda>e. if e < 2 then Some (tev e) else None), nextEv = 2,
     domains = [\<lparr>dom_pq = q, curCycle = 0, dom_prio = 0, queuePrio = 0\<rparr>],
     lastCrossing = (\<lambda>_. (0, None)), recorders = recorders weave0, limit = 1000, lastLimit = 0, inCSim = True,
     phaseLength = 1000, ran = []\<rparr>"

lemma tweave_queue: "\<exists>q. pq_rel PQ_BLOCKS q [0 :: nat \<mapsto> 5] \<and> pq_floor q = 0"
  using cpq.enq_ok [OF pq_rel_start, where x = "0 :: nat" and c = 5] by (auto simp: pq_floor_def pq_init_def)

lemma tweave_graph:
  assumes "pq_rel PQ_BLOCKS q [0 :: nat \<mapsto> 5]" "pq_floor q = 0"
  shows "graph_ok 0 (\<lambda>e. if e = 0 then 5 else 10) (tweave_of q) [0 \<mapsto> 5]" "dom_at 0 (tweave_of q) [0 \<mapsto> 5]"
    "live (tweave_of q) = {0, 1}"
proof -
  show l: "live (tweave_of q) = {0, 1}" by (auto simp: live_def tweave_of_def)
  show "dom_at 0 (tweave_of q) [0 \<mapsto> 5]" using assms by (simp add: dom_at_def tweave_of_def)
  have "par (tweave_of q) {0, 1} e = (if e = 1 then 1 else 0)" for e
    by (simp add: par_def tweave_of_def tev_def TimingEvent_init_def)
  then show "graph_ok 0 (\<lambda>e. if e = 0 then 5 else 10) (tweave_of q) [0 \<mapsto> 5]"
    unfolding graph_ok_def l
    by (auto simp: tweave_of_def ev_static_def ev_dyn_def tev_def TimingEvent_init_def kids_wf_def less_2_cases_iff split: if_splits)
qed

theorem weave_phase_in_order_witness:
  "\<exists>q w' l. phase_loop (logged (plain_run 1)) 0 3 (tweave_of q) = Inr w' \<and> ran w' = l \<and> sorted (map fst l) \<and>
    curCycle (domains w' ! 0) = 1000"
proof -
  obtain q where q: "pq_rel PQ_BLOCKS q [0 :: nat \<mapsto> 5]" "pq_floor q = 0" using tweave_queue by blast
  have "pq_floor (dom_pq (domains (tweave_of q) ! 0)) \<le> limit (tweave_of q)" using q(2) by (simp add: tweave_of_def)
  moreover have "card (live (tweave_of q)) < 3" by (simp add: tweave_graph(3) [OF q])
  ultimately show ?thesis
    using weave_phase_in_order [OF tweave_graph(1,2) [OF q]] by (fastforce simp: tweave_of_def)
qed

lemma event_queued_at_latest_witness:
  "\<exists>q w' t'. mfold (\<lambda>s. parentDone 1 1 s) [8] (tweave_of q) = Inr w' \<and> dom_at 0 w' ([0 \<mapsto> 5](1 \<mapsto> 10)) \<and>
    events w' 1 = Some t' \<and> ev_state t' = EV_QUEUED"
proof -
  obtain q where q: "pq_rel PQ_BLOCKS q [0 :: nat \<mapsto> 5]" "pq_floor q = 0" using tweave_queue by blast
  show ?thesis
    using event_queued_at_latest [OF _ _ _ _ _ _ tweave_graph(2) [OF q], of 1 "tev 1" "[8]"]
    by (auto simp: tweave_of_def tev_def TimingEvent_init_def)
qed

end
