(* ===== verification/MTRand.thy ===== *)
theory MTRand
  imports Prelude
begin

text \<open>
  The Mersenne Twister (mtrand.h) that seeds the hash matrices and drives the random policies.  The
  state words and the values drawn are 64-bit words that hold 32-bit numbers.  \<open>pNext\<close> is an index
  into the state.  Seeding from \<open>/dev/urandom\<close> or the clock and the floating-point
  distributions are not modelled.  The loop that draws a number in a range takes fuel.
\<close>

definition MT_N :: nat where "MT_N = 624"
definition MT_M :: nat where "MT_M = 397"

record MTRand =
  mt_state :: "u64 list"
  pNext :: nat
  mt_left :: nat

definition hiBit :: "u64 \<Rightarrow> u64" where "hiBit u = u AND 0x80000000"
definition loBit :: "u64 \<Rightarrow> u64" where "loBit u = u AND 1"
definition loBits :: "u64 \<Rightarrow> u64" where "loBits u = u AND 0x7fffffff"
definition mixBits :: "u64 \<Rightarrow> u64 \<Rightarrow> u64" where "mixBits u v = hiBit u OR loBits v"
definition magic :: "u64 \<Rightarrow> u64" where "magic u = (if loBit u \<noteq> 0 then 0x9908b0df else 0)"

definition twist :: "u64 \<Rightarrow> u64 \<Rightarrow> u64 \<Rightarrow> u64" where
  "twist m s0 s1 = m XOR drop_bit 1 (mixBits s0 s1) XOR magic s1"

text \<open>\<open>initialize\<close>: word \<open>i\<close> from word \<open>i - 1\<close>.\<close>

definition init_step :: "nat \<Rightarrow> u64 \<Rightarrow> u64" where
  "init_step i r = (1812433253 * (r XOR drop_bit 30 r) + of_nat i) AND 0xffffffff"

fun init_words :: "nat \<Rightarrow> nat \<Rightarrow> u64 \<Rightarrow> u64 list" where
  "init_words 0 i r = []"
| "init_words (Suc n) i r = (let s = init_step i r in s # init_words n (Suc i) s)"

definition mt_initialize :: "u64 \<Rightarrow> u64 list" where
  "mt_initialize seed = (let s0 = seed AND 0xffffffff in s0 # init_words (MT_N - 1) 1 s0)"

text \<open>\<open>reload\<close>: the word at \<open>p\<close> is twisted from the words at \<open>q\<close>, \<open>p\<close> and \<open>r\<close>, in place.\<close>

definition twist_at :: "nat \<Rightarrow> nat \<Rightarrow> nat \<Rightarrow> u64 list \<Rightarrow> u64 list res" where
  "twist_at q p r s = rbind (aget s q) (\<lambda>a. rbind (aget s p) (\<lambda>b. rbind (aget s r) (\<lambda>c. aput s p (twist a b c))))"

definition reload_words :: "u64 list \<Rightarrow> u64 list res" where
  "reload_words s =
     rbind (mfold (\<lambda>p. twist_at (p + MT_M) p (p + 1)) [0..<MT_N - MT_M] s) (\<lambda>s1.
     rbind (mfold (\<lambda>p. twist_at (p + MT_M - MT_N) p (p + 1)) [MT_N - MT_M..<MT_N - 1] s1) (\<lambda>s2.
       twist_at (MT_M - 1) (MT_N - 1) 0 s2))"

definition mt_reload :: "MTRand \<Rightarrow> MTRand res" where
  "mt_reload m = rbind (reload_words (mt_state m)) (\<lambda>s. Inr \<lparr>mt_state = s, pNext = 0, mt_left = MT_N\<rparr>)"

definition mt_seed :: "u64 \<Rightarrow> MTRand res" where
  "mt_seed seed = mt_reload \<lparr>mt_state = mt_initialize seed, pNext = 0, mt_left = 0\<rparr>"

text \<open>Seeding with an array: the first loop mixes the array in, the second mixes again.\<close>

definition wrap_idx :: "nat \<Rightarrow> u64 list \<Rightarrow> nat \<times> u64 list" where
  "wrap_idx i s = (if MT_N \<le> i then (1, s[0 := s ! (MT_N - 1)]) else (i, s))"

definition seed_step1 :: "u64 list \<Rightarrow> nat \<times> nat \<times> u64 list \<Rightarrow> (nat \<times> nat \<times> u64 list) res" where
  "seed_step1 big = (\<lambda>(i, j, s).
     rbind (aget s i) (\<lambda>a. rbind (aget s (i - 1)) (\<lambda>b. rbind (aget big j) (\<lambda>k.
      let v = ((a XOR (b XOR drop_bit 30 b) * 1664525) + ((k AND 0xffffffff) + of_nat j)) AND 0xffffffff;
          (i', s') = wrap_idx (i + 1) (s[i := v]);
          j' = (if length big \<le> j + 1 then 0 else j + 1)
      in Inr (i', j', s')))))"

definition seed_step2 :: "nat \<times> u64 list \<Rightarrow> (nat \<times> u64 list) res" where
  "seed_step2 = (\<lambda>(i, s).
     rbind (aget s i) (\<lambda>a. rbind (aget s (i - 1)) (\<lambda>b.
      let v = ((a XOR (b XOR drop_bit 30 b) * 1566083941) - of_nat i) AND 0xffffffff
      in Inr (wrap_idx (i + 1) (s[i := v])))))"

definition mt_seed_array :: "u64 list \<Rightarrow> MTRand res" where
  "mt_seed_array big =
     rbind (mfold (\<lambda>_. seed_step1 big) [0..<max MT_N (length big)] (1, 0, mt_initialize 19650218)) (\<lambda>(i, j, s).
     rbind (mfold (\<lambda>_. seed_step2) [0..<MT_N - 1] (i, s)) (\<lambda>(i', s').
       mt_reload \<lparr>mt_state = s'[0 := 0x80000000], pNext = 0, mt_left = 0\<rparr>))"

text \<open>The four tempering steps of a draw.\<close>

definition temper :: "u64 \<Rightarrow> u64" where
  "temper s0 =
     (let s1 = s0 XOR drop_bit 11 s0;
          s2 = s1 XOR (push_bit 7 s1 AND 0x9d2c5680);
          s3 = s2 XOR (push_bit 15 s2 AND 0xefc60000)
      in s3 XOR drop_bit 18 s3)"

definition randInt :: "MTRand \<Rightarrow> (u64 \<times> MTRand) res" where
  "randInt m =
     rbind (if mt_left m = 0 then mt_reload m else Inr m) (\<lambda>m1.
     rbind (aget (mt_state m1) (pNext m1)) (\<lambda>s.
       Inr (temper s, m1\<lparr>mt_left := mt_left m1 - 1, pNext := pNext m1 + 1\<rparr>)))"

definition used_bits :: "u64 \<Rightarrow> u64" where
  "used_bits n =
     (let u1 = n OR drop_bit 1 n; u2 = u1 OR drop_bit 2 u1; u3 = u2 OR drop_bit 4 u2; u4 = u3 OR drop_bit 8 u3
      in u4 OR drop_bit 16 u4)"

fun draw :: "nat \<Rightarrow> u64 \<Rightarrow> u64 \<Rightarrow> MTRand \<Rightarrow> (u64 \<times> MTRand) res" where
  "draw 0 used n m = Inl OutOfFuel"
| "draw (Suc fuel) used n m =
     rbind (randInt m) (\<lambda>(r, m1). let i = r AND used in if n < i then draw fuel used n m1 else Inr (i, m1))"

definition randInt_below :: "nat \<Rightarrow> u64 \<Rightarrow> MTRand \<Rightarrow> (u64 \<times> MTRand) res" where
  "randInt_below fuel n m = draw fuel (used_bits n) n m"

text \<open>Saving to and loading from an array of \<open>N + 1\<close> words, and the copy.\<close>

definition mt_save :: "MTRand \<Rightarrow> u64 list" where
  "mt_save m = take MT_N (mt_state m) @ [of_nat (mt_left m)]"

definition mt_load :: "u64 list \<Rightarrow> MTRand res" where
  "mt_load a = rbind (aget a MT_N) (\<lambda>l. Inr \<lparr>mt_state = take MT_N a, pNext = MT_N - unat l, mt_left = unat l\<rparr>)"

definition mt_copy :: "MTRand \<Rightarrow> MTRand" where
  "mt_copy m = \<lparr>mt_state = take MT_N (mt_state m), pNext = MT_N - mt_left m, mt_left = mt_left m\<rparr>"

subsection \<open>Thirty-two-bit words\<close>

definition is32 :: "u64 \<Rightarrow> bool" where
  "is32 w \<longleftrightarrow> (\<forall>i. 32 \<le> i \<longrightarrow> \<not> bit w i)"

lemma is32_mask: "is32 w \<longleftrightarrow> w AND mask 32 = w"
proof
  assume "is32 w"
  then have "bit (w AND mask 32) n = bit w n" for n
    using bit_imp_le_length [of w n] not_less by (auto simp: is32_def bit_simps)
  then show "w AND mask 32 = w" by (rule bit_eqI)
next
  assume w: "w AND mask 32 = w"
  have "\<not> bit (w AND mask 32) i" if "32 \<le> i" for i using that by (simp add: bit_simps)
  then show "is32 w" unfolding is32_def w by blast
qed

lemma is32_less: "is32 w \<longleftrightarrow> w < 2 ^ 32"
proof -
  have "w AND mask 32 = take_bit 32 w" by (simp add: take_bit_eq_mask)
  moreover have "take_bit 32 w = w \<longleftrightarrow> w < 2 ^ 32"
    by (simp add: word_less_nat_alt unsigned_word_eqI [of "take_bit 32 w" w] take_bit_nat_eq_self_iff
        unsigned_take_bit_eq word_unat_eq_iff)
  ultimately show ?thesis by (simp add: is32_mask)
qed

lemma mask_32: "(0xffffffff :: u64) = mask 32"
  by (simp add: mask_eq_exp_minus_1)

lemma is32_ops [simp]:
  "is32 a \<Longrightarrow> is32 b \<Longrightarrow> is32 (a XOR b)" "is32 a \<Longrightarrow> is32 b \<Longrightarrow> is32 (a OR b)"
  "is32 a \<Longrightarrow> is32 (a AND b)" "is32 b \<Longrightarrow> is32 (a AND b)" "is32 a \<Longrightarrow> is32 (drop_bit n a)"
  by (auto simp: is32_def bit_simps)

lemma is32_and_mask [simp]: "is32 (a AND 0xffffffff)"
  unfolding mask_32 by (auto simp: is32_def bit_simps)

lemma is32_consts [simp]: "is32 0" "is32 0x80000000" "is32 0x7fffffff" "is32 0x9908b0df" "is32 0x9d2c5680" "is32 0xefc60000"
  by (simp_all add: is32_less)

subsection \<open>Well-formed generators\<close>

definition words_ok :: "u64 list \<Rightarrow> bool" where
  "words_ok s \<longleftrightarrow> length s = MT_N \<and> (\<forall>w \<in> set s. is32 w)"

definition mt_ok :: "MTRand \<Rightarrow> bool" where
  "mt_ok m \<longleftrightarrow> words_ok (mt_state m) \<and> pNext m + mt_left m = MT_N"

lemma words_ok_put: "words_ok s \<Longrightarrow> is32 v \<Longrightarrow> words_ok (s[i := v])"
  by (auto simp: words_ok_def dest: set_update_subset_insert [THEN subsetD])

lemma words_ok_get: "words_ok s \<Longrightarrow> i < MT_N \<Longrightarrow> is32 (s ! i)"
  by (simp add: words_ok_def)

lemma is32_mixBits: "is32 (mixBits a b)"
  unfolding mixBits_def hiBit_def loBits_def by (intro is32_ops(2,4) is32_consts)

lemma is32_magic: "is32 (magic a)"
  by (simp add: magic_def)

lemma is32_twist: "is32 a \<Longrightarrow> is32 (twist a b c)"
  unfolding twist_def by (intro is32_ops(1,5) is32_mixBits is32_magic)

lemma is32_xor_and: "is32 a \<Longrightarrow> is32 c \<Longrightarrow> is32 (a XOR (b AND c))"
  by (intro is32_ops(1,4))

lemma is32_temper: "is32 s \<Longrightarrow> is32 (temper s)"
  unfolding temper_def Let_def by (intro is32_ops(1,5) is32_xor_and is32_consts)

lemma twist_at_ok:
  assumes "words_ok s" "q < MT_N" "p < MT_N" "r < MT_N"
  shows "\<exists>s'. twist_at q p r s = Inr s' \<and> words_ok s'"
proof -
  have "twist_at q p r s = Inr (s[p := twist (s ! q) (s ! p) (s ! r)])"
    using assms by (simp add: twist_at_def words_ok_def)
  with words_ok_put [OF assms(1) is32_twist [OF words_ok_get [OF assms(1,2)]]] show ?thesis by blast
qed

lemma reload_words_ok:
  assumes "words_ok s"
  shows "\<exists>s'. reload_words s = Inr s' \<and> words_ok s'"
proof -
  have "\<exists>s1. mfold (\<lambda>p. twist_at (p + MT_M) p (p + 1)) [0..<MT_N - MT_M] s = Inr s1 \<and> words_ok s1"
  proof (rule mfold_inv)
    fix p s assume p: "p \<in> set [0..<MT_N - MT_M]" and s: "words_ok s"
    from p have "p < MT_N - MT_M" by simp
    then show "\<exists>s'. twist_at (p + MT_M) p (p + 1) s = Inr s' \<and> words_ok s'"
      by (intro twist_at_ok [OF s]) (simp_all add: MT_N_def MT_M_def)
  qed (rule assms)
  then obtain s1 where s1: "mfold (\<lambda>p. twist_at (p + MT_M) p (p + 1)) [0..<MT_N - MT_M] s = Inr s1" "words_ok s1" by blast
  have "\<exists>s2. mfold (\<lambda>p. twist_at (p + MT_M - MT_N) p (p + 1)) [MT_N - MT_M..<MT_N - 1] s1 = Inr s2 \<and> words_ok s2"
  proof (rule mfold_inv)
    fix p s assume p: "p \<in> set [MT_N - MT_M..<MT_N - 1]" and s: "words_ok s"
    from p have "MT_N - MT_M \<le> p" "p < MT_N - 1" by simp_all
    then show "\<exists>s'. twist_at (p + MT_M - MT_N) p (p + 1) s = Inr s' \<and> words_ok s'"
      by (intro twist_at_ok [OF s]) (simp_all add: MT_N_def MT_M_def)
  qed (rule s1(2))
  then obtain s2 where s2: "mfold (\<lambda>p. twist_at (p + MT_M - MT_N) p (p + 1)) [MT_N - MT_M..<MT_N - 1] s1 = Inr s2" "words_ok s2" by blast
  obtain s3 where "twist_at (MT_M - 1) (MT_N - 1) 0 s2 = Inr s3" "words_ok s3"
    using twist_at_ok [OF s2(2), of "MT_M - 1" "MT_N - 1" 0] by (auto simp: MT_N_def MT_M_def)
  with s1(1) s2(1) show ?thesis by (simp add: reload_words_def)
qed

lemma init_words_length: "length (init_words n i r) = n"
  by (induction n arbitrary: i r) (auto simp: Let_def)

lemma init_words_32: "w \<in> set (init_words n i r) \<Longrightarrow> is32 w"
  by (induction n arbitrary: i r) (auto simp: Let_def init_step_def)

lemma mt_initialize_ok: "words_ok (mt_initialize seed)"
  using init_words_32 by (auto simp: words_ok_def mt_initialize_def Let_def init_words_length MT_N_def)

lemma mt_reload_ok: "words_ok (mt_state m) \<Longrightarrow> \<exists>m'. mt_reload m = Inr m' \<and> mt_ok m' \<and> mt_left m' = MT_N"
  using reload_words_ok [of "mt_state m"] by (auto simp: mt_reload_def mt_ok_def)

lemma randInt_ok:
  assumes "mt_ok m"
  shows "\<exists>v m'. randInt m = Inr (v, m') \<and> v < 2 ^ 32 \<and> mt_ok m'"
proof -
  have "\<exists>m1. (if mt_left m = 0 then mt_reload m else Inr m) = Inr m1 \<and> mt_ok m1 \<and> 0 < mt_left m1"
    using mt_reload_ok [of m] assms by (auto simp: mt_ok_def MT_N_def)
  then obtain m1 where m1: "(if mt_left m = 0 then mt_reload m else Inr m) = Inr m1" "mt_ok m1" "0 < mt_left m1" by blast
  then have p: "pNext m1 < MT_N" by (simp add: mt_ok_def)
  let ?s = "mt_state m1 ! pNext m1"
  have "randInt m = Inr (temper ?s, m1\<lparr>mt_left := mt_left m1 - 1, pNext := pNext m1 + 1\<rparr>)"
    using m1 p by (simp add: randInt_def mt_ok_def words_ok_def)
  moreover have "is32 (temper ?s)" using m1(2) p by (auto simp: mt_ok_def intro: is32_temper words_ok_get)
  ultimately show ?thesis using m1(2,3) by (auto simp: is32_less mt_ok_def)
qed

fun draws :: "nat \<Rightarrow> MTRand \<Rightarrow> (u64 list \<times> MTRand) res" where
  "draws 0 m = Inr ([], m)"
| "draws (Suc k) m = rbind (randInt m) (\<lambda>(v, m1). rbind (draws k m1) (\<lambda>(vs, m2). Inr (v # vs, m2)))"

lemma draws_ok: "mt_ok m \<Longrightarrow> \<exists>vs m'. draws k m = Inr (vs, m') \<and> length vs = k \<and> (\<forall>v \<in> set vs. v < 2 ^ 32) \<and> mt_ok m'"
proof (induction k arbitrary: m)
  case (Suc k)
  from randInt_ok [OF Suc.prems] obtain v m1 where v: "randInt m = Inr (v, m1)" "v < 2 ^ 32" "mt_ok m1" by blast
  from Suc.IH [OF v(3)] v show ?case by auto
qed simp

lemma mt_seed_array_ok:
  assumes "big \<noteq> []"
  shows "\<exists>m. mt_seed_array big = Inr m \<and> mt_ok m"
proof -
  let ?P = "\<lambda>(i, j, s). 1 \<le> i \<and> i < MT_N \<and> j < length big \<and> words_ok s"
  have wrap: "words_ok s \<Longrightarrow> is32 v \<Longrightarrow> 1 \<le> i \<Longrightarrow> i < MT_N \<Longrightarrow> wrap_idx (i + 1) (s[i := v]) = (i', s') \<Longrightarrow>
      1 \<le> i' \<and> i' < MT_N \<and> words_ok s'" for s v i i' s'
    using words_ok_put [of "s[i := v]" "s[i := v] ! (MT_N - 1)" 0] words_ok_put [of s v i]
      words_ok_get [of "s[i := v]" "MT_N - 1"] by (auto simp: wrap_idx_def MT_N_def split: if_splits)
  have step1: "\<exists>t'. seed_step1 big t = Inr t' \<and> ?P t'" if "?P t" for t
  proof -
    obtain i j s where t: "t = (i, j, s)" "1 \<le> i" "i < MT_N" "j < length big" "words_ok s" using \<open>?P t\<close> by (cases t) auto
    let ?v = "((s ! i XOR (s ! (i - 1) XOR drop_bit 30 (s ! (i - 1))) * 1664525) + ((big ! j AND 0xffffffff) + of_nat j)) AND 0xffffffff"
    obtain i' s' where w: "wrap_idx (i + 1) (s[i := ?v]) = (i', s')" by fastforce
    have l: "i < length s" "i - 1 < length s" using t by (auto simp: words_ok_def)
    have "seed_step1 big t = Inr (i', if length big \<le> j + 1 then 0 else j + 1, s')"
      using t(1,4) l w by (simp add: seed_step1_def)
    moreover have "1 \<le> i' \<and> i' < MT_N \<and> words_ok s'" by (rule wrap [OF t(5) _ t(2,3) w]) (rule is32_and_mask)
    ultimately show ?thesis using t(4) assms by auto
  qed
  have "\<exists>t. mfold (\<lambda>_. seed_step1 big) [0..<max MT_N (length big)] (1, 0, mt_initialize 19650218) = Inr t \<and> ?P t"
  proof (rule mfold_inv)
    show "\<exists>t'. seed_step1 big t = Inr t' \<and> ?P t'" if "?P t" for t by (rule step1 [OF that])
    show "?P (1, 0, mt_initialize 19650218)" using assms mt_initialize_ok by (simp add: MT_N_def)
  qed
  then obtain i j s where s1: "mfold (\<lambda>_. seed_step1 big) [0..<max MT_N (length big)] (1, 0, mt_initialize 19650218) = Inr (i, j, s)"
      "1 \<le> i" "i < MT_N" "words_ok s" by auto
  let ?R = "\<lambda>(i, s). 1 \<le> i \<and> i < MT_N \<and> words_ok s"
  have step2: "\<exists>t'. seed_step2 t = Inr t' \<and> ?R t'" if "?R t" for t
  proof -
    obtain i s where t: "t = (i, s)" "1 \<le> i" "i < MT_N" "words_ok s" using \<open>?R t\<close> by (cases t) auto
    let ?v = "((s ! i XOR (s ! (i - 1) XOR drop_bit 30 (s ! (i - 1))) * 1566083941) - of_nat i) AND 0xffffffff"
    obtain i' s' where w: "wrap_idx (i + 1) (s[i := ?v]) = (i', s')" by fastforce
    have l: "i < length s" "i - 1 < length s" using t by (auto simp: words_ok_def)
    have "seed_step2 t = Inr (i', s')" using t(1) l w by (simp add: seed_step2_def)
    moreover have "1 \<le> i' \<and> i' < MT_N \<and> words_ok s'" by (rule wrap [OF t(4) _ t(2,3) w]) (rule is32_and_mask)
    ultimately show ?thesis by auto
  qed
  have "\<exists>t. mfold (\<lambda>_. seed_step2) [0..<MT_N - 1] (i, s) = Inr t \<and> ?R t"
  proof (rule mfold_inv)
    show "\<exists>t'. seed_step2 t = Inr t' \<and> ?R t'" if "?R t" for t by (rule step2 [OF that])
    show "?R (i, s)" using s1 by simp
  qed
  then obtain i' s' where s2: "mfold (\<lambda>_. seed_step2) [0..<MT_N - 1] (i, s) = Inr (i', s')" "words_ok s'" by auto
  from mt_reload_ok [where m = "\<lparr>mt_state = s'[0 := 0x80000000], pNext = 0, mt_left = 0\<rparr>"] words_ok_put [OF s2(2), where v = "0x80000000" and i = 0]
  show ?thesis using s1(1) s2(1) by (auto simp: mt_seed_array_def)
qed

subsection \<open>Properties\<close>

text \<open>A generator seeded with any number, or with any non-empty array, draws any number of values
  without an access outside its state, and every value is below 2 to the 32, although the
  state words have 64 bits.\<close>

lemma mt_draws_32_bits:
  assumes "big \<noteq> []" "mt_seed seed = Inr m \<or> mt_seed_array big = Inr m"
  shows "\<exists>vs m'. draws k m = Inr (vs, m') \<and> length vs = k \<and> (\<forall>v \<in> set vs. v < 2 ^ 32)"
proof -
  have "\<exists>m. mt_seed seed = Inr m \<and> mt_ok m"
    using mt_reload_ok [of "\<lparr>mt_state = mt_initialize seed, pNext = 0, mt_left = 0\<rparr>"] mt_initialize_ok
    by (auto simp: mt_seed_def)
  with mt_seed_array_ok [OF assms(1)] assms(2) have "mt_ok m" by auto
  from draws_ok [OF this] show ?thesis by blast
qed

lemma mt_draws_32_bits_witness:
  "\<exists>m vs m'. mt_seed_array [5, 7] = Inr m \<and> draws 1000 m = Inr (vs, m') \<and> length vs = 1000 \<and> (\<forall>v \<in> set vs. v < 2 ^ 32)"
proof -
  obtain m where "mt_seed_array [5, 7] = Inr m" using mt_seed_array_ok [of "[5, 7]"] by auto
  with mt_draws_32_bits [of "[5, 7]" 0 m 1000] show ?thesis by blast
qed

text \<open>Saving a generator and loading the array again, or copying it, gives the same generator, so
  the same values are drawn from then on.\<close>

theorem mt_save_load:
  assumes "mt_ok m"
  shows "mt_load (mt_save m) = Inr m \<and> mt_copy m = m"
proof -
  have l: "length (mt_state m) = MT_N" "mt_left m \<le> MT_N" "pNext m = MT_N - mt_left m"
    using assms by (auto simp: mt_ok_def words_ok_def)
  then have "unat (of_nat (mt_left m) :: u64) = mt_left m"
    by (simp add: unsigned_of_nat take_bit_nat_eq_self MT_N_def)
  with l show ?thesis by (simp add: mt_load_def mt_save_def mt_copy_def nth_append)
qed

theorem mt_save_load_witness:
  "\<exists>m. mt_seed 1234 = Inr m \<and> mt_load (mt_save m) = Inr m"
proof -
  obtain m where "mt_seed 1234 = Inr m" "mt_ok m"
    using mt_reload_ok [of "\<lparr>mt_state = mt_initialize 1234, pNext = 0, mt_left = 0\<rparr>"] mt_initialize_ok
    by (auto simp: mt_seed_def)
  with mt_save_load [of m] show ?thesis by blast
qed

lemma draw_find:
  "mt_ok m \<Longrightarrow> \<exists>vs m'. draws fuel m = Inr (vs, m') \<and>
    (case find (\<lambda>v. v AND u \<le> n) vs of None \<Rightarrow> draw fuel u n m = Inl OutOfFuel
     | Some v \<Rightarrow> \<exists>m2. draw fuel u n m = Inr (v AND u, m2))"
proof (induction fuel arbitrary: m)
  case (Suc fuel)
  from randInt_ok [OF Suc.prems] obtain v m1 where v: "randInt m = Inr (v, m1)" "mt_ok m1" by blast
  from Suc.IH [OF v(2)] obtain vs m' where "draws fuel m1 = Inr (vs, m')"
    "case find (\<lambda>v. v AND u \<le> n) vs of None \<Rightarrow> draw fuel u n m1 = Inl OutOfFuel
     | Some v \<Rightarrow> \<exists>m2. draw fuel u n m1 = Inr (v AND u, m2)" by blast
  with v(1) show ?case by (cases "v AND u \<le> n") (auto simp: Let_def not_le split: option.splits)
qed simp

lemma used_bits_covers: "n AND used_bits n = n"
  by (rule bit_eqI) (auto simp: used_bits_def Let_def bit_simps)



end
