(* ===== verification/OtherRepl.thy ===== *)
theory OtherRepl
  imports ReplPolicies MTRand
begin

text \<open>
  The other policies of repl_policies.h: tree LRU (whose own choice of a victim no caller reaches,
  since the class inherits \<open>rank\<close> from LRU), random, least frequently used, and the wrapper that
  profiles ordering violations.
\<close>

subsection \<open>Tree LRU\<close>

record treelru = lru +
  tree_candArray :: "nat list"
  tree_numCands :: nat
  tree_candIdx :: nat

definition tree_init :: "nat \<Rightarrow> u32 \<Rightarrow> treelru res" where
  "tree_init numLines numCands =
     check (numCands AND (numCands - 1) = 0) Panicked
      (Inr \<lparr>lru_timestamp = 1, lru_array = replicate numLines 0, tree_candArray = replicate (unat numCands) 0,
         tree_numCands = unat numCands, tree_candIdx = 0\<rparr>)"

definition tree_recordCandidate :: "nat \<Rightarrow> treelru \<Rightarrow> treelru res" where
  "tree_recordCandidate i r =
     rbind (aput (tree_candArray r) (tree_candIdx r) i) (\<lambda>c.
       Inr (r\<lparr>tree_candArray := c, tree_candIdx := tree_candIdx r + 1\<rparr>))"

text \<open>The latest timestamp of the candidates at positions \<open>is\<close>.\<close>

fun max_stamp :: "treelru \<Rightarrow> nat list \<Rightarrow> u64 \<Rightarrow> u64 res" where
  "max_stamp r [] t = Inr t"
| "max_stamp r (i # is) t =
     rbind (aget (tree_candArray r) i) (\<lambda>c. rbind (aget (lru_array r) c) (\<lambda>a. max_stamp r is (max t a)))"

function tree_search :: "treelru \<Rightarrow> nat \<Rightarrow> nat \<Rightarrow> nat res" where
  "tree_search r b e =
     (if e - b > 1
      then let pivot = b + (e - b) div 2 in
           rbind (max_stamp r [b..<pivot] 0) (\<lambda>t1. rbind (max_stamp r [pivot..<e] 0) (\<lambda>t2.
             if t2 < t1 then tree_search r pivot e else tree_search r b pivot))
      else Inr b)"
  by pat_completeness auto
termination by (relation "measure (\<lambda>(r, b, e). e - b)") auto

declare tree_search.simps [simp del]

definition tree_getBestCandidate :: "treelru \<Rightarrow> nat res" where
  "tree_getBestCandidate r =
     check (tree_candIdx r = tree_numCands r) AssertFailed
      (rbind (tree_search r 0 (tree_numCands r)) (aget (tree_candArray r)))"

definition tree_replaced :: "nat \<Rightarrow> treelru \<Rightarrow> treelru res" where
  "tree_replaced i r = rbind (aput (lru_array r) i 0) (\<lambda>a. Inr (r\<lparr>tree_candIdx := 0, lru_array := a\<rparr>))"

lemma max_stamp_spec:
  assumes "set is \<subseteq> {..<length (tree_candArray r)}" "set (tree_candArray r) \<subseteq> {..<length (lru_array r)}"
  shows "\<exists>m. max_stamp r is t = Inr m \<and> t \<le> m \<and> (\<forall>i \<in> set is. lru_array r ! (tree_candArray r ! i) \<le> m) \<and>
    (m = t \<or> (\<exists>i \<in> set is. lru_array r ! (tree_candArray r ! i) = m))"
  using assms(1)
proof (induction "is" arbitrary: t)
  case (Cons i "is")
  let ?a = "lru_array r ! (tree_candArray r ! i)"
  have i: "i < length (tree_candArray r)" "tree_candArray r ! i < length (lru_array r)"
    using Cons.prems assms(2) by (auto simp: subset_iff)
  from Cons.IH [of "max t ?a"] Cons.prems obtain m where
    m: "max_stamp r is (max t ?a) = Inr m" "max t ?a \<le> m" "\<forall>i \<in> set is. lru_array r ! (tree_candArray r ! i) \<le> m"
      "m = max t ?a \<or> (\<exists>i \<in> set is. lru_array r ! (tree_candArray r ! i) = m)" by auto
  then show ?case using i by (auto simp: max_def split: if_splits)
qed simp

text \<open>The search ends in range, and away from a position whose candidate is used last.\<close>

lemma tree_search_spec:
  assumes "set (tree_candArray r) \<subseteq> {..<length (lru_array r)}"
    and "\<And>i. i < length (tree_candArray r) \<Longrightarrow> i \<noteq> k \<Longrightarrow> lru_array r ! (tree_candArray r ! i) < lru_array r ! (tree_candArray r ! k)"
    and "b < e" "e \<le> length (tree_candArray r)"
  shows "\<exists>p. tree_search r b e = Inr p \<and> b \<le> p \<and> p < e \<and> (b \<le> k \<and> k < e \<and> 1 < e - b \<longrightarrow> p \<noteq> k)"
  using assms(3,4)
proof (induction "e - b" arbitrary: b e rule: less_induct)
  case less
  let ?st = "\<lambda>i. lru_array r ! (tree_candArray r ! i)"
  show ?case
  proof (cases "e - b > 1")
    case False
    then show ?thesis using less.prems by (auto simp: tree_search.simps [of r b e])
  next
    case True
    let ?p = "b + (e - b) div 2"
    have p: "b < ?p" "?p < e" using True by auto
    have s1: "set [b..<?p] \<subseteq> {..<length (tree_candArray r)}" "set [?p..<e] \<subseteq> {..<length (tree_candArray r)}"
      using p less.prems by auto
    obtain m1 where m1: "max_stamp r [b..<?p] 0 = Inr m1" "\<forall>i \<in> set [b..<?p]. ?st i \<le> m1" "m1 = 0 \<or> (\<exists>i \<in> set [b..<?p]. ?st i = m1)"
      using max_stamp_spec [OF s1(1) assms(1), of 0] by blast
    obtain m2 where m2: "max_stamp r [?p..<e] 0 = Inr m2" "\<forall>i \<in> set [?p..<e]. ?st i \<le> m2" "m2 = 0 \<or> (\<exists>i \<in> set [?p..<e]. ?st i = m2)"
      using max_stamp_spec [OF s1(2) assms(1), of 0] by blast
    have step: "tree_search r b e = (if m2 < m1 then tree_search r ?p e else tree_search r b ?p)"
      using True m1(1) m2(1) by (simp add: tree_search.simps [of r b e] Let_def)
    have lt: "?st i < ?st k" if "i < e" "i \<noteq> k" for i using assms(2) that less.prems by simp
    define j where "j = (if k = b then ?p else b)"
    have "j < e" "j \<noteq> k" using p by (auto simp: j_def)
    then have "unat (?st j) < unat (?st k)" using lt by (simp add: word_less_nat_alt)
    then have pos: "0 < ?st k" by (simp add: word_less_nat_alt)
    have K1: "m2 < m1" if "b \<le> k" "k < ?p"
    proof -
      have "?st k \<le> m1" using m1(2) that by auto
      moreover have "m2 < ?st k" using m2(3) pos lt that by fastforce
      ultimately show ?thesis by simp
    qed
    have K2: "\<not> m2 < m1" if "?p \<le> k" "k < e"
    proof -
      have "?st k \<le> m2" using m2(2) that by auto
      moreover have "m1 < ?st k" using m1(3) pos lt that p by fastforce
      ultimately show ?thesis by simp
    qed
    show ?thesis
    proof (cases "m2 < m1")
      case True
      have "e - ?p < e - b" using p by simp
      from less.hyps [OF this p(2) less.prems(2)] obtain q where "tree_search r ?p e = Inr q" "?p \<le> q" "q < e" by blast
      then show ?thesis using step True p K2 by (intro exI [of _ q]) (auto simp: not_le)
    next
      case False
      have "?p - b < e - b" "?p \<le> length (tree_candArray r)" using p less.prems by simp_all
      from less.hyps [OF this(1) p(1) this(2)] obtain q where "tree_search r b ?p = Inr q" "b \<le> q" "q < ?p" by blast
      then show ?thesis using step False p K1 by (intro exI [of _ q]) auto
    qed
  qed
qed

lemma tree_record_all:
  "tree_candIdx r + length cs \<le> length (tree_candArray r) \<Longrightarrow>
    \<exists>a. record_all tree_recordCandidate cs r = Inr (r\<lparr>tree_candArray := a, tree_candIdx := tree_candIdx r + length cs\<rparr>) \<and>
      length a = length (tree_candArray r) \<and>
      take (tree_candIdx r + length cs) a = take (tree_candIdx r) (tree_candArray r) @ cs"
proof (induction cs arbitrary: r)
  case Nil
  then show ?case by (intro exI [of _ "tree_candArray r"]) simp
next
  case (Cons c cs)
  let ?r = "r\<lparr>tree_candArray := (tree_candArray r)[tree_candIdx r := c], tree_candIdx := tree_candIdx r + 1\<rparr>"
  have "tree_recordCandidate c r = Inr ?r" using Cons.prems by (simp add: tree_recordCandidate_def)
  moreover obtain a where "record_all tree_recordCandidate cs ?r = Inr (?r\<lparr>tree_candArray := a, tree_candIdx := tree_candIdx ?r + length cs\<rparr>)"
      "length a = length (tree_candArray ?r)" "take (tree_candIdx ?r + length cs) a = take (tree_candIdx ?r) (tree_candArray ?r) @ cs"
    using Cons.IH [of ?r] Cons.prems by auto
  ultimately show ?case using Cons.prems by (intro exI [of _ a]) (simp add: take_append_update)
qed

text \<open>C34. Tree LRU's own choice, over a full set of candidates with stamps in range, is one of the candidates,
  and never the most recently used one when there are two or more.\<close>

theorem tree_avoids_latest:
  assumes "tree_candIdx r = 0" "tree_numCands r = length cs" "length (tree_candArray r) = length cs"
    and "2 \<le> length cs" "set cs \<subseteq> {..<length (lru_array r)}" "k < length cs"
    and "\<And>i. i < length cs \<Longrightarrow> i \<noteq> k \<Longrightarrow> lru_array r ! (cs ! i) < lru_array r ! (cs ! k)"
  shows "\<exists>r1 i. record_all tree_recordCandidate cs r = Inr r1 \<and> tree_getBestCandidate r1 = Inr (cs ! i) \<and>
    i < length cs \<and> i \<noteq> k"
proof -
  obtain a where a: "record_all tree_recordCandidate cs r = Inr (r\<lparr>tree_candArray := a, tree_candIdx := length cs\<rparr>)" "a = cs"
    using tree_record_all [of r cs] assms(1,3) by auto
  let ?r = "r\<lparr>tree_candArray := cs, tree_candIdx := length cs\<rparr>"
  obtain p where "tree_search ?r 0 (length cs) = Inr p" "p < length cs" "p \<noteq> k"
    using tree_search_spec [of ?r k 0 "length cs"] assms(4-7) by fastforce
  then have "tree_getBestCandidate ?r = Inr (cs ! p)" using assms(2) by (simp add: tree_getBestCandidate_def)
  with a \<open>p < length cs\<close> \<open>p \<noteq> k\<close> show ?thesis by blast
qed

theorem tree_avoids_latest_witness:
  "\<exists>r1 i. record_all tree_recordCandidate [2, 0, 3, 1]
       \<lparr>lru_timestamp = 9, lru_array = [4, 8, 3, 5], tree_candArray = [0, 0, 0, 0], tree_numCands = 4, tree_candIdx = 0\<rparr> = Inr r1 \<and>
     tree_getBestCandidate r1 = Inr ([2, 0, 3, 1] ! i) \<and> i \<noteq> 3"
proof -
  have "lru_array \<lparr>lru_timestamp = 9, lru_array = [4, 8, 3, 5], tree_candArray = [0, 0, 0, 0], tree_numCands = 4, tree_candIdx = 0\<rparr>
      ! ([2, 0, 3, 1] ! i) < [4, 8, 3, 5] ! ([2, 0, 3, 1] ! 3)" if "i < 4" "i \<noteq> 3" for i
  proof -
    have "i = 0 \<or> i = 1 \<or> i = 2" using that by arith
    then show ?thesis by auto
  qed
  then show ?thesis
    using tree_avoids_latest [of "\<lparr>lru_timestamp = 9, lru_array = [4, 8, 3, 5], tree_candArray = [0, 0, 0, 0], tree_numCands = 4, tree_candIdx = 0\<rparr>"
        "[2, 0, 3, 1]" 3] by fastforce
qed

subsection \<open>Random\<close>

record rand =
  rand_candArray :: "nat list"
  rand_numCands :: nat
  rnd :: MTRand
  rand_candIdx :: nat

definition rand_init :: "u32 \<Rightarrow> u64 \<Rightarrow> rand res" where
  "rand_init numCands this =
     rbind (mt_seed (0x23A5F + this)) (\<lambda>m.
       Inr \<lparr>rand_candArray = replicate (unat numCands) 0, rand_numCands = unat numCands, rnd = m, rand_candIdx = 0\<rparr>)"

definition rand_recordCandidate :: "nat \<Rightarrow> rand \<Rightarrow> rand res" where
  "rand_recordCandidate i r =
     rbind (aput (rand_candArray r) (rand_candIdx r) i) (\<lambda>c.
       Inr (r\<lparr>rand_candArray := c, rand_candIdx := rand_candIdx r + 1\<rparr>))"

definition rand_getBestCandidate :: "nat \<Rightarrow> rand \<Rightarrow> (nat \<times> rand) res" where
  "rand_getBestCandidate fuel r =
     check (rand_candIdx r = rand_numCands r) AssertFailed
      (rbind (randInt_below fuel (ucast (of_nat (rand_numCands r) - 1 :: u32)) (rnd r)) (\<lambda>(idx, m).
       rbind (aget (rand_candArray r) (unat idx)) (\<lambda>c. Inr (c, r\<lparr>rnd := m\<rparr>))))"

definition rand_replaced :: "nat \<Rightarrow> rand \<Rightarrow> rand res" where
  "rand_replaced i r = Inr (r\<lparr>rand_candIdx := 0\<rparr>)"

definition RandReplPolicy :: "nat \<Rightarrow> rand ReplPolicy" where
  "RandReplPolicy fuel =
     \<lparr>rp_update = (\<lambda>i q r. Inr r), rp_replaced = rand_replaced,
      rp_rankCands = (\<lambda>cc. legacy_rank (\<lambda>q r. r) rand_recordCandidate (rand_getBestCandidate fuel))\<rparr>"

lemma rand_record_all:
  "rand_candIdx r + length cs \<le> length (rand_candArray r) \<Longrightarrow>
    \<exists>a. record_all rand_recordCandidate cs r = Inr (r\<lparr>rand_candArray := a, rand_candIdx := rand_candIdx r + length cs\<rparr>) \<and>
      length a = length (rand_candArray r) \<and>
      take (rand_candIdx r + length cs) a = take (rand_candIdx r) (rand_candArray r) @ cs"
proof (induction cs arbitrary: r)
  case Nil
  then show ?case by (intro exI [of _ "rand_candArray r"]) simp
next
  case (Cons c cs)
  let ?r = "r\<lparr>rand_candArray := (rand_candArray r)[rand_candIdx r := c], rand_candIdx := rand_candIdx r + 1\<rparr>"
  have "rand_recordCandidate c r = Inr ?r" using Cons.prems by (simp add: rand_recordCandidate_def)
  moreover obtain a where "record_all rand_recordCandidate cs ?r = Inr (?r\<lparr>rand_candArray := a, rand_candIdx := rand_candIdx ?r + length cs\<rparr>)"
      "length a = length (rand_candArray ?r)" "take (rand_candIdx ?r + length cs) a = take (rand_candIdx ?r) (rand_candArray ?r) @ cs"
    using Cons.IH [of ?r] Cons.prems by auto
  ultimately show ?case using Cons.prems by (intro exI [of _ a]) (simp add: take_append_update)
qed

lemma used_bits_mask: "k \<le> 32 \<Longrightarrow> used_bits (mask k) = mask k"
  by (rule bit_eqI) (auto simp: used_bits_def Let_def bit_simps)

lemma ucast_mask_32: "k \<le> 32 \<Longrightarrow> ucast (mask k :: u32) = (mask k :: u64)"
  by (rule bit_eqI) (auto simp: bit_simps)

text \<open>With a power of two candidates every draw is in range, so one draw is enough.\<close>

definition rand_inv :: "rand \<Rightarrow> bool" where
  "rand_inv r \<longleftrightarrow> mt_ok (rnd r) \<and> length (rand_candArray r) = rand_numCands r \<and> (\<exists>k \<le> 32. rand_numCands r = 2 ^ k)"

lemma rand_pick:
  assumes "rand_inv r" "rand_candIdx r = rand_numCands r"
  shows "\<exists>c m. rand_getBestCandidate (Suc fuel) r = Inr (c, r\<lparr>rnd := m\<rparr>) \<and> c \<in> set (rand_candArray r) \<and> mt_ok m"
proof -
  obtain k where k: "k \<le> 32" "rand_numCands r = 2 ^ k" using assms(1) by (auto simp: rand_inv_def)
  obtain v m where v: "randInt (rnd r) = Inr (v, m)" "mt_ok m"
    using randInt_ok [of "rnd r"] assms(1) by (auto simp: rand_inv_def)
  have n: "ucast (of_nat (rand_numCands r) - 1 :: u32) = (mask k :: u64)"
    using ucast_mask_32 [OF k(1)] by (simp add: k(2) mask_eq_exp_minus_1)
  let ?i = "v AND mask k"
  have le: "?i \<le> mask k" by (simp add: word_and_le1)
  have ge: "\<not> mask k < ?i" using le by (simp add: not_less)
  have d: "randInt_below (Suc fuel) (ucast (of_nat (rand_numCands r) - 1 :: u32)) (rnd r) = Inr (?i, m)"
    using v(1) ge unfolding n by (simp add: randInt_below_def used_bits_mask [OF k(1)] Let_def)
  have "unat ?i \<le> unat (mask k :: u64)" using le by (simp add: word_le_nat_alt)
  also have "unat (mask k :: u64) = 2 ^ k - 1"
    using k(1) uint_mask_eq [where 'a = 64, of k] by (simp add: unat_eq_nat_uint min_def mask_eq_exp_minus_1 nat_diff_distrib nat_power_eq)
  finally have "unat ?i \<le> 2 ^ k - 1" .
  moreover have "0 < (2 ^ k :: nat)" by simp
  ultimately have "unat ?i < length (rand_candArray r)"
    using assms(1) k(2) unfolding rand_inv_def by linarith
  then have "rand_getBestCandidate (Suc fuel) r = Inr (rand_candArray r ! unat ?i, r\<lparr>rnd := m\<rparr>)"
      "rand_candArray r ! unat ?i \<in> set (rand_candArray r)"
    using assms(2) d by (simp_all add: rand_getBestCandidate_def)
  with v(2) show ?thesis by blast
qed

interpretation rand_rp: repl_policy "RandReplPolicy (Suc fuel)" "\<lambda>_. n" "\<lambda>r. rand_inv r \<and> rand_candIdx r = 0" rand_inv
  "\<lambda>r cs. length cs = rand_numCands r" for fuel n
proof unfold_locales
  fix r :: rand and i :: nat and q cs cc
  show "\<exists>v r'. rp_rankCands (RandReplPolicy (Suc fuel)) cc q cs r = Inr (v, r') \<and> v \<in> set cs \<and> rand_inv r' \<and> n = n \<and>
      (\<lambda>cs. length cs = rand_numCands r') = (\<lambda>cs. length cs = rand_numCands r)"
    if a: "rand_inv r \<and> rand_candIdx r = 0" "length cs = rand_numCands r"
  proof -
    have len: "length (rand_candArray r) = length cs" using a by (simp add: rand_inv_def)
    obtain c where c: "record_all rand_recordCandidate cs r = Inr (r\<lparr>rand_candArray := c, rand_candIdx := length cs\<rparr>)" "c = cs"
      using rand_record_all [of r cs] a len by auto
    let ?r = "r\<lparr>rand_candArray := cs, rand_candIdx := length cs\<rparr>"
    have "rand_inv ?r" "rand_candIdx ?r = rand_numCands ?r" using a by (auto simp: rand_inv_def)
    from rand_pick [OF this, of fuel] obtain v m where
      "rand_getBestCandidate (Suc fuel) ?r = Inr (v, ?r\<lparr>rnd := m\<rparr>)" "v \<in> set cs" "mt_ok m" by auto
    then show ?thesis using c a by (auto simp: RandReplPolicy_def legacy_rank_def rand_inv_def)
  qed
qed (auto simp: RandReplPolicy_def rand_replaced_def rand_inv_def)

subsection \<open>Least frequently used\<close>

record LFUInfo =
  info_ts :: u64
  info_acc :: u64

record LFURank =
  lfuInfo :: LFUInfo
  rank_sharers :: u32
  rank_valid :: bool

record lfu =
  lfu_timestamp :: u64
  lfu_bestCandidate :: "nat option"
  lfu_array :: "LFUInfo list"
  lfu_bestRank :: LFURank

definition lfu_rank_reset :: LFURank where
  "lfu_rank_reset = \<lparr>lfuInfo = \<lparr>info_ts = 0, info_acc = 0\<rparr>, rank_sharers = 0, rank_valid = False\<rparr>"

definition lfu_init :: "nat \<Rightarrow> lfu" where
  "lfu_init n =
     \<lparr>lfu_timestamp = 1, lfu_bestCandidate = None, lfu_array = replicate n \<lparr>info_ts = 0, info_acc = 0\<rparr>,
      lfu_bestRank = lfu_rank_reset\<rparr>"

definition lfu_lessThan :: "LFURank \<Rightarrow> LFURank \<Rightarrow> u64 \<Rightarrow> bool" where
  "lfu_lessThan r other curTs =
     (if \<not> rank_valid r \<and> rank_valid other then True
      else if rank_valid r = rank_valid other
      then (if rank_sharers r = 0 \<and> 0 < rank_sharers other then True
            else if 0 < rank_sharers r \<and> rank_sharers other = 0 then False
            else if info_acc (lfuInfo r) = 0 then True
            else if info_acc (lfuInfo other) = 0 then False
            else (curTs - info_ts (lfuInfo other)) div info_acc (lfuInfo other) <
                 (curTs - info_ts (lfuInfo r)) div info_acc (lfuInfo r))
      else False)"

text \<open>A count of all ones makes the divisor of the average 0, which the processor traps.\<close>

definition lfu_update :: "nat \<Rightarrow> MemReq \<Rightarrow> lfu \<Rightarrow> lfu res" where
  "lfu_update i req r =
     rbind (aget (lfu_array r) i) (\<lambda>a.
     check (info_acc a + 1 \<noteq> 0) Panicked
      (Inr (r\<lparr>lfu_array := (lfu_array r)[i := \<lparr>info_ts = (info_acc a * info_ts a + lfu_timestamp r) div (info_acc a + 1),
                                             info_acc = info_acc a + 1\<rparr>],
              lfu_timestamp := lfu_timestamp r + 1000\<rparr>)))"

definition lfu_candRank :: "ccinfo \<Rightarrow> lfu \<Rightarrow> nat \<Rightarrow> LFURank res" where
  "lfu_candRank cc r i =
     rbind (aget (lfu_array r) i) (\<lambda>a.
       Inr \<lparr>lfuInfo = a, rank_sharers = cc_numSharers cc i, rank_valid = cc_isValid cc i\<rparr>)"

definition lfu_recordCandidate :: "ccinfo \<Rightarrow> nat \<Rightarrow> lfu \<Rightarrow> lfu res" where
  "lfu_recordCandidate cc i r =
     rbind (lfu_candRank cc r i) (\<lambda>c.
       Inr (if lfu_bestCandidate r = None \<or> lfu_lessThan c (lfu_bestRank r) (lfu_timestamp r)
            then r\<lparr>lfu_bestRank := c, lfu_bestCandidate := Some i\<rparr> else r))"

definition lfu_getBestCandidate :: "lfu \<Rightarrow> (nat \<times> lfu) res" where
  "lfu_getBestCandidate r = (case lfu_bestCandidate r of None \<Rightarrow> Inl AssertFailed | Some b \<Rightarrow> Inr (b, r))"

definition lfu_replaced :: "nat \<Rightarrow> lfu \<Rightarrow> lfu res" where
  "lfu_replaced i r =
     rbind (aget (lfu_array r) i) (\<lambda>a.
       Inr (r\<lparr>lfu_bestCandidate := None, lfu_bestRank := lfu_rank_reset, lfu_array := (lfu_array r)[i := a\<lparr>info_acc := 0\<rparr>]\<rparr>))"

definition LFUReplPolicy :: "lfu ReplPolicy" where
  "LFUReplPolicy =
     \<lparr>rp_update = lfu_update, rp_replaced = lfu_replaced,
      rp_rankCands = (\<lambda>cc. legacy_rank (\<lambda>q r. r) (lfu_recordCandidate cc) lfu_getBestCandidate)\<rparr>"

text \<open>The order the policy means: an invalid line before a valid one, then one without sharers, then one
  that was never accessed, then the one with the greatest time per access.\<close>

definition lfu_class :: "ccinfo \<Rightarrow> lfu \<Rightarrow> nat \<Rightarrow> nat" where
  "lfu_class cc r i =
     (if cc_isValid cc i then 4 else 0) + (if cc_numSharers cc i = 0 then 0 else 2) +
     (if info_acc (lfu_array r ! i) = 0 then 0 else 1)"

definition lfu_invFreq :: "lfu \<Rightarrow> nat \<Rightarrow> u64" where
  "lfu_invFreq r i = (lfu_timestamp r - info_ts (lfu_array r ! i)) div info_acc (lfu_array r ! i)"

definition lfu_before :: "ccinfo \<Rightarrow> lfu \<Rightarrow> nat \<Rightarrow> nat \<Rightarrow> bool" where
  "lfu_before cc r v c \<longleftrightarrow> lfu_class cc r v < lfu_class cc r c \<or>
     lfu_class cc r v = lfu_class cc r c \<and>
       (info_acc (lfu_array r ! v) = 0 \<or> lfu_invFreq r c \<le> lfu_invFreq r v)"

definition lfu_rank_of :: "ccinfo \<Rightarrow> lfu \<Rightarrow> nat \<Rightarrow> LFURank" where
  "lfu_rank_of cc r i =
     \<lparr>lfuInfo = lfu_array r ! i, rank_sharers = cc_numSharers cc i, rank_valid = cc_isValid cc i\<rparr>"

lemma lfu_lessThan_before:
  "lfu_lessThan (lfu_rank_of cc r a) (lfu_rank_of cc r b) (lfu_timestamp r) \<Longrightarrow> lfu_before cc r a b"
  "\<not> lfu_lessThan (lfu_rank_of cc r a) (lfu_rank_of cc r b) (lfu_timestamp r) \<Longrightarrow> lfu_before cc r b a"
  by (auto simp: lfu_lessThan_def lfu_before_def lfu_class_def lfu_invFreq_def lfu_rank_of_def word_neq_0_conv split: if_splits)

lemma lfu_before_trans: "lfu_before cc r a b \<Longrightarrow> lfu_before cc r b c \<Longrightarrow> lfu_before cc r a c"
  by (auto simp: lfu_before_def lfu_class_def split: if_splits)

lemma lfu_before_refl: "lfu_before cc r a a"
  by (simp add: lfu_before_def)

text \<open>What ranking reads of the state does not change while it records.\<close>

lemma lfu_before_best [simp]:
  "lfu_before cc (r\<lparr>lfu_bestRank := b, lfu_bestCandidate := x\<rparr>) = lfu_before cc r"
  "lfu_rank_of cc (r\<lparr>lfu_bestRank := b, lfu_bestCandidate := x\<rparr>) = lfu_rank_of cc r"
  by (simp_all add: fun_eq_iff lfu_before_def lfu_class_def lfu_invFreq_def lfu_rank_of_def)

lemma lfu_record_all:
  assumes "lfu_bestCandidate r = Some b" "lfu_bestRank r = lfu_rank_of cc r b" "set cs \<subseteq> {..<length (lfu_array r)}"
  shows "\<exists>v. record_all (lfu_recordCandidate cc) cs r =
      Inr (r\<lparr>lfu_bestRank := lfu_rank_of cc r v, lfu_bestCandidate := Some v\<rparr>) \<and>
    v \<in> insert b (set cs) \<and> (\<forall>c \<in> insert b (set cs). lfu_before cc r v c)"
  using assms
proof (induction cs arbitrary: r b)
  case Nil
  then show ?case by (intro exI [of _ b]) (simp add: lfu_before_refl)
next
  case (Cons c cs)
  let ?w = "if lfu_lessThan (lfu_rank_of cc r c) (lfu_rank_of cc r b) (lfu_timestamp r) then c else b"
  let ?r = "r\<lparr>lfu_bestRank := lfu_rank_of cc r ?w, lfu_bestCandidate := Some ?w\<rparr>"
  have step: "lfu_recordCandidate cc c r = Inr ?r"
    using Cons.prems by (simp add: lfu_recordCandidate_def lfu_candRank_def lfu_rank_of_def)
  obtain v where v: "record_all (lfu_recordCandidate cc) cs ?r = Inr (?r\<lparr>lfu_bestRank := lfu_rank_of cc r v, lfu_bestCandidate := Some v\<rparr>)"
      "v \<in> insert ?w (set cs)" "\<forall>c \<in> insert ?w (set cs). lfu_before cc r v c"
    using Cons.IH [of ?r ?w] Cons.prems(3) by auto
  have w: "lfu_before cc r ?w c" "lfu_before cc r ?w b"
    using lfu_lessThan_before [of cc r c b] by (auto simp: lfu_before_refl)
  have "lfu_before cc r v ?w" using v(3) by blast
  then have "lfu_before cc r v c" "lfu_before cc r v b" using w lfu_before_trans by blast+
  then show ?case using step v by (intro exI [of _ v]) (auto split: if_splits)
qed

text \<open>The least-frequently-used policy evicts a candidate that no other candidate is better than: an
  invalid one if there is one, then one without sharers, then one never accessed, then one with the
  greatest time per access.\<close>

lemma lfu_victim:
  assumes "lfu_bestCandidate r = None" and "set cs \<subseteq> {..<length (lfu_array r)}" and "cs \<noteq> []"
  shows "\<exists>v r'. rp_rankCands LFUReplPolicy cc q cs r = Inr (v, r') \<and> v \<in> set cs \<and> (\<forall>c \<in> set cs. lfu_before cc r v c)"
proof -
  obtain b cs' where cs: "cs = b # cs'" using assms(3) by (cases cs) auto
  let ?r = "r\<lparr>lfu_bestRank := lfu_rank_of cc r b, lfu_bestCandidate := Some b\<rparr>"
  have "lfu_recordCandidate cc b r = Inr ?r"
    using assms cs by (simp add: lfu_recordCandidate_def lfu_candRank_def lfu_rank_of_def)
  moreover obtain v where "record_all (lfu_recordCandidate cc) cs' ?r =
      Inr (?r\<lparr>lfu_bestRank := lfu_rank_of cc r v, lfu_bestCandidate := Some v\<rparr>)"
      "v \<in> set cs" "\<forall>c \<in> set cs. lfu_before cc r v c"
    using lfu_record_all [of ?r b cc cs'] assms(2) cs by auto
  ultimately show ?thesis using cs by (simp add: LFUReplPolicy_def legacy_rank_def lfu_getBestCandidate_def)
qed

lemma lfu_victim_witness:
  "\<exists>r r'. after_updates LFUReplPolicy [(0, req_of 1), (1, req_of 2), (0, req_of 1)] (lfu_init 2) = Inr r \<and>
     rp_rankCands LFUReplPolicy \<lparr>cc_numSharers = \<lambda>_. 0, cc_isValid = \<lambda>_. True\<rparr> (req_of 5) [0, 1] r = Inr (1, r')"
proof -
  let ?cc = "\<lparr>cc_numSharers = \<lambda>_. 0, cc_isValid = \<lambda>_. True\<rparr>"
  let ?r = "\<lparr>lfu_timestamp = 3001, lfu_bestCandidate = None,
     lfu_array = [\<lparr>info_ts = 1001, info_acc = 2\<rparr>, \<lparr>info_ts = 1001, info_acc = 1\<rparr>], lfu_bestRank = lfu_rank_reset\<rparr>"
  have two: "lfu_init 2 = \<lparr>lfu_timestamp = 1, lfu_bestCandidate = None,
     lfu_array = [\<lparr>info_ts = 0, info_acc = 0\<rparr>, \<lparr>info_ts = 0, info_acc = 0\<rparr>], lfu_bestRank = lfu_rank_reset\<rparr>"
    by (simp add: lfu_init_def numeral_2_eq_2)
  have run: "after_updates LFUReplPolicy [(0, req_of 1), (1, req_of 2), (0, req_of 1)] (lfu_init 2) = Inr ?r"
    unfolding two by (simp add: LFUReplPolicy_def lfu_update_def)
  obtain v r' where v: "rp_rankCands LFUReplPolicy ?cc (req_of 5) [0, 1] ?r = Inr (v, r')" "v \<in> set [0, 1]"
      "\<forall>c \<in> set [0, 1]. lfu_before ?cc ?r v c"
    using lfu_victim [of ?r "[0, 1]" ?cc "req_of 5"] by auto
  have "\<not> lfu_before ?cc ?r 0 1" by (simp add: lfu_before_def lfu_class_def lfu_invFreq_def)
  with v(2,3) have "v = 1" by auto
  with run v(1) show ?thesis by blast
qed

subsection \<open>Profiling ordering violations\<close>

record AccTimes =
  read_time :: u64
  write_time :: u64

record 'r profviol =
  prof_base :: 'r
  accTimes :: "AccTimes list"
  profRAW :: u64
  profWAR :: u64
  profRAR :: u64
  profWAW :: u64
  profNoViolAcc :: u64
  profAAE :: u64
  profNoViolEv :: u64
  replCycle :: u64

definition prof_init :: "'r \<Rightarrow> nat \<Rightarrow> 'r profviol" where
  "prof_init t n =
     \<lparr>prof_base = t, accTimes = replicate n \<lparr>read_time = 0, write_time = 0\<rparr>, profRAW = 0, profWAR = 0, profRAR = 0,
      profWAW = 0, profNoViolAcc = 0, profAAE = 0, profNoViolEv = 0, replCycle = 0\<rparr>"

text \<open>Of a violation: whether the access nearest in time after this one is a read.\<close>

definition prof_readViol :: "u64 \<Rightarrow> AccTimes \<Rightarrow> bool res" where
  "prof_readViol cyc a =
     (if cyc < min (read_time a) (write_time a) then Inr (read_time a < write_time a)
      else if cyc < read_time a then Inr True
      else check (cyc < write_time a) AssertFailed (Inr False))"

definition prof_count :: "bool \<Rightarrow> bool \<Rightarrow> 'r profviol \<Rightarrow> 'r profviol" where
  "prof_count rd readViol p =
     (if rd then (if readViol then p\<lparr>profRAR := profRAR p + 1\<rparr> else p\<lparr>profRAW := profRAW p + 1\<rparr>)
      else (if readViol then p\<lparr>profWAR := profWAR p + 1\<rparr> else p\<lparr>profWAW := profWAW p + 1\<rparr>))"

definition prof_update :: "'r ReplPolicy \<Rightarrow> nat \<Rightarrow> MemReq \<Rightarrow> 'r profviol \<Rightarrow> 'r profviol res" where
  "prof_update T i req p0 =
     rbind (rp_update T i req (prof_base p0)) (\<lambda>b1. let p = p0\<lparr>prof_base := b1\<rparr>; rd = (acctype req = GETS) in
     check (rd \<or> acctype req = GETX) AssertFailed
      (rbind (aget (accTimes p) i) (\<lambda>a.
       rbind (if cycle req < max (read_time a) (write_time a)
              then rbind (prof_readViol (cycle req) a) (\<lambda>rv. Inr (prof_count rd rv p))
              else Inr (p\<lparr>profNoViolAcc := profNoViolAcc p + 1\<rparr>)) (\<lambda>p1.
       let a' = (if rd then a\<lparr>read_time := max (read_time a) (cycle req)\<rparr> else a\<lparr>write_time := max (write_time a) (cycle req)\<rparr>) in
       rbind (rp_update T i req (prof_base p1)) (\<lambda>b2.
         Inr (p1\<lparr>accTimes := (accTimes p1)[i := a'], prof_base := b2\<rparr>))))))"

definition prof_replaced :: "'r ReplPolicy \<Rightarrow> nat \<Rightarrow> 'r profviol \<Rightarrow> 'r profviol res" where
  "prof_replaced T i p0 =
     rbind (rp_replaced T i (prof_base p0)) (\<lambda>b. let p = p0\<lparr>prof_base := b\<rparr> in
     rbind (aget (accTimes p) i) (\<lambda>a.
       let p1 = (if replCycle p < max (read_time a) (write_time a) then p\<lparr>profAAE := profAAE p + 1\<rparr>
                 else p\<lparr>profNoViolEv := profNoViolEv p + 1\<rparr>)
       in Inr (p1\<lparr>accTimes := (accTimes p1)[i := \<lparr>read_time = 0, write_time = 0\<rparr>]\<rparr>)))"

text \<open>Ranking is the base policy's, inherited: nothing calls \<open>startReplacement\<close>.\<close>

definition ProfViolReplPolicy :: "'r ReplPolicy \<Rightarrow> 'r profviol ReplPolicy" where
  "ProfViolReplPolicy T =
     \<lparr>rp_update = prof_update T, rp_replaced = prof_replaced T,
      rp_rankCands = (\<lambda>cc q cs p. rbind (rp_rankCands T cc q cs (prof_base p)) (\<lambda>(v, b). Inr (v, p\<lparr>prof_base := b\<rparr>)))\<rparr>"

text \<open>Histories of accesses and evictions, latest first, and the greatest cycle a line was accessed at since its
  last eviction.\<close>

datatype prof_op = Access nat MemReq | Evict nat

definition prof_op_ok :: "nat \<Rightarrow> prof_op \<Rightarrow> bool" where
  "prof_op_ok n x = (case x of Access i q \<Rightarrow> i < n \<and> IsGet (acctype q) | Evict i \<Rightarrow> i < n)"

definition prof_step :: "'r ReplPolicy \<Rightarrow> prof_op \<Rightarrow> 'r \<Rightarrow> 'r res" where
  "prof_step P x p = (case x of Access i q \<Rightarrow> rp_update P i q p | Evict i \<Rightarrow> rp_replaced P i p)"

fun prof_run :: "'r ReplPolicy \<Rightarrow> prof_op list \<Rightarrow> 'r \<Rightarrow> 'r res" where
  "prof_run P [] p = Inr p"
| "prof_run P (x # h) p = rbind (prof_run P h p) (prof_step P x)"

fun peak :: "prof_op list \<Rightarrow> nat \<Rightarrow> u64" where
  "peak [] i = 0"
| "peak (Access j q # h) i = (if i = j then max (cycle q) (peak h i) else peak h i)"
| "peak (Evict j # h) i = (if i = j then 0 else peak h i)"

fun accesses :: "prof_op list \<Rightarrow> nat" where
  "accesses [] = 0"
| "accesses (Access j q # h) = Suc (accesses h)"
| "accesses (Evict j # h) = accesses h"

fun used_evictions :: "prof_op list \<Rightarrow> nat" where
  "used_evictions [] = 0"
| "used_evictions (Access j q # h) = used_evictions h"
| "used_evictions (Evict j # h) = (if 0 < peak h j then 1 else 0) + used_evictions h"

fun evictions :: "prof_op list \<Rightarrow> nat" where
  "evictions [] = 0"
| "evictions (Access j q # h) = evictions h"
| "evictions (Evict j # h) = Suc (evictions h)"

definition acc_total :: "'r profviol \<Rightarrow> u64" where
  "acc_total p = profRAR p + profRAW p + profWAR p + profWAW p + profNoViolAcc p"

definition prof_inv :: "nat \<Rightarrow> prof_op list \<Rightarrow> lru profviol \<Rightarrow> bool" where
  "prof_inv n h p \<longleftrightarrow> length (lru_array (prof_base p)) = n \<and> length (accTimes p) = n \<and> replCycle p = 0 \<and>
     (\<forall>i < n. max (read_time (accTimes p ! i)) (write_time (accTimes p ! i)) = peak h i) \<and>
     acc_total p = of_nat (accesses h) \<and> lru_timestamp (prof_base p) = 1 + 2 * of_nat (accesses h) \<and>
     profAAE p = of_nat (used_evictions h) \<and> profAAE p + profNoViolEv p = of_nat (evictions h)"

lemma prof_count_simps [simp]:
  "prof_base (prof_count rd v p) = prof_base p" "accTimes (prof_count rd v p) = accTimes p"
  "replCycle (prof_count rd v p) = replCycle p" "profAAE (prof_count rd v p) = profAAE p"
  "profNoViolEv (prof_count rd v p) = profNoViolEv p" "acc_total (prof_count rd v p) = acc_total p + 1"
  by (simp_all add: prof_count_def acc_total_def)

lemma prof_readViol_ok: "cyc < max (read_time a) (write_time a) \<Longrightarrow> \<exists>v. prof_readViol cyc a = Inr v"
  by (auto simp: prof_readViol_def min_def max_def split: if_splits)

lemma prof_inv_access:
  assumes "prof_inv n h p" "i < n" "IsGet (acctype q)"
  shows "\<exists>p'. prof_update (LRUReplPolicy sa) i q p = Inr p' \<and> prof_inv n (Access i q # h) p'"
proof -
  let ?a = "accTimes p ! i"
  let ?p = "\<lambda>p1. p1\<lparr>accTimes := (accTimes p1)[i := (if acctype q = GETS then ?a\<lparr>read_time := max (read_time ?a) (cycle q)\<rparr>
      else ?a\<lparr>write_time := max (write_time ?a) (cycle q)\<rparr>)]\<rparr>"
  let ?b = "prof_base p\<lparr>lru_array := (lru_array (prof_base p))[i := lru_timestamp (prof_base p)],
      lru_timestamp := lru_timestamp (prof_base p) + 1\<rparr>"
  let ?c = "?b\<lparr>lru_array := (lru_array (prof_base p))[i := lru_timestamp (prof_base p) + 1],
      lru_timestamp := lru_timestamp (prof_base p) + 2\<rparr>"
  have u: "rp_update (LRUReplPolicy sa) i q (prof_base p) = Inr ?b" "rp_update (LRUReplPolicy sa) i q ?b = Inr ?c"
    using assms(1,2) by (simp_all add: prof_inv_def LRUReplPolicy_def lru_update_def add.assoc)
  obtain p1 where p1: "prof_update (LRUReplPolicy sa) i q p = Inr ((?p p1)\<lparr>prof_base := ?c\<rparr>)"
      "accTimes p1 = accTimes p" "replCycle p1 = replCycle p" "profAAE p1 = profAAE p" "profNoViolEv p1 = profNoViolEv p"
      "acc_total p1 = acc_total p + 1"
  proof (cases "cycle q < max (read_time ?a) (write_time ?a)")
    case True
    obtain v where v: "prof_readViol (cycle q) ?a = Inr v" using prof_readViol_ok [OF True] by blast
    have "prof_update (LRUReplPolicy sa) i q p =
        Inr ((?p (prof_count (acctype q = GETS) v (p\<lparr>prof_base := ?b\<rparr>)))\<lparr>prof_base := ?c\<rparr>)"
      using True assms u v by (auto simp: prof_update_def prof_inv_def IsGet_def Let_def)
    then show ?thesis by (rule that) (simp_all add: acc_total_def [of "p\<lparr>prof_base := ?b\<rparr>"] acc_total_def [of p])
  next
    case False
    have "prof_update (LRUReplPolicy sa) i q p =
        Inr ((?p (p\<lparr>prof_base := ?b, profNoViolAcc := profNoViolAcc p + 1\<rparr>))\<lparr>prof_base := ?c\<rparr>)"
      using False assms u by (auto simp: prof_update_def prof_inv_def IsGet_def Let_def)
    then show ?thesis by (rule that) (simp_all add: acc_total_def)
  qed
  have "prof_inv n (Access i q # h) ((?p p1)\<lparr>prof_base := ?c\<rparr>)"
    using assms p1(2-6) by (auto simp: prof_inv_def acc_total_def nth_list_update ac_simps)
  with p1(1) show ?thesis by blast
qed

lemma prof_inv_evict:
  assumes "prof_inv n h p" "i < n"
  shows "\<exists>p'. prof_replaced (LRUReplPolicy sa) i p = Inr p' \<and> prof_inv n (Evict i # h) p'"
proof -
  let ?b = "prof_base p\<lparr>lru_array := (lru_array (prof_base p))[i := 0]\<rparr>"
  let ?p = "(if 0 < peak h i then p\<lparr>prof_base := ?b, profAAE := profAAE p + 1\<rparr>
      else p\<lparr>prof_base := ?b, profNoViolEv := profNoViolEv p + 1\<rparr>)\<lparr>accTimes := (accTimes p)[i := \<lparr>read_time = 0, write_time = 0\<rparr>]\<rparr>"
  have "max (read_time (accTimes p ! i)) (write_time (accTimes p ! i)) = peak h i"
    using assms by (simp add: prof_inv_def)
  then have run: "prof_replaced (LRUReplPolicy sa) i p = Inr ?p"
    using assms by (simp add: prof_replaced_def prof_inv_def LRUReplPolicy_def lru_replaced_def Let_def)
  have sum: "profAAE ?p + profNoViolEv ?p = (profAAE p + profNoViolEv p) + 1" "acc_total ?p = acc_total p"
    by (simp_all add: acc_total_def)
  have "prof_inv n (Evict i # h) ?p"
    using assms unfolding prof_inv_def sum by (auto simp: nth_list_update)
  with run show ?thesis by blast
qed

text \<open>Profiling over LRU never fails.  Every access is counted in exactly one of the five access counters,
  every eviction in one of the two eviction counters.  An eviction counts as preceded by a later access
  whenever its line was accessed at a nonzero cycle, whatever the time of the eviction, because nothing
  records that time; and each access advances the LRU clock twice.\<close>

lemma prof_counts:
  assumes "\<forall>x \<in> set h. prof_op_ok n x"
  shows "\<exists>p. prof_run (ProfViolReplPolicy (LRUReplPolicy True)) h (prof_init (lru_init n) n) = Inr p \<and>
    profRAR p + profRAW p + profWAR p + profWAW p + profNoViolAcc p = of_nat (accesses h) \<and>
    profAAE p + profNoViolEv p = of_nat (evictions h) \<and> profAAE p = of_nat (used_evictions h) \<and>
    lru_timestamp (prof_base p) = 1 + 2 * of_nat (accesses h)"
proof -
  have "\<exists>p. prof_run (ProfViolReplPolicy (LRUReplPolicy True)) h (prof_init (lru_init n) n) = Inr p \<and> prof_inv n h p"
    using assms
  proof (induction h)
    case Nil
    then show ?case by (simp add: prof_init_def lru_init_def prof_inv_def acc_total_def)
  next
    case (Cons x h)
    then obtain p where p: "prof_run (ProfViolReplPolicy (LRUReplPolicy True)) h (prof_init (lru_init n) n) = Inr p" "prof_inv n h p" by auto
    show ?case
    proof (cases x)
      case (Access i q)
      then show ?thesis using p prof_inv_access [OF p(2), of i q True] Cons.prems
        by (auto simp: prof_op_ok_def prof_step_def ProfViolReplPolicy_def)
    next
      case (Evict i)
      then show ?thesis using p prof_inv_evict [OF p(2), of i True] Cons.prems
        by (auto simp: prof_op_ok_def prof_step_def ProfViolReplPolicy_def)
    qed
  qed
  then show ?thesis by (auto simp: prof_inv_def acc_total_def)
qed

lemma prof_counts_witness:
  "\<exists>p. prof_run (ProfViolReplPolicy (LRUReplPolicy True)) [Evict 1, Evict 0, Access 0 ((req_of 8)\<lparr>cycle := 7\<rparr>)]
       (prof_init (lru_init 2) 2) = Inr p \<and>
     profAAE p = 1 \<and> profNoViolEv p = 1 \<and> lru_timestamp (prof_base p) = 3"
proof -
  let ?h = "[Evict 1, Evict 0, Access 0 ((req_of 8)\<lparr>cycle := 7\<rparr>)]"
  have "\<forall>x \<in> set ?h. prof_op_ok 2 x" by (simp add: prof_op_ok_def IsGet_def req_of_def MemReq_init_def)
  from prof_counts [OF this] obtain p where p: "prof_run (ProfViolReplPolicy (LRUReplPolicy True)) ?h (prof_init (lru_init 2) 2) = Inr p"
      "profAAE p + profNoViolEv p = of_nat (evictions ?h)" "profAAE p = of_nat (used_evictions ?h)"
      "lru_timestamp (prof_base p) = 1 + 2 * of_nat (accesses ?h)" by blast
  have "(1 :: u64) + x = 2 \<Longrightarrow> x = 1" for x by (metis add_left_cancel one_add_one)
  then show ?thesis using p by simp
qed

end
