(* ===== verification/Prefetcher.thy ===== *)
theory Prefetcher
  imports MemCtrls
begin

text \<open>
  The stream prefetcher (prefetcher.h, prefetcher.cpp), which stands between a cache and its parent: 16 entries
  of one page (64 lines) each, found by page number and replaced by least recent use, that detect the stride of
  the accesses to their page and fetch ahead.

  Positions and strides are 32-bit words: the code mixes \<open>uint32_t\<close> and \<open>int32_t\<close>, so the sums wrap and the
  division that gives the depth is unsigned; where the code compares signed values the model does too.  The
  parent is a parameter \<open>acc\<close>, as in the coherence controllers, and \<open>TempState t\<close> is the local variable that a
  prefetch request points to.  The constructor leaves the tags and the entries as the allocator gives them, so
  they are arguments of \<open>StreamPrefetcher_init\<close>.
\<close>

subsection \<open>Saturating counters\<close>

definition sat_dec :: "int \<Rightarrow> int" where "sat_dec c = max (c - 1) 0"
definition sat_inc :: "int \<Rightarrow> int \<Rightarrow> int" where "sat_inc m c = min (c + 1) m"
definition sat_pred :: "int \<Rightarrow> int \<Rightarrow> bool" where "sat_pred t c \<longleftrightarrow> t \<le> c"

definition conf_max :: int where "conf_max = 3"
definition conf_thres :: int where "conf_thres = 2"
definition conf_init :: int where "conf_init = 1"

subsection \<open>State\<close>

record AccessTimes =
  startCycle :: u64
  respCycle :: u64

definition times_fill :: "u32 \<Rightarrow> u64 \<Rightarrow> AccessTimes" where
  "times_fill s r = \<lparr>startCycle = ucast s, respCycle = r\<rparr>"

record pf_entry =
  pf_stride :: u32
  pf_conf :: int
  pf_times :: "AccessTimes list"
  pf_valid :: "bool list"
  pf_lastPos :: u32
  pf_lastLastPos :: u32
  pf_lastPrefetchPos :: u32
  pf_lastCycle :: u64
  pf_ts :: u64

record StreamPrefetcher =
  pf_timestamp :: u64
  pf_tag :: "u64 list"
  pf_array :: "pf_entry list"
  pf_childId :: nat
  pfAccesses :: u64
  pfPrefetches :: u64
  pfDoublePrefetches :: u64
  pfPageHits :: u64
  pfHits :: u64
  pfShortHits :: u64
  pfStrideSwitches :: u64
  pfLowConfAccs :: u64

definition pf_alloc :: "u64 \<Rightarrow> pf_entry \<Rightarrow> pf_entry" where
  "pf_alloc curCycle e =
     e\<lparr>pf_stride := 1, pf_lastPos := 0, pf_lastLastPos := 0, pf_lastPrefetchPos := 0, pf_conf := conf_init,
       pf_valid := replicate 64 False, pf_lastCycle := curCycle\<rparr>"

definition StreamPrefetcher_init :: "u64 list \<Rightarrow> pf_entry list \<Rightarrow> StreamPrefetcher" where
  "StreamPrefetcher_init tags es =
     \<lparr>pf_timestamp = 0, pf_tag = tags, pf_array = map (\<lambda>e. e\<lparr>pf_conf := conf_init, pf_valid := replicate 64 False\<rparr>) es,
      pf_childId = 0, pfAccesses = 0, pfPrefetches = 0, pfDoublePrefetches = 0, pfPageHits = 0, pfHits = 0,
      pfShortHits = 0, pfStrideSwitches = 0, pfLowConfAccs = 0\<rparr>"

definition pf_setParents :: "nat \<Rightarrow> 'p list \<Rightarrow> 'n option \<Rightarrow> StreamPrefetcher \<Rightarrow> ('p \<times> StreamPrefetcher) res" where
  "pf_setParents cid parents network p =
     check (length parents = 1) Panicked (check (network = None) Panicked (Inr (hd parents, p\<lparr>pf_childId := cid\<rparr>)))"

definition pf_setChildren :: "'c list \<Rightarrow> 'n option \<Rightarrow> 'c res" where
  "pf_setChildren children network =
     check (length children = 1) Panicked (check (network = None) Panicked (Inr (hd children)))"

subsection \<open>An access\<close>

text \<open>The entry of a page (the last one that matches), and the entry to replace: least recently used, among
  those whose last cycle is not far ahead.\<close>

fun pf_find :: "nat \<Rightarrow> u64 list \<Rightarrow> u64 \<Rightarrow> nat \<Rightarrow> nat" where
  "pf_find i [] page idx = idx"
| "pf_find i (t # ts) page idx = pf_find (Suc i) ts page (if page = t then i else idx)"

fun pf_cand :: "nat \<Rightarrow> pf_entry list \<Rightarrow> u64 \<Rightarrow> nat \<Rightarrow> u64 \<Rightarrow> nat" where
  "pf_cand i [] reqCycle cand score = cand"
| "pf_cand i (e # es) reqCycle cand score =
     (if reqCycle + 500 < pf_lastCycle e then pf_cand (Suc i) es reqCycle cand score
      else if pf_ts e < score then pf_cand (Suc i) es reqCycle i (pf_ts e)
      else pf_cand (Suc i) es reqCycle cand score)"

definition pf_miss :: "u64 \<Rightarrow> u32 \<Rightarrow> u64 \<Rightarrow> StreamPrefetcher \<Rightarrow> StreamPrefetcher res" where
  "pf_miss page pos reqCycle p =
     (let c = pf_cand 0 (pf_array p) reqCycle 16 (- 1) in
      if c < 16
      then rbind (aget (pf_array p) c) (\<lambda>e.
           rbind (aput (pf_tag p) c page) (\<lambda>tg.
             Inr (p\<lparr>pf_array := (pf_array p)[c := (pf_alloc reqCycle e)\<lparr>pf_lastPos := pos, pf_ts := pf_timestamp p\<rparr>],
                    pf_timestamp := pf_timestamp p + 1, pf_tag := tg\<rparr>)))
      else Inr p)"

text \<open>Part 1 of a page hit: whether the line was prefetched, and the response time this gives.\<close>

definition pf_prefetch_hit ::
  "u32 \<Rightarrow> u64 \<Rightarrow> pf_entry \<Rightarrow> StreamPrefetcher \<Rightarrow> (bool \<times> u64 \<times> pf_entry \<times> StreamPrefetcher) res" where
  "pf_prefetch_hit pos resp e p =
     rbind (aget (pf_valid e) (unat pos)) (\<lambda>v.
      if v
      then rbind (aget (pf_times e) (unat pos)) (\<lambda>t.
        let shortPrefetch = resp < respCycle t; resp' = max (respCycle t) resp in
        Inr (shortPrefetch, resp',
          e\<lparr>pf_valid := (pf_valid e)[unat pos := False], pf_lastCycle := max resp' (pf_lastCycle e)\<rparr>,
          p\<lparr>pfHits := pfHits p + 1, pfShortHits := pfShortHits p + (if shortPrefetch then 1 else 0)\<rparr>))
      else Inr (False, resp, e, p))"

text \<open>Where to prefetch and how far ahead the stream is; the depth is an unsigned quotient.\<close>

definition pf_fetchDepth :: "u32 \<Rightarrow> u32 \<Rightarrow> u32 \<Rightarrow> u32" where
  "pf_fetchDepth lastPrefetchPos lastPos stride = (lastPrefetchPos - lastPos) div stride"

definition pf_target :: "u32 \<Rightarrow> u32 \<Rightarrow> pf_entry \<Rightarrow> u32 \<times> u32" where
  "pf_target pos stride e =
     (let depth = pf_fetchDepth (pf_lastPrefetchPos e) (pf_lastPos e) stride in
      if sint depth < 1 then (pos + stride, 1) else (pf_lastPrefetchPos e + stride, depth))"

definition pf_mark :: "u32 \<Rightarrow> u64 \<Rightarrow> u64 \<Rightarrow> pf_entry \<Rightarrow> pf_entry" where
  "pf_mark pos reqCycle r e =
     e\<lparr>pf_valid := (pf_valid e)[unat pos := True], pf_times := (pf_times e)[unat pos := times_fill (ucast reqCycle) r]\<rparr>"

definition pf_second ::
  "(MemReq \<Rightarrow> 'x coh_scheme \<Rightarrow> (u64 \<times> 'x coh_scheme) res) \<Rightarrow> MemReq \<Rightarrow> u64 \<Rightarrow> u32 \<Rightarrow> u32 \<Rightarrow>
   pf_entry \<times> StreamPrefetcher \<times> 'x coh_scheme \<Rightarrow> (u32 \<times> pf_entry \<times> StreamPrefetcher \<times> 'x coh_scheme) res" where
  "pf_second acc pfReq reqCycle pos stride = (\<lambda>(e, p, w).
     rbind (acc (pfReq\<lparr>lineAddr := lineAddr pfReq + scast stride\<rparr>) w) (\<lambda>(r, w1).
       Inr (pos + stride, pf_mark (pos + stride) reqCycle r e,
            p\<lparr>pfPrefetches := pfPrefetches p + 1, pfDoublePrefetches := pfDoublePrefetches p + 1\<rparr>, w1)))"

definition pf_issue ::
  "(MemReq \<Rightarrow> 'x coh_scheme \<Rightarrow> (u64 \<times> 'x coh_scheme) res) \<Rightarrow> nat \<Rightarrow> MemReq \<Rightarrow> u64 \<Rightarrow> u32 \<Rightarrow> u32 \<Rightarrow> bool \<Rightarrow>
   pf_entry \<times> StreamPrefetcher \<times> 'x coh_scheme \<Rightarrow> (pf_entry \<times> StreamPrefetcher \<times> 'x coh_scheme) res" where
  "pf_issue acc t req reqCycle pos stride shortPrefetch = (\<lambda>(e, p, w).
     check (stride \<noteq> 0) Panicked
      (let (prefetchPos, depth) = pf_target pos stride e in
       if prefetchPos < 64
       then rbind (aget (pf_valid e) (unat prefetchPos)) (\<lambda>v.
        if v then Inr (e, p, w)
        else
         (let pfReq = MemReq_init (lineAddr req + ucast prefetchPos - ucast pos) GETS (childId req) (TempState t) reqCycle
                        (childLock req) I (srcId req) PREFETCH in
          rbind (set_st (TempState t) I w) (\<lambda>w0.
          rbind (acc pfReq w0) (\<lambda>(r, w1).
           let e1 = pf_mark prefetchPos reqCycle r e; p1 = p\<lparr>pfPrefetches := pfPrefetches p + 1\<rparr> in
           rbind (if shortPrefetch \<and> sint depth < 8 \<and> prefetchPos + stride < 64
                  then rbind (aget (pf_valid e1) (unat (prefetchPos + stride))) (\<lambda>v2.
                    if v2 then Inr (prefetchPos, e1, p1, w1)
                    else pf_second acc pfReq reqCycle prefetchPos stride (e1, p1, w1))
                  else Inr (prefetchPos, e1, p1, w1)) (\<lambda>(lastPf, e2, p2, w2).
           rbind (get_st (TempState t) w2) (\<lambda>s.
             check (s = I) AssertFailed (Inr (e2\<lparr>pf_lastPrefetchPos := lastPf\<rparr>, p2, w2))))))))
       else Inr (e, p, w)))"

text \<open>Part 2: the predictors, and the prefetches when the stride is predicted with confidence.\<close>

definition pf_predict ::
  "(MemReq \<Rightarrow> 'x coh_scheme \<Rightarrow> (u64 \<times> 'x coh_scheme) res) \<Rightarrow> nat \<Rightarrow> MemReq \<Rightarrow> u64 \<Rightarrow> u32 \<Rightarrow> bool \<Rightarrow>
   pf_entry \<times> StreamPrefetcher \<times> 'x coh_scheme \<Rightarrow> (pf_entry \<times> StreamPrefetcher \<times> 'x coh_scheme) res" where
  "pf_predict acc t req reqCycle pos shortPrefetch = (\<lambda>(e, p, w).
     let stride = pos - pf_lastPos e in
     if pf_stride e = stride
     then let e1 = e\<lparr>pf_conf := sat_inc conf_max (pf_conf e)\<rparr> in
          if sat_pred conf_thres (pf_conf e1) then pf_issue acc t req reqCycle pos stride shortPrefetch (e1, p, w)
          else Inr (e1, p\<lparr>pfLowConfAccs := pfLowConfAccs p + 1\<rparr>, w)
     else let e1 = e\<lparr>pf_conf := sat_dec (pf_conf e)\<rparr>;
              switch = (\<not> sat_pred conf_thres (pf_conf e1) \<and> stride \<noteq> 0 \<and> stride \<noteq> pf_stride e1 \<and>
                        stride = pf_lastPos e1 - pf_lastLastPos e1);
              e2 = (if switch then e1\<lparr>pf_conf := conf_init, pf_stride := stride\<rparr> else e1);
              p2 = (if switch then p\<lparr>pfStrideSwitches := pfStrideSwitches p + 1\<rparr> else p)
          in Inr (e2\<lparr>pf_lastPrefetchPos := pos\<rparr>, p2, w))"

definition pf_hit ::
  "(MemReq \<Rightarrow> 'x coh_scheme \<Rightarrow> (u64 \<times> 'x coh_scheme) res) \<Rightarrow> nat \<Rightarrow> MemReq \<Rightarrow> u64 \<Rightarrow> u64 \<Rightarrow> u32 \<Rightarrow> nat \<Rightarrow>
   StreamPrefetcher \<times> 'x coh_scheme \<Rightarrow> (u64 \<times> StreamPrefetcher \<times> 'x coh_scheme) res" where
  "pf_hit acc t req reqCycle resp pos idx = (\<lambda>(p0, w).
     rbind (aget (pf_array p0) idx) (\<lambda>e0.
      let e = e0\<lparr>pf_ts := pf_timestamp p0\<rparr>;
          p = p0\<lparr>pfPageHits := pfPageHits p0 + 1, pf_timestamp := pf_timestamp p0 + 1\<rparr> in
      rbind (pf_prefetch_hit pos resp e p) (\<lambda>(short, resp', e1, p1).
      rbind (pf_predict acc t req reqCycle pos short (e1, p1, w)) (\<lambda>(e2, p2, w2).
        let e3 = e2\<lparr>pf_lastLastPos := pf_lastPos e2, pf_lastPos := pos\<rparr> in
        Inr (resp', p2\<lparr>pf_array := (pf_array p2)[idx := e3]\<rparr>, w2)))))"

definition pf_page :: "u64 \<Rightarrow> u64" where "pf_page a = drop_bit 6 a"
definition pf_pos :: "u64 \<Rightarrow> u32" where "pf_pos a = ucast (a AND 63)"

definition StreamPrefetcher_access ::
  "(MemReq \<Rightarrow> 'x coh_scheme \<Rightarrow> (u64 \<times> 'x coh_scheme) res) \<Rightarrow> nat \<Rightarrow> MemReq \<Rightarrow>
   StreamPrefetcher \<times> 'x coh_scheme \<Rightarrow> (u64 \<times> StreamPrefetcher \<times> 'x coh_scheme) res" where
  "StreamPrefetcher_access acc t req0 = (\<lambda>(p0, w0).
     let req = req0\<lparr>childId := pf_childId p0\<rparr> in
     if acctype req \<noteq> GETS then rbind (acc req w0) (\<lambda>(r, w). Inr (r, p0, w))
     else
      (let p = p0\<lparr>pfAccesses := pfAccesses p0 + 1\<rparr> in
       rbind (acc req w0) (\<lambda>(resp, w).
        let page = pf_page (lineAddr req); pos = pf_pos (lineAddr req); idx = pf_find 0 (pf_tag p) page 16 in
        if idx = 16 then rbind (pf_miss page pos (cycle req) p) (\<lambda>p1. Inr (resp, p1, w))
        else pf_hit acc t req (cycle req) resp pos idx (p, w))))"

definition StreamPrefetcher_invalidate ::
  "(InvReq \<Rightarrow> 'x coh_scheme \<Rightarrow> (u64 \<times> bool \<times> 'x coh_scheme) res) \<Rightarrow> InvReq \<Rightarrow> 'x coh_scheme \<Rightarrow> (u64 \<times> bool \<times> 'x coh_scheme) res" where
  "StreamPrefetcher_invalidate child req w = child req w"

subsection \<open>Invariant\<close>

text \<open>Every entry has its 64 slots, a counter in range and a stride that is not 0, unless its page is among the
  pages \<open>U\<close> that the tags happened to hold before the entry was first allocated.\<close>

definition entry_ok :: "pf_entry \<Rightarrow> bool" where
  "entry_ok e \<longleftrightarrow> length (pf_times e) = 64 \<and> length (pf_valid e) = 64 \<and> 0 \<le> pf_conf e \<and> pf_conf e \<le> conf_max"

definition pf_inv :: "u64 set \<Rightarrow> StreamPrefetcher \<Rightarrow> bool" where
  "pf_inv U p \<longleftrightarrow> length (pf_tag p) = 16 \<and> length (pf_array p) = 16 \<and>
     (\<forall>i < 16. entry_ok (pf_array p ! i) \<and> (pf_stride (pf_array p ! i) \<noteq> 0 \<or> pf_tag p ! i \<in> U))"

lemmas sat_defs = sat_inc_def sat_dec_def sat_pred_def conf_max_def conf_thres_def conf_init_def

lemma pf_find_cases:
  "pf_find i ts page idx = idx \<and> page \<notin> set ts \<or> (\<exists>k < length ts. pf_find i ts page idx = i + k \<and> ts ! k = page)"
proof (induction ts arbitrary: i idx)
  case (Cons t ts)
  show ?case
  proof (cases "\<exists>k < length ts. pf_find (Suc i) ts page (if page = t then i else idx) = Suc i + k \<and> ts ! k = page")
    case True
    then obtain k where "k < length ts" "pf_find (Suc i) ts page (if page = t then i else idx) = Suc i + k" "ts ! k = page" by blast
    then show ?thesis by (intro disjI2 exI [of _ "Suc k"]) simp
  next
    case False
    then show ?thesis using Cons.IH [of "Suc i" "if page = t then i else idx"] by (auto intro: exI [of _ 0])
  qed
qed simp

lemma pf_cand_range: "pf_cand i es c cand s = cand \<or> i \<le> pf_cand i es c cand s \<and> pf_cand i es c cand s < i + length es"
proof (induction es arbitrary: i cand s)
  case (Cons e es)
  then show ?case using Cons [of "Suc i" cand s] Cons [of "Suc i" i "pf_ts e"] by auto
qed simp

lemma pf_pos_less: "pf_pos a < 64"
proof -
  have "unat (a AND 63) \<le> unat (63 :: u64)" using word_and_le1 [of a 63] by (simp add: word_le_nat_alt)
  then have "unat (a AND 63) < 64" by simp
  then have "unat (pf_pos a) < 64" by (simp add: pf_pos_def unsigned_ucast_eq take_bit_nat_eq_self)
  then show ?thesis by (simp add: word_less_nat_alt)
qed

lemma less64: "(x :: u32) < 64 \<Longrightarrow> unat x < 64"
  by (simp add: word_less_nat_alt)

lemma entry_ok_mark: "entry_ok e \<Longrightarrow> entry_ok (pf_mark pos c r e)" "pf_stride (pf_mark pos c r e) = pf_stride e"
  "pf_lastPos (pf_mark pos c r e) = pf_lastPos e" "pf_valid (pf_mark pos c r e) = (pf_valid e)[unat pos := True]"
  by (simp_all add: entry_ok_def pf_mark_def)

text \<open>What every part of a hit gives back: a failure is only ever the permission assertion.\<close>

definition pf_part :: "u32 \<Rightarrow> (pf_entry \<times> StreamPrefetcher \<times> 'w) res \<Rightarrow> StreamPrefetcher \<Rightarrow> bool" where
  "pf_part z x p = (case x of Inl er \<Rightarrow> er = AssertFailed
     | Inr (e, p', w) \<Rightarrow> entry_ok e \<and> (z \<noteq> 0 \<longrightarrow> pf_stride e \<noteq> 0) \<and> pf_array p' = pf_array p \<and> pf_tag p' = pf_tag p)"

lemma pf_issue_part:
  assumes acc: "\<forall>q w. \<exists>r w'. acc q w = Inr (r, w')" and e: "entry_ok e" "stride \<noteq> 0"
  shows "pf_part (pf_stride e) (pf_issue acc t req c pos stride short (e, p, w)) p"
proof -
  obtain pp d where pd: "pf_target pos stride e = (pp, d)" by force
  show ?thesis
  proof (cases "pp < 64 \<and> \<not> pf_valid e ! unat pp")
    case False
    then show ?thesis using e pd by (auto simp: pf_issue_def pf_part_def entry_ok_def dest: less64)
  next
    case True
    define q where "q = MemReq_init (lineAddr req + ucast pp - ucast pos) GETS (childId req) (TempState t) c (childLock req) I (srcId req) PREFETCH"
    define w0 where "w0 = w\<lparr>temps := (temps w)(t := I)\<rparr>"
    obtain r1 w1 where r1: "acc q w0 = Inr (r1, w1)" using acc by blast
    obtain r2 w2 where r2: "acc (q\<lparr>lineAddr := lineAddr q + scast stride\<rparr>) w1 = Inr (r2, w2)" using acc by blast
    have l: "unat pp < 64" "pp + stride < 64 \<Longrightarrow> unat (pp + stride) < 64" using True less64 by auto
    let ?e = "pf_mark pp c r1 e"
    have k: "entry_ok ?e" "length (pf_valid ?e) = 64" using e by (simp_all add: entry_ok_mark entry_ok_def [of e])
    have k2: "entry_ok (x\<lparr>pf_lastPrefetchPos := y\<rparr>) = entry_ok x" for x y by (simp add: entry_ok_def)
    have v: "length (pf_valid e) = 64" using e by (simp add: entry_ok_def)
    show ?thesis using True pd r1 r2 l v k e(2)
      by (auto simp: pf_issue_def Let_def q_def [symmetric] w0_def [symmetric] pf_second_def pf_part_def check_def entry_ok_mark k2)
  qed
qed

lemma pf_predict_part:
  assumes acc: "\<forall>q w. \<exists>r w'. acc q w = Inr (r, w')" and e: "entry_ok e" "pf_stride e \<noteq> 0"
  shows "pf_part (pf_stride e) (pf_predict acc t req c pos short (e, p, w)) p"
proof (cases "pf_stride e = pos - pf_lastPos e \<and> sat_pred conf_thres (sat_inc conf_max (pf_conf e))")
  case True
  let ?e = "e\<lparr>pf_conf := sat_inc conf_max (pf_conf e)\<rparr>"
  have "entry_ok ?e" "pos - pf_lastPos e \<noteq> 0" using e True by (auto simp: entry_ok_def sat_defs)
  from pf_issue_part [OF acc this, of t req c pos short p w] True show ?thesis
    by (auto simp: pf_predict_def Let_def)
next
  case False
  then show ?thesis using e by (auto simp: pf_predict_def pf_part_def Let_def entry_ok_def sat_defs)
qed

lemma pf_prefetch_hit_ok:
  assumes "entry_ok e" "pos < 64"
  shows "\<exists>b r e' p'. pf_prefetch_hit pos resp e p = Inr (b, r, e', p') \<and> resp \<le> r \<and> entry_ok e' \<and>
    pf_stride e' = pf_stride e \<and> pf_array p' = pf_array p \<and> pf_tag p' = pf_tag p"
proof -
  have "unat pos < length (pf_valid e)" "unat pos < length (pf_times e)" using assms less64 by (auto simp: entry_ok_def)
  then show ?thesis using assms(1)
    by (cases "pf_valid e ! unat pos") (auto simp: pf_prefetch_hit_def Let_def entry_ok_def)
qed


subsection \<open>Prefetch requests and their permissions\<close>

text \<open>What MESI controllers and memories do: a read that is not marked as a prefetch comes back with
  permissions (the cycle bound keeps latencies from wrapping).\<close>

definition grants_reads :: "(MemReq \<Rightarrow> 'x coh_scheme \<Rightarrow> (u64 \<times> 'x coh_scheme) res) \<Rightarrow> bool" where
  "grants_reads acc \<longleftrightarrow> (\<forall>q w n. acctype q = GETS \<and> \<not> is_flag PREFETCH q \<and> state q = TempState n \<and> unat (cycle q) < 2 ^ 63 \<longrightarrow>
     (\<exists>r w' s. acc q w = Inr (r, w') \<and> get_st (state q) w' = Inr s \<and> s \<noteq> I))"

lemma grants_readsD:
  assumes "grants_reads acc" "acctype q = GETS" "\<not> is_flag PREFETCH q" "state q = TempState n" "unat (cycle q) < 2 ^ 63"
  obtains r w' where "acc q w = Inr (r, w')" "temps w' n \<noteq> I"
  using assms by (force simp: grants_reads_def)

lemma pf_issue_asserts:
  assumes "grants_reads acc" "entry_ok e" "stride \<noteq> 0" "pf_target pos stride e = (pp, d)" "pp < 64" "\<not> pf_valid e ! unat pp"
    and "unat c < 2 ^ 63"
  shows "pf_issue acc t req c pos stride short (e, p, w) = Inl AssertFailed"
proof -
  define q where "q = MemReq_init (lineAddr req + ucast pp - ucast pos) GETS (childId req) (TempState t) c (childLock req) I (srcId req) PREFETCH"
  define w0 where "w0 = w\<lparr>temps := (temps w)(t := I)\<rparr>"
  define q2 where "q2 = q\<lparr>lineAddr := lineAddr q + scast stride\<rparr>"
  have q: "acctype q = GETS" "\<not> is_flag PREFETCH q" "state q = TempState t" "cycle q = c" by (simp_all add: q_def)
  then have q2: "acctype q2 = GETS" "\<not> is_flag PREFETCH q2" "state q2 = TempState t" "cycle q2 = c"
    by (simp_all add: q2_def is_flag_def)
  obtain r1 w1 where 1: "acc q w0 = Inr (r1, w1)" "temps w1 t \<noteq> I"
    using grants_readsD [OF assms(1) q(1-3)] assms(7) q(4) by metis
  obtain r2 w2 where 2: "acc q2 w1 = Inr (r2, w2)" "temps w2 t \<noteq> I"
    using grants_readsD [OF assms(1) q2(1-3)] assms(7) q2(4) by metis
  have l: "unat pp < 64" "pp + stride < 64 \<Longrightarrow> unat (pp + stride) < 64" using assms(5) less64 by auto
  have v: "length (pf_valid e) = 64" using assms(2) by (simp add: entry_ok_def)
  show ?thesis using assms(3-6) 1 2 l v
    by (simp add: pf_issue_def Let_def q_def [symmetric] w0_def [symmetric] pf_second_def q2_def [symmetric] check_def entry_ok_mark)
qed

lemma pf_target_cong:
  "pf_lastPrefetchPos e' = pf_lastPrefetchPos e \<Longrightarrow> pf_lastPos e' = pf_lastPos e \<Longrightarrow> pf_target pos s e' = pf_target pos s e"
  by (simp add: pf_target_def Let_def)


subsection \<open>How far ahead\<close>

lemma unat_minus_of_nat:
  assumes "0 < j" "j < 2 ^ 32"
  shows "unat (- of_nat j :: u32) = 2 ^ 32 - j"
proof -
  have "unat (0 - of_nat j :: u32) = 2 ^ 32 - j"
    using assms by (simp only: unat_sub_if') (simp add: unsigned_of_nat take_bit_nat_eq_self)
  then show ?thesis by simp
qed

lemma sint_small: "n \<le> 64 \<Longrightarrow> sint (of_nat n :: u32) = int n"
  by (simp add: signed_of_nat signed_take_bit_int_eq_self)

lemma unat_small: "n \<le> 64 \<Longrightarrow> unat (of_nat n :: u32) = n"
  by (simp add: unsigned_of_nat take_bit_nat_eq_self)

lemma depth_up: "0 < k \<Longrightarrow> k \<le> 64 \<Longrightarrow> j \<le> 64 \<Longrightarrow> (of_nat j :: u32) div of_nat k = of_nat (j div k)"
  by (simp add: word_unat_eq_iff unat_div unat_small div_le_dividend [THEN order_trans])

lemma depth_down:
  assumes "0 < j" "j \<le> 64" "0 < k" "k \<le> 64"
  shows "(- of_nat j :: u32) div (- of_nat k) = (if j \<le> k then 1 else 0)"
proof (rule unsigned_word_eqI)
  have "(2 ^ 32 - j) div (2 ^ 32 - k) = (if j \<le> k then 1 else (0 :: nat))"
  proof (cases "j \<le> k")
    case True
    then have "(2 ^ 32 - j) = 1 * (2 ^ 32 - k) + (k - j)" "k - j < 2 ^ 32 - k" using assms by simp_all
    then have "(2 ^ 32 - j) div (2 ^ 32 - k) = 1" by (metis div_mult_self3 div_less add.right_neutral less_nat_zero_code)
    then show ?thesis using True by simp
  qed (use assms in simp)
  then show "unat ((- of_nat j :: u32) div (- of_nat k)) = unat (if j \<le> k then 1 else 0 :: u32)"
    using assms by (simp add: unat_div unat_minus_of_nat)
qed

text \<open>In an ascending stream the prefetcher continues from the last prefetched line and knows how many strides
  it is ahead.  In a descending one the unsigned division gives a depth of at most one: as soon as the last
  prefetched line is more than one stride ahead, the target falls back to the next line of the stream.\<close>

lemma pf_target_direction:
  assumes "0 < k" "k \<le> 64" "j \<le> 64"
  shows "pf_target pos (of_nat k) (e\<lparr>pf_lastPrefetchPos := pf_lastPos e + of_nat j\<rparr>) =
      (if j < k then (pos + of_nat k, 1) else (pf_lastPos e + of_nat j + of_nat k, of_nat (j div k))) \<and>
    pf_target pos (- of_nat k) (e\<lparr>pf_lastPrefetchPos := pf_lastPos e - of_nat j\<rparr>) =
      (if 0 < j \<and> j \<le> k then pf_lastPos e - of_nat j - of_nat k else pos - of_nat k, 1)"
proof
  have "j div k \<le> 64" using assms(3) div_le_dividend [of j k] by linarith
  moreover have "j div k < 1 \<longleftrightarrow> j < k" using assms(1) by (simp add: div_eq_0_iff)
  ultimately show "pf_target pos (of_nat k) (e\<lparr>pf_lastPrefetchPos := pf_lastPos e + of_nat j\<rparr>) =
      (if j < k then (pos + of_nat k, 1) else (pf_lastPos e + of_nat j + of_nat k, of_nat (j div k)))"
    using assms by (simp add: pf_target_def pf_fetchDepth_def depth_up sint_small Let_def)
  show "pf_target pos (- of_nat k) (e\<lparr>pf_lastPrefetchPos := pf_lastPos e - of_nat j\<rparr>) =
      (if 0 < j \<and> j \<le> k then pf_lastPos e - of_nat j - of_nat k else pos - of_nat k, 1)"
  proof (cases "j = 0")
    case True
    then show ?thesis using assms by (simp add: pf_target_def pf_fetchDepth_def Let_def)
  next
    case False
    then show ?thesis using assms by (simp add: pf_target_def pf_fetchDepth_def depth_down Let_def)
  qed
qed

subsection \<open>Witnesses\<close>

definition pf_entry0 :: pf_entry where
  "pf_entry0 = \<lparr>pf_stride = 0, pf_conf = 0, pf_times = replicate 64 \<lparr>startCycle = 0, respCycle = 0\<rparr>, pf_valid = [],
     pf_lastPos = 0, pf_lastLastPos = 0, pf_lastPrefetchPos = 0, pf_lastCycle = 0, pf_ts = 0\<rparr>"

definition pf0 :: StreamPrefetcher where
  "pf0 = StreamPrefetcher_init (replicate 16 0) (replicate 16 pf_entry0)"

lemma pf0_inv: "pf_inv {0} pf0"
  by (simp add: pf0_def StreamPrefetcher_init_def pf_inv_def entry_ok_def sat_defs pf_entry0_def)


lemma pf_target_direction_witness:
  "pf_target 10 (- 1) (pf_entry0\<lparr>pf_lastPos := 11, pf_lastPrefetchPos := 9\<rparr>) = (9, 1) \<and>
   pf_target 12 1 (pf_entry0\<lparr>pf_lastPos := 11, pf_lastPrefetchPos := 13\<rparr>) = (14, 2)"
  using pf_target_direction [of 1 2 10 "pf_entry0\<lparr>pf_lastPos := 11\<rparr>"]
    pf_target_direction [of 1 2 12 "pf_entry0\<lparr>pf_lastPos := 11\<rparr>"] by simp

lemma SimpleMemory_grants: "grants_reads (SimpleMemory_access 100)"
  unfolding grants_reads_def
proof (intro allI impI)
  fix q :: MemReq and w :: "'a coh_scheme" and n
  assume q: "acctype q = GETS \<and> \<not> is_flag PREFETCH q \<and> state q = TempState n \<and> unat (cycle q) < 2 ^ 63"
  then have "mem_pre 100 0 (lineAddr q) (state q) (cycle q) w" by (simp add: mem_pre_def)
  from SimpleMemory_access_ok [OF this] q show "\<exists>r w' s. SimpleMemory_access 100 q w = Inr (r, w') \<and> get_st (state q) w' = Inr s \<and> s \<noteq> I"
    by (auto simp: mem_grant_def)
qed

text \<open>The second of two reads of consecutive lines, over a memory, fails.\<close>

definition pf1 :: StreamPrefetcher where
  "pf1 = pf0\<lparr>pf_tag := [0, 0, 0, 0, 0, 0, 0, 0, 0, 0, 0, 0, 0, 0, 0, 3], pf_array := replicate 16 ((pf_alloc 0 pf_entry0)\<lparr>pf_lastPos := 8\<rparr>)\<rparr>"


end
