(* ===== verification/L1Cache.thy ===== *)
theory L1Cache
  imports Caches MemCtrls TimingEvents
begin

text \<open>
  The access path of a cache (cache.cpp) and the filter cache of the cores (filter_cache.h).

  The state of the hierarchy grows by the state of the weave phase and by the table
  \<open>zinfo->eventRecorders\<close> (\<open>xw_rec\<close>; a null entry is \<open>None\<close>).  The coherence controller is a method
  table \<open>CC\<close>, with the combined and the terminal MESI controllers as its two instances.  The bound phase counts
  cycles in 64-bit words, the recorded events in natural numbers.  \<open>lineBits\<close> and \<open>procMask\<close>, globals of
  the simulator, are arguments of the filter cache.
\<close>

record 's xworld = "'s cworld" +
  xw_weave :: weave
  xw_rec :: "u32 \<Rightarrow> nat option"

record 'w CC =
  ct_startAccess :: "MemReq \<Rightarrow> 'w \<Rightarrow> (bool \<times> MemReq) res"
  ct_shouldAllocate :: "MemReq \<Rightarrow> bool res"
  ct_processEviction :: "MemReq \<Rightarrow> u64 \<Rightarrow> nat \<Rightarrow> u64 \<Rightarrow> 'w \<Rightarrow> (u64 \<times> 'w) res"
  ct_processAccess :: "MemReq \<Rightarrow> nat option \<Rightarrow> u64 \<Rightarrow> 'w \<Rightarrow> (u64 \<times> 'w) res"
  ct_info :: "'w \<Rightarrow> ccinfo"

definition MESICC ::
  "(nat \<Rightarrow> MemReq \<Rightarrow> 'x coh_scheme \<Rightarrow> (u64 \<times> 'x coh_scheme) res) \<Rightarrow>
   (nat \<Rightarrow> InvReq \<Rightarrow> 'x coh_scheme \<Rightarrow> (u64 \<times> bool \<times> 'x coh_scheme) res) \<Rightarrow> cc_cfg \<Rightarrow> 'x coh_scheme CC" where
  "MESICC acc invl cfg =
     \<lparr>ct_startAccess = startAccess, ct_shouldAllocate = cc_shouldAllocate cfg,
      ct_processEviction = cc_processEviction acc invl cfg,
      ct_processAccess = (\<lambda>q l c w. rbind (cc_processAccess acc invl cfg q l c w) (\<lambda>(r, d, w1). Inr (r, w1))),
      ct_info = (\<lambda>w. \<lparr>cc_numSharers = (\<lambda>i. numSharers (tccArray w (cc_id cfg) ! i)),
                      cc_isValid = (\<lambda>i. bccArray w (cc_id cfg) ! i \<noteq> I)\<rparr>)\<rparr>"

definition MESITerminalCC ::
  "(nat \<Rightarrow> MemReq \<Rightarrow> 'x coh_scheme \<Rightarrow> (u64 \<times> 'x coh_scheme) res) \<Rightarrow> cc_cfg \<Rightarrow> 'x coh_scheme CC" where
  "MESITerminalCC acc cfg =
     \<lparr>ct_startAccess = term_startAccess, ct_shouldAllocate = (\<lambda>q. Inr True),
      ct_processEviction = term_processEviction acc cfg, ct_processAccess = term_processAccess acc cfg,
      ct_info = (\<lambda>w. \<lparr>cc_numSharers = (\<lambda>_. 0), cc_isValid = (\<lambda>i. bccArray w (cc_id cfg) ! i \<noteq> I)\<rparr>)\<rparr>"

subsection \<open>Timing records of an access and its writeback\<close>

definition upd_rec :: "nat \<Rightarrow> EventRecorder \<Rightarrow> weave \<Rightarrow> weave" where
  "upd_rec n er v = v\<lparr>recorders := (recorders v)(n := er)\<rparr>"

text \<open>The record that the writeback left, if any.\<close>

definition Cache_takeRecord :: "u32 \<Rightarrow> ('s, 'x) xworld_scheme \<Rightarrow> TimingRecord option \<times> ('s, 'x) xworld_scheme" where
  "Cache_takeRecord src w =
     (case xw_rec w src of None \<Rightarrow> (None, w)
      | Some n \<Rightarrow> if hasRecord (recorders (xw_weave w) n)
          then let (tr, er) = popRecord (recorders (xw_weave w) n) in (Some tr, w\<lparr>xw_weave := upd_rec n er (xw_weave w)\<rparr>)
          else (None, w))"

text \<open>Two records become one: a start event with a delay (a 32-bit field) to each of the two requests.\<close>

definition stitch_events :: "nat \<Rightarrow> nat \<Rightarrow> TimingRecord \<Rightarrow> TimingRecord \<Rightarrow> weave \<Rightarrow> (nat \<times> weave) res" where
  "stitch_events fuel reqCycle wb acc v0 =
     rbind (deref (tr_startEvent wb)) (\<lambda>wbEv. rbind (deref (tr_startEvent acc)) (\<lambda>accEv.
     check (reqCycle \<le> tr_reqCycle wb) AssertFailed (check (reqCycle \<le> tr_reqCycle acc) AssertFailed
      (let (startEv, v1) = new_ev ((DelayEvent_init 0)\<lparr>minStartCycle := Some reqCycle\<rparr>) v0;
           (dWb, v2) = new_ev ((DelayEvent_init ((tr_reqCycle wb - reqCycle) mod 2 ^ 32))\<lparr>minStartCycle := Some reqCycle\<rparr>) v1;
           (dAcc, v3) = new_ev ((DelayEvent_init ((tr_reqCycle acc - reqCycle) mod 2 ^ 32))\<lparr>minStartCycle := Some reqCycle\<rparr>) v2 in
       rbind (addChild fuel startEv dWb v3) (\<lambda>v4. rbind (addChild fuel dWb wbEv v4) (\<lambda>v5.
       rbind (addChild fuel startEv dAcc v5) (\<lambda>v6. rbind (addChild fuel dAcc accEv v6) (\<lambda>v7.
         Inr (startEv, v7)))))))))"

definition Cache_stitch :: "nat \<Rightarrow> u64 \<Rightarrow> u32 \<Rightarrow> TimingRecord option \<Rightarrow> ('s, 'x) xworld_scheme \<Rightarrow> ('s, 'x) xworld_scheme res" where
  "Cache_stitch fuel reqCycle src wbAcc w =
     (case wbAcc of None \<Rightarrow> Inr w
      | Some wb \<Rightarrow> rbind (deref (xw_rec w src)) (\<lambda>n.
          let v = xw_weave w in
          if \<not> hasRecord (recorders v n)
          then rbind (pushRecord (wb\<lparr>tr_endEvent := None\<rparr>) (recorders v n)) (\<lambda>er. Inr (w\<lparr>xw_weave := upd_rec n er v\<rparr>))
          else (let (acc, er) = popRecord (recorders v n) in
            rbind (stitch_events fuel (unat reqCycle) wb acc (upd_rec n er v)) (\<lambda>(startEv, v1).
            rbind (pushRecord (acc\<lparr>tr_reqCycle := unat reqCycle, tr_startEvent := Some startEv\<rparr>) (recorders v1 n)) (\<lambda>er1.
              Inr (w\<lparr>xw_weave := upd_rec n er1 v1\<rparr>))))))"

subsection \<open>An access\<close>

text \<open>The miss path: pick a victim, evict it, put the new line in its place.\<close>

definition Cache_allocate ::
  "'s CacheArray \<Rightarrow> ('s, 'x) xworld_scheme CC \<Rightarrow> nat \<Rightarrow> MemReq \<Rightarrow> u64 \<Rightarrow> ('s, 'x) xworld_scheme \<Rightarrow>
   (nat \<times> ('s, 'x) xworld_scheme) res" where
  "Cache_allocate ca cc k req respCycle w =
     rbind (ca_preinsert ca (ct_info cc w) (lineAddr req) req (arrays w k)) (\<lambda>(i, wb, s).
     rbind (ct_processEviction cc req wb i respCycle (w\<lparr>arrays := (arrays w)(k := s)\<rparr>)) (\<lambda>(_, w1).
     rbind (ca_postinsert ca (lineAddr req) req i (arrays w1 k)) (\<lambda>s1.
       Inr (i, w1\<lparr>arrays := (arrays w1)(k := s1)\<rparr>))))"

definition Cache_access ::
  "nat \<Rightarrow> 's CacheArray \<Rightarrow> ('s, 'x) xworld_scheme CC \<Rightarrow> nat \<Rightarrow> u32 \<Rightarrow> MemReq \<Rightarrow> ('s, 'x) xworld_scheme \<Rightarrow>
   (u64 \<times> ('s, 'x) xworld_scheme) res" where
  "Cache_access fuel ca cc k accLat req0 w0 =
     rbind (ct_startAccess cc req0 w0) (\<lambda>(skip, req).
     rbind (if skip then Inr (cycle req, w0)
       else rbind (Cache_lookup ca k (lineAddr req) req (IsGet (acctype req)) w0) (\<lambda>(line, w1).
         let resp = cycle req + ucast accLat in
         rbind (case line of Some l \<Rightarrow> Inr (Some l, w1)
                | None \<Rightarrow> rbind (ct_shouldAllocate cc req) (\<lambda>alloc.
                    if alloc then rbind (Cache_allocate ca cc k req resp w1) (\<lambda>(l, w2). Inr (Some l, w2))
                    else Inr (None, w1))) (\<lambda>(lineId, w2).
         let (wbAcc, w3) = Cache_takeRecord (srcId req) w2 in
         rbind (ct_processAccess cc req lineId resp w3) (\<lambda>(resp', w4).
         rbind (Cache_stitch fuel (cycle req) (srcId req) wbAcc w4) (\<lambda>w5. Inr (resp', w5)))))) (\<lambda>(respCycle, w).
       check (cycle req \<le> respCycle) AssertFailed (Inr (respCycle, w))))"

subsection \<open>The filter cache\<close>

record FilterEntry =
  rdAddr :: u64
  wrAddr :: u64
  availCycle :: u64

definition FilterEntry_clear :: FilterEntry where
  "FilterEntry_clear = \<lparr>rdAddr = 0, wrAddr = 0, availCycle = 0\<rparr>"

record FilterCache =
  filterArray :: "FilterEntry list"
  setMask :: u64
  fc_numSets :: u32
  fc_srcId :: u32
  reqFlags :: u32
  fGETSHit :: u64
  fGETXHit :: u64

definition FilterCache_init :: "u32 \<Rightarrow> FilterCache" where
  "FilterCache_init numSets =
     \<lparr>filterArray = replicate (unat numSets) FilterEntry_clear, setMask = ucast (numSets - 1), fc_numSets = numSets,
      fc_srcId = - 1, reqFlags = 0, fGETSHit = 0, fGETXHit = 0\<rparr>"

definition setSourceId :: "u32 \<Rightarrow> FilterCache \<Rightarrow> FilterCache" where "setSourceId i f = f\<lparr>fc_srcId := i\<rparr>"
definition setFlags :: "u32 \<Rightarrow> FilterCache \<Rightarrow> FilterCache" where "setFlags fl f = f\<lparr>reqFlags := fl\<rparr>"

definition filter_req :: "u64 \<Rightarrow> bool \<Rightarrow> nat \<Rightarrow> u64 \<Rightarrow> FilterCache \<Rightarrow> MemReq" where
  "filter_req pLineAddr isLoad t cyc f =
     MemReq_init pLineAddr (if isLoad then GETS else GETX) 0 (TempState t) cyc (Some t) I (fc_srcId f) (reqFlags f)"

text \<open>\<open>acc\<close> is the inherited \<open>access\<close>; \<open>TempState t\<close> is the local \<open>dummyState\<close>.\<close>

definition FilterCache_replace ::
  "(MemReq \<Rightarrow> 'x coh_scheme \<Rightarrow> (u64 \<times> 'x coh_scheme) res) \<Rightarrow> u64 \<Rightarrow> nat \<Rightarrow> u64 \<Rightarrow> nat \<Rightarrow> bool \<Rightarrow> u64 \<Rightarrow>
   FilterCache \<times> 'x coh_scheme \<Rightarrow> (u64 \<times> FilterCache \<times> 'x coh_scheme) res" where
  "FilterCache_replace acc procMask t vLineAddr idx isLoad cyc = (\<lambda>(f, w).
     rbind (set_st (TempState t) I w) (\<lambda>w0.
     rbind (acc (filter_req (procMask OR vLineAddr) isLoad t cyc f) w0) (\<lambda>(resp, w1).
     rbind (aget (filterArray f) idx) (\<lambda>e.
      let e' = e\<lparr>wrAddr := (if isLoad then - 1 else vLineAddr), rdAddr := vLineAddr,
                 availCycle := (if rdAddr e \<noteq> vLineAddr then resp else availCycle e)\<rparr> in
      Inr (resp, f\<lparr>filterArray := (filterArray f)[idx := e']\<rparr>, w1)))))"

definition filter_idx :: "u64 \<Rightarrow> FilterCache \<Rightarrow> nat" where
  "filter_idx a f = unat (ucast (a AND setMask f) :: u32)"

definition FilterCache_load ::
  "(MemReq \<Rightarrow> 'x coh_scheme \<Rightarrow> (u64 \<times> 'x coh_scheme) res) \<Rightarrow> nat \<Rightarrow> u64 \<Rightarrow> nat \<Rightarrow> u64 \<Rightarrow> u64 \<Rightarrow>
   FilterCache \<times> 'x coh_scheme \<Rightarrow> (u64 \<times> FilterCache \<times> 'x coh_scheme) res" where
  "FilterCache_load acc lineBits procMask t vAddr cyc = (\<lambda>(f, w).
     let vLineAddr = drop_bit lineBits vAddr; idx = filter_idx vLineAddr f in
     rbind (aget (filterArray f) idx) (\<lambda>e.
      if vLineAddr = rdAddr e then Inr (max cyc (availCycle e), f\<lparr>fGETSHit := fGETSHit f + 1\<rparr>, w)
      else FilterCache_replace acc procMask t vLineAddr idx True cyc (f, w)))"

definition FilterCache_store ::
  "(MemReq \<Rightarrow> 'x coh_scheme \<Rightarrow> (u64 \<times> 'x coh_scheme) res) \<Rightarrow> nat \<Rightarrow> u64 \<Rightarrow> nat \<Rightarrow> u64 \<Rightarrow> u64 \<Rightarrow>
   FilterCache \<times> 'x coh_scheme \<Rightarrow> (u64 \<times> FilterCache \<times> 'x coh_scheme) res" where
  "FilterCache_store acc lineBits procMask t vAddr cyc = (\<lambda>(f, w).
     let vLineAddr = drop_bit lineBits vAddr; idx = filter_idx vLineAddr f in
     rbind (aget (filterArray f) idx) (\<lambda>e.
      if vLineAddr = wrAddr e then Inr (max cyc (availCycle e), f\<lparr>fGETXHit := fGETXHit f + 1\<rparr>, w)
      else FilterCache_replace acc procMask t vLineAddr idx False cyc (f, w)))"

definition FilterCache_invalidate ::
  "(InvReq \<Rightarrow> 'w \<Rightarrow> (u64 \<times> bool \<times> 'w) res) \<Rightarrow> u64 \<Rightarrow> InvReq \<Rightarrow> FilterCache \<times> 'w \<Rightarrow> (u64 \<times> bool \<times> FilterCache \<times> 'w) res" where
  "FilterCache_invalidate finishInv procMask q = (\<lambda>(f, w).
     let idx = filter_idx (inv_lineAddr q) f in
     rbind (aget (filterArray f) idx) (\<lambda>e.
      let f1 = (if rdAddr e OR procMask = inv_lineAddr q
                then f\<lparr>filterArray := (filterArray f)[idx := e\<lparr>wrAddr := - 1, rdAddr := - 1\<rparr>]\<rparr> else f) in
      rbind (finishInv q w) (\<lambda>(r, wb, w1). Inr (r, wb, f1, w1))))"

definition FilterCache_contextSwitch :: "FilterCache \<Rightarrow> FilterCache" where
  "FilterCache_contextSwitch f = f\<lparr>filterArray := map (\<lambda>_. FilterEntry_clear) (filterArray f)\<rparr>"

subsection \<open>What the memory side leaves alone\<close>

lemma set_st_more: "set_st r s w = Inr w' \<Longrightarrow> coh.more w' = coh.more w"
  by (cases r) (auto simp: res_simps)

lemma prof_more [simp]: "coh.more (prof cfg f w) = coh.more w"
  by (simp add: prof_def)

lemma SimpleMemory_more: "SimpleMemory_access lat q w = Inr (r, w') \<Longrightarrow> coh.more w' = coh.more w"
  by (auto simp: SimpleMemory_access_def res_simps Let_def dest: set_st_more)

lemma bcc_fetch_more:
  "bcc_fetch (\<lambda>p. SimpleMemory_access lat) cfg a l ty s cyc src fl w = Inr (r, w') \<Longrightarrow> coh.more w' = coh.more w"
  by (auto simp: bcc_fetch_def res_simps Let_def dest: SimpleMemory_more)

lemma bcc_access_more:
  "bcc_processAccess (\<lambda>p. SimpleMemory_access lat) cfg a l ty cyc src fl w = Inr (r, w') \<Longrightarrow> coh.more w' = coh.more w"
  by (cases ty)
    (auto simp: bcc_processAccess_def res_simps Let_def simp del: get_st.simps set_st.simps
      dest!: bcc_fetch_more set_st_more split: if_splits)

lemma bcc_evict_more:
  assumes "bcc_processEviction (\<lambda>p. SimpleMemory_access lat) cfg a l lw cyc src w = Inr (r, w')"
  shows "coh.more w' = coh.more w"
  using bcc_evict_cases [OF assms] SimpleMemory_more set_st_more by metis

lemma more_fields:
  fixes w w' :: "('s, 'x) xworld_scheme"
  assumes "coh.more w' = coh.more w"
  shows "arrays w' = arrays w" "xw_weave w' = xw_weave w" "xw_rec w' = xw_rec w"
  using assms by (cases w; cases w'; simp)+

text \<open>A change of one line's state, seen on the array of states.\<close>

lemma only_line_array:
  assumes o: "only_line (LineState k i) w w'" and s: "get_st (LineState k i) w = Inr s" "get_st (LineState k i) w' = Inr s'"
  shows "bccArray w' k = (bccArray w k)[i := s']"
proof -
  have eq: "aget (bccArray w' k) j = aget (bccArray w k) j" if "j \<noteq> i" for j
    using o that by (auto simp: only_line_def dest!: spec [of _ "LineState k j"])
  have i: "i < length (bccArray w k)" "i < length (bccArray w' k)" "bccArray w' k ! i = s'"
    using s by (auto simp: res_simps)
  have lt: "j < length (bccArray w' k) \<longleftrightarrow> j < length (bccArray w k)" for j
    using eq [of j] i by (cases "j = i") (auto simp: aget_def split: if_splits)
  then have len: "length (bccArray w' k) = length (bccArray w k)"
    by (metis linorder_neqE_nat less_irrefl)
  have "bccArray w' k ! j = (bccArray w k)[i := s'] ! j" if "j < length (bccArray w' k)" for j
    using that eq [of j] lt [of j] i by (cases "j = i") (auto simp: aget_def)
  then show ?thesis by (intro nth_equalityI) (simp_all add: len)
qed

definition no_record :: "u32 \<Rightarrow> ('s, 'x) xworld_scheme \<Rightarrow> bool" where
  "no_record src w \<longleftrightarrow> (case xw_rec w src of None \<Rightarrow> True | Some n \<Rightarrow> \<not> hasRecord (recorders (xw_weave w) n))"

lemma takeRecord_none: "no_record src w \<Longrightarrow> Cache_takeRecord src w = (None, w)"
  by (auto simp: no_record_def Cache_takeRecord_def split: option.splits)

text \<open>What an access leaves of the states of a cache's lines: the requested line has the permission, at most
  one other line is gone.\<close>

definition l1_next :: "AccessType \<Rightarrow> u64 \<Rightarrow> u64 \<Rightarrow> (u64 \<Rightarrow> MESIState) \<Rightarrow> (u64 \<Rightarrow> MESIState) \<Rightarrow> bool" where
  "l1_next ty a v st st' \<longleftrightarrow> st' a \<noteq> I \<and> (ty = GETX \<longrightarrow> st' a = M) \<and> (\<forall>b. b \<noteq> a \<longrightarrow> st' b = (if b = v then I else st b))"

text \<open>Arrays whose geometry no operation changes.\<close>

locale sized_array = cache_array +
  fixes geo :: "'a \<Rightarrow> 'g"
  assumes lookup_geo: "lookup a q u s = Inr (x, s') \<Longrightarrow> geo s' = geo s"
    and preinsert_geo: "preinsert cc a q s = Inr (i, v, s') \<Longrightarrow> geo s' = geo s"
    and postinsert_geo: "postinsert a q i s = Inr s' \<Longrightarrow> geo s' = geo s"
begin

definition l1_ok :: "nat \<Rightarrow> ('a, 'x) xworld_scheme \<Rightarrow> bool" where
  "l1_ok k w \<longleftrightarrow> inv (arrays w k) \<and> length (bccArray w k) = length (tags (arrays w k))"

text \<open>The access of the controller once the line is in the array.\<close>

lemma l1_process:
  fixes w :: "('a, 'x) xworld_scheme"
  assumes ok: "l1_ok (cc_id cfg) w" and i: "arr_holds (tags (arrays w (cc_id cfg))) a = Some i"
    and par: "parentRTTs cfg \<noteq> []" "0 < lat" "unat cyc + 2 ^ 32 \<le> 2 ^ 64" and ty: "IsGet ty"
  shows "\<exists>r w'. bcc_processAccess (\<lambda>p. SimpleMemory_access lat) cfg a i ty cyc src fl w = Inr (r, w') \<and> cyc \<le> r \<and>
    l1_ok (cc_id cfg) w' \<and> coh.more w' = coh.more w \<and>
    l1_next ty a a (line_state tags (cc_id cfg) w) (line_state tags (cc_id cfg) w')"
proof -
  let ?k = "cc_id cfg"
  have d: "arr_distinct (tags (arrays w ?k))" using ok inv_distinct by (simp add: l1_ok_def)
  have il: "i < length (bccArray w ?k)" using i ok arr_holds_Some [OF d] by (simp add: l1_ok_def)
  let ?s = "bccArray w ?k ! i"
  have s: "get_st (LineState ?k i) w = Inr ?s" using il by simp
  have "mem_pre lat p a (LineState ?k i) cyc w" for p using par s by (auto simp: mem_pre_def)
  from simple_mem.bcc_access_ok [OF par(1) this s _ _ par(3), of ty src fl] ty obtain r w' s' where
    run: "bcc_processAccess (\<lambda>p. SimpleMemory_access lat) cfg a i ty cyc src fl w = Inr (r, w')" "cyc \<le> r"
      "get_st (LineState ?k i) w' = Inr s'" and s': "s' \<noteq> I" "ty = GETX \<Longrightarrow> s' = M"
    by (cases ty) (fastforce simp: IsGet_def split: if_splits)+
  have arr: "bccArray w' ?k = (bccArray w ?k)[i := s']"
    by (rule only_line_array [OF simple_mem.bcc_access_frame [OF run(1)] s run(3)])
  have m: "coh.more w' = coh.more w" by (rule bcc_access_more [OF run(1)])
  have other: "j \<noteq> i" if "arr_holds (tags (arrays w ?k)) b = Some j" "b \<noteq> a" for b j
    using that i arr_holds_Some [OF d] by auto
  have "l1_next ty a a (line_state tags ?k w) (line_state tags ?k w')"
    using i il s' arr other more_fields(1) [OF m]
    by (auto simp: l1_next_def line_state_def nth_list_update split: option.splits)
  moreover have "l1_ok ?k w'" using ok arr more_fields(1) [OF m] by (simp add: l1_ok_def)
  ultimately show ?thesis using run(1,2) m by blast
qed

lemma l1_allocate:
  fixes w :: "('a, 'x) xworld_scheme"
  assumes ok: "l1_ok (cc_id cfg) w" and a: "lineAddr q = a" "a \<noteq> 0" "arr_holds (tags (arrays w (cc_id cfg))) a = None"
    and par: "parentRTTs cfg \<noteq> []" "0 < lat" "unat cyc + 2 ^ 32 \<le> 2 ^ 64"
  shows "\<exists>i s w'. Cache_allocate tbl (MESITerminalCC (\<lambda>p. SimpleMemory_access lat) cfg) (cc_id cfg) q cyc w = Inr (i, w') \<and>
    l1_ok (cc_id cfg) w' \<and> arr_holds (tags (arrays w' (cc_id cfg))) a = Some i \<and>
    xw_weave w' = xw_weave w \<and> xw_rec w' = xw_rec w \<and>
    pend s a i \<and> tags s = tags (arrays w (cc_id cfg)) \<and> i < length (tags s) \<and>
    geo s = geo (arrays w (cc_id cfg)) \<and> geo (arrays w' (cc_id cfg)) = geo (arrays w (cc_id cfg)) \<and>
    (\<forall>b. b \<noteq> a \<longrightarrow> line_state tags (cc_id cfg) w' b = (if b = tags s ! i then I else line_state tags (cc_id cfg) w b))"
proof -
  let ?k = "cc_id cfg" and ?T = "tags (arrays w (cc_id cfg))"
  let ?cc = "MESITerminalCC (\<lambda>p. SimpleMemory_access lat) cfg"
  have inv: "inv (arrays w ?k)" and len: "length (bccArray w ?k) = length ?T" using ok by (auto simp: l1_ok_def)
  have d: "arr_distinct ?T" by (rule inv_distinct [OF inv])
  obtain i s where pre: "preinsert (ct_info ?cc w) a q (arrays w ?k) = Inr (i, ?T ! i, s)" "i < length ?T" "pend s a i" "tags s = ?T"
    using preinsert_inv [OF inv a(2,3)] by blast
  define w1 where "w1 = w\<lparr>arrays := (arrays w)(?k := s)\<rparr>"
  have st1: "get_st (LineState ?k i) w1 = Inr (bccArray w ?k ! i)" using pre(2) len by (simp add: w1_def)
  have mp: "mem_pre lat p (?T ! i) (LineState ?k i) cyc w1" for p using par st1 by (auto simp: mem_pre_def)
  obtain r w2 where ev: "bcc_processEviction (\<lambda>p. SimpleMemory_access lat) cfg (?T ! i) i False cyc (srcId q) w1 = Inr (r, w2)"
      "get_st (LineState ?k i) w2 = Inr I"
    using simple_mem.bcc_evict_ok [OF par(1) mp st1, of False "srcId q"] by blast
  have arr2: "bccArray w2 ?k = (bccArray w ?k)[i := I]"
    using only_line_array [OF simple_mem.bcc_evict_frame [OF ev(1)] st1 ev(2)] by (simp add: w1_def)
  note m = more_fields [OF bcc_evict_more [OF ev(1)]]
  have s2: "arrays w2 ?k = s" using m(1) by (simp add: w1_def)
  obtain s' where post: "postinsert a q i s = Inr s'" "inv s'" "tags s' = ?T[i := a]"
    using postinsert_pend [OF pre(3), of q] pre(4) by auto
  define w3 where "w3 = w2\<lparr>arrays := (arrays w2)(?k := s')\<rparr>"
  have run: "Cache_allocate tbl ?cc ?k q cyc w = Inr (i, w3)"
    using pre(1) ev(1) post(1) a(1) s2 unfolding w1_def
    by (simp add: Cache_allocate_def tbl_def MESITerminalCC_def term_processEviction_def w3_def)
  have holds: "arr_holds (?T[i := a]) b = (if b = a then Some i else if arr_holds ?T b = Some i then None else arr_holds ?T b)" for b
    by (rule arr_holds_update [OF d a(3,2) pre(2)])
  have W: "(j = i) = (b = ?T ! i)" if "arr_holds ?T b = Some j" for b j
    using that pre(2) arr_holds_Some [OF d, of b j] arr_holds_Some [OF d, of b i] by auto
  have "line_state tags ?k w3 b = (if b = tags s ! i then I else line_state tags ?k w b)" if "b \<noteq> a" for b
  proof (cases "arr_holds ?T b")
    case None
    then show ?thesis using that holds [of b] post(3) by (simp add: line_state_def w3_def)
  next
    case (Some j)
    then show ?thesis using that holds [of b] post(3) W [OF Some] arr2 pre(4) by (auto simp: line_state_def w3_def nth_list_update)
  qed
  moreover have "l1_ok ?k w3" using post len arr2 by (simp add: l1_ok_def w3_def)
  moreover have "arr_holds (tags (arrays w3 ?k)) a = Some i" using holds [of a] post(3) by (simp add: w3_def)
  moreover have "xw_weave w3 = xw_weave w" "xw_rec w3 = xw_rec w" using m(2,3) by (simp_all add: w3_def w1_def)
  moreover have g: "geo s = geo (arrays w ?k)" by (rule preinsert_geo [OF pre(1)])
  moreover have "geo (arrays w3 ?k) = geo (arrays w ?k)" using postinsert_geo [OF post(1)] g by (simp add: w3_def)
  ultimately show ?thesis using run pre(2-4) by metis
qed

lemma term_start: "IsGet (acctype q) \<Longrightarrow> get_st (state q) w = Inr (initialState q) \<Longrightarrow> term_startAccess q w = Inr (False, q)"
  by (simp add: term_startAccess_def startAccess_def CheckForMESIRace_def del: get_st.simps)

text \<open>A whole access of a cache with a terminal controller over memories.\<close>

lemma l1_access:
  fixes w :: "('a, 'x) xworld_scheme"
  assumes ok: "l1_ok (cc_id cfg) w" and a: "lineAddr q = a" "a \<noteq> 0" and get: "IsGet (acctype q)"
    and st: "get_st (state q) w = Inr (initialState q)" and rec: "no_record (srcId q) w"
    and par: "parentRTTs cfg \<noteq> []" "0 < lat" and cyc: "unat (cycle q) + 2 ^ 33 \<le> 2 ^ 64"
  shows "\<exists>r w' v. Cache_access fuel tbl (MESITerminalCC (\<lambda>p. SimpleMemory_access lat) cfg) (cc_id cfg) accLat q w = Inr (r, w') \<and>
    cycle q + ucast accLat \<le> r \<and> cycle q \<le> r \<and> l1_ok (cc_id cfg) w' \<and> xw_weave w' = xw_weave w \<and> xw_rec w' = xw_rec w \<and>
    l1_next (acctype q) a v (line_state tags (cc_id cfg) w) (line_state tags (cc_id cfg) w') \<and>
    geo (arrays w' (cc_id cfg)) = geo (arrays w (cc_id cfg)) \<and>
    (v = a \<or> (\<exists>i s. pend s a i \<and> geo s = geo (arrays w (cc_id cfg)) \<and> i < length (tags s) \<and> v = tags s ! i))"
proof -
  let ?k = "cc_id cfg" and ?T = "tags (arrays w (cc_id cfg))" and ?c = "cycle q + ucast accLat"
  let ?cc = "MESITerminalCC (\<lambda>p. SimpleMemory_access lat) cfg"
  have u: "unat ?c = unat (cycle q) + unat accLat" "cycle q \<le> ?c"
    using add_lat_ge [of "cycle q" accLat] cyc by simp_all
  have c: "unat ?c + 2 ^ 32 \<le> 2 ^ 64" unfolding u(1) using cyc unat_lt_32 [of accLat] by simp
  obtain s1 where l: "lookup a q True (arrays w ?k) = Inr (arr_holds ?T a, s1)" "inv s1" "tags s1 = ?T"
    using lookup_inv [of "arrays w ?k" a q True] a(2) ok by (auto simp: l1_ok_def)
  define w1 where "w1 = w\<lparr>arrays := (arrays w)(?k := s1)\<rparr>"
  have ok1: "l1_ok ?k w1" and T1: "tags (arrays w1 ?k) = ?T" using ok l by (auto simp: l1_ok_def w1_def)
  have ls1: "line_state tags ?k w1 = line_state tags ?k w"
    using l(3) by (auto simp: line_state_def fun_eq_iff w1_def split: option.splits)
  have g1: "geo (arrays w1 ?k) = geo (arrays w ?k)" using lookup_geo [OF l(1)] by (simp add: w1_def)
  have x1: "xw_weave w1 = xw_weave w" "xw_rec w1 = xw_rec w" by (simp_all add: w1_def)
  obtain i w2 v where
    w2: "(case arr_holds ?T a of Some l \<Rightarrow> Inr (Some l, w1)
          | None \<Rightarrow> rbind (Cache_allocate tbl ?cc ?k q ?c w1) (\<lambda>(l, w2). Inr (Some l, w2))) = Inr (Some i, w2)"
      "l1_ok ?k w2" "arr_holds (tags (arrays w2 ?k)) a = Some i" "xw_weave w2 = xw_weave w" "xw_rec w2 = xw_rec w"
      "\<forall>b. b \<noteq> a \<longrightarrow> line_state tags ?k w2 b = (if b = v then I else line_state tags ?k w b)"
      "v = a \<or> (\<exists>i s. pend s a i \<and> geo s = geo (arrays w ?k) \<and> i < length (tags s) \<and> v = tags s ! i)"
      "geo (arrays w2 ?k) = geo (arrays w ?k)"
  proof (cases "arr_holds ?T a")
    case (Some i)
    then show ?thesis using ok1 T1 ls1 x1 g1 by (intro that [of i w1 a]) simp_all
  next
    case None
    from l1_allocate [OF ok1 a _ par c] None T1 obtain i s w' where
      al: "Cache_allocate tbl ?cc ?k q ?c w1 = Inr (i, w')" "l1_ok ?k w'" "arr_holds (tags (arrays w' ?k)) a = Some i"
      "xw_weave w' = xw_weave w1" "xw_rec w' = xw_rec w1" "pend s a i" "tags s = ?T" "i < length (tags s)"
      "geo s = geo (arrays w1 ?k)" "geo (arrays w' ?k) = geo (arrays w1 ?k)"
      "\<forall>b. b \<noteq> a \<longrightarrow> line_state tags ?k w' b = (if b = tags s ! i then I else line_state tags ?k w1 b)" by auto
    then have "\<exists>j t. pend t a j \<and> geo t = geo (arrays w1 ?k) \<and> j < length (tags t) \<and> tags s ! i = tags t ! j" by blast
    with al show ?thesis using None ls1 x1 g1 by (intro that [of i w' "tags s ! i"]) simp_all
  qed
  have rec2: "no_record (srcId q) w2" using rec w2(4,5) by (simp add: no_record_def cong: option.case_cong)
  obtain r w3 where w3: "bcc_processAccess (\<lambda>p. SimpleMemory_access lat) cfg a i (acctype q) ?c (srcId q) (flags q) w2 = Inr (r, w3)"
      "?c \<le> r" "l1_ok ?k w3" "coh.more w3 = coh.more w2" "l1_next (acctype q) a a (line_state tags ?k w2) (line_state tags ?k w3)"
    using l1_process [OF w2(2,3) par c get, of "srcId q" "flags q"] by blast
  have le: "cycle q \<le> r" using u(2) w3(2) by simp
  have look: "Cache_lookup tbl ?k a q True w = Inr (arr_holds ?T a, w1)"
    using l(1) by (simp add: Cache_lookup_def tbl_def w1_def)
  have T: "ct_startAccess ?cc = term_startAccess" "ct_shouldAllocate ?cc = (\<lambda>q. Inr True)"
      "ct_processAccess ?cc = term_processAccess (\<lambda>p. SimpleMemory_access lat) cfg"
    by (simp_all add: MESITerminalCC_def)
  have "Cache_access fuel tbl ?cc ?k accLat q w = Inr (r, w3)"
    using look w2(1) w3(1) le get a(1) takeRecord_none [OF rec2] term_start [OF get st]
    by (cases "arr_holds ?T a") (simp_all add: Cache_access_def T term_processAccess_def Cache_stitch_def)
  moreover have "l1_next (acctype q) a v (line_state tags ?k w) (line_state tags ?k w3)"
    using w3(5) w2(6) by (simp add: l1_next_def)
  moreover have "xw_weave w3 = xw_weave w" "xw_rec w3 = xw_rec w" using more_fields [OF w3(4)] w2(4,5) by simp_all
  moreover have "geo (arrays w3 ?k) = geo (arrays w ?k)" using more_fields(1) [OF w3(4)] w2(8) by simp
  ultimately show ?thesis using w3(2,3) w2(7) le by blast
qed

text \<open>An invalidation or downgrade of a line the cache holds.\<close>

lemma l1_inval:
  fixes w :: "('a, 'x) xworld_scheme"
  assumes ok: "l1_ok (cc_id cfg) w" and a: "inv_lineAddr q = a"
    and s: "line_state tags (cc_id cfg) w a = s" "inv_type q = INV \<and> s \<noteq> I \<or> inv_type q = INVX \<and> (s = E \<or> s = M)"
  shows "\<exists>w'. Cache_finishInvalidate tbl (cc_id cfg) invLat (term_processInv cfg) q w =
      Inr (inv_cycle q + ucast invLat, inv_writeback q \<or> s = M, w') \<and>
    l1_ok (cc_id cfg) w' \<and> geo (arrays w' (cc_id cfg)) = geo (arrays w (cc_id cfg)) \<and>
    xw_weave w' = xw_weave w \<and> xw_rec w' = xw_rec w \<and>
    line_state tags (cc_id cfg) w' = (line_state tags (cc_id cfg) w)(a := if inv_type q = INV then I else S)"
proof -
  let ?k = "cc_id cfg" and ?T = "tags (arrays w (cc_id cfg))"
  have inv: "inv (arrays w ?k)" and len: "length (bccArray w ?k) = length ?T" using ok by (auto simp: l1_ok_def)
  have d: "arr_distinct ?T" by (rule inv_distinct [OF inv])
  obtain l where l: "arr_holds ?T a = Some l" "bccArray w ?k ! l = s"
    using s by (auto simp: line_state_def split: option.splits)
  have al: "a \<noteq> 0" "l < length (bccArray w ?k)" using l(1) len arr_holds_Some [OF d] by auto
  obtain s' where s': "lookup a null_req False (arrays w ?k) = Inr (Some l, s')" "inv s'" "tags s' = ?T"
    using lookup_inv [OF inv al(1), of null_req False] l(1) by auto
  define t where "t = (if inv_type q = INV then I else S)"
  obtain w' where run: "Cache_finishInvalidate tbl ?k invLat (term_processInv cfg) q w =
      Inr (inv_cycle q + ucast invLat, inv_writeback q \<or> s = M, w')"
    and w': "bccArray w' = (bccArray w)(?k := (bccArray w ?k)[l := t])" "arrays w' = (arrays w)(?k := s')"
      "xw_weave w' = xw_weave w" "xw_rec w' = xw_rec w"
    using s(2) l(2) al(2) s'(1) a
    by (cases "inv_type q")
      (auto simp: Cache_finishInvalidate_def Cache_lookup_def tbl_def term_processInv_def
        bcc_processInval_def Let_def prof_def t_def)
  have other: "j \<noteq> l" if "arr_holds ?T b = Some j" "b \<noteq> a" for b j
    using that l(1) arr_holds_Some [OF d] by auto
  have "line_state tags ?k w' b = ((line_state tags ?k w)(a := t)) b" for b
    using l(1) al(2) other w'(1,2) s'(3) by (auto simp: line_state_def nth_list_update split: option.splits)
  then have "line_state tags ?k w' = (line_state tags ?k w)(a := t)" by (rule ext)
  moreover have "l1_ok ?k w'" using len w' s' by (simp add: l1_ok_def)
  moreover have "geo (arrays w' ?k) = geo (arrays w ?k)" using lookup_geo [OF s'(1)] w'(2) by simp
  ultimately show ?thesis using run w'(3,4) unfolding t_def by blast
qed

end

lemma sa_geo:
  "sa_lookup rp hf a q u s = Inr (x, s') \<Longrightarrow> sa_numSets s' = sa_numSets s \<and> sa_assoc s' = sa_assoc s"
  "sa_preinsert rp hf cc a q s = Inr (i, v, s') \<Longrightarrow> sa_numSets s' = sa_numSets s \<and> sa_assoc s' = sa_assoc s"
  "sa_postinsert rp a q i s = Inr s' \<Longrightarrow> sa_numSets s' = sa_numSets s \<and> sa_assoc s' = sa_assoc s"
proof -
  show "sa_numSets s' = sa_numSets s \<and> sa_assoc s' = sa_assoc s" if "sa_lookup rp hf a q u s = Inr (x, s')"
  proof -
    from that obtain f where "(case f of None \<Rightarrow> Inr (None, s)
      | Some i \<Rightarrow> if u then rbind (rp_update rp i q (sa_rp s)) (\<lambda>r. Inr (Some i, s\<lparr>sa_rp := r\<rparr>)) else Inr (Some i, s)) = Inr (x, s')"
      by (auto simp: sa_lookup_def rbind_Inr_iff)
    then show ?thesis by (cases f; cases u) (auto simp: rbind_Inr_iff)
  qed
qed (auto simp: sa_preinsert_def sa_postinsert_def rbind_Inr_iff)

sublocale repl_policy \<subseteq> l1: sized_array "sa_lookup rp hf" "sa_preinsert rp hf" "sa_postinsert rp" sa_array
  "sa_inv ready lines cands_ok hf" "sa_pend ranked lines cands_ok hf" "\<lambda>s. (sa_numSets s, sa_assoc s)" for hf
  by unfold_locales (simp_all add: sa_geo)

text \<open>In a set-associative array the evicted line is of the set of the new one.\<close>

lemma sa_pend_same_set:
  assumes "sa_pend rkd lns cok hf s a i" "i < length (sa_array s)" "sa_array s ! i \<noteq> 0"
  shows "set_index hf (sa_numSets s) 0 (sa_array s ! i) = set_index hf (sa_numSets s) 0 a"
proof -
  have sh: "sa_shape hf s" using assms(1) by (simp add: sa_pend_def sa_inv_def)
  have "i div sa_assoc s = set_index hf (sa_numSets s) 0 a"
    using assms(1) sa_cands_set(1) [OF sh, of a] by (auto simp: sa_pend_def)
  with sh assms(2,3) show ?thesis by (auto simp: sa_shape_def)
qed

definition lru_l1_ok :: "(nat \<Rightarrow> u64 \<Rightarrow> u64) \<Rightarrow> nat \<Rightarrow> (lru SetAssocArray, 'x) xworld_scheme \<Rightarrow> bool" where
  "lru_l1_ok hf k w \<longleftrightarrow> lru_sa_ok hf (arrays w k) \<and> length (bccArray w k) = length (sa_array (arrays w k))"

abbreviation sa_line :: "nat \<Rightarrow> (lru SetAssocArray, 'x) xworld_scheme \<Rightarrow> u64 \<Rightarrow> MESIState" where
  "sa_line \<equiv> line_state sa_array"

lemma lru_l1_ok_eq: "lru_rp.l1.l1_ok hf k w = lru_l1_ok hf k w"
  by (simp add: lru_rp.l1.l1_ok_def lru_l1_ok_def)

lemma lru_l1_access:
  fixes w :: "(lru SetAssocArray, 'x) xworld_scheme"
  assumes "lru_l1_ok hf (cc_id cfg) w" "lineAddr q \<noteq> 0" "IsGet (acctype q)"
    and "get_st (state q) w = Inr (initialState q)" "no_record (srcId q) w"
    and "parentRTTs cfg \<noteq> []" "0 < lat" "unat (cycle q) + 2 ^ 33 \<le> 2 ^ 64"
  shows "\<exists>r w' v. Cache_access fuel (sa_table (LRUReplPolicy sh) hf) (MESITerminalCC (\<lambda>p. SimpleMemory_access lat) cfg)
        (cc_id cfg) accLat q w = Inr (r, w') \<and>
    cycle q + ucast accLat \<le> r \<and> cycle q \<le> r \<and> lru_l1_ok hf (cc_id cfg) w' \<and>
    sa_numSets (arrays w' (cc_id cfg)) = sa_numSets (arrays w (cc_id cfg)) \<and>
    xw_weave w' = xw_weave w \<and> xw_rec w' = xw_rec w \<and>
    l1_next (acctype q) (lineAddr q) v (sa_line (cc_id cfg) w) (sa_line (cc_id cfg) w') \<and>
    (v \<noteq> 0 \<longrightarrow> set_index hf (sa_numSets (arrays w (cc_id cfg))) 0 v =
      set_index hf (sa_numSets (arrays w (cc_id cfg))) 0 (lineAddr q))"
proof -
  let ?k = "cc_id cfg"
  from lru_rp.l1.l1_access [unfolded lru_l1_ok_eq, OF assms(1) refl assms(2-8), of fuel sh accLat]
  obtain r w' v where run: "Cache_access fuel (sa_table (LRUReplPolicy sh) hf) (MESITerminalCC (\<lambda>p. SimpleMemory_access lat) cfg)
        ?k accLat q w = Inr (r, w')" "cycle q + ucast accLat \<le> r" "cycle q \<le> r" "lru_l1_ok hf ?k w'"
      "xw_weave w' = xw_weave w" "xw_rec w' = xw_rec w"
      "l1_next (acctype q) (lineAddr q) v (sa_line ?k w) (sa_line ?k w')"
    and n: "(sa_numSets (arrays w' ?k), sa_assoc (arrays w' ?k)) = (sa_numSets (arrays w ?k), sa_assoc (arrays w ?k))"
    and v: "v = lineAddr q \<or> (\<exists>i s. sa_pend (\<lambda>_. True) (\<lambda>r :: lru. length (lru_array r)) (\<lambda>_ _. True) hf s (lineAddr q) i \<and>
      (sa_numSets s, sa_assoc s) = (sa_numSets (arrays w ?k), sa_assoc (arrays w ?k)) \<and> i < length (sa_array s) \<and> v = sa_array s ! i)"
    unfolding lru_table_tbl by (elim exE conjE)
  have "set_index hf (sa_numSets (arrays w ?k)) 0 v = set_index hf (sa_numSets (arrays w ?k)) 0 (lineAddr q)" if "v \<noteq> 0"
    using v that sa_pend_same_set by (metis prod.inject)
  with run n show ?thesis by (metis prod.inject)
qed

text \<open>C8. A read or write by a core that reaches its L1 cache (set-associative with LRU, over memories of fixed
  latency) always succeeds: the cache then holds the line, writable if the access was a write; the response
  comes at least the access latency later; the array and the states stay consistent; and at most one other
  line, of the same set, is evicted while no other line changes state.\<close>

theorem cache_access_correct:
  fixes w :: "(lru SetAssocArray, 'x) xworld_scheme"
  assumes "lru_l1_ok hf (cc_id cfg) w" "lineAddr q \<noteq> 0" "IsGet (acctype q)"
    and "get_st (state q) w = Inr (initialState q)" "no_record (srcId q) w"
    and "parentRTTs cfg \<noteq> []" "0 < lat" "unat (cycle q) + 2 ^ 33 \<le> 2 ^ 64"
  shows "\<exists>r w' v. Cache_access fuel (sa_table (LRUReplPolicy sh) hf) (MESITerminalCC (\<lambda>p. SimpleMemory_access lat) cfg)
        (cc_id cfg) accLat q w = Inr (r, w') \<and>
    cycle q + ucast accLat \<le> r \<and> cycle q \<le> r \<and> lru_l1_ok hf (cc_id cfg) w' \<and>
    sa_numSets (arrays w' (cc_id cfg)) = sa_numSets (arrays w (cc_id cfg)) \<and>
    xw_weave w' = xw_weave w \<and> xw_rec w' = xw_rec w \<and>
    l1_next (acctype q) (lineAddr q) v (sa_line (cc_id cfg) w) (sa_line (cc_id cfg) w') \<and>
    (v \<noteq> 0 \<longrightarrow> set_index hf (sa_numSets (arrays w (cc_id cfg))) 0 v =
      set_index hf (sa_numSets (arrays w (cc_id cfg))) 0 (lineAddr q))"
  by (rule lru_l1_access [OF assms])

subsection \<open>The filter cache and its L1\<close>

text \<open>The arrays of the first level use the identity hash; \<open>ix\<close> is the set of a line.\<close>

definition fentry_ok :: "u64 \<Rightarrow> (u64 \<Rightarrow> nat) \<Rightarrow> (u64 \<Rightarrow> MESIState) \<Rightarrow> nat \<Rightarrow> FilterEntry \<Rightarrow> bool" where
  "fentry_ok pm ix st j e \<longleftrightarrow>
     (rdAddr e = 0 \<or> rdAddr e = - 1 \<or> rdAddr e AND pm = 0 \<and> ix (rdAddr e) = j \<and> st (pm OR rdAddr e) \<noteq> I) \<and>
     (wrAddr e = 0 \<or> wrAddr e = - 1 \<or> wrAddr e = rdAddr e \<and> st (pm OR wrAddr e) = M)"

definition filter_ok :: "u64 \<Rightarrow> nat \<Rightarrow> FilterCache \<Rightarrow> (lru SetAssocArray, 'x) xworld_scheme \<Rightarrow> bool" where
  "filter_ok pm k f w \<longleftrightarrow> lru_l1_ok id_hash k w \<and> no_record (fc_srcId f) w \<and>
     (let n = sa_numSets (arrays w k) in
      0 < n \<and> n < 2 ^ 32 \<and> length (filterArray f) = n \<and> setMask f = of_nat (n - 1) \<and> pm AND of_nat (n - 1) = 0 \<and>
      (\<forall>j < n. fentry_ok pm (set_index id_hash n 0) (sa_line k w) j (filterArray f ! j)))"

lemma of_nat_64: "m < 2 ^ 32 \<Longrightarrow> unat (of_nat m :: u64) = m"
  by (simp add: unsigned_of_nat take_bit_nat_eq_self)

lemma filter_idx_set:
  assumes "setMask f = of_nat (n - 1)" "0 < n" "n < 2 ^ 32"
  shows "filter_idx a f = set_index id_hash n 0 a" "filter_idx a f < n"
proof -
  have l: "set_index id_hash n 0 a < n" by (rule set_index_less [OF assms(2,3)])
  then have "unat (a AND of_nat (n - 1)) < 2 ^ 32" using assms(3) unfolding set_index_def id_hash_def by linarith
  then show "filter_idx a f = set_index id_hash n 0 a"
    by (simp add: filter_idx_def set_index_def id_hash_def assms(1) unat_ucast_64_32 del: of_nat_diff)
  with l show "filter_idx a f < n" by simp
qed

lemma set_index_phys: "pm AND of_nat (n - 1) = 0 \<Longrightarrow> set_index id_hash n 0 (pm OR v) = set_index id_hash n 0 v"
  by (simp add: set_index_def id_hash_def bit.conj_disj_distrib2)

lemma phys_inject:
  fixes pm :: u64
  assumes "pm OR v = pm OR v'" "v AND pm = 0" "v' AND pm = 0"
  shows "v = v'"
proof (rule bit_eqI)
  fix n
  have "bit (pm OR v) n = bit (pm OR v') n" "bit (v AND pm) n = bit (0 :: u64) n" "bit (v' AND pm) n = bit (0 :: u64) n"
    using assms by simp_all
  then show "bit v n = bit v' n" by (auto simp: bit_simps)
qed

lemma phys_nonzero: "v \<noteq> 0 \<Longrightarrow> (pm :: u64) OR v \<noteq> 0"
  by (auto simp: bit_eq_iff bit_simps)

text \<open>Entries of other sets survive an access: neither the line fetched nor the one evicted is theirs.\<close>

lemma fentry_ok_next:
  assumes e: "fentry_ok pm (set_index id_hash n 0) st j e" and nx: "l1_next ty (pm OR a) v st st'"
    and v: "v \<noteq> 0 \<longrightarrow> set_index id_hash n 0 v = set_index id_hash n 0 (pm OR a)"
    and j: "j \<noteq> set_index id_hash n 0 a" and pm: "pm AND of_nat (n - 1) = 0"
  shows "fentry_ok pm (set_index id_hash n 0) st' j e"
proof -
  have "st' (pm OR x) = st (pm OR x)" if "set_index id_hash n 0 x = j" "x \<noteq> 0" for x
  proof -
    have "set_index id_hash n 0 (pm OR x) = j" using that set_index_phys [OF pm] by simp
    then have "pm OR x \<noteq> pm OR a" "pm OR x \<noteq> v"
      using v j set_index_phys [OF pm, of a] phys_nonzero [OF that(2), of pm] by auto
    then show ?thesis using nx by (simp add: l1_next_def)
  qed
  then show ?thesis using e by (auto simp: fentry_ok_def)
qed

lemma filter_replace_ok:
  fixes w :: "(lru SetAssocArray, 'x) xworld_scheme"
  assumes ok: "filter_ok pm (cc_id cfg) f w" and v: "v \<noteq> 0" "v AND pm = 0" and par: "parentRTTs cfg \<noteq> []" "0 < lat"
    and cyc: "unat cyc + 2 ^ 33 \<le> 2 ^ 64"
  shows "\<exists>r f' w'. FilterCache_replace (Cache_access fuel (sa_table (LRUReplPolicy sh) id_hash)
        (MESITerminalCC (\<lambda>p. SimpleMemory_access lat) cfg) (cc_id cfg) accLat) pm t v (filter_idx v f) isLoad cyc (f, w) = Inr (r, f', w') \<and>
    cyc \<le> r \<and> filter_ok pm (cc_id cfg) f' w' \<and> sa_line (cc_id cfg) w' (pm OR v) \<noteq> I \<and>
    xw_weave w' = xw_weave w \<and> xw_rec w' = xw_rec w \<and> fc_srcId f' = fc_srcId f \<and>
    (isLoad \<or> sa_line (cc_id cfg) w' (pm OR v) = M)"
proof -
  let ?k = "cc_id cfg"
  define n where "n = sa_numSets (arrays w ?k)"
  have n: "0 < n" "n < 2 ^ 32" "length (filterArray f) = n" "setMask f = of_nat (n - 1)" "pm AND of_nat (n - 1) = 0"
    and en: "\<forall>j < n. fentry_ok pm (set_index id_hash n 0) (sa_line ?k w) j (filterArray f ! j)"
    and l1: "lru_l1_ok id_hash ?k w" "no_record (fc_srcId f) w"
    using ok by (auto simp: filter_ok_def n_def Let_def)
  define w0 where "w0 = w\<lparr>temps := (temps w)(t := I)\<rparr>"
  have w0: "lru_l1_ok id_hash ?k w0" "no_record (fc_srcId f) w0" "arrays w0 = arrays w" "sa_line ?k w0 = sa_line ?k w"
    using l1 by (auto simp: w0_def lru_l1_ok_def no_record_def line_state_def fun_eq_iff cong: option.case_cong)
  let ?q = "filter_req (pm OR v) isLoad t cyc f"
  have q: "lineAddr ?q = pm OR v" "IsGet (acctype ?q)" "get_st (state ?q) w0 = Inr (initialState ?q)"
      "no_record (srcId ?q) w0" "cycle ?q = cyc" "acctype ?q = (if isLoad then GETS else GETX)"
    using w0(2) by (auto simp: filter_req_def IsGet_def w0_def)
  have "lineAddr ?q \<noteq> 0" "unat (cycle ?q) + 2 ^ 33 \<le> 2 ^ 64" using q v cyc phys_nonzero by simp_all
  from lru_l1_access [OF w0(1) this(1) q(2,3,4) par this(2), of fuel sh accLat] obtain r w' z where
    acc: "Cache_access fuel (sa_table (LRUReplPolicy sh) id_hash) (MESITerminalCC (\<lambda>p. SimpleMemory_access lat) cfg) ?k accLat ?q w0 = Inr (r, w')"
      "cycle ?q \<le> r" "lru_l1_ok id_hash ?k w'" "sa_numSets (arrays w' ?k) = n" "xw_weave w' = xw_weave w0" "xw_rec w' = xw_rec w0"
      "l1_next (acctype ?q) (pm OR v) z (sa_line ?k w) (sa_line ?k w')"
      "z \<noteq> 0 \<longrightarrow> set_index id_hash n 0 z = set_index id_hash n 0 (pm OR v)"
    unfolding q(1) w0(3,4) n_def by blast
  have i: "filter_idx v f = set_index id_hash n 0 v" "filter_idx v f < n" by (rule filter_idx_set [OF n(4,1,2)])+
  let ?e = "filterArray f ! filter_idx v f"
  define e where "e = ?e\<lparr>wrAddr := (if isLoad then - 1 else v), rdAddr := v, availCycle := (if rdAddr ?e \<noteq> v then r else availCycle ?e)\<rparr>"
  define f' where "f' = f\<lparr>filterArray := (filterArray f)[filter_idx v f := e]\<rparr>"
  have run: "FilterCache_replace (Cache_access fuel (sa_table (LRUReplPolicy sh) id_hash) (MESITerminalCC (\<lambda>p. SimpleMemory_access lat) cfg)
      ?k accLat) pm t v (filter_idx v f) isLoad cyc (f, w) = Inr (r, f', w')"
    using acc(1) i(2) n(3) by (simp add: FilterCache_replace_def w0_def [symmetric] Let_def e_def f'_def)
  have new: "sa_line ?k w' (pm OR v) \<noteq> I" "isLoad \<or> sa_line ?k w' (pm OR v) = M"
    using acc(7) q(6) by (auto simp: l1_next_def split: if_splits)
  have "fentry_ok pm (set_index id_hash n 0) (sa_line ?k w') j (filterArray f' ! j)" if "j < n" for j
  proof (cases "j = filter_idx v f")
    case True
    then show ?thesis using new v(2) i n(3) by (auto simp: fentry_ok_def e_def f'_def)
  next
    case False
    then show ?thesis using fentry_ok_next [OF _ acc(7,8) _ n(5)] en that i(1) by (simp add: f'_def)
  qed
  moreover have "no_record (fc_srcId f) w'"
    using w0(2) acc(5,6) by (simp add: no_record_def cong: option.case_cong)
  ultimately have "filter_ok pm ?k f' w'"
    using acc(3,4) n by (simp add: filter_ok_def Let_def) (simp add: f'_def)
  moreover have "xw_weave w' = xw_weave w" "xw_rec w' = xw_rec w" "fc_srcId f' = fc_srcId f"
    using acc(5,6) by (simp_all add: w0_def f'_def)
  ultimately show ?thesis using run acc(2) new q(5) by metis
qed

lemma filter_addr:
  assumes "0 < lb" "lb \<le> 32"
  shows "drop_bit lb (x :: u64) AND push_bit (64 - lb) p = 0" "drop_bit lb x \<noteq> - 1"
proof -
  show "drop_bit lb x AND push_bit (64 - lb) p = 0"
    using assms by (intro bit_eqI) (auto simp: bit_simps dest: bit_imp_le_length)
  have "\<not> bit (drop_bit lb x) 63" "bit (- 1 :: u64) 63" using assms by (auto simp: bit_simps dest: bit_imp_le_length)
  then show "drop_bit lb x \<noteq> - 1" by metis
qed

text \<open>Loads and stores through the filter.\<close>

lemma filter_access_ok:
  fixes w :: "(lru SetAssocArray, 'x) xworld_scheme"
  assumes "0 < lb" "lb \<le> 32" "pm = push_bit (64 - lb) p" "filter_ok pm (cc_id cfg) f w" "drop_bit lb vAddr \<noteq> 0"
    and "parentRTTs cfg \<noteq> []" "0 < lat" "unat cyc + 2 ^ 33 \<le> 2 ^ 64"
  shows "(\<exists>r f' w'. FilterCache_load (Cache_access fuel (sa_table (LRUReplPolicy sh) id_hash)
        (MESITerminalCC (\<lambda>p. SimpleMemory_access lat) cfg) (cc_id cfg) accLat) lb pm t vAddr cyc (f, w) = Inr (r, f', w') \<and>
      cyc \<le> r \<and> filter_ok pm (cc_id cfg) f' w' \<and> sa_line (cc_id cfg) w' (pm OR drop_bit lb vAddr) \<noteq> I \<and>
      xw_weave w' = xw_weave w \<and> xw_rec w' = xw_rec w \<and> fc_srcId f' = fc_srcId f) \<and>
    (\<exists>r f' w'. FilterCache_store (Cache_access fuel (sa_table (LRUReplPolicy sh) id_hash)
        (MESITerminalCC (\<lambda>p. SimpleMemory_access lat) cfg) (cc_id cfg) accLat) lb pm t vAddr cyc (f, w) = Inr (r, f', w') \<and>
      cyc \<le> r \<and> filter_ok pm (cc_id cfg) f' w' \<and> sa_line (cc_id cfg) w' (pm OR drop_bit lb vAddr) = M \<and>
      xw_weave w' = xw_weave w \<and> xw_rec w' = xw_rec w \<and> fc_srcId f' = fc_srcId f)"
proof -
  let ?k = "cc_id cfg" and ?v = "drop_bit lb vAddr"
  define n where "n = sa_numSets (arrays w ?k)"
  have v: "?v \<noteq> 0" "?v \<noteq> - 1" "?v AND pm = 0" using assms(3,5) filter_addr [OF assms(1,2)] by auto
  have n: "0 < n" "n < 2 ^ 32" "length (filterArray f) = n" "setMask f = of_nat (n - 1)"
    and en: "\<forall>j < n. fentry_ok pm (set_index id_hash n 0) (sa_line ?k w) j (filterArray f ! j)"
    using assms(4) by (auto simp: filter_ok_def n_def Let_def)
  have i: "filter_idx ?v f < n" by (rule filter_idx_set(2) [OF n(4,1,2)])
  let ?e = "filterArray f ! filter_idx ?v f"
  have e: "fentry_ok pm (set_index id_hash n 0) (sa_line ?k w) (filter_idx ?v f) ?e" using en i by blast
  have cnt: "filter_ok pm ?k (f\<lparr>fGETSHit := x\<rparr>) w" "filter_ok pm ?k (f\<lparr>fGETXHit := x\<rparr>) w" for x
    using assms(4) by (auto simp: filter_ok_def)
  note rep = filter_replace_ok [OF assms(4) v(1,3) assms(6-8), of fuel sh accLat t]
  have "rdAddr ?e = ?v \<Longrightarrow> sa_line ?k w (pm OR ?v) \<noteq> I" "wrAddr ?e = ?v \<Longrightarrow> sa_line ?k w (pm OR ?v) = M"
    using e v by (auto simp: fentry_ok_def)
  then show ?thesis
    using i n(3) cnt rep [of True] rep [of False]
    by (auto simp: FilterCache_load_def FilterCache_store_def Let_def)
qed



text \<open>The flags that the instruction caches set (no exclusive lines for fetches) reach no request.\<close>

lemma filter_req_no_flags: "flags (filter_req a isLoad t cyc (setFlags (IFETCH OR NOEXCL) f)) = 0"
  by (simp add: filter_req_def)

text \<open>A cleared entry answers for line 0 (the first bytes of the address space) without any access.\<close>

lemma filter_line_zero_hits:
  assumes "drop_bit lb vAddr = 0" "0 < n"
  shows "FilterCache_load acc lb pm t vAddr cyc (FilterCache_init n, w) =
    Inr (cyc, (FilterCache_init n)\<lparr>fGETSHit := 1\<rparr>, w)"
  using assms by (simp add: FilterCache_load_def FilterCache_init_def filter_idx_def FilterEntry_clear_def Let_def word_less_nat_alt)

subsection \<open>A concrete L1\<close>

definition xw0 :: "lru SetAssocArray xworld" where
  "xw0 = \<lparr>bccArray = (\<lambda>_. [M, I]), bccProf = (\<lambda>_. prof0), tccArray = (\<lambda>_. []), temps = (\<lambda>_. I),
     arrays = (\<lambda>_. lru_sa0), xw_weave = weave0, xw_rec = (\<lambda>_. None)\<rparr>"

lemma xw0_ok: "lru_l1_ok id_hash 0 xw0" "no_record src xw0"
  by (auto simp: lru_l1_ok_def xw0_def lru_sa0_def sa_inv_def sa_shape_def arr_distinct_def set_index_def id_hash_def
      lru_init_def less_Suc_eq no_record_def)

lemma xw0_line: "sa_line 0 xw0 64 = M"
  by (simp add: line_state_def xw0_def lru_sa0_def arr_holds_def)

theorem cache_access_correct_witness:
  "\<exists>r w'. Cache_access 5 (sa_table (LRUReplPolicy False) id_hash) (MESITerminalCC (\<lambda>p. SimpleMemory_access 100) cfg0) 0 4
      (req_of 128) xw0 = Inr (r, w') \<and> 4 \<le> r \<and> sa_line 0 w' 128 \<noteq> I"
proof -
  have "get_st (state (req_of 128)) xw0 = Inr (initialState (req_of 128))" "IsGet (acctype (req_of 128))"
      "lineAddr (req_of 128) \<noteq> 0" "unat (cycle (req_of 128)) + 2 ^ 33 \<le> 2 ^ 64"
    by (simp_all add: req_of_def xw0_def IsGet_def)
  from cache_access_correct [of id_hash cfg0 xw0 "req_of 128" 100 5 False 4] this xw0_ok show ?thesis
    by (auto simp: cfg0_def l1_next_def req_of_def)
qed

definition filter1 :: FilterCache where
  "filter1 = (FilterCache_init 1)\<lparr>filterArray := [\<lparr>rdAddr = 64, wrAddr = 64, availCycle = 7\<rparr>]\<rparr>"

lemma filter1_ok: "filter_ok 0 0 filter1 xw0"
  using xw0_ok xw0_line
  by (simp add: filter_ok_def filter1_def FilterCache_init_def fentry_ok_def set_index_def Let_def)
    (simp add: xw0_def lru_sa0_def fentry_ok_def set_index_def)



subsection \<open>Stitching two timing records\<close>

text \<open>Adding a child to an event without a domain and without children, and to one with one child.\<close>

lemma addChild_first:
  assumes "events v p = Some t" "events v c = Some u" "p \<noteq> c" "ev_state t = EV_NONE" "ev_state u = EV_NONE"
    and "numChildren t = 0" "domain t = None"
  shows "addChild fuel p c v = Inr (v\<lparr>events := (events v)(p \<mapsto> t\<lparr>numChildren := 1, kids := Single (Some c)\<rparr>,
    c \<mapsto> u\<lparr>numParents := numParents u + 1\<rparr>)\<rparr>)"
  using assms by (simp add: addChild_def get_ev_def link_child_def set_ev_def)

lemma addChild_second:
  assumes "events v p = Some t" "events v c = Some u" "p \<noteq> c" "ev_state t = EV_NONE" "ev_state u = EV_NONE"
    and "numChildren t = 1" "kids t = Single (Some b)" "domain t = None"
  shows "addChild fuel p c v = Inr (v\<lparr>events := (events v)(p \<mapsto> t\<lparr>kids := Blocks [[Some b, Some c, None]], numChildren := 2\<rparr>,
    c \<mapsto> u\<lparr>numParents := numParents u + 1\<rparr>)\<rparr>)"
  using assms by (simp add: addChild_def get_ev_def link_child_def set_ev_def)



end
