(* ===== verification/CoreRec.thy ===== *)
theory CoreRec
  imports TimingEvents
begin

text \<open>
  The recorder of a core (core_recorder.h, core_recorder.cpp): it turns the accesses of the bound phase into a
  chain of events for the weave phase, skews the core's clock by the contention the weave phase found, and keeps
  the account of halted and contention cycles.

  The recorder computes in 64-bit words; cycles cross to the events, whose cycles are natural numbers, by
  \<open>unat\<close>, and the delay of an event is a 32-bit field.  Core events are plain events with an original start
  cycle, kept in \<open>core_orig\<close>.  \<open>er\<close> is the number of the core's event recorder, \<open>globPhaseCycles\<close> and
  \<open>phLen\<close> are fields of the global state.  The pointers to the core events are event numbers; the
  lists of children and domains are those of \<open>TimingEvents\<close>.
\<close>

datatype RecState = HALTED | RUNNING | DRAINING

record CoreRecorder =
  cr_state :: RecState
  gapCycles :: u64
  prevRespCycle :: u64
  prevRespEvent :: "nat option"
  lastEventSimulatedStartCycle :: u64
  lastEventSimulatedOrigStartCycle :: u64
  totalGapCycles :: u64
  totalHaltedCycles :: u64
  lastUnhaltedCycle :: u64
  cr_domain :: nat

record cweave = weave +
  core_orig :: "nat \<Rightarrow> u64"

definition upd_er :: "nat \<Rightarrow> (EventRecorder \<Rightarrow> EventRecorder) \<Rightarrow> 'x weave_scheme \<Rightarrow> 'x weave_scheme" where
  "upd_er er f w = w\<lparr>recorders := (recorders w)(er := f (recorders w er))\<rparr>"

text \<open>A new core event with its minimum start cycle, and the same linked after the event \<open>p\<close>.\<close>

definition TimingCoreEvent :: "u64 \<Rightarrow> u64 \<Rightarrow> nat option \<Rightarrow> u64 \<Rightarrow> 'x cweave_scheme \<Rightarrow> nat \<times> 'x cweave_scheme" where
  "TimingCoreEvent delay orig dm minStart w =
     (let (e, w1) = new_ev ((TimingEvent_init 0 (unat (ucast delay :: u32)) dm KPlain)\<lparr>minStartCycle := Some (unat minStart)\<rparr>) w
      in (e, w1\<lparr>core_orig := (core_orig w1)(e := orig)\<rparr>))"

definition cr_link :: "nat \<Rightarrow> u64 \<Rightarrow> CoreRecorder \<times> 'x cweave_scheme \<Rightarrow> (CoreRecorder \<times> 'x cweave_scheme) res" where
  "cr_link fuel delay = (\<lambda>(c, w).
     rbind (deref (prevRespEvent c)) (\<lambda>p.
     let (e, w1) = TimingCoreEvent delay (prevRespCycle c - gapCycles c) None (prevRespCycle c) w in
     rbind (addChild fuel p e w1) (\<lambda>w2. Inr (c\<lparr>prevRespEvent := Some e\<rparr>, w2))))"

definition CoreRecorder_init :: "nat \<Rightarrow> nat \<Rightarrow> u64 \<Rightarrow> u64 \<Rightarrow> u64 \<Rightarrow> 'x cweave_scheme \<Rightarrow> CoreRecorder \<times> 'x cweave_scheme" where
  "CoreRecorder_init er dm junk1 junk2 junk3 w =
     (\<lparr>cr_state = HALTED, gapCycles = 0, prevRespCycle = junk1, prevRespEvent = None, lastEventSimulatedStartCycle = junk2,
       lastEventSimulatedOrigStartCycle = junk3, totalGapCycles = 0, totalHaltedCycles = 0, lastUnhaltedCycle = 0,
       cr_domain = dm\<rparr>, upd_er er (setGapCycles 0) w)"

subsection \<open>Bound phase\<close>

definition notifyJoin ::
  "nat \<Rightarrow> u64 \<Rightarrow> u64 \<Rightarrow> CoreRecorder \<times> 'x cweave_scheme \<Rightarrow> (u64 \<times> CoreRecorder \<times> 'x cweave_scheme) res" where
  "notifyJoin er globPhaseCycles cyc = (\<lambda>(c, w).
     case cr_state c of
       HALTED \<Rightarrow> check (prevRespEvent c = None) AssertFailed
         (let c1 = c\<lparr>totalGapCycles := totalGapCycles c + gapCycles c, gapCycles := 0\<rparr>; w1 = upd_er er (setGapCycles 0) w in
          check (lastUnhaltedCycle c1 \<le> globPhaseCycles) AssertFailed
           (let (e, w2) = TimingCoreEvent 0 globPhaseCycles (Some (cr_domain c)) globPhaseCycles w1;
                c2 = c1\<lparr>totalHaltedCycles := totalHaltedCycles c1 + (globPhaseCycles - lastUnhaltedCycle c1),
                        prevRespEvent := Some e, prevRespCycle := globPhaseCycles\<rparr> in
            rbind (ev_queue e (unat globPhaseCycles) w2) (\<lambda>w3.
              Inr (globPhaseCycles, c2\<lparr>cr_state := RUNNING\<rparr>, upd_er er (setStartSlack 0) w3))))
     | DRAINING \<Rightarrow> check (globPhaseCycles \<le> cyc) AssertFailed (Inr (cyc, c\<lparr>cr_state := RUNNING\<rparr>, w))
     | RUNNING \<Rightarrow> Inl Panicked)"

definition notifyLeave ::
  "nat \<Rightarrow> u64 \<Rightarrow> CoreRecorder \<times> 'x cweave_scheme \<Rightarrow> (CoreRecorder \<times> 'x cweave_scheme) res" where
  "notifyLeave fuel cyc = (\<lambda>(c, w).
     check (cr_state c = RUNNING) AssertFailed
      (let c1 = c\<lparr>cr_state := DRAINING\<rparr> in
       check (prevRespEvent c1 \<noteq> None) AssertFailed
        (rbind (cr_link fuel (cyc - prevRespCycle c1) (c1, w)) (\<lambda>(c2, w2).
           cr_link fuel 0 (c2\<lparr>prevRespCycle := cyc\<rparr>, w2)))))"

definition recordAccess ::
  "nat \<Rightarrow> nat \<Rightarrow> u64 \<Rightarrow> CoreRecorder \<times> 'x cweave_scheme \<Rightarrow> (CoreRecorder \<times> 'x cweave_scheme) res" where
  "recordAccess fuel er startCycle = (\<lambda>(c, w0).
     check (hasRecord (recorders w0 er)) AssertFailed
      (let (tr, r1) = popRecord (recorders w0 er); w = upd_er er (\<lambda>_. r1) w0; orig = prevRespEvent c;
           reqCycle = of_nat (tr_reqCycle tr) :: u64 in
       check (prevRespCycle c \<le> startCycle) AssertFailed (check (startCycle \<le> reqCycle) AssertFailed
        (rbind (deref (tr_startEvent tr)) (\<lambda>st. rbind (deref (prevRespEvent c)) (\<lambda>p.
         rbind (if IsGet (tr_type tr)
           then let (e, w1) = TimingCoreEvent (reqCycle - prevRespCycle c) (prevRespCycle c - gapCycles c) None (prevRespCycle c) w in
             rbind (addChild fuel p e w1) (\<lambda>w2. rbind (addChild fuel e st w2) (\<lambda>w3.
             check (tr_endEvent tr \<noteq> None) AssertFailed
              (Inr (c\<lparr>prevRespEvent := tr_endEvent tr, prevRespCycle := of_nat (tr_respCycle tr)\<rparr>, w3))))
           else check (IsPut (tr_type tr)) AssertFailed
             (let (d, w1) = new_ev ((DelayEvent_init (unat (ucast (reqCycle - prevRespCycle c) :: u32)))
                              \<lparr>minStartCycle := Some (unat (prevRespCycle c))\<rparr>) w in
              rbind (addChild fuel p d w1) (\<lambda>w2. rbind (addChild fuel d st w2) (\<lambda>w3. Inr (c, w3))))) (\<lambda>(c1, w1).
         if length (domains w1) > 1
         then rbind (deref orig) (\<lambda>o1. rbind (produceCrossings fuel er o1 w1) (\<lambda>w2.
                Inr (c1, upd_er er (\<lambda>r. r\<lparr>crossingStack := []\<rparr>) w2)))
         else Inr (c1, w1))))))))"

definition cr_record ::
  "nat \<Rightarrow> nat \<Rightarrow> u64 \<Rightarrow> CoreRecorder \<times> 'x cweave_scheme \<Rightarrow> (CoreRecorder \<times> 'x cweave_scheme) res" where
  "cr_record fuel er startCycle cw =
     (if hasRecord (recorders (snd cw) er) then recordAccess fuel er startCycle cw else Inr cw)"

subsection \<open>Between the phases\<close>

definition cSimStart ::
  "nat \<Rightarrow> u64 \<Rightarrow> u64 \<Rightarrow> u64 \<Rightarrow> CoreRecorder \<times> 'x cweave_scheme \<Rightarrow> (u64 \<times> CoreRecorder \<times> 'x cweave_scheme) res" where
  "cSimStart fuel globPhaseCycles phLen cyc = (\<lambda>(c, w).
     let nextPhaseCycle = globPhaseCycles + phLen in
     case cr_state c of
       HALTED \<Rightarrow> Inr (cyc, c, w)
     | RUNNING \<Rightarrow> check (nextPhaseCycle \<le> cyc) AssertFailed
         (rbind (if prevRespCycle c < cyc
                 then rbind (cr_link fuel (cyc - prevRespCycle c) (c, w)) (\<lambda>(c1, w1). Inr (c1\<lparr>prevRespCycle := cyc\<rparr>, w1))
                 else Inr (c, w)) (\<lambda>cw1.
          rbind (cr_link fuel 0 cw1) (\<lambda>(c2, w2). Inr (cyc, c2, w2))))
     | DRAINING \<Rightarrow> Inr (if cyc < nextPhaseCycle then nextPhaseCycle else cyc, c, w))"

definition cSimEnd :: "nat \<Rightarrow> u64 \<Rightarrow> CoreRecorder \<times> 'x cweave_scheme \<Rightarrow> (u64 \<times> CoreRecorder \<times> 'x cweave_scheme) res" where
  "cSimEnd er cyc = (\<lambda>(c, w).
     if cr_state c = HALTED then Inr (cyc, c, w)
     else
      (let lec1 = lastEventSimulatedOrigStartCycle c + gapCycles c; lec2 = lastEventSimulatedStartCycle c in
       check (lec1 \<le> cyc) AssertFailed (check (lec2 \<le> cyc) AssertFailed (check (lec1 \<le> lec2) Panicked
        (let skew = lec2 - lec1;
             c1 = c\<lparr>gapCycles := gapCycles c + skew, prevRespCycle := prevRespCycle c + skew\<rparr>;
             w1 = upd_er er (setGapCycles (unat (gapCycles c1))) w in
         if prevRespEvent c1 = None
         then check (cr_state c1 = DRAINING) AssertFailed
               (Inr (cyc + skew, c1\<lparr>lastUnhaltedCycle := lastEventSimulatedStartCycle c1, cr_state := HALTED\<rparr>, w1))
         else Inr (cyc + skew, c1, w1))))))"

subsection \<open>Weave phase and statistics\<close>

definition reportEventSimulated ::
  "nat \<Rightarrow> nat \<Rightarrow> u64 \<Rightarrow> CoreRecorder \<times> 'x cweave_scheme \<Rightarrow> (CoreRecorder \<times> 'x cweave_scheme) res" where
  "reportEventSimulated er e startCycle = (\<lambda>(c, w).
     let orig = core_orig w e;
         c1 = c\<lparr>lastEventSimulatedStartCycle := startCycle, lastEventSimulatedOrigStartCycle := orig\<rparr>;
         w1 = upd_er er (setStartSlack (uint startCycle - uint orig)) w in
     if prevRespEvent c1 = Some e
     then check (cr_state c1 = DRAINING) AssertFailed (Inr (c1\<lparr>prevRespEvent := None\<rparr>, w1))
     else Inr (c1, w1))"

text \<open>\<open>simulate\<close> of a core event: report, then done at its start cycle.\<close>

definition core_simulate ::
  "nat \<Rightarrow> nat \<Rightarrow> nat \<Rightarrow> u64 \<Rightarrow> CoreRecorder \<times> 'x cweave_scheme \<Rightarrow> (CoreRecorder \<times> 'x cweave_scheme) res" where
  "core_simulate fuel er e startCycle cw =
     rbind (reportEventSimulated er e startCycle cw) (\<lambda>(c, w).
     rbind (event_done fuel e (unat startCycle) w) (\<lambda>w1. Inr (c, w1)))"

definition getUnhaltedCycles :: "u64 \<Rightarrow> u64 \<Rightarrow> CoreRecorder \<Rightarrow> u64" where
  "getUnhaltedCycles globPhaseCycles cyc c =
     (let cy = max cyc globPhaseCycles;
          halted = totalHaltedCycles c + (if cr_state c = HALTED then cy - lastUnhaltedCycle c else 0)
      in cy - halted)"

definition getContentionCycles :: "CoreRecorder \<Rightarrow> u64" where
  "getContentionCycles c = totalGapCycles c + gapCycles c"

subsection \<open>The protocol of bound and weave phases\<close>

text \<open>
  The states a recorder reaches when the simulator calls it in its order: joins, leaves and accesses in the bound
  phase, while the core model advances its clock; then \<open>cSimStart\<close>, the core events of the weave phase, none of
  them after the end of the phase, and \<open>cSimEnd\<close>, after which the next phase begins.  Everything else may change the
  events at any time.  The last argument is the sum of the cycles \<open>cSimEnd\<close> added to the clock.  Clocks do not
  wrap.
\<close>

datatype phase = Bound | Weave

inductive cr_reach ::
  "nat \<Rightarrow> nat \<Rightarrow> u64 \<Rightarrow> phase \<Rightarrow> u64 \<Rightarrow> u64 \<Rightarrow> CoreRecorder \<Rightarrow> 'x cweave_scheme \<Rightarrow> u64 \<Rightarrow> bool"
  for fuel er phLen where
  init: "CoreRecorder_init er dm j1 j2 j3 w = (c, w') \<Longrightarrow> cr_reach fuel er phLen Bound g cyc c w' 0"
| env: "cr_reach fuel er phLen ph g cyc c w k \<Longrightarrow> cr_reach fuel er phLen ph g cyc c w' k"
| join: "cr_reach fuel er phLen Bound g cyc c w k \<Longrightarrow> notifyJoin er g cyc (c, w) = Inr (cyc', c', w') \<Longrightarrow>
    cr_reach fuel er phLen Bound g cyc' c' w' k"
| leave: "cr_reach fuel er phLen Bound g cyc c w k \<Longrightarrow> notifyLeave fuel cyc (c, w) = Inr (c', w') \<Longrightarrow>
    cr_reach fuel er phLen Bound g cyc c' w' k"
| access: "cr_reach fuel er phLen Bound g cyc c w k \<Longrightarrow> cr_record fuel er s (c, w) = Inr (c', w') \<Longrightarrow>
    cr_reach fuel er phLen Bound g cyc c' w' k"
| run: "cr_reach fuel er phLen Bound g cyc c w k \<Longrightarrow> cr_state c = RUNNING \<Longrightarrow> cyc \<le> cyc' \<Longrightarrow>
    cr_reach fuel er phLen Bound g cyc' c w k"
| start: "cr_reach fuel er phLen Bound g cyc c w k \<Longrightarrow> cSimStart fuel g phLen cyc (c, w) = Inr (cyc', c', w') \<Longrightarrow>
    g \<le> g + phLen \<Longrightarrow> cr_reach fuel er phLen Weave g cyc' c' w' k"
| simulate: "cr_reach fuel er phLen Weave g cyc c w k \<Longrightarrow> core_simulate f er e s (c, w) = Inr (c', w') \<Longrightarrow> s \<le> g + phLen \<Longrightarrow>
    cr_reach fuel er phLen Weave g cyc c' w' k"
| end_phase: "cr_reach fuel er phLen Weave g cyc c w k \<Longrightarrow> cSimEnd er cyc (c, w) = Inr (cyc', c', w') \<Longrightarrow> cyc \<le> cyc' \<Longrightarrow>
    cr_reach fuel er phLen Bound (g + phLen) cyc' c' w' (k + (cyc' - cyc))"

definition cr_inv :: "u64 \<Rightarrow> phase \<Rightarrow> u64 \<Rightarrow> u64 \<Rightarrow> CoreRecorder \<Rightarrow> u64 \<Rightarrow> bool" where
  "cr_inv phLen ph g cyc c k \<longleftrightarrow> getContentionCycles c = k \<and> lastUnhaltedCycle c \<le> g \<and>
     (prevRespEvent c = None \<longrightarrow> cr_state c = HALTED \<or>
        ph = Weave \<and> cr_state c = DRAINING \<and> lastEventSimulatedStartCycle c \<le> g + phLen) \<and>
     (cr_state c = HALTED \<longrightarrow> prevRespEvent c = None) \<and>
     (cr_state c \<noteq> HALTED \<longrightarrow> (if ph = Bound then g else g + phLen) \<le> cyc) \<and>
     (ph = Weave \<longrightarrow> g \<le> g + phLen)"

text \<open>What moving the end of the chain of events leaves alone.\<close>

definition same_account :: "CoreRecorder \<Rightarrow> CoreRecorder \<Rightarrow> bool" where
  "same_account c c' \<longleftrightarrow> cr_state c' = cr_state c \<and> gapCycles c' = gapCycles c \<and> totalGapCycles c' = totalGapCycles c \<and>
     lastUnhaltedCycle c' = lastUnhaltedCycle c \<and> lastEventSimulatedStartCycle c' = lastEventSimulatedStartCycle c"

lemma cr_link_frame:
  assumes "cr_link fuel d (c, w) = Inr (c', w')"
  shows "same_account c c' \<and> prevRespEvent c' \<noteq> None"
proof -
  obtain p e w1 where "TimingCoreEvent d (prevRespCycle c - gapCycles c) None (prevRespCycle c) w = (e, w1)"
    by (metis surj_pair)
  then have "c' = c\<lparr>prevRespEvent := Some e\<rparr>" using assms by (auto simp: cr_link_def res_simps)
  then show ?thesis by (simp add: same_account_def)
qed

lemma notifyLeave_frame:
  assumes "notifyLeave fuel cyc (c, w) = Inr (c', w')"
  shows "cr_state c = RUNNING \<and> same_account (c\<lparr>cr_state := DRAINING\<rparr>) c' \<and> prevRespEvent c' \<noteq> None"
proof -
  obtain c2 w2 where l: "cr_state c = RUNNING" "cr_link fuel (cyc - prevRespCycle c) (c\<lparr>cr_state := DRAINING\<rparr>, w) = Inr (c2, w2)"
      "cr_link fuel 0 (c2\<lparr>prevRespCycle := cyc\<rparr>, w2) = Inr (c', w')"
    using assms by (auto simp: notifyLeave_def res_simps Let_def)
  show ?thesis using l(1) cr_link_frame [OF l(2)] cr_link_frame [OF l(3)] by (simp add: same_account_def)
qed

lemma recordAccess_frame:
  assumes "recordAccess fuel er s (c, w) = Inr (c', w')"
  shows "same_account c c' \<and> prevRespEvent c' \<noteq> None \<and> prevRespEvent c \<noteq> None"
  using assms by (auto simp: recordAccess_def res_simps Let_def same_account_def split: prod.splits if_splits)

lemma cSimStart_frame:
  assumes "cSimStart fuel g phLen cyc (c, w) = Inr (cyc', c', w')"
  shows "case cr_state c of HALTED \<Rightarrow> c' = c \<and> cyc' = cyc
    | DRAINING \<Rightarrow> c' = c \<and> cyc' = max cyc (g + phLen)
    | RUNNING \<Rightarrow> cyc' = cyc \<and> g + phLen \<le> cyc \<and> same_account c c' \<and> prevRespEvent c' \<noteq> None"
proof (cases "cr_state c")
  case RUNNING
  then obtain c1 w1 where 1: "(if prevRespCycle c < cyc
      then rbind (cr_link fuel (cyc - prevRespCycle c) (c, w)) (\<lambda>(c1, w1). Inr (c1\<lparr>prevRespCycle := cyc\<rparr>, w1))
      else Inr (c, w)) = Inr (c1, w1)" and 2: "cr_link fuel 0 (c1, w1) = Inr (c', w')" "cyc' = cyc" "g + phLen \<le> cyc"
    using assms by (auto simp: cSimStart_def res_simps Let_def)
  have "same_account c c1"
    using 1 by (auto simp: res_simps same_account_def dest!: cr_link_frame split: if_splits)
  with cr_link_frame [OF 2(1)] 2(2,3) RUNNING show ?thesis by (simp add: same_account_def)
qed (use assms in \<open>auto simp: cSimStart_def Let_def max_def\<close>)

lemma core_simulate_frame:
  assumes "core_simulate f er e s (c, w) = Inr (c', w')"
  shows "\<exists>orig. c' = c\<lparr>lastEventSimulatedStartCycle := s, lastEventSimulatedOrigStartCycle := orig\<rparr> \<or>
    cr_state c = DRAINING \<and> prevRespEvent c = Some e \<and>
      c' = c\<lparr>lastEventSimulatedStartCycle := s, lastEventSimulatedOrigStartCycle := orig, prevRespEvent := None\<rparr>"
  using assms by (auto simp: core_simulate_def reportEventSimulated_def res_simps Let_def split: if_splits)

lemma cSimEnd_frame:
  assumes "cSimEnd er cyc (c, w) = Inr (cyc', c', w')" "cr_state c \<noteq> HALTED"
  shows "\<exists>skew. cyc' = cyc + skew \<and>
    c' = (c\<lparr>gapCycles := gapCycles c + skew, prevRespCycle := prevRespCycle c + skew\<rparr>)
      \<lparr>lastUnhaltedCycle := (if prevRespEvent c = None then lastEventSimulatedStartCycle c else lastUnhaltedCycle c),
       cr_state := (if prevRespEvent c = None then HALTED else cr_state c)\<rparr>"
  using assms by (auto simp: cSimEnd_def res_simps Let_def split: if_splits)

lemma cr_reach_inv: "cr_reach fuel er phLen ph g cyc c w k \<Longrightarrow> cr_inv phLen ph g cyc c k"
proof (induction rule: cr_reach.induct)
  case (init dm j1 j2 j3 w c w' g cyc)
  then show ?case by (auto simp: CoreRecorder_init_def cr_inv_def getContentionCycles_def)
next
  case (join g cyc c w k cyc' c' w')
  then show ?case
    by (cases "cr_state c")
      (auto simp: notifyJoin_def cr_inv_def getContentionCycles_def res_simps Let_def split: prod.splits)
next
  case (leave g cyc c w k c' w')
  then show ?case by (auto dest!: notifyLeave_frame simp: cr_inv_def getContentionCycles_def same_account_def)
next
  case (access g cyc c w k s c' w')
  then show ?case
    by (auto simp: cr_record_def cr_inv_def getContentionCycles_def same_account_def split: if_splits
        dest!: recordAccess_frame)
next
  case (start g cyc c w k cyc' c' w')
  then show ?case
    using cSimStart_frame [OF start.hyps(2)]
    by (cases "cr_state c") (auto simp: cr_inv_def getContentionCycles_def same_account_def)
next
  case (simulate g cyc c w k f e s c' w')
  then show ?case by (auto simp: cr_inv_def getContentionCycles_def dest!: core_simulate_frame)
next
  case (end_phase g cyc c w k cyc' c' w')
  show ?case
  proof (cases "cr_state c = HALTED")
    case True
    then show ?thesis using end_phase by (auto simp: cSimEnd_def cr_inv_def)
  next
    case False
    from cSimEnd_frame [OF end_phase.hyps(2) False] obtain skew where s: "cyc' = cyc + skew"
      "c' = (c\<lparr>gapCycles := gapCycles c + skew, prevRespCycle := prevRespCycle c + skew\<rparr>)
        \<lparr>lastUnhaltedCycle := (if prevRespEvent c = None then lastEventSimulatedStartCycle c else lastUnhaltedCycle c),
         cr_state := (if prevRespEvent c = None then HALTED else cr_state c)\<rparr>" by blast
    have "lastUnhaltedCycle c \<le> g + phLen" "g + phLen \<le> cyc'"
      using end_phase.IH end_phase.hyps(3) False by (auto simp: cr_inv_def)
    then show ?thesis using end_phase.IH False s
      by (auto simp: cr_inv_def getContentionCycles_def add.assoc)
  qed
qed (auto simp: cr_inv_def)

text \<open>C40. Whenever a core's recorder is between two weave phases, whatever threads joined, left and accessed memory
  before: it has an event to continue from exactly when it is not halted, so that no access or leave finds a
  null event and no join a left-over one; the last cycle it was unhalted is not after the start of the phase and
  the clock of a core that is not halted not before it, as the assertions of a join require; and the contention
  cycles it reports are exactly the cycles the weave phases added to the core's clock.\<close>

theorem core_recorder_protocol:
  assumes "cr_reach fuel er phLen Bound g cyc c w k"
  shows "(prevRespEvent c = None \<longleftrightarrow> cr_state c = HALTED) \<and> lastUnhaltedCycle c \<le> g \<and>
    (cr_state c \<noteq> HALTED \<longrightarrow> g \<le> cyc) \<and> getContentionCycles c = k"
  using cr_reach_inv [OF assms] by (auto simp: cr_inv_def)

subsection \<open>Tapering off a phase\<close>

text \<open>A fresh event under a parent: it takes the parent's domain and has it as its only parent.\<close>

lemma addChild_fresh:
  assumes t: "events w p = Some t" "kids_wf t" "ev_state t = EV_NONE \<or> ev_state t = EV_QUEUED"
    and e: "events w e = Some te" "e \<noteq> p" "ev_state te = EV_NONE" "domain te = None" "numChildren te = 0" "numParents te = 0"
  shows "\<exists>k. addChild (Suc fuel) p e w = Inr (w\<lparr>events := (events w)(p \<mapsto> t\<lparr>kids := k, numChildren := numChildren t + 1\<rparr>,
      e \<mapsto> te\<lparr>domain := domain t, numParents := 1\<rparr>)\<rparr>) \<and>
    mset (kid_list k) = add_mset e (mset (kid_list (kids t)))"
proof -
  obtain k where k: "link_child e t = Inr (t\<lparr>kids := k, numChildren := numChildren t + 1\<rparr>)"
      "mset (kid_list k) = add_mset e (mset (kid_list (kids t)))"
    using link_child_ok [OF t(2)] by blast
  show ?thesis
  proof (cases "domain t")
    case None
    have "te\<lparr>domain := None, numParents := 1\<rparr> = te\<lparr>numParents := 1\<rparr>" using e(4) by simp
    moreover have "addChild (Suc fuel) p e w = Inr (w\<lparr>events := (events w)(p \<mapsto> t\<lparr>kids := k, numChildren := numChildren t + 1\<rparr>,
        e \<mapsto> te\<lparr>numParents := 1\<rparr>)\<rparr>)"
      using t e k None by (simp add: addChild_def get_ev_def set_ev_def)
    ultimately show ?thesis using k(2) None by metis
  next
    case (Some d)
    with t e k show ?thesis by (intro exI [of _ k]) (simp add: addChild_def get_ev_def set_ev_def visitChildren_def)
  qed
qed

lemma cr_link_ok:
  assumes p: "prevRespEvent c = Some p" "p < nextEv w" "events w p = Some t" "kids_wf t" "ev_state t = EV_NONE \<or> ev_state t = EV_QUEUED"
  shows "\<exists>w' te tp. cr_link (Suc fuel) d (c, w) = Inr (c\<lparr>prevRespEvent := Some (nextEv w)\<rparr>, w') \<and> nextEv w' = Suc (nextEv w) \<and>
    events w' (nextEv w) = Some te \<and> minStartCycle te = Some (unat (prevRespCycle c)) \<and> postDelay te = unat (ucast d :: u32) \<and>
    preDelay te = 0 \<and> kids te = Single None \<and> numChildren te = 0 \<and> numParents te = 1 \<and> ev_state te = EV_NONE \<and>
    core_orig w' (nextEv w) = prevRespCycle c - gapCycles c \<and>
    events w' p = Some tp \<and> mset (kid_list (kids tp)) = add_mset (nextEv w) (mset (kid_list (kids t)))"
proof -
  let ?e = "nextEv w"
  define te where "te = (TimingEvent_init 0 (unat (ucast d :: u32)) None KPlain)\<lparr>minStartCycle := Some (unat (prevRespCycle c))\<rparr>"
  define w1 where "w1 = w\<lparr>events := (events w)(?e \<mapsto> te), nextEv := Suc ?e, core_orig := (core_orig w)(?e := prevRespCycle c - gapCycles c)\<rparr>"
  have new: "TimingCoreEvent d (prevRespCycle c - gapCycles c) None (prevRespCycle c) w = (?e, w1)"
    by (simp add: TimingCoreEvent_def new_ev_def set_ev_def te_def w1_def)
  have e: "events w1 ?e = Some te" "?e \<noteq> p" "ev_state te = EV_NONE" "domain te = None" "numChildren te = 0" "numParents te = 0"
      "events w1 p = Some t"
    using p(2,3) by (auto simp: w1_def te_def TimingEvent_init_def)
  obtain k where k: "addChild (Suc fuel) p ?e w1 = Inr (w1\<lparr>events := (events w1)(p \<mapsto> t\<lparr>kids := k, numChildren := numChildren t + 1\<rparr>,
      ?e \<mapsto> te\<lparr>domain := domain t, numParents := 1\<rparr>)\<rparr>)" "mset (kid_list k) = add_mset ?e (mset (kid_list (kids t)))"
    using addChild_fresh [OF e(7) p(4,5) e(1-6)] by blast
  show ?thesis using p(1) new k e(2) by (simp add: cr_link_def) (simp add: w1_def te_def TimingEvent_init_def)
qed

text \<open>When a phase ends for a running core, its recorder always succeeds in covering the cycles up to the
  core's clock and then adds one more event, the new end of the chain: nothing follows it yet, it waits only for
  its predecessor, and it cannot start before the next phase, so the chain never runs dry in this one.\<close>

lemma phase_tapered:
  assumes "cr_state c = RUNNING" "prevRespEvent c = Some p" "p < nextEv w" "events w p = Some t" "kids_wf t"
    and "ev_state t = EV_NONE \<or> ev_state t = EV_QUEUED" "g + phLen \<le> cyc"
  shows "\<exists>c' w' e te. cSimStart (Suc fuel) g phLen cyc (c, w) = Inr (cyc, c', w') \<and> prevRespEvent c' = Some e \<and>
    prevRespCycle c' = max (prevRespCycle c) cyc \<and> cr_state c' = RUNNING \<and> nextEv w \<le> e \<and>
    events w' e = Some te \<and> minStartCycle te = Some (unat (prevRespCycle c')) \<and> unat (g + phLen) \<le> unat (prevRespCycle c') \<and>
    numChildren te = 0 \<and> numParents te = 1 \<and> ev_state te = EV_NONE"
proof (cases "prevRespCycle c < cyc")
  case True
  from cr_link_ok [OF assms(2-6), of fuel "cyc - prevRespCycle c"] obtain w1 t1 where
    1: "cr_link (Suc fuel) (cyc - prevRespCycle c) (c, w) = Inr (c\<lparr>prevRespEvent := Some (nextEv w)\<rparr>, w1)"
      "nextEv w1 = Suc (nextEv w)" "events w1 (nextEv w) = Some t1" "kids t1 = Single None" "numChildren t1 = 0" "ev_state t1 = EV_NONE" by blast
  let ?c = "c\<lparr>prevRespEvent := Some (nextEv w), prevRespCycle := cyc\<rparr>"
  have "kids_wf t1" using 1(4,5) by (simp add: kids_wf_def)
  from cr_link_ok [of ?c "nextEv w" w1 t1 fuel 0] this 1(2,3,6) obtain w2 t2 where
    2: "cr_link (Suc fuel) 0 (?c, w1) = Inr (?c\<lparr>prevRespEvent := Some (nextEv w1)\<rparr>, w2)" "events w2 (nextEv w1) = Some t2"
      "minStartCycle t2 = Some (unat cyc)" "numChildren t2 = 0" "numParents t2 = 1" "ev_state t2 = EV_NONE" by auto
  have "cSimStart (Suc fuel) g phLen cyc (c, w) = Inr (cyc, ?c\<lparr>prevRespEvent := Some (nextEv w1)\<rparr>, w2)"
    using True 1(1) 2(1) assms(1,7) by (simp add: cSimStart_def)
  moreover have "max (prevRespCycle c) cyc = cyc" using True by simp
  ultimately show ?thesis using 1(2) 2(2-6) assms(1,7) by (auto simp: word_le_nat_alt)
next
  case False
  from cr_link_ok [OF assms(2-6), of fuel 0] obtain w2 t2 where
    2: "cr_link (Suc fuel) 0 (c, w) = Inr (c\<lparr>prevRespEvent := Some (nextEv w)\<rparr>, w2)" "events w2 (nextEv w) = Some t2"
      "minStartCycle t2 = Some (unat (prevRespCycle c))" "numChildren t2 = 0" "numParents t2 = 1" "ev_state t2 = EV_NONE" by blast
  have "cSimStart (Suc fuel) g phLen cyc (c, w) = Inr (cyc, c\<lparr>prevRespEvent := Some (nextEv w)\<rparr>, w2)"
    using False 2(1) assms(1,7) by (simp add: cSimStart_def)
  moreover have "g + phLen \<le> prevRespCycle c" "max (prevRespCycle c) cyc = prevRespCycle c" using False assms(7) by auto
  ultimately show ?thesis using 2(2-6) assms(1) by (auto simp: word_le_nat_alt)
qed

subsection \<open>A concrete core\<close>

definition cweave0 :: cweave where
  "cweave0 = \<lparr>events = (\<lambda>e. if e = 0 then Some (TimingEvent_init 0 0 (Some 0) KPlain) else None), nextEv = 1, domains = [],
     lastCrossing = (\<lambda>_. (0, None)), recorders = (\<lambda>_. \<lparr>rec_tr = \<lparr>tr_addr = 0, tr_reqCycle = 0, tr_respCycle = 0,
       tr_type = GETS, tr_startEvent = None, tr_endEvent = None\<rparr>, crossingStack = [], rec_srcId = 0, lastGapCycles = 0,
       lastStartSlack = 0\<rparr>), limit = 0, lastLimit = 0, inCSim = False, phaseLength = 1000, core_orig = (\<lambda>_. 0)\<rparr>"

definition core0 :: CoreRecorder where
  "core0 = \<lparr>cr_state = RUNNING, gapCycles = 5, prevRespCycle = 900, prevRespEvent = Some 0, lastEventSimulatedStartCycle = 0,
     lastEventSimulatedOrigStartCycle = 0, totalGapCycles = 0, totalHaltedCycles = 0, lastUnhaltedCycle = 0, cr_domain = 0\<rparr>"

lemma phase_tapered_witness:
  "\<exists>c' w' e te. cSimStart 1 0 1000 1010 (core0, cweave0) = Inr (1010, c', w') \<and> prevRespEvent c' = Some e \<and>
    events w' e = Some te \<and> minStartCycle te = Some 1010 \<and> numParents te = 1"
proof -
  have "events cweave0 0 = Some (TimingEvent_init 0 0 (Some 0) KPlain)" "kids_wf (TimingEvent_init 0 0 (Some 0) KPlain)"
      "ev_state (TimingEvent_init 0 0 (Some 0) KPlain) = EV_NONE" "nextEv cweave0 = 1"
    by (simp_all add: cweave0_def kids_wf_def TimingEvent_init_def)
  with phase_tapered [of core0 0 cweave0 "TimingEvent_init 0 0 (Some 0) KPlain" 0 1000 1010 0] show ?thesis
    by (force simp: core0_def)
qed

text \<open>A core joins at cycle 100000, runs to cycle 101010 and is tapered off; the weave phase simulates its first
  event 30 cycles late, and its clock moves to 101040.\<close>

definition cweave1 :: "EventState \<Rightarrow> cweave" where
  "cweave1 s = cweave0\<lparr>events := [1 \<mapsto> (TimingEvent_init 0 0 (Some 0) KPlain)\<lparr>ev_state := s\<rparr>], nextEv := (if s = EV_RUNNING then 2 else 1),
     domains := [\<lparr>dom_pq = \<lparr>blocks = [], feMap = [], curBlock = 0, elems = 0, nxt = (\<lambda>_. None)\<rparr>, curCycle = 0, dom_prio = 0,
       queuePrio = 0\<rparr>], lastLimit := 100000, core_orig := (\<lambda>_. 100000)\<rparr>"

definition core1 :: "nat option \<Rightarrow> CoreRecorder" where
  "core1 e = \<lparr>cr_state = (if e = None then HALTED else RUNNING), gapCycles = 0, prevRespCycle = (if e = None then 0 else 100000), prevRespEvent = e,
     lastEventSimulatedStartCycle = 0, lastEventSimulatedOrigStartCycle = 0, totalGapCycles = 0,
     totalHaltedCycles = (if e = None then 0 else 100000), lastUnhaltedCycle = 0, cr_domain = 0\<rparr>"

lemma core1_join: "\<exists>w'. notifyJoin 0 100000 0 (core1 None, cweave1 EV_NONE) = Inr (100000, core1 (Some 1), w')"
  by (simp add: notifyJoin_def core1_def TimingCoreEvent_def new_ev_def set_ev_def get_ev_def upd_er_def cweave1_def cweave0_def
      ev_queue_def cs_enqueueSynced_def dom_enqueue_def enqueue_def PQ_BLOCKS_def TimingEvent_init_def aget_def Let_def)

lemma core1_start:
  "\<exists>w'. cSimStart 1 100000 1000 101010 (core1 (Some 1), cweave1 EV_NONE\<lparr>nextEv := 2\<rparr>) =
     Inr (101010, core1 (Some 3)\<lparr>prevRespCycle := 101010\<rparr>, w')"
proof -
  have "events (cweave1 EV_NONE\<lparr>nextEv := 2\<rparr>) 1 = Some ((TimingEvent_init 0 0 (Some 0) KPlain)\<lparr>ev_state := EV_NONE\<rparr>)"
      "kids_wf ((TimingEvent_init 0 0 (Some 0) KPlain)\<lparr>ev_state := EV_NONE\<rparr>)"
    by (simp_all add: cweave1_def kids_wf_def TimingEvent_init_def)
  from cr_link_ok [of "core1 (Some 1)" 1 "cweave1 EV_NONE\<lparr>nextEv := 2\<rparr>", OF _ _ this, where fuel = 0 and d = 1010] obtain w1 t1 where
    1: "cr_link 1 1010 (core1 (Some 1), cweave1 EV_NONE\<lparr>nextEv := 2\<rparr>) = Inr (core1 (Some 1)\<lparr>prevRespEvent := Some 2\<rparr>, w1)"
      "nextEv w1 = 3" "events w1 2 = Some t1" "kids t1 = Single None" "numChildren t1 = 0" "ev_state t1 = EV_NONE"
    by (auto simp: core1_def)
  let ?c = "core1 (Some 1)\<lparr>prevRespEvent := Some 2, prevRespCycle := 101010\<rparr>"
  have "kids_wf t1" using 1(4,5) by (simp add: kids_wf_def)
  from cr_link_ok [of ?c 2 w1 t1 0 0] this 1(2,3,6) obtain w2 where "cr_link 1 0 (?c, w1) = Inr (?c\<lparr>prevRespEvent := Some 3\<rparr>, w2)"
    by auto
  with 1(1) show ?thesis by (simp add: cSimStart_def core1_def)
qed

theorem core_recorder_protocol_witness:
  "\<exists>c w. cr_reach 1 0 1000 Bound 101000 101040 c (w :: cweave) 30 \<and> getContentionCycles c = 30 \<and> cr_state c = RUNNING \<and> prevRespEvent c \<noteq> None"
proof -
  let ?r = "cr_reach 1 0 1000 :: _ \<Rightarrow> _ \<Rightarrow> _ \<Rightarrow> _ \<Rightarrow> cweave \<Rightarrow> _"
  have "CoreRecorder_init 0 0 0 0 0 cweave0 = (core1 None, upd_er 0 (setGapCycles 0) cweave0)"
    by (simp add: CoreRecorder_init_def core1_def)
  then have "?r Bound 100000 0 (core1 None) (cweave1 EV_NONE) 0" by (rule cr_reach.init [THEN cr_reach.env])
  with core1_join have "?r Bound 100000 100000 (core1 (Some 1)) (cweave1 EV_NONE\<lparr>nextEv := 2\<rparr>) 0"
    by (metis cr_reach.join cr_reach.env)
  then have "?r Bound 100000 101010 (core1 (Some 1)) (cweave1 EV_NONE\<lparr>nextEv := 2\<rparr>) 0"
    by (rule cr_reach.run) (simp_all add: core1_def)
  with core1_start have "?r Weave 100000 101010 (core1 (Some 3)\<lparr>prevRespCycle := 101010\<rparr>) (cweave1 EV_RUNNING) 0"
    by (fastforce intro: cr_reach.start [THEN cr_reach.env])
  moreover define c where "c = core1 (Some 3)\<lparr>prevRespCycle := 101010, lastEventSimulatedStartCycle := 100030,
      lastEventSimulatedOrigStartCycle := 100000\<rparr>"
  have "\<exists>w'. core_simulate 1 0 1 100030 (core1 (Some 3)\<lparr>prevRespCycle := 101010\<rparr>, cweave1 EV_RUNNING) = Inr (c, w')"
    by (simp add: core_simulate_def reportEventSimulated_def core1_def cweave1_def cweave0_def upd_er_def event_done_def ev_done_def
        get_ev_def set_ev_def visitChildren_def TimingEvent_init_def c_def Let_def)
  ultimately obtain w where "?r Weave 100000 101010 c w 0" by (force intro: cr_reach.simulate)
  then have r: "?r Bound (100000 + 1000) 101040 (c\<lparr>gapCycles := 30, prevRespCycle := 101040\<rparr>) (upd_er 0 (setGapCycles 30) w) (0 + (101040 - 101010))"
    by (rule cr_reach.end_phase) (simp_all add: cSimEnd_def c_def core1_def Let_def)
  from core_recorder_protocol [OF this] have "getContentionCycles (c\<lparr>gapCycles := 30, prevRespCycle := 101040\<rparr>) = 30 \<and>
      prevRespEvent (c\<lparr>gapCycles := 30, prevRespCycle := 101040\<rparr>) \<noteq> None"
    by (simp add: c_def core1_def)
  moreover have "cr_state (c\<lparr>gapCycles := 30, prevRespCycle := 101040\<rparr>) = RUNNING" by (simp add: c_def core1_def)
  ultimately show ?thesis using r by (intro exI conjI) (simp, simp_all)
qed

end
