(* ===== verification/InList.thy ===== *)
theory InList
  imports Prelude
begin

text \<open>
  The intrusive doubly-linked list (intrusive_list.h).  The elements carry the links: a store \<open>il_nodes\<close> gives the
  three fields of every element and \<open>il_lists\<close> the header of every list; \<open>None\<close> is the null pointer.  An
  operation of a list takes the list's number and changes the store.  The lemmas show that each operation is the
  one on lists of HOL, and that it leaves the other lists alone.
\<close>

record InListNode =
  nd_next :: "nat option"
  nd_prev :: "nat option"
  nd_owner :: "nat option"

record InList =
  il_head :: "nat option"
  il_tail :: "nat option"
  il_elems :: nat

record ilstore =
  il_nodes :: "nat \<Rightarrow> InListNode"
  il_lists :: "nat \<Rightarrow> InList"

definition InListNode_init :: InListNode where
  "InListNode_init = \<lparr>nd_next = None, nd_prev = None, nd_owner = None\<rparr>"

definition InList_init :: InList where
  "InList_init = \<lparr>il_head = None, il_tail = None, il_elems = 0\<rparr>"

definition upd_node :: "nat \<Rightarrow> (InListNode \<Rightarrow> InListNode) \<Rightarrow> 'x ilstore_scheme \<Rightarrow> 'x ilstore_scheme" where
  "upd_node e f w = w\<lparr>il_nodes := (il_nodes w)(e := f (il_nodes w e))\<rparr>"

definition upd_ptr :: "nat option \<Rightarrow> (InListNode \<Rightarrow> InListNode) \<Rightarrow> 'x ilstore_scheme \<Rightarrow> 'x ilstore_scheme" where
  "upd_ptr p f w = (case p of None \<Rightarrow> w | Some e \<Rightarrow> upd_node e f w)"

definition upd_list :: "nat \<Rightarrow> (InList \<Rightarrow> InList) \<Rightarrow> 'x ilstore_scheme \<Rightarrow> 'x ilstore_scheme" where
  "upd_list l f w = w\<lparr>il_lists := (il_lists w)(l := f (il_lists w l))\<rparr>"

subsection \<open>Links\<close>

definition il_unlink :: "nat \<Rightarrow> nat \<Rightarrow> 'x ilstore_scheme \<Rightarrow> 'x ilstore_scheme res" where
  "il_unlink l e w =
     (let n = il_nodes w e;
          w1 = upd_ptr (nd_next n) (\<lambda>m. m\<lparr>nd_prev := nd_prev n\<rparr>) w;
          w2 = upd_ptr (nd_prev n) (\<lambda>m. m\<lparr>nd_next := nd_next n\<rparr>) w1;
          w3 = upd_node e (\<lambda>m. m\<lparr>nd_next := None, nd_prev := None\<rparr>) w2 in
      check (nd_owner (il_nodes w3 e) = Some l) AssertFailed (Inr (upd_node e (\<lambda>m. m\<lparr>nd_owner := None\<rparr>) w3)))"

definition il_linkPrev :: "nat \<Rightarrow> nat \<Rightarrow> nat \<Rightarrow> 'x ilstore_scheme \<Rightarrow> 'x ilstore_scheme res" where
  "il_linkPrev p l e w =
     (let n = il_nodes w e in
      check (nd_owner n = None) AssertFailed (check (nd_prev n = None \<and> nd_next n = None) AssertFailed
       (rbind (case nd_next (il_nodes w p) of None \<Rightarrow> Inr w
               | Some q \<Rightarrow> check (nd_prev (il_nodes w q) = Some p) AssertFailed
                   (Inr (upd_node e (\<lambda>m. m\<lparr>nd_next := Some q\<rparr>) (upd_node q (\<lambda>m. m\<lparr>nd_prev := Some e\<rparr>) w)))) (\<lambda>w1.
        Inr (upd_node e (\<lambda>m. m\<lparr>nd_prev := Some p, nd_owner := Some l\<rparr>) (upd_node p (\<lambda>m. m\<lparr>nd_next := Some e\<rparr>) w1))))))"

subsection \<open>Operations of a list\<close>

definition il_empty :: "nat \<Rightarrow> 'x ilstore_scheme \<Rightarrow> bool" where
  "il_empty l w \<longleftrightarrow> il_head (il_lists w l) = None"

definition il_front :: "nat \<Rightarrow> 'x ilstore_scheme \<Rightarrow> nat option" where
  "il_front l w = il_head (il_lists w l)"

definition il_back :: "nat \<Rightarrow> 'x ilstore_scheme \<Rightarrow> nat option" where
  "il_back l w = il_tail (il_lists w l)"

definition il_size :: "nat \<Rightarrow> 'x ilstore_scheme \<Rightarrow> nat" where
  "il_size l w = il_elems (il_lists w l)"

definition il_push_front :: "nat \<Rightarrow> nat \<Rightarrow> 'x ilstore_scheme \<Rightarrow> 'x ilstore_scheme res" where
  "il_push_front l e w =
     (let n = il_nodes w e in
      check (nd_next n = None \<and> nd_prev n = None \<and> nd_owner n = None) AssertFailed
       (rbind (case il_head (il_lists w l) of
                 None \<Rightarrow> Inr (upd_list l (\<lambda>h. h\<lparr>il_head := Some e, il_tail := Some e\<rparr>) w)
               | Some q \<Rightarrow> check (nd_prev (il_nodes w q) = None \<and> nd_owner (il_nodes w q) = Some l) AssertFailed
                   (Inr (upd_list l (\<lambda>h. h\<lparr>il_head := Some e\<rparr>)
                     (upd_node q (\<lambda>m. m\<lparr>nd_prev := Some e\<rparr>) (upd_node e (\<lambda>m. m\<lparr>nd_next := Some q\<rparr>) w))))) (\<lambda>w1.
        Inr (upd_list l (\<lambda>h. h\<lparr>il_elems := il_elems h + 1\<rparr>) (upd_node e (\<lambda>m. m\<lparr>nd_owner := Some l\<rparr>) w1)))))"

definition il_push_back :: "nat \<Rightarrow> nat \<Rightarrow> 'x ilstore_scheme \<Rightarrow> 'x ilstore_scheme res" where
  "il_push_back l e w =
     (let n = il_nodes w e in
      check (nd_next n = None \<and> nd_prev n = None \<and> nd_owner n = None) AssertFailed
       (rbind (if il_empty l w
               then Inr (upd_node e (\<lambda>m. m\<lparr>nd_owner := Some l\<rparr>) (upd_list l (\<lambda>h. h\<lparr>il_head := Some e, il_tail := Some e\<rparr>) w))
               else (case il_tail (il_lists w l) of None \<Rightarrow> Inl AssertFailed
                 | Some t \<Rightarrow> rbind (il_linkPrev t l e w) (\<lambda>w1. Inr (upd_list l (\<lambda>h. h\<lparr>il_tail := Some e\<rparr>) w1)))) (\<lambda>w1.
        Inr (upd_list l (\<lambda>h. h\<lparr>il_elems := il_elems h + 1\<rparr>) w1))))"

definition il_pop_front :: "nat \<Rightarrow> 'x ilstore_scheme \<Rightarrow> 'x ilstore_scheme res" where
  "il_pop_front l w =
     (case il_head (il_lists w l) of None \<Rightarrow> Inr w
      | Some e \<Rightarrow> rbind (il_unlink l e (upd_list l (\<lambda>h. h\<lparr>il_head := nd_next (il_nodes w e)\<rparr>) w)) (\<lambda>w1.
          Inr (upd_list l (\<lambda>h. h\<lparr>il_tail := (if il_head h = None then None else il_tail h), il_elems := il_elems h - 1\<rparr>) w1)))"

definition il_pop_back :: "nat \<Rightarrow> 'x ilstore_scheme \<Rightarrow> 'x ilstore_scheme res" where
  "il_pop_back l w =
     (if il_empty l w then Inr w
      else rbind (deref (il_tail (il_lists w l))) (\<lambda>e.
        rbind (il_unlink l e (upd_list l (\<lambda>h. h\<lparr>il_tail := nd_prev (il_nodes w e)\<rparr>) w)) (\<lambda>w1.
          Inr (upd_list l (\<lambda>h. h\<lparr>il_head := (if il_tail h = None then None else il_head h), il_elems := il_elems h - 1\<rparr>) w1))))"

definition il_remove :: "nat \<Rightarrow> nat \<Rightarrow> 'x ilstore_scheme \<Rightarrow> 'x ilstore_scheme res" where
  "il_remove l e w =
     (let n = il_nodes w e;
          w1 = upd_list l (\<lambda>h. h\<lparr>il_head := (if il_head h = Some e then nd_next n else il_head h),
                                 il_tail := (if il_tail h = Some e then nd_prev n else il_tail h)\<rparr>) w in
      rbind (il_unlink l e w1) (\<lambda>w2. Inr (upd_list l (\<lambda>h. h\<lparr>il_elems := il_elems h - 1\<rparr>) w2)))"

definition il_insertAfter :: "nat \<Rightarrow> nat \<Rightarrow> nat \<Rightarrow> 'x ilstore_scheme \<Rightarrow> 'x ilstore_scheme res" where
  "il_insertAfter l p e w =
     check (nd_owner (il_nodes w e) = None) AssertFailed (check (nd_owner (il_nodes w p) = Some l) AssertFailed
      (rbind (il_linkPrev p l e w) (\<lambda>w1.
        Inr (upd_list l (\<lambda>h. h\<lparr>il_tail := (if il_tail h = Some p then Some e else il_tail h), il_elems := il_elems h + 1\<rparr>) w1))))"

subsection \<open>The list a store holds\<close>

definition first_or :: "nat list \<Rightarrow> nat option \<Rightarrow> nat option" where
  "first_or xs q = (case xs of [] \<Rightarrow> q | x # _ \<Rightarrow> Some x)"

definition last_or :: "nat list \<Rightarrow> nat option \<Rightarrow> nat option" where
  "last_or xs p = (if xs = [] then p else Some (last xs))"

lemma first_or_simps [simp]: "first_or [] q = q" "first_or (x # xs) q = Some x" "first_or (xs @ ys) q = first_or xs (first_or ys q)"
  by (simp_all add: first_or_def split: list.split)

lemma last_or_simps [simp]: "last_or [] p = p" "last_or (x # xs) p = last_or xs (Some x)" "last_or (xs @ ys) p = last_or ys (last_or xs p)"
  by (simp_all add: last_or_def)

fun dseg :: "(nat \<Rightarrow> InListNode) \<Rightarrow> nat \<Rightarrow> nat option \<Rightarrow> nat list \<Rightarrow> nat option \<Rightarrow> bool" where
  "dseg n l p [] q \<longleftrightarrow> True"
| "dseg n l p (x # xs) q \<longleftrightarrow> n x = \<lparr>nd_next = first_or xs q, nd_prev = p, nd_owner = Some l\<rparr> \<and> dseg n l (Some x) xs q"

lemma dseg_append [simp]: "dseg n l p (xs @ ys) q \<longleftrightarrow> dseg n l p xs (first_or ys q) \<and> dseg n l (last_or xs p) ys q"
  by (induction xs arbitrary: p) auto

lemma dseg_upd [simp]: "x \<notin> set xs \<Longrightarrow> dseg (n(x := v)) l p xs q \<longleftrightarrow> dseg n l p xs q"
  by (induction xs arbitrary: p) auto

lemma dseg_owner: "dseg n l p xs q \<Longrightarrow> x \<in> set xs \<Longrightarrow> nd_owner (n x) = Some l"
  by (induction xs arbitrary: p) auto

definition il_rep :: "nat \<Rightarrow> nat list \<Rightarrow> 'x ilstore_scheme \<Rightarrow> bool" where
  "il_rep l xs w \<longleftrightarrow> distinct xs \<and> dseg (il_nodes w) l None xs None \<and>
     il_lists w l = \<lparr>il_head = first_or xs None, il_tail = last_or xs None, il_elems = length xs\<rparr>"

definition il_free :: "nat \<Rightarrow> 'x ilstore_scheme \<Rightarrow> bool" where
  "il_free e w \<longleftrightarrow> il_nodes w e = InListNode_init"

lemma il_free_out: "il_rep l xs w \<Longrightarrow> il_free e w \<Longrightarrow> e \<notin> set xs"
  by (auto simp: il_rep_def il_free_def InListNode_init_def dest: dseg_owner)

text \<open>An operation of the list \<open>l\<close> touches no element outside \<open>xs\<close> and no other list.\<close>

definition il_only :: "nat \<Rightarrow> nat set \<Rightarrow> 'x ilstore_scheme \<Rightarrow> 'x ilstore_scheme \<Rightarrow> bool" where
  "il_only l A w w' \<longleftrightarrow> (\<forall>e. e \<notin> A \<longrightarrow> il_nodes w' e = il_nodes w e) \<and> (\<forall>k. k \<noteq> l \<longrightarrow> il_lists w' k = il_lists w k)"

lemmas il_defs = upd_node_def upd_ptr_def upd_list_def il_rep_def il_free_def InListNode_init_def il_only_def

lemma il_push_front_ok:
  assumes "il_rep l xs w" "il_free e w"
  shows "\<exists>w'. il_push_front l e w = Inr w' \<and> il_rep l (e # xs) w' \<and> il_only l (insert e (set xs)) w w'"
  using assms il_free_out [OF assms] by (cases xs) (auto simp: il_push_front_def il_defs Let_def)

lemma il_linkPrev_ok:
  assumes "dseg (il_nodes w) l None (as @ p # bs) None" "distinct (as @ p # bs)" "il_free e w" "e \<notin> set (as @ p # bs)"
  shows "\<exists>w'. il_linkPrev p l e w = Inr w' \<and> dseg (il_nodes w') l None (as @ p # e # bs) None \<and>
    (\<forall>x. x \<notin> insert e (set (as @ p # bs)) \<longrightarrow> il_nodes w' x = il_nodes w x) \<and> il_lists w' = il_lists w"
  using assms by (cases bs) (auto simp: il_linkPrev_def il_defs Let_def)

lemma il_push_back_ok:
  assumes "il_rep l xs w" "il_free e w"
  shows "\<exists>w'. il_push_back l e w = Inr w' \<and> il_rep l (xs @ [e]) w' \<and> il_only l (insert e (set xs)) w w'"
proof (cases xs rule: rev_exhaust)
  case Nil
  then show ?thesis using assms by (auto simp: il_push_back_def il_empty_def il_defs Let_def)
next
  case (snoc as p)
  then have "dseg (il_nodes w) l None (as @ p # []) None" "distinct (as @ p # [])" "e \<notin> set (as @ p # [])"
    using assms il_free_out [OF assms] by (auto simp: il_rep_def)
  from il_linkPrev_ok [OF this(1,2) assms(2) this(3)] obtain w' where
    "il_linkPrev p l e w = Inr w'" "dseg (il_nodes w') l None (as @ p # e # []) None"
    "\<forall>x. x \<notin> insert e (set (as @ p # [])) \<longrightarrow> il_nodes w' x = il_nodes w x" "il_lists w' = il_lists w" by blast
  moreover have "il_tail (il_lists w l) = Some p" "\<not> il_empty l w" using assms(1) snoc by (cases as; simp add: il_rep_def il_empty_def)+
  ultimately show ?thesis using assms snoc \<open>e \<notin> _\<close>
    by (cases as) (auto simp: il_push_back_def il_defs Let_def)
qed

lemma il_unlink_ok:
  assumes "dseg (il_nodes w) l None (as @ e # bs) None" "distinct (as @ e # bs)"
  shows "\<exists>w'. il_unlink l e w = Inr w' \<and> dseg (il_nodes w') l None (as @ bs) None \<and> il_free e w' \<and>
    (\<forall>x. x \<notin> set (as @ e # bs) \<longrightarrow> il_nodes w' x = il_nodes w x) \<and> il_lists w' = il_lists w"
  using assms by (cases as rule: rev_exhaust; cases bs) (auto simp: il_unlink_def il_defs Let_def)

lemma il_remove_ok:
  assumes "il_rep l (as @ e # bs) w"
  shows "\<exists>w'. il_remove l e w = Inr w' \<and> il_rep l (as @ bs) w' \<and> il_free e w' \<and> il_only l (set (as @ e # bs)) w w'"
proof -
  let ?h = "\<lambda>h. h\<lparr>il_head := (if il_head h = Some e then nd_next (il_nodes w e) else il_head h),
    il_tail := (if il_tail h = Some e then nd_prev (il_nodes w e) else il_tail h)\<rparr>"
  have "dseg (il_nodes (upd_list l ?h w)) l None (as @ e # bs) None" "distinct (as @ e # bs)"
    using assms by (simp_all add: il_rep_def upd_list_def)
  from il_unlink_ok [OF this] obtain w' where w': "il_unlink l e (upd_list l ?h w) = Inr w'" "dseg (il_nodes w') l None (as @ bs) None"
    "il_free e w'" "\<forall>x. x \<notin> set (as @ e # bs) \<longrightarrow> il_nodes w' x = il_nodes w x" "il_lists w' = il_lists (upd_list l ?h w)"
    by (auto simp: upd_list_def)
  have "il_lists (upd_list l ?h w) l = \<lparr>il_head = first_or (as @ bs) None, il_tail = last_or (as @ bs) None, il_elems = Suc (length (as @ bs))\<rparr>"
    using assms by (cases as; cases bs rule: rev_exhaust) (auto simp: il_rep_def upd_list_def)
  with w' assms show ?thesis by (auto simp: il_remove_def il_defs Let_def)
qed

lemma il_pop_front_ok:
  assumes "il_rep l xs w"
  shows "\<exists>w'. il_pop_front l w = Inr w' \<and> il_rep l (tl xs) w' \<and> il_only l (set xs) w w' \<and> (xs \<noteq> [] \<longrightarrow> il_free (hd xs) w')"
proof (cases xs)
  case Nil
  then show ?thesis using assms by (auto simp: il_pop_front_def il_rep_def il_only_def)
next
  case (Cons e bs)
  let ?w = "upd_list l (\<lambda>h. h\<lparr>il_head := nd_next (il_nodes w e)\<rparr>) w"
  have "dseg (il_nodes ?w) l None ([] @ e # bs) None" "distinct ([] @ e # bs)" using assms Cons by (simp_all add: il_rep_def upd_list_def)
  from il_unlink_ok [OF this] show ?thesis using assms Cons
    by (cases bs) (auto simp: il_pop_front_def il_defs)
qed

lemma il_pop_back_ok:
  assumes "il_rep l xs w"
  shows "\<exists>w'. il_pop_back l w = Inr w' \<and> il_rep l (butlast xs) w' \<and> il_only l (set xs) w w' \<and> (xs \<noteq> [] \<longrightarrow> il_free (last xs) w')"
proof (cases xs rule: rev_exhaust)
  case Nil
  then show ?thesis using assms by (auto simp: il_pop_back_def il_empty_def il_rep_def il_only_def)
next
  case (snoc as e)
  let ?w = "upd_list l (\<lambda>h. h\<lparr>il_tail := nd_prev (il_nodes w e)\<rparr>) w"
  have "dseg (il_nodes ?w) l None (as @ e # []) None" "distinct (as @ e # [])" using assms snoc by (simp_all add: il_rep_def upd_list_def)
  from il_unlink_ok [OF this] obtain w' where w': "il_unlink l e ?w = Inr w'" "dseg (il_nodes w') l None as None"
    "il_free e w'" "\<forall>x. x \<notin> set (as @ [e]) \<longrightarrow> il_nodes w' x = il_nodes w x" "il_lists w' = il_lists ?w"
    by (auto simp: upd_list_def)
  have h: "il_lists w l = \<lparr>il_head = first_or as (Some e), il_tail = Some e, il_elems = Suc (length as)\<rparr>" "distinct as"
      "nd_prev (il_nodes w e) = last_or as None"
    using assms snoc by (simp_all add: il_rep_def)
  have "first_or as (Some e) \<noteq> None" by (cases as) simp_all
  moreover have "(if last_or as None = None then None else first_or as (Some e)) = first_or as None"
    by (cases as) (simp_all add: last_or_def)
  ultimately show ?thesis using w' h snoc
    by (auto simp: il_pop_back_def il_empty_def upd_list_def il_rep_def il_only_def il_free_def)
qed

lemma il_insertAfter_ok:
  assumes "il_rep l (as @ p # bs) w" "il_free e w"
  shows "\<exists>w'. il_insertAfter l p e w = Inr w' \<and> il_rep l (as @ p # e # bs) w' \<and> il_only l (insert e (set (as @ p # bs))) w w'"
proof -
  have d: "dseg (il_nodes w) l None (as @ p # bs) None" "distinct (as @ p # bs)" using assms by (simp_all add: il_rep_def)
  from il_linkPrev_ok [OF d assms(2) il_free_out [OF assms]] obtain w' where w': "il_linkPrev p l e w = Inr w'"
    "dseg (il_nodes w') l None (as @ p # e # bs) None" "\<forall>x. x \<notin> insert e (set (as @ p # bs)) \<longrightarrow> il_nodes w' x = il_nodes w x"
    "il_lists w' = il_lists w" by blast
  have own: "nd_owner (il_nodes w e) = None" "nd_owner (il_nodes w p) = Some l" using assms(2) d(1) by (auto simp: il_free_def InListNode_init_def)
  have tail: "last_or bs (Some p) = Some p \<longleftrightarrow> bs = []" using d(2) by (cases bs rule: rev_exhaust) auto
  have "il_lists w l = \<lparr>il_head = first_or as (Some p), il_tail = last_or bs (Some p), il_elems = Suc (length as + length bs)\<rparr>"
    using assms(1) by (simp add: il_rep_def)
  moreover have "last_or bs (Some e) = last_or bs (Some p)" if "bs \<noteq> []" using that by (simp add: last_or_def)
  ultimately show ?thesis using w' own tail d(2) il_free_out [OF assms]
    by (cases "bs = []") (auto simp: il_insertAfter_def il_only_def upd_list_def il_rep_def)
qed

lemma il_remove_foreign:
  "nd_owner (il_nodes w e) \<noteq> Some l \<Longrightarrow> il_remove l e w = Inl AssertFailed"
  by (auto simp: il_remove_def il_unlink_def il_defs Let_def split: option.splits)

subsection \<open>Programs over the lists\<close>

text \<open>The lists as values: which list of elements each list is, and the elements that are in none.\<close>

datatype il_op = PushFront nat nat | PushBack nat nat | PopFront nat | PopBack nat | Remove nat nat | InsertAfter nat nat nat

fun il_step :: "il_op \<Rightarrow> 'x ilstore_scheme \<Rightarrow> 'x ilstore_scheme res" where
  "il_step (PushFront l e) = il_push_front l e"
| "il_step (PushBack l e) = il_push_back l e"
| "il_step (PopFront l) = il_pop_front l"
| "il_step (PopBack l) = il_pop_back l"
| "il_step (Remove l e) = il_remove l e"
| "il_step (InsertAfter l p e) = il_insertAfter l p e"

fun il_list_op :: "il_op \<Rightarrow> (nat \<Rightarrow> nat list) \<Rightarrow> nat \<Rightarrow> nat list" where
  "il_list_op (PushFront l e) L = L(l := e # L l)"
| "il_list_op (PushBack l e) L = L(l := L l @ [e])"
| "il_list_op (PopFront l) L = L(l := tl (L l))"
| "il_list_op (PopBack l) L = L(l := butlast (L l))"
| "il_list_op (Remove l e) L = L(l := remove1 e (L l))"
| "il_list_op (InsertAfter l p e) L = L(l := concat (map (\<lambda>x. if x = p then [p, e] else [x]) (L l)))"

fun il_legal :: "il_op \<Rightarrow> (nat \<Rightarrow> nat list) \<Rightarrow> bool" where
  "il_legal (PushFront l e) L \<longleftrightarrow> (\<forall>k. e \<notin> set (L k))"
| "il_legal (PushBack l e) L \<longleftrightarrow> (\<forall>k. e \<notin> set (L k))"
| "il_legal (PopFront l) L \<longleftrightarrow> True"
| "il_legal (PopBack l) L \<longleftrightarrow> True"
| "il_legal (Remove l e) L \<longleftrightarrow> e \<in> set (L l)"
| "il_legal (InsertAfter l p e) L \<longleftrightarrow> p \<in> set (L l) \<and> (\<forall>k. e \<notin> set (L k))"

definition il_abs :: "(nat \<Rightarrow> nat list) \<Rightarrow> 'x ilstore_scheme \<Rightarrow> bool" where
  "il_abs L w \<longleftrightarrow> (\<forall>l. il_rep l (L l) w) \<and> (\<forall>e. (\<forall>l. e \<notin> set (L l)) \<longrightarrow> il_free e w)"

lemma il_abs_disjoint: "il_abs L w \<Longrightarrow> e \<in> set (L k) \<Longrightarrow> e \<in> set (L l) \<Longrightarrow> k = l"
  unfolding il_abs_def il_rep_def by (metis dseg_owner option.inject)

lemma dseg_cong: "\<forall>x \<in> set xs. n' x = n x \<Longrightarrow> dseg n l p xs q \<Longrightarrow> dseg n' l p xs q"
  by (induction xs arbitrary: p) auto

lemma il_abs_step:
  assumes abs: "il_abs L w" and new: "il_rep l xs w'" and only: "il_only l A w w'"
    and A: "\<And>e k. e \<in> A \<Longrightarrow> e \<in> set (L k) \<Longrightarrow> k = l" and free: "\<And>e. e \<in> A \<Longrightarrow> e \<in> set xs \<or> il_free e w'"
    and xs: "set (L l) \<subseteq> A"
  shows "il_abs (L(l := xs)) w'"
proof -
  have "il_rep k (L k) w'" if k: "k \<noteq> l" for k
  proof -
    have "il_nodes w' e = il_nodes w e" if "e \<in> set (L k)" for e using that A [of e k] k only by (auto simp: il_only_def)
    moreover have "il_rep k (L k) w" "il_lists w' k = il_lists w k" using abs k only by (auto simp: il_abs_def il_only_def)
    ultimately show ?thesis using dseg_cong [of "L k" "il_nodes w'" "il_nodes w"] by (simp add: il_rep_def)
  qed
  moreover have "il_free e w'" if e: "\<And>k. e \<notin> set ((L(l := xs)) k)" for e
  proof (cases "e \<in> A")
    case True
    then show ?thesis using free e [of l] by auto
  next
    case False
    have "e \<notin> set (L k)" for k using e [of k] False xs by (cases "k = l") auto
    then have "il_free e w" using abs by (simp add: il_abs_def)
    then show ?thesis using only False by (simp add: il_only_def il_free_def)
  qed
  ultimately show ?thesis using new by (simp add: il_abs_def)
qed

lemma concat_insert: "distinct (as @ p # bs) \<Longrightarrow> concat (map (\<lambda>x. if x = p then [p, e] else [x]) (as @ p # bs)) = as @ p # e # bs"
proof -
  have "concat (map (\<lambda>x. if x = p then [p, e] else [x]) xs) = xs" if "p \<notin> set xs" for xs
    using that by (induction xs) auto
  then show "distinct (as @ p # bs) \<Longrightarrow> ?thesis" by simp
qed

lemma il_step_abs:
  assumes abs: "il_abs L w" and legal: "il_legal op L"
  shows "\<exists>w'. il_step op w = Inr w' \<and> il_abs (il_list_op op L) w'"
proof -
  have rep: "il_rep l (L l) w" for l using abs by (simp add: il_abs_def)
  have own: "k = l" if "e \<in> set (L l)" "e \<in> set (L k)" for e k l using il_abs_disjoint [OF abs] that by blast
  show ?thesis
  proof (cases op)
    case (PushFront l e)
    then have new: "e \<notin> set (L k)" for k using legal by simp
    then have "il_free e w" using abs by (simp add: il_abs_def)
    from il_push_front_ok [OF rep this] obtain w' where w': "il_push_front l e w = Inr w'" "il_rep l (e # L l) w'"
      "il_only l (insert e (set (L l))) w w'" by blast
    have "il_abs (L(l := e # L l)) w'" by (rule il_abs_step [OF abs w'(2,3)]) (use own new in auto)
    then show ?thesis using w'(1) PushFront by simp
  next
    case (PushBack l e)
    then have new: "e \<notin> set (L k)" for k using legal by simp
    then have "il_free e w" using abs by (simp add: il_abs_def)
    from il_push_back_ok [OF rep this] obtain w' where w': "il_push_back l e w = Inr w'" "il_rep l (L l @ [e]) w'"
      "il_only l (insert e (set (L l))) w w'" by blast
    have "il_abs (L(l := L l @ [e])) w'" by (rule il_abs_step [OF abs w'(2,3)]) (use own new in auto)
    then show ?thesis using w'(1) PushBack by simp
  next
    case (PopFront l)
    from il_pop_front_ok [OF rep] obtain w' where w': "il_pop_front l w = Inr w'" "il_rep l (tl (L l)) w'"
      "il_only l (set (L l)) w w'" "L l \<noteq> [] \<longrightarrow> il_free (hd (L l)) w'" by blast
    have "il_abs (L(l := tl (L l))) w'"
      by (rule il_abs_step [OF abs w'(2,3)]) (use own w'(4) in \<open>cases "L l"; auto\<close>)+
    then show ?thesis using w'(1) PopFront by simp
  next
    case (PopBack l)
    from il_pop_back_ok [OF rep] obtain w' where w': "il_pop_back l w = Inr w'" "il_rep l (butlast (L l)) w'"
      "il_only l (set (L l)) w w'" "L l \<noteq> [] \<longrightarrow> il_free (last (L l)) w'" by blast
    have "il_abs (L(l := butlast (L l))) w'"
      by (rule il_abs_step [OF abs w'(2,3)]) (use own w'(4) in \<open>cases "L l" rule: rev_exhaust; auto\<close>)+
    then show ?thesis using w'(1) PopBack by simp
  next
    case (Remove l e)
    then obtain as bs where L: "L l = as @ e # bs" using legal by (auto dest: split_list)
    from il_remove_ok [of l as e bs w] rep [of l] L obtain w' where w': "il_remove l e w = Inr w'" "il_rep l (as @ bs) w'"
      "il_free e w'" "il_only l (set (L l)) w w'" by auto
    have "distinct (L l)" using rep by (simp add: il_rep_def)
    then have "remove1 e (L l) = as @ bs" by (simp add: L remove1_append)
    moreover have "il_abs (L(l := as @ bs)) w'" by (rule il_abs_step [OF abs w'(2,4)]) (use own w'(3) L in auto)
    ultimately show ?thesis using w'(1) Remove by simp
  next
    case (InsertAfter l p e)
    then obtain as bs where L: "L l = as @ p # bs" using legal by (auto dest: split_list)
    have new: "e \<notin> set (L k)" for k using legal InsertAfter by simp
    then have "il_free e w" using abs by (simp add: il_abs_def)
    from il_insertAfter_ok [OF _ this, of l as p bs] rep [of l] L obtain w' where w': "il_insertAfter l p e w = Inr w'"
      "il_rep l (as @ p # e # bs) w'" "il_only l (insert e (set (L l))) w w'" by auto
    have "distinct (as @ p # bs)" using rep [of l] L by (simp add: il_rep_def)
    then have "il_list_op (InsertAfter l p e) L = L(l := as @ p # e # bs)" unfolding il_list_op.simps L by (rule arg_cong [OF concat_insert])
    moreover have o: "k = l" if "x \<in> insert e (set (L l))" "x \<in> set (L k)" for x k using that own new by blast
    have "il_abs (L(l := as @ p # e # bs)) w'" by (rule il_abs_step [OF abs w'(2,3)]) (erule (1) o, auto simp: L)
    ultimately show ?thesis using w'(1) InsertAfter by simp
  qed
qed

text \<open>C39. The intrusive lists implement lists: from any store of such lists, each operation used on an element that is free (to insert) or in
  the list (to remove, or to insert after) succeeds, yields the store of the lists of elements HOL's list operations give, and all other lists stay as they
  were; \<open>front\<close>, \<open>back\<close>, \<open>size\<close> and \<open>empty\<close> read the list; and removing an element of another list stops the simulation.\<close>

theorem inlist_refines_lists:
  assumes "il_abs L w"
  shows "(il_legal op L \<longrightarrow> (\<exists>w'. il_step op w = Inr w' \<and> il_abs (il_list_op op L) w')) \<and>
    il_front l w = (if L l = [] then None else Some (hd (L l))) \<and> il_back l w = (if L l = [] then None else Some (last (L l))) \<and>
    il_size l w = length (L l) \<and> il_empty l w = (L l = []) \<and> (e \<notin> set (L l) \<longrightarrow> il_remove l e w = Inl AssertFailed)"
proof -
  have rep: "il_rep k (L k) w" for k using assms by (simp add: il_abs_def)
  have "nd_owner (il_nodes w e) \<noteq> Some l" if "e \<notin> set (L l)"
  proof (cases "\<exists>k. e \<in> set (L k)")
    case True
    then obtain k where "e \<in> set (L k)" by blast
    with rep [of k] that show ?thesis by (auto simp: il_rep_def dest: dseg_owner)
  next
    case False
    then show ?thesis using assms by (simp add: il_abs_def il_free_def InListNode_init_def)
  qed
  then show ?thesis using il_step_abs [OF assms] rep [of l] il_remove_foreign
    by (cases "L l") (auto simp: il_rep_def il_front_def il_back_def il_size_def il_empty_def last_or_def)
qed

theorem inlist_refines_lists_witness:
  "\<exists>w. il_step (PushBack 0 7) \<lparr>il_nodes = \<lambda>_. InListNode_init, il_lists = \<lambda>_. InList_init\<rparr> = Inr w \<and> il_abs ((\<lambda>_. [])(0 := [7])) w"
proof -
  have "il_abs (\<lambda>_. []) \<lparr>il_nodes = \<lambda>_. InListNode_init, il_lists = \<lambda>_. InList_init\<rparr>"
    by (simp add: il_abs_def il_rep_def il_free_def InList_init_def)
  from inlist_refines_lists [OF this, of "PushBack 0 7"] show ?thesis by simp
qed

end
