(* ===== verification/Barrier.thy ===== *)
theory Barrier
  imports MTRand "HOL-Library.Multiset"
begin

text \<open>
  The phase barrier (barrier.h): cores join it, leave it and synchronise at the end of their phase; at most
  \<open>parallelThreads\<close> of them run at once, and when all have run the phase ends with a callback.

  A core that has to wait blocks in a system call, after the operation: \<open>bar_join\<close> and \<open>bar_sync\<close> end there, and
  \<open>bar_resume\<close> is what the core does when it gets out of it.  The operations run under the scheduler's lock, so
  each is one step.  The callback is a function on the rest of the simulator's state.  The counters and indices are
  32-bit; the ones that could wrap are stepped by \<open>u32_inc\<close> and \<open>u32_dec\<close>, the others are increased only
  below a bound.  The random numbers are those of \<open>MTRand\<close>, whose rejection loop takes fuel.
\<close>

definition u32_inc :: "nat \<Rightarrow> nat" where "u32_inc n = (n + 1) mod 2 ^ 32"

definition u32_dec :: "nat \<Rightarrow> nat" where "u32_dec n = (n + (2 ^ 32 - 1)) mod 2 ^ 32"

lemma u32_step [simp]: "n < 2 ^ 32 - 1 \<Longrightarrow> u32_inc n = Suc n" "0 < n \<Longrightarrow> n < 2 ^ 32 \<Longrightarrow> u32_dec n = n - 1"
  by (simp_all add: u32_inc_def u32_dec_def mod_if)

definition MAX_THREADS :: nat where "MAX_THREADS = 2048"

datatype BarState = B_OFFLINE | B_WAITING | B_RUNNING | B_LEFT

record ThreadSyncInfo =
  ts_state :: BarState
  ts_futexWord :: nat
  ts_lastIdx :: nat

record Barrier =
  parallelThreads :: nat
  threadList :: "ThreadSyncInfo list"
  runList :: "nat list"
  runListSize :: nat
  curThreadIdx :: nat
  runningThreads :: nat
  leftThreads :: nat
  phaseCount :: nat
  bar_rnd :: MTRand

text \<open>The constructor does not set \<open>lastIdx\<close>.\<close>

definition Barrier_init :: "nat \<Rightarrow> (nat \<Rightarrow> nat) \<Rightarrow> Barrier res" where
  "Barrier_init par junk = rbind (mt_seed 0xBA77137) (\<lambda>m.
     Inr \<lparr>parallelThreads = par,
       threadList = map (\<lambda>t. \<lparr>ts_state = B_OFFLINE, ts_futexWord = 0, ts_lastIdx = junk t\<rparr>) [0..<MAX_THREADS],
       runList = replicate MAX_THREADS 0, runListSize = 0, curThreadIdx = 0, runningThreads = 0, leftThreads = 0,
       phaseCount = 0, bar_rnd = m\<rparr>)"

subsection \<open>Waking the next threads\<close>

definition wake_next :: "Barrier \<Rightarrow> Barrier res" where
  "wake_next b =
     (let idx = curThreadIdx b; b1 = b\<lparr>curThreadIdx := idx + 1\<rparr> in
      rbind (aget (runList b1) idx) (\<lambda>w. rbind (aget (threadList b1) w) (\<lambda>t.
      if ts_state t = B_WAITING
      then check (ts_futexWord t = 1) Panicked
        (Inr (b1\<lparr>threadList := (threadList b1)[w := t\<lparr>ts_state := B_RUNNING, ts_lastIdx := idx, ts_futexWord := 0\<rparr>],
                 runningThreads := runningThreads b1 + 1\<rparr>))
      else Inr b1)))"

lemma wake_next_frame:
  "wake_next b = Inr b' \<Longrightarrow> curThreadIdx b' = Suc (curThreadIdx b) \<and> runListSize b' = runListSize b"
  by (auto simp: wake_next_def res_simps Let_def split: if_splits)

function checkRunList :: "Barrier \<Rightarrow> Barrier res" where
  "checkRunList b =
     (if runningThreads b < parallelThreads b \<and> curThreadIdx b < runListSize b
      then rbind (wake_next b) checkRunList else Inr b)"
  by pat_completeness auto
termination
  by (relation "measure (\<lambda>b. runListSize b - curThreadIdx b)") (auto dest: wake_next_frame)

declare checkRunList.simps [simp del]

subsection \<open>The end of a phase\<close>

text \<open>The pass that drops the threads that left, over \<open>runList\<close> and \<open>threadList\<close>, and the shuffle.\<close>

function offline_left :: "nat \<Rightarrow> nat \<Rightarrow> nat list \<Rightarrow> ThreadSyncInfo list \<Rightarrow> (nat \<times> nat list \<times> ThreadSyncInfo list) res" where
  "offline_left idx newSize rl ts =
     (if idx < newSize
      then rbind (aget rl idx) (\<lambda>w. rbind (aget ts w) (\<lambda>t.
        if ts_state t = B_LEFT
        then (let tl1 = ts[w := t\<lparr>ts_state := B_OFFLINE\<rparr>] in
          rbind (aget rl (newSize - 1)) (\<lambda>s. rbind (aput rl idx s) (\<lambda>rl1. rbind (aget tl1 s) (\<lambda>u.
            offline_left idx (newSize - 1) rl1 (tl1[s := u\<lparr>ts_lastIdx := idx\<rparr>])))))
        else offline_left (idx + 1) newSize rl ts))
      else Inr (newSize, rl, ts))"
  by pat_completeness auto
termination by (relation "measure (\<lambda>(idx, n, _). n - idx)") auto

declare offline_left.simps [simp del]

fun bar_shuffle :: "nat \<Rightarrow> nat \<Rightarrow> nat list \<times> ThreadSyncInfo list \<times> MTRand \<Rightarrow> (nat list \<times> ThreadSyncInfo list \<times> MTRand) res" where
  "bar_shuffle fuel 0 s = Inr s"
| "bar_shuffle fuel (Suc k) (rl, ts, m) =
     rbind (randInt_below fuel (of_nat (Suc k)) m) (\<lambda>(r, m1).
     let j = unat (ucast r :: u32) in
     rbind (aget rl (Suc k)) (\<lambda>itid. rbind (aget rl j) (\<lambda>jtid.
     let rl1 = rl[Suc k := jtid, j := itid] in
     rbind (aget ts itid) (\<lambda>t. let tl1 = ts[itid := t\<lparr>ts_lastIdx := j\<rparr>] in
     rbind (aget tl1 jtid) (\<lambda>u. bar_shuffle fuel k (rl1, tl1[jtid := u\<lparr>ts_lastIdx := Suc k\<rparr>], m1))))))"

definition bar_cleanup :: "Barrier \<Rightarrow> Barrier res" where
  "bar_cleanup b = check (0 < runListSize b) AssertFailed
     (rbind (offline_left 0 (runListSize b) (runList b) (threadList b)) (\<lambda>(newSize, rl, ts).
       check (runListSize b - newSize = leftThreads b) AssertFailed
         (Inr (b\<lparr>leftThreads := 0, runListSize := newSize, runList := rl, threadList := ts\<rparr>))))"

definition checkEndPhase :: "nat \<Rightarrow> ('x \<Rightarrow> 'x res) \<Rightarrow> Barrier \<times> 'x \<Rightarrow> (Barrier \<times> 'x) res" where
  "checkEndPhase fuel callback = (\<lambda>(b, x).
     if curThreadIdx b = runListSize b \<and> runningThreads b = 0
     then if leftThreads b = runListSize b then Inr (b, x)
       else rbind (callback x) (\<lambda>x1.
         let n = phaseCount b; b1 = b\<lparr>curThreadIdx := 0, phaseCount := u32_inc n\<rparr> in
         rbind (if n mod 32 = 0 then bar_cleanup b1 else Inr b1) (\<lambda>b2.
         rbind (if parallelThreads b2 < runListSize b2
                then rbind (bar_shuffle fuel (runListSize b2 - 1) (runList b2, threadList b2, bar_rnd b2)) (\<lambda>(rl, ts, m).
                  Inr (b2\<lparr>runList := rl, threadList := ts, bar_rnd := m\<rparr>))
                else Inr b2) (\<lambda>b3. Inr (b3, x1))))
     else Inr (b, x))"

definition tryWakeNext :: "nat \<Rightarrow> ('x \<Rightarrow> 'x res) \<Rightarrow> Barrier \<times> 'x \<Rightarrow> (Barrier \<times> 'x) res" where
  "tryWakeNext fuel callback = (\<lambda>(b, x).
     rbind (checkRunList b) (\<lambda>b1.
     rbind (checkEndPhase fuel callback (b1, x)) (\<lambda>(b2, x2).
     rbind (checkRunList b2) (\<lambda>b3. Inr (b3, x2)))))"

subsection \<open>The operations\<close>

text \<open>A core that joins again in a phase it has run in changes places with the last one that was woken.\<close>

definition bar_reschedule :: "nat \<Rightarrow> Barrier \<Rightarrow> Barrier res" where
  "bar_reschedule tid b =
     rbind (aget (threadList b) tid) (\<lambda>t.
     if ts_lastIdx t < curThreadIdx b
     then (let lastIdx = ts_lastIdx t; cur = curThreadIdx b - 1 in
       rbind (aget (runList b) lastIdx) (\<lambda>r. check (tid = r) AssertFailed
       (rbind (aget (runList b) cur) (\<lambda>otherTid.
        rbind (aget (threadList b) otherTid) (\<lambda>u. let ts = (threadList b)[otherTid := u\<lparr>ts_lastIdx := lastIdx\<rparr>] in
        rbind (aget ts tid) (\<lambda>t1.
          Inr (b\<lparr>curThreadIdx := cur, runList := (runList b)[lastIdx := otherTid, cur := tid],
                 threadList := ts[tid := t1\<lparr>ts_lastIdx := cur\<rparr>]\<rparr>)))))))
     else Inr b)"

definition bar_set_state :: "nat \<Rightarrow> BarState \<Rightarrow> Barrier \<Rightarrow> Barrier" where
  "bar_set_state tid s b = b\<lparr>threadList := (threadList b)[tid := (threadList b ! tid)\<lparr>ts_state := s\<rparr>]\<rparr>"

definition bar_set_waiting :: "nat \<Rightarrow> Barrier \<Rightarrow> Barrier" where
  "bar_set_waiting tid b =
     b\<lparr>threadList := (threadList b)[tid := (threadList b ! tid)\<lparr>ts_state := B_WAITING, ts_futexWord := 1\<rparr>]\<rparr>"

definition bar_join :: "nat \<Rightarrow> ('x \<Rightarrow> 'x res) \<Rightarrow> nat \<Rightarrow> Barrier \<times> 'x \<Rightarrow> (Barrier \<times> 'x) res" where
  "bar_join fuel callback tid = (\<lambda>(b, x).
     rbind (aget (threadList b) tid) (\<lambda>t.
     check (ts_state t = B_LEFT \<or> ts_state t = B_OFFLINE) AssertFailed
      (rbind (if ts_state t = B_OFFLINE
              then rbind (aput (runList b) (runListSize b) tid) (\<lambda>rl. Inr (b\<lparr>runList := rl, runListSize := runListSize b + 1\<rparr>))
              else bar_reschedule tid (b\<lparr>leftThreads := u32_dec (leftThreads b)\<rparr>)) (\<lambda>b1.
       tryWakeNext fuel callback (bar_set_waiting tid b1, x)))))"

definition bar_leave :: "nat \<Rightarrow> ('x \<Rightarrow> 'x res) \<Rightarrow> nat \<Rightarrow> Barrier \<times> 'x \<Rightarrow> (Barrier \<times> 'x) res" where
  "bar_leave fuel callback tid = (\<lambda>(b, x).
     rbind (aget (threadList b) tid) (\<lambda>t.
     if ts_state t = B_RUNNING
     then tryWakeNext fuel callback
       ((bar_set_state tid B_LEFT b)\<lparr>leftThreads := u32_inc (leftThreads b), runningThreads := u32_dec (runningThreads b)\<rparr>, x)
     else check (ts_state t = B_WAITING) AssertFailed
       (Inr ((bar_set_state tid B_LEFT b)\<lparr>leftThreads := u32_inc (leftThreads b)\<rparr>, x))))"

definition bar_sync :: "nat \<Rightarrow> ('x \<Rightarrow> 'x res) \<Rightarrow> nat \<Rightarrow> Barrier \<times> 'x \<Rightarrow> (Barrier \<times> 'x) res" where
  "bar_sync fuel callback tid = (\<lambda>(b, x).
     rbind (aget (threadList b) tid) (\<lambda>t.
     check (ts_state t = B_RUNNING) AssertFailed
       (tryWakeNext fuel callback ((bar_set_waiting tid b)\<lparr>runningThreads := u32_dec (runningThreads b)\<rparr>, x))))"

text \<open>Blocked until its futex word is not 1, the core checks that it runs.\<close>

definition bar_resume :: "nat \<Rightarrow> Barrier \<Rightarrow> bool res" where
  "bar_resume tid b =
     rbind (aget (threadList b) tid) (\<lambda>t.
     if ts_futexWord t = 1 then Inr False else check (ts_state t = B_RUNNING) AssertFailed (Inr True))"


subsection \<open>The invariant\<close>

definition cnt :: "BarState \<Rightarrow> ThreadSyncInfo list \<Rightarrow> nat" where
  "cnt s ts = length (filter (\<lambda>t. ts_state t = s) ts)"

lemma cnt_update:
  assumes "i < length ts"
  shows "cnt s (ts[i := t]) + (if ts_state (ts ! i) = s then 1 else 0) = cnt s ts + (if ts_state t = s then 1 else 0)"
proof -
  have c: "cnt s xs = size (filter_mset (\<lambda>t. ts_state t = s) (mset xs))" for xs
    by (simp add: cnt_def flip: size_mset)
  have "mset ts = add_mset (ts ! i) (mset ts - {#ts ! i#})" using assms by simp
  then have "cnt s ts = size (filter_mset (\<lambda>t. ts_state t = s) (add_mset (ts ! i) (mset ts - {#ts ! i#})))"
    unfolding c by simp
  moreover have "cnt s (ts[i := t]) = size (filter_mset (\<lambda>t. ts_state t = s) (add_mset t (mset ts - {#ts ! i#})))"
    unfolding c using assms by (simp add: mset_update)
  ultimately show ?thesis by simp
qed

lemma cnt_same: "i < length ts \<Longrightarrow> ts_state t = ts_state (ts ! i) \<Longrightarrow> cnt s (ts[i := t]) = cnt s ts"
  using cnt_update [of i ts s t] by (simp split: if_splits)

lemma cnt_card: "cnt s ts = card {t. t < length ts \<and> ts_state (ts ! t) = s}"
  by (simp add: cnt_def length_filter_conv_card)

lemma cnt_le: "cnt s ts \<le> length ts"
  by (simp add: cnt_def)

lemma cnt_pos: "0 < cnt s ts \<longleftrightarrow> (\<exists>t < length ts. ts_state (ts ! t) = s)"
  by (auto simp: cnt_card card_gt_0_iff)

definition run_list_ok :: "nat list \<Rightarrow> nat \<Rightarrow> ThreadSyncInfo list \<Rightarrow> bool" where
  "run_list_ok rl n ts \<longleftrightarrow> length ts = MAX_THREADS \<and> length rl = MAX_THREADS \<and> n \<le> MAX_THREADS \<and> distinct (take n rl) \<and>
     set (take n rl) = {t. t < MAX_THREADS \<and> ts_state (ts ! t) \<noteq> B_OFFLINE}"

text \<open>A thread's last index points at it, unless it is new in the list and has not run yet.\<close>

definition placed_at :: "nat list \<Rightarrow> nat \<Rightarrow> ThreadSyncInfo \<Rightarrow> nat \<Rightarrow> bool" where
  "placed_at rl n u t \<longleftrightarrow> ts_lastIdx u < n \<and> rl ! ts_lastIdx u = t"

definition thread_ok :: "nat list \<Rightarrow> nat \<Rightarrow> nat \<Rightarrow> ThreadSyncInfo \<Rightarrow> nat \<Rightarrow> bool" where
  "thread_ok rl n cur u t \<longleftrightarrow> (ts_state u = B_WAITING \<longrightarrow> ts_futexWord u = 1) \<and> (ts_state u = B_LEFT \<longrightarrow> placed_at rl n u t) \<and>
     (ts_state u = B_RUNNING \<longrightarrow> placed_at rl n u t \<and> ts_lastIdx u < cur \<and> ts_futexWord u = 0)"

definition threads_ok :: "nat list \<Rightarrow> nat \<Rightarrow> nat \<Rightarrow> ThreadSyncInfo list \<Rightarrow> bool" where
  "threads_ok rl n cur ts \<longleftrightarrow> (\<forall>t < MAX_THREADS. thread_ok rl n cur (ts ! t) t)"

lemma threads_ok_mono: "threads_ok rl n c ts \<Longrightarrow> c \<le> c' \<Longrightarrow> threads_ok rl n c' ts"
  unfolding threads_ok_def thread_ok_def by (meson less_le_trans)

lemma threads_ok_update: "threads_ok rl n c ts \<Longrightarrow> i < length ts \<Longrightarrow> thread_ok rl n c u i \<Longrightarrow> threads_ok rl n c (ts[i := u])"
  by (simp add: threads_ok_def nth_list_update)

definition bar_wf :: "Barrier \<Rightarrow> bool" where
  "bar_wf b \<longleftrightarrow> run_list_ok (runList b) (runListSize b) (threadList b) \<and>
     threads_ok (runList b) (runListSize b) (curThreadIdx b) (threadList b) \<and> curThreadIdx b \<le> runListSize b \<and>
     leftThreads b = cnt B_LEFT (threadList b) \<and> runningThreads b = cnt B_RUNNING (threadList b) \<and>
     runningThreads b \<le> parallelThreads b \<and> mt_ok (bar_rnd b)"

text \<open>\<open>R\<close> holds the threads that got their turn in this phase.\<close>

definition bst :: "Barrier \<Rightarrow> nat \<Rightarrow> BarState" where
  "bst b t = ts_state (threadList b ! t)"

definition turns_ok :: "nat set \<Rightarrow> Barrier \<Rightarrow> bool" where
  "turns_ok R b \<longleftrightarrow> (\<forall>i < curThreadIdx b. bst b (runList b ! i) = B_RUNNING \<or> bst b (runList b ! i) = B_WAITING \<longrightarrow> runList b ! i \<in> R)"

lemma run_list_len: "run_list_ok rl n ts \<Longrightarrow> length ts = MAX_THREADS" "run_list_ok rl n ts \<Longrightarrow> length rl = MAX_THREADS"
    "run_list_ok rl n ts \<Longrightarrow> n \<le> MAX_THREADS"
  by (simp_all add: run_list_ok_def)

lemma run_list_mem: "run_list_ok rl n ts \<Longrightarrow> t \<in> set (take n rl) \<longleftrightarrow> t < MAX_THREADS \<and> ts_state (ts ! t) \<noteq> B_OFFLINE"
  by (simp add: run_list_ok_def)

lemma run_list_nth:
  assumes "run_list_ok rl n ts" "i < n"
  shows "rl ! i < MAX_THREADS" "ts_state (ts ! (rl ! i)) \<noteq> B_OFFLINE" "i < length rl" "rl ! i < length ts"
proof -
  have "rl ! i = take n rl ! i" "i < length (take n rl)" using assms by (simp_all add: run_list_ok_def)
  then have "rl ! i \<in> set (take n rl)" by (metis nth_mem)
  then show "rl ! i < MAX_THREADS" "ts_state (ts ! (rl ! i)) \<noteq> B_OFFLINE" using assms(1) by (auto simp: run_list_ok_def)
  then show "i < length rl" "rl ! i < length ts" using assms by (auto simp: run_list_ok_def)
qed

lemma run_list_eq:
  assumes "run_list_ok rl n ts" "i < n" "j < n"
  shows "rl ! i = rl ! j \<longleftrightarrow> i = j"
proof -
  have "take n rl ! i = take n rl ! j \<longleftrightarrow> i = j"
    using assms by (intro nth_eq_iff_index_eq) (simp_all add: run_list_ok_def)
  then show ?thesis using assms by simp
qed

lemma run_list_pos:
  assumes "run_list_ok rl n ts" "t < MAX_THREADS" "ts_state (ts ! t) \<noteq> B_OFFLINE"
  shows "\<exists>i < n. rl ! i = t"
proof -
  have "t \<in> set (take n rl)" using assms by (simp add: run_list_ok_def)
  then show ?thesis by (auto simp: in_set_conv_nth)
qed

lemma run_list_state:
  "run_list_ok rl n ts \<Longrightarrow> i < length ts \<Longrightarrow> (ts_state t = B_OFFLINE \<longleftrightarrow> ts_state (ts ! i) = B_OFFLINE) \<Longrightarrow>
    run_list_ok rl n (ts[i := t])"
proof -
  assume a: "run_list_ok rl n ts" "i < length ts" "ts_state t = B_OFFLINE \<longleftrightarrow> ts_state (ts ! i) = B_OFFLINE"
  have "ts_state (ts[i := t] ! j) = B_OFFLINE \<longleftrightarrow> ts_state (ts ! j) = B_OFFLINE" for j
    using a(2,3) by (cases "j = i") simp_all
  with a(1) show ?thesis by (simp add: run_list_ok_def)
qed

lemma run_list_size: "run_list_ok rl n ts \<Longrightarrow> n + cnt B_OFFLINE ts = MAX_THREADS"
proof -
  assume ok: "run_list_ok rl n ts"
  then have "length (take n rl) = n" "distinct (take n rl)" by (simp_all add: run_list_ok_def)
  then have "n = card (set (take n rl))" by (metis distinct_card)
  also have "\<dots> = card {t. t < MAX_THREADS \<and> ts_state (ts ! t) \<noteq> B_OFFLINE}" using ok by (simp add: run_list_ok_def)
  finally have n: "n = card {t. t < MAX_THREADS \<and> ts_state (ts ! t) \<noteq> B_OFFLINE}" .
  have "cnt B_OFFLINE ts = card {t. t < MAX_THREADS \<and> ts_state (ts ! t) = B_OFFLINE}"
    using ok by (simp add: cnt_card run_list_ok_def)
  moreover have "card {t. t < MAX_THREADS \<and> ts_state (ts ! t) \<noteq> B_OFFLINE} + card {t. t < MAX_THREADS \<and> ts_state (ts ! t) = B_OFFLINE}
      = card ({t. t < MAX_THREADS \<and> ts_state (ts ! t) \<noteq> B_OFFLINE} \<union> {t. t < MAX_THREADS \<and> ts_state (ts ! t) = B_OFFLINE})"
    by (rule card_Un_disjoint [symmetric]) auto
  moreover have "{t. t < MAX_THREADS \<and> ts_state (ts ! t) \<noteq> B_OFFLINE} \<union> {t. t < MAX_THREADS \<and> ts_state (ts ! t) = B_OFFLINE} = {..<MAX_THREADS}"
    by auto
  ultimately show ?thesis using n by simp
qed

subsection \<open>Waking\<close>

definition same_list :: "Barrier \<Rightarrow> Barrier \<Rightarrow> bool" where
  "same_list b b' \<longleftrightarrow> runList b' = runList b \<and> runListSize b' = runListSize b \<and> parallelThreads b' = parallelThreads b \<and>
     phaseCount b' = phaseCount b"

lemma wake_next_ok:
  assumes wf: "bar_wf b" and go: "runningThreads b < parallelThreads b" "curThreadIdx b < runListSize b"
  shows "\<exists>b'. wake_next b = Inr b' \<and> bar_wf b' \<and> same_list b b' \<and> curThreadIdx b' = Suc (curThreadIdx b) \<and>
    (\<forall>t. bst b' t = (if t = runList b ! curThreadIdx b \<and> bst b t = B_WAITING then B_RUNNING else bst b t))"
proof -
  let ?i = "curThreadIdx b" let ?w = "runList b ! ?i" let ?t = "threadList b ! ?w"
  have ok: "run_list_ok (runList b) (runListSize b) (threadList b)"
    and th: "threads_ok (runList b) (runListSize b) ?i (threadList b)" using wf by (auto simp: bar_wf_def)
  note w = run_list_nth [OF ok go(2)]
  show ?thesis
  proof (cases "ts_state ?t = B_WAITING")
    case True
    let ?t' = "?t\<lparr>ts_state := B_RUNNING, ts_lastIdx := ?i, ts_futexWord := 0\<rparr>"
    let ?ts = "(threadList b)[?w := ?t']"
    have fx: "ts_futexWord ?t = 1" using th True w(1) by (simp add: threads_ok_def thread_ok_def)
    have "run_list_ok (runList b) (runListSize b) ?ts"
      by (rule run_list_state [OF ok w(4)]) (simp add: True)
    moreover have "threads_ok (runList b) (runListSize b) (Suc ?i) ?ts"
      by (rule threads_ok_update [OF threads_ok_mono [OF th]]) (use go(2) w in \<open>simp_all add: thread_ok_def placed_at_def\<close>)
    moreover have "cnt B_LEFT ?ts = cnt B_LEFT (threadList b)" "cnt B_RUNNING ?ts = Suc (cnt B_RUNNING (threadList b))"
      using cnt_update [OF w(4), of B_LEFT ?t'] cnt_update [OF w(4), of B_RUNNING ?t'] True by simp_all
    ultimately show ?thesis using True fx w wf go
      by (auto simp: wake_next_def bar_wf_def same_list_def Let_def bst_def nth_list_update)
  next
    case False
    have "threads_ok (runList b) (runListSize b) (Suc ?i) (threadList b)" using th by (rule threads_ok_mono) simp
    with False w wf go show ?thesis
      by (auto simp: wake_next_def bar_wf_def same_list_def Let_def bst_def)
  qed
qed

text \<open>The threads the loop wakes are the waiting ones at the positions it passes.\<close>

definition passed :: "nat list \<Rightarrow> nat \<Rightarrow> nat \<Rightarrow> nat \<Rightarrow> bool" where
  "passed rl c c' t \<longleftrightarrow> (\<exists>i. c \<le> i \<and> i < c' \<and> rl ! i = t)"

lemma passed_Suc: "Suc c \<le> c' \<Longrightarrow> passed rl c c' t \<longleftrightarrow> rl ! c = t \<or> passed rl (Suc c) c' t"
  unfolding passed_def by (metis Suc_le_eq le_neq_implies_less less_imp_le_nat order_refl)

lemma passed_none [simp]: "\<not> passed rl c c t"
  by (simp add: passed_def)

definition woken :: "Barrier \<Rightarrow> Barrier \<Rightarrow> bool" where
  "woken b b' \<longleftrightarrow> same_list b b' \<and> curThreadIdx b \<le> curThreadIdx b' \<and> (\<forall>t. bst b' t = (if bst b t = B_WAITING \<and>
     passed (runList b) (curThreadIdx b) (curThreadIdx b') t then B_RUNNING else bst b t))"

lemma checkRunList_ok:
  "bar_wf b \<Longrightarrow> \<exists>b'. checkRunList b = Inr b' \<and> bar_wf b' \<and> woken b b' \<and>
    (runningThreads b' = parallelThreads b' \<or> curThreadIdx b' = runListSize b')"
proof (induction b rule: checkRunList.induct)
  case (1 b)
  show ?case
  proof (cases "runningThreads b < parallelThreads b \<and> curThreadIdx b < runListSize b")
    case True
    from wake_next_ok [OF 1(2)] True obtain b1 where b1: "wake_next b = Inr b1" "bar_wf b1" "same_list b b1"
        "curThreadIdx b1 = Suc (curThreadIdx b)"
        "\<And>t. bst b1 t = (if t = runList b ! curThreadIdx b \<and> bst b t = B_WAITING then B_RUNNING else bst b t)" by blast
    from 1(1) [OF True b1(1,2)] obtain b' where b': "checkRunList b1 = Inr b'" "bar_wf b'" "woken b1 b'"
      "runningThreads b' = parallelThreads b' \<or> curThreadIdx b' = runListSize b'" by blast
    let ?C = "curThreadIdx b'" let ?c = "curThreadIdx b"
    have rl: "same_list b b'" "Suc ?c \<le> ?C" using b'(3) b1(3,4) by (auto simp: woken_def same_list_def)
    have "bst b' t = (if bst b t = B_WAITING \<and> passed (runList b) ?c ?C t then B_RUNNING else bst b t)" for t
      using b'(3) b1(3-5) passed_Suc [OF rl(2), of "runList b" t] by (auto simp: woken_def same_list_def)
    then have "woken b b'" using rl by (simp add: woken_def)
    moreover have "checkRunList b = Inr b'" using True b1(1) b'(1) by (simp add: checkRunList.simps)
    ultimately show ?thesis using b'(2,4) by blast
  next
    case False
    then show ?thesis using 1(2) by (auto simp: checkRunList.simps bar_wf_def woken_def same_list_def)
  qed
qed

subsection \<open>The end of a phase\<close>

lemma drop_swap:
  assumes "distinct (take n rl)" "i < n" "n \<le> length rl"
  shows "distinct (take (n - 1) (rl[i := rl ! (n - 1)]))"
    and "set (take (n - 1) (rl[i := rl ! (n - 1)])) = set (take n rl) - {rl ! i}"
proof -
  let ?L = "take n rl"
  let ?S = "?L[i := ?L ! (n - 1), n - 1 := ?L ! i]"
  have len: "i < length ?L" "n - 1 < length ?L" using assms by auto
  have S: "distinct ?S" "set ?S = set ?L" using assms(1) distinct_swap [OF len] set_swap [OF len] by metis+
  have "?S = butlast ?S @ [last ?S]" using len by (intro append_butlast_last_id [symmetric]) auto
  moreover have "last ?S = rl ! i" by (subst last_conv_nth) (use len assms(2,3) in \<open>auto simp: nth_list_update\<close>)
  moreover have "butlast ?S = take (n - 1) (rl[i := rl ! (n - 1)])"
  proof -
    have "butlast ?S = take (n - 1) (?L[i := ?L ! (n - 1)])" using assms(3) by (simp add: butlast_conv_take min_def)
    also have "\<dots> = take (n - 1) (rl[i := rl ! (n - 1)])" using assms(2,3) by (simp add: take_update_swap min_def)
    finally show ?thesis .
  qed
  ultimately have "?S = take (n - 1) (rl[i := rl ! (n - 1)]) @ [rl ! i]" by simp
  with S show "distinct (take (n - 1) (rl[i := rl ! (n - 1)]))"
    and "set (take (n - 1) (rl[i := rl ! (n - 1)])) = set (take n rl) - {rl ! i}"
    by (metis distinct_append, metis Diff_insert_absorb distinct_append distinct.simps(2) insert_is_Un list.simps(15) set_append
      Un_commute disjoint_insert(1) list.set(1) Int_empty_right)
qed

text \<open>An entry of the thread list before and after a pass over it.\<close>

definition left_pass :: "nat list \<Rightarrow> nat \<Rightarrow> ThreadSyncInfo list \<Rightarrow> nat list \<Rightarrow> nat \<Rightarrow> ThreadSyncInfo list \<Rightarrow> nat \<Rightarrow> bool" where
  "left_pass rl n ts rl' n' ts' t \<longleftrightarrow>
     ts_state (ts' ! t) = (if t \<in> set (take n rl) \<and> ts_state (ts ! t) = B_LEFT then B_OFFLINE else ts_state (ts ! t)) \<and>
     ts_futexWord (ts' ! t) = ts_futexWord (ts ! t) \<and>
     (t \<in> set (take n' rl') \<longrightarrow> placed_at rl n (ts ! t) t \<longrightarrow> placed_at rl' n' (ts' ! t) t)"

lemma offline_left_ok:
  "length ts = MAX_THREADS \<Longrightarrow> length rl = MAX_THREADS \<Longrightarrow> n \<le> MAX_THREADS \<Longrightarrow> idx \<le> n \<Longrightarrow> distinct (take n rl) \<Longrightarrow>
   set (take n rl) \<subseteq> {..<MAX_THREADS} \<Longrightarrow> (\<forall>i < idx. ts_state (ts ! (rl ! i)) \<noteq> B_LEFT) \<Longrightarrow>
   \<exists>n' rl' ts'. offline_left idx n rl ts = Inr (n', rl', ts') \<and> length ts' = MAX_THREADS \<and> length rl' = MAX_THREADS \<and> n' \<le> n \<and>
     distinct (take n' rl') \<and> set (take n' rl') = {t \<in> set (take n rl). ts_state (ts ! t) \<noteq> B_LEFT} \<and>
     (\<forall>t. left_pass rl n ts rl' n' ts' t)"
proof (induction idx n rl ts rule: offline_left.induct)
  case (1 idx n rl ts)
  show ?case
  proof (cases "idx < n")
    case False
    then have "idx = n" using "1.prems"(4) by simp
    then have "ts_state (ts ! t) \<noteq> B_LEFT" if "t \<in> set (take n rl)" for t
      using that "1.prems"(7) by (auto simp: in_set_conv_nth)
    then have "{t \<in> set (take n rl). ts_state (ts ! t) \<noteq> B_LEFT} = set (take n rl)" by blast
    with "1.prems" \<open>\<And>t. t \<in> set (take n rl) \<Longrightarrow> _\<close> False show ?thesis
      by (subst offline_left.simps) (auto simp: left_pass_def)
  next
    case True
    let ?w = "rl ! idx" let ?s = "rl ! (n - 1)"
    have in_l: "?w \<in> set (take n rl)" "?s \<in> set (take n rl)"
      using True "1.prems"(2,3) by (auto simp: in_set_conv_nth intro: exI [of _ idx] exI [of _ "n - 1"])
    then have w: "?w < MAX_THREADS" "?s < MAX_THREADS" using "1.prems"(6) by auto
    show ?thesis
    proof (cases "ts_state (ts ! ?w) = B_LEFT")
      case False
      then have "\<forall>i < idx + 1. ts_state (ts ! (rl ! i)) \<noteq> B_LEFT" using "1.prems"(7) by (auto simp: less_Suc_eq)
      with "1.IH"(2) [OF True, of ?w "ts ! ?w"] "1.prems" w True False show ?thesis
        by (subst offline_left.simps) simp
    next
      case left: True
      define rl1 where "rl1 = rl[idx := ?s]"
      let ?ts1 = "ts[?w := (ts ! ?w)\<lparr>ts_state := B_OFFLINE\<rparr>]"
      define ts2 where "ts2 = ?ts1[?s := (?ts1 ! ?s)\<lparr>ts_lastIdx := idx\<rparr>]"
      have st: "ts_state (ts2 ! t) = (if t = ?w then B_OFFLINE else ts_state (ts ! t))"
          "ts_futexWord (ts2 ! t) = ts_futexWord (ts ! t)" for t
        using w "1.prems"(1) by (auto simp: nth_list_update ts2_def)
      have ds: "distinct (take (n - 1) rl1)" "set (take (n - 1) rl1) = set (take n rl) - {?w}"
        using drop_swap [OF "1.prems"(5) True] "1.prems"(2,3) by (simp_all add: rl1_def)
      have "\<forall>i < idx. ts_state (ts2 ! (rl1 ! i)) \<noteq> B_LEFT" using "1.prems"(7) st by (auto simp: rl1_def)
      moreover have "length ts2 = MAX_THREADS" "length rl1 = MAX_THREADS" "n - 1 \<le> MAX_THREADS" "idx \<le> n - 1"
          "set (take (n - 1) rl1) \<subseteq> {..<MAX_THREADS}"
        using "1.prems"(1-3,6) True ds(2) by (auto simp: ts2_def rl1_def)
      moreover have "aget rl idx = Inr ?w" "aget ts ?w = Inr (ts ! ?w)" "aget rl (n - 1) = Inr ?s" "aput rl idx ?s = Inr rl1"
          "aget ?ts1 ?s = Inr (?ts1 ! ?s)"
        using w True "1.prems"(1-3) by (simp_all add: rl1_def)
      moreover note "1.IH"(1) [of ?w "ts ! ?w" ?ts1 ?s rl1 "?ts1 ! ?s", OF True _ _ left, folded ts2_def] ds(1)
      ultimately obtain n' rl' ts' where r: "offline_left idx (n - 1) rl1 ts2 = Inr (n', rl', ts')" "length ts' = MAX_THREADS"
          "length rl' = MAX_THREADS" "n' \<le> n - 1" "distinct (take n' rl')"
          "set (take n' rl') = {t \<in> set (take (n - 1) rl1). ts_state (ts2 ! t) \<noteq> B_LEFT}"
          "\<forall>t. left_pass rl1 (n - 1) ts2 rl' n' ts' t"
        by blast
      have "left_pass rl n ts rl' n' ts' t" for t
      proof -
        have "placed_at rl1 (n - 1) (ts2 ! t) t" if "t \<in> set (take n' rl')" "placed_at rl n (ts ! t) t"
        proof -
          have t: "t \<noteq> ?w" using that(1) r(6) ds(2) by auto
          show ?thesis
          proof (cases "t = ?s")
            case True
            then have "idx \<noteq> n - 1" using t by auto
            with True w "1.prems"(1-3) \<open>idx < n\<close> show ?thesis by (simp add: placed_at_def rl1_def ts2_def)
          next
            case False
            define l where "l = ts_lastIdx (ts ! t)"
            have l: "ts2 ! t = ts ! t" "l < n" "rl ! l = t"
              using t False that(2) by (auto simp: ts2_def placed_at_def l_def)
            then have "l \<noteq> n - 1" "l \<noteq> idx" using t False by auto
            then show ?thesis using l by (simp add: placed_at_def rl1_def flip: l_def)
          qed
        qed
        moreover have "left_pass rl1 (n - 1) ts2 rl' n' ts' t" using r(7) by blast
        ultimately show ?thesis using st [of t] left in_l(1) unfolding left_pass_def ds(2) by auto
      qed
      moreover have "set (take n' rl') = {t \<in> set (take n rl). ts_state (ts ! t) \<noteq> B_LEFT}"
        unfolding r(6) ds(2) using st(1) left by auto
      moreover have "offline_left idx n rl ts = Inr (n', rl', ts')"
        using True left w r(1) "1.prems"(1-3) by (subst offline_left.simps) (simp add: Let_def rl1_def ts2_def)
      ultimately show ?thesis using r(2-5) by auto
    qed
  qed
qed

subsection \<open>The shuffle\<close>

lemma draw_ok:
  "mt_ok m \<Longrightarrow> draw fuel used n m = Inl OutOfFuel \<or> (\<exists>r m'. draw fuel used n m = Inr (r, m') \<and> r \<le> n \<and> mt_ok m')"
proof (induction fuel arbitrary: m)
  case (Suc fuel)
  from randInt_ok [OF Suc.prems] obtain v m' where "randInt m = Inr (v, m')" "mt_ok m'" by auto
  with Suc.IH [of m'] show ?case by (auto simp: Let_def not_less)
qed simp

definition shuffled :: "nat \<Rightarrow> nat list \<Rightarrow> ThreadSyncInfo list \<Rightarrow> nat list \<Rightarrow> ThreadSyncInfo list \<Rightarrow> bool" where
  "shuffled n rl ts rl' ts' \<longleftrightarrow> (\<forall>t. ts_state (ts' ! t) = ts_state (ts ! t) \<and> ts_futexWord (ts' ! t) = ts_futexWord (ts ! t) \<and>
     (placed_at rl n (ts ! t) t \<longrightarrow> placed_at rl' n (ts' ! t) t))"

lemma swap_ok:
  assumes ok: "run_list_ok rl n ts" and ij: "i < n" "j < n"
    and ts': "ts' = ts[rl ! i := (ts ! (rl ! i))\<lparr>ts_lastIdx := j\<rparr>]"
  shows "run_list_ok (rl[i := rl ! j, j := rl ! i]) n (ts'[rl ! j := (ts' ! (rl ! j))\<lparr>ts_lastIdx := i\<rparr>]) \<and>
    shuffled n rl ts (rl[i := rl ! j, j := rl ! i]) (ts'[rl ! j := (ts' ! (rl ! j))\<lparr>ts_lastIdx := i\<rparr>])"
proof -
  let ?rl = "rl[i := rl ! j, j := rl ! i]" let ?ts = "ts'[rl ! j := (ts' ! (rl ! j))\<lparr>ts_lastIdx := i\<rparr>]"
  note wi = run_list_nth [OF ok ij(1)] and wj = run_list_nth [OF ok ij(2)]
  have st: "ts_state (?ts ! t) = ts_state (ts ! t)" "ts_futexWord (?ts ! t) = ts_futexWord (ts ! t)" for t
    using wi(4) wj(4) ts' by (auto simp: nth_list_update)
  have "take n ?rl = (take n rl)[i := take n rl ! j, j := take n rl ! i]" using ij by (simp add: take_update_swap)
  moreover have "i < length (take n rl)" "j < length (take n rl)" using ij wi(3) wj(3) by auto
  ultimately have "distinct (take n ?rl)" "set (take n ?rl) = set (take n rl)"
    using ok by (simp_all only: distinct_swap set_swap run_list_ok_def)
  then have "run_list_ok ?rl n ?ts" using ok st(1) ts' by (simp add: run_list_ok_def)
  moreover have "placed_at ?rl n (?ts ! t) t" if "placed_at rl n (ts ! t) t" for t
  proof (cases "t = rl ! i \<or> t = rl ! j")
    case True
    then have "ts_lastIdx (?ts ! t) = (if t = rl ! j then i else j)" using wi(4) wj(4) ts' by auto
    with True ij wi(3) wj(3) show ?thesis by (auto simp: placed_at_def nth_list_update)
  next
    case False
    then have "?ts ! t = ts ! t" using ts' by simp
    moreover have "ts_lastIdx (ts ! t) \<noteq> i" "ts_lastIdx (ts ! t) \<noteq> j" using False that by (auto simp: placed_at_def)
    ultimately show ?thesis using that by (simp add: placed_at_def)
  qed
  ultimately show ?thesis using st by (simp add: shuffled_def)
qed

lemma bar_shuffle_ok:
  "run_list_ok rl n ts \<Longrightarrow> k < n \<Longrightarrow> mt_ok m \<Longrightarrow>
   bar_shuffle fuel k (rl, ts, m) = Inl OutOfFuel \<or> (\<exists>rl' ts' m'. bar_shuffle fuel k (rl, ts, m) = Inr (rl', ts', m') \<and>
     run_list_ok rl' n ts' \<and> mt_ok m' \<and> shuffled n rl ts rl' ts')"
proof (induction k arbitrary: rl ts m)
  case 0
  then show ?case by (simp add: shuffled_def)
next
  case (Suc k)
  consider "randInt_below fuel (of_nat (Suc k)) m = Inl OutOfFuel"
    | r m' where "randInt_below fuel (of_nat (Suc k)) m = Inr (r, m')" "r \<le> of_nat (Suc k)" "mt_ok m'"
    using draw_ok [OF Suc.prems(3)] unfolding randInt_below_def by blast
  then show ?case
  proof cases
    case 1
    then show ?thesis by simp
  next
    case 2
    let ?i = "Suc k" let ?j = "unat (ucast r :: u32)"
    have "n \<le> 2048" using Suc.prems(1) by (simp add: run_list_ok_def MAX_THREADS_def)
    then have "unat (of_nat (Suc k) :: u64) = Suc k" using Suc.prems(2) by (simp del: of_nat_Suc add: unsigned_of_nat take_bit_nat_eq_self)
    then have "unat r \<le> Suc k" using 2(2) by (simp add: word_le_nat_alt)
    moreover from this have "?j = unat r" using Suc.prems(2) \<open>n \<le> 2048\<close> by (intro unat_ucast_64_32) simp
    ultimately have j: "?j < n" using Suc.prems(2) by simp
    let ?ts1 = "ts[rl ! ?i := (ts ! (rl ! ?i))\<lparr>ts_lastIdx := ?j\<rparr>]"
    let ?ts = "?ts1[rl ! ?j := (?ts1 ! (rl ! ?j))\<lparr>ts_lastIdx := ?i\<rparr>]" let ?rl = "rl[?i := rl ! ?j, ?j := rl ! ?i]"
    have sw: "run_list_ok ?rl n ?ts" "shuffled n rl ts ?rl ?ts"
      using swap_ok [OF Suc.prems(1,2) j refl] by blast+
    have "bar_shuffle fuel (Suc k) (rl, ts, m) = bar_shuffle fuel k (?rl, ?ts, m')"
      using run_list_nth [OF Suc.prems(1,2)] run_list_nth [OF Suc.prems(1) j] 2(1) by (simp add: Let_def)
    with Suc.IH [OF sw(1) _ 2(3)] Suc.prems(2) sw(2) show ?thesis by (auto simp: shuffled_def)
  qed
qed

subsection \<open>The end of a phase keeps the invariant\<close>

lemma cnt_eqI: "length ts' = length ts \<Longrightarrow> (\<And>t. ts_state (ts' ! t) = s \<longleftrightarrow> ts_state (ts ! t) = s) \<Longrightarrow> cnt s ts' = cnt s ts"
  by (simp add: cnt_card)

text \<open>No thread runs, and not every thread has left: the phase ends.\<close>

definition ended :: "Barrier \<Rightarrow> Barrier \<Rightarrow> bool" where
  "ended b b' \<longleftrightarrow> parallelThreads b' = parallelThreads b \<and> curThreadIdx b' = 0 \<and>
     (\<forall>t. bst b' t = bst b t \<or> bst b t = B_LEFT \<and> bst b' t = B_OFFLINE) \<and> runningThreads b' = 0 \<and> bar_wf b'"

lemma bar_cleanup_ok:
  assumes wf: "bar_wf b" "curThreadIdx b = 0" "runningThreads b = 0" "leftThreads b < runListSize b"
  shows "\<exists>b'. bar_cleanup b = Inr b' \<and> ended b b'"
proof -
  let ?n = "runListSize b" let ?rl = "runList b" let ?ts = "threadList b"
  have ok: "run_list_ok ?rl ?n ?ts" and th: "threads_ok ?rl ?n 0 ?ts" using wf by (auto simp: bar_wf_def)
  have len: "length ?ts = MAX_THREADS" "length ?rl = MAX_THREADS" "?n \<le> MAX_THREADS" "distinct (take ?n ?rl)"
      "set (take ?n ?rl) \<subseteq> {..<MAX_THREADS}"
    using ok by (auto simp: run_list_ok_def)
  from offline_left_ok [OF len(1-3) _ len(4,5), of 0] obtain n' rl' ts' where
    r: "offline_left 0 ?n ?rl ?ts = Inr (n', rl', ts')" "length ts' = MAX_THREADS" "length rl' = MAX_THREADS" "n' \<le> ?n"
      "distinct (take n' rl')" "set (take n' rl') = {t \<in> set (take ?n ?rl). ts_state (?ts ! t) \<noteq> B_LEFT}"
      "\<And>t. left_pass ?rl ?n ?ts rl' n' ts' t" by auto
  have listed: "t \<in> set (take ?n ?rl) \<longleftrightarrow> t < MAX_THREADS \<and> ts_state (?ts ! t) \<noteq> B_OFFLINE" for t
    using ok by (auto simp: run_list_ok_def)
  have st: "ts_state (ts' ! t) = (if ts_state (?ts ! t) = B_LEFT then B_OFFLINE else ts_state (?ts ! t))" if "t < MAX_THREADS" for t
    using r(7) [of t] listed that by (auto simp: left_pass_def)
  have norun: "ts_state (?ts ! t) \<noteq> B_RUNNING" if "t < MAX_THREADS" for t
    using wf(1,3) len(1) that cnt_pos [of B_RUNNING ?ts] by (auto simp: bar_wf_def)
  have ok': "run_list_ok rl' n' ts'"
    unfolding run_list_ok_def using r(2-6) len(3) listed st by auto
  have "?n = n' + leftThreads b"
  proof -
    have "card {t. t < MAX_THREADS \<and> ts_state (ts' ! t) = B_OFFLINE} =
        card ({t. t < MAX_THREADS \<and> ts_state (?ts ! t) = B_OFFLINE} \<union> {t. t < MAX_THREADS \<and> ts_state (?ts ! t) = B_LEFT})"
      using st by (intro arg_cong [where f = card]) auto
    also have "\<dots> = cnt B_OFFLINE ?ts + cnt B_LEFT ?ts"
      unfolding cnt_card len(1) by (rule card_Un_disjoint) auto
    finally have "cnt B_OFFLINE ts' = cnt B_OFFLINE ?ts + leftThreads b" using wf(1) r(2) by (simp add: cnt_card bar_wf_def)
    then show ?thesis using run_list_size [OF ok] run_list_size [OF ok'] by simp
  qed
  moreover have "threads_ok rl' n' 0 ts'"
    unfolding threads_ok_def thread_ok_def
    using st norun th r(7) by (auto simp: threads_ok_def thread_ok_def left_pass_def)
  moreover have "ts_state (ts' ! t) \<noteq> B_LEFT \<and> ts_state (ts' ! t) \<noteq> B_RUNNING" if "t < MAX_THREADS" for t
    using st [OF that] norun [OF that] by simp
  then have "cnt B_LEFT ts' = 0" "cnt B_RUNNING ts' = 0"
    using cnt_pos [of B_LEFT ts'] cnt_pos [of B_RUNNING ts'] r(2) by (metis not_gr_zero)+
  ultimately have "bar_wf (b\<lparr>leftThreads := 0, runListSize := n', runList := rl', threadList := ts'\<rparr>)"
    using wf ok' by (simp add: bar_wf_def)
  moreover have "bar_cleanup b = Inr (b\<lparr>leftThreads := 0, runListSize := n', runList := rl', threadList := ts'\<rparr>)"
    using r(1) wf(4) \<open>?n = n' + leftThreads b\<close> by (simp add: bar_cleanup_def)
  moreover have "bst b t = ts_state (?ts ! t)" for t by (simp add: bst_def)
  ultimately show ?thesis using wf(2,3) r(7) by (auto simp: ended_def bst_def left_pass_def)
qed

lemma u32_inc_neq [simp]: "u32_inc n \<noteq> n"
proof
  assume a: "u32_inc n = n"
  then have "n < 2 ^ 32" by (metis u32_inc_def mod_less_divisor zero_less_numeral zero_less_power)
  with a show False by (auto simp: u32_inc_def mod_if split: if_splits)
qed

text \<open>The part of the scheduler the barrier calls: it may keep an invariant of its own, and it succeeds under it, unless it
  draws random numbers and runs out of fuel.\<close>

locale phase_callee =
  fixes callback :: "'x \<Rightarrow> 'x res" and cinv :: "'x \<Rightarrow> bool" and draws :: bool
  assumes callback_ok: "cinv x \<Longrightarrow> (\<exists>x'. callback x = Inr x' \<and> cinv x') \<or> callback x = Inl OutOfFuel \<and> draws"
begin

lemma checkEndPhase_ok:
  assumes wf: "bar_wf b" and x: "cinv x"
  shows "if curThreadIdx b = runListSize b \<and> runningThreads b = 0 \<and> leftThreads b \<noteq> runListSize b
    then checkEndPhase fuel callback (b, x) = Inl OutOfFuel \<and> (draws \<or> parallelThreads b < MAX_THREADS) \<or>
      (\<exists>b' x'. checkEndPhase fuel callback (b, x) = Inr (b', x') \<and> cinv x' \<and> ended b b' \<and> phaseCount b' = u32_inc (phaseCount b))
    else checkEndPhase fuel callback (b, x) = Inr (b, x)"
proof (cases "curThreadIdx b = runListSize b \<and> runningThreads b = 0 \<and> leftThreads b \<noteq> runListSize b")
  case False
  then show ?thesis by (auto simp: checkEndPhase_def)
next
  case True
  show ?thesis
  proof (cases "callback x = Inl OutOfFuel \<and> draws")
    case fails: True
    then show ?thesis using True by (simp add: checkEndPhase_def)
  next
  case succeeds: False
  from callback_ok [OF x] succeeds obtain x1 where x1: "callback x = Inr x1" "cinv x1" by blast
  let ?b1 = "b\<lparr>curThreadIdx := 0, phaseCount := u32_inc (phaseCount b)\<rparr>"
  have ok: "run_list_ok (runList b) (runListSize b) (threadList b)" using wf by (simp add: bar_wf_def)
  have norun: "ts_state (threadList b ! t) \<noteq> B_RUNNING" if "t < MAX_THREADS" for t
    using wf True ok that cnt_pos [of B_RUNNING "threadList b"] run_list_len [OF ok] by (auto simp: bar_wf_def)
  have "threads_ok (runList b) (runListSize b) 0 (threadList b)"
    using wf norun by (simp add: bar_wf_def threads_ok_def thread_ok_def)
  then have wf1: "bar_wf ?b1" using wf True by (simp add: bar_wf_def)
  have "{t. t < MAX_THREADS \<and> ts_state (threadList b ! t) = B_LEFT} \<subseteq> set (take (runListSize b) (runList b))"
  proof
    fix t assume "t \<in> {t. t < MAX_THREADS \<and> ts_state (threadList b ! t) = B_LEFT}"
    then show "t \<in> set (take (runListSize b) (runList b))" by (simp add: run_list_mem [OF ok])
  qed
  then have "card {t. t < MAX_THREADS \<and> ts_state (threadList b ! t) = B_LEFT} \<le> card (set (take (runListSize b) (runList b)))"
    by (intro card_mono) auto
  also have "\<dots> \<le> runListSize b" by (rule order_trans [OF card_length]) simp
  finally have left: "leftThreads b < runListSize b"
    using wf True run_list_len [OF ok] by (simp add: bar_wf_def cnt_card)
  have "\<exists>b2. (if phaseCount b mod 32 = 0 then bar_cleanup ?b1 else Inr ?b1) = Inr b2 \<and> ended b b2 \<and>
      phaseCount b2 = u32_inc (phaseCount b)"
  proof (cases "phaseCount b mod 32 = 0")
    case True
    with bar_cleanup_ok [OF wf1] \<open>_ \<and> _\<close> left obtain b2 where "bar_cleanup ?b1 = Inr b2" "ended ?b1 b2" by auto
    moreover from this(1) have "phaseCount b2 = u32_inc (phaseCount b)" by (auto simp: bar_cleanup_def res_simps)
    ultimately show ?thesis using True by (auto simp: ended_def bst_def)
  next
    case False
    then show ?thesis using wf1 True by (simp add: ended_def bst_def)
  qed
  then obtain b2 where b2: "(if phaseCount b mod 32 = 0 then bar_cleanup ?b1 else Inr ?b1) = Inr b2" "ended b b2"
      "phaseCount b2 = u32_inc (phaseCount b)" by blast
  have ok2: "run_list_ok (runList b2) (runListSize b2) (threadList b2)" and m2: "mt_ok (bar_rnd b2)"
      and th2: "threads_ok (runList b2) (runListSize b2) 0 (threadList b2)"
    using b2(2) by (auto simp: ended_def bar_wf_def)
  show ?thesis
  proof (cases "parallelThreads b2 < runListSize b2")
    case False
    then show ?thesis using True x1 b2 by (simp add: checkEndPhase_def)
  next
    case shuffle: True
    then have par: "parallelThreads b < MAX_THREADS" using ok2 b2(2) by (simp add: ended_def run_list_ok_def)
    from bar_shuffle_ok [OF ok2 _ m2, of "runListSize b2 - 1" fuel] shuffle
    consider "bar_shuffle fuel (runListSize b2 - 1) (runList b2, threadList b2, bar_rnd b2) = Inl OutOfFuel"
      | rl ts m where "bar_shuffle fuel (runListSize b2 - 1) (runList b2, threadList b2, bar_rnd b2) = Inr (rl, ts, m)"
        "run_list_ok rl (runListSize b2) ts" "mt_ok m" "shuffled (runListSize b2) (runList b2) (threadList b2) rl ts"
      by fastforce
    then show ?thesis
    proof cases
      case 1
      then show ?thesis using True x1 b2 shuffle par by (simp add: checkEndPhase_def)
    next
      case 2
      let ?b3 = "b2\<lparr>runList := rl, threadList := ts, bar_rnd := m\<rparr>"
      have "cnt s ts = cnt s (threadList b2)" for s
        using 2(2,4) ok2 by (intro cnt_eqI) (auto simp: run_list_ok_def shuffled_def)
      moreover have "thread_ok rl (runListSize b2) 0 (ts ! t) t" if "t < MAX_THREADS" for t
      proof -
        have "thread_ok (runList b2) (runListSize b2) 0 (threadList b2 ! t) t" using th2 that by (simp add: threads_ok_def)
        then show ?thesis using 2(4) unfolding thread_ok_def shuffled_def by auto
      qed
      ultimately have "ended b ?b3"
        using b2(2) 2 by (simp add: ended_def bar_wf_def threads_ok_def bst_def shuffled_def)
      then show ?thesis using True x1 b2 shuffle 2(1) by (simp add: checkEndPhase_def)
    qed
  qed
  qed
qed

end

subsection \<open>Waking and ending together\<close>

lemma checkRunList_id:
  "runningThreads b = parallelThreads b \<or> curThreadIdx b = runListSize b \<Longrightarrow> checkRunList b = Inr b"
  by (subst checkRunList.simps) auto

text \<open>A thread waits only while another runs.\<close>

definition bar_live :: "Barrier \<Rightarrow> bool" where
  "bar_live b \<longleftrightarrow> (\<forall>t < MAX_THREADS. bst b t = B_WAITING \<longrightarrow> 0 < runningThreads b)"

text \<open>After \<open>tryWakeNext\<close>: some waiting threads of the same phase were woken, or the phase ended because nobody
  ran and every waiting thread had been passed.\<close>

definition woke :: "Barrier \<Rightarrow> Barrier \<Rightarrow> bool" where
  "woke b b' \<longleftrightarrow> bar_wf b' \<and> bar_live b' \<and> parallelThreads b' = parallelThreads b \<and>
     (if phaseCount b' = phaseCount b then woken b b'
      else runningThreads b = 0 \<and> (\<forall>t < MAX_THREADS. bst b t = B_WAITING \<longrightarrow> passed (runList b) 0 (curThreadIdx b) t) \<and>
        (\<exists>b2. ended b b2 \<and> woken b2 b'))"

lemma passed_all: "run_list_ok rl n ts \<Longrightarrow> t < MAX_THREADS \<Longrightarrow> ts_state (ts ! t) \<noteq> B_OFFLINE \<Longrightarrow> passed rl 0 n t"
  using run_list_pos by (auto simp: passed_def)

lemma passed_split: "c \<le> c' \<Longrightarrow> passed rl 0 c' t \<Longrightarrow> passed rl 0 c t \<or> passed rl c c' t"
  unfolding passed_def by (metis not_le)

lemma no_running: "bar_wf b \<Longrightarrow> runningThreads b = 0 \<longleftrightarrow> (\<forall>t < MAX_THREADS. bst b t \<noteq> B_RUNNING)"
  using cnt_pos [of B_RUNNING "threadList b"] run_list_len [of "runList b" "runListSize b" "threadList b"]
  by (auto simp: bar_wf_def bst_def)

lemma all_left: "bar_wf b \<Longrightarrow> leftThreads b = runListSize b \<Longrightarrow> t < MAX_THREADS \<Longrightarrow> bst b t = B_LEFT \<or> bst b t = B_OFFLINE"
proof -
  assume wf: "bar_wf b" and n: "leftThreads b = runListSize b" and t: "t < MAX_THREADS"
  let ?A = "{t. t < MAX_THREADS \<and> ts_state (threadList b ! t) = B_LEFT}" let ?B = "set (take (runListSize b) (runList b))"
  have ok: "run_list_ok (runList b) (runListSize b) (threadList b)" using wf by (simp add: bar_wf_def)
  then have B: "?B = {t. t < MAX_THREADS \<and> ts_state (threadList b ! t) \<noteq> B_OFFLINE}" using run_list_mem by blast
  have "card ?B = runListSize b" using ok distinct_card [of "take (runListSize b) (runList b)"] by (simp add: run_list_ok_def)
  moreover have "card ?A = leftThreads b" using wf run_list_len [OF ok] by (simp add: bar_wf_def cnt_card)
  moreover have "?A \<subseteq> ?B" unfolding B by auto
  ultimately have "?A = ?B" using n by (intro card_subset_eq) auto
  with B t show ?thesis by (auto simp: bst_def)
qed

text \<open>At the end of a run of the loop, nobody waits unless somebody runs.\<close>

lemma loop_live:
  assumes "bar_wf b" "bar_wf b'" "woken b b'" "curThreadIdx b = 0" "0 < parallelThreads b"
    "runningThreads b' = parallelThreads b' \<or> curThreadIdx b' = runListSize b'"
  shows "bar_live b'"
  unfolding bar_live_def
proof (intro allI impI)
  fix t assume t: "t < MAX_THREADS" "bst b' t = B_WAITING"
  show "0 < runningThreads b'"
  proof (cases "curThreadIdx b' = runListSize b'")
    case True
    have "bst b t = B_WAITING" using t(2) assms(3) by (auto simp: woken_def split: if_splits)
    then have "passed (runList b) 0 (runListSize b) t"
      using assms(1) t(1) passed_all [of "runList b" "runListSize b" "threadList b" t] by (simp add: bar_wf_def bst_def)
    then have "bst b' t = B_RUNNING" using assms(3,4) True \<open>bst b t = B_WAITING\<close> by (simp add: woken_def same_list_def)
    with t show ?thesis by simp
  next
    case False
    then show ?thesis using assms(3,5,6) by (simp add: woken_def same_list_def)
  qed
qed

context phase_callee
begin

lemma tryWakeNext_ok:
  assumes wf: "bar_wf b" and x: "cinv x" and par: "0 < parallelThreads b"
  shows "tryWakeNext fuel callback (b, x) = Inl OutOfFuel \<and> (draws \<or> parallelThreads b < MAX_THREADS) \<or>
    (\<exists>b' x'. tryWakeNext fuel callback (b, x) = Inr (b', x') \<and> cinv x' \<and> woke b b')"
proof -
  from checkRunList_ok [OF wf] obtain b1 where b1: "checkRunList b = Inr b1" "bar_wf b1" "woken b b1"
    "runningThreads b1 = parallelThreads b1 \<or> curThreadIdx b1 = runListSize b1" by blast
  have same: "parallelThreads b1 = parallelThreads b" "phaseCount b1 = phaseCount b" "runList b1 = runList b"
      "runListSize b1 = runListSize b" "curThreadIdx b \<le> curThreadIdx b1"
    using b1(3) by (auto simp: woken_def same_list_def)
  show ?thesis
  proof (cases "curThreadIdx b1 = runListSize b1 \<and> runningThreads b1 = 0 \<and> leftThreads b1 \<noteq> runListSize b1")
    case False
    have "bar_live b1"
      unfolding bar_live_def
    proof (intro allI impI)
      fix t assume "t < MAX_THREADS" "bst b1 t = B_WAITING"
      then have "leftThreads b1 \<noteq> runListSize b1" using all_left [OF b1(2)] by fastforce
      then show "0 < runningThreads b1" using False b1(4) par same(1) by auto
    qed
    moreover have "tryWakeNext fuel callback (b, x) = Inr (b1, x)"
      using checkEndPhase_ok [OF b1(2) x, of fuel] False b1(1) checkRunList_id [OF b1(4)] unfolding tryWakeNext_def by simp
    ultimately show ?thesis using b1(2,3) same x by (auto simp: woke_def)
  next
    case True
    have stay: "bst b1 t = bst b t" if "t < MAX_THREADS" for t
    proof -
      have "bst b1 t \<noteq> B_RUNNING" using no_running [OF b1(2)] True that by simp
      then show ?thesis using b1(3) by (simp add: woken_def split: if_splits)
    qed
    have run0: "runningThreads b = 0" using stay no_running [OF wf] no_running [OF b1(2)] True by simp
    have pass: "passed (runList b) 0 (curThreadIdx b) t" if t: "t < MAX_THREADS" "bst b t = B_WAITING" for t
    proof -
      have "passed (runList b) 0 (curThreadIdx b1) t"
        using wf t True same passed_all [of "runList b" "runListSize b" "threadList b" t] by (simp add: bar_wf_def bst_def)
      moreover have "\<not> passed (runList b) (curThreadIdx b) (curThreadIdx b1) t"
        using b1(3) t stay [OF t(1)] by (auto simp: woken_def)
      ultimately show ?thesis using passed_split [OF same(5)] by blast
    qed
    from checkEndPhase_ok [OF b1(2) x, of fuel] True
    consider "checkEndPhase fuel callback (b1, x) = Inl OutOfFuel" "draws \<or> parallelThreads b1 < MAX_THREADS"
      | b2 x2 where "checkEndPhase fuel callback (b1, x) = Inr (b2, x2)" "cinv x2" "ended b1 b2"
          "phaseCount b2 = u32_inc (phaseCount b1)" by auto
    then show ?thesis
    proof cases
      case 1
      then show ?thesis using b1(1) same(1) by (simp add: tryWakeNext_def)
    next
      case 2
      have e: "bar_wf b2" "curThreadIdx b2 = 0" "parallelThreads b2 = parallelThreads b" using 2(3) same by (auto simp: ended_def)
      from checkRunList_ok [OF e(1)] obtain b3 where b3: "checkRunList b2 = Inr b3" "bar_wf b3" "woken b2 b3"
        "runningThreads b3 = parallelThreads b3 \<or> curThreadIdx b3 = runListSize b3" by blast
      have pc: "phaseCount b3 \<noteq> phaseCount b" "parallelThreads b3 = parallelThreads b"
        using 2(4) b3(3) same e(3) by (auto simp: woken_def same_list_def)
      have "bst b1 t = bst b t" for t
      proof (cases "t < MAX_THREADS")
        case False
        have "\<not> passed (runList b) (curThreadIdx b) (curThreadIdx b1) t"
        proof
          assume "passed (runList b) (curThreadIdx b) (curThreadIdx b1) t"
          then obtain i where "i < curThreadIdx b1" "runList b ! i = t" by (auto simp: passed_def)
          with run_list_nth(1) [of "runList b1" "runListSize b1" "threadList b1" i] b1(2) same True False show False
            by (simp add: bar_wf_def)
        qed
        then show ?thesis using b1(3) by (simp add: woken_def)
      qed (rule stay)
      then have "ended b b2" using 2(3) same by (simp add: ended_def)
      moreover have "bar_live b3" using loop_live [OF e(1) b3(2,3) e(2) _ b3(4)] par e(3) by simp
      ultimately have "woke b b3" using run0 pass b3(2,3) pc by (auto simp: woke_def)
      moreover have "tryWakeNext fuel callback (b, x) = Inr (b3, x2)" using b1(1) 2(1) b3(1) by (simp add: tryWakeNext_def)
      ultimately show ?thesis using 2(2) by blast
    qed
  qed
qed

end

subsection \<open>The operations keep the invariant\<close>

lemma retag:
  assumes wf: "bar_wf b" and t: "t < MAX_THREADS" "ts_state (threadList b ! t) \<noteq> B_OFFLINE" "ts_state u \<noteq> B_OFFLINE"
    and u: "thread_ok (runList b) (runListSize b) (curThreadIdx b) u t"
    and n: "l = cnt B_LEFT ((threadList b)[t := u])" "r = cnt B_RUNNING ((threadList b)[t := u])" "r \<le> parallelThreads b"
  shows "bar_wf (b\<lparr>threadList := (threadList b)[t := u], leftThreads := l, runningThreads := r\<rparr>)"
proof -
  have ok: "run_list_ok (runList b) (runListSize b) (threadList b)" using wf by (simp add: bar_wf_def)
  then have "run_list_ok (runList b) (runListSize b) ((threadList b)[t := u])"
    using t run_list_len by (intro run_list_state) auto
  moreover have "threads_ok (runList b) (runListSize b) (curThreadIdx b) ((threadList b)[t := u])"
    using wf t(1) u run_list_len [OF ok] by (intro threads_ok_update) (auto simp: bar_wf_def)
  ultimately show ?thesis using wf n by (simp add: bar_wf_def)
qed

lemma bar_counts: "bar_wf b \<Longrightarrow> leftThreads b \<le> MAX_THREADS \<and> runningThreads b \<le> MAX_THREADS"
  using cnt_le [of B_LEFT "threadList b"] cnt_le [of B_RUNNING "threadList b"] run_list_len [of "runList b" "runListSize b" "threadList b"]
  by (simp add: bar_wf_def)

lemma bar_entry: "bar_wf b \<Longrightarrow> t < MAX_THREADS \<Longrightarrow> t < length (threadList b) \<and>
    thread_ok (runList b) (runListSize b) (curThreadIdx b) (threadList b ! t) t"
  using run_list_len [of "runList b" "runListSize b" "threadList b"] by (simp add: bar_wf_def threads_ok_def)

text \<open>The state an operation of the thread \<open>t\<close> hands to \<open>tryWakeNext\<close>.\<close>

definition handed :: "nat \<Rightarrow> BarState \<Rightarrow> Barrier \<Rightarrow> Barrier \<Rightarrow> bool" where
  "handed t s b b0 \<longleftrightarrow> bar_wf b0 \<and> parallelThreads b0 = parallelThreads b \<and> phaseCount b0 = phaseCount b \<and>
     (\<forall>R. turns_ok R b \<longrightarrow> turns_ok R b0) \<and> (\<forall>v < MAX_THREADS. bst b0 v = (if v = t then s else bst b v))"

lemma handed_retag:
  assumes wf: "bar_wf b" and t: "t < MAX_THREADS" "bst b t = B_RUNNING \<or> bst b t = B_WAITING"
    and b0: "bar_wf b0" "b0 = b\<lparr>threadList := (threadList b)[t := u], leftThreads := l, runningThreads := r\<rparr>"
  shows "handed t (ts_state u) b b0"
proof -
  note e = bar_entry [OF wf t(1)]
  have s: "bst b0 v = (if v = t then ts_state u else bst b v)" for v
    using e by (simp add: b0(2) bst_def)
  have "turns_ok R b0" if "turns_ok R b" for R
    unfolding turns_ok_def
  proof (intro allI impI)
    fix i assume i: "i < curThreadIdx b0" "bst b0 (runList b0 ! i) = B_RUNNING \<or> bst b0 (runList b0 ! i) = B_WAITING"
    then have "bst b (runList b ! i) = B_RUNNING \<or> bst b (runList b ! i) = B_WAITING"
      using t(2) s [of "runList b ! i"] by (auto simp: b0(2) split: if_splits)
    with that i(1) show "runList b0 ! i \<in> R" by (auto simp: turns_ok_def b0(2))
  qed
  with s b0 show ?thesis by (simp add: handed_def)
qed

lemma sync_handed:
  assumes wf: "bar_wf b" and t: "t < MAX_THREADS" "bst b t = B_RUNNING"
  shows "handed t B_WAITING b ((bar_set_waiting t b)\<lparr>runningThreads := u32_dec (runningThreads b)\<rparr>)"
proof -
  let ?u = "(threadList b ! t)\<lparr>ts_state := B_WAITING, ts_futexWord := 1\<rparr>"
  note e = bar_entry [OF wf t(1)]
  have c: "cnt B_RUNNING (threadList b) = Suc (cnt B_RUNNING ((threadList b)[t := ?u]))"
      "cnt B_LEFT ((threadList b)[t := ?u]) = cnt B_LEFT (threadList b)"
    using cnt_update [of t "threadList b" B_RUNNING ?u] cnt_update [of t "threadList b" B_LEFT ?u] e t(2) by (auto simp: bst_def)
  have "runningThreads b = cnt B_RUNNING (threadList b)" "runningThreads b \<le> parallelThreads b" "leftThreads b = cnt B_LEFT (threadList b)"
    using wf by (auto simp: bar_wf_def)
  moreover have "runningThreads b < 2 ^ 32" using bar_counts [OF wf] by (simp add: MAX_THREADS_def)
  ultimately have r: "u32_dec (runningThreads b) = cnt B_RUNNING ((threadList b)[t := ?u])" using c(1) by simp
  let ?b0 = "b\<lparr>threadList := (threadList b)[t := ?u], leftThreads := leftThreads b, runningThreads := u32_dec (runningThreads b)\<rparr>"
  have "bar_wf ?b0"
    using wf t(2) c r e by (intro retag [OF wf t(1)]) (auto simp: bst_def thread_ok_def bar_wf_def)
  from handed_retag [OF wf t(1) _ this refl] t(2) show ?thesis by (simp add: bar_set_waiting_def)
qed

lemma leave_handed:
  assumes wf: "bar_wf b" and t: "t < MAX_THREADS" and run: "bst b t = B_RUNNING \<or>
      bst b t = B_WAITING \<and> placed_at (runList b) (runListSize b) (threadList b ! t) t"
  shows "handed t B_LEFT b ((bar_set_state t B_LEFT b)\<lparr>leftThreads := u32_inc (leftThreads b),
     runningThreads := (if bst b t = B_RUNNING then u32_dec (runningThreads b) else runningThreads b)\<rparr>)"
proof -
  let ?u = "(threadList b ! t)\<lparr>ts_state := B_LEFT\<rparr>"
  note e = bar_entry [OF wf t(1)]
  have c: "cnt B_RUNNING (threadList b) = (if bst b t = B_RUNNING then 1 else 0) + cnt B_RUNNING ((threadList b)[t := ?u])"
      "cnt B_LEFT ((threadList b)[t := ?u]) = Suc (cnt B_LEFT (threadList b))"
    using cnt_update [of t "threadList b" B_RUNNING ?u] cnt_update [of t "threadList b" B_LEFT ?u] e run by (auto simp: bst_def)
  have n: "runningThreads b = cnt B_RUNNING (threadList b)" "runningThreads b \<le> parallelThreads b" "leftThreads b = cnt B_LEFT (threadList b)"
    using wf by (auto simp: bar_wf_def)
  have "runningThreads b < 2 ^ 32" "leftThreads b < 2 ^ 32 - 1" using bar_counts [OF wf] by (simp_all add: MAX_THREADS_def)
  then have r: "(if bst b t = B_RUNNING then u32_dec (runningThreads b) else runningThreads b) = cnt B_RUNNING ((threadList b)[t := ?u])"
      "u32_inc (leftThreads b) = cnt B_LEFT ((threadList b)[t := ?u])" using c n by auto
  have "placed_at (runList b) (runListSize b) ?u t" using run e by (auto simp: thread_ok_def bst_def placed_at_def)
  then have "bar_wf (b\<lparr>threadList := (threadList b)[t := ?u], leftThreads := u32_inc (leftThreads b),
      runningThreads := (if bst b t = B_RUNNING then u32_dec (runningThreads b) else runningThreads b)\<rparr>)"
    using run c n r by (intro retag [OF wf t]) (auto simp: bst_def thread_ok_def)
  from handed_retag [OF wf t _ this refl] run show ?thesis by (auto simp: bar_set_state_def)
qed

lemma placed_at_append: "placed_at rl n u v \<Longrightarrow> placed_at (rl[n := t]) (Suc n) u v"
  by (auto simp: placed_at_def)

text \<open>A thread that joins waits behind the current position.\<close>

lemma join_new_handed:
  assumes wf: "bar_wf b" and t: "t < MAX_THREADS" "bst b t = B_OFFLINE"
    and b0: "b0 = bar_set_waiting t (b\<lparr>runList := (runList b)[runListSize b := t], runListSize := runListSize b + 1\<rparr>)"
  shows "runListSize b < MAX_THREADS \<and> handed t B_WAITING b b0 \<and> \<not> passed (runList b0) 0 (curThreadIdx b0) t"
proof -
  let ?n = "runListSize b" let ?rl = "runList b" let ?ts = "threadList b"
  let ?u = "(?ts ! t)\<lparr>ts_state := B_WAITING, ts_futexWord := 1\<rparr>"
  have ok: "run_list_ok ?rl ?n ?ts" and th: "threads_ok ?rl ?n (curThreadIdx b) ?ts" and cur: "curThreadIdx b \<le> ?n"
    using wf by (auto simp: bar_wf_def)
  note len = run_list_len [OF ok]
  have "0 < cnt B_OFFLINE ?ts" using t len(1) unfolding cnt_pos bst_def by auto
  then have n: "?n < MAX_THREADS" using run_list_size [OF ok] by simp
  have off: "t \<notin> set (take ?n ?rl)" using t(2) by (simp add: run_list_mem [OF ok] bst_def)
  have tk: "take (Suc ?n) (?rl[?n := t]) = take ?n ?rl @ [t]" using n len(2) by (simp add: take_Suc_conv_app_nth)
  have st: "ts_state (?ts[t := ?u] ! v) = (if v = t then B_WAITING else ts_state (?ts ! v))" for v using t(1) len(1) by simp
  have "set (take (Suc ?n) (?rl[?n := t])) = {v. v < MAX_THREADS \<and> ts_state (?ts[t := ?u] ! v) \<noteq> B_OFFLINE}"
    unfolding tk st using t(1) run_list_mem [OF ok] by auto
  then have "run_list_ok (?rl[?n := t]) (Suc ?n) (?ts[t := ?u])"
    using ok off n tk by (simp add: run_list_ok_def)
  moreover have "threads_ok (?rl[?n := t]) (Suc ?n) (curThreadIdx b) (?ts[t := ?u])"
  proof (rule threads_ok_update)
    show "threads_ok (?rl[?n := t]) (Suc ?n) (curThreadIdx b) ?ts"
      using th placed_at_append [of ?rl ?n] unfolding threads_ok_def thread_ok_def by blast
  qed (use t(1) len(1) in \<open>simp_all add: thread_ok_def\<close>)
  moreover have "cnt B_LEFT (?ts[t := ?u]) = cnt B_LEFT ?ts" "cnt B_RUNNING (?ts[t := ?u]) = cnt B_RUNNING ?ts"
    using cnt_update [of t ?ts B_RUNNING ?u] cnt_update [of t ?ts B_LEFT ?u] t len(1) by (auto simp: bst_def)
  ultimately have wf0: "bar_wf b0" using wf cur by (simp add: b0 bar_set_waiting_def bar_wf_def)
  have pos: "runList b0 ! i = ?rl ! i" "?rl ! i \<noteq> t" if "i < curThreadIdx b" for i
  proof -
    show "?rl ! i \<noteq> t" using run_list_nth(2) [OF ok, of i] that cur t(2) by (auto simp: bst_def)
    show "runList b0 ! i = ?rl ! i" using that cur by (simp add: b0 bar_set_waiting_def)
  qed
  have c0: "curThreadIdx b0 = curThreadIdx b" by (simp add: b0 bar_set_waiting_def)
  have s0: "bst b0 v = (if v = t then B_WAITING else bst b v)" for v using st by (simp add: b0 bar_set_waiting_def bst_def)
  have "turns_ok R b0" if "turns_ok R b" for R
    using that pos unfolding turns_ok_def c0 s0 by simp
  moreover have "\<not> passed (runList b0) 0 (curThreadIdx b0) t"
    using pos unfolding passed_def c0 by auto
  ultimately show ?thesis using n wf0 s0 by (simp add: handed_def b0 bar_set_waiting_def)
qed

text \<open>The swap of a thread that ran in this phase with the last one woken.\<close>

lemma reschedule_left:
  "bar_reschedule t (b\<lparr>leftThreads := l\<rparr>) = rbind (bar_reschedule t b) (\<lambda>b1. Inr (b1\<lparr>leftThreads := l\<rparr>))"
  by (simp add: bar_reschedule_def rbind_def check_def Let_def split: sum.splits)

lemma bar_reschedule_ok:
  assumes wf: "bar_wf b" and t: "t < MAX_THREADS" "bst b t = B_LEFT"
  shows "\<exists>b1. bar_reschedule t b = Inr b1 \<and> bar_wf b1 \<and> parallelThreads b1 = parallelThreads b \<and> phaseCount b1 = phaseCount b \<and>
    leftThreads b1 = leftThreads b \<and> (\<forall>v. bst b1 v = bst b v) \<and> (\<forall>R. turns_ok R b \<longrightarrow> turns_ok R b1) \<and>
    \<not> passed (runList b1) 0 (curThreadIdx b1) t"
proof -
  let ?n = "runListSize b" let ?rl = "runList b" let ?ts = "threadList b" let ?last = "ts_lastIdx (?ts ! t)"
  have ok: "run_list_ok ?rl ?n ?ts" and th: "threads_ok ?rl ?n (curThreadIdx b) ?ts" and cur: "curThreadIdx b \<le> ?n"
    using wf by (auto simp: bar_wf_def)
  have pl: "?last < ?n" "?rl ! ?last = t" using bar_entry [OF wf t(1)] t(2) by (auto simp: thread_ok_def bst_def placed_at_def)
  have tlen: "t < length ?ts" using bar_entry [OF wf t(1)] by blast
  show ?thesis
  proof (cases "?last < curThreadIdx b")
    case False
    have "\<not> passed ?rl 0 (curThreadIdx b) t"
    proof
      assume "passed ?rl 0 (curThreadIdx b) t"
      then obtain i where i: "i < curThreadIdx b" "?rl ! i = ?rl ! ?last" using pl(2) by (auto simp: passed_def)
      with run_list_eq [OF ok _ pl(1), of i] cur False show False by simp
    qed
    then show ?thesis using False tlen wf by (simp add: bar_reschedule_def)
  next
    case True
    let ?c = "curThreadIdx b - 1" let ?o = "?rl ! ?c"
    have c: "?c < ?n" "?last \<le> ?c" using True cur by auto
    define rl1 where "rl1 = ?rl[?last := ?o, ?c := t]"
    define ts1 where "ts1 = (?ts[?o := (?ts ! ?o)\<lparr>ts_lastIdx := ?last\<rparr>])[t := (?ts[?o := (?ts ! ?o)\<lparr>ts_lastIdx := ?last\<rparr>] ! t)\<lparr>ts_lastIdx := ?c\<rparr>]"
    have "rl1 = ?rl[?c := ?rl ! ?last, ?last := ?rl ! ?c]"
      using pl(2) by (cases "?last = ?c") (simp_all add: rl1_def list_update_swap)
    then have sw: "run_list_ok rl1 ?n ts1" "shuffled ?n ?rl ?ts rl1 ts1"
      using swap_ok [OF ok c(1) pl(1) refl] pl(2) by (simp_all add: ts1_def)
    note oc = run_list_nth [OF ok c(1)]
    have sw1: "ts_state (ts1 ! v) = ts_state (?ts ! v)" "ts_futexWord (ts1 ! v) = ts_futexWord (?ts ! v)"
        "placed_at ?rl ?n (?ts ! v) v \<Longrightarrow> placed_at rl1 ?n (ts1 ! v) v" for v
      using sw(2) by (auto simp: shuffled_def)
    have len: "length rl1 = length ?rl" "length ts1 = length ?ts" by (simp_all add: rl1_def ts1_def)
    have rl1: "rl1 ! ?c = t" "i < ?c \<Longrightarrow> rl1 ! i = (if i = ?last then ?o else ?rl ! i)" for i
      using c pl(1) run_list_nth(3) [OF ok c(1)] run_list_nth(3) [OF ok pl(1)] by (auto simp: rl1_def nth_list_update)
    have th1: "thread_ok rl1 ?n ?c (ts1 ! v) v" if v: "v < MAX_THREADS" for v
    proof -
      have old: "thread_ok ?rl ?n (curThreadIdx b) (?ts ! v) v" using th v by (simp add: threads_ok_def)
      have "ts_lastIdx (ts1 ! v) < ?c" if r: "ts_state (?ts ! v) = B_RUNNING"
      proof (cases "v = ?o")
        case True
        then have "?last \<noteq> ?c" "v \<noteq> t" using r t(2) pl(2) by (auto simp: bst_def)
        then show ?thesis using True c oc(4) by (simp add: ts1_def)
      next
        case False
        have "v \<noteq> t" using r t(2) by (auto simp: bst_def)
        then have "ts1 ! v = ?ts ! v" using False by (simp add: ts1_def)
        moreover have "ts_lastIdx (?ts ! v) < curThreadIdx b" "?rl ! ts_lastIdx (?ts ! v) = v"
          using old r by (auto simp: thread_ok_def placed_at_def)
        moreover from this(2) False have "ts_lastIdx (?ts ! v) \<noteq> ?c" by auto
        ultimately show ?thesis by simp
      qed
      with old sw1 show ?thesis by (simp add: thread_ok_def)
    qed
    let ?b1 = "b\<lparr>curThreadIdx := ?c, runList := rl1, threadList := ts1\<rparr>"
    have "cnt s ts1 = cnt s ?ts" for s using len(2) sw1(1) by (intro cnt_eqI) auto
    then have "bar_wf ?b1" using wf sw(1) th1 c(1) by (simp add: bar_wf_def threads_ok_def)
    moreover have "bar_reschedule t b = Inr ?b1"
      using True pl c tlen oc by (simp add: bar_reschedule_def rl1_def ts1_def Let_def run_list_nth(3) [OF ok])
    moreover have st: "bst ?b1 v = bst b v" for v using sw1(1) by (simp add: bst_def)
    moreover have "turns_ok R ?b1" if "turns_ok R b" for R
      unfolding turns_ok_def st
    proof (intro allI impI)
      fix i assume i: "i < curThreadIdx ?b1" "bst b (runList ?b1 ! i) = B_RUNNING \<or> bst b (runList ?b1 ! i) = B_WAITING"
      then have "runList ?b1 ! i = ?rl ! (if i = ?last then ?c else i)" using rl1(2) by simp
      moreover have "(if i = ?last then ?c else i) < curThreadIdx b" using i(1) True by auto
      ultimately show "runList ?b1 ! i \<in> R" using that i(2) unfolding turns_ok_def by metis
    qed
    moreover have "\<not> passed rl1 0 ?c t"
    proof
      assume "passed rl1 0 ?c t"
      then obtain i where i: "i < ?c" "rl1 ! i = rl1 ! ?c" using rl1(1) by (auto simp: passed_def)
      with run_list_eq [OF sw(1), of i ?c] c(1) show False by simp
    qed
    ultimately show ?thesis by (intro exI [of _ ?b1]) simp
  qed
qed

lemma join_again_handed:
  assumes wf: "bar_wf b" and t: "t < MAX_THREADS" "bst b t = B_LEFT"
  shows "\<exists>b1. bar_reschedule t (b\<lparr>leftThreads := u32_dec (leftThreads b)\<rparr>) = Inr b1 \<and> handed t B_WAITING b (bar_set_waiting t b1) \<and>
    \<not> passed (runList (bar_set_waiting t b1)) 0 (curThreadIdx (bar_set_waiting t b1)) t"
proof -
  from bar_reschedule_ok [OF wf t] obtain b1 where b1: "bar_reschedule t b = Inr b1" "bar_wf b1"
    "parallelThreads b1 = parallelThreads b" "phaseCount b1 = phaseCount b" "leftThreads b1 = leftThreads b"
    "\<And>v. bst b1 v = bst b v" "\<And>R. turns_ok R b \<Longrightarrow> turns_ok R b1" "\<not> passed (runList b1) 0 (curThreadIdx b1) t" by blast
  let ?ts = "threadList b1" let ?u = "(?ts ! t)\<lparr>ts_state := B_WAITING, ts_futexWord := 1\<rparr>"
  let ?b0 = "bar_set_waiting t (b1\<lparr>leftThreads := u32_dec (leftThreads b)\<rparr>)"
  note e = bar_entry [OF b1(2) t(1)]
  have left: "ts_state (?ts ! t) = B_LEFT" using b1(6) [of t] t(2) by (simp add: bst_def)
  have c: "cnt B_LEFT ?ts = Suc (cnt B_LEFT (?ts[t := ?u]))" "cnt B_RUNNING (?ts[t := ?u]) = cnt B_RUNNING ?ts"
    using cnt_update [of t ?ts B_LEFT ?u] cnt_update [of t ?ts B_RUNNING ?u] e left by simp_all
  have n: "leftThreads b = cnt B_LEFT ?ts" "runningThreads b1 = cnt B_RUNNING ?ts" "runningThreads b1 \<le> parallelThreads b1"
    using b1(2,5) by (auto simp: bar_wf_def)
  have "leftThreads b < 2 ^ 32" using bar_counts [OF wf] by (simp add: MAX_THREADS_def)
  then have d: "u32_dec (leftThreads b) = cnt B_LEFT (?ts[t := ?u])" using c n by simp
  have "bar_wf (b1\<lparr>threadList := ?ts[t := ?u], leftThreads := u32_dec (leftThreads b), runningThreads := runningThreads b1\<rparr>)"
    using n c d left by (intro retag [OF b1(2) t(1)]) (auto simp: thread_ok_def)
  then have wf0: "bar_wf ?b0" by (simp add: bar_set_waiting_def bar_wf_def)
  have s0: "bst ?b0 v = (if v = t then B_WAITING else bst b v)" for v
    using e b1(6) [of v] by (simp add: bar_set_waiting_def bst_def)
  have np: "runList b1 ! i \<noteq> t" if "i < curThreadIdx b1" for i using that b1(8) by (auto simp: passed_def)
  have "turns_ok R ?b0" if "turns_ok R b" for R
    using b1(7) [OF that] np unfolding turns_ok_def s0 b1(6) by (simp add: bar_set_waiting_def)
  then have "handed t B_WAITING b ?b0"
    using wf0 s0 b1(3,4) by (simp add: handed_def) (simp add: bar_set_waiting_def)
  then show ?thesis using b1(1,8) by (simp add: reschedule_left) (simp add: bar_set_waiting_def)
qed

subsection \<open>Programs of joins, leaves and synchronisations\<close>

datatype bar_op = BJoin nat | BLeave nat | BSync nat

fun bar_step :: "nat \<Rightarrow> ('x \<Rightarrow> 'x res) \<Rightarrow> bar_op \<Rightarrow> Barrier \<times> 'x \<Rightarrow> (Barrier \<times> 'x) res" where
  "bar_step fuel callback (BJoin t) = bar_join fuel callback t"
| "bar_step fuel callback (BLeave t) = bar_leave fuel callback t"
| "bar_step fuel callback (BSync t) = bar_sync fuel callback t"

fun bar_tid :: "bar_op \<Rightarrow> nat" where
  "bar_tid (BJoin t) = t"
| "bar_tid (BLeave t) = t"
| "bar_tid (BSync t) = t"

text \<open>When the callers may use them.  A thread that waits leaves only if it has run since it entered the list.\<close>

fun bar_legal :: "bar_op \<Rightarrow> Barrier \<Rightarrow> bool" where
  "bar_legal (BJoin t) b \<longleftrightarrow> t < MAX_THREADS \<and> (bst b t = B_LEFT \<or> bst b t = B_OFFLINE)"
| "bar_legal (BLeave t) b \<longleftrightarrow> t < MAX_THREADS \<and>
     (bst b t = B_RUNNING \<or> bst b t = B_WAITING \<and> placed_at (runList b) (runListSize b) (threadList b ! t) t)"
| "bar_legal (BSync t) b \<longleftrightarrow> t < MAX_THREADS \<and> bst b t = B_RUNNING"

text \<open>The threads that got their turn in the phase, after an operation.\<close>

definition turns :: "Barrier \<Rightarrow> Barrier \<Rightarrow> nat set \<Rightarrow> nat set" where
  "turns b b' seen = (if phaseCount b' = phaseCount b then seen \<union> {t. bst b t \<noteq> B_RUNNING \<and> bst b' t = B_RUNNING}
     else {t. bst b' t = B_RUNNING})"

inductive bar_run :: "nat \<Rightarrow> ('x \<Rightarrow> 'x res) \<Rightarrow> nat \<Rightarrow> 'x \<Rightarrow> Barrier \<Rightarrow> 'x \<Rightarrow> nat set \<Rightarrow> bool" for fuel callback par x0 where
  init: "Barrier_init par junk = Inr b \<Longrightarrow> bar_run fuel callback par x0 b x0 {}"
| step: "bar_run fuel callback par x0 b x seen \<Longrightarrow> bar_legal op b \<Longrightarrow> bar_step fuel callback op (b, x) = Inr (b', x') \<Longrightarrow>
    bar_run fuel callback par x0 b' x' (turns b b' seen)"

definition bar_inv :: "nat \<Rightarrow> nat set \<Rightarrow> Barrier \<Rightarrow> bool" where
  "bar_inv par seen b \<longleftrightarrow> bar_wf b \<and> bar_live b \<and> turns_ok seen b \<and> parallelThreads b = par"

lemma Barrier_init_inv: "Barrier_init par junk = Inr b \<Longrightarrow> bar_inv par {} b"
proof -
  assume b: "Barrier_init par junk = Inr b"
  then obtain m where m: "mt_seed 0xBA77137 = Inr m"
    and b': "b = \<lparr>parallelThreads = par, threadList = map (\<lambda>t. \<lparr>ts_state = B_OFFLINE, ts_futexWord = 0, ts_lastIdx = junk t\<rparr>) [0..<MAX_THREADS],
       runList = replicate MAX_THREADS 0, runListSize = 0, curThreadIdx = 0, runningThreads = 0, leftThreads = 0,
       phaseCount = 0, bar_rnd = m\<rparr>"
    by (auto simp: Barrier_init_def res_simps)
  have "mt_ok m" using m mt_reload_ok [of "\<lparr>mt_state = mt_initialize 0xBA77137, pNext = 0, mt_left = 0\<rparr>"] mt_initialize_ok
    by (auto simp: mt_seed_def)
  then show ?thesis
    by (auto simp: b' bar_inv_def bar_wf_def run_list_ok_def threads_ok_def thread_ok_def bar_live_def turns_ok_def bst_def cnt_def
        filter_empty_conv)
qed

text \<open>What one step does, from the state it hands to \<open>tryWakeNext\<close>.\<close>

lemma turns_woken:
  assumes wf: "bar_wf b0" and w: "woken b0 b'" and R: "turns_ok R b0" and sub: "\<And>t. t < MAX_THREADS \<Longrightarrow> t \<in> R \<or> bst b0 t \<noteq> B_RUNNING \<and> bst b' t = B_RUNNING \<Longrightarrow> t \<in> R'"
    and wf': "bar_wf b'"
  shows "turns_ok R' b'"
  unfolding turns_ok_def
proof (intro allI impI)
  fix i assume i: "i < curThreadIdx b'" "bst b' (runList b' ! i) = B_RUNNING \<or> bst b' (runList b' ! i) = B_WAITING"
  let ?t = "runList b0 ! i"
  have rl: "runList b' = runList b0" "runListSize b' = runListSize b0" using w by (auto simp: woken_def same_list_def)
  have ok: "run_list_ok (runList b0) (runListSize b0) (threadList b0)" using wf by (simp add: bar_wf_def)
  have n: "i < runListSize b0" using i(1) wf' rl by (simp add: bar_wf_def)
  note t = run_list_nth(1) [OF ok n]
  have "?t \<in> R'"
  proof (cases "i < curThreadIdx b0")
    case True
    show ?thesis
    proof (cases "bst b0 ?t = B_RUNNING \<or> bst b0 ?t = B_WAITING")
      case True
      then have "?t \<in> R" using R \<open>i < curThreadIdx b0\<close> by (auto simp: turns_ok_def)
      then show ?thesis using sub [OF t] by blast
    next
      case False
      then show ?thesis using i(2) w rl(1) by (auto simp: woken_def)
    qed
  next
    case False
    then have p: "passed (runList b0) (curThreadIdx b0) (curThreadIdx b') ?t" using i(1) unfolding passed_def by (intro exI [of _ i]) simp
    have "bst b0 ?t \<noteq> B_RUNNING"
    proof
      assume r: "bst b0 ?t = B_RUNNING"
      then have l: "ts_lastIdx (threadList b0 ! ?t) < curThreadIdx b0" "ts_lastIdx (threadList b0 ! ?t) < runListSize b0"
          "runList b0 ! ts_lastIdx (threadList b0 ! ?t) = ?t"
        using bar_entry [OF wf t] by (auto simp: thread_ok_def bst_def placed_at_def)
      with run_list_eq [OF ok l(2) n] False show False by simp
    qed
    moreover have "bst b' ?t = B_RUNNING" using p w i(2) rl(1) calculation by (auto simp: woken_def split: if_splits)
    ultimately show ?thesis using sub [OF t] by blast
  qed
  then show "runList b' ! i \<in> R'" using rl(1) by simp
qed

definition bar_active :: "Barrier \<Rightarrow> nat \<Rightarrow> bool" where
  "bar_active b t \<longleftrightarrow> bst b t = B_WAITING \<or> bst b t = B_RUNNING"

lemma woke_active: "woke b b' \<Longrightarrow> bar_active b' v = bar_active b v"
proof -
  have w: "bar_active b2 v = bar_active b1 v" if "woken b1 b2" for b1 b2
    using that by (auto simp: woken_def bar_active_def)
  have e: "bar_active b2 v = bar_active b1 v" if "ended b1 b2" for b1 b2
  proof -
    have "bst b2 v = bst b1 v \<or> bst b1 v = B_LEFT \<and> bst b2 v = B_OFFLINE" using that by (simp add: ended_def)
    then show ?thesis by (auto simp: bar_active_def)
  qed
  assume "woke b b'"
  then show ?thesis using w e by (auto simp: woke_def split: if_splits)
qed

lemma handed_woke:
  assumes inv: "bar_inv par seen b" and h: "handed t s b b0" and w: "woke b0 b'" and t: "t < MAX_THREADS" "bst b t \<noteq> B_WAITING"
  shows "bar_inv par (turns b b' seen) b' \<and> (phaseCount b' \<noteq> phaseCount b \<longrightarrow> runningThreads b0 = 0 \<and>
    (\<forall>v < MAX_THREADS. bst b v = B_RUNNING \<or> bst b v = B_WAITING \<longrightarrow> v \<in> seen) \<and>
    (s = B_WAITING \<longrightarrow> passed (runList b0) 0 (curThreadIdx b0) t))"
proof -
  have wf: "bar_wf b" "turns_ok seen b" "parallelThreads b = par" using inv by (auto simp: bar_inv_def)
  have h': "bar_wf b0" "parallelThreads b0 = par" "phaseCount b0 = phaseCount b" "turns_ok seen b0"
      "\<And>v. v < MAX_THREADS \<Longrightarrow> bst b0 v = (if v = t then s else bst b v)"
    using h wf by (auto simp: handed_def)
  have w': "bar_wf b'" "bar_live b'" "parallelThreads b' = par" using w h'(2) by (auto simp: woke_def)
  have seen: "v \<in> seen" if v: "v < MAX_THREADS" "bst b v = B_RUNNING" for v
  proof -
    have "ts_lastIdx (threadList b ! v) < curThreadIdx b" "runList b ! ts_lastIdx (threadList b ! v) = v"
      using bar_entry [OF wf(1) v(1)] v(2) by (auto simp: thread_ok_def bst_def placed_at_def)
    with wf(2) v(2) show ?thesis unfolding turns_ok_def by metis
  qed
  show ?thesis
  proof (cases "phaseCount b' = phaseCount b")
    case True
    then have wk: "woken b0 b'" using w h'(3) by (simp add: woke_def)
    have "v \<in> turns b b' seen" if "v < MAX_THREADS" "v \<in> seen \<or> bst b0 v \<noteq> B_RUNNING \<and> bst b' v = B_RUNNING" for v
      using that True seen [OF that(1)] by (auto simp: turns_def)
    from turns_woken [OF h'(1) wk h'(4) this w'(1)] have "turns_ok (turns b b' seen) b'" by blast
    with True w' show ?thesis by (simp add: bar_inv_def)
  next
    case False
    then have r0: "runningThreads b0 = 0"
      and p: "\<And>v. v < MAX_THREADS \<Longrightarrow> bst b0 v = B_WAITING \<Longrightarrow> passed (runList b0) 0 (curThreadIdx b0) v"
      using w h'(3) by (auto simp: woke_def)
    from False w h'(3) obtain b2 where b2: "ended b0 b2" "woken b2 b'" by (auto simp: woke_def)
    have "turns_ok {} b2" using b2(1) by (simp add: turns_ok_def ended_def)
    moreover have "bar_wf b2" using b2(1) by (simp add: ended_def)
    moreover have "v \<in> turns b b' seen" if "v \<in> {} \<or> bst b2 v \<noteq> B_RUNNING \<and> bst b' v = B_RUNNING" for v
      using that False by (simp add: turns_def)
    ultimately have "turns_ok (turns b b' seen) b'" using turns_woken [OF _ b2(2) _ _ w'(1)] by blast
    moreover have "v \<in> seen" if v: "v < MAX_THREADS" "bst b v = B_RUNNING \<or> bst b v = B_WAITING" for v
    proof (cases "bst b0 v = B_WAITING")
      case True
      then obtain i where "i < curThreadIdx b0" "runList b0 ! i = v" using p [OF v(1)] by (auto simp: passed_def)
      with h'(4) True show ?thesis unfolding turns_ok_def by metis
    next
      case False
      moreover have "bst b0 v \<noteq> B_RUNNING" using r0 no_running [OF h'(1)] v(1) by simp
      ultimately have "v = t" using h'(5) [OF v(1)] v(2) by (auto split: if_splits)
      then show ?thesis using t(2) v(2) seen [OF v(1)] by simp
    qed
    ultimately show ?thesis using w' r0 p [OF t(1)] h'(5) [OF t(1)] by (simp add: bar_inv_def)
  qed
qed

context phase_callee
begin

lemma handed_step:
  assumes inv: "bar_inv par seen b" and x: "cinv x" and par: "0 < par" and t: "t < MAX_THREADS" "bst b t \<noteq> B_WAITING"
    and h: "handed t s b b0" "s = B_WAITING \<and> join \<longrightarrow> \<not> passed (runList b0) 0 (curThreadIdx b0) t"
  shows "tryWakeNext fuel callback (b0, x) = Inl OutOfFuel \<and> (draws \<or> par < MAX_THREADS) \<or>
    (\<exists>b' x'. tryWakeNext fuel callback (b0, x) = Inr (b', x') \<and> cinv x' \<and> bar_inv par (turns b b' seen) b' \<and>
      (phaseCount b' \<noteq> phaseCount b \<longrightarrow> (\<forall>v < MAX_THREADS. bst b v = B_RUNNING \<or> bst b v = B_WAITING \<longrightarrow> v \<in> seen) \<and>
         \<not> (s = B_WAITING \<and> join)) \<and>
      (\<forall>v < MAX_THREADS. bar_active b' v = (if v = t then s = B_WAITING \<or> s = B_RUNNING else bar_active b v)))"
proof -
  have act: "bar_active b0 v = (if v = t then s = B_WAITING \<or> s = B_RUNNING else bar_active b v)" if "v < MAX_THREADS" for v
    using h(1) that by (simp add: handed_def bar_active_def)
  have "bar_wf b0" "parallelThreads b0 = par" using h(1) inv by (auto simp: handed_def bar_inv_def)
  with tryWakeNext_ok [of b0 x fuel] x par
  consider "tryWakeNext fuel callback (b0, x) = Inl OutOfFuel" "draws \<or> par < MAX_THREADS"
    | b' x' where "tryWakeNext fuel callback (b0, x) = Inr (b', x')" "cinv x'" "woke b0 b'" by auto
  then show ?thesis
  proof cases
    case 2
    have "\<forall>v < MAX_THREADS. bar_active b' v = (if v = t then s = B_WAITING \<or> s = B_RUNNING else bar_active b v)"
      using act woke_active [OF 2(3)] by simp
    with handed_woke [OF inv h(1) 2(3) t] h(2) 2(1,2) show ?thesis by blast
  qed simp
qed

lemma bar_step_ok:
  assumes inv: "bar_inv par seen b" and x: "cinv x" and par: "0 < par" and op: "bar_legal op b"
  shows "bar_step fuel callback op (b, x) = Inl OutOfFuel \<and> (draws \<or> par < MAX_THREADS) \<or>
    (\<exists>b' x'. bar_step fuel callback op (b, x) = Inr (b', x') \<and> cinv x' \<and> bar_inv par (turns b b' seen) b' \<and>
      (phaseCount b' \<noteq> phaseCount b \<longrightarrow> (\<forall>t < MAX_THREADS. bst b t = B_RUNNING \<or> bst b t = B_WAITING \<longrightarrow> t \<in> seen) \<and>
         (\<forall>t. op \<noteq> BJoin t)) \<and>
      (\<forall>v < MAX_THREADS. bar_active b' v = (if v = bar_tid op then op \<noteq> BLeave v else bar_active b v)))"
proof -
  have wf: "bar_wf b" "bar_live b" "turns_ok seen b" "parallelThreads b = par" using inv by (auto simp: bar_inv_def)
  show ?thesis
  proof (cases op)
    case (BJoin t)
    then have t: "t < MAX_THREADS" "bst b t = B_LEFT \<or> bst b t = B_OFFLINE" using op by auto
    note e = bar_entry [OF wf(1) t(1)] 
    obtain b1 where b1: "(if bst b t = B_OFFLINE
          then rbind (aput (runList b) (runListSize b) t) (\<lambda>rl. Inr (b\<lparr>runList := rl, runListSize := runListSize b + 1\<rparr>))
          else bar_reschedule t (b\<lparr>leftThreads := u32_dec (leftThreads b)\<rparr>)) = Inr b1"
        "handed t B_WAITING b (bar_set_waiting t b1)"
        "\<not> passed (runList (bar_set_waiting t b1)) 0 (curThreadIdx (bar_set_waiting t b1)) t"
    proof (cases "bst b t = B_OFFLINE")
      case True
      have "length (runList b) = MAX_THREADS" using wf(1) by (simp add: bar_wf_def run_list_ok_def)
      with True join_new_handed [OF wf(1) t(1) True refl] that show ?thesis by simp
    next
      case False
      with t join_again_handed [OF wf(1) t(1)] that show ?thesis by auto
    qed
    have "bar_join fuel callback t (b, x) = tryWakeNext fuel callback (bar_set_waiting t b1, x)"
      using e t(2) b1(1) by (auto simp: bar_join_def bst_def)
    with handed_step [OF inv x par t(1) _ b1(2), of True fuel] t(2) b1(3) BJoin show ?thesis by auto
  next
    case (BSync t)
    then have t: "t < MAX_THREADS" "bst b t = B_RUNNING" using op by auto
    have "bar_sync fuel callback t (b, x) =
        tryWakeNext fuel callback ((bar_set_waiting t b)\<lparr>runningThreads := u32_dec (runningThreads b)\<rparr>, x)"
      using bar_entry [OF wf(1) t(1)] t(2) by (simp add: bar_sync_def bst_def)
    with handed_step [OF inv x par t(1) _ sync_handed [OF wf(1) t], of False fuel] t(2) BSync show ?thesis by auto
  next
    case (BLeave t)
    then have t: "t < MAX_THREADS" "bst b t = B_RUNNING \<or>
      bst b t = B_WAITING \<and> placed_at (runList b) (runListSize b) (threadList b ! t) t" using op by auto
    note h = leave_handed [OF wf(1) t]
    show ?thesis
    proof (cases "bst b t = B_RUNNING")
      case True
      then have "bar_leave fuel callback t (b, x) = tryWakeNext fuel callback
          ((bar_set_state t B_LEFT b)\<lparr>leftThreads := u32_inc (leftThreads b), runningThreads := u32_dec (runningThreads b)\<rparr>, x)"
        using bar_entry [OF wf(1) t(1)] by (simp add: bar_leave_def bst_def)
      with handed_step [OF inv x par t(1) _ h, of False fuel] True BLeave show ?thesis by auto
    next
      case False
      let ?b = "(bar_set_state t B_LEFT b)\<lparr>leftThreads := u32_inc (leftThreads b)\<rparr>"
      have r: "bar_leave fuel callback t (b, x) = Inr (?b, x)"
        using bar_entry [OF wf(1) t(1)] t(2) False by (auto simp: bar_leave_def bst_def)
      have h': "handed t B_LEFT b ?b" using h False by (simp add: bar_set_state_def)
      have same: "runningThreads ?b = runningThreads b" "phaseCount ?b = phaseCount b" by (simp_all add: bar_set_state_def)
      have "bar_live ?b"
        unfolding bar_live_def
      proof (intro allI impI)
        fix v assume v: "v < MAX_THREADS" "bst ?b v = B_WAITING"
        then have "bst b v = B_WAITING" using h' by (auto simp: handed_def split: if_splits)
        then show "0 < runningThreads ?b" using wf(2) v(1) same(1) by (auto simp: bar_live_def)
      qed
      moreover have "turns_ok (turns b ?b seen) ?b"
        using h' wf(3) same(2) by (auto simp: handed_def turns_def turns_ok_def)
      ultimately have "bar_inv par (turns b ?b seen) ?b" using h' wf(4) by (simp add: bar_inv_def handed_def)
      moreover have "\<forall>v < MAX_THREADS. bar_active ?b v = (if v = t then False else bar_active b v)"
        using h' by (simp add: handed_def bar_active_def)
      ultimately show ?thesis using r x same(2) BLeave by auto
    qed
  qed
qed

lemma bar_run_inv:
  "bar_run fuel callback par x0 b x seen \<Longrightarrow> 0 < par \<Longrightarrow> cinv x0 \<Longrightarrow> bar_inv par seen b \<and> cinv x"
proof (induction rule: bar_run.induct)
  case (init junk b)
  then show ?case using Barrier_init_inv by blast
next
  case (step b x seen op b' x')
  then show ?case using bar_step_ok [of par seen b x op fuel] by auto
qed

end

text \<open>C35. The barrier is safe and live for any number of cores and any bound on the parallelism, when cores join only from
  outside, synchronise only while they run, and leave while they run or while they wait for their next turn: no operation fails (the random draw of the
  shuffle aside), at most \<open>parallelThreads\<close> cores run, a core waits only while another runs, so some operation is
  still to come that wakes it, and a core that leaves its system call finds itself running, as it asserts.\<close>

theorem barrier_safe:
  assumes "\<And>x. cinv x \<Longrightarrow> \<exists>x'. callback x = Inr x' \<and> cinv x'" and "0 < par" and "cinv x0"
    and "bar_run fuel callback par x0 b x seen"
  shows "(\<forall>op. bar_legal op b \<longrightarrow> (\<exists>r. bar_step fuel callback op (b, x) = Inr r) \<or>
      bar_step fuel callback op (b, x) = Inl OutOfFuel \<and> par < MAX_THREADS) \<and>
    card {t. t < MAX_THREADS \<and> bst b t = B_RUNNING} \<le> par \<and>
    (\<forall>t < MAX_THREADS. bst b t = B_WAITING \<longrightarrow> (\<exists>u < MAX_THREADS. bst b u = B_RUNNING)) \<and>
    (\<forall>t < MAX_THREADS. bst b t = B_WAITING \<or> bst b t = B_RUNNING \<longrightarrow> bar_resume t b = Inr (bst b t = B_RUNNING))"
proof -
  have pc: "phase_callee callback cinv False" by (rule phase_callee.intro) (use assms(1) in blast)
  note inv = phase_callee.bar_run_inv [OF pc assms(4,2,3)]
  then have wf: "bar_wf b" and live: "bar_live b" and par: "parallelThreads b = par" by (auto simp: bar_inv_def)
  have ops: "(\<exists>r. bar_step fuel callback op (b, x) = Inr r) \<or> bar_step fuel callback op (b, x) = Inl OutOfFuel \<and> par < MAX_THREADS"
    if "bar_legal op b" for op
    using phase_callee.bar_step_ok [OF pc _ _ assms(2) that, of seen x fuel] inv by auto
  have "runningThreads b = card {t. t < MAX_THREADS \<and> bst b t = B_RUNNING}" "runningThreads b \<le> par"
    using wf par run_list_len [of "runList b" "runListSize b" "threadList b"] by (simp_all add: bar_wf_def cnt_card bst_def)
  moreover have "\<exists>u < MAX_THREADS. bst b u = B_RUNNING" if "t < MAX_THREADS" "bst b t = B_WAITING" for t
    using live that no_running [OF wf] by (auto simp: bar_live_def)
  moreover have "bar_resume t b = Inr (bst b t = B_RUNNING)" if "t < MAX_THREADS" "bst b t = B_WAITING \<or> bst b t = B_RUNNING" for t
    using bar_entry [OF wf that(1)] that(2) by (auto simp: bar_resume_def thread_ok_def bst_def)
  ultimately show ?thesis using ops by simp
qed

text \<open>C36. A phase of the barrier ends only when every core in it had its turn: when an operation ends the phase, each core that runs or
  waits at that moment was woken since the phase began.  A join never ends a phase.\<close>

theorem barrier_phase_complete:
  assumes "\<And>x. cinv x \<Longrightarrow> \<exists>x'. callback x = Inr x' \<and> cinv x'" and "0 < par" and "cinv x0"
    and "bar_run fuel callback par x0 b x seen" and "bar_legal op b"
    and "bar_step fuel callback op (b, x) = Inr (b', x')" and "phaseCount b' \<noteq> phaseCount b"
  shows "(\<forall>t < MAX_THREADS. bst b t = B_RUNNING \<or> bst b t = B_WAITING \<longrightarrow> t \<in> seen) \<and> (\<forall>t. op \<noteq> BJoin t)"
proof -
  have pc: "phase_callee callback cinv False" by (rule phase_callee.intro) (use assms(1) in blast)
  note inv = phase_callee.bar_run_inv [OF pc assms(4,2,3)]
  from phase_callee.bar_step_ok [OF pc _ _ assms(2,5), of seen x fuel] inv assms(6,7) show ?thesis by auto
qed

subsection \<open>Concrete barriers\<close>

lemma few_threads: "0 < MAX_THREADS" "Suc 0 < MAX_THREADS" by (simp_all add: MAX_THREADS_def)

text \<open>A fresh barrier.\<close>

definition bar0 :: "nat \<Rightarrow> MTRand \<Rightarrow> Barrier" where
  "bar0 par m = \<lparr>parallelThreads = par, threadList = replicate MAX_THREADS \<lparr>ts_state = B_OFFLINE, ts_futexWord = 0, ts_lastIdx = 0\<rparr>,
     runList = replicate MAX_THREADS 0, runListSize = 0, curThreadIdx = 0, runningThreads = 0, leftThreads = 0,
     phaseCount = 0, bar_rnd = m\<rparr>"

lemma bar0_init: "\<exists>m. Barrier_init par (\<lambda>_. 0) = Inr (bar0 par m)"
  using mt_reload_ok [of "\<lparr>mt_state = mt_initialize 0xBA77137, pNext = 0, mt_left = 0\<rparr>"] mt_initialize_ok
  by (auto simp: Barrier_init_def bar0_def mt_seed_def map_replicate_const)

lemmas bar_eval = bar_join_def bar_leave_def bar_sync_def tryWakeNext_def checkEndPhase_def wake_next_def bar_set_waiting_def
  bar_set_state_def bar_reschedule_def bar_cleanup_def offline_left.simps checkRunList.simps bar0_def few_threads Let_def

lemma bar0_run: "\<exists>m. bar_run fuel callback par x0 (bar0 par m) x0 {}"
proof -
  obtain m where "Barrier_init par (\<lambda>_. 0) = Inr (bar0 par m)" using bar0_init by blast
  then show ?thesis by (intro exI) (rule bar_run.init)
qed

theorem barrier_safe_witness:
  "\<exists>b. bar_run 0 Inr MAX_THREADS () b () {} \<and> (\<exists>r. bar_step 0 Inr (BJoin 0) (b, ()) = Inr r)"
proof -
  obtain m where m: "bar_run 0 Inr MAX_THREADS () (bar0 MAX_THREADS m) () {}" using bar0_run [of 0 Inr MAX_THREADS "()"] by blast
  have l: "bar_legal (BJoin 0) (bar0 MAX_THREADS m)" by (simp add: bar0_def bst_def few_threads)
  have "\<forall>op. bar_legal op (bar0 MAX_THREADS m) \<longrightarrow> (\<exists>r. bar_step 0 Inr op (bar0 MAX_THREADS m, ()) = Inr r) \<or>
      bar_step 0 Inr op (bar0 MAX_THREADS m, ()) = Inl OutOfFuel \<and> MAX_THREADS < MAX_THREADS"
    by (rule barrier_safe [of "\<lambda>_. True" Inr MAX_THREADS "()" 0 _ "()", OF _ _ _ m, THEN conjunct1]) (simp_all add: few_threads)
  with l have "\<exists>r. bar_step 0 Inr (BJoin 0) (bar0 MAX_THREADS m, ()) = Inr r" by blast
  with m show ?thesis by blast
qed

text \<open>One core joins and synchronises: the phase ends, and the core was in it.\<close>

theorem barrier_phase_complete_witness:
  "\<exists>b seen b'. bar_step 0 (\<lambda>n. Inr (Suc n)) (BSync 0) (b, 0) = Inr (b', 1) \<and> bst b 0 = B_RUNNING \<and> (0 :: nat) \<in> seen \<and>
    bar_run 0 (\<lambda>n. Inr (Suc n)) 1 0 b 0 seen"
proof -
  let ?cb = "\<lambda>n. Inr (Suc n) :: nat res"
  obtain m where m: "bar_run 0 ?cb 1 0 (bar0 1 m) 0 {}" using bar0_run [of 0 ?cb 1 0] by blast
  obtain b where b: "bar_step 0 ?cb (BJoin 0) (bar0 1 m, 0) = Inr (b, 0)" "bst b 0 = B_RUNNING"
      "\<exists>b'. bar_step 0 ?cb (BSync 0) (b, 0) = Inr (b', 1) \<and> phaseCount b' \<noteq> phaseCount b"
    by (simp add: bar_eval bst_def)
  from bar_run.step [OF m _ b(1)] obtain seen where r: "bar_run 0 ?cb 1 0 b 0 seen"
    by (auto simp: few_threads bar0_def bst_def)
  have "bar_legal (BSync 0) b" using b(2) by (simp add: few_threads)
  with barrier_phase_complete [of "\<lambda>_. True" ?cb 1 0 0 b 0 seen "BSync 0"] r b(2,3) few_threads(1) show ?thesis by fastforce
qed

text \<open>C37. A core that joins, waits without ever having run, leaves, and joins again stops the simulation: its last index was never set, and
  the assertion that it points at the core fails.  Here the index is 0, where another core stands.\<close>

theorem barrier_stale_index:
  "\<exists>m. Barrier_init 1 (\<lambda>_. 0) = Inr (bar0 1 m) \<and>
    mfold (bar_step fuel Inr) [BJoin 0, BJoin 1, BLeave 1, BJoin 1] (bar0 1 m, ()) = Inl AssertFailed"
proof -
  obtain m where "Barrier_init 1 (\<lambda>_. 0) = Inr (bar0 1 m)" using bar0_init by blast
  moreover have "mfold (bar_step fuel Inr) [BJoin 0, BJoin 1, BLeave 1, BJoin 1] (bar0 1 m, ()) = Inl AssertFailed"
    by (simp add: bar_eval)
  ultimately show ?thesis by blast
qed

end
