(* ===== verification/Sched.thy ===== *)
theory Sched
  imports Barrier
begin

text \<open>
  The thread scheduler (scheduler.h, scheduler.cpp): it maps threads to contexts (one per core) through a run queue
  with affinity masks, lets a thread that leaves for a system call keep its context until another needs it, puts
  threads to sleep for a number of phases, and hands contexts over at the end of a quantum.

  The scheduler's lock makes every critical section one step; an operation that blocks is split where it waits
  (\<open>sched_sync\<close> and \<open>sync_handoff\<close>, \<open>waitForContext\<close> and \<open>wait_done\<close>).  Threads are heap objects: \<open>threads\<close> is the heap
  and \<open>gidMap\<close> the table from global ids.  A context is its core number.  The queues are lists of threads, as the
  intrusive lists implement them (\<open>InList\<close>): an insertion checks that the element is in no list, a removal that it is in this one.  The cores'
  methods and the actions at the end of a phase are functions on the rest of the simulator's state, in the record \<open>core_ops\<close>.
  The watchdog, which polls wall-clock time and \<open>/proc\<close>, the clean-up of killed processes it runs, and the counters are not modelled.
\<close>

datatype ThreadState = T_STARTED | T_RUNNING | T_OUT | T_BLOCKED | T_SLEEPING | T_QUEUED

datatype ContextState = C_IDLE | C_USED

datatype FutexJoinAction = FJA_NONE | FJA_WAKE | FJA_WAIT

record FutexJoinInfo =
  fj_action :: FutexJoinAction
  fj_maxWakes :: u32
  fj_wokenUp :: u32

record ThreadInfo =
  th_gid :: u32
  th_state :: ThreadState
  th_cid :: nat
  handoffThread :: "nat option"
  th_futexWord :: nat
  needsJoin :: bool
  markedForSleep :: bool
  wakeupPhase :: nat
  th_mask :: "bool list"
  fakeLeave :: "u64 option"
  futexJoin :: FutexJoinInfo

record ContextInfo =
  ctx_state :: ContextState
  curThread :: "nat option"

record 'x Scheduler =
  numCores :: nat
  schedQuantum :: nat
  threads :: "nat \<Rightarrow> ThreadInfo option"
  gidMap :: "u32 \<Rightarrow> nat option"
  contexts :: "ContextInfo list"
  freeList :: "nat list"
  runQueue :: "nat list"
  outQueue :: "nat list"
  sleepQueue :: "nat list"
  curPhase :: nat
  sch_rnd :: MTRand
  scheduledThreads :: nat
  blockingSyscalls :: "u64 set list"
  fakeLeaves :: "nat list"
  maxAllowedFutexWakeups :: u32
  unmatchedFutexWakeups :: u32
  numPhases :: nat
  globPhaseCycles :: nat
  sch_phaseLength :: nat
  machine :: 'x

record 'x core_ops =
  core_join :: "nat \<Rightarrow> 'x \<Rightarrow> 'x"
  core_leave :: "nat \<Rightarrow> 'x \<Rightarrow> 'x"
  core_contextSwitch :: "nat \<Rightarrow> u32 \<Rightarrow> 'x \<Rightarrow> 'x"
  atSyncFunc :: "'x \<Rightarrow> 'x"

definition getGid :: "u32 \<Rightarrow> u32 \<Rightarrow> u32" where "getGid pid tid = (push_bit 16 pid OR tid)"
definition getPid :: "u32 \<Rightarrow> u32" where "getPid gid = drop_bit 16 gid"
definition getTid :: "u32 \<Rightarrow> u32" where "getTid gid = (gid AND 0x0FFFF)"

definition get_th :: "nat \<Rightarrow> 'x Scheduler \<Rightarrow> ThreadInfo res" where
  "get_th a s = deref (threads s a)"

definition set_th :: "nat \<Rightarrow> ThreadInfo \<Rightarrow> 'x Scheduler \<Rightarrow> 'x Scheduler" where
  "set_th a t s = s\<lparr>threads := (threads s)(a \<mapsto> t)\<rparr>"

definition upd_th :: "nat \<Rightarrow> (ThreadInfo \<Rightarrow> ThreadInfo) \<Rightarrow> 'x Scheduler \<Rightarrow> 'x Scheduler res" where
  "upd_th a f s = rbind (get_th a s) (\<lambda>t. Inr (set_th a (f t) s))"

definition find_th :: "u32 \<Rightarrow> 'x Scheduler \<Rightarrow> nat res" where
  "find_th gid s = deref (gidMap s gid)"

text \<open>The constructors of a thread and of the scheduler; the address of a new thread is one that is not in use.\<close>

definition ThreadInfo_init :: "u32 \<Rightarrow> bool list \<Rightarrow> nat \<Rightarrow> bool \<Rightarrow> ThreadInfo res" where
  "ThreadInfo_init gid msk cores junk =
     check (length msk = cores) AssertFailed (check (True \<in> set msk) Panicked
       (Inr \<lparr>th_gid = gid, th_state = T_STARTED, th_cid = 0, handoffThread = None, th_futexWord = 0, needsJoin = junk,
          markedForSleep = False, wakeupPhase = 0, th_mask = msk, fakeLeave = None,
          futexJoin = \<lparr>fj_action = FJA_NONE, fj_maxWakes = 0, fj_wokenUp = 0\<rparr>\<rparr>))"

definition Scheduler_init :: "nat \<Rightarrow> nat \<Rightarrow> nat \<Rightarrow> 'x \<Rightarrow> 'x Scheduler res" where
  "Scheduler_init cores quantum phLen x = rbind (mt_seed 0x5C73D9134) (\<lambda>m. Inr
     \<lparr>numCores = cores, schedQuantum = quantum, threads = Map.empty, gidMap = Map.empty,
      contexts = replicate cores \<lparr>ctx_state = C_IDLE, curThread = None\<rparr>, freeList = [0..<cores], runQueue = [],
      outQueue = [], sleepQueue = [], curPhase = 0, sch_rnd = m, scheduledThreads = 0,
      blockingSyscalls = replicate MAX_THREADS {}, fakeLeaves = [], maxAllowedFutexWakeups = 0, unmatchedFutexWakeups = 0,
      numPhases = 0, globPhaseCycles = 0, sch_phaseLength = phLen, machine = x\<rparr>)"

subsection \<open>Queues\<close>

definition no_owner :: "nat \<Rightarrow> 'x Scheduler \<Rightarrow> bool" where
  "no_owner a s \<longleftrightarrow> a \<notin> set (runQueue s) \<and> a \<notin> set (outQueue s) \<and> a \<notin> set (sleepQueue s)"

definition runQueue_push :: "nat \<Rightarrow> 'x Scheduler \<Rightarrow> 'x Scheduler res" where
  "runQueue_push a s = check (no_owner a s) AssertFailed (Inr (s\<lparr>runQueue := runQueue s @ [a]\<rparr>))"

definition runQueue_remove :: "nat \<Rightarrow> 'x Scheduler \<Rightarrow> 'x Scheduler res" where
  "runQueue_remove a s = check (a \<in> set (runQueue s)) AssertFailed (Inr (s\<lparr>runQueue := remove1 a (runQueue s)\<rparr>))"

definition outQueue_push :: "nat \<Rightarrow> 'x Scheduler \<Rightarrow> 'x Scheduler res" where
  "outQueue_push a s = check (no_owner a s) AssertFailed (Inr (s\<lparr>outQueue := outQueue s @ [a]\<rparr>))"

definition outQueue_remove :: "nat \<Rightarrow> 'x Scheduler \<Rightarrow> 'x Scheduler res" where
  "outQueue_remove a s = check (a \<in> set (outQueue s)) AssertFailed (Inr (s\<lparr>outQueue := remove1 a (outQueue s)\<rparr>))"

definition sleepQueue_remove :: "nat \<Rightarrow> 'x Scheduler \<Rightarrow> 'x Scheduler res" where
  "sleepQueue_remove a s = check (a \<in> set (sleepQueue s)) AssertFailed (Inr (s\<lparr>sleepQueue := remove1 a (sleepQueue s)\<rparr>))"

definition freeList_push :: "nat \<Rightarrow> 'x Scheduler \<Rightarrow> 'x Scheduler res" where
  "freeList_push c s = check (c \<notin> set (freeList s)) AssertFailed (Inr (s\<lparr>freeList := freeList s @ [c]\<rparr>))"

definition freeList_remove :: "nat \<Rightarrow> 'x Scheduler \<Rightarrow> 'x Scheduler res" where
  "freeList_remove c s = check (c \<in> set (freeList s)) AssertFailed (Inr (s\<lparr>freeList := remove1 c (freeList s)\<rparr>))"

text \<open>The ordered insertion into the sleep queue: before the first thread that wakes up later, but never
  before the front when the front does not.\<close>

fun sleep_after :: "nat \<Rightarrow> nat \<Rightarrow> nat list \<Rightarrow> 'x Scheduler \<Rightarrow> nat list res" where
  "sleep_after a w [] s = Inr [a]"
| "sleep_after a w (b # q) s = rbind (get_th b s) (\<lambda>u.
     if wakeupPhase u \<le> w then rbind (sleep_after a w q s) (\<lambda>r. Inr (b # r)) else Inr (a # b # q))"

definition sleepQueue_insert :: "nat \<Rightarrow> nat \<Rightarrow> 'x Scheduler \<Rightarrow> 'x Scheduler res" where
  "sleepQueue_insert a w s = check (no_owner a s) AssertFailed
     (rbind (sleep_after a w (sleepQueue s) s) (\<lambda>q. Inr (s\<lparr>sleepQueue := q\<rparr>)))"

subsection \<open>Threads and contexts\<close>

definition schedule :: "'x core_ops \<Rightarrow> nat \<Rightarrow> nat \<Rightarrow> 'x Scheduler \<Rightarrow> 'x Scheduler res" where
  "schedule co a c s =
     rbind (get_th a s) (\<lambda>t. check (th_state t = T_STARTED \<or> th_state t = T_BLOCKED \<or> th_state t = T_QUEUED) AssertFailed
      (rbind (aget (contexts s) c) (\<lambda>x. check (ctx_state x = C_IDLE) AssertFailed (check (curThread x = None) AssertFailed
        (Inr ((set_th a (t\<lparr>th_state := T_RUNNING, th_cid := c\<rparr>) s)
          \<lparr>contexts := (contexts s)[c := x\<lparr>ctx_state := C_USED, curThread := Some a\<rparr>],
           scheduledThreads := scheduledThreads s + 1, machine := core_contextSwitch co c (th_gid t) (machine s)\<rparr>))))))"

definition deschedule :: "'x core_ops \<Rightarrow> nat \<Rightarrow> nat \<Rightarrow> ThreadState \<Rightarrow> 'x Scheduler \<Rightarrow> 'x Scheduler res" where
  "deschedule co a c target s =
     rbind (get_th a s) (\<lambda>t. check (th_state t = T_RUNNING \<or> th_state t = T_OUT) AssertFailed
      (rbind (aget (contexts s) c) (\<lambda>x. check (ctx_state x = C_USED) AssertFailed (check (c = th_cid t) AssertFailed
       (check (curThread x = Some a) AssertFailed
        (check (target = T_BLOCKED \<or> target = T_QUEUED \<or> target = T_SLEEPING) AssertFailed
        (Inr ((set_th a (t\<lparr>th_state := target\<rparr>) s)
          \<lparr>contexts := (contexts s)[c := x\<lparr>ctx_state := C_IDLE, curThread := None\<rparr>],
           scheduledThreads := scheduledThreads s - 1, machine := core_contextSwitch co c (- 1) (machine s)\<rparr>))))))))"

definition wakeup :: "nat \<Rightarrow> bool \<Rightarrow> 'x Scheduler \<Rightarrow> 'x Scheduler res" where
  "wakeup a nj s = rbind (get_th a s) (\<lambda>t. check (th_futexWord t = 1) Panicked
     (Inr (set_th a (t\<lparr>needsJoin := nj, th_futexWord := 0\<rparr>) s)))"

subsection \<open>The policy\<close>

text \<open>The first context of a list that a mask allows, and the first thread of a list that may use a context or whose context is allowed.\<close>

fun first_allowed :: "bool list \<Rightarrow> nat list \<Rightarrow> nat option res" where
  "first_allowed msk [] = Inr None"
| "first_allowed msk (c # cs) = rbind (aget msk c) (\<lambda>m. if m then Inr (Some c) else first_allowed msk cs)"

fun first_using :: "nat \<Rightarrow> 'x Scheduler \<Rightarrow> nat list \<Rightarrow> nat option res" where
  "first_using c s [] = Inr None"
| "first_using c s (a # q) = rbind (get_th a s) (\<lambda>t. rbind (aget (th_mask t) c) (\<lambda>m.
     if m then Inr (Some a) else first_using c s q))"

fun first_out :: "bool list \<Rightarrow> 'x Scheduler \<Rightarrow> nat list \<Rightarrow> nat option res" where
  "first_out msk s [] = Inr None"
| "first_out msk s (a # q) = rbind (get_th a s) (\<lambda>t. rbind (aget msk (th_cid t)) (\<lambda>m.
     if m then Inr (Some a) else first_out msk s q))"

definition schedThread :: "'x core_ops \<Rightarrow> nat \<Rightarrow> 'x Scheduler \<Rightarrow> (nat option \<times> 'x Scheduler) res" where
  "schedThread co a s =
     rbind (get_th a s) (\<lambda>t. check (th_cid t < numCores s) AssertFailed
      (rbind (aget (contexts s) (th_cid t)) (\<lambda>x.
       rbind (if ctx_state x = C_IDLE then aget (th_mask t) (th_cid t) else Inr False) (\<lambda>here.
       rbind (if here then rbind (freeList_remove (th_cid t) s) (\<lambda>s1. Inr (Some (th_cid t), s1))
              else rbind (first_allowed (th_mask t) (freeList s)) (\<lambda>f. case f of
                  Some c \<Rightarrow> rbind (freeList_remove c s) (\<lambda>s1. Inr (Some c, s1))
                | None \<Rightarrow> rbind (first_out (th_mask t) s (outQueue s)) (\<lambda>g. case g of
                    None \<Rightarrow> Inr (None, s)
                  | Some o' \<Rightarrow> rbind (get_th o' s) (\<lambda>u. rbind (outQueue_remove o' s) (\<lambda>s1.
                      rbind (deschedule co o' (th_cid u) T_BLOCKED s1) (\<lambda>s2. Inr (Some (th_cid u), s2))))))) (\<lambda>(ctx, s').
       case ctx of None \<Rightarrow> Inr (None, s')
       | Some c \<Rightarrow> rbind (aget (th_mask t) c) (\<lambda>m. check m AssertFailed (Inr (Some c, s'))))))))"

definition schedContext :: "nat \<Rightarrow> 'x Scheduler \<Rightarrow> (nat option \<times> 'x Scheduler) res" where
  "schedContext c s = rbind (first_using c s (runQueue s)) (\<lambda>f. case f of
     None \<Rightarrow> Inr (None, s)
   | Some a \<Rightarrow> rbind (runQueue_remove a s) (\<lambda>s1. Inr (Some a, s1)))"

text \<open>The end of a quantum: a random order of the cores, then each queued thread claims the first core it may use from the thread there.\<close>

fun tick_shuffle :: "nat \<Rightarrow> nat \<Rightarrow> nat list \<times> MTRand \<Rightarrow> (nat list \<times> MTRand) res" where
  "tick_shuffle fuel 0 s = Inr s"
| "tick_shuffle fuel (Suc k) (v, m) =
     rbind (randInt_below fuel (of_nat (Suc k)) m) (\<lambda>(r, m1). let j = unat (ucast r :: u32) in
     rbind (aget v (Suc k)) (\<lambda>x. rbind (aget v j) (\<lambda>y. tick_shuffle fuel k (v[Suc k := y, j := x], m1))))"

fun tick_claim :: "nat list \<Rightarrow> nat list \<Rightarrow> 'x Scheduler \<Rightarrow> 'x Scheduler res" where
  "tick_claim [] avail s = Inr s"
| "tick_claim (a # q) avail s =
     (if avail = [] then Inr s
      else rbind (get_th a s) (\<lambda>t. rbind (first_allowed (th_mask t) avail) (\<lambda>f. case f of
          None \<Rightarrow> tick_claim q avail s
        | Some c \<Rightarrow> rbind (aget (contexts s) c) (\<lambda>x. rbind (case curThread x of None \<Rightarrow> Inl AssertFailed | Some v \<Rightarrow> Inr v) (\<lambda>v.
            rbind (upd_th v (\<lambda>u. u\<lparr>handoffThread := Some a\<rparr>) s) (\<lambda>s1.
            rbind (runQueue_remove a s1) (\<lambda>s2. tick_claim q (remove1 c avail) s2)))))))"

definition schedTick :: "nat \<Rightarrow> 'x Scheduler \<Rightarrow> 'x Scheduler res" where
  "schedTick fuel s =
     rbind (tick_shuffle fuel (numCores s - 1) ([0..<numCores s], sch_rnd s)) (\<lambda>(avail, m).
       tick_claim (runQueue s) avail (s\<lparr>sch_rnd := m\<rparr>))"

subsection \<open>The end of a phase\<close>

fun wake_sleepers :: "nat list \<Rightarrow> 'x Scheduler \<Rightarrow> 'x Scheduler res" where
  "wake_sleepers [] s = Inr s"
| "wake_sleepers (a # q) s =
     rbind (get_th a s) (\<lambda>t.
      if wakeupPhase t \<le> curPhase s
      then check (wakeupPhase t = curPhase s) AssertFailed
        (rbind (wakeup a False (set_th a (t\<lparr>th_state := T_BLOCKED\<rparr>) s)) (\<lambda>s1.
          wake_sleepers q (s1\<lparr>sleepQueue := q\<rparr>)))
      else Inr s)"

definition sched_callback :: "nat \<Rightarrow> 'x core_ops \<Rightarrow> 'x Scheduler \<Rightarrow> 'x Scheduler res" where
  "sched_callback fuel co s =
     check (scheduledThreads s \<le> numCores s) AssertFailed
      (let s1 = s\<lparr>machine := atSyncFunc co (machine s), numPhases := numPhases s + 1,
                 globPhaseCycles := globPhaseCycles s + sch_phaseLength s, curPhase := curPhase s + 1\<rparr> in
       check (curPhase s1 = numPhases s1) AssertFailed
        (rbind (wake_sleepers (sleepQueue s1) s1) (\<lambda>s2.
          if runQueue s2 = [] then Inr s2
          else check (schedQuantum s2 \<noteq> 0) Panicked
            (if curPhase s2 mod schedQuantum s2 = 0 then schedTick fuel s2 else Inr s2))))"


subsection \<open>Operations of the threads\<close>

definition sched_start :: "nat \<Rightarrow> u32 \<Rightarrow> bool list \<Rightarrow> bool \<Rightarrow> 'x Scheduler \<Rightarrow> 'x Scheduler res" where
  "sched_start a gid msk junk s =
     check (gidMap s gid = None) AssertFailed
      (rbind (ThreadInfo_init gid msk (numCores s) junk) (\<lambda>t. Inr ((set_th a t s)\<lparr>gidMap := (gidMap s)(gid \<mapsto> a)\<rparr>)))"

definition finishFakeLeave :: "nat \<Rightarrow> 'x Scheduler \<Rightarrow> 'x Scheduler res" where
  "finishFakeLeave a s =
     rbind (get_th a s) (\<lambda>t. check (fakeLeave t \<noteq> None) AssertFailed (check (th_state t = T_RUNNING) AssertFailed
       (check (a \<in> set (fakeLeaves s)) AssertFailed
         (Inr ((set_th a (t\<lparr>fakeLeave := None\<rparr>) s)\<lparr>fakeLeaves := remove1 a (fakeLeaves s)\<rparr>)))))"

text \<open>A thread without a context waits for one.\<close>

definition waitForContext :: "nat \<Rightarrow> 'x Scheduler \<Rightarrow> 'x Scheduler res" where
  "waitForContext a s = upd_th a (\<lambda>t. t\<lparr>th_futexWord := 1\<rparr>) s"

text \<open>Taking a context \<open>c\<close> in a join: the core and the barrier learn of it.\<close>

definition enter_context ::
  "nat \<Rightarrow> 'x core_ops \<Rightarrow> nat \<Rightarrow> Barrier \<times> 'x Scheduler \<Rightarrow> (Barrier \<times> 'x Scheduler) res" where
  "enter_context fuel co c = (\<lambda>(b, s).
     bar_join fuel (sched_callback fuel co) c (b, s\<lparr>machine := core_join co c (machine s)\<rparr>))"

definition sched_join ::
  "nat \<Rightarrow> 'x core_ops \<Rightarrow> nat \<Rightarrow> Barrier \<times> 'x Scheduler \<Rightarrow> (Barrier \<times> 'x Scheduler) res" where
  "sched_join fuel co a = (\<lambda>(b, s).
     rbind (get_th a s) (\<lambda>t.
     if fakeLeave t \<noteq> None then rbind (finishFakeLeave a s) (\<lambda>s1. Inr (b, s1))
     else check (\<not> markedForSleep t) AssertFailed
      (rbind (if th_state t = T_SLEEPING
              then rbind (sleepQueue_remove a s) (\<lambda>s1. Inr (set_th a (t\<lparr>th_state := T_BLOCKED\<rparr>) s1)) else Inr s) (\<lambda>s1.
       rbind (get_th a s1) (\<lambda>t1.
       if th_state t1 = T_OUT
       then rbind (outQueue_remove a (set_th a (t1\<lparr>th_state := T_RUNNING\<rparr>) s1)) (\<lambda>s2. enter_context fuel co (th_cid t1) (b, s2))
       else check (th_state t1 = T_BLOCKED \<or> th_state t1 = T_STARTED) AssertFailed
        (rbind (schedThread co a s1) (\<lambda>(ctx, s2). case ctx of
            Some c \<Rightarrow> rbind (schedule co a c s2) (\<lambda>s3. enter_context fuel co c (b, s3))
          | None \<Rightarrow> rbind (upd_th a (\<lambda>u. u\<lparr>th_state := T_QUEUED\<rparr>) s2) (\<lambda>s3. rbind (runQueue_push a s3) (\<lambda>s4.
              rbind (waitForContext a s4) (\<lambda>s5. Inr (b, s5)))))))))))"

text \<open>The thread's way out of the wait, once its futex word is not 1.\<close>

definition wait_done ::
  "nat \<Rightarrow> 'x core_ops \<Rightarrow> nat \<Rightarrow> Barrier \<times> 'x Scheduler \<Rightarrow> (Barrier \<times> 'x Scheduler) res" where
  "wait_done fuel co a = (\<lambda>(b, s). rbind (get_th a s) (\<lambda>t.
     if needsJoin t then enter_context fuel co (th_cid t) (b, s) else Inr (b, s)))"

text \<open>Giving the context \<open>c\<close>, just left, to a queued thread, or reporting that there is none.\<close>

definition give_context :: "'x core_ops \<Rightarrow> nat \<Rightarrow> nat \<Rightarrow> 'x Scheduler \<Rightarrow> 'x Scheduler res" where
  "give_context co inTh c s =
     rbind (schedule co inTh c s) (\<lambda>s1. wakeup inTh False (s1\<lparr>machine := core_join co c (machine s1)\<rparr>))"

definition sched_leave ::
  "nat \<Rightarrow> 'x core_ops \<Rightarrow> u32 \<Rightarrow> nat \<Rightarrow> Barrier \<times> 'x Scheduler \<Rightarrow> (Barrier \<times> 'x Scheduler) res" where
  "sched_leave fuel co gid c = (\<lambda>(b, s).
     rbind (aget (contexts s) c) (\<lambda>x. rbind (deref (curThread x)) (\<lambda>a. rbind (get_th a s) (\<lambda>t.
     check (th_gid t = gid) AssertFailed (check (th_state t = T_RUNNING) AssertFailed
      (let s0 = s\<lparr>machine := core_leave co c (machine s)\<rparr> in
       if markedForSleep t
       then rbind (deschedule co a c T_SLEEPING (set_th a (t\<lparr>markedForSleep := False\<rparr>) s0)) (\<lambda>s1.
            rbind (sleepQueue_insert a (wakeupPhase t) s1) (\<lambda>s2.
            rbind (schedContext c s2) (\<lambda>(inTh, s3). case inTh of
               Some i \<Rightarrow> rbind (give_context co i c s3) (\<lambda>s4. Inr (b, s4))
             | None \<Rightarrow> rbind (freeList_push c s3) (\<lambda>s4. bar_leave fuel (sched_callback fuel co) c (b, s4)))))
       else rbind (schedContext c s0) (\<lambda>(inTh, s1). case inTh of
               Some i \<Rightarrow> rbind (deschedule co a c T_BLOCKED s1) (\<lambda>s2. rbind (give_context co i c s2) (\<lambda>s3. Inr (b, s3)))
             | None \<Rightarrow> rbind (upd_th a (\<lambda>u. u\<lparr>th_state := T_OUT\<rparr>) s1) (\<lambda>s2. rbind (outQueue_push a s2) (\<lambda>s3.
                 bar_leave fuel (sched_callback fuel co) c (b, s3))))))))))"

text \<open>The end of a thread: its map entry goes, it leaves if it still runs (both with the lock released in between), then its memory.\<close>

definition finish_begin :: "u32 \<Rightarrow> 'x Scheduler \<Rightarrow> (nat \<times> 'x Scheduler) res" where
  "finish_begin gid s = rbind (case gidMap s gid of None \<Rightarrow> Inl AssertFailed | Some a \<Rightarrow> Inr a) (\<lambda>a.
     Inr (a, s\<lparr>gidMap := (gidMap s)(gid := None)\<rparr>))"

definition finish_end :: "'x core_ops \<Rightarrow> nat \<Rightarrow> 'x Scheduler \<Rightarrow> 'x Scheduler res" where
  "finish_end co a s =
     rbind (get_th a s) (\<lambda>t.
     check (th_state t = T_STARTED \<or> th_state t = T_OUT \<or> th_state t = T_BLOCKED \<or> th_state t = T_QUEUED) AssertFailed
      (rbind (if th_state t = T_QUEUED then runQueue_remove a s
              else if \<not> no_owner a s
              then rbind (outQueue_remove a s) (\<lambda>s1. rbind (deschedule co a (th_cid t) T_BLOCKED s1) (\<lambda>s2. freeList_push (th_cid t) s2))
              else Inr s) (\<lambda>s1. Inr (s1\<lparr>threads := (threads s1)(a := None)\<rparr>))))"

definition sched_finish ::
  "nat \<Rightarrow> 'x core_ops \<Rightarrow> u32 \<Rightarrow> Barrier \<times> 'x Scheduler \<Rightarrow> (Barrier \<times> 'x Scheduler) res" where
  "sched_finish fuel co gid = (\<lambda>(b, s).
     rbind (finish_begin gid s) (\<lambda>(a, s1). rbind (get_th a s1) (\<lambda>t.
     rbind (if fakeLeave t \<noteq> None
            then rbind (finishFakeLeave a s1) (\<lambda>s2. sched_leave fuel co gid (th_cid t) (b, s2)) else Inr (b, s1)) (\<lambda>(b2, s2).
     rbind (get_th a s2) (\<lambda>t2.
     rbind (if th_state t2 = T_RUNNING then sched_leave fuel co gid (th_cid t2) (b2, s2) else Inr (b2, s2)) (\<lambda>(b3, s3).
     rbind (finish_end co a s3) (\<lambda>s4. Inr (b3, s4))))))))"

text \<open>The end of a phase for a thread: the barrier, and after it the hand-over of its context.\<close>

definition sched_sync ::
  "nat \<Rightarrow> 'x core_ops \<Rightarrow> nat \<Rightarrow> Barrier \<times> 'x Scheduler \<Rightarrow> (Barrier \<times> 'x Scheduler) res" where
  "sched_sync fuel co c = (\<lambda>(b, s).
     rbind (aget (contexts s) c) (\<lambda>x. rbind (deref (curThread x)) (\<lambda>a. rbind (get_th a s) (\<lambda>t.
     check (\<not> markedForSleep t) AssertFailed (bar_sync fuel (sched_callback fuel co) c (b, s))))))"

definition sync_handoff ::
  "nat \<Rightarrow> 'x core_ops \<Rightarrow> nat \<Rightarrow> Barrier \<times> 'x Scheduler \<Rightarrow> (Barrier \<times> 'x Scheduler) res" where
  "sync_handoff fuel co a = (\<lambda>(b, s).
     rbind (get_th a s) (\<lambda>t. case handoffThread t of
       None \<Rightarrow> check (th_state t = T_RUNNING) AssertFailed (Inr (b, s))
     | Some dst \<Rightarrow>
        rbind (deschedule co a (th_cid t) T_QUEUED (set_th a (t\<lparr>handoffThread := None\<rparr>) s)) (\<lambda>s1.
        rbind (schedule co dst (th_cid t) s1) (\<lambda>s2.
        rbind (wakeup dst False s2) (\<lambda>s3.
        rbind (schedThread co a s3) (\<lambda>(ctx, s4). case ctx of
            Some c \<Rightarrow> rbind (schedule co a c s4) (\<lambda>s5. enter_context fuel co c (b, s5))
          | None \<Rightarrow> rbind (runQueue_push a s4) (\<lambda>s5. rbind (waitForContext a s5) (\<lambda>s6. Inr (b, s6)))))))))"

subsection \<open>Sleep and system calls\<close>

definition markForSleep :: "u32 \<Rightarrow> nat \<Rightarrow> 'x Scheduler \<Rightarrow> 'x Scheduler res" where
  "markForSleep gid phase s = rbind (find_th gid s) (\<lambda>a. rbind (get_th a s) (\<lambda>t. check (\<not> markedForSleep t) AssertFailed
     (Inr (set_th a (t\<lparr>markedForSleep := True, wakeupPhase := phase, th_futexWord := 1\<rparr>) s))))"

definition isSleeping :: "u32 \<Rightarrow> 'x Scheduler \<Rightarrow> bool res" where
  "isSleeping gid s = rbind (find_th gid s) (\<lambda>a. rbind (get_th a s) (\<lambda>t. Inr (th_state t = T_SLEEPING)))"

definition notifySleepEnd :: "u32 \<Rightarrow> 'x Scheduler \<Rightarrow> 'x Scheduler res" where
  "notifySleepEnd gid s = rbind (find_th gid s) (\<lambda>a. rbind (get_th a s) (\<lambda>t. check (\<not> markedForSleep t) AssertFailed
     (check (th_state t = T_SLEEPING \<or> th_state t = T_BLOCKED) AssertFailed
       (if th_state t = T_BLOCKED then Inr s
        else rbind (sleepQueue_remove a s) (\<lambda>s1. Inr (set_th a (t\<lparr>th_state := T_BLOCKED\<rparr>) s1))))))"

definition syscallLeave ::
  "nat \<Rightarrow> 'x core_ops \<Rightarrow> u32 \<Rightarrow> u32 \<Rightarrow> nat \<Rightarrow> u64 \<Rightarrow> Barrier \<times> 'x Scheduler \<Rightarrow> (Barrier \<times> 'x Scheduler) res" where
  "syscallLeave fuel co pid gid c pc = (\<lambda>(b, s).
     rbind (aget (contexts s) c) (\<lambda>x. rbind (deref (curThread x)) (\<lambda>a. rbind (get_th a s) (\<lambda>t.
     check (th_gid t = gid) AssertFailed (check (th_cid t = c) AssertFailed (check (th_state t = T_RUNNING) AssertFailed
      (check (unat pid < length (blockingSyscalls s)) AssertFailed
       (if pc \<in> blockingSyscalls s ! unat pid \<or> markedForSleep t then sched_leave fuel co gid c (b, s)
        else check (fakeLeave t = None) AssertFailed
          (Inr (b, (set_th a (t\<lparr>fakeLeave := Some pc\<rparr>) s)\<lparr>fakeLeaves := fakeLeaves s @ [a]\<rparr>))))))))))"

text \<open>The matching of futex wake-ups: a thread that wakes others waits, outside the lock, until as many have joined, or two seconds.\<close>

definition notifyFutexWakeStart :: "u32 \<Rightarrow> u32 \<Rightarrow> 'x Scheduler \<Rightarrow> 'x Scheduler res" where
  "notifyFutexWakeStart gid wakes s = rbind (find_th gid s) (\<lambda>a. rbind (get_th a s) (\<lambda>t.
     check (fj_action (futexJoin t) = FJA_NONE) AssertFailed
      (let w = min wakes (push_bit 24 1) in
       Inr ((set_th a (t\<lparr>futexJoin := (futexJoin t)\<lparr>fj_maxWakes := w\<rparr>\<rparr>) s)\<lparr>maxAllowedFutexWakeups := maxAllowedFutexWakeups s + w\<rparr>))))"

definition notifyFutexWakeEnd :: "u32 \<Rightarrow> u32 \<Rightarrow> 'x Scheduler \<Rightarrow> 'x Scheduler res" where
  "notifyFutexWakeEnd gid wn s = rbind (find_th gid s) (\<lambda>a.
     upd_th a (\<lambda>t. t\<lparr>futexJoin := (futexJoin t)\<lparr>fj_action := FJA_WAKE, fj_wokenUp := wn\<rparr>\<rparr>) s)"

definition notifyFutexWaitWoken :: "u32 \<Rightarrow> 'x Scheduler \<Rightarrow> 'x Scheduler res" where
  "notifyFutexWaitWoken gid s = rbind (find_th gid s) (\<lambda>a.
     upd_th a (\<lambda>t. t\<lparr>futexJoin := \<lparr>fj_action = FJA_WAIT, fj_maxWakes = 0, fj_wokenUp = 0\<rparr>\<rparr>) s)"

definition futexWakeJoin_begin :: "nat \<Rightarrow> 'x Scheduler \<Rightarrow> 'x Scheduler res" where
  "futexWakeJoin_begin a s = rbind (get_th a s) (\<lambda>t. let j = futexJoin t in
     check (fj_action j = FJA_WAKE) AssertFailed (check (fj_maxWakes j \<le> maxAllowedFutexWakeups s) AssertFailed
      (check (fj_wokenUp j \<le> fj_maxWakes j) AssertFailed
       (let allowed = maxAllowedFutexWakeups s - (fj_maxWakes j - fj_wokenUp j) in
        check (unmatchedFutexWakeups s \<le> allowed) AssertFailed (Inr (s\<lparr>maxAllowedFutexWakeups := allowed\<rparr>))))))"

text \<open>One look at the counters, with the lock held; \<open>True\<close> when the thread goes on to join.\<close>

definition futexWakeJoin_try :: "nat \<Rightarrow> bool \<Rightarrow> 'x Scheduler \<Rightarrow> (bool \<times> 'x Scheduler) res" where
  "futexWakeJoin_try a timedOut s = rbind (get_th a s) (\<lambda>t. let wn = fj_wokenUp (futexJoin t) in
     if timedOut
     then Inr (True, s\<lparr>unmatchedFutexWakeups := 0, maxAllowedFutexWakeups := maxAllowedFutexWakeups s - wn\<rparr>)
     else if wn \<le> unmatchedFutexWakeups s
     then Inr (True, s\<lparr>unmatchedFutexWakeups := unmatchedFutexWakeups s - wn,
                        maxAllowedFutexWakeups := maxAllowedFutexWakeups s - wn\<rparr>)
     else Inr (False, s))"

definition futexWaitJoin :: "nat \<Rightarrow> 'x Scheduler \<Rightarrow> 'x Scheduler res" where
  "futexWaitJoin a s = rbind (get_th a s) (\<lambda>t. check (fj_action (futexJoin t) = FJA_WAIT) AssertFailed
     (Inr (if maxAllowedFutexWakeups s \<le> unmatchedFutexWakeups s then s
           else s\<lparr>unmatchedFutexWakeups := unmatchedFutexWakeups s + 1\<rparr>)))"

definition futexJoin_done :: "nat \<Rightarrow> 'x Scheduler \<Rightarrow> 'x Scheduler res" where
  "futexJoin_done a s = upd_th a (\<lambda>t. t\<lparr>futexJoin := (futexJoin t)\<lparr>fj_action := FJA_NONE\<rparr>\<rparr>) s"

definition getScheduledPid :: "nat \<Rightarrow> 'x Scheduler \<Rightarrow> u32 res" where
  "getScheduledPid c s = rbind (aget (contexts s) c) (\<lambda>x.
     if ctx_state x = C_USED then rbind (deref (curThread x)) (\<lambda>a. rbind (get_th a s) (\<lambda>t. Inr (getPid (th_gid t)))) else Inr (- 1))"

end
