(* ===== verification/SchedInv.thy ===== *)
theory SchedInv
  imports Sched
begin

text \<open>
  The correctness of the scheduler (scheduler.h, modelled in \<open>Sched\<close>): an invariant of threads, contexts and queues that every
  operation keeps, and with it the callback at the end of a phase, which gives the barrier its contract.
\<close>

subsection \<open>The invariant\<close>

text \<open>What holds of one thread, by its state.\<close>

definition thread_inv :: "'x Scheduler \<Rightarrow> nat \<Rightarrow> ThreadInfo \<Rightarrow> bool" where
  "thread_inv s a t \<longleftrightarrow> th_cid t < numCores s \<and> length (th_mask t) = numCores s \<and>
     (a \<in> set (fakeLeaves s) \<longleftrightarrow> fakeLeave t \<noteq> None) \<and> (fakeLeave t \<noteq> None \<longrightarrow> th_state t = T_RUNNING) \<and>
     (a \<in> set (outQueue s) \<longleftrightarrow> th_state t = T_OUT) \<and> (a \<in> set (sleepQueue s) \<longleftrightarrow> th_state t = T_SLEEPING) \<and>
     (a \<in> set (runQueue s) \<longrightarrow> th_state t = T_QUEUED \<and> th_futexWord t = 1) \<and>
     (th_state t = T_RUNNING \<or> th_state t = T_OUT \<longrightarrow> curThread (contexts s ! th_cid t) = Some a \<and> th_mask t ! th_cid t) \<and>
     (th_state t = T_SLEEPING \<longrightarrow> th_futexWord t = 1 \<and> curPhase s < wakeupPhase t) \<and>
     (markedForSleep t \<longrightarrow> th_state t = T_RUNNING \<and> th_futexWord t = 1) \<and>
     (handoffThread t \<noteq> None \<longrightarrow> th_state t = T_RUNNING)"

definition ctx_inv :: "'x Scheduler \<Rightarrow> nat \<Rightarrow> bool" where
  "ctx_inv s c \<longleftrightarrow> (curThread (contexts s ! c) = None \<longrightarrow> ctx_state (contexts s ! c) = C_IDLE) \<and>
     (\<forall>a. curThread (contexts s ! c) = Some a \<longrightarrow> ctx_state (contexts s ! c) = C_USED \<and>
        (\<exists>t. threads s a = Some t \<and> th_cid t = c \<and> (th_state t = T_RUNNING \<or> th_state t = T_OUT)))"

definition idle :: "'x Scheduler \<Rightarrow> nat set" where
  "idle s = {c. c < numCores s \<and> curThread (contexts s ! c) = None}"

text \<open>A thread that was promised another's context is off the run queue.\<close>

definition handoff_inv :: "'x Scheduler \<Rightarrow> bool" where
  "handoff_inv s \<longleftrightarrow> (\<forall>a t h. threads s a = Some t \<longrightarrow> handoffThread t = Some h \<longrightarrow> h \<notin> set (runQueue s) \<and>
     (\<exists>u. threads s h = Some u \<and> th_state u = T_QUEUED \<and> th_futexWord u = 1 \<and> th_mask u ! th_cid t) \<and>
     (\<forall>a' t'. threads s a' = Some t' \<longrightarrow> handoffThread t' = Some h \<longrightarrow> a' = a))"

definition running_at :: "'x Scheduler \<Rightarrow> nat \<Rightarrow> bool" where
  "running_at s c \<longleftrightarrow> (\<exists>a t. curThread (contexts s ! c) = Some a \<and> threads s a = Some t \<and> th_state t = T_RUNNING)"

text \<open>No queued thread could use a context that is free or whose thread left; \<open>H\<close> are contexts between two threads.\<close>

definition work_conserving :: "nat set \<Rightarrow> 'x Scheduler \<Rightarrow> bool" where
  "work_conserving H s \<longleftrightarrow> (\<forall>a \<in> set (runQueue s). \<forall>t c. threads s a = Some t \<longrightarrow> c < numCores s \<longrightarrow> c \<notin> H \<longrightarrow> th_mask t ! c \<longrightarrow> running_at s c)"

definition queues_inv :: "'x Scheduler \<Rightarrow> bool" where
  "queues_inv s \<longleftrightarrow> distinct (runQueue s) \<and> distinct (outQueue s) \<and> distinct (sleepQueue s) \<and> distinct (fakeLeaves s) \<and>
     (\<forall>a. \<not> no_owner a s \<or> a \<in> set (fakeLeaves s) \<longrightarrow> threads s a \<noteq> None) \<and>
     sorted_wrt (\<lambda>a b. \<forall>t u. threads s a = Some t \<longrightarrow> threads s b = Some u \<longrightarrow> wakeupPhase t \<le> wakeupPhase u) (sleepQueue s)"

definition sched_inv :: "nat set \<Rightarrow> 'x Scheduler \<Rightarrow> bool" where
  "sched_inv H s \<longleftrightarrow> length (contexts s) = numCores s \<and> (\<forall>a t. threads s a = Some t \<longrightarrow> thread_inv s a t) \<and>
     (\<forall>c < numCores s. ctx_inv s c) \<and> H \<subseteq> idle s \<and> distinct (freeList s) \<and> set (freeList s) = idle s - H \<and>
     queues_inv s \<and> handoff_inv s \<and> work_conserving H s \<and> scheduledThreads s + card (idle s) = numCores s \<and>
     curPhase s = numPhases s \<and> schedQuantum s \<noteq> 0 \<and> mt_ok (sch_rnd s)"

lemma inv_frame_machine [simp]:
  "thread_inv (s\<lparr>machine := x\<rparr>) = thread_inv s" "ctx_inv (s\<lparr>machine := x\<rparr>) = ctx_inv s" "idle (s\<lparr>machine := x\<rparr>) = idle s"
  "handoff_inv (s\<lparr>machine := x\<rparr>) = handoff_inv s" "work_conserving H (s\<lparr>machine := x\<rparr>) = work_conserving H s" "queues_inv (s\<lparr>machine := x\<rparr>) = queues_inv s"
  by (simp_all add: fun_eq_iff thread_inv_def ctx_inv_def idle_def handoff_inv_def running_at_def work_conserving_def queues_inv_def no_owner_def)

lemma inv_frame_freeList [simp]:
  "thread_inv (s\<lparr>freeList := x\<rparr>) = thread_inv s" "ctx_inv (s\<lparr>freeList := x\<rparr>) = ctx_inv s" "idle (s\<lparr>freeList := x\<rparr>) = idle s"
  "handoff_inv (s\<lparr>freeList := x\<rparr>) = handoff_inv s" "work_conserving H (s\<lparr>freeList := x\<rparr>) = work_conserving H s" "queues_inv (s\<lparr>freeList := x\<rparr>) = queues_inv s"
  by (simp_all add: fun_eq_iff thread_inv_def ctx_inv_def idle_def handoff_inv_def running_at_def work_conserving_def queues_inv_def no_owner_def)

lemma inv_frame_gidMap [simp]:
  "thread_inv (s\<lparr>gidMap := x\<rparr>) = thread_inv s" "ctx_inv (s\<lparr>gidMap := x\<rparr>) = ctx_inv s" "idle (s\<lparr>gidMap := x\<rparr>) = idle s"
  "handoff_inv (s\<lparr>gidMap := x\<rparr>) = handoff_inv s" "work_conserving H (s\<lparr>gidMap := x\<rparr>) = work_conserving H s" "queues_inv (s\<lparr>gidMap := x\<rparr>) = queues_inv s"
  by (simp_all add: fun_eq_iff thread_inv_def ctx_inv_def idle_def handoff_inv_def running_at_def work_conserving_def queues_inv_def no_owner_def)

lemma inv_frame_maxAllowedFutexWakeups [simp]:
  "thread_inv (s\<lparr>maxAllowedFutexWakeups := x\<rparr>) = thread_inv s" "ctx_inv (s\<lparr>maxAllowedFutexWakeups := x\<rparr>) = ctx_inv s" "idle (s\<lparr>maxAllowedFutexWakeups := x\<rparr>) = idle s"
  "handoff_inv (s\<lparr>maxAllowedFutexWakeups := x\<rparr>) = handoff_inv s" "work_conserving H (s\<lparr>maxAllowedFutexWakeups := x\<rparr>) = work_conserving H s" "queues_inv (s\<lparr>maxAllowedFutexWakeups := x\<rparr>) = queues_inv s"
  by (simp_all add: fun_eq_iff thread_inv_def ctx_inv_def idle_def handoff_inv_def running_at_def work_conserving_def queues_inv_def no_owner_def)

lemma inv_frame_unmatchedFutexWakeups [simp]:
  "thread_inv (s\<lparr>unmatchedFutexWakeups := x\<rparr>) = thread_inv s" "ctx_inv (s\<lparr>unmatchedFutexWakeups := x\<rparr>) = ctx_inv s" "idle (s\<lparr>unmatchedFutexWakeups := x\<rparr>) = idle s"
  "handoff_inv (s\<lparr>unmatchedFutexWakeups := x\<rparr>) = handoff_inv s" "work_conserving H (s\<lparr>unmatchedFutexWakeups := x\<rparr>) = work_conserving H s" "queues_inv (s\<lparr>unmatchedFutexWakeups := x\<rparr>) = queues_inv s"
  by (simp_all add: fun_eq_iff thread_inv_def ctx_inv_def idle_def handoff_inv_def running_at_def work_conserving_def queues_inv_def no_owner_def)

lemma inv_frame_scheduledThreads [simp]:
  "thread_inv (s\<lparr>scheduledThreads := x\<rparr>) = thread_inv s" "ctx_inv (s\<lparr>scheduledThreads := x\<rparr>) = ctx_inv s" "idle (s\<lparr>scheduledThreads := x\<rparr>) = idle s"
  "handoff_inv (s\<lparr>scheduledThreads := x\<rparr>) = handoff_inv s" "work_conserving H (s\<lparr>scheduledThreads := x\<rparr>) = work_conserving H s" "queues_inv (s\<lparr>scheduledThreads := x\<rparr>) = queues_inv s"
  by (simp_all add: fun_eq_iff thread_inv_def ctx_inv_def idle_def handoff_inv_def running_at_def work_conserving_def queues_inv_def no_owner_def)

lemma sched_inv_machine [simp]:
  "sched_inv H (s\<lparr>machine := x\<rparr>) = sched_inv H s" "sched_inv H (s\<lparr>gidMap := m\<rparr>) = sched_inv H s"
  "sched_inv H (s\<lparr>maxAllowedFutexWakeups := v\<rparr>) = sched_inv H s" "sched_inv H (s\<lparr>unmatchedFutexWakeups := v\<rparr>) = sched_inv H s"
  by (simp_all add: sched_inv_def)

lemma sched_inv_thread: "sched_inv H s \<Longrightarrow> threads s a = Some t \<Longrightarrow> thread_inv s a t"
  by (simp add: sched_inv_def)

lemma sched_inv_ctx: "sched_inv H s \<Longrightarrow> c < numCores s \<Longrightarrow> ctx_inv s c \<and> c < length (contexts s)"
  by (simp add: sched_inv_def)

text \<open>The threads other than the ones an operation changes keep what is said of them.\<close>

lemma sched_inv_held: "sched_inv H s \<Longrightarrow> c \<in> H \<Longrightarrow> c < numCores s \<and> curThread (contexts s ! c) = None \<and> ctx_state (contexts s ! c) = C_IDLE"
proof -
  assume s: "sched_inv H s" and c: "c \<in> H"
  then have i: "c < numCores s" "curThread (contexts s ! c) = None" by (auto simp: sched_inv_def idle_def)
  with sched_inv_ctx [OF s i(1)] show ?thesis by (simp add: ctx_inv_def)
qed

lemma freeList_remove_inv:
  assumes "sched_inv H s" "c \<in> set (freeList s)"
  shows "\<exists>s'. freeList_remove c s = Inr s' \<and> sched_inv (insert c H) s' \<and> s' = s\<lparr>freeList := remove1 c (freeList s)\<rparr>"
proof -
  have "set (remove1 c (freeList s)) = idle s - insert c H" using assms by (auto simp: sched_inv_def)
  moreover have "c \<in> idle s" "work_conserving (insert c H) s" using assms by (auto simp: sched_inv_def work_conserving_def)
  ultimately have "sched_inv (insert c H) (s\<lparr>freeList := remove1 c (freeList s)\<rparr>)" using assms by (simp add: sched_inv_def)
  then show ?thesis using assms(2) by (simp add: freeList_remove_def)
qed

lemma freeList_push_inv:
  assumes s: "sched_inv H s" and c: "c \<in> H"
    and none: "\<And>a t. a \<in> set (runQueue s) \<Longrightarrow> threads s a = Some t \<Longrightarrow> \<not> th_mask t ! c"
  shows "\<exists>s'. freeList_push c s = Inr s' \<and> sched_inv (H - {c}) s' \<and> s' = s\<lparr>freeList := freeList s @ [c]\<rparr>"
proof -
  have "set (freeList s @ [c]) = idle s - (H - {c})" "c \<notin> set (freeList s)" using assms by (auto simp: sched_inv_def)
  moreover have "work_conserving (H - {c}) s"
    using s none unfolding sched_inv_def work_conserving_def by blast
  ultimately have "sched_inv (H - {c}) (s\<lparr>freeList := freeList s @ [c]\<rparr>)"
    using s by (auto simp: sched_inv_def)
  then show ?thesis using \<open>c \<notin> set (freeList s)\<close> by (simp add: freeList_push_def)
qed

text \<open>Updates of one thread.\<close>

definition promised :: "'x Scheduler \<Rightarrow> nat \<Rightarrow> bool" where
  "promised s h \<longleftrightarrow> (\<exists>a t. threads s a = Some t \<and> handoffThread t = Some h)"

lemma threads_set_th [simp]: "threads (set_th a t s) = (threads s)(a \<mapsto> t)"
  by (simp add: set_th_def)

lemma set_th_frame [simp]: "numCores (set_th a t s) = numCores s" "contexts (set_th a t s) = contexts s" "freeList (set_th a t s) = freeList s"
    "runQueue (set_th a t s) = runQueue s" "outQueue (set_th a t s) = outQueue s" "sleepQueue (set_th a t s) = sleepQueue s" "fakeLeaves (set_th a t s) = fakeLeaves s"
    "curPhase (set_th a t s) = curPhase s" "numPhases (set_th a t s) = numPhases s" "scheduledThreads (set_th a t s) = scheduledThreads s"
    "schedQuantum (set_th a t s) = schedQuantum s" "sch_rnd (set_th a t s) = sch_rnd s" "idle (set_th a t s) = idle s"
    "thread_inv (set_th a t s) = thread_inv s" "machine (set_th a t s) = machine s" "gidMap (set_th a t s) = gidMap s"
  by (simp_all add: set_th_def fun_eq_iff idle_def thread_inv_def)

lemma queues_upd:
  assumes "queues_inv s" "a \<in> set (sleepQueue s) \<Longrightarrow> \<exists>u. threads s a = Some u \<and> wakeupPhase t = wakeupPhase u"
  shows "queues_inv (set_th a t s)"
proof -
  have "sorted_wrt (\<lambda>x y. \<forall>t1 u. ((threads s)(a \<mapsto> t)) x = Some t1 \<longrightarrow> ((threads s)(a \<mapsto> t)) y = Some u \<longrightarrow> wakeupPhase t1 \<le> wakeupPhase u) (sleepQueue s)"
  proof (rule sorted_wrt_mono_rel)
    show "sorted_wrt (\<lambda>x y. \<forall>t u. threads s x = Some t \<longrightarrow> threads s y = Some u \<longrightarrow> wakeupPhase t \<le> wakeupPhase u) (sleepQueue s)"
      using assms(1) by (simp add: queues_inv_def)
  qed (use assms(2) in \<open>auto split: if_splits\<close>)
  then show ?thesis using assms(1) by (simp add: queues_inv_def no_owner_def)
qed

text \<open>Nothing but its own context matters to a thread.\<close>

lemma inv_contexts [simp]: "queues_inv (s\<lparr>contexts := x\<rparr>) = queues_inv s" "handoff_inv (s\<lparr>contexts := x\<rparr>) = handoff_inv s"
  by (simp_all add: queues_inv_def handoff_inv_def no_owner_def)

lemma thread_quiet:
  assumes "thread_inv s a t"
  shows "length (th_mask t) = numCores s" "th_cid t < numCores s"
    "th_state t \<noteq> T_RUNNING \<Longrightarrow> handoffThread t = None \<and> \<not> markedForSleep t \<and> fakeLeave t = None \<and> a \<notin> set (fakeLeaves s)"
  using assms unfolding thread_inv_def by blast+

lemma thread_queues:
  assumes "thread_inv s a t"
  shows "a \<in> set (outQueue s) \<longleftrightarrow> th_state t = T_OUT" "a \<in> set (sleepQueue s) \<longleftrightarrow> th_state t = T_SLEEPING"
    "a \<in> set (runQueue s) \<Longrightarrow> th_state t = T_QUEUED \<and> th_futexWord t = 1"
  using assms unfolding thread_inv_def by blast+

lemma thread_placed:
  assumes "thread_inv s a t" "th_state t = T_RUNNING \<or> th_state t = T_OUT"
  shows "curThread (contexts s ! th_cid t) = Some a" "th_mask t ! th_cid t"
  using assms unfolding thread_inv_def by blast+

lemma idle_update:
  assumes "length (contexts s) = numCores s" "c < numCores s"
  shows "idle (s\<lparr>contexts := (contexts s)[c := x]\<rparr>) = (if curThread x = None then insert c (idle s) else idle s - {c})"
proof (rule set_eqI)
  fix d show "d \<in> idle (s\<lparr>contexts := (contexts s)[c := x]\<rparr>) \<longleftrightarrow> d \<in> (if curThread x = None then insert c (idle s) else idle s - {c})"
    using assms by (cases "d = c") (simp_all add: idle_def)
qed

lemma thread_inv_move:
  assumes "thread_inv s b u" "numCores s' = numCores s" "runQueue s' = runQueue s" "outQueue s' = outQueue s" "sleepQueue s' = sleepQueue s"
    "fakeLeaves s' = fakeLeaves s" "curPhase s' = curPhase s" "th_state u = T_RUNNING \<or> th_state u = T_OUT \<Longrightarrow> contexts s' ! th_cid u = contexts s ! th_cid u"
  shows "thread_inv s' b u"
  using assms unfolding thread_inv_def by simp

lemma handoff_upd:
  assumes "handoff_inv s" "threads s a = Some u" "handoffThread t = None \<or> handoffThread t = handoffThread u \<and> th_cid t = th_cid u"
    "promised s a \<Longrightarrow> th_state t = th_state u \<and> th_futexWord t = th_futexWord u \<and> th_mask t = th_mask u"
  shows "handoff_inv (set_th a t s)"
proof -
  have K: "\<exists>v0. threads s b = Some v0 \<and> handoffThread v0 = Some h \<and> th_cid v0 = th_cid v"
    if "threads (set_th a t s) b = Some v" "handoffThread v = Some h" for b v h
    using that assms(2,3) by (cases "b = a") auto
  show ?thesis
    unfolding handoff_inv_def
  proof (intro allI impI conjI)
    fix b v h assume v: "threads (set_th a t s) b = Some v" "handoffThread v = Some h"
    from K [OF this] obtain v0 where v0: "threads s b = Some v0" "handoffThread v0 = Some h" "th_cid v0 = th_cid v" by blast
    then have pr: "promised s h" by (auto simp: promised_def)
    from assms(1) v0 obtain w where w: "h \<notin> set (runQueue s)" "threads s h = Some w" "th_state w = T_QUEUED" "th_futexWord w = 1"
      "th_mask w ! th_cid v" unfolding handoff_inv_def by metis
    show "h \<notin> set (runQueue (set_th a t s))" using w(1) by simp
    show "\<exists>w. threads (set_th a t s) h = Some w \<and> th_state w = T_QUEUED \<and> th_futexWord w = 1 \<and> th_mask w ! th_cid v"
    proof (cases "h = a")
      case True
      then show ?thesis using w assms(2) assms(4) pr by simp
    qed (use w in simp)
    fix b' v' assume v': "threads (set_th a t s) b' = Some v'" "handoffThread v' = Some h"
    from K [OF this] assms(1) v0 show "b' = b" unfolding handoff_inv_def by metis
  qed
qed

lemma handoff_fresh:
  assumes "handoff_inv s" "threads s a = None" "handoffThread t = None"
  shows "handoff_inv (set_th a t s)"
  unfolding handoff_inv_def
proof (intro allI impI conjI)
  fix b v h assume v: "threads (set_th a t s) b = Some v" "handoffThread v = Some h"
  then have v0: "threads s b = Some v" using assms(3) by (cases "b = a") auto
  from assms(1) v0 v(2) obtain w where w: "h \<notin> set (runQueue s)" "threads s h = Some w" "th_state w = T_QUEUED" "th_futexWord w = 1"
    "th_mask w ! th_cid v" unfolding handoff_inv_def by metis
  show "h \<notin> set (runQueue (set_th a t s))" using w(1) by simp
  have "h \<noteq> a" using w(2) assms(2) by auto
  then show "\<exists>w. threads (set_th a t s) h = Some w \<and> th_state w = T_QUEUED \<and> th_futexWord w = 1 \<and> th_mask w ! th_cid v" using w by simp
  fix b' v' assume v': "threads (set_th a t s) b' = Some v'" "handoffThread v' = Some h"
  then have "threads s b' = Some v'" using assms(3) by (cases "b' = a") auto
  with assms(1) v0 v(2) v'(2) show "b' = b" unfolding handoff_inv_def by metis
qed

lemma promised_queued: "handoff_inv s \<Longrightarrow> promised s h \<Longrightarrow> \<exists>u. threads s h = Some u \<and> th_state u = T_QUEUED \<and> h \<notin> set (runQueue s)"
  unfolding handoff_inv_def promised_def by blast

lemma handoff_cong: "threads s' = threads s \<Longrightarrow> runQueue s' = runQueue s \<Longrightarrow> handoff_inv s' = handoff_inv s"
  by (simp only: handoff_inv_def)

lemma handoff_dequeue:
  assumes "handoff_inv s" "threads s' = threads s" "set (runQueue s') \<subseteq> set (runQueue s)"
  shows "handoff_inv s'"
  using assms(1,3) unfolding handoff_inv_def assms(2) by blast

lemma sched_inv_parts: "sched_inv H s \<Longrightarrow> handoff_inv s" "sched_inv H s \<Longrightarrow> queues_inv s" "sched_inv H s \<Longrightarrow> work_conserving H s"
    "sched_inv H s \<Longrightarrow> length (contexts s) = numCores s"
  by (simp_all add: sched_inv_def)

lemma not_promised: "sched_inv H s \<Longrightarrow> threads s a = Some t \<Longrightarrow> th_state t \<noteq> T_QUEUED \<or> a \<in> set (runQueue s) \<Longrightarrow> \<not> promised s a"
  using promised_queued [OF sched_inv_parts(1)] by fastforce

lemma running_other:
  "contexts s' ! d = contexts s ! d \<Longrightarrow> threads s' = (threads s)(a \<mapsto> t') \<Longrightarrow> curThread (contexts s ! d) \<noteq> Some a \<Longrightarrow>
   running_at s' d = running_at s d"
  by (auto simp: running_at_def)

lemma promised_upd:
  "promised s' h \<Longrightarrow> threads s' = (threads s)(a \<mapsto> t') \<Longrightarrow>
   handoffThread t' = None \<or> (\<exists>u. threads s a = Some u \<and> handoffThread t' = handoffThread u) \<Longrightarrow> promised s h"
  unfolding promised_def by (metis fun_upd_apply option.sel option.distinct(1))

lemma schedule_inv:
  assumes s: "sched_inv H s" and c: "c \<in> H" and a: "threads s a = Some t"
    and st: "th_state t = T_STARTED \<or> th_state t = T_BLOCKED \<or> th_state t = T_QUEUED"
    and free: "a \<notin> set (runQueue s)" "\<not> promised s a" and msk: "th_mask t ! c"
  shows "\<exists>s'. schedule co a c s = Inr s' \<and> sched_inv (H - {c}) s' \<and> threads s' = (threads s)(a \<mapsto> t\<lparr>th_state := T_RUNNING, th_cid := c\<rparr>) \<and>
    contexts s' = (contexts s)[c := \<lparr>ctx_state = C_USED, curThread = Some a\<rparr>] \<and> runQueue s' = runQueue s \<and> numCores s' = numCores s \<and>
    curPhase s' = curPhase s \<and> (\<forall>d < numCores s. running_at s' d \<longleftrightarrow> d = c \<or> running_at s d)"
proof -
  note h = sched_inv_held [OF s c] and ti = sched_inv_thread [OF s a]
  let ?t = "t\<lparr>th_state := T_RUNNING, th_cid := c\<rparr>" let ?x = "\<lparr>ctx_state = C_USED, curThread = Some a\<rparr>"
  let ?s = "(set_th a ?t s)\<lparr>contexts := (contexts s)[c := ?x], scheduledThreads := scheduledThreads s + 1,
     machine := core_contextSwitch co c (th_gid t) (machine s)\<rparr>"
  have len: "length (contexts s) = numCores s" using s by (simp add: sched_inv_def)
  have no: "curThread (contexts s ! d) \<noteq> Some a" if "d < numCores s" for d
    using sched_inv_ctx [OF s that] a st by (auto simp: ctx_inv_def)
  have quiet: "handoffThread t = None" "\<not> markedForSleep t" "fakeLeave t = None" "a \<notin> set (fakeLeaves s)" "length (th_mask t) = numCores s"
    using thread_quiet [OF ti] st by auto
  have x: "contexts s ! c = \<lparr>ctx_state = C_IDLE, curThread = None\<rparr>" using h by (cases "contexts s ! c") simp
  have "thread_inv ?s b u" if "threads ?s b = Some u" for b u
  proof (cases "b = a")
    case True
    then have u: "u = ?t" using that by simp
    have q: "a \<notin> set (outQueue s)" "a \<notin> set (sleepQueue s)" using thread_queues [OF ti] st by auto
    show ?thesis unfolding thread_inv_def using True u q quiet h len free(1) msk by simp
  next
    case False
    then have tb: "thread_inv s b u" using that s by (simp add: sched_inv_def)
    then have "th_cid u \<noteq> c" if "th_state u = T_RUNNING \<or> th_state u = T_OUT" using that h by (auto simp: thread_inv_def)
    then show ?thesis by (intro thread_inv_move [OF tb]) simp_all
  qed
  moreover have "ctx_inv ?s d" if "d < numCores s" for d
    using sched_inv_ctx [OF s that] no [OF that] len h by (cases "d = c") (auto simp: ctx_inv_def)
  moreover have idle': "idle ?s = idle s - {c}"
    using idle_update [of "set_th a ?t s" c ?x] len h by (simp add: idle_def)
  moreover have "queues_inv (set_th a ?t s)" using s a by (intro queues_upd) (simp_all add: sched_inv_def)
  then have "queues_inv ?s" by simp
  moreover have "handoff_inv (set_th a ?t s)" using s a free(2) quiet by (intro handoff_upd) (simp_all add: sched_inv_def)
  then have "handoff_inv ?s" by simp
  moreover have "work_conserving (H - {c}) ?s"
    unfolding work_conserving_def
  proof (intro ballI allI impI)
    fix b u d assume b: "b \<in> set (runQueue ?s)" "threads ?s b = Some u" "d < numCores ?s" "d \<notin> H - {c}" "th_mask u ! d"
    show "running_at ?s d"
    proof (cases "d = c")
      case True
      then show ?thesis using len h by (simp add: running_at_def)
    next
      case False
      have "b \<noteq> a" using b(1) free(1) by auto
      moreover have "work_conserving H s" using s by (simp add: sched_inv_def)
      ultimately have "running_at s d" using b False unfolding work_conserving_def by simp
      then show ?thesis using False a st by (auto simp: running_at_def)
    qed
  qed
  moreover have "finite (idle s)" "c \<in> idle s" using s c by (auto simp: idle_def sched_inv_def)
  moreover from this have "card (idle s) = Suc (card (idle s - {c}))" by (metis card_Suc_Diff1)
  moreover have "H - {c} \<subseteq> idle s - {c}" "idle s - {c} - (H - {c}) = idle s - H"
    using c s by (auto simp: sched_inv_def)
  ultimately have "sched_inv (H - {c}) ?s"
    using s len unfolding sched_inv_def idle' by simp
  moreover have "schedule co a c s = Inr ?s" using a st h len x by (auto simp: schedule_def get_th_def)
  moreover have "running_at ?s d \<longleftrightarrow> d = c \<or> running_at s d" if "d < numCores s" for d
  proof (cases "d = c")
    case True
    then show ?thesis using len that by (simp add: running_at_def)
  next
    case False
    then show ?thesis using no [OF that] running_other [of ?s d s a ?t] by simp
  qed
  ultimately show ?thesis by simp
qed

text \<open>The parts of the state that no operation of the threads changes.\<close>

definition kept :: "'x Scheduler \<Rightarrow> 'x Scheduler \<Rightarrow> bool" where
  "kept s s' \<longleftrightarrow> numCores s' = numCores s \<and> schedQuantum s' = schedQuantum s \<and> curPhase s' = curPhase s \<and> numPhases s' = numPhases s \<and> sch_rnd s' = sch_rnd s"

text \<open>The threads that lose their context: the context is then between two threads.\<close>

lemma park_inv:
  assumes s: "sched_inv H s" and a: "threads s a = Some t" and st: "th_state t = T_RUNNING \<or> th_state t = T_OUT" and c: "th_cid t = c"
    and k: "kept s s'" "freeList s' = freeList s" "runQueue s' = runQueue s" "scheduledThreads s' = scheduledThreads s - 1"
      "contexts s' = (contexts s)[c := \<lparr>ctx_state = C_IDLE, curThread = None\<rparr>]" "threads s' = (threads s)(a \<mapsto> t')"
      "outQueue s' = remove1 a (outQueue s)" "fakeLeaves s' = fakeLeaves s"
    and sq: "\<And>b. b \<in> set (sleepQueue s') \<longleftrightarrow> b \<in> set (sleepQueue s) \<or> b = a \<and> th_state t' = T_SLEEPING"
    and qi: "queues_inv s'" and ti': "thread_inv s' a t'" and st': "th_state t' \<noteq> T_RUNNING" "th_state t' \<noteq> T_OUT"
  shows "sched_inv (insert c H) s' \<and> (\<forall>d < numCores s. running_at s' d \<longleftrightarrow> d \<noteq> c \<and> running_at s d)"
proof -
  have len: "length (contexts s) = numCores s" and oq: "distinct (outQueue s)" and n: "numCores s' = numCores s"
    using s k(1) by (simp_all add: sched_inv_def queues_inv_def kept_def)
  note ti = sched_inv_thread [OF s a]
  have cn: "c < numCores s" "curThread (contexts s ! c) = Some a" using ti st c by (auto simp: thread_inv_def)
  have cur: "a' = a" if "threads s a' = Some u" "th_state u = T_RUNNING \<or> th_state u = T_OUT" "th_cid u = c" for a' u
    using sched_inv_thread [OF s that(1)] that(2,3) cn by (auto simp: thread_inv_def)
  have T: "thread_inv s' b u" if u: "threads s' b = Some u" for b u
  proof (cases "b = a")
    case True
    then show ?thesis using u ti' k(6) by simp
  next
    case False
    then have b: "threads s b = Some u" using u k(6) by simp
    have "th_state u = T_RUNNING \<or> th_state u = T_OUT \<Longrightarrow> contexts s' ! th_cid u = contexts s ! th_cid u"
      using cur [OF b] False k(5) by (cases "th_cid u = c") auto
    then show ?thesis
      using sched_inv_thread [OF s b] False n k(3,7,8) sq [of b] k(1) oq unfolding thread_inv_def kept_def by simp
  qed
  have C: "ctx_inv s' d" if "d < numCores s" for d
  proof (cases "d = c")
    case True
    then show ?thesis using that len k(5) by (simp add: ctx_inv_def)
  next
    case False
    then have e: "contexts s' ! d = contexts s ! d" using k(5) by simp
    have "b \<noteq> a" if "threads s b = Some u" "th_cid u = d" for b u using that False c a by auto
    then show ?thesis using sched_inv_ctx [OF s that] k(6) unfolding ctx_inv_def e by auto
  qed
  have idle': "idle s' = insert c (idle s)"
    using idle_update [of s c "\<lparr>ctx_state = C_IDLE, curThread = None\<rparr>"] len cn k(5) n by (simp add: idle_def)
  have "handoffThread t' = None" using ti' st'(1) by (auto simp: thread_inv_def)
  moreover have "\<not> promised s a" using not_promised [OF s a] st by auto
  ultimately have "handoff_inv (set_th a t' s)" using s a by (intro handoff_upd) (simp_all add: sched_inv_def)
  then have "handoff_inv s'" using k(3,6) handoff_cong [of s' "set_th a t' s"] by simp
  moreover have "work_conserving (insert c H) s'"
    unfolding work_conserving_def
  proof (intro ballI allI impI)
    fix b u d assume b: "b \<in> set (runQueue s')" "threads s' b = Some u" "d < numCores s'" "d \<notin> insert c H" "th_mask u ! d"
    have "b \<noteq> a" using b(1) k(3) ti st by (auto simp: thread_inv_def)
    moreover have "work_conserving H s" using s by (simp add: sched_inv_def)
    ultimately have "running_at s d" using b k(3,6) n unfolding work_conserving_def by simp
    then obtain e v where v: "curThread (contexts s ! d) = Some e" "threads s e = Some v" "th_state v = T_RUNNING"
      by (auto simp: running_at_def)
    have "d < numCores s" using b(3) n by simp
    then have "e \<noteq> a" using v(1) sched_inv_ctx [OF s, of d] b(4) a c by (auto simp: ctx_inv_def)
    then show "running_at s' d" using v b(4) k(5,6) by (auto simp: running_at_def)
  qed
  moreover have fin: "finite (idle s)" "c \<notin> idle s" using cn by (simp_all add: idle_def)
  moreover have "scheduledThreads s' + card (insert c (idle s)) = numCores s"
  proof -
    have "idle s \<subseteq> {..<numCores s} - {c}" using cn by (auto simp: idle_def)
    then have "card (idle s) \<le> card ({..<numCores s} - {c})" by (rule card_mono [rotated]) simp
    then have "card (idle s) < numCores s" using cn(1) by simp
    moreover have "scheduledThreads s + card (idle s) = numCores s" using s by (simp add: sched_inv_def)
    ultimately show ?thesis using fin k(4) by simp
  qed
  moreover have "set (freeList s') = insert c (idle s) - insert c H" "insert c H \<subseteq> insert c (idle s)"
    using fin(2) s k(2) by (auto simp: sched_inv_def)
  moreover have "running_at s' d \<longleftrightarrow> d \<noteq> c \<and> running_at s d" if "d < numCores s" for d
  proof (cases "d = c")
    case True
    then show ?thesis using k(5) len cn by (simp add: running_at_def)
  next
    case False
    then have "curThread (contexts s ! d) \<noteq> Some a" using sched_inv_ctx [OF s that] a c by (auto simp: ctx_inv_def)
    then show ?thesis using False running_other [OF _ k(6), of d] k(5) by simp
  qed
  ultimately show ?thesis
    using s T C len k(1,2,5) qi unfolding sched_inv_def idle' kept_def by simp
qed

text \<open>Changes that leave the contexts alone.\<close>

lemma change_inv:
  assumes s: "sched_inv H s"
    and k: "kept s s'" "freeList s' = freeList s" "contexts s' = contexts s" "scheduledThreads s' = scheduledThreads s"
      "threads s' = (threads s)(a \<mapsto> t')"
    and q: "\<And>b. b \<noteq> a \<Longrightarrow> (b \<in> set (runQueue s') \<longleftrightarrow> b \<in> set (runQueue s)) \<and> (b \<in> set (outQueue s') \<longleftrightarrow> b \<in> set (outQueue s)) \<and>
      (b \<in> set (sleepQueue s') \<longleftrightarrow> b \<in> set (sleepQueue s)) \<and> (b \<in> set (fakeLeaves s') \<longleftrightarrow> b \<in> set (fakeLeaves s))"
    and qi: "queues_inv s'" and hi: "handoff_inv s'" and wc: "work_conserving H s'" and ti': "thread_inv s' a t'"
    and run: "\<And>t. threads s a = Some t \<Longrightarrow> th_state t = T_RUNNING \<or> th_state t = T_OUT \<Longrightarrow>
      (th_state t' = T_RUNNING \<or> th_state t' = T_OUT) \<and> th_cid t' = th_cid t"
  shows "sched_inv H s'"
proof -
  have n: "numCores s' = numCores s" using k(1) by (simp add: kept_def)
  have "thread_inv s' b u" if u: "threads s' b = Some u" for b u
  proof (cases "b = a")
    case True
    then show ?thesis using u ti' k(5) by simp
  next
    case False
    then have "thread_inv s b u" using u k(5) s by (simp add: sched_inv_def)
    then show ?thesis using q [OF False] k(1,3) unfolding thread_inv_def kept_def by simp
  qed
  moreover have "ctx_inv s' d" if "d < numCores s" for d
    unfolding ctx_inv_def
  proof (intro conjI allI impI)
    note x = sched_inv_ctx [OF s that]
    show "ctx_state (contexts s' ! d) = C_IDLE" if "curThread (contexts s' ! d) = None" using x that k(3) by (simp add: ctx_inv_def)
    fix b assume b: "curThread (contexts s' ! d) = Some b"
    with x k(3) obtain t where t: "ctx_state (contexts s' ! d) = C_USED" "threads s b = Some t" "th_cid t = d"
      "th_state t = T_RUNNING \<or> th_state t = T_OUT" by (auto simp: ctx_inv_def)
    then show "ctx_state (contexts s' ! d) = C_USED" by simp
    show "\<exists>t. threads s' b = Some t \<and> th_cid t = d \<and> (th_state t = T_RUNNING \<or> th_state t = T_OUT)"
      using t run k(5) by (cases "b = a") auto
  qed
  moreover have "idle s' = idle s" using n k(3) by (simp add: idle_def)
  ultimately show ?thesis using s k qi hi wc unfolding sched_inv_def kept_def by simp
qed

text \<open>Work is conserved when no thread is added to the run queue and no thread stops to run.\<close>

lemma wc_mono:
  assumes "work_conserving H s" "numCores s' = numCores s" "contexts s' = contexts s" "threads s' = (threads s)(a \<mapsto> t')"
    "set (runQueue s') \<subseteq> set (runQueue s)"
    "\<And>t. threads s a = Some t \<Longrightarrow> th_mask t' = th_mask t \<and> (th_state t = T_RUNNING \<longrightarrow> th_state t' = T_RUNNING)"
    "a \<in> set (runQueue s') \<Longrightarrow> threads s a \<noteq> None"
  shows "work_conserving H s'"
  unfolding work_conserving_def
proof (intro ballI allI impI)
  fix b u d assume b: "b \<in> set (runQueue s')" "threads s' b = Some u" "d < numCores s'" "d \<notin> H" "th_mask u ! d"
  obtain u0 where "threads s b = Some u0" "th_mask u0 = th_mask u"
    using b(1,2) assms(4,6,7) by (cases "b = a") auto
  then have "running_at s d" using assms(1,2,5) b unfolding work_conserving_def by (metis subsetD)
  then obtain e v where v: "curThread (contexts s ! d) = Some e" "threads s e = Some v" "th_state v = T_RUNNING"
    by (auto simp: running_at_def)
  then show "running_at s' d" using assms(3,4,6) by (cases "e = a") (auto simp: running_at_def)
qed

end
