(* ===== verification/SchedOps.thy ===== *)
theory SchedOps
  imports SchedInv
begin

text \<open>
  The scheduler's operations (scheduler.h) keep the invariant of \<open>SchedInv\<close>; the callback meets the contract of the
  barrier's locale, and the scheduler with its barrier is one transition system, whose reachable states are safe.
\<close>

lemma running_frame [simp]: "running_at (s\<lparr>machine := x\<rparr>) = running_at s" "running_at (s\<lparr>freeList := fl\<rparr>) = running_at s"
  "running_at (s\<lparr>runQueue := q\<rparr>) = running_at s" "running_at (s\<lparr>gidMap := g\<rparr>) = running_at s" "promised (s\<lparr>machine := x\<rparr>) = promised s"
  by (simp_all add: running_at_def promised_def fun_eq_iff)

subsection \<open>The policy\<close>

lemma first_allowed_ok:
  assumes "\<forall>c \<in> set cs. c < length msk"
  shows "\<exists>r. first_allowed msk cs = Inr r \<and> (case r of None \<Rightarrow> \<forall>c \<in> set cs. \<not> msk ! c | Some c \<Rightarrow> c \<in> set cs \<and> msk ! c)"
  using assms by (induction cs) (force simp: aget_def split: option.splits)+

lemma first_using_ok:
  assumes "\<And>a. a \<in> set q \<Longrightarrow> \<exists>t. threads s a = Some t \<and> c < length (th_mask t)"
  shows "\<exists>r. first_using c s q = Inr r \<and> (case r of None \<Rightarrow> \<forall>a \<in> set q. \<forall>t. threads s a = Some t \<longrightarrow> \<not> th_mask t ! c
    | Some a \<Rightarrow> a \<in> set q \<and> (\<exists>t. threads s a = Some t \<and> th_mask t ! c))"
  using assms
proof (induction q)
  case (Cons a q)
  obtain t where t: "threads s a = Some t" "c < length (th_mask t)" using Cons.prems by force
  obtain r where r: "first_using c s q = Inr r" "case r of None \<Rightarrow> \<forall>a \<in> set q. \<forall>t. threads s a = Some t \<longrightarrow> \<not> th_mask t ! c
    | Some a \<Rightarrow> a \<in> set q \<and> (\<exists>t. threads s a = Some t \<and> th_mask t ! c)" using Cons by force
  show ?case using t r by (cases "th_mask t ! c") (auto simp: get_th_def aget_def split: option.splits)
qed simp

lemma first_out_ok:
  assumes "\<And>a. a \<in> set q \<Longrightarrow> \<exists>t. threads s a = Some t \<and> th_cid t < length msk"
  shows "\<exists>r. first_out msk s q = Inr r \<and> (case r of None \<Rightarrow> \<forall>a \<in> set q. \<forall>t. threads s a = Some t \<longrightarrow> \<not> msk ! th_cid t
    | Some a \<Rightarrow> a \<in> set q \<and> (\<exists>t. threads s a = Some t \<and> msk ! th_cid t))"
  using assms
proof (induction q)
  case (Cons a q)
  obtain t where t: "threads s a = Some t" "th_cid t < length msk" using Cons.prems by force
  obtain r where r: "first_out msk s q = Inr r" "case r of None \<Rightarrow> \<forall>a \<in> set q. \<forall>t. threads s a = Some t \<longrightarrow> \<not> msk ! th_cid t
    | Some a \<Rightarrow> a \<in> set q \<and> (\<exists>t. threads s a = Some t \<and> msk ! th_cid t)" using Cons by force
  show ?case using t r by (cases "msk ! th_cid t") (auto simp: get_th_def aget_def split: option.splits)
qed simp

text \<open>A thread that left is descheduled.\<close>

lemma steal_inv:
  assumes s: "sched_inv H s" and u: "threads s o' = Some u" "th_state u = T_OUT"
  shows "\<exists>s1 s2. outQueue_remove o' s = Inr s1 \<and> deschedule co o' (th_cid u) T_BLOCKED s1 = Inr s2 \<and>
    sched_inv (insert (th_cid u) H) s2 \<and> threads s2 = (threads s)(o' \<mapsto> u\<lparr>th_state := T_BLOCKED\<rparr>) \<and> runQueue s2 = runQueue s \<and> numCores s2 = numCores s \<and>
    no_owner o' s2 \<and> curPhase s2 = curPhase s \<and> (\<forall>d < numCores s. running_at s2 d = running_at s d)"
proof -
  note ti = sched_inv_thread [OF s u(1)] and q = sched_inv_parts [OF s]
  let ?u = "u\<lparr>th_state := T_BLOCKED\<rparr>" let ?c = "th_cid u"
  have p: "curThread (contexts s ! ?c) = Some o'" "?c < numCores s" "o' \<in> set (outQueue s)" "o' \<notin> set (sleepQueue s)"
    "o' \<notin> set (runQueue s)"
    using thread_placed [OF ti] thread_quiet [OF ti] thread_queues [OF ti] u(2) by auto
  have x: "contexts s ! ?c = \<lparr>ctx_state = C_USED, curThread = Some o'\<rparr>"
    using sched_inv_ctx [OF s p(2)] p(1) by (cases "contexts s ! ?c") (simp add: ctx_inv_def)
  let ?s1 = "s\<lparr>outQueue := remove1 o' (outQueue s)\<rparr>"
  let ?s2 = "(set_th o' ?u ?s1)\<lparr>contexts := (contexts s)[?c := \<lparr>ctx_state = C_IDLE, curThread = None\<rparr>],
    scheduledThreads := scheduledThreads s - 1, machine := core_contextSwitch co ?c (- 1) (machine s)\<rparr>"
  have D: "deschedule co o' ?c T_BLOCKED ?s1 = Inr ?s2"
    using u p x q(4) by (simp add: deschedule_def get_th_def)
  have od: "distinct (outQueue s)" using q(2) by (simp add: queues_inv_def)
  have no: "no_owner o' ?s2" using p od by (simp add: no_owner_def)
  have qi: "queues_inv (set_th o' ?u ?s1)"
  proof (rule queues_upd)
    have "no_owner a s" if "no_owner a s \<and> a \<noteq> o'" for a using that by simp
    show "queues_inv ?s1" using q(2) u(1) od unfolding queues_inv_def no_owner_def by simp
  qed (use p in simp)
  have t2: "thread_inv ?s2 o' ?u"
    using no thread_quiet [OF ti] u(2) by (simp add: thread_inv_def no_owner_def)
  have "sched_inv (insert ?c H) ?s2 \<and> (\<forall>d < numCores s. running_at ?s2 d \<longleftrightarrow> d \<noteq> ?c \<and> running_at s d)"
    by (rule park_inv [OF s u(1) _ refl, where t' = ?u]) (use u qi t2 in \<open>simp_all add: kept_def\<close>)
  moreover have "\<not> running_at s ?c" using p u by (simp add: running_at_def)
  ultimately have I: "sched_inv (insert ?c H) ?s2" "\<forall>d < numCores s. running_at ?s2 d = running_at s d" by auto
  have "outQueue_remove o' s = Inr ?s1" using p by (simp add: outQueue_remove_def)
  with D I no show ?thesis by (intro exI [of _ ?s1] exI [of _ ?s2] conjI) simp_all
qed

lemma rbind_rbind: "rbind (rbind m f) g = rbind m (\<lambda>x. rbind (f x) g)"
  by (cases m) simp_all

lemma schedThread_inv:
  assumes s: "sched_inv {} s" and a: "threads s a = Some t" and st: "th_state t = T_STARTED \<or> th_state t = T_BLOCKED \<or> th_state t = T_QUEUED"
  shows "schedThread co a s = Inr (None, s) \<and> (\<forall>c < numCores s. th_mask t ! c \<longrightarrow> running_at s c) \<or>
    (\<exists>c s'. schedThread co a s = Inr (Some c, s') \<and> sched_inv {c} s' \<and> threads s' a = Some t \<and> th_mask t ! c \<and> c < numCores s \<and>
      \<not> running_at s c \<and> runQueue s' = runQueue s \<and> numCores s' = numCores s \<and> (promised s' a \<longrightarrow> promised s a) \<and> curPhase s' = curPhase s \<and>
      (\<forall>d < numCores s. running_at s' d = running_at s d))"
proof -
  note ti = sched_inv_thread [OF s a] and q = sched_inv_parts [OF s]
  have msk: "length (th_mask t) = numCores s" "th_cid t < numCores s" using thread_quiet [OF ti] by blast+
  have fl: "set (freeList s) = idle s" using s by (simp add: sched_inv_def)
  define here where "here \<longleftrightarrow> ctx_state (contexts s ! th_cid t) = C_IDLE \<and> th_mask t ! th_cid t"
  have free: ?thesis
    if c: "c \<in> set (freeList s)" "th_mask t ! c"
      and e: "schedThread co a s = rbind (freeList_remove c s) (\<lambda>s1. rbind (aget (th_mask t) c) (\<lambda>m. check m AssertFailed (Inr (Some c, s1))))" for c
  proof -
    have c': "c < numCores s" "\<not> running_at s c" using c(1) fl by (auto simp: idle_def running_at_def)
    from freeList_remove_inv [OF s c(1)] obtain s' where s': "freeList_remove c s = Inr s'" "sched_inv {c} s'" "s' = s\<lparr>freeList := remove1 c (freeList s)\<rparr>"
      by auto
    then have "schedThread co a s = Inr (Some c, s')" using e c(2) c'(1) msk by simp
    then show ?thesis using s' c(2) c' a by (auto simp: promised_def running_at_def)
  qed
  obtain f where f: "first_allowed (th_mask t) (freeList s) = Inr f"
      "case f of None \<Rightarrow> \<forall>c \<in> set (freeList s). \<not> th_mask t ! c | Some c \<Rightarrow> c \<in> set (freeList s) \<and> th_mask t ! c"
    using first_allowed_ok [of "freeList s" "th_mask t"] fl msk by (auto simp: idle_def)
  show ?thesis
  proof (cases here)
    case True
    then have i: "th_cid t \<in> set (freeList s)"
      using fl msk sched_inv_ctx [OF s msk(2)] by (auto simp: here_def idle_def ctx_inv_def)
    show ?thesis by (rule free [OF i]) (use True a msk q(4) in \<open>auto simp: here_def schedThread_def get_th_def rbind_rbind\<close>)
  next
    case nh: False
    show ?thesis
    proof (cases f)
      case (Some c)
      show ?thesis by (rule free [of c]) (use nh a msk q(4) f Some in \<open>auto simp: here_def schedThread_def get_th_def rbind_rbind\<close>)
    next
      case None
      have ex: "\<exists>u. threads s b = Some u \<and> th_cid u < length (th_mask t) \<and> th_state u = T_OUT" if "b \<in> set (outQueue s)" for b
      proof -
        from that q(2) obtain u where u: "threads s b = Some u" by (auto simp: queues_inv_def no_owner_def)
        from thread_queues(1) [OF sched_inv_thread [OF s u]] thread_quiet(2) [OF sched_inv_thread [OF s u]] that u msk(1) show ?thesis by simp
      qed
      with first_out_ok [of "outQueue s" s "th_mask t"] obtain g where g: "first_out (th_mask t) s (outQueue s) = Inr g"
        "case g of None \<Rightarrow> \<forall>b \<in> set (outQueue s). \<forall>u. threads s b = Some u \<longrightarrow> \<not> th_mask t ! th_cid u
          | Some b \<Rightarrow> b \<in> set (outQueue s) \<and> (\<exists>u. threads s b = Some u \<and> th_mask t ! th_cid u)" by blast
      show ?thesis
      proof (cases g)
        case None
        have "running_at s c" if c: "c < numCores s" "th_mask t ! c" for c
        proof (cases "curThread (contexts s ! c)")
          case None
          then show ?thesis using f \<open>f = None\<close> fl c by (auto simp: idle_def)
        next
          case (Some b)
          then obtain u where u: "threads s b = Some u" "th_cid u = c" "th_state u = T_RUNNING \<or> th_state u = T_OUT"
            using sched_inv_ctx [OF s c(1)] by (auto simp: ctx_inv_def)
          then have "th_state u \<noteq> T_OUT" using thread_queues(1) [OF sched_inv_thread [OF s u(1)]] g(2) None c(2) by auto
          then show ?thesis using u Some by (auto simp: running_at_def)
        qed
        then show ?thesis using nh a msk q(4) f(1) \<open>f = None\<close> g(1) None by (auto simp: here_def schedThread_def get_th_def)
      next
        case (Some b)
        with g(2) ex obtain u where u: "threads s b = Some u" "th_mask t ! th_cid u" "th_state u = T_OUT" by fastforce
        have uc: "th_cid u < numCores s" "curThread (contexts s ! th_cid u) = Some b"
          using thread_quiet(2) [OF sched_inv_thread [OF s u(1)]] thread_placed(1) [OF sched_inv_thread [OF s u(1)]] u(3) by blast+
        from steal_inv [OF s u(1,3), of co] obtain s1 s2 where s2: "outQueue_remove b s = Inr s1"
          "deschedule co b (th_cid u) T_BLOCKED s1 = Inr s2" "sched_inv {th_cid u} s2" "threads s2 = (threads s)(b \<mapsto> u\<lparr>th_state := T_BLOCKED\<rparr>)"
          "runQueue s2 = runQueue s" "numCores s2 = numCores s" "curPhase s2 = curPhase s" "\<forall>d < numCores s. running_at s2 d = running_at s d" by blast
        have "schedThread co a s = Inr (Some (th_cid u), s2)"
          using nh a msk q(4) f(1) \<open>f = None\<close> g(1) Some u uc s2(1,2) by (auto simp: here_def schedThread_def get_th_def)
        moreover have "threads s2 a = Some t" using a u(1,3) st s2(4) by auto
        moreover have "promised s2 a \<longrightarrow> promised s a" using promised_upd [OF _ s2(4)] u(1) by auto
        moreover have "\<not> running_at s (th_cid u)" using uc u by (simp add: running_at_def)
        ultimately show ?thesis using s2 uc u(2) by blast
      qed
    qed
  qed
qed

text \<open>A queued thread leaves the run queue.\<close>

lemma dequeue_inv:
  assumes s: "sched_inv H s" and i: "i \<in> set (runQueue s)" "threads s i = Some u"
  defines "s' \<equiv> s\<lparr>runQueue := remove1 i (runQueue s)\<rparr>"
  shows "runQueue_remove i s = Inr s'" "sched_inv H s'" "th_state u = T_QUEUED" "th_futexWord u = 1" "no_owner i s'" "\<not> promised s' i"
proof -
  note q = sched_inv_parts [OF s] and ti = sched_inv_thread [OF s i(2)]
  show uq: "th_state u = T_QUEUED" "th_futexWord u = 1" using thread_queues(3) [OF ti i(1)] by blast+
  have di: "distinct (runQueue s)" using q(2) by (simp add: queues_inv_def)
  have np: "\<not> promised s i" using not_promised [OF s i(2)] i(1) by blast
  then show "\<not> promised s' i" by (simp add: promised_def s'_def)
  have no: "i \<notin> set (outQueue s)" "i \<notin> set (sleepQueue s)" using thread_queues [OF ti] uq by simp_all
  then show "no_owner i s'" using di by (simp add: no_owner_def s'_def)
  show "sched_inv H s'"
    unfolding s'_def
  proof (rule change_inv [OF s, where a = i and t' = u])
    let ?s = "s\<lparr>runQueue := remove1 i (runQueue s)\<rparr>"
    show "queues_inv ?s" using q(2) unfolding queues_inv_def no_owner_def by auto
    show "handoff_inv ?s"
      by (rule handoff_dequeue [OF q(1)]) (simp_all add: set_remove1_subset)
    show "work_conserving H ?s"
      by (rule wc_mono [OF q(3), where a = i and t' = u]) (use i(2) di in \<open>simp_all add: set_remove1_subset map_upd_triv\<close>)
    show "thread_inv ?s i u" using ti di uq no by (simp add: thread_inv_def)
  qed (use i di in \<open>auto simp: kept_def\<close>)
  show "runQueue_remove i s = Inr s'" using i(1) by (simp add: runQueue_remove_def s'_def)
qed

lemma schedContext_inv:
  assumes s: "sched_inv H s" and c: "c < numCores s"
  shows "schedContext c s = Inr (None, s) \<and> (\<forall>a \<in> set (runQueue s). \<forall>t. threads s a = Some t \<longrightarrow> \<not> th_mask t ! c) \<or>
    (\<exists>i u s'. schedContext c s = Inr (Some i, s') \<and> i \<in> set (runQueue s) \<and> s' = s\<lparr>runQueue := remove1 i (runQueue s)\<rparr> \<and>
      sched_inv H s' \<and> threads s i = Some u \<and> th_state u = T_QUEUED \<and> th_futexWord u = 1 \<and> th_mask u ! c \<and>
      i \<notin> set (runQueue s') \<and> \<not> promised s' i)"
proof -
  note q = sched_inv_parts [OF s]
  have ex: "\<exists>t. threads s a = Some t \<and> c < length (th_mask t)" if "a \<in> set (runQueue s)" for a
  proof -
    from that q(2) obtain t where "threads s a = Some t" by (auto simp: queues_inv_def no_owner_def)
    with thread_quiet(1) [OF sched_inv_thread [OF s]] c show ?thesis by auto
  qed
  with first_using_ok [of "runQueue s" s c] obtain r where r: "first_using c s (runQueue s) = Inr r"
    "case r of None \<Rightarrow> \<forall>a \<in> set (runQueue s). \<forall>t. threads s a = Some t \<longrightarrow> \<not> th_mask t ! c
      | Some a \<Rightarrow> a \<in> set (runQueue s) \<and> (\<exists>t. threads s a = Some t \<and> th_mask t ! c)" by blast
  show ?thesis
  proof (cases r)
    case None
    then show ?thesis using r by (simp add: schedContext_def)
  next
    case (Some i)
    with r(2) obtain u where u: "i \<in> set (runQueue s)" "threads s i = Some u" "th_mask u ! c" by auto
    note d = dequeue_inv [OF s u(1,2)]
    then have "i \<notin> set (runQueue (s\<lparr>runQueue := remove1 i (runQueue s)\<rparr>))" by (simp add: no_owner_def)
    with d show ?thesis using r(1) Some u by (simp add: schedContext_def)
  qed
qed

subsection \<open>Operations on one thread\<close>

lemma set_th_inv:
  assumes s: "sched_inv H s" and a: "threads s a = Some t" and ti': "thread_inv s a t'"
    and same: "th_mask t' = th_mask t" "th_cid t' = th_cid t" "th_state t' = th_state t"
      "handoffThread t' = None \<or> handoffThread t' = handoffThread t" "th_state t = T_SLEEPING \<Longrightarrow> wakeupPhase t' = wakeupPhase t"
      "promised s a \<Longrightarrow> th_futexWord t' = th_futexWord t"
  shows "sched_inv H (set_th a t' s) \<and> (\<forall>d. running_at (set_th a t' s) d = running_at s d)"
proof
  note ti = sched_inv_thread [OF s a] and q = sched_inv_parts [OF s]
  show "sched_inv H (set_th a t' s)"
  proof (rule change_inv [OF s, where a = a and t' = t'])
    show "queues_inv (set_th a t' s)" using q(2) a same(5) thread_queues(2) [OF ti] by (intro queues_upd) auto
    show "handoff_inv (set_th a t' s)" using q(1) a same by (intro handoff_upd) auto
    show "work_conserving H (set_th a t' s)"
      by (rule wc_mono [OF q(3), where a = a and t' = t']) (use same a in simp_all)
  qed (use same a ti' in \<open>simp_all add: kept_def\<close>)
  show "\<forall>d. running_at (set_th a t' s) d = running_at s d" using a same(3) by (auto simp: running_at_def)
qed

lemma wakeup_inv:
  assumes s: "sched_inv H s" and a: "threads s a = Some t" "th_futexWord t = 1" "th_state t = T_RUNNING" "\<not> markedForSleep t"
  shows "\<exists>s'. wakeup a n s = Inr s' \<and> sched_inv H s' \<and> threads s' = (threads s)(a \<mapsto> t\<lparr>needsJoin := n, th_futexWord := 0\<rparr>) \<and>
    runQueue s' = runQueue s \<and> numCores s' = numCores s \<and> curPhase s' = curPhase s \<and> (\<forall>d. running_at s' d = running_at s d)"
proof -
  let ?t = "t\<lparr>needsJoin := n, th_futexWord := 0\<rparr>"
  note ti = sched_inv_thread [OF s a(1)]
  have "a \<notin> set (runQueue s)" using thread_queues(3) [OF ti] a(3) by auto
  then have "thread_inv s a ?t" using ti a(3,4) by (simp add: thread_inv_def)
  moreover have "\<not> promised s a" using not_promised [OF s a(1)] a(3) by simp
  ultimately have "sched_inv H (set_th a ?t s) \<and> (\<forall>d. running_at (set_th a ?t s) d = running_at s d)"
    by (intro set_th_inv [OF s a(1)]) simp_all
  moreover have "wakeup a n s = Inr (set_th a ?t s)" using a by (simp add: wakeup_def get_th_def)
  ultimately show ?thesis by simp
qed

lemma give_context_inv:
  assumes s: "sched_inv H s" and c: "c \<in> H" and i: "threads s i = Some u" "th_state u = T_QUEUED" "th_futexWord u = 1" "th_mask u ! c"
    "i \<notin> set (runQueue s)" "\<not> promised s i"
  shows "\<exists>s'. give_context co i c s = Inr s' \<and> sched_inv (H - {c}) s' \<and> runQueue s' = runQueue s \<and> numCores s' = numCores s \<and>
    threads s' = (threads s)(i \<mapsto> u\<lparr>th_state := T_RUNNING, th_cid := c, needsJoin := False, th_futexWord := 0\<rparr>) \<and>
    curPhase s' = curPhase s \<and> (\<forall>d < numCores s. running_at s' d \<longleftrightarrow> d = c \<or> running_at s d)"
proof -
  from schedule_inv [OF s c i(1) _ i(5,6,4), of co] i(2) obtain s1 where s1: "schedule co i c s = Inr s1" "sched_inv (H - {c}) s1"
    "threads s1 = (threads s)(i \<mapsto> u\<lparr>th_state := T_RUNNING, th_cid := c\<rparr>)" "runQueue s1 = runQueue s" "numCores s1 = numCores s"
    "curPhase s1 = curPhase s" "\<forall>d < numCores s. running_at s1 d \<longleftrightarrow> d = c \<or> running_at s d" by blast
  have "\<not> markedForSleep u" using thread_quiet(3) [OF sched_inv_thread [OF s i(1)]] i(2) by simp
  with wakeup_inv [of "H - {c}" "s1\<lparr>machine := core_join co c (machine s1)\<rparr>" i "u\<lparr>th_state := T_RUNNING, th_cid := c\<rparr>" False] s1 i(3)
  obtain s2 where "wakeup i False (s1\<lparr>machine := core_join co c (machine s1)\<rparr>) = Inr s2" "sched_inv (H - {c}) s2"
    "threads s2 = (threads s1)(i \<mapsto> u\<lparr>th_state := T_RUNNING, th_cid := c, needsJoin := False, th_futexWord := 0\<rparr>)"
    "runQueue s2 = runQueue s1" "numCores s2 = numCores s1" "curPhase s2 = curPhase s1" "\<forall>d. running_at s2 d = running_at s1 d"
    by auto
  then show ?thesis using s1 by (simp add: give_context_def)
qed

lemma sorted_wrt_remove1: "sorted_wrt P xs \<Longrightarrow> sorted_wrt P (remove1 a xs)"
proof (induction xs)
  case (Cons x xs)
  then show ?case using notin_set_remove1 [of _ xs a] by (cases "x = a") auto
qed simp

lemma queues_shrink:
  assumes "queues_inv s" "threads s' = threads s" "distinct (runQueue s')" "distinct (outQueue s')" "distinct (sleepQueue s')" "distinct (fakeLeaves s')"
    "set (runQueue s') \<subseteq> set (runQueue s)" "set (outQueue s') \<subseteq> set (outQueue s)" "set (sleepQueue s') \<subseteq> set (sleepQueue s)"
    "set (fakeLeaves s') \<subseteq> set (fakeLeaves s)" "sleepQueue s' = sleepQueue s \<or> sleepQueue s' = remove1 a (sleepQueue s)"
  shows "queues_inv s'"
proof -
  have "\<forall>b. \<not> no_owner b s' \<or> b \<in> set (fakeLeaves s') \<longrightarrow> threads s b \<noteq> None"
    using assms(1,7-10) unfolding queues_inv_def no_owner_def by blast
  moreover have "sorted_wrt (\<lambda>b c. \<forall>t u. threads s b = Some t \<longrightarrow> threads s c = Some u \<longrightarrow> wakeupPhase t \<le> wakeupPhase u) (sleepQueue s')"
  proof -
    have "sorted_wrt (\<lambda>b c. \<forall>t u. threads s b = Some t \<longrightarrow> threads s c = Some u \<longrightarrow> wakeupPhase t \<le> wakeupPhase u) (sleepQueue s)"
      using assms(1) unfolding queues_inv_def by blast
    then show ?thesis using assms(11) sorted_wrt_remove1 by fastforce
  qed
  ultimately show ?thesis using assms(2-6) unfolding queues_inv_def by simp
qed

text \<open>A thread enters the run queue, leaves for the out queue, comes back from it, or leaves the sleep queue.\<close>

lemma handoff_enqueue:
  assumes "handoff_inv s" "\<not> promised s a" "threads s' = threads s" "runQueue s' = runQueue s @ [a]"
  shows "handoff_inv s'"
  unfolding handoff_inv_def assms(3)
proof (intro allI impI)
  fix b v h assume v: "threads s b = Some v" "handoffThread v = Some h"
  then have "h \<noteq> a" using assms(2) by (auto simp: promised_def)
  with assms(1,4) v show "h \<notin> set (runQueue s') \<and>
     (\<exists>u. threads s h = Some u \<and> th_state u = T_QUEUED \<and> th_futexWord u = 1 \<and> th_mask u ! th_cid v) \<and>
     (\<forall>a' t'. threads s a' = Some t' \<longrightarrow> handoffThread t' = Some h \<longrightarrow> a' = b)"
    unfolding handoff_inv_def by (metis Un_iff empty_iff insert_iff list.set set_append)
qed

lemma enqueue_inv:
  assumes s: "sched_inv {} s" and a: "threads s a = Some t" and st: "th_state t = T_STARTED \<or> th_state t = T_BLOCKED \<or> th_state t = T_QUEUED"
    and free: "a \<notin> set (runQueue s)" "\<not> promised s a" and full: "\<forall>c < numCores s. th_mask t ! c \<longrightarrow> running_at s c"
    and s': "threads s' = (threads s)(a \<mapsto> t\<lparr>th_state := T_QUEUED, th_futexWord := 1\<rparr>)" "runQueue s' = runQueue s @ [a]"
      "kept s s'" "freeList s' = freeList s" "contexts s' = contexts s" "scheduledThreads s' = scheduledThreads s"
      "outQueue s' = outQueue s" "sleepQueue s' = sleepQueue s" "fakeLeaves s' = fakeLeaves s"
  shows "sched_inv {} s' \<and> (\<forall>d < numCores s. running_at s' d = running_at s d)"
proof -
  let ?t = "t\<lparr>th_state := T_QUEUED, th_futexWord := 1\<rparr>"
  note ti = sched_inv_thread [OF s a] and q = sched_inv_parts [OF s]
  have no: "a \<notin> set (outQueue s)" "a \<notin> set (sleepQueue s)" using thread_queues [OF ti] st by auto
  have quiet: "handoffThread t = None" "\<not> markedForSleep t" "fakeLeave t = None" "a \<notin> set (fakeLeaves s)"
    using thread_quiet(3) [OF ti] st by auto
  have run: "running_at s' d = running_at s d" if "d < numCores s" for d
  proof (rule running_other [OF _ s'(1)])
    show "curThread (contexts s ! d) \<noteq> Some a" using sched_inv_ctx [OF s that] a st by (auto simp: ctx_inv_def)
  qed (simp add: s')
  have n: "numCores s' = numCores s" using s'(3) by (simp add: kept_def)
  have "sched_inv {} s'"
  proof (rule change_inv [OF s s'(3,4,5,6,1)])
    have "queues_inv (set_th a ?t s)" using q(2) no by (intro queues_upd) simp_all
    then show "queues_inv s'" using free(1) a s' unfolding queues_inv_def no_owner_def by simp
    have "handoff_inv (set_th a ?t s)" by (rule handoff_upd [OF q(1) a]) (use quiet free(2) in simp_all)
    moreover have "\<not> promised (set_th a ?t s) a" using promised_upd [of "set_th a ?t s" a s a ?t] quiet(1) free(2) by auto
    ultimately show "handoff_inv s'" by (rule handoff_enqueue) (simp_all add: s')
    show "work_conserving {} s'"
      unfolding work_conserving_def
    proof (intro ballI allI impI)
      fix b u d assume b: "b \<in> set (runQueue s')" "threads s' b = Some u" "d < numCores s'" "th_mask u ! d"
      show "running_at s' d"
      proof (cases "b = a")
        case True
        then have "u = ?t" using b(2) s'(1) by simp
        then have "th_mask t ! d" using b(4) by simp
        then show ?thesis using b(3) full n run by simp
      next
        case False
        then have "running_at s d" using q(3) b s'(1,2) n unfolding work_conserving_def by simp
        then show ?thesis using run b(3) n by simp
      qed
    qed
    show "thread_inv s' a ?t"
      using ti no quiet st s' n by (simp add: thread_inv_def kept_def)
  qed (use s' a st in auto)
  with run show ?thesis by blast
qed

lemma out_inv:
  assumes s: "sched_inv {} s" and a: "threads s a = Some t" "th_state t = T_RUNNING" "\<not> markedForSleep t" "handoffThread t = None" "fakeLeave t = None"
    and none: "\<forall>b \<in> set (runQueue s). \<forall>u. threads s b = Some u \<longrightarrow> \<not> th_mask u ! th_cid t"
    and s': "threads s' = (threads s)(a \<mapsto> t\<lparr>th_state := T_OUT\<rparr>)" "outQueue s' = outQueue s @ [a]"
      "kept s s'" "freeList s' = freeList s" "contexts s' = contexts s" "scheduledThreads s' = scheduledThreads s"
      "runQueue s' = runQueue s" "sleepQueue s' = sleepQueue s" "fakeLeaves s' = fakeLeaves s"
  shows "sched_inv {} s' \<and> (\<forall>d < numCores s. running_at s' d \<longleftrightarrow> d \<noteq> th_cid t \<and> running_at s d)"
proof -
  let ?t = "t\<lparr>th_state := T_OUT\<rparr>"
  note ti = sched_inv_thread [OF s a(1)] and q = sched_inv_parts [OF s]
  have no: "a \<notin> set (outQueue s)" "a \<notin> set (sleepQueue s)" "a \<notin> set (runQueue s)" using thread_queues [OF ti] a(2) by auto
  note cur = thread_placed [OF ti disjI1 [OF a(2)]]
  have run: "running_at s' d \<longleftrightarrow> d \<noteq> th_cid t \<and> running_at s d" if "d < numCores s" for d
  proof (cases "d = th_cid t")
    case True
    then show ?thesis using cur s' by (simp add: running_at_def)
  next
    case False
    have "curThread (contexts s ! d) \<noteq> Some a" using sched_inv_ctx [OF s that] a False by (auto simp: ctx_inv_def)
    then show ?thesis using running_other [OF _ s'(1), of d] s'(5) False by simp
  qed
  have n: "numCores s' = numCores s" using s'(3) by (simp add: kept_def)
  have np: "\<not> promised s a" using not_promised [OF s a(1)] a(2) by simp
  have "sched_inv {} s'"
  proof (rule change_inv [OF s s'(3,4,5,6,1)])
    have "queues_inv (set_th a ?t s)" using q(2) no by (intro queues_upd) simp_all
    then show "queues_inv s'" using no a s' unfolding queues_inv_def no_owner_def by simp
    have "handoff_inv (set_th a ?t s)" by (rule handoff_upd [OF q(1) a(1)]) (use np in simp_all)
    then show "handoff_inv s'" using handoff_cong [of s' "set_th a ?t s"] s' by simp
    show "work_conserving {} s'"
      unfolding work_conserving_def
    proof (intro ballI allI impI)
      fix b u d assume b: "b \<in> set (runQueue s')" "threads s' b = Some u" "d < numCores s'" "th_mask u ! d"
      have "b \<noteq> a" using b(1) no s' by auto
      then have b': "b \<in> set (runQueue s)" "threads s b = Some u" using b s' by auto
      then have "running_at s d" "d \<noteq> th_cid t" using q(3) b n none unfolding work_conserving_def by auto
      then show "running_at s' d" using run b(3) n by simp
    qed
    show "thread_inv s' a ?t"
      using ti no a cur s' n by (simp add: thread_inv_def kept_def)
  qed (use s' a in auto)
  with run show ?thesis by blast
qed

lemma rejoin_inv:
  assumes s: "sched_inv {} s" and a: "threads s a = Some t" "th_state t = T_OUT"
    and s': "threads s' = (threads s)(a \<mapsto> t\<lparr>th_state := T_RUNNING\<rparr>)" "outQueue s' = remove1 a (outQueue s)"
      "kept s s'" "freeList s' = freeList s" "contexts s' = contexts s" "scheduledThreads s' = scheduledThreads s"
      "runQueue s' = runQueue s" "sleepQueue s' = sleepQueue s" "fakeLeaves s' = fakeLeaves s"
  shows "sched_inv {} s' \<and> (\<forall>d < numCores s. running_at s' d \<longleftrightarrow> d = th_cid t \<or> running_at s d) \<and> \<not> running_at s (th_cid t)"
proof -
  let ?t = "t\<lparr>th_state := T_RUNNING\<rparr>"
  note ti = sched_inv_thread [OF s a(1)] and q = sched_inv_parts [OF s]
  have no: "a \<in> set (outQueue s)" "a \<notin> set (sleepQueue s)" "a \<notin> set (runQueue s)" using thread_queues [OF ti] a(2) by auto
  note cur = thread_placed [OF ti disjI2 [OF a(2)]]
  have quiet: "handoffThread t = None" "\<not> markedForSleep t" "fakeLeave t = None" "a \<notin> set (fakeLeaves s)"
    using thread_quiet(3) [OF ti] a(2) by auto
  have run: "running_at s' d \<longleftrightarrow> d = th_cid t \<or> running_at s d" if "d < numCores s" for d
  proof (cases "d = th_cid t")
    case True
    then show ?thesis using cur s' by (simp add: running_at_def)
  next
    case False
    have "curThread (contexts s ! d) \<noteq> Some a" using sched_inv_ctx [OF s that] a False by (auto simp: ctx_inv_def)
    then show ?thesis using running_other [OF _ s'(1), of d] s'(5) False by simp
  qed
  have n: "numCores s' = numCores s" and od: "distinct (outQueue s)" using s'(3) q(2) by (simp_all add: kept_def queues_inv_def)
  have np: "\<not> promised s a" using not_promised [OF s a(1)] a(2) by simp
  have "sched_inv {} s'"
  proof (rule change_inv [OF s s'(3,4,5,6,1)])
    have "queues_inv (set_th a ?t s)" using q(2) no by (intro queues_upd) simp_all
    then show "queues_inv s'"
      by (rule queues_shrink) (use s' q(2) in \<open>simp_all add: queues_inv_def set_remove1_subset\<close>)
    have "handoff_inv (set_th a ?t s)" by (rule handoff_upd [OF q(1) a(1)]) (use np in simp_all)
    then show "handoff_inv s'" using handoff_cong [of s' "set_th a ?t s"] s' by simp
    show "work_conserving {} s'" by (rule wc_mono [OF q(3) n s'(5) s'(1)]) (use s' a no in auto)
    show "thread_inv s' a ?t"
      using ti no a cur s' n od quiet by (simp add: thread_inv_def kept_def)
  qed (use s' a od in auto)
  moreover have "\<not> running_at s (th_cid t)" using cur a by (simp add: running_at_def)
  ultimately show ?thesis using run by blast
qed

lemma unsleep_inv:
  assumes s: "sched_inv H s" and a: "threads s a = Some t" "th_state t = T_SLEEPING"
    and s': "threads s' = (threads s)(a \<mapsto> t\<lparr>th_state := T_BLOCKED, needsJoin := j, th_futexWord := w\<rparr>)" "sleepQueue s' = remove1 a (sleepQueue s)"
      "kept s s'" "freeList s' = freeList s" "contexts s' = contexts s" "scheduledThreads s' = scheduledThreads s"
      "runQueue s' = runQueue s" "outQueue s' = outQueue s" "fakeLeaves s' = fakeLeaves s"
  shows "sched_inv H s' \<and> (\<forall>d < numCores s. running_at s' d = running_at s d) \<and> \<not> promised s' a \<and> a \<notin> set (runQueue s')"
proof -
  let ?t = "t\<lparr>th_state := T_BLOCKED, needsJoin := j, th_futexWord := w\<rparr>"
  note ti = sched_inv_thread [OF s a(1)] and q = sched_inv_parts [OF s]
  have no: "a \<notin> set (outQueue s)" "a \<in> set (sleepQueue s)" "a \<notin> set (runQueue s)" using thread_queues [OF ti] a(2) by auto
  have quiet: "handoffThread t = None" "\<not> markedForSleep t" "fakeLeave t = None" "a \<notin> set (fakeLeaves s)"
    using thread_quiet(3) [OF ti] a(2) by auto
  have run: "running_at s' d = running_at s d" if "d < numCores s" for d
  proof (rule running_other [OF _ s'(1)])
    show "curThread (contexts s ! d) \<noteq> Some a" using sched_inv_ctx [OF s that] a by (auto simp: ctx_inv_def)
  qed (simp add: s')
  have n: "numCores s' = numCores s" and sd: "distinct (sleepQueue s)" using s'(3) q(2) by (simp_all add: kept_def queues_inv_def)
  have np: "\<not> promised s a" using not_promised [OF s a(1)] a(2) by simp
  have qu: "queues_inv (set_th a ?t s)" by (rule queues_upd [OF q(2)]) (use a in simp)
  have "sched_inv H s'"
  proof (rule change_inv [OF s s'(3,4,5,6,1)])
    show "queues_inv s'"
      by (rule queues_shrink [OF qu, where a = a]) (use s' q(2) in \<open>simp_all add: queues_inv_def set_remove1_subset\<close>)
    have "handoff_inv (set_th a ?t s)" by (rule handoff_upd [OF q(1) a(1)]) (use np in simp_all)
    then show "handoff_inv s'" using handoff_cong [of s' "set_th a ?t s"] s' by simp
    show "work_conserving H s'" by (rule wc_mono [OF q(3) n s'(5) s'(1)]) (use s' a no in auto)
    show "thread_inv s' a ?t"
      using ti no a s' n sd quiet by (simp add: thread_inv_def kept_def)
  qed (use s' a sd in auto)
  moreover have "\<not> promised s' a" using promised_upd [OF _ s'(1)] np a quiet by auto
  ultimately show ?thesis using run no s' by simp
qed

text \<open>A thread goes to sleep: its place in the sleep queue is by the phase it wakes up in.\<close>

lemma sleep_after_ok:
  assumes "\<forall>b \<in> set q. \<exists>u. threads s b = Some u \<and> wk b = wakeupPhase u" "sorted_wrt (\<lambda>b c. wk b \<le> wk c) q" "wk a = w"
  shows "\<exists>r. sleep_after a w q s = Inr r \<and> mset r = mset (a # q) \<and> sorted_wrt (\<lambda>b c. wk b \<le> wk c) r"
  using assms(1,2)
proof (induction q)
  case (Cons b q)
  then obtain r u where r: "sleep_after a w q s = Inr r" "mset r = mset (a # q)" "sorted_wrt (\<lambda>b c. wk b \<le> wk c) r"
    and u: "threads s b = Some u" "wk b = wakeupPhase u" by auto
  have "set r = insert a (set q)" using mset_eq_setD [OF r(2)] by simp
  then show ?case using r u Cons.prems assms(3) by (auto simp: get_th_def)
qed simp

lemma sleep_inv:
  assumes s: "sched_inv H s" and a: "threads s a = Some t" "th_state t = T_RUNNING" "markedForSleep t" "handoffThread t = None" "fakeLeave t = None"
    and late: "curPhase s < wakeupPhase t"
  shows "\<exists>s1 s2. deschedule co a (th_cid t) T_SLEEPING (set_th a (t\<lparr>markedForSleep := False\<rparr>) s) = Inr s1 \<and>
    sleepQueue_insert a (wakeupPhase t) s1 = Inr s2 \<and> sched_inv (insert (th_cid t) H) s2 \<and>
    (\<exists>t'. threads s2 = (threads s)(a \<mapsto> t') \<and> th_state t' = T_SLEEPING) \<and> runQueue s2 = runQueue s \<and> numCores s2 = numCores s \<and>
    curPhase s2 = curPhase s \<and> (\<forall>d < numCores s. running_at s2 d \<longleftrightarrow> d \<noteq> th_cid t \<and> running_at s d)"
proof -
  note ti = sched_inv_thread [OF s a(1)] and q = sched_inv_parts [OF s]
  let ?t = "t\<lparr>markedForSleep := False, th_state := T_SLEEPING\<rparr>" let ?c = "th_cid t"
  have no: "a \<notin> set (outQueue s)" "a \<notin> set (sleepQueue s)" "a \<notin> set (runQueue s)" using thread_queues [OF ti] a(2) by auto
  note cur = thread_placed [OF ti disjI1 [OF a(2)]]
  have c: "?c < numCores s" using thread_quiet(2) [OF ti] .
  have x: "contexts s ! ?c = \<lparr>ctx_state = C_USED, curThread = Some a\<rparr>"
    using sched_inv_ctx [OF s c] cur(1) by (cases "contexts s ! ?c") (simp add: ctx_inv_def)
  define wk where "wk b = wakeupPhase (the (((threads s)(a \<mapsto> ?t)) b))" for b
  let ?s1 = "(set_th a ?t s)\<lparr>contexts := (contexts s)[?c := \<lparr>ctx_state = C_IDLE, curThread = None\<rparr>],
    scheduledThreads := scheduledThreads s - 1, machine := core_contextSwitch co ?c (- 1) (machine s)\<rparr>"
  have d: "deschedule co a ?c T_SLEEPING (set_th a (t\<lparr>markedForSleep := False\<rparr>) s) = Inr ?s1"
    using a x q(4) c by (simp add: deschedule_def get_th_def set_th_def)
  have sl0: "\<exists>u. threads s b = Some u \<and> wk b = wakeupPhase u \<and> b \<noteq> a" if "b \<in> set (sleepQueue s)" for b
    using q(2) no that unfolding queues_inv_def no_owner_def wk_def by auto
  then have sl: "\<forall>b \<in> set (sleepQueue s). \<exists>u. threads ?s1 b = Some u \<and> wk b = wakeupPhase u" by auto
  have "sorted_wrt (\<lambda>b c. wk b \<le> wk c) (sleepQueue s)"
  proof (rule sorted_wrt_mono_rel)
    show "sorted_wrt (\<lambda>b c. \<forall>t u. threads s b = Some t \<longrightarrow> threads s c = Some u \<longrightarrow> wakeupPhase t \<le> wakeupPhase u) (sleepQueue s)"
      using q(2) unfolding queues_inv_def by blast
  qed (use sl0 in metis)
  from sleep_after_ok [OF sl this, of a] obtain r where r: "sleep_after a (wakeupPhase t) (sleepQueue s) ?s1 = Inr r"
    "mset r = mset (a # sleepQueue s)" "sorted_wrt (\<lambda>b c. wk b \<le> wk c) r" by (auto simp: wk_def)
  let ?s2 = "?s1\<lparr>sleepQueue := r\<rparr>"
  have set_r: "set r = insert a (set (sleepQueue s))" using mset_eq_setD [OF r(2)] by simp
  have dr: "distinct r" using mset_eq_imp_distinct_iff [OF r(2)] no q(2) by (simp add: queues_inv_def)
  have e: "sleepQueue_insert a (wakeupPhase t) ?s1 = Inr ?s2"
    using no r(1) by (simp add: sleepQueue_insert_def no_owner_def)
  have srt: "sorted_wrt (\<lambda>b c. \<forall>t u. threads ?s2 b = Some t \<longrightarrow> threads ?s2 c = Some u \<longrightarrow> wakeupPhase t \<le> wakeupPhase u) r"
    by (rule sorted_wrt_mono_rel [OF _ r(3)]) (auto simp: wk_def split: if_splits)
  have "\<forall>b. \<not> no_owner b ?s2 \<or> b \<in> set (fakeLeaves ?s2) \<longrightarrow> threads ?s2 b \<noteq> None"
    using q(2) set_r unfolding queues_inv_def no_owner_def by auto
  with srt have qi: "queues_inv ?s2" using dr q(2) unfolding queues_inv_def by simp
  have ti': "thread_inv ?s2 a ?t"
    using ti no a late set_r by (simp add: thread_inv_def)
  have "sched_inv (insert ?c H) ?s2 \<and> (\<forall>d < numCores s. running_at ?s2 d \<longleftrightarrow> d \<noteq> ?c \<and> running_at s d)"
    by (rule park_inv [OF s a(1) disjI1 [OF a(2)] refl _ _ _ _ _ _ _ _ _ qi ti']) (use no set_r in \<open>auto simp: kept_def remove1_idem\<close>)
  then show ?thesis using d e by (intro exI [of _ ?s1] exI [of _ ?s2]) auto
qed

subsection \<open>The end of a phase\<close>

definition at_phase :: "nat \<Rightarrow> 'x Scheduler \<Rightarrow> 'x Scheduler" where
  "at_phase n s = s\<lparr>curPhase := n, numPhases := n\<rparr>"

lemma at_phase_simps [simp]:
  "threads (at_phase n s) = threads s" "runQueue (at_phase n s) = runQueue s" "sleepQueue (at_phase n s) = sleepQueue s" "outQueue (at_phase n s) = outQueue s"
  "contexts (at_phase n s) = contexts s" "numCores (at_phase n s) = numCores s" "curPhase (at_phase n s) = n" "freeList (at_phase n s) = freeList s"
  "get_th a (at_phase n s) = get_th a s" "set_th a t (at_phase n s) = at_phase n (set_th a t s)" "idle (at_phase n s) = idle s"
  "ctx_inv (at_phase n s) = ctx_inv s" "queues_inv (at_phase n s) = queues_inv s" "handoff_inv (at_phase n s) = handoff_inv s"
  "work_conserving H (at_phase n s) = work_conserving H s" "running_at (at_phase n s) = running_at s" "schedQuantum (at_phase n s) = schedQuantum s"
  "sch_rnd (at_phase n s) = sch_rnd s" "numPhases (at_phase n s) = n" "scheduledThreads (at_phase n s) = scheduledThreads s"
  "(at_phase n s)\<lparr>sleepQueue := q\<rparr> = at_phase n (s\<lparr>sleepQueue := q\<rparr>)" "(at_phase n s)\<lparr>sch_rnd := m\<rparr> = at_phase n (s\<lparr>sch_rnd := m\<rparr>)"
  by (simp_all add: at_phase_def get_th_def set_th_def idle_def fun_eq_iff ctx_inv_def queues_inv_def no_owner_def handoff_inv_def
    work_conserving_def running_at_def)

lemma sched_inv_phase:
  assumes "sched_inv H s" "\<And>a t. threads s a = Some t \<Longrightarrow> th_state t = T_SLEEPING \<Longrightarrow> n < wakeupPhase t"
  shows "sched_inv H (at_phase n s)"
proof -
  have "thread_inv (at_phase n s) a t" if "threads s a = Some t" for a t
    using sched_inv_thread [OF assms(1) that] assms(2) [OF that] unfolding thread_inv_def by (simp add: at_phase_def)
  then show ?thesis using assms(1) by (simp add: sched_inv_def)
qed

lemma set_th_twice [simp]: "set_th a t (set_th a t' s) = set_th a t s" "get_th a (set_th a t s) = Inr t"
  by (simp_all add: set_th_def get_th_def)

text \<open>Which threads the end of phase \<open>n\<close> wakes, and what it leaves of a thread.\<close>

definition woken_up :: "nat \<Rightarrow> ThreadInfo \<Rightarrow> ThreadInfo" where
  "woken_up n t = (if th_state t = T_SLEEPING \<and> wakeupPhase t \<le> n
     then t\<lparr>th_state := T_BLOCKED, needsJoin := False, th_futexWord := 0\<rparr> else t)"

lemma sleeper_in_queue: "sched_inv H s \<Longrightarrow> threads s a = Some t \<Longrightarrow> th_state t = T_SLEEPING \<longleftrightarrow> a \<in> set (sleepQueue s)"
  using thread_queues(2) [OF sched_inv_thread] by blast

lemma wake_sleepers_inv:
  assumes "sched_inv H s" "sleepQueue s = q"
  shows "\<exists>s'. wake_sleepers q (at_phase (Suc (curPhase s)) s) = Inr (at_phase (Suc (curPhase s)) s') \<and> sched_inv H s' \<and>
    threads s' = (\<lambda>a. map_option (woken_up (Suc (curPhase s))) (threads s a)) \<and> runQueue s' = runQueue s \<and> numCores s' = numCores s \<and>
    curPhase s' = curPhase s \<and> (\<forall>d < numCores s. running_at s' d = running_at s d)"
  using assms
proof (induction q arbitrary: s)
  case Nil
  have "map_option (woken_up (Suc (curPhase s))) (threads s a) = threads s a" for a
    using sleeper_in_queue [OF Nil.prems(1), of a] Nil.prems(2) by (cases "threads s a") (auto simp: woken_up_def)
  then show ?case using Nil by auto
next
  case (Cons a q)
  note s = Cons.prems(1) and qp = sched_inv_parts [OF Cons.prems(1)]
  let ?n = "Suc (curPhase s)"
  from qp(2) Cons.prems(2) obtain t where t: "threads s a = Some t" by (auto simp: queues_inv_def no_owner_def)
  note ti = sched_inv_thread [OF s t]
  have sl: "th_state t = T_SLEEPING" using thread_queues(2) [OF ti] Cons.prems(2) by simp
  then have fw: "th_futexWord t = 1" "curPhase s < wakeupPhase t" using ti unfolding thread_inv_def by blast+
  show ?case
  proof (cases "wakeupPhase t \<le> ?n")
    case True
    let ?t = "t\<lparr>th_state := T_BLOCKED, needsJoin := False, th_futexWord := 0\<rparr>"
    let ?s = "(set_th a ?t s)\<lparr>sleepQueue := q\<rparr>"
    have "a \<notin> set q" using qp(2) Cons.prems(2) by (simp add: queues_inv_def)
    have u: "sched_inv H ?s \<and> (\<forall>d < numCores s. running_at ?s d = running_at s d) \<and> \<not> promised ?s a \<and> a \<notin> set (runQueue ?s)"
      by (rule unsleep_inv [OF s t sl, where j = False and w = 0]) (use Cons.prems(2) in \<open>simp_all add: kept_def\<close>)
    from Cons.IH [of ?s] u obtain s' where s': "wake_sleepers q (at_phase ?n ?s) = Inr (at_phase ?n s')" "sched_inv H s'"
      "threads s' = (\<lambda>b. map_option (woken_up ?n) (threads ?s b))" "runQueue s' = runQueue s" "numCores s' = numCores s"
      "curPhase s' = curPhase s" "\<forall>d < numCores s. running_at s' d = running_at s d" by auto
    have "wake_sleepers (a # q) (at_phase ?n s) = wake_sleepers q (at_phase ?n ?s)"
      using True fw t get_th_def [of a s] by (simp add: wakeup_def)
    moreover have "threads s' = (\<lambda>b. map_option (woken_up ?n) (threads s b))"
      using s'(3) t sl True by (auto simp: fun_eq_iff woken_up_def)
    ultimately show ?thesis using s' by auto
  next
    case False
    have "map_option (woken_up ?n) (threads s b) = threads s b" for b
    proof (cases "threads s b")
      case (Some v)
      have "\<not> wakeupPhase v \<le> ?n" if v: "th_state v = T_SLEEPING"
      proof -
        have "b \<in> set (a # q)" using sleeper_in_queue [OF s Some] Cons.prems(2) v by simp
        moreover have "sorted_wrt (\<lambda>a b. \<forall>t u. threads s a = Some t \<longrightarrow> threads s b = Some u \<longrightarrow> wakeupPhase t \<le> wakeupPhase u) (a # q)"
          using qp(2) Cons.prems(2) unfolding queues_inv_def by simp
        ultimately have "wakeupPhase t \<le> wakeupPhase v" using t Some by auto
        with False show ?thesis by simp
      qed
      then show ?thesis using Some by (auto simp: woken_up_def)
    qed simp
    then have "threads s = (\<lambda>b. map_option (woken_up ?n) (threads s b))" by auto
    moreover have "wake_sleepers (a # q) (at_phase ?n s) = Inr (at_phase ?n s)" using t False by (simp add: get_th_def)
    ultimately show ?thesis using s by blast
  qed
qed

text \<open>The hand-overs at the end of a quantum.\<close>

lemma claim_inv:
  assumes s: "sched_inv {} s" and a: "threads s a = Some t" "th_state t = T_QUEUED" "th_futexWord t = 1" "no_owner a s" "\<not> promised s a"
    and v: "threads s v = Some u" "th_state u = T_RUNNING" "th_mask t ! th_cid u"
  defines "s' \<equiv> set_th v (u\<lparr>handoffThread := Some a\<rparr>) s"
  shows "sched_inv {} s' \<and> (\<forall>d. running_at s' d = running_at s d)"
proof
  note ti = sched_inv_thread [OF s v(1)] and q = sched_inv_parts [OF s]
  let ?u = "u\<lparr>handoffThread := Some a\<rparr>"
  show "sched_inv {} s'"
    unfolding s'_def
  proof (rule change_inv [OF s, where a = v and t' = ?u])
    show "queues_inv (set_th v ?u s)" using q(2) v by (intro queues_upd) auto
    show "work_conserving {} (set_th v ?u s)" by (rule wc_mono [OF q(3), where a = v and t' = ?u]) (use v in simp_all)
    show "thread_inv (set_th v ?u s) v ?u" using ti v(2) by (simp add: thread_inv_def)
    have "a \<noteq> v" using a v by auto
    have np: "\<not> promised s v" using not_promised [OF s v(1)] v(2) by simp
    show "handoff_inv (set_th v ?u s)"
      unfolding handoff_inv_def
    proof (intro allI impI)
      fix b w h assume w: "threads (set_th v ?u s) b = Some w" "handoffThread w = Some h"
      show "h \<notin> set (runQueue (set_th v ?u s)) \<and>
        (\<exists>x. threads (set_th v ?u s) h = Some x \<and> th_state x = T_QUEUED \<and> th_futexWord x = 1 \<and> th_mask x ! th_cid w) \<and>
        (\<forall>a' t'. threads (set_th v ?u s) a' = Some t' \<longrightarrow> handoffThread t' = Some h \<longrightarrow> a' = b)"
      proof (cases "b = v")
        case True
        then have A: "h = a" "th_cid w = th_cid u" using w by auto
        have B: "a' = v" if "threads (set_th v ?u s) a' = Some t'" "handoffThread t' = Some a" for a' t'
          using that a(5) by (auto simp: promised_def split: if_splits)
        have "a \<notin> set (runQueue s)" using a(4) by (simp add: no_owner_def)
        then show ?thesis unfolding A True
        proof (intro conjI allI impI)
          show "\<exists>x. threads (set_th v ?u s) a = Some x \<and> th_state x = T_QUEUED \<and> th_futexWord x = 1 \<and> th_mask x ! th_cid u"
            using a v(3) \<open>a \<noteq> v\<close> by simp
          show "a' = v" if "threads (set_th v ?u s) a' = Some t'" "handoffThread t' = Some a" for a' t' using B that .
        qed simp
      next
        case False
        then have w': "threads s b = Some w" using w by simp
        with w(2) have p: "promised s h" by (auto simp: promised_def)
        then have A: "h \<noteq> a" "h \<noteq> v" using a(5) np by auto
        have B: "h \<notin> set (runQueue s) \<and> (\<exists>x. threads s h = Some x \<and> th_state x = T_QUEUED \<and> th_futexWord x = 1 \<and> th_mask x ! th_cid w)"
          using q(1) w' w(2) unfolding handoff_inv_def by blast
        have "a' = b" if t': "threads (set_th v ?u s) a' = Some t'" "handoffThread t' = Some h" for a' t'
        proof -
          have "a' \<noteq> v" using t' A(1) by auto
          then have "threads s a' = Some t'" using t' by simp
          then show ?thesis using q(1) w' w(2) t'(2) unfolding handoff_inv_def by blast
        qed
        note C = this
        show ?thesis
        proof (intro conjI allI impI)
          show "\<exists>x. threads (set_th v ?u s) h = Some x \<and> th_state x = T_QUEUED \<and> th_futexWord x = 1 \<and> th_mask x ! th_cid w"
            using A B by simp
          show "a' = b" if "threads (set_th v ?u s) a' = Some t'" "handoffThread t' = Some h" for a' t' using C that .
        qed (use B in simp)
      qed
    qed
  qed (use v in \<open>simp_all add: kept_def\<close>)
  show "\<forall>d. running_at s' d = running_at s d" using v(1,2) by (auto simp: running_at_def s'_def)
qed

lemma tick_shuffle_ok:
  "length v = n \<Longrightarrow> set v \<subseteq> {..<n} \<Longrightarrow> k < n \<or> k = 0 \<Longrightarrow> n \<le> MAX_THREADS \<Longrightarrow> mt_ok m \<Longrightarrow>
   tick_shuffle fuel k (v, m) = Inl OutOfFuel \<or> (\<exists>v' m'. tick_shuffle fuel k (v, m) = Inr (v', m') \<and> set v' \<subseteq> {..<n} \<and> mt_ok m')"
proof (induction k arbitrary: v m)
  case (Suc k)
  consider "randInt_below fuel (of_nat (Suc k)) m = Inl OutOfFuel"
    | r m' where "randInt_below fuel (of_nat (Suc k)) m = Inr (r, m')" "r \<le> of_nat (Suc k)" "mt_ok m'"
    using draw_ok [OF Suc.prems(5)] unfolding randInt_below_def by blast
  then show ?case
  proof cases
    case 2
    let ?j = "unat (ucast r :: u32)"
    have n: "n \<le> 2048" "Suc k < n" using Suc.prems(3,4) by (simp_all add: MAX_THREADS_def)
    then have "unat (of_nat (Suc k) :: u64) = Suc k" by (simp del: of_nat_Suc add: unsigned_of_nat take_bit_nat_eq_self)
    then have "unat r \<le> Suc k" using 2(2) by (simp add: word_le_nat_alt)
    moreover from this have "?j = unat r" using n by (intro unat_ucast_64_32) simp
    ultimately have j: "?j < n" using n by simp
    let ?v = "v[Suc k := v ! ?j, ?j := v ! Suc k]"
    have "set ?v = set v" using set_swap [of "Suc k" v ?j] j n Suc.prems(1) by simp
    then have "tick_shuffle fuel k (?v, m') = Inl OutOfFuel \<or>
      (\<exists>v' m''. tick_shuffle fuel k (?v, m') = Inr (v', m'') \<and> set v' \<subseteq> {..<n} \<and> mt_ok m'')"
      using n Suc.prems 2(3) by (intro Suc.IH) simp_all
    then show ?thesis using 2(1) j n Suc.prems(1) by (simp add: Let_def)
  qed simp
qed simp

lemma tick_claim_inv:
  assumes "sched_inv {} s" "set q \<subseteq> set (runQueue s)" "distinct q" "set avail \<subseteq> {..<numCores s}"
  shows "\<exists>s'. tick_claim q avail s = Inr s' \<and> sched_inv {} s' \<and> numCores s' = numCores s \<and> curPhase s' = curPhase s \<and>
    (\<forall>a. map_option th_state (threads s' a) = map_option th_state (threads s a)) \<and> (\<forall>d < numCores s. running_at s' d = running_at s d)"
  using assms
proof (induction q arbitrary: s avail)
  case (Cons a q)
  note s = Cons.prems(1) and qp = sched_inv_parts [OF Cons.prems(1)]
  have aq: "a \<in> set (runQueue s)" using Cons.prems(2) by simp
  with qp(2) obtain t where t: "threads s a = Some t" by (auto simp: queues_inv_def no_owner_def)
  note ti = sched_inv_thread [OF s t]
  have ml: "length (th_mask t) = numCores s" using thread_quiet(1) [OF ti] .
  obtain f where f: "first_allowed (th_mask t) avail = Inr f"
      "case f of None \<Rightarrow> \<forall>c \<in> set avail. \<not> th_mask t ! c | Some c \<Rightarrow> c \<in> set avail \<and> th_mask t ! c"
    using first_allowed_ok [of avail "th_mask t"] ml Cons.prems(4) by auto
  show ?case
  proof (cases "avail = [] \<or> f = None")
    case True
    have "\<exists>s'. tick_claim q avail s = Inr s' \<and> sched_inv {} s' \<and> numCores s' = numCores s \<and> curPhase s' = curPhase s \<and>
      (\<forall>a. map_option th_state (threads s' a) = map_option th_state (threads s a)) \<and> (\<forall>d < numCores s. running_at s' d = running_at s d)"
      using Cons.prems by (intro Cons.IH) simp_all
    with True show ?thesis using f t s by (auto simp: get_th_def)
  next
    case False
    then obtain c where c: "f = Some c" "c \<in> set avail" "th_mask t ! c" "c < numCores s" using f(2) Cons.prems(4) by auto
    have "running_at s c" using qp(3) aq t c(3,4) unfolding work_conserving_def by simp
    then obtain v u where v: "curThread (contexts s ! c) = Some v" "threads s v = Some u" "th_state u = T_RUNNING" by (auto simp: running_at_def)
    have uc: "th_cid u = c" using sched_inv_ctx [OF s c(4)] v by (auto simp: ctx_inv_def)
    let ?s1 = "s\<lparr>runQueue := remove1 a (runQueue s)\<rparr>"
    let ?u = "u\<lparr>handoffThread := Some a\<rparr>"
    let ?s2 = "set_th v ?u ?s1"
    note d = dequeue_inv [OF s aq t]
    have "sched_inv {} ?s2 \<and> (\<forall>d. running_at ?s2 d = running_at ?s1 d)"
      by (rule claim_inv [OF d(2), of a t v u]) (use d t v c uc in simp_all)
    then have s2: "sched_inv {} ?s2" "\<forall>d. running_at ?s2 d = running_at s d" by simp_all
    have "distinct (runQueue s)" using qp(2) by (simp add: queues_inv_def)
    then have sub: "set q \<subseteq> set (runQueue ?s2)" using Cons.prems(2,3) by auto
    have av: "set (remove1 c avail) \<subseteq> {..<numCores ?s2}" using Cons.prems(4) set_remove1_subset [of c avail] by auto
    have dq: "distinct q" using Cons.prems(3) by simp
    from Cons.IH [OF s2(1) sub dq av] obtain s' where s': "tick_claim q (remove1 c avail) ?s2 = Inr s'" "sched_inv {} s'"
      "numCores s' = numCores s" "curPhase s' = curPhase s" "\<forall>a. map_option th_state (threads s' a) = map_option th_state (threads ?s2 a)"
      "\<forall>d < numCores s. running_at s' d = running_at ?s2 d" by (clarsimp simp del: threads_set_th)
    have "runQueue_remove a (set_th v ?u s) = Inr ?s2" using aq by (simp add: runQueue_remove_def set_th_def)
    moreover have "upd_th v (\<lambda>u. u\<lparr>handoffThread := Some a\<rparr>) s = Inr (set_th v ?u s)" using v(2) by (simp add: upd_th_def get_th_def)
    ultimately have "tick_claim (a # q) avail s = tick_claim q (remove1 c avail) ?s2"
      using False t f(1) c v(1) qp(4) by (simp add: get_th_def)
    moreover have "map_option th_state (threads ?s2 b) = map_option th_state (threads s b)" for b using v(2) by simp
    ultimately show ?thesis using s' s2(2) by simp
  qed
qed simp

lemma inv_frame_rnd [simp]:
  "thread_inv (s\<lparr>sch_rnd := x\<rparr>) = thread_inv s" "ctx_inv (s\<lparr>sch_rnd := x\<rparr>) = ctx_inv s" "idle (s\<lparr>sch_rnd := x\<rparr>) = idle s"
  "handoff_inv (s\<lparr>sch_rnd := x\<rparr>) = handoff_inv s" "work_conserving H (s\<lparr>sch_rnd := x\<rparr>) = work_conserving H s" "queues_inv (s\<lparr>sch_rnd := x\<rparr>) = queues_inv s"
  by (simp_all add: fun_eq_iff thread_inv_def ctx_inv_def idle_def handoff_inv_def running_at_def work_conserving_def queues_inv_def no_owner_def)

lemma sched_inv_rnd: "sched_inv H s \<Longrightarrow> mt_ok m \<Longrightarrow> sched_inv H (s\<lparr>sch_rnd := m\<rparr>)"
  by (simp add: sched_inv_def)

lemma schedTick_inv:
  assumes s: "sched_inv {} s" and n: "numCores s \<le> MAX_THREADS"
  shows "schedTick fuel s = Inl OutOfFuel \<or> (\<exists>s'. schedTick fuel s = Inr s' \<and> sched_inv {} s' \<and> numCores s' = numCores s \<and> curPhase s' = curPhase s \<and>
    (\<forall>a. map_option th_state (threads s' a) = map_option th_state (threads s a)) \<and> (\<forall>d < numCores s. running_at s' d = running_at s d))"
proof -
  have m: "mt_ok (sch_rnd s)" "distinct (runQueue s)" using s by (simp_all add: sched_inv_def queues_inv_def)
  consider "tick_shuffle fuel (numCores s - 1) ([0..<numCores s], sch_rnd s) = Inl OutOfFuel"
    | v m' where "tick_shuffle fuel (numCores s - 1) ([0..<numCores s], sch_rnd s) = Inr (v, m')" "set v \<subseteq> {..<numCores s}" "mt_ok m'"
    using tick_shuffle_ok [of "[0..<numCores s]" "numCores s" "numCores s - 1" "sch_rnd s" fuel] m(1) n by fastforce
  then show ?thesis
  proof cases
    case 2
    let ?s = "s\<lparr>sch_rnd := m'\<rparr>"
    have "running_at ?s d = running_at s d" for d by (simp add: running_at_def)
    with tick_claim_inv [OF sched_inv_rnd [OF s 2(3)], of "runQueue s" v] 2 m(2) show ?thesis by (simp add: schedTick_def)
  qed (simp add: schedTick_def)
qed

lemma inv_frame_cycles [simp]:
  "thread_inv (s\<lparr>globPhaseCycles := x\<rparr>) = thread_inv s" "ctx_inv (s\<lparr>globPhaseCycles := x\<rparr>) = ctx_inv s" "idle (s\<lparr>globPhaseCycles := x\<rparr>) = idle s"
  "handoff_inv (s\<lparr>globPhaseCycles := x\<rparr>) = handoff_inv s" "work_conserving H (s\<lparr>globPhaseCycles := x\<rparr>) = work_conserving H s"
  "queues_inv (s\<lparr>globPhaseCycles := x\<rparr>) = queues_inv s" "running_at (s\<lparr>globPhaseCycles := x\<rparr>) = running_at s"
  "sched_inv H (s\<lparr>globPhaseCycles := x\<rparr>) = sched_inv H s"
  by (simp_all add: fun_eq_iff thread_inv_def ctx_inv_def idle_def handoff_inv_def running_at_def work_conserving_def queues_inv_def no_owner_def sched_inv_def)

text \<open>The end of a phase wakes the threads whose time has come and may promise contexts, but moves no thread.\<close>

lemma sched_callback_inv:
  assumes s: "sched_inv {} s" and n: "numCores s \<le> MAX_THREADS"
  shows "sched_callback fuel co s = Inl OutOfFuel \<or> (\<exists>s'. sched_callback fuel co s = Inr s' \<and> sched_inv {} s' \<and> numCores s' = numCores s \<and>
    curPhase s' = Suc (curPhase s) \<and> (\<forall>d < numCores s. running_at s' d = running_at s d) \<and>
    (\<forall>a. map_option th_state (threads s' a) = map_option (th_state \<circ> woken_up (Suc (curPhase s))) (threads s a)))"
proof -
  let ?n = "Suc (curPhase s)"
  let ?m = "s\<lparr>machine := atSyncFunc co (machine s), globPhaseCycles := globPhaseCycles s + sch_phaseLength s\<rparr>"
  have le: "scheduledThreads s \<le> numCores s" "numPhases s = curPhase s" "schedQuantum s \<noteq> 0" using s by (simp_all add: sched_inv_def)
  have e: "s\<lparr>machine := atSyncFunc co (machine s), numPhases := Suc (curPhase s),
      globPhaseCycles := globPhaseCycles s + sch_phaseLength s, curPhase := Suc (curPhase s)\<rparr> = at_phase ?n ?m"
    by (simp add: at_phase_def)
  from wake_sleepers_inv [of "{}" ?m "sleepQueue s"] s obtain s1 where s1: "wake_sleepers (sleepQueue s) (at_phase ?n ?m) = Inr (at_phase ?n s1)"
    "sched_inv {} s1" "threads s1 = (\<lambda>a. map_option (woken_up ?n) (threads s a))" "numCores s1 = numCores s" "curPhase s1 = curPhase s"
    "\<forall>d < numCores s. running_at s1 d = running_at s d" by auto
  let ?s2 = "at_phase ?n s1"
  have "?n < wakeupPhase t" if "threads s1 a = Some t" "th_state t = T_SLEEPING" for a t
  proof -
    from that(1) s1(3) obtain u where u: "t = woken_up ?n u" by auto
    with that(2) show ?thesis by (cases "th_state u = T_SLEEPING \<and> wakeupPhase u \<le> ?n") (auto simp: woken_up_def)
  qed
  then have s2: "sched_inv {} ?s2" by (rule sched_inv_phase [OF s1(2)])
  have q: "schedQuantum ?s2 \<noteq> 0" using s2 by (simp add: sched_inv_def)
  have eq: "sched_callback fuel co s = (if runQueue ?s2 \<noteq> [] \<and> ?n mod schedQuantum ?s2 = 0 then schedTick fuel ?s2 else Inr ?s2)"
    using le q s1(1) by (simp add: sched_callback_def Let_def e)
  have st: "map_option th_state (threads ?s2 a) = map_option (th_state \<circ> woken_up ?n) (threads s a)" for a
    using s1(3) by (simp add: option.map_comp)
  show ?thesis
  proof (cases "runQueue ?s2 \<noteq> [] \<and> ?n mod schedQuantum ?s2 = 0")
    case False
    then have r: "sched_callback fuel co s = Inr ?s2" unfolding eq by (rule if_not_P)
    show ?thesis using r s2 s1(4,6) st by (intro disjI2 exI [of _ ?s2]) simp
  next
    case True
    then have r: "sched_callback fuel co s = schedTick fuel ?s2" unfolding eq by (rule if_P)
    from schedTick_inv [OF s2, of fuel] n s1(4) consider "schedTick fuel ?s2 = Inl OutOfFuel"
      | s' where "schedTick fuel ?s2 = Inr s'" "sched_inv {} s'" "numCores s' = numCores s" "curPhase s' = ?n"
        "\<forall>a. map_option th_state (threads s' a) = map_option th_state (threads ?s2 a)" "\<forall>d < numCores s. running_at s' d = running_at ?s2 d"
      by (metis at_phase_simps(6,7))
    then show ?thesis
    proof cases
      case 2
      then show ?thesis using r st s1(6) by (intro disjI2 exI [of _ s']) simp
    qed (simp add: r)
  qed
qed

text \<open>The scheduler meets the contract of the barrier: while a phase ends, the cores that run are the same, and threads that
  are off the cores and awake stay so.\<close>

definition th_off :: "'x Scheduler \<Rightarrow> nat \<Rightarrow> bool" where
  "th_off s a \<longleftrightarrow> (\<exists>t. threads s a = Some t \<and> (th_state t = T_OUT \<or> th_state t = T_BLOCKED))"

definition sched_cinv :: "nat \<Rightarrow> (nat \<Rightarrow> bool) \<Rightarrow> nat set \<Rightarrow> 'x Scheduler \<Rightarrow> bool" where
  "sched_cinv n r A s \<longleftrightarrow> sched_inv {} s \<and> numCores s = n \<and> n \<le> MAX_THREADS \<and> (\<forall>d < n. running_at s d = r d) \<and> (\<forall>a \<in> A. th_off s a)"

interpretation sched_callee: phase_callee "sched_callback fuel co" "sched_cinv n r A" True
  for fuel :: nat and co :: "'x core_ops" and n r A
proof
  fix s :: "'x Scheduler"
  assume s: "sched_cinv n r A s"
  then have i: "sched_inv {} s" "numCores s \<le> MAX_THREADS" "\<forall>a \<in> A. th_off s a" by (simp_all add: sched_cinv_def)
  have keep: "th_off s' a" if "th_off s a" "map_option th_state (threads s' a) = map_option (th_state \<circ> woken_up k) (threads s a)" for s' k a
    using that by (auto simp: th_off_def woken_up_def)
  from sched_callback_inv [OF i(1,2), of fuel co] consider "sched_callback fuel co s = Inl OutOfFuel"
    | s' where "sched_callback fuel co s = Inr s'" "sched_inv {} s'" "numCores s' = numCores s" "\<forall>d < numCores s. running_at s' d = running_at s d"
      "\<And>a. map_option th_state (threads s' a) = map_option (th_state \<circ> woken_up (Suc (curPhase s))) (threads s a)" by blast
  then show "(\<exists>s'. sched_callback fuel co s = Inr s' \<and> sched_cinv n r A s') \<or> sched_callback fuel co s = Inl OutOfFuel \<and> True"
  proof cases
    case 2
    have "\<forall>a \<in> A. th_off s' a" using keep i(3) 2(5) by blast
    then show ?thesis using 2(1-4) s by (simp add: sched_cinv_def)
  qed simp
qed

end
