(* ===== verification/SchedSystem.thy ===== *)
theory SchedSystem
  imports SchedOps
begin

text \<open>
  The scheduler and its barrier as one transition system (scheduler.h, barrier.h): every operation of a thread, with the barrier
  operation it ends in and the end of phase that may trigger, keeps one invariant, from which the properties of the reachable
  states follow.
\<close>

subsection \<open>The system\<close>

text \<open>The barrier's cores are the contexts whose thread runs.\<close>

definition system_inv :: "nat \<Rightarrow> Barrier \<Rightarrow> 'x Scheduler \<Rightarrow> bool" where
  "system_inv par b s \<longleftrightarrow> (\<exists>seen. bar_inv par seen b) \<and> sched_inv {} s \<and> numCores s \<le> MAX_THREADS \<and>
     (\<forall>c < MAX_THREADS. bar_active b c \<longleftrightarrow> c < numCores s \<and> running_at s c)"

definition done_or_starved :: "nat \<Rightarrow> nat set \<Rightarrow> (Barrier \<times> 'x Scheduler) res \<Rightarrow> bool" where
  "done_or_starved par A r \<longleftrightarrow> r = Inl OutOfFuel \<or> (\<exists>b s. r = Inr (b, s) \<and> system_inv par b s \<and> (\<forall>a \<in> A. th_off s a))"

lemma system_inv_parts: "system_inv par b s \<Longrightarrow> sched_inv {} s" "system_inv par b s \<Longrightarrow> numCores s \<le> MAX_THREADS"
  by (simp_all add: system_inv_def)

lemma system_done: "system_inv par b s' \<Longrightarrow> \<forall>a \<in> A. th_off s' a \<Longrightarrow> done_or_starved par A (Inr (b, s'))"
  by (simp add: done_or_starved_def)

text \<open>A change of the scheduler that starts and stops no core.\<close>

lemma system_same:
  assumes "system_inv par b s" "sched_inv {} s'" "numCores s' = numCores s" "\<forall>d < numCores s. running_at s' d = running_at s d"
  shows "system_inv par b s'"
  using assms unfolding system_inv_def by auto

text \<open>A change that ends in an operation of the barrier on the one core it starts or stops.\<close>

lemma system_bar:
  assumes inv: "system_inv par b s" and par: "0 < par" and op: "bar_legal op b"
    and s': "sched_inv {} s'" "numCores s' = numCores s" "\<forall>a \<in> A. th_off s' a"
    and run: "\<And>d. d < numCores s \<Longrightarrow> running_at s' d \<longleftrightarrow> (if d = bar_tid op then op \<noteq> BLeave d else running_at s d)"
    and c: "bar_tid op < numCores s"
  shows "done_or_starved par A (bar_step fuel (sched_callback fuel co) op (b, s'))"
proof -
  from inv obtain seen where b: "bar_inv par seen b" by (auto simp: system_inv_def)
  let ?n = "numCores s"
  have "sched_cinv ?n (running_at s') A s'" using s' inv by (simp add: sched_cinv_def system_inv_def)
  from sched_callee.bar_step_ok [OF b this par op, where fuel = fuel and fuela = fuel and co = co] consider
      "bar_step fuel (sched_callback fuel co) op (b, s') = Inl OutOfFuel"
    | b2 s2 where "bar_step fuel (sched_callback fuel co) op (b, s') = Inr (b2, s2)" "sched_cinv ?n (running_at s') A s2"
      "bar_inv par (turns b b2 seen) b2" "\<forall>v < MAX_THREADS. bar_active b2 v = (if v = bar_tid op then op \<noteq> BLeave v else bar_active b v)"
    by blast
  then show ?thesis
  proof cases
    case 2
    have "bar_active b2 v \<longleftrightarrow> v < ?n \<and> running_at s2 v" if v: "v < MAX_THREADS" for v
    proof (cases "v < ?n")
      case True
      then have "running_at s2 v = running_at s' v" using 2(2) by (simp add: sched_cinv_def)
      then show ?thesis using 2(4) v True run [OF True] inv by (auto simp: system_inv_def)
    next
      case False
      then have "v \<noteq> bar_tid op" using c by auto
      then show ?thesis using 2(4) v False inv by (auto simp: system_inv_def)
    qed
    then have "system_inv par b2 s2" using 2(2,3) by (auto simp: system_inv_def sched_cinv_def)
    then show ?thesis using 2(1,2) by (simp add: done_or_starved_def sched_cinv_def)
  qed (simp add: done_or_starved_def)
qed

text \<open>A core that is started joins the barrier.\<close>

lemma system_enter:
  assumes inv: "system_inv par b s" and par: "0 < par" and c: "c < numCores s" "\<not> running_at s c"
    and s': "sched_inv {} s'" "numCores s' = numCores s"
    and run: "\<forall>d < numCores s. running_at s' d \<longleftrightarrow> d = c \<or> running_at s d"
  shows "done_or_starved par {} (enter_context fuel co c (b, s'))"
proof -
  have c': "c < MAX_THREADS" using inv c by (simp add: system_inv_def)
  then have "\<not> bar_active b c" using inv c(2) by (simp add: system_inv_def)
  then have "bar_legal (BJoin c) b" using c' by (cases "bst b c") (simp_all add: bar_active_def)
  from system_bar [OF inv par this, of "s'\<lparr>machine := core_join co c (machine s')\<rparr>" "{}" fuel co] s' run c
  show ?thesis by (simp add: enter_context_def)
qed

subsection \<open>Leaving\<close>

lemma set_th_same: "threads s a = Some t \<Longrightarrow> set_th a t s = s"
  by (simp add: set_th_def map_upd_triv)

text \<open>A running thread gives up its context.\<close>

lemma deschedule_inv:
  assumes s: "sched_inv H s" and a: "threads s a = Some t" "th_state t = T_RUNNING" "\<not> markedForSleep t" "fakeLeave t = None"
    and target: "target = T_BLOCKED \<or> target = T_QUEUED"
  shows "\<exists>s'. deschedule co a (th_cid t) target (set_th a (t\<lparr>handoffThread := None\<rparr>) s) = Inr s' \<and> sched_inv (insert (th_cid t) H) s' \<and>
    threads s' = (threads s)(a \<mapsto> t\<lparr>handoffThread := None, th_state := target\<rparr>) \<and> runQueue s' = runQueue s \<and> numCores s' = numCores s \<and>
    curPhase s' = curPhase s \<and> (\<forall>d < numCores s. running_at s' d \<longleftrightarrow> d \<noteq> th_cid t \<and> running_at s d)"
proof -
  note ti = sched_inv_thread [OF s a(1)] and q = sched_inv_parts [OF s]
  let ?t = "t\<lparr>handoffThread := None, th_state := target\<rparr>" let ?c = "th_cid t"
  have no: "a \<notin> set (outQueue s)" "a \<notin> set (sleepQueue s)" "a \<notin> set (runQueue s)" using thread_queues [OF ti] a(2) by auto
  note cur = thread_placed [OF ti disjI1 [OF a(2)]]
  have c: "?c < numCores s" using thread_quiet(2) [OF ti] .
  have x: "contexts s ! ?c = \<lparr>ctx_state = C_USED, curThread = Some a\<rparr>"
    using sched_inv_ctx [OF s c] cur(1) by (cases "contexts s ! ?c") (simp add: ctx_inv_def)
  let ?s = "(set_th a ?t s)\<lparr>contexts := (contexts s)[?c := \<lparr>ctx_state = C_IDLE, curThread = None\<rparr>],
    scheduledThreads := scheduledThreads s - 1, machine := core_contextSwitch co ?c (- 1) (machine s)\<rparr>"
  have d: "deschedule co a ?c target (set_th a (t\<lparr>handoffThread := None\<rparr>) s) = Inr ?s"
    using a x q(4) c target by (auto simp: deschedule_def get_th_def set_th_def)
  have "queues_inv (set_th a ?t s)" using q(2) no by (intro queues_upd) simp_all
  then have qi: "queues_inv ?s" by simp
  have ti': "thread_inv ?s a ?t" using ti no a target by (auto simp: thread_inv_def)
  have "sched_inv (insert ?c H) ?s \<and> (\<forall>d < numCores s. running_at ?s d \<longleftrightarrow> d \<noteq> ?c \<and> running_at s d)"
    by (rule park_inv [OF s a(1) disjI1 [OF a(2)] refl _ _ _ _ _ _ _ _ _ qi ti']) (use no target in \<open>auto simp: kept_def remove1_idem\<close>)
  then show ?thesis using d by (intro exI [of _ ?s]) simp
qed

lemma leave_ok:
  assumes inv: "system_inv par b s" and par: "0 < par" and c: "c < numCores s" "curThread (contexts s ! c) = Some a"
    and a: "threads s a = Some t" "th_state t = T_RUNNING" "th_gid t = gid" "handoffThread t = None" "fakeLeave t = None"
    and late: "markedForSleep t \<Longrightarrow> curPhase s < wakeupPhase t" and bc: "bst b c = B_RUNNING"
  shows "done_or_starved par (if markedForSleep t then {} else {a}) (sched_leave fuel co gid c (b, s))"
proof -
  note s = system_inv_parts(1) [OF inv]
  let ?s0 = "s\<lparr>machine := core_leave co c (machine s)\<rparr>"
  have s0: "sched_inv {} ?s0" using s by simp
  have len: "length (contexts s) = numCores s" using sched_inv_parts(4) [OF s] .
  have tc: "th_cid t = c" using sched_inv_ctx [OF s c(1)] c(2) a(1) by (auto simp: ctx_inv_def)
  have rc: "running_at s c" using c(2) a by (simp add: running_at_def)
  have "c < MAX_THREADS" using inv c(1) by (simp add: system_inv_def)
  with bc have op: "bar_legal (BLeave c) b" by simp
  show ?thesis
  proof (cases "markedForSleep t")
    case True
    from sleep_inv [OF s0, of a t co] a True late tc obtain s1 s2 where s2:
      "deschedule co a c T_SLEEPING (set_th a (t\<lparr>markedForSleep := False\<rparr>) ?s0) = Inr s1" "sleepQueue_insert a (wakeupPhase t) s1 = Inr s2"
      "sched_inv {c} s2" "numCores s2 = numCores s" "\<forall>d < numCores s. running_at s2 d \<longleftrightarrow> d \<noteq> c \<and> running_at s d" by auto
    have e: "sched_leave fuel co gid c (b, s) = rbind (schedContext c s2) (\<lambda>(inTh, s3). case inTh of
        Some i \<Rightarrow> rbind (give_context co i c s3) (\<lambda>s4. Inr (b, s4))
      | None \<Rightarrow> rbind (freeList_push c s3) (\<lambda>s4. bar_leave fuel (sched_callback fuel co) c (b, s4)))"
      using c a len True s2(1,2) by (simp add: sched_leave_def get_th_def)
    have c2: "c < numCores s2" using c s2(4) by simp
    from schedContext_inv [OF s2(3) c2] consider "schedContext c s2 = Inr (None, s2)" "\<forall>a \<in> set (runQueue s2). \<forall>t. threads s2 a = Some t \<longrightarrow> \<not> th_mask t ! c"
      | i u s3 where "schedContext c s2 = Inr (Some i, s3)" "s3 = s2\<lparr>runQueue := remove1 i (runQueue s2)\<rparr>" "sched_inv {c} s3" "threads s2 i = Some u"
        "th_state u = T_QUEUED" "th_futexWord u = 1" "th_mask u ! c" "i \<notin> set (runQueue s3)" "\<not> promised s3 i" by blast
    then show ?thesis
    proof cases
      case 1
      from freeList_push_inv [OF s2(3), of c] 1(2) obtain s4 where s4: "freeList_push c s2 = Inr s4" "sched_inv {} s4"
        "s4 = s2\<lparr>freeList := freeList s2 @ [c]\<rparr>" by auto
      have "done_or_starved par {} (bar_step fuel (sched_callback fuel co) (BLeave c) (b, s4))"
        by (rule system_bar [OF inv par op s4(2)]) (use s4(3) s2(4,5) c(1) in auto)
      then show ?thesis using e 1(1) s4(1) True by simp
    next
      case 2
      from give_context_inv [OF 2(3), of c i u co] 2 obtain s4 where s4: "give_context co i c s3 = Inr s4" "sched_inv {} s4" "numCores s4 = numCores s3"
        "\<forall>d < numCores s3. running_at s4 d \<longleftrightarrow> d = c \<or> running_at s3 d" by auto
      have "system_inv par b s4" by (rule system_same [OF inv s4(2)]) (use s4 2(2) s2(4,5) rc in auto)
      then show ?thesis using e 2(1) s4(1) True by (simp add: done_or_starved_def)
    qed
  next
    case False
    have e: "sched_leave fuel co gid c (b, s) = rbind (schedContext c ?s0) (\<lambda>(inTh, s1). case inTh of
               Some i \<Rightarrow> rbind (deschedule co a c T_BLOCKED s1) (\<lambda>s2. rbind (give_context co i c s2) (\<lambda>s3. Inr (b, s3)))
             | None \<Rightarrow> rbind (upd_th a (\<lambda>u. u\<lparr>th_state := T_OUT\<rparr>) s1) (\<lambda>s2. rbind (outQueue_push a s2) (\<lambda>s3.
                 bar_leave fuel (sched_callback fuel co) c (b, s3))))"
      using c a len False by (simp add: sched_leave_def get_th_def)
    have c0: "c < numCores ?s0" using c by simp
    from schedContext_inv [OF s0 c0] consider "schedContext c ?s0 = Inr (None, ?s0)" "\<forall>a \<in> set (runQueue s). \<forall>t. threads s a = Some t \<longrightarrow> \<not> th_mask t ! c"
      | i u s1 where "schedContext c ?s0 = Inr (Some i, s1)" "s1 = ?s0\<lparr>runQueue := remove1 i (runQueue s)\<rparr>" "sched_inv {} s1" "threads s i = Some u"
        "th_state u = T_QUEUED" "th_futexWord u = 1" "th_mask u ! c" "i \<notin> set (runQueue s1)" "\<not> promised s1 i" by auto
    then show ?thesis
    proof cases
      case 1
      let ?s2 = "set_th a (t\<lparr>th_state := T_OUT\<rparr>) ?s0" let ?s3 = "?s2\<lparr>outQueue := outQueue s @ [a]\<rparr>"
      have "no_owner a ?s2" using thread_queues [OF sched_inv_thread [OF s a(1)]] a(2) by (auto simp: no_owner_def)
      then have e2: "outQueue_push a ?s2 = Inr ?s3" by (simp add: outQueue_push_def)
      have "sched_inv {} ?s3 \<and> (\<forall>d < numCores ?s0. running_at ?s3 d \<longleftrightarrow> d \<noteq> th_cid t \<and> running_at ?s0 d)"
        by (rule out_inv [OF s0, of a t]) (use a False 1(2) tc in \<open>simp_all add: kept_def\<close>)
      then have s3: "sched_inv {} ?s3" "\<forall>d < numCores s. running_at ?s3 d \<longleftrightarrow> d \<noteq> c \<and> running_at s d" using tc by simp_all
      have "done_or_starved par {a} (bar_step fuel (sched_callback fuel co) (BLeave c) (b, ?s3))"
        by (rule system_bar [OF inv par op s3(1)]) (use s3(2) c(1) in \<open>auto simp: th_off_def\<close>)
      then show ?thesis using e 1(1) e2 a(1) False by (simp add: upd_th_def get_th_def)
    next
      case 2
      have "a \<noteq> i" using 2(4,5) a by auto
      have t1: "threads s1 a = Some t" "threads s1 i = Some u" using 2(2,4) a by simp_all
      have "t\<lparr>handoffThread := None\<rparr> = t" using a(4) by (cases t) simp
      with deschedule_inv [OF 2(3) t1(1) a(2) False a(5), of T_BLOCKED co] obtain s2 where s2:
        "deschedule co a c T_BLOCKED s1 = Inr s2" "sched_inv {c} s2" "threads s2 = (threads s1)(a \<mapsto> t\<lparr>handoffThread := None, th_state := T_BLOCKED\<rparr>)"
        "runQueue s2 = runQueue s1" "numCores s2 = numCores s1" "\<forall>d < numCores s1. running_at s2 d \<longleftrightarrow> d \<noteq> c \<and> running_at s1 d"
        using tc set_th_same [of s1 a t] t1(1) a(4) by auto
      have np: "\<not> promised s2 i" using promised_upd [OF _ s2(3)] 2(9) by auto
      from give_context_inv [OF s2(2), of c i u co] np t1(2) s2(3,4) 2 \<open>a \<noteq> i\<close> obtain s3 where s3: "give_context co i c s2 = Inr s3"
        "sched_inv {} s3" "numCores s3 = numCores s2" "\<forall>d < numCores s2. running_at s3 d \<longleftrightarrow> d = c \<or> running_at s2 d"
        "threads s3 = (threads s2)(i \<mapsto> u\<lparr>th_state := T_RUNNING, th_cid := c, needsJoin := False, th_futexWord := 0\<rparr>)" by auto
      have "system_inv par b s3" by (rule system_same [OF inv s3(2)]) (use s3 s2 2(2) rc in auto)
      moreover have "th_off s3 a" using s3(5) s2(3) \<open>a \<noteq> i\<close> by (simp add: th_off_def)
      ultimately show ?thesis using e 2(1) s2(1) s3(1) False by (simp add: done_or_starved_def)
    qed
  qed
qed

subsection \<open>Joining\<close>

text \<open>A thread that is off the cores gets a context or waits in the run queue.\<close>

lemma place_ok:
  assumes inv: "system_inv par b s" and par: "0 < par" and a: "threads s a = Some t"
    and st: "th_state t = T_STARTED \<or> th_state t = T_BLOCKED \<or> th_state t = T_QUEUED" and free: "a \<notin> set (runQueue s)" "\<not> promised s a"
    and F: "F s = Inr (b, (set_th a (t\<lparr>th_state := T_QUEUED, th_futexWord := 1\<rparr>) s)\<lparr>runQueue := runQueue s @ [a]\<rparr>)"
  shows "done_or_starved par {} (rbind (schedThread co a s) (\<lambda>(ctx, s'). case ctx of
      Some c \<Rightarrow> rbind (schedule co a c s') (\<lambda>s3. enter_context fuel co c (b, s3)) | None \<Rightarrow> F s'))"
proof -
  note s = system_inv_parts(1) [OF inv]
  from schedThread_inv [OF s a st, of co] consider
      "schedThread co a s = Inr (None, s)" "\<forall>c < numCores s. th_mask t ! c \<longrightarrow> running_at s c"
    | c s1 where "schedThread co a s = Inr (Some c, s1)" "sched_inv {c} s1" "threads s1 a = Some t" "th_mask t ! c" "c < numCores s"
      "\<not> running_at s c" "runQueue s1 = runQueue s" "numCores s1 = numCores s" "\<not> promised s1 a" "\<forall>d < numCores s. running_at s1 d = running_at s d"
    using free(2) by blast
  then show ?thesis
  proof cases
    case 1
    let ?s = "(set_th a (t\<lparr>th_state := T_QUEUED, th_futexWord := 1\<rparr>) s)\<lparr>runQueue := runQueue s @ [a]\<rparr>"
    have "sched_inv {} ?s \<and> (\<forall>d < numCores s. running_at ?s d = running_at s d)"
      by (rule enqueue_inv [OF s a st free 1(2)]) (simp_all add: kept_def)
    then have "system_inv par b ?s" by (intro system_same [OF inv]) simp_all
    then show ?thesis using 1(1) F by (simp add: done_or_starved_def)
  next
    case 2
    from schedule_inv [OF 2(2) _ 2(3) st _ 2(9,4), of co] 2(7) free(1) obtain s3 where s3: "schedule co a c s1 = Inr s3" "sched_inv {} s3"
      "numCores s3 = numCores s1" "\<forall>d < numCores s1. running_at s3 d \<longleftrightarrow> d = c \<or> running_at s1 d" by auto
    have "done_or_starved par {} (enter_context fuel co c (b, s3))"
      by (rule system_enter [OF inv par 2(5,6) s3(2)]) (use s3 2 in simp_all)
    then show ?thesis using 2(1) s3(1) by simp
  qed
qed

lemma fake_inv:
  assumes s: "sched_inv H s" and a: "threads s a = Some t" "th_state t = T_RUNNING"
    and fl: "distinct fl" "\<And>b. b \<in> set fl \<longleftrightarrow> (if b = a then f \<noteq> None else b \<in> set (fakeLeaves s))"
  shows "sched_inv H ((set_th a (t\<lparr>fakeLeave := f\<rparr>) s)\<lparr>fakeLeaves := fl\<rparr>) \<and>
    (\<forall>d. running_at ((set_th a (t\<lparr>fakeLeave := f\<rparr>) s)\<lparr>fakeLeaves := fl\<rparr>) d = running_at s d)"
proof
  note ti = sched_inv_thread [OF s a(1)] and q = sched_inv_parts [OF s]
  let ?t = "t\<lparr>fakeLeave := f\<rparr>" let ?s = "(set_th a ?t s)\<lparr>fakeLeaves := fl\<rparr>"
  show "sched_inv H ?s"
  proof (rule change_inv [OF s, where a = a and t' = ?t])
    have "queues_inv (set_th a ?t s)" using q(2) a by (intro queues_upd) simp_all
    moreover have "threads (set_th a ?t s) b \<noteq> None" if "b \<in> set fl" for b
    proof (cases "b = a")
      case False
      then have "b \<in> set (fakeLeaves s)" using fl(2) that by simp
      then show ?thesis using q(2) unfolding queues_inv_def by auto
    qed simp
    ultimately show "queues_inv ?s" using fl(1) unfolding queues_inv_def no_owner_def by simp
    have "handoff_inv (set_th a ?t s)" by (rule handoff_upd [OF q(1) a(1)]) simp_all
    then show "handoff_inv ?s" using handoff_cong [of ?s "set_th a ?t s"] by simp
    show "work_conserving H ?s" by (rule wc_mono [OF q(3), where a = a and t' = ?t]) (use a in simp_all)
    show "thread_inv ?s a ?t" using ti a(2) fl(2) [of a] by (simp add: thread_inv_def)
  qed (use a fl(2) in \<open>simp_all add: kept_def\<close>)
  show "\<forall>d. running_at ?s d = running_at s d" using a by (auto simp: running_at_def)
qed

lemma finishFakeLeave_inv:
  assumes s: "sched_inv H s" and a: "threads s a = Some t" "fakeLeave t \<noteq> None"
  shows "\<exists>s'. finishFakeLeave a s = Inr s' \<and> sched_inv H s' \<and> threads s' = (threads s)(a \<mapsto> t\<lparr>fakeLeave := None\<rparr>) \<and>
    th_state t = T_RUNNING \<and> contexts s' = contexts s \<and> numCores s' = numCores s \<and> curPhase s' = curPhase s \<and> gidMap s' = gidMap s \<and>
    (\<forall>d. running_at s' d = running_at s d)"
proof -
  note ti = sched_inv_thread [OF s a(1)]
  have st: "th_state t = T_RUNNING" "a \<in> set (fakeLeaves s)" using ti a(2) unfolding thread_inv_def by blast+
  have d: "distinct (fakeLeaves s)" using s unfolding sched_inv_def queues_inv_def by blast
  let ?s = "(set_th a (t\<lparr>fakeLeave := None\<rparr>) s)\<lparr>fakeLeaves := remove1 a (fakeLeaves s)\<rparr>"
  have "sched_inv H ?s \<and> (\<forall>d. running_at ?s d = running_at s d)"
    by (rule fake_inv [OF s a(1) st(1)]) (use d in \<open>simp_all\<close>)
  moreover have "finishFakeLeave a s = Inr ?s" using a st by (simp add: finishFakeLeave_def get_th_def)
  ultimately show ?thesis using st(1) by simp
qed

lemma join_ok:
  assumes inv: "system_inv par b (s :: 'a Scheduler)" and par: "0 < par" and a: "threads s a = Some t"
    and st: "fakeLeave t \<noteq> None \<or> th_state t \<in> {T_STARTED, T_BLOCKED, T_SLEEPING, T_OUT}"
  shows "done_or_starved par {} (sched_join fuel co a (b, s))"
proof (cases "fakeLeave t = None")
  case False
  note s = system_inv_parts(1) [OF inv]
  from finishFakeLeave_inv [OF s a False] obtain s' where s': "finishFakeLeave a s = Inr s'" "sched_inv {} s'" "numCores s' = numCores s"
    "\<forall>d. running_at s' d = running_at s d" by blast
  then have "system_inv par b s'" by (intro system_same [OF inv]) simp_all
  then show ?thesis using s'(1) a False by (simp add: sched_join_def get_th_def done_or_starved_def)
next
  case fn: True
  note s = system_inv_parts(1) [OF inv] and ti = sched_inv_thread [OF system_inv_parts(1) [OF inv] a]
  have mk: "\<not> markedForSleep t" using thread_quiet(3) [OF ti] st fn by auto
  note aq = thread_queues [OF ti]
  define F where "F = (\<lambda>s2 :: 'a Scheduler. rbind (upd_th a (\<lambda>u. u\<lparr>th_state := T_QUEUED\<rparr>) s2) (\<lambda>s3. rbind (runQueue_push a s3) (\<lambda>s4.
              rbind (waitForContext a s4) (\<lambda>s5. Inr (b, s5)))))"
  have off: "done_or_starved par {} (rbind (schedThread co a s1) (\<lambda>(ctx, s'). case ctx of
      Some c \<Rightarrow> rbind (schedule co a c s') (\<lambda>s3. enter_context fuel co c (b, s3)) | None \<Rightarrow> F s'))"
    if i: "system_inv par b s1" and u: "threads s1 a = Some u" "th_state u = T_STARTED \<or> th_state u = T_BLOCKED" for s1 u
  proof (rule place_ok [OF i par u(1)])
    note s1 = system_inv_parts(1) [OF i]
    have no: "no_owner a s1" using thread_queues [OF sched_inv_thread [OF s1 u(1)]] u(2) by (auto simp: no_owner_def)
    then show "a \<notin> set (runQueue s1)" by (simp add: no_owner_def)
    show "\<not> promised s1 a" using not_promised [OF s1 u(1)] u(2) by auto
    show "F s1 = Inr (b, (set_th a (u\<lparr>th_state := T_QUEUED, th_futexWord := 1\<rparr>) s1)\<lparr>runQueue := runQueue s1 @ [a]\<rparr>)"
      using u(1) no by (simp add: F_def upd_th_def get_th_def runQueue_push_def no_owner_def waitForContext_def set_th_def)
  qed (use u(2) in auto)
  show ?thesis
  proof (cases "th_state t = T_OUT")
    case True
    let ?s = "(set_th a (t\<lparr>th_state := T_RUNNING\<rparr>) s)\<lparr>outQueue := remove1 a (outQueue s)\<rparr>"
    have r: "sched_inv {} ?s \<and> (\<forall>d < numCores s. running_at ?s d \<longleftrightarrow> d = th_cid t \<or> running_at s d) \<and> \<not> running_at s (th_cid t)"
      by (rule rejoin_inv [OF s a True]) (simp_all add: kept_def)
    have "done_or_starved par {} (enter_context fuel co (th_cid t) (b, ?s))"
      by (rule system_enter [OF inv par thread_quiet(2) [OF ti]]) (use r in simp_all)
    then show ?thesis
      using a fn mk True aq(1) by (simp add: sched_join_def get_th_def outQueue_remove_def)
  next
    case no: False
    show ?thesis
    proof (cases "th_state t = T_SLEEPING")
      case True
      let ?t = "t\<lparr>th_state := T_BLOCKED\<rparr>"
      let ?s = "(set_th a ?t s)\<lparr>sleepQueue := remove1 a (sleepQueue s)\<rparr>"
      have "sched_inv {} ?s \<and> (\<forall>d < numCores s. running_at ?s d = running_at s d) \<and> \<not> promised ?s a \<and> a \<notin> set (runQueue ?s)"
        by (rule unsleep_inv [OF s a True, where j = "needsJoin t" and w = "th_futexWord t"]) (simp_all add: kept_def)
      then have "system_inv par b ?s" by (intro system_same [OF inv]) simp_all
      note o = off [OF this, of ?t, unfolded F_def]
      have e: "set_th a ?t (s\<lparr>sleepQueue := remove1 a (sleepQueue s)\<rparr>) = ?s" by (simp add: set_th_def)
      from o show ?thesis
        using a fn mk True aq(2) by (simp add: sched_join_def get_th_def sleepQueue_remove_def e)
    next
      case False
      with off [OF inv a, unfolded F_def] st no fn show ?thesis
        using a mk by (auto simp: sched_join_def get_th_def)
    qed
  qed
qed

subsection \<open>The end of a phase and of a thread\<close>

lemma sync_ok:
  assumes inv: "system_inv par b s" and par: "0 < par" and c: "c < numCores s" "curThread (contexts s ! c) = Some a"
    and a: "threads s a = Some t" "th_state t = T_RUNNING" "\<not> markedForSleep t" and bc: "bst b c = B_RUNNING"
  shows "done_or_starved par {} (sched_sync fuel co c (b, s))"
proof -
  note s = system_inv_parts(1) [OF inv]
  have "c < MAX_THREADS" using inv c(1) by (simp add: system_inv_def)
  with bc have op: "bar_legal (BSync c) b" by simp
  have rc: "running_at s c" using c(2) a by (simp add: running_at_def)
  have "done_or_starved par {} (bar_step fuel (sched_callback fuel co) (BSync c) (b, s))"
    by (rule system_bar [OF inv par op s]) (use rc c(1) in auto)
  then show ?thesis using c a sched_inv_parts(4) [OF s] by (simp add: sched_sync_def get_th_def)
qed

lemma handoff_ok:
  assumes inv: "system_inv par b (s :: 'a Scheduler)" and par: "0 < par" and a: "threads s a = Some t" "handoffThread t \<noteq> None" "\<not> markedForSleep t" "fakeLeave t = None"
  shows "done_or_starved par {} (sync_handoff fuel co a (b, s))"
proof -
  note s = system_inv_parts(1) [OF inv]
  note ti = sched_inv_thread [OF s a(1)]
  have st: "th_state t = T_RUNNING" using thread_quiet(3) [OF ti] a(2) by auto
  obtain dst where dst: "handoffThread t = Some dst" using a(2) by blast
  let ?c = "th_cid t" let ?t = "t\<lparr>handoffThread := None, th_state := T_QUEUED\<rparr>"
  have hi: "handoff_inv s" using sched_inv_parts(1) [OF s] .
  have nq: "dst \<notin> set (runQueue s)" and uniq: "\<And>a' t'. threads s a' = Some t' \<Longrightarrow> handoffThread t' = Some dst \<Longrightarrow> a' = a"
    and "\<exists>u. threads s dst = Some u \<and> th_state u = T_QUEUED \<and> th_futexWord u = 1 \<and> th_mask u ! ?c"
    using hi a(1) dst unfolding handoff_inv_def by blast+
  then obtain u where u: "threads s dst = Some u" "th_state u = T_QUEUED" "th_futexWord u = 1" "th_mask u ! ?c" by blast
  have ne: "dst \<noteq> a" using u a(1) st by auto
  have rc: "running_at s ?c" using thread_placed(1) [OF ti] a(1) st by (simp add: running_at_def)
  have na: "a \<notin> set (runQueue s)" "\<not> promised s a" using thread_queues(3) [OF ti] not_promised [OF s a(1)] st by auto
  from deschedule_inv [OF s a(1) st a(3,4), of T_QUEUED co] obtain s1 where s1:
    "deschedule co a ?c T_QUEUED (set_th a (t\<lparr>handoffThread := None\<rparr>) s) = Inr s1" "sched_inv {?c} s1" "threads s1 = (threads s)(a \<mapsto> ?t)"
    "runQueue s1 = runQueue s" "numCores s1 = numCores s" "\<forall>d < numCores s. running_at s1 d \<longleftrightarrow> d \<noteq> ?c \<and> running_at s d" by auto
  have np: "\<not> promised s1 dst"
  proof
    assume "promised s1 dst"
    then obtain b v where v: "threads s1 b = Some v" "handoffThread v = Some dst" by (auto simp: promised_def)
    show False
    proof (cases "b = a")
      case True
      then show ?thesis using v s1(3) by auto
    next
      case False
      then show ?thesis using v s1(3) uniq [of b v] by simp
    qed
  qed
  from schedule_inv [OF s1(2), of ?c dst u co] s1(3,4) u ne nq np obtain s2 where s2: "schedule co dst ?c s1 = Inr s2" "sched_inv {} s2"
    "threads s2 = (threads s1)(dst \<mapsto> u\<lparr>th_state := T_RUNNING, th_cid := ?c\<rparr>)" "runQueue s2 = runQueue s1" "numCores s2 = numCores s1"
    "\<forall>d < numCores s1. running_at s2 d \<longleftrightarrow> d = ?c \<or> running_at s1 d" by auto
  have mk: "\<not> markedForSleep u" using thread_quiet(3) [OF sched_inv_thread [OF s u(1)]] u(2) by simp
  from wakeup_inv [OF s2(2), of dst "u\<lparr>th_state := T_RUNNING, th_cid := ?c\<rparr>" False] s2(3) u(3) mk obtain s3 where s3:
    "wakeup dst False s2 = Inr s3" "sched_inv {} s3" "threads s3 = (threads s2)(dst \<mapsto> u\<lparr>th_state := T_RUNNING, th_cid := ?c, needsJoin := False, th_futexWord := 0\<rparr>)"
    "runQueue s3 = runQueue s2" "numCores s3 = numCores s2" "\<forall>d. running_at s3 d = running_at s2 d" by auto
  have i3: "system_inv par b s3" by (rule system_same [OF inv s3(2)]) (use s1 s2 s3 rc in auto)
  have a3: "threads s3 a = Some ?t" using ne s3(3) s2(3) s1(3) by simp
  have hu: "handoffThread u = None" using thread_quiet(3) [OF sched_inv_thread [OF s u(1)]] u(2) by simp
  have p3: "\<not> promised s3 a"
    using promised_upd [OF _ s3(3)] promised_upd [OF _ s2(3)] promised_upd [OF _ s1(3)] na(2) hu by auto
  define F where "F = (\<lambda>s4 :: 'a Scheduler. rbind (runQueue_push a s4) (\<lambda>s5. rbind (waitForContext a s5) (\<lambda>s6. Inr (b, s6))))"
  have no: "no_owner a s3"
    using thread_queues [OF sched_inv_thread [OF s3(2) a3]] na(1) s1(4) s2(4) s3(4) by (simp add: no_owner_def)
  have "done_or_starved par {} (rbind (schedThread co a s3) (\<lambda>(ctx, s'). case ctx of
      Some c \<Rightarrow> rbind (schedule co a c s') (\<lambda>s5. enter_context fuel co c (b, s5)) | None \<Rightarrow> F s'))"
  proof (rule place_ok [OF i3 par a3])
    have "th_state ?t = T_QUEUED" by simp
    show "F s3 = Inr (b, (set_th a (?t\<lparr>th_state := T_QUEUED, th_futexWord := 1\<rparr>) s3)\<lparr>runQueue := runQueue s3 @ [a]\<rparr>)"
      using a3 no by (simp add: F_def upd_th_def get_th_def runQueue_push_def waitForContext_def set_th_def)
  qed (use no p3 in \<open>simp_all add: no_owner_def\<close>)
  from this [unfolded F_def] show ?thesis using a dst s1(1) s2(1) s3(1) by (simp add: sync_handoff_def get_th_def)
qed

lemma delete_inv:
  assumes s: "sched_inv H s" and a: "threads s a = Some t" "th_state t \<noteq> T_RUNNING" "th_state t \<noteq> T_OUT" and no: "no_owner a s" "\<not> promised s a"
  defines "s' \<equiv> s\<lparr>threads := (threads s)(a := None)\<rparr>"
  shows "sched_inv H s' \<and> (\<forall>d < numCores s. running_at s' d = running_at s d)"
proof -
  note q = sched_inv_parts [OF s]
  have fl: "a \<notin> set (fakeLeaves s)" "handoffThread t = None" using thread_quiet(3) [OF sched_inv_thread [OF s a(1)]] a(2) by auto
  have sub: "threads s b = Some v \<and> b \<noteq> a" if "threads s' b = Some v" for b v
    using that by (auto simp: s'_def split: if_splits)
  have run: "running_at s' d = running_at s d" if "d < numCores s" for d
  proof -
    have "curThread (contexts s ! d) \<noteq> Some a" using sched_inv_ctx [OF s that] a by (auto simp: ctx_inv_def)
    then show ?thesis by (auto simp: running_at_def s'_def)
  qed
  have "thread_inv s' b v" if "threads s' b = Some v" for b v
    using sched_inv_thread [OF s conjunct1 [OF sub [OF that]]] unfolding thread_inv_def by (simp add: s'_def)
  moreover have "ctx_inv s' d" if "d < numCores s'" for d
  proof -
    have "d < numCores s" using that by (simp add: s'_def)
    from sched_inv_ctx [OF s this] a show ?thesis by (auto simp: ctx_inv_def s'_def)
  qed
  moreover have "idle s' = idle s" by (simp add: idle_def s'_def)
  moreover have "queues_inv s'"
  proof -
    have "\<forall>b. \<not> no_owner b s' \<or> b \<in> set (fakeLeaves s') \<longrightarrow> threads s' b \<noteq> None"
      using q(2) no(1) fl(1) unfolding queues_inv_def by (auto simp: s'_def no_owner_def)
    moreover have "sorted_wrt (\<lambda>b c. \<forall>t u. threads s' b = Some t \<longrightarrow> threads s' c = Some u \<longrightarrow> wakeupPhase t \<le> wakeupPhase u) (sleepQueue s)"
    proof (rule sorted_wrt_mono_rel)
      show "sorted_wrt (\<lambda>b c. \<forall>t u. threads s b = Some t \<longrightarrow> threads s c = Some u \<longrightarrow> wakeupPhase t \<le> wakeupPhase u) (sleepQueue s)"
        using q(2) unfolding queues_inv_def by blast
    qed (use sub in blast)
    ultimately show ?thesis using q(2) unfolding queues_inv_def by (simp add: s'_def)
  qed
  moreover have "handoff_inv s'"
    unfolding handoff_inv_def
  proof (intro allI impI)
    fix b v h assume v: "threads s' b = Some v" "handoffThread v = Some h"
    note v0 = conjunct1 [OF sub [OF v(1)]]
    then have "h \<noteq> a" using v(2) no(2) by (auto simp: promised_def)
    moreover have B: "h \<notin> set (runQueue s)" "\<exists>x. threads s h = Some x \<and> th_state x = T_QUEUED \<and> th_futexWord x = 1 \<and> th_mask x ! th_cid v"
      using q(1) v0 v(2) unfolding handoff_inv_def by blast+
    ultimately have A: "\<exists>x. threads s' h = Some x \<and> th_state x = T_QUEUED \<and> th_futexWord x = 1 \<and> th_mask x ! th_cid v"
      by (simp add: s'_def)
    have C: "a' = b" if "threads s' a' = Some t'" "handoffThread t' = Some h" for a' t'
      using q(1) v0 v(2) sub [OF that(1)] that(2) unfolding handoff_inv_def by blast
    have D: "h \<notin> set (runQueue s')" using B(1) by (simp add: s'_def)
    show "h \<notin> set (runQueue s') \<and> (\<exists>x. threads s' h = Some x \<and> th_state x = T_QUEUED \<and> th_futexWord x = 1 \<and> th_mask x ! th_cid v) \<and>
      (\<forall>a' t'. threads s' a' = Some t' \<longrightarrow> handoffThread t' = Some h \<longrightarrow> a' = b)"
      using A C D by blast
  qed
  moreover have "work_conserving H s'"
    unfolding work_conserving_def
  proof (intro ballI allI impI)
    fix b v d assume b: "b \<in> set (runQueue s')" "threads s' b = Some v" "d < numCores s'" "d \<notin> H" "th_mask v ! d"
    then have "running_at s d" using q(3) sub [OF b(2)] unfolding work_conserving_def by (simp add: s'_def)
    then show "running_at s' d" using run b(3) by (simp add: s'_def)
  qed
  ultimately have "sched_inv H s'" using s unfolding sched_inv_def by (simp add: s'_def)
  with run show ?thesis by blast
qed

lemma finish_end_ok:
  assumes inv: "system_inv par b s" and a: "threads s a = Some t"
    and st: "th_state t = T_STARTED \<or> th_state t = T_OUT \<or> th_state t = T_BLOCKED \<or> th_state t = T_QUEUED \<and> a \<in> set (runQueue s)"
  shows "\<exists>s'. finish_end co a s = Inr s' \<and> system_inv par b s'"
proof -
  note s = system_inv_parts(1) [OF inv]
  note ti = sched_inv_thread [OF s a] and q = thread_queues [OF sched_inv_thread [OF s a]]
  consider (queued) "th_state t = T_QUEUED" "a \<in> set (runQueue s)" | (out) "th_state t = T_OUT" | (idle) "th_state t = T_STARTED \<or> th_state t = T_BLOCKED"
    using st by blast
  then show ?thesis
  proof cases
    case queued
    let ?s = "s\<lparr>runQueue := remove1 a (runQueue s)\<rparr>" let ?d = "?s\<lparr>threads := (threads ?s)(a := None)\<rparr>"
    note d = dequeue_inv [OF s queued(2) a]
    have "sched_inv {} ?d \<and> (\<forall>d < numCores ?s. running_at ?d d = running_at ?s d)"
      by (rule delete_inv [OF d(2), of a t]) (use d a queued in simp_all)
    then have "system_inv par b ?d" by (intro system_same [OF inv]) simp_all
    moreover have "finish_end co a s = Inr ?d" using a queued by (simp add: finish_end_def get_th_def runQueue_remove_def)
    ultimately show ?thesis by blast
  next
    case out
    from steal_inv [OF s a out, of co] obtain s1 s2 where s2: "outQueue_remove a s = Inr s1" "deschedule co a (th_cid t) T_BLOCKED s1 = Inr s2"
      "sched_inv {th_cid t} s2" "threads s2 = (threads s)(a \<mapsto> t\<lparr>th_state := T_BLOCKED\<rparr>)" "runQueue s2 = runQueue s" "numCores s2 = numCores s"
      "no_owner a s2" "\<forall>d < numCores s. running_at s2 d = running_at s d" by blast
    have nr: "\<not> running_at s (th_cid t)" using thread_placed(1) [OF ti] a out by (simp add: running_at_def)
    have "\<not> th_mask v ! th_cid t" if v: "b \<in> set (runQueue s2)" "threads s2 b = Some v" for b v
    proof -
      have "b \<noteq> a" using v(1) s2(5) q(3) out by auto
      then have "threads s b = Some v" using v(2) s2(4) by simp
      then show ?thesis using sched_inv_parts(3) [OF s] v(1) s2(5) nr thread_quiet(2) [OF ti] unfolding work_conserving_def by auto
    qed
    from freeList_push_inv [OF s2(3) _ this] obtain s3 where s3: "freeList_push (th_cid t) s2 = Inr s3" "sched_inv {} s3"
      "s3 = s2\<lparr>freeList := freeList s2 @ [th_cid t]\<rparr>" by auto
    let ?d = "s3\<lparr>threads := (threads s3)(a := None)\<rparr>"
    have "\<not> promised s2 a" using promised_upd [OF _ s2(4)] a not_promised [OF s a] out by auto
    then have np: "\<not> promised s3 a" using s3(3) by (simp add: promised_def)
    have "sched_inv {} ?d \<and> (\<forall>d < numCores s3. running_at ?d d = running_at s3 d)"
      by (rule delete_inv [OF s3(2) _ _ _ _ np, of "t\<lparr>th_state := T_BLOCKED\<rparr>"]) (use s2 s3 in \<open>simp_all add: no_owner_def\<close>)
    then have "system_inv par b ?d" using s2 s3(3) by (intro system_same [OF inv]) simp_all
    moreover have "\<not> no_owner a s" using q(1) out by (simp add: no_owner_def)
    then have "finish_end co a s = Inr ?d" using a out s2(1,2) s3(1) by (simp add: finish_end_def get_th_def)
    ultimately show ?thesis by blast
  next
    case idle
    let ?d = "s\<lparr>threads := (threads s)(a := None)\<rparr>"
    have no: "no_owner a s" using q idle by (auto simp: no_owner_def)
    have np: "\<not> promised s a" using not_promised [OF s a] idle by auto
    have "sched_inv {} ?d \<and> (\<forall>d < numCores s. running_at ?d d = running_at s d)"
      by (rule delete_inv [OF s a _ _ no np]) (use idle in auto)
    then have "system_inv par b ?d" by (intro system_same [OF inv]) simp_all
    moreover have "finish_end co a s = Inr ?d" using a idle no by (auto simp: finish_end_def get_th_def)
    ultimately show ?thesis by blast
  qed
qed

lemma finish_off_ok:
  assumes "done_or_starved par {a} r"
  shows "done_or_starved par {} (rbind r (\<lambda>(b2, s2). rbind (get_th a s2) (\<lambda>t2.
     rbind (if th_state t2 = T_RUNNING then sched_leave fuel co gid (th_cid t2) (b2, s2) else Inr (b2, s2)) (\<lambda>(b3, s3).
     rbind (finish_end co a s3) (\<lambda>s4. Inr (b3, s4))))))"
proof (cases "r = Inl OutOfFuel")
  case False
  with assms obtain b s where r: "r = Inr (b, s)" "system_inv par b s" "th_off s a" by (auto simp: done_or_starved_def)
  then obtain t where t: "threads s a = Some t" "th_state t = T_OUT \<or> th_state t = T_BLOCKED" by (auto simp: th_off_def)
  from finish_end_ok [OF r(2) t(1), of co] t(2) obtain s' where "finish_end co a s = Inr s'" "system_inv par b s'" by auto
  then show ?thesis using r t by (auto simp: get_th_def done_or_starved_def)
qed (simp add: done_or_starved_def)

lemma finish_ok:
  assumes inv: "system_inv par b (s :: 'a Scheduler)" and par: "0 < par" and a: "gidMap s gid = Some a" "threads s a = Some t"
    and st: "th_state t = T_STARTED \<or> th_state t = T_OUT \<or> th_state t = T_BLOCKED \<or> th_state t = T_QUEUED \<and> a \<in> set (runQueue s) \<or>
      th_state t = T_RUNNING \<and> th_gid t = gid \<and> handoffThread t = None \<and> \<not> markedForSleep t \<and> bst b (th_cid t) = B_RUNNING"
  shows "done_or_starved par {} (sched_finish fuel co gid (b, s))"
proof -
  let ?s = "s\<lparr>gidMap := (gidMap s)(gid := None)\<rparr>"
  have i: "system_inv par b ?s" using inv by (simp add: system_inv_def)
  note s = system_inv_parts(1) [OF i]
  have t: "threads ?s a = Some t" using a by simp
  note ti = sched_inv_thread [OF s t]
  have fb: "finish_begin gid s = Inr (a, ?s)" using a by (simp add: finish_begin_def)
  define F where "F = (\<lambda>(b2 :: Barrier, s2 :: 'a Scheduler). rbind (get_th a s2) (\<lambda>t2.
     rbind (if th_state t2 = T_RUNNING then sched_leave fuel co gid (th_cid t2) (b2, s2) else Inr (b2, s2)) (\<lambda>(b3, s3).
     rbind (finish_end co a s3) (\<lambda>s4. Inr (b3, s4)))))"
  have e: "sched_finish fuel co gid (b, s) = rbind (if fakeLeave t \<noteq> None
            then rbind (finishFakeLeave a ?s) (\<lambda>s2. sched_leave fuel co gid (th_cid t) (b, s2)) else Inr (b, ?s)) F"
    using fb t by (simp add: sched_finish_def F_def get_th_def)
  show ?thesis
  proof (cases "fakeLeave t = None")
    case False
    have run: "th_state t = T_RUNNING" using thread_quiet(3) [OF ti] False by auto
    then have st': "th_gid t = gid" "handoffThread t = None" "\<not> markedForSleep t" "bst b (th_cid t) = B_RUNNING" using st by auto
    from finishFakeLeave_inv [OF s t False] obtain s2 where s2: "finishFakeLeave a ?s = Inr s2" "sched_inv {} s2" "threads s2 = (threads ?s)(a \<mapsto> t\<lparr>fakeLeave := None\<rparr>)"
      "contexts s2 = contexts ?s" "numCores s2 = numCores ?s" "\<forall>d. running_at s2 d = running_at ?s d" by blast
    have i2: "system_inv par b s2" by (rule system_same [OF i s2(2)]) (use s2 in simp_all)
    have "done_or_starved par (if markedForSleep (t\<lparr>fakeLeave := None\<rparr>) then {} else {a}) (sched_leave fuel co gid (th_cid t) (b, s2))"
      by (rule leave_ok [OF i2 par]) (use thread_quiet(2) [OF ti] thread_placed(1) [OF ti] s2 st' run in simp_all)
    then show ?thesis using finish_off_ok [of par a] st'(3) False s2(1) by (simp add: e F_def)
  next
    case True
    have eF: "sched_finish fuel co gid (b, s) = rbind (if th_state t = T_RUNNING then sched_leave fuel co gid (th_cid t) (b, ?s) else Inr (b, ?s)) (\<lambda>(b3, s3).
     rbind (finish_end co a s3) (\<lambda>s4. Inr (b3, s4)))" using t by (simp add: e True F_def get_th_def)
    show ?thesis
    proof (cases "th_state t = T_RUNNING")
      case run: True
      then have st': "th_gid t = gid" "handoffThread t = None" "\<not> markedForSleep t" "bst b (th_cid t) = B_RUNNING" using st by auto
      have "done_or_starved par (if markedForSleep t then {} else {a}) (sched_leave fuel co gid (th_cid t) (b, ?s))"
        by (rule leave_ok [OF i par]) (use thread_quiet(2) [OF ti] thread_placed(1) [OF ti] t st' run True in simp_all)
      then have d: "done_or_starved par {a} (sched_leave fuel co gid (th_cid t) (b, ?s))" using st'(3) by simp
      show ?thesis
      proof (cases "sched_leave fuel co gid (th_cid t) (b, ?s) = Inl OutOfFuel")
        case False
        with d obtain b3 s3 where r: "sched_leave fuel co gid (th_cid t) (b, ?s) = Inr (b3, s3)" "system_inv par b3 s3" "th_off s3 a"
          by (auto simp: done_or_starved_def)
        then obtain t3 where t3: "threads s3 a = Some t3" "th_state t3 = T_OUT \<or> th_state t3 = T_BLOCKED" by (auto simp: th_off_def)
        from finish_end_ok [OF r(2) t3(1), of co] t3(2) obtain s' where "finish_end co a s3 = Inr s'" "system_inv par b3 s'" by auto
        then show ?thesis using eF run r(1) by (simp add: done_or_starved_def)
      qed (use eF run in \<open>simp add: done_or_starved_def\<close>)
    next
      case False
      from finish_end_ok [OF i t, of co] st False obtain s' where "finish_end co a ?s = Inr s'" "system_inv par b s'" by auto
      then show ?thesis using eF False by (simp add: done_or_starved_def)
    qed
  qed
qed

subsection \<open>The other operations\<close>

lemma start_ok:
  assumes inv: "system_inv par b s" and a: "threads s a = None" "gidMap s gid = None" and msk: "length msk = numCores s" "True \<in> set msk"
  shows "\<exists>s'. sched_start a gid msk junk s = Inr s' \<and> system_inv par b s'"
proof -
  note s = system_inv_parts(1) [OF inv] and q = sched_inv_parts [OF system_inv_parts(1) [OF inv]]
  have n0: "0 < numCores s" using msk by (cases msk) auto
  obtain t where t: "ThreadInfo_init gid msk (numCores s) junk = Inr t" "th_state t = T_STARTED" "th_cid t = 0" "handoffThread t = None"
    "\<not> markedForSleep t" "th_mask t = msk" "fakeLeave t = None" using msk by (simp add: ThreadInfo_init_def)
  have no: "no_owner a s" "a \<notin> set (fakeLeaves s)" using q(2) a(1) unfolding queues_inv_def by blast+
  let ?s = "set_th a t s"
  have "sched_inv {} ?s"
  proof (rule change_inv [OF s, where a = a and t' = t])
    show "queues_inv ?s" using q(2) no by (intro queues_upd) (simp_all add: no_owner_def)
    show "handoff_inv ?s" by (rule handoff_fresh [OF q(1) a(1) t(4)])
    show "work_conserving {} ?s" by (rule wc_mono [OF q(3), where a = a and t' = t]) (use a no in \<open>simp_all add: no_owner_def\<close>)
    have "a \<notin> set (runQueue s)" "a \<notin> set (outQueue s)" "a \<notin> set (sleepQueue s)" using no(1) by (simp_all add: no_owner_def)
    then show "thread_inv ?s a t" using t(2-7) no(2) n0 msk(1) unfolding thread_inv_def by simp
  qed (use a in \<open>simp_all add: kept_def\<close>)
  moreover have "running_at ?s d = running_at s d" if "d < numCores s" for d
  proof (rule running_other [where a = a])
    show "curThread (contexts s ! d) \<noteq> Some a" using sched_inv_ctx [OF s that] a by (auto simp: ctx_inv_def)
  qed simp_all
  ultimately have "system_inv par b ?s" by (intro system_same [OF inv]) simp_all
  then have "system_inv par b (?s\<lparr>gidMap := (gidMap s)(gid \<mapsto> a)\<rparr>)" by (simp add: system_inv_def)
  then show ?thesis using a t(1) by (simp add: sched_start_def)
qed

lemma mark_ok:
  assumes inv: "system_inv par b s" and a: "gidMap s gid = Some a" "threads s a = Some t" "th_state t = T_RUNNING" "\<not> markedForSleep t"
  shows "\<exists>s'. markForSleep gid n s = Inr s' \<and> system_inv par b s'"
proof -
  note s = system_inv_parts(1) [OF inv]
  let ?t = "t\<lparr>markedForSleep := True, wakeupPhase := n, th_futexWord := 1\<rparr>"
  have "thread_inv s a ?t" using sched_inv_thread [OF s a(2)] a(3) by (simp add: thread_inv_def)
  moreover have "\<not> promised s a" using not_promised [OF s a(2)] a(3) by simp
  ultimately have "sched_inv {} (set_th a ?t s) \<and> (\<forall>d. running_at (set_th a ?t s) d = running_at s d)"
    by (intro set_th_inv [OF s a(2)]) (use a in simp_all)
  then have "system_inv par b (set_th a ?t s)" by (intro system_same [OF inv]) simp_all
  then show ?thesis using a by (simp add: markForSleep_def find_th_def get_th_def)
qed

lemma sleep_end_ok:
  assumes inv: "system_inv par b s" and a: "gidMap s gid = Some a" "threads s a = Some t" "th_state t = T_SLEEPING \<or> th_state t = T_BLOCKED"
  shows "\<exists>s'. notifySleepEnd gid s = Inr s' \<and> system_inv par b s'"
proof -
  note s = system_inv_parts(1) [OF inv] and ti = sched_inv_thread [OF system_inv_parts(1) [OF inv] a(2)]
  have mk: "\<not> markedForSleep t" using thread_quiet(3) [OF ti] a(3) by auto
  show ?thesis
  proof (cases "th_state t = T_BLOCKED")
    case True
    then show ?thesis using inv a mk by (simp add: notifySleepEnd_def find_th_def get_th_def)
  next
    case False
    then have st: "th_state t = T_SLEEPING" using a(3) by simp
    let ?t = "t\<lparr>th_state := T_BLOCKED\<rparr>" let ?s = "(set_th a ?t s)\<lparr>sleepQueue := remove1 a (sleepQueue s)\<rparr>"
    have "sched_inv {} ?s \<and> (\<forall>d < numCores s. running_at ?s d = running_at s d) \<and> \<not> promised ?s a \<and> a \<notin> set (runQueue ?s)"
      by (rule unsleep_inv [OF s a(2) st, where j = "needsJoin t" and w = "th_futexWord t"]) (simp_all add: kept_def)
    then have "system_inv par b ?s" by (intro system_same [OF inv]) simp_all
    moreover have q: "a \<in> set (sleepQueue s)" using thread_queues(2) [OF ti] st by simp
    have "notifySleepEnd gid s = Inr (set_th a ?t (s\<lparr>sleepQueue := remove1 a (sleepQueue s)\<rparr>))"
      using a(1,2) st mk q by (simp add: notifySleepEnd_def find_th_def get_th_def sleepQueue_remove_def)
    then have "notifySleepEnd gid s = Inr ?s" by (simp add: set_th_def)
    ultimately show ?thesis by blast
  qed
qed

lemma syscall_ok:
  assumes inv: "system_inv par b s" and par: "0 < par" and c: "c < numCores s" "curThread (contexts s ! c) = Some a"
    and a: "threads s a = Some t" "th_state t = T_RUNNING" "th_gid t = gid" "handoffThread t = None" "fakeLeave t = None"
    and late: "markedForSleep t \<Longrightarrow> curPhase s < wakeupPhase t" and bc: "bst b c = B_RUNNING" and pid: "unat pid < length (blockingSyscalls s)"
  shows "done_or_starved par {} (syscallLeave fuel co pid gid c pc (b, s))"
proof -
  note s = system_inv_parts(1) [OF inv]
  have tc: "th_cid t = c" using sched_inv_ctx [OF s c(1)] c(2) a(1) by (auto simp: ctx_inv_def)
  have len: "length (contexts s) = numCores s" using sched_inv_parts(4) [OF s] .
  show ?thesis
  proof (cases "pc \<in> blockingSyscalls s ! unat pid \<or> markedForSleep t")
    case True
    have "done_or_starved par (if markedForSleep t then {} else {a}) (sched_leave fuel co gid c (b, s))"
      by (rule leave_ok [OF inv par c a late bc])
    then have "done_or_starved par {} (sched_leave fuel co gid c (b, s))" by (auto simp: done_or_starved_def)
    then show ?thesis using True c a tc len pid by (simp add: syscallLeave_def get_th_def)
  next
    case False
    let ?s = "(set_th a (t\<lparr>fakeLeave := Some pc\<rparr>) s)\<lparr>fakeLeaves := fakeLeaves s @ [a]\<rparr>"
    have fl: "a \<notin> set (fakeLeaves s)" using sched_inv_thread [OF s a(1)] a(5) unfolding thread_inv_def by blast
    have d: "distinct (fakeLeaves s)" using s unfolding sched_inv_def queues_inv_def by blast
    have "sched_inv {} ?s \<and> (\<forall>d. running_at ?s d = running_at s d)"
      by (rule fake_inv [OF s a(1,2)]) (use d fl in auto)
    then have "system_inv par b ?s" by (intro system_same [OF inv]) simp_all
    then show ?thesis using False c a tc len pid by (simp add: syscallLeave_def get_th_def done_or_starved_def)
  qed
qed

lemma watchdog_ok:
  assumes inv: "system_inv par b s"
  shows "done_or_starved par {} (rbind (sched_callback fuel co s) (\<lambda>s1. Inr (b, s1)))"
proof -
  from sched_callback_inv [OF system_inv_parts [OF inv], of fuel co] show ?thesis
  proof (elim disjE exE conjE)
    fix s' assume "sched_callback fuel co s = Inr s'" "sched_inv {} s'" "numCores s' = numCores s" "\<forall>d < numCores s. running_at s' d = running_at s d"
    then show ?thesis using system_same [OF inv] by (simp add: done_or_starved_def)
  qed (simp add: done_or_starved_def)
qed

subsection \<open>Runs\<close>

datatype sched_op = SStart nat u32 "bool list" bool | SJoin nat | SLeave u32 nat | SSync nat | SHandoff nat | SFinish u32
  | SMark u32 nat | SSleepEnd u32 | SSyscall u32 u32 nat u64 | SWatchdog

fun sched_step :: "nat \<Rightarrow> 'x core_ops \<Rightarrow> sched_op \<Rightarrow> Barrier \<times> 'x Scheduler \<Rightarrow> (Barrier \<times> 'x Scheduler) res" where
  "sched_step fuel co (SStart a gid msk junk) (b, s) = rbind (sched_start a gid msk junk s) (\<lambda>s1. Inr (b, s1))"
| "sched_step fuel co (SJoin a) (b, s) = sched_join fuel co a (b, s)"
| "sched_step fuel co (SLeave gid c) (b, s) = sched_leave fuel co gid c (b, s)"
| "sched_step fuel co (SSync c) (b, s) = sched_sync fuel co c (b, s)"
| "sched_step fuel co (SHandoff a) (b, s) = sync_handoff fuel co a (b, s)"
| "sched_step fuel co (SFinish gid) (b, s) = sched_finish fuel co gid (b, s)"
| "sched_step fuel co (SMark gid n) (b, s) = rbind (markForSleep gid n s) (\<lambda>s1. Inr (b, s1))"
| "sched_step fuel co (SSleepEnd gid) (b, s) = rbind (notifySleepEnd gid s) (\<lambda>s1. Inr (b, s1))"
| "sched_step fuel co (SSyscall pid gid c pc) (b, s) = syscallLeave fuel co pid gid c pc (b, s)"
| "sched_step fuel co SWatchdog (b, s) = rbind (sched_callback fuel co s) (\<lambda>s1. Inr (b, s1))"

text \<open>The callers' discipline.  A thread calls for itself: it leaves, syncs or goes to sleep while it runs, joins while it does not, and
  takes its pending hand-over before anything else; it sleeps to a phase still to come.  A running thread's core runs in the barrier.\<close>

definition thread_of :: "'x Scheduler \<Rightarrow> u32 \<Rightarrow> ThreadInfo option" where
  "thread_of s gid = (case gidMap s gid of None \<Rightarrow> None | Some a \<Rightarrow> threads s a)"

definition thread_on :: "'x Scheduler \<Rightarrow> nat \<Rightarrow> ThreadInfo option" where
  "thread_on s c = (if c < numCores s then case curThread (contexts s ! c) of None \<Rightarrow> None | Some a \<Rightarrow> threads s a else None)"

definition opt_holds :: "('a \<Rightarrow> bool) \<Rightarrow> 'a option \<Rightarrow> bool" where
  "opt_holds P m = (case m of None \<Rightarrow> False | Some x \<Rightarrow> P x)"

lemma opt_holds_iff: "opt_holds P m \<longleftrightarrow> (\<exists>x. m = Some x \<and> P x)"
  by (simp add: opt_holds_def split: option.split)

definition may_leave :: "Barrier \<times> 'x Scheduler \<Rightarrow> u32 \<Rightarrow> nat \<Rightarrow> ThreadInfo \<Rightarrow> bool" where
  "may_leave = (\<lambda>(b, s) gid c t. th_state t = T_RUNNING \<and> th_gid t = gid \<and> handoffThread t = None \<and> fakeLeave t = None \<and>
     (markedForSleep t \<longrightarrow> curPhase s < wakeupPhase t) \<and> bst b c = B_RUNNING)"

definition may_finish :: "Barrier \<times> 'x Scheduler \<Rightarrow> u32 \<Rightarrow> nat \<Rightarrow> ThreadInfo \<Rightarrow> bool" where
  "may_finish = (\<lambda>(b, s) gid a t. th_state t = T_STARTED \<or> th_state t = T_OUT \<or> th_state t = T_BLOCKED \<or>
     th_state t = T_QUEUED \<and> a \<in> set (runQueue s) \<or>
     th_state t = T_RUNNING \<and> th_gid t = gid \<and> handoffThread t = None \<and> \<not> markedForSleep t \<and> bst b (th_cid t) = B_RUNNING)"

fun sched_legal :: "sched_op \<Rightarrow> Barrier \<times> 'x Scheduler \<Rightarrow> bool" where
  "sched_legal (SStart a gid msk junk) (b, s) \<longleftrightarrow>
     threads s a = None \<and> gidMap s gid = None \<and> length msk = numCores s \<and> True \<in> set msk"
| "sched_legal (SJoin a) (b, s) \<longleftrightarrow>
     opt_holds (\<lambda>t. fakeLeave t \<noteq> None \<or> th_state t \<in> {T_STARTED, T_BLOCKED, T_SLEEPING, T_OUT}) (threads s a)"
| "sched_legal (SLeave gid c) (b, s) \<longleftrightarrow> opt_holds (may_leave (b, s) gid c) (thread_on s c)"
| "sched_legal (SSync c) (b, s) \<longleftrightarrow>
     opt_holds (\<lambda>t. th_state t = T_RUNNING \<and> \<not> markedForSleep t \<and> bst b c = B_RUNNING) (thread_on s c)"
| "sched_legal (SHandoff a) (b, s) \<longleftrightarrow>
     opt_holds (\<lambda>t. handoffThread t \<noteq> None \<and> \<not> markedForSleep t \<and> fakeLeave t = None) (threads s a)"
| "sched_legal (SFinish gid) (b, s) \<longleftrightarrow>
     opt_holds (\<lambda>a. opt_holds (may_finish (b, s) gid a) (threads s a)) (gidMap s gid)"
| "sched_legal (SMark gid n) (b, s) \<longleftrightarrow> opt_holds (\<lambda>t. th_state t = T_RUNNING \<and> \<not> markedForSleep t) (thread_of s gid)"
| "sched_legal (SSleepEnd gid) (b, s) \<longleftrightarrow> opt_holds (\<lambda>t. th_state t = T_SLEEPING \<or> th_state t = T_BLOCKED) (thread_of s gid)"
| "sched_legal (SSyscall pid gid c pc) (b, s) \<longleftrightarrow>
     opt_holds (may_leave (b, s) gid c) (thread_on s c) \<and> unat pid < length (blockingSyscalls s)"
| "sched_legal SWatchdog (b, s) \<longleftrightarrow> scheduledThreads s = length (outQueue s) \<and> sleepQueue s \<noteq> []"

inductive sched_run :: "nat \<Rightarrow> 'x core_ops \<Rightarrow> nat \<Rightarrow> Barrier \<times> 'x Scheduler \<Rightarrow> bool" for fuel co par where
  init: "Barrier_init par junk = Inr b \<Longrightarrow> Scheduler_init cores quantum phLen x = Inr s \<Longrightarrow> cores \<le> MAX_THREADS \<Longrightarrow> 0 < quantum \<Longrightarrow>
    sched_run fuel co par (b, s)"
| step: "sched_run fuel co par bs \<Longrightarrow> sched_legal op bs \<Longrightarrow> sched_step fuel co op bs = Inr bs' \<Longrightarrow> sched_run fuel co par bs'"

lemma thread_on_iff: "thread_on s c = Some t \<longleftrightarrow> c < numCores s \<and> (\<exists>a. curThread (contexts s ! c) = Some a \<and> threads s a = Some t)"
  by (auto simp: thread_on_def split: option.split)

lemma thread_of_iff: "thread_of s gid = Some t \<longleftrightarrow> (\<exists>a. gidMap s gid = Some a \<and> threads s a = Some t)"
  by (auto simp: thread_of_def split: option.split)

lemma sched_step_ok:
  assumes inv: "system_inv par b s" and par: "0 < par" and op: "sched_legal op (b, s)"
  shows "done_or_starved par {} (sched_step fuel co op (b, s))"
proof (cases op)
  case (SStart a gid msk junk)
  with op have "threads s a = None" "gidMap s gid = None" "length msk = numCores s" "True \<in> set msk" by simp_all
  from start_ok [OF inv this, of junk] SStart show ?thesis by (auto simp: done_or_starved_def)
next
  case (SJoin a)
  with op obtain t where "threads s a = Some t" "fakeLeave t \<noteq> None \<or> th_state t \<in> {T_STARTED, T_BLOCKED, T_SLEEPING, T_OUT}"
    by (auto simp: opt_holds_iff)
  from join_ok [OF inv par this] SJoin show ?thesis by simp
next
  case (SLeave gid c)
  with op obtain a t where t: "c < numCores s" "curThread (contexts s ! c) = Some a" "threads s a = Some t" "may_leave (b, s) gid c t"
    by (auto simp: opt_holds_iff thread_on_iff)
  have "done_or_starved par (if markedForSleep t then {} else {a}) (sched_leave fuel co gid c (b, s))"
    by (rule leave_ok [OF inv par t(1,2,3)]) (use t(4) in \<open>simp_all add: may_leave_def\<close>)
  then show ?thesis using SLeave by (auto simp: done_or_starved_def)
next
  case (SSync c)
  with op obtain a t where t: "c < numCores s" "curThread (contexts s ! c) = Some a" "threads s a = Some t"
    "th_state t = T_RUNNING" "\<not> markedForSleep t" "bst b c = B_RUNNING" by (auto simp: opt_holds_iff thread_on_iff)
  from sync_ok [OF inv par t] SSync show ?thesis by simp
next
  case (SHandoff a)
  with op obtain t where "threads s a = Some t" "handoffThread t \<noteq> None" "\<not> markedForSleep t" "fakeLeave t = None"
    by (auto simp: opt_holds_iff)
  from handoff_ok [OF inv par this] SHandoff show ?thesis by simp
next
  case (SFinish gid)
  with op obtain a t where t: "gidMap s gid = Some a" "threads s a = Some t" "may_finish (b, s) gid a t" by (auto simp: opt_holds_iff)
  from finish_ok [OF inv par t(1,2)] t(3) SFinish show ?thesis by (simp add: may_finish_def)
next
  case (SMark gid n)
  with op obtain a t where "gidMap s gid = Some a" "threads s a = Some t" "th_state t = T_RUNNING" "\<not> markedForSleep t"
    by (auto simp: opt_holds_iff thread_of_iff)
  from mark_ok [OF inv this, of n] SMark show ?thesis by (auto simp: done_or_starved_def)
next
  case (SSleepEnd gid)
  with op obtain a t where "gidMap s gid = Some a" "threads s a = Some t" "th_state t = T_SLEEPING \<or> th_state t = T_BLOCKED"
    by (auto simp: opt_holds_iff thread_of_iff)
  from sleep_end_ok [OF inv this] SSleepEnd show ?thesis by (auto simp: done_or_starved_def)
next
  case (SSyscall pid gid c pc)
  with op obtain a t where t: "c < numCores s" "curThread (contexts s ! c) = Some a" "threads s a = Some t" "may_leave (b, s) gid c t"
    "unat pid < length (blockingSyscalls s)" by (auto simp: opt_holds_iff thread_on_iff)
  have "done_or_starved par {} (syscallLeave fuel co pid gid c pc (b, s))"
    by (rule syscall_ok [OF inv par t(1,2,3)]) (use t(4,5) in \<open>simp_all add: may_leave_def\<close>)
  then show ?thesis using SSyscall by simp
next
  case SWatchdog
  with watchdog_ok [OF inv, of fuel co] show ?thesis by simp
qed

lemma system_init:
  assumes b: "Barrier_init par junk = Inr b" and s: "Scheduler_init cores quantum phLen x = Inr s" and n: "cores \<le> MAX_THREADS" "0 < quantum"
  shows "system_inv par b s"
proof -
  obtain m where m: "mt_seed 0x5C73D9134 = Inr m" and s': "s = \<lparr>numCores = cores, schedQuantum = quantum, threads = Map.empty, gidMap = Map.empty,
      contexts = replicate cores \<lparr>ctx_state = C_IDLE, curThread = None\<rparr>, freeList = [0..<cores], runQueue = [],
      outQueue = [], sleepQueue = [], curPhase = 0, sch_rnd = m, scheduledThreads = 0,
      blockingSyscalls = replicate MAX_THREADS {}, fakeLeaves = [], maxAllowedFutexWakeups = 0, unmatchedFutexWakeups = 0,
      numPhases = 0, globPhaseCycles = 0, sch_phaseLength = phLen, machine = x\<rparr>"
    using s unfolding Scheduler_init_def by (auto simp: res_simps)
  have mo: "mt_ok m"
    using m mt_reload_ok [of "\<lparr>mt_state = mt_initialize 0x5C73D9134, pNext = 0, mt_left = 0\<rparr>"] mt_initialize_ok by (auto simp: mt_seed_def)
  have id: "idle s = {..<cores}" by (auto simp: idle_def s')
  have "sched_inv {} s"
    unfolding sched_inv_def id
    using mo n by (simp add: s' ctx_inv_def queues_inv_def no_owner_def handoff_inv_def work_conserving_def lessThan_atLeast0)
  moreover obtain m' where b': "b = \<lparr>parallelThreads = par, threadList = map (\<lambda>t. \<lparr>ts_state = B_OFFLINE, ts_futexWord = 0, ts_lastIdx = junk t\<rparr>) [0..<MAX_THREADS],
       runList = replicate MAX_THREADS 0, runListSize = 0, curThreadIdx = 0, runningThreads = 0, leftThreads = 0,
       phaseCount = 0, bar_rnd = m'\<rparr>"
    using b unfolding Barrier_init_def by (auto simp: res_simps)
  moreover have "bar_inv par {} b" using b by (rule Barrier_init_inv)
  ultimately show ?thesis
    using n by (auto simp: system_inv_def s' bar_active_def bst_def running_at_def)
qed

lemma sched_run_inv: "sched_run fuel co par bs \<Longrightarrow> 0 < par \<Longrightarrow> system_inv par (fst bs) (snd bs)"
proof (induction rule: sched_run.induct)
  case (init junk b cores quantum phLen x s)
  then show ?case using system_init by auto
next
  case (step bs op bs')
  obtain b s where "bs = (b, s)" by (cases bs)
  with step sched_step_ok [of par b s op fuel co] show ?case by (auto simp: done_or_starved_def)
qed

subsection \<open>Properties of the scheduler\<close>

lemma sched_run_parts:
  assumes "sched_run fuel co par (b, s)" "0 < par"
  shows "system_inv par b s" "sched_inv {} s"
  using sched_run_inv [OF assms] by (simp_all add: system_inv_def)


text \<open>C12. Threads and contexts match in every reachable state: a thread that runs or is out holds the context of its core, which its mask allows, and no
  other thread holds it; a context is on the free list, once, exactly when no thread holds it; the barrier's active cores are exactly those
  whose thread runs; and the count of scheduled threads is the number of contexts held.\<close>

theorem sched_placement:
  assumes "sched_run fuel co par (b, s)" and "0 < par"
  shows "(\<forall>a t. threads s a = Some t \<longrightarrow> th_state t = T_RUNNING \<or> th_state t = T_OUT \<longrightarrow>
      th_cid t < numCores s \<and> th_mask t ! th_cid t \<and> curThread (contexts s ! th_cid t) = Some a) \<and>
    (\<forall>c < numCores s. (c \<in> set (freeList s) \<longleftrightarrow> ctx_state (contexts s ! c) = C_IDLE) \<and>
      (ctx_state (contexts s ! c) = C_IDLE \<longleftrightarrow> curThread (contexts s ! c) = None)) \<and>
    (\<forall>c < MAX_THREADS. bar_active b c \<longleftrightarrow> c < numCores s \<and> running_at s c) \<and>
    distinct (freeList s) \<and> scheduledThreads s + length (freeList s) = numCores s"
proof -
  note inv = sched_run_parts [OF assms]
  have fl: "set (freeList s) = idle s" "distinct (freeList s)" "scheduledThreads s + card (idle s) = numCores s"
    using inv(2) by (simp_all add: sched_inv_def)
  have "th_cid t < numCores s \<and> th_mask t ! th_cid t \<and> curThread (contexts s ! th_cid t) = Some a"
    if "threads s a = Some t" "th_state t = T_RUNNING \<or> th_state t = T_OUT" for a t
    using thread_quiet(2) [OF sched_inv_thread [OF inv(2) that(1)]] thread_placed [OF sched_inv_thread [OF inv(2) that(1)] that(2)] by blast
  moreover have "(c \<in> set (freeList s) \<longleftrightarrow> ctx_state (contexts s ! c) = C_IDLE) \<and> (ctx_state (contexts s ! c) = C_IDLE \<longleftrightarrow> curThread (contexts s ! c) = None)"
    if "c < numCores s" for c
    using sched_inv_ctx [OF inv(2) that] that fl(1) by (cases "curThread (contexts s ! c)") (auto simp: ctx_inv_def idle_def)
  moreover have "length (freeList s) = card (idle s)" using distinct_card [OF fl(2)] fl(1) by simp
  ultimately show ?thesis using inv(1) fl(2,3) by (simp add: system_inv_def)
qed

text \<open>C13. The scheduler conserves work: in every reachable state, each core that a thread of the run queue may use runs another thread, so no core is free or held
  by a thread that left while a queued thread could use it.\<close>

theorem sched_conserves_work:
  assumes "sched_run fuel co par (b, s)" and "0 < par" and "a \<in> set (runQueue s)"
  shows "\<exists>t. threads s a = Some t \<and> th_state t = T_QUEUED \<and> (\<forall>c < numCores s. th_mask t ! c \<longrightarrow>
    (\<exists>v u. curThread (contexts s ! c) = Some v \<and> v \<noteq> a \<and> threads s v = Some u \<and> th_state u = T_RUNNING))"
proof -
  note inv = sched_run_parts [OF assms(1,2)]
  from sched_inv_parts(2) [OF inv(2)] assms(3) obtain t where t: "threads s a = Some t" by (auto simp: queues_inv_def no_owner_def)
  have st: "th_state t = T_QUEUED" using thread_queues(3) [OF sched_inv_thread [OF inv(2) t] assms(3)] by blast
  have "\<exists>v u. curThread (contexts s ! c) = Some v \<and> v \<noteq> a \<and> threads s v = Some u \<and> th_state u = T_RUNNING" if "c < numCores s" "th_mask t ! c" for c
  proof -
    have "running_at s c" using sched_inv_parts(3) [OF inv(2)] assms(3) t that unfolding work_conserving_def by simp
    then show ?thesis using t st by (fastforce simp: running_at_def)
  qed
  with t st show ?thesis by blast
qed

text \<open>C14. Sleepers wake up on time: in a reachable state every sleeping thread's phase is still to come, and the end of a phase moves
  exactly those whose phase it reaches out of the sleep queue, to be blocked until they join.\<close>

theorem sched_wakes_on_time:
  assumes "sched_run fuel co par (b, s)" and "0 < par" and "sched_callback fuel co s = Inr s'"
    and "threads s a = Some t" and "th_state t = T_SLEEPING"
  shows "curPhase s < wakeupPhase t \<and> curPhase s' = curPhase s + 1 \<and>
    (\<exists>t'. threads s' a = Some t' \<and> th_state t' = (if wakeupPhase t = curPhase s + 1 then T_BLOCKED else T_SLEEPING))"
proof -
  note inv = sched_run_parts [OF assms(1,2)]
  have w: "curPhase s < wakeupPhase t" using sched_inv_thread [OF inv(2) assms(4)] assms(5) by (simp add: thread_inv_def)
  from sched_callback_inv [OF inv(2) system_inv_parts(2) [OF inv(1)], of fuel co] assms(3)
  have cb: "curPhase s' = Suc (curPhase s)" "map_option th_state (threads s' a) = map_option (th_state \<circ> woken_up (Suc (curPhase s))) (threads s a)" by auto
  from cb(2) assms(4) obtain t' where "threads s' a = Some t'" "th_state t' = th_state (woken_up (Suc (curPhase s)) t)" by auto
  then show ?thesis using cb(1) w assms(5) by (auto simp: woken_up_def)
qed

subsection \<open>A concrete run\<close>

text \<open>One core and two threads: the first runs, the second waits for the core; then the first goes to sleep and the second gets the core.\<close>

definition idle_ops :: "unit core_ops" where
  "idle_ops = \<lparr>core_join = \<lambda>_ x. x, core_leave = \<lambda>_ x. x, core_contextSwitch = \<lambda>_ _ x. x, atSyncFunc = \<lambda>x. x\<rparr>"

definition sched0 :: "MTRand \<Rightarrow> unit Scheduler" where
  "sched0 m = \<lparr>numCores = 1, schedQuantum = 1, threads = Map.empty, gidMap = Map.empty,
      contexts = [\<lparr>ctx_state = C_IDLE, curThread = None\<rparr>], freeList = [0], runQueue = [],
      outQueue = [], sleepQueue = [], curPhase = 0, sch_rnd = m, scheduledThreads = 0,
      blockingSyscalls = replicate MAX_THREADS {}, fakeLeaves = [], maxAllowedFutexWakeups = 0, unmatchedFutexWakeups = 0,
      numPhases = 0, globPhaseCycles = 0, sch_phaseLength = 1000, machine = ()\<rparr>"

lemma sched0_init: "\<exists>m. Scheduler_init 1 1 1000 () = Inr (sched0 m)"
  using mt_reload_ok [of "\<lparr>mt_state = mt_initialize 0x5C73D9134, pNext = 0, mt_left = 0\<rparr>"] mt_initialize_ok
  by (auto simp: Scheduler_init_def sched0_def mt_seed_def)

fun sched_exec :: "sched_op list \<Rightarrow> Barrier \<times> unit Scheduler \<Rightarrow> (Barrier \<times> unit Scheduler) option" where
  "sched_exec [] bs = Some bs"
| "sched_exec (op # ops) bs =
     (if sched_legal op bs then case sched_step 0 idle_ops op bs of Inl e \<Rightarrow> None | Inr bs1 \<Rightarrow> sched_exec ops bs1 else None)"

lemma sched_exec_run: "sched_exec ops bs = Some bs' \<Longrightarrow> sched_run 0 idle_ops 1 bs \<Longrightarrow> sched_run 0 idle_ops 1 bs'"
  by (induction ops arbitrary: bs) (auto split: if_splits sum.splits intro: sched_run.step)

lemma sched0_run: "\<exists>m m'. sched_run 0 idle_ops 1 (bar0 1 m, sched0 m')"
proof -
  obtain m m' where "Barrier_init 1 (\<lambda>_. 0) = Inr (bar0 1 m)" "Scheduler_init 1 1 1000 () = Inr (sched0 m')"
    using bar0_init sched0_init by blast
  then have "sched_run 0 idle_ops 1 (bar0 1 m, sched0 m')" by (rule sched_run.init) (simp_all add: few_threads less_imp_le)
  then show ?thesis by blast
qed

lemmas sched_eval = idle_ops_def sched0_def sched_start_def ThreadInfo_init_def sched_join_def schedThread_def schedule_def enter_context_def
  freeList_remove_def get_th_def set_th_def upd_th_def runQueue_push_def no_owner_def waitForContext_def opt_holds_def thread_of_def thread_on_def may_leave_def

lemma demo_queued:
  "\<exists>b s. sched_exec [SStart 0 1 [True] False, SJoin 0, SStart 1 2 [True] False, SJoin 1] (bar0 1 m, sched0 m') = Some (b, s) \<and>
    threads s 0 \<noteq> None \<and> th_state (the (threads s 0)) = T_RUNNING \<and> runQueue s = [1] \<and> curThread (contexts s ! 0) = Some 0 \<and> bst b 0 = B_RUNNING"
  by (simp add: sched_eval bar_eval bst_def)

lemmas sched_eval2 = sched_eval give_context_def sched_leave_def markForSleep_def find_th_def deschedule_def sleepQueue_insert_def
  schedContext_def runQueue_remove_def wakeup_def

lemma demo_sleeping:
  "\<exists>b s t s'. sched_exec [SStart 0 1 [True] False, SJoin 0, SStart 1 2 [True] False, SJoin 1, SMark 1 1, SLeave 1 0] (bar0 1 m, sched0 m') = Some (b, s) \<and>
    threads s 0 = Some t \<and> th_state t = T_SLEEPING \<and> wakeupPhase t = 1 \<and> curPhase s = 0 \<and> curThread (contexts s ! 0) = Some 1 \<and>
    sched_callback 0 idle_ops s = Inr s'"
  by (simp add: sched_eval2 bar_eval bst_def sched_callback_def)


theorem sched_placement_witness:
  "\<exists>b s t. sched_run 0 idle_ops 1 (b, s) \<and> threads s 0 = Some t \<and> th_state t = T_RUNNING \<and> curThread (contexts s ! th_cid t) = Some 0"
proof -
  obtain m m' where r: "sched_run 0 idle_ops 1 (bar0 1 m, sched0 m')" using sched0_run by blast
  from demo_queued [of m m'] obtain b s t where e: "sched_exec [SStart 0 1 [True] False, SJoin 0, SStart 1 2 [True] False, SJoin 1] (bar0 1 m, sched0 m') = Some (b, s)"
    "threads s 0 = Some t" "th_state t = T_RUNNING" by auto
  note r' = sched_exec_run [OF e(1) r]
  from sched_placement [OF r'] e(2,3) have "curThread (contexts s ! th_cid t) = Some 0" by simp
  with r' e(2,3) show ?thesis by blast
qed

theorem sched_conserves_work_witness:
  "\<exists>b s t. sched_run 0 idle_ops 1 (b, s) \<and> runQueue s = [1] \<and> threads s 1 = Some t \<and> th_state t = T_QUEUED"
proof -
  obtain m m' where r: "sched_run 0 idle_ops 1 (bar0 1 m, sched0 m')" using sched0_run by blast
  from demo_queued [of m m'] obtain b s where e: "sched_exec [SStart 0 1 [True] False, SJoin 0, SStart 1 2 [True] False, SJoin 1] (bar0 1 m, sched0 m') = Some (b, s)"
    "runQueue s = [1]" by auto
  note r' = sched_exec_run [OF e(1) r]
  from sched_conserves_work [OF r', of 1] e(2) obtain t where "threads s 1 = Some t" "th_state t = T_QUEUED" by auto
  with r' e(2) show ?thesis by blast
qed

theorem sched_wakes_on_time_witness:
  "\<exists>b s s' t'. sched_run 0 idle_ops 1 (b, s) \<and> sched_callback 0 idle_ops s = Inr s' \<and> threads s' 0 = Some t' \<and> th_state t' = T_BLOCKED"
proof -
  obtain m m' where r: "sched_run 0 idle_ops 1 (bar0 1 m, sched0 m')" using sched0_run by blast
  from demo_sleeping [of m m'] obtain b s t s' where e:
    "sched_exec [SStart 0 1 [True] False, SJoin 0, SStart 1 2 [True] False, SJoin 1, SMark 1 1, SLeave 1 0] (bar0 1 m, sched0 m') = Some (b, s)"
    "threads s 0 = Some t" "th_state t = T_SLEEPING" "wakeupPhase t = 1" "curPhase s = 0" "sched_callback 0 idle_ops s = Inr s'" by blast
  note r' = sched_exec_run [OF e(1) r]
  from sched_wakes_on_time [OF r' _ e(6,2,3)] e(4,5) obtain t' where "threads s' 0 = Some t'" "th_state t' = T_BLOCKED" by auto
  with r' e(6) show ?thesis by blast
qed

text \<open>C38. Finishing a thread that has a pending hand-over loses the thread it was promised to: a time slice ends, the thread on the only core is to
  hand it over to the one in the run queue, and is finished before it does, as the clean-up of a killed process does.  The
  promised thread stays queued and waits, but it is in no queue and nobody will hand it a core, while the core is free.\<close>

theorem sched_lost_handoff:
  "\<exists>b s b' s' t. sched_run 0 idle_ops 1 (b, s) \<and> sched_step 0 idle_ops (SFinish 1) (b, s) = Inr (b', s') \<and>
    threads s' 1 = Some t \<and> th_state t = T_QUEUED \<and> th_futexWord t = 1 \<and> th_mask t = [True] \<and> no_owner 1 s' \<and>
    \<not> promised s' 1 \<and> freeList s' = [0]"
proof -
  obtain m m' where r: "sched_run 0 idle_ops 1 (bar0 1 m, sched0 m')" using sched0_run by blast
  have "\<exists>b s b' s' t. sched_exec [SStart 0 1 [True] False, SJoin 0, SStart 1 2 [True] False, SJoin 1, SSync 0] (bar0 1 m, sched0 m') = Some (b, s) \<and>
    sched_step 0 idle_ops (SFinish 1) (b, s) = Inr (b', s') \<and> threads s' 1 = Some t \<and> th_state t = T_QUEUED \<and> th_futexWord t = 1 \<and>
    th_mask t = [True] \<and> no_owner 1 s' \<and> \<not> promised s' 1 \<and> freeList s' = [0]"
    by (simp add: sched_eval2 bar_eval bst_def sched_callback_def sched_sync_def schedTick_def sched_finish_def finish_begin_def
      finish_end_def outQueue_push_def outQueue_remove_def freeList_push_def promised_def)
  then show ?thesis using sched_exec_run r by blast
qed

end
