(* ===== verification/OooParts.thy ===== *)
theory OooParts
  imports Prelude
begin

text \<open>
  The structures of the out-of-order core (ooo_core.h): the branch predictor, the instruction window, which hands out
  execution ports cycle by cycle, the reorder buffer and the cycle queue.  Template parameters are arguments.

  Cycles and counts are natural numbers, the delay of a micro-op and the window's positions wrap at 32 bits as in the code.  The
  unbounded part of the window, an ordered map, is a list of cycles with their entries in increasing order.
\<close>

subsection \<open>The branch predictor\<close>

record BranchPredictor =
  bhsr :: "u32 list"
  pht :: "8 word list"
  useA2 :: bool

definition BranchPredictor_init :: "nat \<Rightarrow> nat \<Rightarrow> BranchPredictor" where
  "BranchPredictor_init NB LB = \<lparr>bhsr = replicate (2 ^ NB) 0, pht = replicate (2 ^ LB) 1, useA2 = True\<rparr>"

definition bp_pht_idx :: "nat \<Rightarrow> nat \<Rightarrow> u32 \<Rightarrow> u32" where
  "bp_pht_idx HB LB h = ((h XOR drop_bit (HB - LB) (h AND NOT (push_bit LB 1 - 1))) AND (push_bit LB 1 - 1))"

definition bp_next :: "bool \<Rightarrow> bool \<Rightarrow> 8 word \<Rightarrow> 8 word" where
  "bp_next a2 taken c = (let pred = 1 < c in
     if a2 then (if taken then (if pred then 3 else c + 1) else (if pred then c - 1 else 0))
     else (if taken then 3 else 0))"

definition bp_predict :: "nat \<Rightarrow> nat \<Rightarrow> nat \<Rightarrow> u64 \<Rightarrow> bool \<Rightarrow> BranchPredictor \<Rightarrow> (bool \<times> BranchPredictor) res" where
  "bp_predict NB HB LB pc taken b =
     (let bi = unat ((ucast (drop_bit 1 pc) :: u32) AND (push_bit NB 1 - 1)) in
      rbind (aget (bhsr b) bi) (\<lambda>h. let pi = unat (bp_pht_idx HB LB h) in
      rbind (aget (pht b) pi) (\<lambda>c.
        Inr (taken = (1 < c), b\<lparr>pht := (pht b)[pi := bp_next (useA2 b) taken c],
          bhsr := (bhsr b)[bi := (push_bit 1 h AND (push_bit HB 1 - 1)) OR (if taken then 1 else 0)]\<rparr>))))"

definition useA3 :: "BranchPredictor \<Rightarrow> BranchPredictor" where
  "useA3 b = b\<lparr>useA2 := False\<rparr>"

subsection \<open>The instruction window\<close>

record WinCycle =
  occUnits :: "8 word"
  wc_count :: nat

definition wc0 :: WinCycle where "wc0 = \<lparr>occUnits = 0, wc_count = 0\<rparr>"

record WindowStructure =
  curWin :: "WinCycle list"
  nextWin :: "WinCycle list"
  ubWin :: "(nat \<times> WinCycle) list"
  occupancy :: nat
  curPos :: nat
  lastPort :: nat

definition WindowStructure_init :: "nat \<Rightarrow> nat \<Rightarrow> WindowStructure" where
  "WindowStructure_init H junk = \<lparr>curWin = replicate H wc0, nextWin = replicate H wc0, ubWin = [], occupancy = 0, curPos = 0, lastPort = junk\<rparr>"

text \<open>The lowest free port of the mask; a shadow request takes its one port unconditionally, and reports whether it was free.\<close>

definition availMask :: "8 word \<Rightarrow> WinCycle \<Rightarrow> 8 word" where
  "availMask pm wc = (NOT (occUnits wc) AND pm)"

definition firstAvail :: "8 word \<Rightarrow> nat" where
  "firstAvail m = (case filter (\<lambda>i. bit m i) [0..<8] of [] \<Rightarrow> 0 | i # _ \<Rightarrow> i)"

definition trySchedule :: "bool \<Rightarrow> 8 word \<Rightarrow> WinCycle \<Rightarrow> WinCycle" where
  "trySchedule touch pm wc =
     (if touch
      then (if availMask pm wc \<noteq> 0
            then wc\<lparr>occUnits := occUnits wc OR push_bit (firstAvail (availMask pm wc)) 1, wc_count := wc_count wc + 1\<rparr> else wc)
      else wc\<lparr>occUnits := occUnits wc OR pm\<rparr>)"

text \<open>The scan of one window from a position: the position found, if any, and the entries tried.\<close>

function win_scan :: "bool \<Rightarrow> 8 word \<Rightarrow> nat \<Rightarrow> WinCycle list \<Rightarrow> nat option \<times> WinCycle list" where
  "win_scan touch pm i ws =
     (if i < length ws
      then (let ws1 = ws[i := trySchedule touch pm (ws ! i)] in
            if availMask pm (ws ! i) \<noteq> 0 then (Some i, ws1) else win_scan touch pm (i + 1) ws1)
      else (None, ws))"
  by pat_completeness auto
termination by (relation "measure (\<lambda>(_, _, i, ws). length ws - i)") (auto simp: Let_def)

declare win_scan.simps [simp del]

text \<open>The unbounded part: from the first entry at or after the cycle on, until one has a free port or a cycle has no entry.\<close>

fun ub_scan :: "bool \<Rightarrow> 8 word \<Rightarrow> nat \<Rightarrow> (nat \<times> WinCycle) list \<Rightarrow> (nat \<times> 8 word \<times> (nat \<times> WinCycle) list) res" where
  "ub_scan touch pm c [] = check (pm \<noteq> 0) AssertFailed (Inr (c, pm, [(c, trySchedule touch pm wc0)]))"
| "ub_scan touch pm c ((k, w) # ub) =
     (if k < c then rbind (ub_scan touch pm c ub) (\<lambda>(r, a, ub'). Inr (r, a, (k, w) # ub'))
      else if k \<noteq> c then check (pm \<noteq> 0) AssertFailed (Inr (c, pm, (c, trySchedule touch pm wc0) # (k, w) # ub))
      else if availMask pm w \<noteq> 0 then Inr (c, availMask pm w, (k, trySchedule touch pm w) # ub)
      else rbind (ub_scan touch pm (c + 1) ub) (\<lambda>(r, a, ub'). Inr (r, a, (k, trySchedule touch pm w) # ub')))"

text \<open>The next cycle; when the window is through, the next one takes its place and is filled from the unbounded part.\<close>

fun ub_move :: "nat \<Rightarrow> nat \<Rightarrow> (nat \<times> WinCycle) list \<Rightarrow> WinCycle list \<Rightarrow> ((nat \<times> WinCycle) list \<times> WinCycle list) res" where
  "ub_move H cyc [] ws = Inr ([], ws)"
| "ub_move H cyc ((k, w) # ub) ws =
     (if k < cyc + 2 * H
      then (let p = nat ((int k - int H - int cyc) mod 2 ^ 32) in check (p < H) AssertFailed (ub_move H cyc ub (ws[p := w])))
      else Inr ((k, w) # ub, ws))"

definition advancePos :: "nat \<Rightarrow> nat \<times> WindowStructure \<Rightarrow> (nat \<times> WindowStructure) res" where
  "advancePos H = (\<lambda>(cyc, s).
     rbind (aget (curWin s) (curPos s)) (\<lambda>w.
     let s1 = s\<lparr>occupancy := occupancy s - wc_count w, curWin := (curWin s)[curPos s := wc0], curPos := curPos s + 1\<rparr>; cyc1 = cyc + 1 in
     if curPos s1 = H
     then rbind (ub_move H cyc1 (ubWin s1) (curWin s1)) (\<lambda>(ub, nw).
            Inr (cyc1, s1\<lparr>curWin := nextWin s1, nextWin := nw, curPos := 0, ubWin := ub\<rparr>))
     else Inr (cyc1, s1)))"

fun make_room :: "nat \<Rightarrow> nat \<Rightarrow> nat \<Rightarrow> nat \<times> WindowStructure \<Rightarrow> (nat \<times> WindowStructure) res" where
  "make_room 0 H WSZ (cyc, s) = (if occupancy s = WSZ then Inl OutOfFuel else Inr (cyc, s))"
| "make_room (Suc n) H WSZ (cyc, s) =
     (if occupancy s = WSZ then rbind (advancePos H (cyc, s)) (make_room n H WSZ) else Inr (cyc, s))"

definition u32_nat :: "nat \<Rightarrow> nat" where "u32_nat n = n mod 2 ^ 32"

definition place_op :: "nat \<Rightarrow> bool \<Rightarrow> 8 word \<Rightarrow> nat \<Rightarrow> nat \<Rightarrow> WindowStructure \<Rightarrow> (nat \<times> 8 word \<times> WindowStructure) res" where
  "place_op H touch pm cyc sched s =
     (let pos = u32_nat (curPos s + u32_nat (sched - cyc)); (r, cw) = win_scan touch pm pos (curWin s); s1 = s\<lparr>curWin := cw\<rparr> in
      case r of
        Some i \<Rightarrow> Inr (cyc + u32_nat (i + 2 ^ 32 - curPos s), availMask pm (curWin s ! i), s1)
      | None \<Rightarrow>
         (let npos = max pos (length (curWin s)) - H; (q, nw) = win_scan touch pm npos (nextWin s); s2 = s1\<lparr>nextWin := nw\<rparr> in
          case q of
            Some j \<Rightarrow> Inr (cyc + u32_nat (j + H + 2 ^ 32 - curPos s), availMask pm (nextWin s ! j), s2)
          | None \<Rightarrow> rbind (ub_scan touch pm (cyc + u32_nat (max npos (length (nextWin s)) + H + 2 ^ 32 - curPos s)) (ubWin s2)) (\<lambda>(c, a, ub).
              Inr (c, a, s2\<lparr>ubWin := ub\<rparr>))))"

definition scheduleInternal ::
  "nat \<Rightarrow> nat \<Rightarrow> nat \<Rightarrow> bool \<Rightarrow> bool \<Rightarrow> 8 word \<Rightarrow> nat \<times> nat \<times> WindowStructure \<Rightarrow> (nat \<times> nat \<times> WindowStructure) res" where
  "scheduleInternal fuel H WSZ touch rec pm = (\<lambda>(cyc, sched, s).
     rbind (if touch then make_room fuel H WSZ (cyc, s) else Inr (cyc, s)) (\<lambda>(cyc1, s1).
     rbind (place_op H touch pm cyc1 sched s1) (\<lambda>(c, avail, s2).
       let s3 = (if rec then s2\<lparr>lastPort := firstAvail avail\<rparr> else s2) in
       Inr (cyc1, c, if touch then s3\<lparr>occupancy := occupancy s3 + 1\<rparr> else s3))))"

fun extra_slots :: "nat \<Rightarrow> nat \<Rightarrow> nat \<Rightarrow> 8 word \<Rightarrow> nat \<times> nat \<times> WindowStructure \<Rightarrow> (nat \<times> WindowStructure) res" where
  "extra_slots 0 H WSZ pm (cyc, c, s) = Inr (cyc, s)"
| "extra_slots (Suc n) H WSZ pm (cyc, c, s) =
     rbind (scheduleInternal 0 H WSZ False False pm (cyc, c, s)) (\<lambda>(cyc1, c1, s1). extra_slots n H WSZ pm (cyc1, c1 + 1, s1))"

definition win_schedule ::
  "nat \<Rightarrow> nat \<Rightarrow> nat \<Rightarrow> 8 word \<Rightarrow> nat \<Rightarrow> nat \<times> nat \<times> WindowStructure \<Rightarrow> (nat \<times> nat \<times> WindowStructure) res" where
  "win_schedule fuel H WSZ pm extra = (\<lambda>(cyc, sched, s).
     rbind (scheduleInternal fuel H WSZ True (extra \<noteq> 0) pm (cyc, sched, s)) (\<lambda>(cyc1, c, s1).
     rbind (extra_slots extra H WSZ (push_bit (lastPort s1) 1) (cyc1, c + 1, s1)) (\<lambda>(cyc2, s2).
       check (occupancy s2 \<le> WSZ) AssertFailed (Inr (cyc2, c, s2)))))"

function win_drain :: "nat \<Rightarrow> nat \<Rightarrow> nat \<times> WindowStructure \<Rightarrow> (nat \<times> WindowStructure) res" where
  "win_drain H target (cyc, s) =
     (if occupancy s \<noteq> 0 \<and> cyc < target then rbind (advancePos H (cyc, s)) (win_drain H target) else Inr (cyc, s))"
  by pat_completeness auto
termination
  by (relation "measure (\<lambda>(_, target, cyc, _). target - cyc)") (auto simp: advancePos_def res_simps Let_def split: if_splits prod.splits)

declare win_drain.simps [simp del]

definition longAdvance :: "nat \<Rightarrow> nat \<Rightarrow> nat \<times> WindowStructure \<Rightarrow> (nat \<times> WindowStructure) res" where
  "longAdvance H target = (\<lambda>(cyc, s). check (cyc \<le> target) AssertFailed
     (rbind (win_drain H target (cyc, s)) (\<lambda>(cyc1, s1).
       if occupancy s1 \<noteq> 0 then check (cyc1 = target) AssertFailed (Inr (cyc1, s1))
       else check (cyc1 \<le> target) AssertFailed (Inr (target, s1)))))"

fun poison_loop :: "nat \<Rightarrow> nat \<Rightarrow> nat \<Rightarrow> nat \<Rightarrow> 8 word \<Rightarrow> nat \<times> nat \<times> WindowStructure \<Rightarrow> (nat \<times> WindowStructure) res" where
  "poison_loop 0 H WSZ target pm (cyc, c, s) = (if c < target then Inl OutOfFuel else Inr (cyc, s))"
| "poison_loop (Suc n) H WSZ target pm (cyc, c, s) =
     (if c < target then rbind (scheduleInternal 0 H WSZ False False pm (cyc, c, s)) (poison_loop n H WSZ target pm) else Inr (cyc, s))"

definition poisonRange :: "nat \<Rightarrow> nat \<Rightarrow> nat \<Rightarrow> nat \<Rightarrow> 8 word \<Rightarrow> nat \<times> WindowStructure \<Rightarrow> WindowStructure res" where
  "poisonRange fuel H WSZ target pm = (\<lambda>(cyc, s).
     rbind (poison_loop fuel H WSZ target pm (cyc, cyc, s)) (\<lambda>(cyc1, s1). check (cyc1 = cyc) AssertFailed (Inr s1)))"

subsection \<open>The reorder buffer and the cycle queue\<close>

record ReorderBuffer =
  rob_buf :: "nat list"
  curRetireCycle :: nat
  curCycleRetires :: nat
  rob_idx :: nat

definition ReorderBuffer_init :: "nat \<Rightarrow> ReorderBuffer" where
  "ReorderBuffer_init SZ = \<lparr>rob_buf = replicate SZ 0, curRetireCycle = 0, curCycleRetires = 1, rob_idx = 0\<rparr>"

definition rob_minAllocCycle :: "ReorderBuffer \<Rightarrow> nat res" where
  "rob_minAllocCycle r = aget (rob_buf r) (rob_idx r)"

definition markRetire :: "nat \<Rightarrow> nat \<Rightarrow> nat \<Rightarrow> ReorderBuffer \<Rightarrow> ReorderBuffer res" where
  "markRetire SZ W minRetire r =
     (let r1 = (if minRetire \<le> curRetireCycle r
                then if curCycleRetires r = W then r\<lparr>curRetireCycle := curRetireCycle r + 1, curCycleRetires := 0\<rparr>
                     else r\<lparr>curCycleRetires := curCycleRetires r + 1\<rparr>
                else r\<lparr>curRetireCycle := minRetire, curCycleRetires := 1\<rparr>) in
      rbind (aput (rob_buf r1) (rob_idx r1) (curRetireCycle r1)) (\<lambda>bf.
        Inr (r1\<lparr>rob_buf := bf, rob_idx := (if rob_idx r1 + 1 = SZ then 0 else rob_idx r1 + 1)\<rparr>)))"

record CycleQueue =
  cq_buf :: "nat list"
  cq_idx :: nat

definition CycleQueue_init :: "nat \<Rightarrow> CycleQueue" where
  "CycleQueue_init SZ = \<lparr>cq_buf = replicate SZ 0, cq_idx = 0\<rparr>"

definition cq_minAllocCycle :: "CycleQueue \<Rightarrow> nat res" where
  "cq_minAllocCycle q = aget (cq_buf q) (cq_idx q)"

definition markLeave :: "nat \<Rightarrow> nat \<Rightarrow> CycleQueue \<Rightarrow> CycleQueue res" where
  "markLeave SZ c q = rbind (aput (cq_buf q) (cq_idx q) c) (\<lambda>bf.
     Inr (q\<lparr>cq_buf := bf, cq_idx := (if cq_idx q + 1 = SZ then 0 else cq_idx q + 1)\<rparr>))"

subsection \<open>The window as a table of cycles\<close>

text \<open>What is reserved of a cycle: it is in one of the two windows, or in the unbounded part, or nothing is.\<close>

definition ub_at :: "(nat \<times> WinCycle) list \<Rightarrow> nat \<Rightarrow> WinCycle" where
  "ub_at ub c = (case map_of ub c of None \<Rightarrow> wc0 | Some w \<Rightarrow> w)"

definition win_table :: "nat \<Rightarrow> nat \<Rightarrow> WindowStructure \<Rightarrow> nat \<Rightarrow> WinCycle" where
  "win_table H cyc s c = (let b = cyc - curPos s in
     if c < b then wc0 else if c < b + H then curWin s ! (c - b) else if c < b + 2 * H then nextWin s ! (c - b - H) else ub_at (ubWin s) c)"

definition sorted_keys :: "(nat \<times> WinCycle) list \<Rightarrow> bool" where
  "sorted_keys ub \<longleftrightarrow> sorted_wrt (<) (map fst ub)"

definition win_shape :: "nat \<Rightarrow> nat \<Rightarrow> WindowStructure \<Rightarrow> bool" where
  "win_shape H cyc s \<longleftrightarrow> length (curWin s) = H \<and> length (nextWin s) = H \<and> curPos s < H \<and> curPos s \<le> cyc \<and> 2 * H < 2 ^ 32 \<and>
     (\<forall>i < curPos s. curWin s ! i = wc0) \<and> sorted_keys (ubWin s) \<and> (\<forall>k \<in> fst ` set (ubWin s). cyc - curPos s + 2 * H \<le> k)"

text \<open>The occupancy is the number of micro-ops in the table.\<close>

definition counts_to :: "(nat \<Rightarrow> WinCycle) \<Rightarrow> nat \<Rightarrow> nat \<Rightarrow> bool" where
  "counts_to T K n \<longleftrightarrow> (\<forall>c \<ge> K. T c = wc0) \<and> n = (\<Sum>c < K. wc_count (T c))"

definition win_inv :: "nat \<Rightarrow> nat \<Rightarrow> nat \<Rightarrow> nat \<times> WindowStructure \<Rightarrow> bool" where
  "win_inv H WSZ K = (\<lambda>(cyc, s). win_shape H cyc s \<and> counts_to (win_table H cyc s) K (occupancy s) \<and> occupancy s \<le> WSZ)"

lemma counts_mono: "counts_to T K n \<Longrightarrow> K \<le> K' \<Longrightarrow> counts_to T K' n"
proof -
  assume a: "counts_to T K n" "K \<le> K'"
  have "(\<Sum>c < K'. wc_count (T c)) = (\<Sum>c < K. wc_count (T c))"
    by (rule sum.mono_neutral_right) (use a in \<open>auto simp: counts_to_def wc0_def\<close>)
  then show ?thesis using a by (simp add: counts_to_def)
qed

lemma counts_clear: "counts_to T K n \<Longrightarrow> counts_to (T(c := wc0)) K (n - wc_count (T c)) \<and> wc_count (T c) \<le> n"
proof -
  assume a: "counts_to T K n"
  show ?thesis
  proof (cases "c < K")
    case True
    have s: "(\<Sum>d < K. f d) = f c + (\<Sum>d \<in> {..<K} - {c}. f d)" for f :: "nat \<Rightarrow> nat"
      using True by (simp add: sum.remove)
    have "(\<Sum>d \<in> {..<K} - {c}. wc_count ((T(c := wc0)) d)) = (\<Sum>d \<in> {..<K} - {c}. wc_count (T d))" by (rule sum.cong) auto
    then show ?thesis using a s [of "\<lambda>d. wc_count (T d)"] s [of "\<lambda>d. wc_count ((T(c := wc0)) d)"]
      by (auto simp: counts_to_def wc0_def)
  next
    case False
    then have "wc_count (T c) = 0" "(\<Sum>d < K. wc_count ((T(c := wc0)) d)) = (\<Sum>d < K. wc_count (T d))"
      using a by (auto simp: counts_to_def wc0_def intro!: sum.cong)
    then show ?thesis using a by (auto simp: counts_to_def wc0_def)
  qed
qed

lemma counts_add:
  assumes a: "counts_to T K n" and w: "wc_count w = wc_count (T c) + k"
  shows "counts_to (T(c := w)) (max K (Suc c)) (n + k)"
proof -
  have b: "counts_to T (max K (Suc c)) n" using a by (rule counts_mono) simp
  let ?K = "max K (Suc c)"
  have s: "(\<Sum>d < ?K. f d) = f c + (\<Sum>d \<in> {..<?K} - {c}. f d)" for f :: "nat \<Rightarrow> nat"
    by (simp add: sum.remove)
  have "(\<Sum>d \<in> {..<?K} - {c}. wc_count ((T(c := w)) d)) = (\<Sum>d \<in> {..<?K} - {c}. wc_count (T d))" by (rule sum.cong) auto
  then show ?thesis using b w s [of "\<lambda>d. wc_count (T d)"] s [of "\<lambda>d. wc_count ((T(c := w)) d)"]
    by (auto simp: counts_to_def)
qed

subsection \<open>Scans\<close>

lemma trySchedule_full: "availMask pm w = 0 \<Longrightarrow> trySchedule touch pm w = w"
proof -
  assume "availMask pm w = 0"
  then have "occUnits w OR pm = occUnits w"
    by (simp add: availMask_def bit_eq_iff bit_and_iff bit_or_iff bit_not_iff) blast
  then show ?thesis using \<open>availMask pm w = 0\<close> by (simp add: trySchedule_def)
qed

lemma win_scan_spec:
  "(case win_scan touch pm i ws of
      (Some j, ws') \<Rightarrow> i \<le> j \<and> j < length ws \<and> availMask pm (ws ! j) \<noteq> 0 \<and> (\<forall>k. i \<le> k \<and> k < j \<longrightarrow> availMask pm (ws ! k) = 0) \<and>
        ws' = ws[j := trySchedule touch pm (ws ! j)]
    | (None, ws') \<Rightarrow> (\<forall>k. i \<le> k \<and> k < length ws \<longrightarrow> availMask pm (ws ! k) = 0) \<and> ws' = ws)"
proof (induction touch pm i ws rule: win_scan.induct)
  case (1 touch pm i ws)
  show ?case
  proof (cases "i < length ws \<and> availMask pm (ws ! i) = 0")
    case True
    then have e: "win_scan touch pm i ws = win_scan touch pm (i + 1) ws"
      by (subst win_scan.simps) (simp add: Let_def trySchedule_full)
    have "(case win_scan touch pm (i + 1) ws of
      (Some j, ws') \<Rightarrow> i + 1 \<le> j \<and> j < length ws \<and> availMask pm (ws ! j) \<noteq> 0 \<and> (\<forall>k. i + 1 \<le> k \<and> k < j \<longrightarrow> availMask pm (ws ! k) = 0) \<and>
        ws' = ws[j := trySchedule touch pm (ws ! j)]
    | (None, ws') \<Rightarrow> (\<forall>k. i + 1 \<le> k \<and> k < length ws \<longrightarrow> availMask pm (ws ! k) = 0) \<and> ws' = ws)"
      using 1 True trySchedule_full [of pm "ws ! i" touch] by simp
    moreover have "k = i \<or> i + 1 \<le> k" if "i \<le> k" for k using that by linarith
    ultimately show ?thesis unfolding e using True by (fastforce split: prod.splits option.splits)
  qed (subst win_scan.simps, auto simp: Let_def)
qed

lemma ub_at_simps [simp]: "ub_at [] c = wc0" "ub_at ((k, w) # ub) c = (if c = k then w else ub_at ub c)"
  by (simp_all add: ub_at_def)

lemma ub_at_none: "c \<notin> fst ` set ub \<Longrightarrow> ub_at ub c = wc0"
  by (induction ub) auto

lemma sorted_keys_Cons [simp]: "sorted_keys ((k, w) # ub) \<longleftrightarrow> (\<forall>j \<in> fst ` set ub. k < j) \<and> sorted_keys ub" "sorted_keys []"
  by (auto simp: sorted_keys_def)

lemma availMask_wc0 [simp]: "availMask pm wc0 = pm"
  by (simp add: availMask_def wc0_def)

lemma ub_scan_spec:
  assumes "sorted_keys ub" "pm \<noteq> 0"
  shows "\<exists>r ub'. ub_scan touch pm c ub = Inr (r, availMask pm (ub_at ub r), ub') \<and> c \<le> r \<and> availMask pm (ub_at ub r) \<noteq> 0 \<and>
    (\<forall>k. c \<le> k \<and> k < r \<longrightarrow> availMask pm (ub_at ub k) = 0) \<and> sorted_keys ub' \<and> fst ` set ub' = insert r (fst ` set ub) \<and>
    (\<forall>d. ub_at ub' d = (if d = r then trySchedule touch pm (ub_at ub r) else ub_at ub d))"
  using assms
proof (induction ub arbitrary: c)
  case (Cons e ub)
  obtain k w where e: "e = (k, w)" by (cases e)
  have later: "ub_at ub d = wc0" if "d \<le> k" for d
    using Cons.prems(1) that by (intro ub_at_none) (auto simp: e)
  consider "k < c" | "c < k" | "k = c" "availMask pm w \<noteq> 0" | "k = c" "availMask pm w = 0" by linarith
  then show ?case
  proof cases
    case 1
    from Cons.IH [of c] Cons.prems obtain r ub' where r: "ub_scan touch pm c ub = Inr (r, availMask pm (ub_at ub r), ub')" "c \<le> r"
      "availMask pm (ub_at ub r) \<noteq> 0" "\<forall>k. c \<le> k \<and> k < r \<longrightarrow> availMask pm (ub_at ub k) = 0" "sorted_keys ub'"
      "fst ` set ub' = insert r (fst ` set ub)" "\<forall>d. ub_at ub' d = (if d = r then trySchedule touch pm (ub_at ub r) else ub_at ub d)"
      by (auto simp: e)
    have "\<forall>j \<in> fst ` set ub'. k < j" using r(2,6) 1 Cons.prems(1) by (auto simp: e)
    moreover have "\<forall>j. c \<le> j \<and> j < r \<longrightarrow> availMask pm (ub_at ((k, w) # ub) j) = 0" using r(4) 1 by auto
    moreover have "r \<noteq> k" using r(2) 1 by simp
    ultimately show ?thesis using r 1 by (intro exI [of _ r] exI [of _ "(k, w) # ub'"]) (auto simp: e)
  next
    case 2
    then show ?thesis using Cons.prems later by (intro exI [of _ c] exI [of _ "(c, trySchedule touch pm wc0) # (k, w) # ub"]) (auto simp: e)
  next
    case 3
    then show ?thesis using Cons.prems by (intro exI [of _ c] exI [of _ "(k, trySchedule touch pm w) # ub"]) (auto simp: e)
  next
    case 4
    from Cons.IH [of "c + 1"] Cons.prems obtain r ub' where r: "ub_scan touch pm (c + 1) ub = Inr (r, availMask pm (ub_at ub r), ub')" "c + 1 \<le> r"
      "availMask pm (ub_at ub r) \<noteq> 0" "\<forall>k. c + 1 \<le> k \<and> k < r \<longrightarrow> availMask pm (ub_at ub k) = 0" "sorted_keys ub'"
      "fst ` set ub' = insert r (fst ` set ub)" "\<forall>d. ub_at ub' d = (if d = r then trySchedule touch pm (ub_at ub r) else ub_at ub d)"
      by (auto simp: e)
    have "\<forall>j \<in> fst ` set ub'. k < j" using r(2,6) 4 Cons.prems(1) by (auto simp: e)
    moreover have "\<forall>j. c \<le> j \<and> j < r \<longrightarrow> availMask pm (ub_at ((k, w) # ub) j) = 0"
    proof (intro allI impI)
      fix j assume "c \<le> j \<and> j < r"
      then show "availMask pm (ub_at ((k, w) # ub) j) = 0" using r(4) 4 by (cases "j = c") auto
    qed
    moreover have "r \<noteq> k" using r(2) 4 by simp
    ultimately show ?thesis using r 4 by (intro exI [of _ r] exI [of _ "(k, w) # ub'"]) (auto simp: e trySchedule_full)
  qed
qed simp

lemma ub_move_spec:
  assumes "sorted_keys ub" "\<forall>k \<in> fst ` set ub. cyc + H \<le> k" "length ws = H" and H32: "2 * H < 2 ^ 32"
  shows "\<exists>ub' ws'. ub_move H cyc ub ws = Inr (ub', ws') \<and> sorted_keys ub' \<and> length ws' = H \<and> (\<forall>k \<in> fst ` set ub'. cyc + 2 * H \<le> k) \<and>
    (\<forall>c \<ge> cyc + 2 * H. ub_at ub' c = ub_at ub c) \<and>
    (\<forall>j < H. ws' ! j = (if cyc + H + j \<in> fst ` set ub then ub_at ub (cyc + H + j) else ws ! j))"
  using assms(1-3)
proof (induction ub arbitrary: ws)
  case (Cons e ub)
  obtain k w where e: "e = (k, w)" by (cases e)
  show ?case
  proof (cases "k < cyc + 2 * H")
    case True
    have k: "cyc + H \<le> k" "k - H - cyc < H" using Cons.prems(2) True by (auto simp: e)
    have "int k - int H - int cyc = int (k - H - cyc)" using k(1) by (simp add: of_nat_diff)
    moreover have "int (k - H - cyc) mod 2 ^ 32 = int (k - H - cyc)" using k(2) H32 by (intro mod_pos_pos_trivial) auto
    ultimately have step: "ub_move H cyc (e # ub) ws = ub_move H cyc ub (ws[k - H - cyc := w])"
      using k(2) True by (simp only: e ub_move.simps Let_def nat_int) simp
    from Cons.IH [of "ws[k - H - cyc := w]"] Cons.prems obtain ub' ws' where r: "ub_move H cyc ub (ws[k - H - cyc := w]) = Inr (ub', ws')"
      "sorted_keys ub'" "length ws' = H" "\<forall>k \<in> fst ` set ub'. cyc + 2 * H \<le> k" "\<forall>c \<ge> cyc + 2 * H. ub_at ub' c = ub_at ub c"
      "\<forall>j < H. ws' ! j = (if cyc + H + j \<in> fst ` set ub then ub_at ub (cyc + H + j) else ws[k - H - cyc := w] ! j)" by (auto simp: e)
    have "ws' ! j = (if cyc + H + j \<in> fst ` set (e # ub) then ub_at (e # ub) (cyc + H + j) else ws ! j)" if j: "j < H" for j
    proof (cases "cyc + H + j = k")
      case True
      then have "k \<notin> fst ` set ub" using Cons.prems(1) by (auto simp: e)
      moreover have "k - H - cyc = j" using True by simp
      ultimately show ?thesis using True r(6) j Cons.prems(3) by (simp add: e)
    next
      case False
      then have "k - H - cyc \<noteq> j" using k by linarith
      then show ?thesis using False r(6) j by (simp add: e)
    qed
    then show ?thesis unfolding step using r True by (intro exI [of _ ub'] exI [of _ ws']) (auto simp: e)
  next
    case False
    have "cyc + H + j \<notin> fst ` set (e # ub)" if "j < H" for j
      using Cons.prems(1) False that by (auto simp: e)
    then show ?thesis using Cons.prems False by (auto simp: e intro: less_imp_le less_le_trans)
  qed
qed simp

subsection \<open>The operations on the table\<close>

lemma advancePos_shape:
  assumes s: "win_shape H cyc s"
  shows "\<exists>s'. advancePos H (cyc, s) = Inr (cyc + 1, s') \<and> win_shape H (cyc + 1) s' \<and> win_table H (cyc + 1) s' = (win_table H cyc s)(cyc := wc0) \<and>
    occupancy s' = occupancy s - wc_count (win_table H cyc s cyc)"
proof -
  let ?p = "curPos s" let ?b = "cyc - curPos s"
  have sh: "length (curWin s) = H" "length (nextWin s) = H" "?p < H" "?p \<le> cyc" "\<forall>i < ?p. curWin s ! i = wc0" "2 * H < 2 ^ 32"
    "sorted_keys (ubWin s)" "\<forall>k \<in> fst ` set (ubWin s). ?b + 2 * H \<le> k" using s unfolding win_shape_def by blast+
  have cur: "win_table H cyc s cyc = curWin s ! ?p" using sh by (simp add: win_table_def Let_def)
  let ?cw = "(curWin s)[?p := wc0]"
  let ?s1 = "s\<lparr>occupancy := occupancy s - wc_count (curWin s ! ?p), curWin := ?cw, curPos := ?p + 1\<rparr>"
  show ?thesis
  proof (cases "?p + 1 = H")
    case False
    have "win_table H (cyc + 1) ?s1 c = ((win_table H cyc s)(cyc := wc0)) c" for c
    proof -
      have b: "cyc + 1 - curPos ?s1 = ?b" using sh by simp
      consider "c < ?b" | "?b \<le> c" "c < ?b + H" "c \<noteq> cyc" | "c = cyc" | "?b + H \<le> c" by linarith
      then show ?thesis
        unfolding win_table_def b Let_def
      proof cases
        case 2
        then have "c - ?b \<noteq> ?p" using sh by linarith
        then show "(if c < ?b then wc0 else if c < ?b + H then curWin ?s1 ! (c - ?b) else if c < ?b + 2 * H then nextWin ?s1 ! (c - ?b - H)
          else ub_at (ubWin ?s1) c) = ((\<lambda>c. if c < ?b then wc0 else if c < ?b + H then curWin s ! (c - ?b)
          else if c < ?b + 2 * H then nextWin s ! (c - ?b - H) else ub_at (ubWin s) c)(cyc := wc0)) c" using 2 by simp
      qed (use sh in auto)
    qed
    then have "win_table H (cyc + 1) ?s1 = (win_table H cyc s)(cyc := wc0)" by (rule ext)
    moreover have "win_shape H (cyc + 1) ?s1" using sh False by (auto simp: win_shape_def nth_list_update less_Suc_eq)
    moreover have "advancePos H (cyc, s) = Inr (cyc + 1, ?s1)" using sh False by (simp add: advancePos_def Let_def)
    ultimately show ?thesis using cur by simp
  next
    case True
    have b0: "?b + H = cyc + 1" using True sh by linarith
    have zero: "?cw ! i = wc0" if "i < H" for i using sh(1,5) True that by (cases "i = ?p") auto
    have kk: "\<forall>k \<in> fst ` set (ubWin s). cyc + 1 + H \<le> k"
    proof
      fix k assume "k \<in> fst ` set (ubWin s)"
      then have "?b + 2 * H \<le> k" using sh(8) by blast
      then show "cyc + 1 + H \<le> k" using b0 by linarith
    qed
    have ln: "length ?cw = H" using sh(1) by simp
    from ub_move_spec [OF sh(7) kk ln sh(6)] obtain ub ws where u: "ub_move H (cyc + 1) (ubWin s) ?cw = Inr (ub, ws)"
      "sorted_keys ub" "length ws = H" "\<forall>k \<in> fst ` set ub. cyc + 1 + 2 * H \<le> k" "\<forall>c \<ge> cyc + 1 + 2 * H. ub_at ub c = ub_at (ubWin s) c"
      "\<forall>j < H. ws ! j = (if cyc + 1 + H + j \<in> fst ` set (ubWin s) then ub_at (ubWin s) (cyc + 1 + H + j) else ?cw ! j)" by blast
    let ?s2 = "?s1\<lparr>curWin := nextWin s, nextWin := ws, curPos := 0, ubWin := ub\<rparr>"
    have ws: "ws ! j = ub_at (ubWin s) (cyc + 1 + H + j)" if "j < H" for j
      using u(6) that zero ub_at_none [of "cyc + 1 + H + j" "ubWin s"] by auto
    have "win_table H (cyc + 1) ?s2 c = ((win_table H cyc s)(cyc := wc0)) c" for c
    proof -
      consider "c < ?b" | "?b \<le> c" "c < cyc + 1" | "cyc + 1 \<le> c" "c < cyc + 1 + H" | "cyc + 1 + H \<le> c" "c < cyc + 1 + 2 * H" | "cyc + 1 + 2 * H \<le> c"
        by linarith
      then show ?thesis
      proof cases
        case 2
        then have "curWin s ! (c - ?b) = wc0 \<or> c = cyc" using sh(5) b0 True by (cases "c = cyc") auto
        then show ?thesis using 2 b0 by (auto simp: win_table_def Let_def)
      next
        case 3
        then have "c - ?b - H = c - (cyc + 1)" "\<not> c < ?b + H" "c < ?b + 2 * H" using b0 by linarith+
        then show ?thesis using 3 by (simp add: win_table_def Let_def)
      next
        case 4
        then have "\<not> c < ?b + H" "\<not> c < ?b + 2 * H" "c - (cyc + 1) - H < H" "cyc + 1 + H + (c - (cyc + 1) - H) = c" using b0 by linarith+
        then show ?thesis using 4 ws [of "c - (cyc + 1) - H"] by (simp add: win_table_def Let_def)
      next
        case 5
        then have "\<not> c < ?b + H" "\<not> c < ?b + 2 * H" using b0 by linarith+
        then show ?thesis using 5 u(5) by (simp add: win_table_def Let_def)
      qed (use b0 in \<open>auto simp: win_table_def Let_def\<close>)
    qed
    then have "win_table H (cyc + 1) ?s2 = (win_table H cyc s)(cyc := wc0)" by (rule ext)
    moreover have "win_shape H (cyc + 1) ?s2" using sh u by (simp add: win_shape_def)
    moreover have "advancePos H (cyc, s) = Inr (cyc + 1, ?s2)" using sh True u(1) by (simp add: advancePos_def Let_def)
    ultimately show ?thesis using cur by simp
  qed
qed

lemma advancePos_inv:
  assumes "win_inv H WSZ K (cyc, s)"
  shows "\<exists>s'. advancePos H (cyc, s) = Inr (cyc + 1, s') \<and> win_inv H WSZ K (cyc + 1, s') \<and> win_table H (cyc + 1) s' = (win_table H cyc s)(cyc := wc0)"
proof -
  from assms have a: "win_shape H cyc s" "counts_to (win_table H cyc s) K (occupancy s)" "occupancy s \<le> WSZ" by (auto simp: win_inv_def)
  from advancePos_shape [OF a(1)] obtain s' where s': "advancePos H (cyc, s) = Inr (cyc + 1, s')" "win_shape H (cyc + 1) s'"
    "win_table H (cyc + 1) s' = (win_table H cyc s)(cyc := wc0)" "occupancy s' = occupancy s - wc_count (win_table H cyc s cyc)" by blast
  then have "win_inv H WSZ K (cyc + 1, s')" using counts_clear [OF a(2), of cyc] a(3) by (simp add: win_inv_def)
  with s' show ?thesis by blast
qed

lemma u32_nat_diff: "p \<le> i \<Longrightarrow> i - p < 2 ^ 32 \<Longrightarrow> u32_nat (i + 2 ^ 32 - p) = i - p"
proof -
  assume a: "p \<le> i" "i - p < 2 ^ 32"
  then have "i + 2 ^ 32 - p = (i - p) + 2 ^ 32" by simp
  then have "u32_nat (i + 2 ^ 32 - p) = (i - p) mod 2 ^ 32" unfolding u32_nat_def by (simp only: mod_add_self2)
  then show ?thesis using a(2) by simp
qed

lemma place_op_spec:
  assumes s: "win_shape H cyc s" and pm: "pm \<noteq> 0" and near: "sched - cyc + H < 2 ^ 32"
  shows "\<exists>r s'. place_op H touch pm cyc sched s = Inr (r, availMask pm (win_table H cyc s r), s') \<and> max sched cyc \<le> r \<and>
    availMask pm (win_table H cyc s r) \<noteq> 0 \<and> (\<forall>c. max sched cyc \<le> c \<and> c < r \<longrightarrow> availMask pm (win_table H cyc s c) = 0) \<and>
    win_shape H cyc s' \<and> win_table H cyc s' = (win_table H cyc s)(r := trySchedule touch pm (win_table H cyc s r)) \<and>
    occupancy s' = occupancy s"
proof -
  let ?p = "curPos s" let ?b = "cyc - curPos s" let ?T = "win_table H cyc s" let ?st = "max sched cyc"
  have sh: "length (curWin s) = H" "length (nextWin s) = H" "?p < H" "?p \<le> cyc" "2 * H < 2 ^ 32" "\<forall>i < ?p. curWin s ! i = wc0"
    "sorted_keys (ubWin s)" "\<forall>k \<in> fst ` set (ubWin s). ?b + 2 * H \<le> k" using s unfolding win_shape_def by blast+
  define pos where "pos = ?p + (sched - cyc)"
  have pos32: "u32_nat (?p + u32_nat (sched - cyc)) = pos" using near sh(3) by (simp add: u32_nat_def pos_def)
  have st: "?st = ?b + pos" using sh(4) by (simp add: pos_def max_def)
  have cur: "?T c = curWin s ! (c - ?b)" if "?b \<le> c" "c < ?b + H" for c using that by (simp add: win_table_def Let_def)
  have nxt: "?T c = nextWin s ! (c - ?b - H)" if "?b + H \<le> c" "c < ?b + 2 * H" for c using that by (simp add: win_table_def Let_def)
  have ub: "?T c = ub_at (ubWin s) c" if "?b + 2 * H \<le> c" for c using that by (simp add: win_table_def Let_def)
  obtain o1 cw where w1: "win_scan touch pm pos (curWin s) = (o1, cw)" by (cases "win_scan touch pm pos (curWin s)")
  note sp1 = win_scan_spec [where touch = touch and pm = pm and i = pos and ws = "curWin s", unfolded w1]
  show ?thesis
  proof (cases o1)
    case (Some i)
    then have i: "pos \<le> i" "i < H" "availMask pm (curWin s ! i) \<noteq> 0" "\<forall>k. pos \<le> k \<and> k < i \<longrightarrow> availMask pm (curWin s ! k) = 0"
      "cw = (curWin s)[i := trySchedule touch pm (curWin s ! i)]" using sp1 sh(1) by auto
    let ?r = "?b + i" let ?s' = "s\<lparr>curWin := cw\<rparr>"
    have ri: "?T ?r = curWin s ! i" using cur [of ?r] i(2) by simp
    have "u32_nat (i + 2 ^ 32 - ?p) = i - ?p" using i(1,2) sh(5) by (intro u32_nat_diff) (auto simp: pos_def)
    then have "place_op H touch pm cyc sched s = Inr (?r, availMask pm (?T ?r), ?s')"
      using w1 Some ri i(1) sh(4) by (simp add: place_op_def pos32 Let_def pos_def)
    moreover have "availMask pm (?T c) = 0" if "?st \<le> c" "c < ?r" for c
    proof -
      have "pos \<le> c - ?b \<and> c - ?b < i" "?b \<le> c" "c < ?b + H" using that i(2) st by linarith+
      then show ?thesis using i(4) cur [of c] by simp
    qed
    moreover have "win_shape H cyc ?s'"
      unfolding win_shape_def using sh i(5,1) by (auto simp: pos_def)
    moreover have "win_table H cyc ?s' = ?T(?r := trySchedule touch pm (?T ?r))"
    proof
      fix c show "win_table H cyc ?s' c = (?T(?r := trySchedule touch pm (?T ?r))) c"
        unfolding ri using i(2,5) sh(1) by (cases "c - ?b = i") (auto simp: win_table_def Let_def)
    qed
    ultimately show ?thesis using i(1,3) ri st by (intro exI [of _ ?r] exI [of _ ?s']) auto
  next
    case o1: None
    then have n1: "\<forall>k. pos \<le> k \<and> k < H \<longrightarrow> availMask pm (curWin s ! k) = 0" "cw = curWin s" using sp1 sh(1) by auto
    define npos where "npos = max pos H - H"
    obtain o2 nw where w2: "win_scan touch pm npos (nextWin s) = (o2, nw)" by (cases "win_scan touch pm npos (nextWin s)")
    note sp2 = win_scan_spec [where touch = touch and pm = pm and i = npos and ws = "nextWin s", unfolded w2]
    have before1: "availMask pm (?T c) = 0" if "?st \<le> c" "c < ?b + H" for c
    proof -
      have "pos \<le> c - ?b" "c - ?b < H" "?b \<le> c" using that st by linarith+
      then show ?thesis using n1(1) cur [of c] that by simp
    qed
    show ?thesis
    proof (cases o2)
      case (Some j)
      then have j: "npos \<le> j" "j < H" "availMask pm (nextWin s ! j) \<noteq> 0" "\<forall>k. npos \<le> k \<and> k < j \<longrightarrow> availMask pm (nextWin s ! k) = 0"
        "nw = (nextWin s)[j := trySchedule touch pm (nextWin s ! j)]" using sp2 sh(2) by auto
      let ?r = "?b + H + j" let ?s' = "s\<lparr>curWin := cw, nextWin := nw\<rparr>"
      have rj: "?T ?r = nextWin s ! j" using nxt [of ?r] j(2) by simp
      have "u32_nat (j + H + 2 ^ 32 - ?p) = j + H - ?p" using j(2) sh(3,5) by (intro u32_nat_diff) auto
      then have "place_op H touch pm cyc sched s = Inr (?r, availMask pm (?T ?r), ?s')"
        using w1 w2 o1 Some rj sh(1,3,4) by (simp add: place_op_def pos32 Let_def npos_def)
      moreover have "availMask pm (?T c) = 0" if "?st \<le> c" "c < ?r" for c
      proof (cases "c < ?b + H")
        case False
        then have "npos \<le> c - ?b - H" "c - ?b - H < j" "?b + H \<le> c" "c < ?b + 2 * H"
          using that st j(2) sh(3) by (auto simp: npos_def max_def)
        then show ?thesis using j(4) nxt [of c] by simp
      qed (use before1 that in blast)
      moreover have "win_shape H cyc ?s'" unfolding win_shape_def using sh n1(2) j(5) by auto
      moreover have "win_table H cyc ?s' = ?T(?r := trySchedule touch pm (?T ?r))"
      proof
        fix c show "win_table H cyc ?s' c = (?T(?r := trySchedule touch pm (?T ?r))) c"
          unfolding rj using j(2,5) sh(2) n1(2) by (cases "c - ?b - H = j") (auto simp: win_table_def Let_def)
      qed
      moreover have "?st \<le> ?r"
      proof -
        have "pos \<le> npos + H" by (simp add: npos_def)
        then show ?thesis using j(1) st by linarith
      qed
      ultimately show ?thesis using j(3) rj by (intro exI [of _ ?r] exI [of _ ?s']) auto
    next
      case o2: None
      then have n2: "\<forall>k. npos \<le> k \<and> k < H \<longrightarrow> availMask pm (nextWin s ! k) = 0" "nw = nextWin s" using sp2 sh(2) by auto
      let ?c0 = "?b + (max npos H + H)"
      have "u32_nat (max npos H + H + 2 ^ 32 - ?p) = max npos H + H - ?p"
        using sh(3,5) near by (intro u32_nat_diff) (auto simp: npos_def max_def pos_def)
      then have c0: "cyc + u32_nat (max npos H + H + 2 ^ 32 - ?p) = ?c0" using sh(3,4) by (simp add: max_def)
      from ub_scan_spec [OF sh(7) pm, of touch ?c0] obtain r ub' where r: "ub_scan touch pm ?c0 (ubWin s) = Inr (r, availMask pm (ub_at (ubWin s) r), ub')"
        "?c0 \<le> r" "availMask pm (ub_at (ubWin s) r) \<noteq> 0" "\<forall>k. ?c0 \<le> k \<and> k < r \<longrightarrow> availMask pm (ub_at (ubWin s) k) = 0" "sorted_keys ub'"
        "fst ` set ub' = insert r (fst ` set (ubWin s))" "\<forall>d. ub_at ub' d = (if d = r then trySchedule touch pm (ub_at (ubWin s) r) else ub_at (ubWin s) d)"
        by blast
      have rb: "?b + 2 * H \<le> r" using r(2) by (simp add: max_def split: if_splits)
      let ?s' = "s\<lparr>curWin := cw, nextWin := nw, ubWin := ub'\<rparr>"
      have e: "place_op H touch pm cyc sched s = Inr (r, availMask pm (?T r), ?s')"
        using w1 w2 o1 o2 r(1) sh(1,2) ub [OF rb] c0 by (simp add: place_op_def pos32 Let_def npos_def)
      moreover have "availMask pm (?T c) = 0" if c: "?st \<le> c" "c < r" for c
      proof -
        consider "c < ?b + H" | "?b + H \<le> c" "c < ?b + 2 * H" | "?b + 2 * H \<le> c" by linarith
        then show ?thesis
        proof cases
          case 2
          then have "npos \<le> c - ?b - H" "c - ?b - H < H" using c st by (auto simp: npos_def max_def)
          then show ?thesis using n2(1) nxt [of c] 2 by simp
        next
          case 3
          then have "?c0 \<le> c" using c st by (auto simp: npos_def max_def)
          then show ?thesis using r(4) c(2) ub [of c] 3 by simp
        qed (use before1 c in blast)
      qed
      moreover have "win_shape H cyc ?s'" unfolding win_shape_def using sh n1(2) n2(2) r(5,6) rb by auto
      moreover have "win_table H cyc ?s' = ?T(r := trySchedule touch pm (?T r))"
      proof
        fix c show "win_table H cyc ?s' c = (?T(r := trySchedule touch pm (?T r))) c"
          using r(7) rb ub [OF rb] n1(2) n2(2) by (auto simp: win_table_def Let_def)
      qed
      moreover have "?st \<le> r" using r(2) st by (auto simp: npos_def max_def split: if_splits)
      ultimately show ?thesis using r(3) ub [OF rb] by (intro exI [of _ r] exI [of _ ?s']) auto
    qed
  qed
qed

lemma availMask_bit: "bit (availMask pm w) i \<longleftrightarrow> bit pm i \<and> \<not> bit (occUnits w) i \<and> i < 8"
  by (auto simp: availMask_def bit_and_iff bit_not_iff dest: bit_imp_le_length)

text \<open>The port taken is a free one of those allowed, and the lowest such.\<close>

lemma firstAvail_spec:
  assumes "availMask pm w \<noteq> 0"
  shows "bit pm (firstAvail (availMask pm w))" "\<not> bit (occUnits w) (firstAvail (availMask pm w))" "firstAvail (availMask pm w) < 8"
    "\<And>j. bit pm j \<Longrightarrow> \<not> bit (occUnits w) j \<Longrightarrow> firstAvail (availMask pm w) \<le> j"
proof -
  let ?m = "availMask pm w" let ?l = "filter (\<lambda>i. bit ?m i) [0..<8]"
  obtain i where i: "bit ?m i" using assms by (auto simp: bit_eq_iff)
  then have "i \<in> set ?l" by (simp add: availMask_bit)
  then obtain x xs where x: "?l = x # xs" by (cases ?l) auto
  then have fx: "firstAvail ?m = x" by (simp add: firstAvail_def)
  have xin: "x \<in> set ?l" using x by simp
  then show "bit pm (firstAvail ?m)" "\<not> bit (occUnits w) (firstAvail ?m)" "firstAvail ?m < 8" by (auto simp: fx availMask_bit)
  fix j assume j: "bit pm j" "\<not> bit (occUnits w) j"
  have "j < 8" using j(1) bit_imp_le_length [of pm j] by simp
  then have "j \<in> set ?l" using j by (simp add: availMask_bit)
  moreover have "sorted ?l" using sorted_upt by (rule sorted_wrt_filter)
  ultimately show "firstAvail ?m \<le> j" unfolding fx x by auto
qed

lemma trySchedule_count: "availMask pm w \<noteq> 0 \<Longrightarrow> wc_count (trySchedule True pm w) = wc_count w + 1"
  "wc_count (trySchedule False pm w) = wc_count w"
  by (simp_all add: trySchedule_def)

lemma table_past: "win_shape H cyc s \<Longrightarrow> c < cyc \<Longrightarrow> win_table H cyc s c = wc0"
  by (auto simp: win_shape_def win_table_def Let_def)

lemma occupied_before_K: "win_inv H WSZ K (cyc, s) \<Longrightarrow> 0 < occupancy s \<Longrightarrow> cyc < K"
proof (rule ccontr)
  assume a: "win_inv H WSZ K (cyc, s)" "0 < occupancy s" "\<not> cyc < K"
  have "(\<Sum>c < K. wc_count (win_table H cyc s c)) = 0"
    using a table_past [of H cyc s] by (intro sum.neutral) (auto simp: win_inv_def wc0_def)
  then show False using a by (simp add: win_inv_def counts_to_def)
qed

text \<open>Issue advances just past the first cycle that holds a micro-op, and the fuel suffices.\<close>

lemma make_room_spec:
  assumes "win_inv H WSZ K (cyc, s)" "0 < WSZ" "K - cyc \<le> n"
  shows "\<exists>cyc' s'. make_room n H WSZ (cyc, s) = Inr (cyc', s') \<and> cyc \<le> cyc' \<and> win_inv H WSZ K (cyc', s') \<and> occupancy s' < WSZ \<and>
    win_table H cyc' s' = (\<lambda>c. if c < cyc' then wc0 else win_table H cyc s c) \<and> (occupancy s < WSZ \<longrightarrow> cyc' = cyc) \<and>
    (\<forall>c. cyc \<le> c \<and> c + 1 < cyc' \<longrightarrow> wc_count (win_table H cyc s c) = 0)"
  using assms(1,3)
proof (induction n arbitrary: cyc s)
  case 0
  then have "\<not> 0 < occupancy s" using occupied_before_K [OF 0(1)] by linarith
  then show ?case using 0 assms(2) table_past [of H cyc s]
    by (intro exI [of _ cyc] exI [of _ s]) (auto simp: win_inv_def)
next
  case (Suc n)
  note inv0 = Suc.prems(1)
  show ?case
  proof (cases "occupancy s = WSZ")
    case False
    then have "occupancy s < WSZ" using inv0 by (simp add: win_inv_def)
    then show ?thesis using False inv0 table_past [of H cyc s]
      by (intro exI [of _ cyc] exI [of _ s]) (auto simp: win_inv_def)
  next
    case True
    from advancePos_inv [OF inv0] obtain s1 where s1: "advancePos H (cyc, s) = Inr (cyc + 1, s1)" "win_inv H WSZ K (cyc + 1, s1)"
      "win_table H (cyc + 1) s1 = (win_table H cyc s)(cyc := wc0)" by blast
    have "K - (cyc + 1) \<le> n" using Suc.prems(2) by linarith
    from Suc.IH [OF s1(2) this] obtain cyc' s' where r: "make_room n H WSZ (cyc + 1, s1) = Inr (cyc', s')" "cyc + 1 \<le> cyc'"
      "win_inv H WSZ K (cyc', s')" "occupancy s' < WSZ" "win_table H cyc' s' = (\<lambda>c. if c < cyc' then wc0 else win_table H (cyc + 1) s1 c)"
      "occupancy s1 < WSZ \<longrightarrow> cyc' = cyc + 1" "\<forall>c. cyc + 1 \<le> c \<and> c + 1 < cyc' \<longrightarrow> wc_count (win_table H (cyc + 1) s1 c) = 0" by blast
    have e: "make_room (Suc n) H WSZ (cyc, s) = Inr (cyc', s')" using True s1(1) r(1) by simp
    have t: "win_table H cyc' s' = (\<lambda>c. if c < cyc' then wc0 else win_table H cyc s c)" unfolding r(5) s1(3) using r(2) by auto
    have z: "wc_count (win_table H cyc s c) = 0" if c: "cyc \<le> c" "c + 1 < cyc'" for c
    proof (cases "c = cyc")
      case True
      show ?thesis
      proof (rule ccontr)
        assume nz: "wc_count (win_table H cyc s c) \<noteq> 0"
        have c1: "counts_to ((win_table H cyc s)(cyc := wc0)) K (occupancy s - wc_count (win_table H cyc s cyc))"
          "wc_count (win_table H cyc s cyc) \<le> occupancy s"
          using counts_clear [of "win_table H cyc s" K "occupancy s" cyc] inv0 by (auto simp: win_inv_def)
        moreover have "counts_to ((win_table H cyc s)(cyc := wc0)) K (occupancy s1)" using s1(2,3) by (simp add: win_inv_def)
        ultimately have "occupancy s1 = occupancy s - wc_count (win_table H cyc s cyc)" by (simp add: counts_to_def)
        then have "occupancy s1 < WSZ" using nz \<open>occupancy s = WSZ\<close> assms(2) True by simp
        then show False using r(6) c True by simp
      qed
    next
      case False
      then have "cyc + 1 \<le> c" using c by simp
      then have "wc_count (win_table H (cyc + 1) s1 c) = 0" using r(7) c by blast
      then show ?thesis using False s1(3) by simp
    qed
    show ?thesis using e t z r(2-4) True by (intro exI [of _ cyc'] exI [of _ s']) auto
  qed
qed

text \<open>The cycle a request gets: the first one from the given cycle on with a free allowed port.\<close>

definition earliest_free :: "(nat \<Rightarrow> WinCycle) \<Rightarrow> 8 word \<Rightarrow> nat \<Rightarrow> nat \<Rightarrow> bool" where
  "earliest_free T pm from r \<longleftrightarrow> from \<le> r \<and> availMask pm (T r) \<noteq> 0 \<and> (\<forall>c. from \<le> c \<and> c < r \<longrightarrow> availMask pm (T c) = 0)"

lemma earliest_bound: "earliest_free T pm from r \<Longrightarrow> pm \<noteq> 0 \<Longrightarrow> (\<And>c. K \<le> c \<Longrightarrow> T c = wc0) \<Longrightarrow> r \<le> max from K"
proof (rule ccontr)
  assume a: "earliest_free T pm from r" "pm \<noteq> 0" "\<And>c. K \<le> c \<Longrightarrow> T c = wc0" "\<not> r \<le> max from K"
  have "from \<le> max from K" "max from K < r" "K \<le> max from K" using a(4) by (simp_all only: not_le max.cobounded1 max.cobounded2)
  then have "availMask pm (T (max from K)) = 0" "T (max from K) = wc0" using a(1,3) unfolding earliest_free_def by blast+
  then show False using a(2) by simp
qed

lemma schedule_touch:
  assumes i: "win_inv H WSZ K (cyc, s)" and w: "0 < WSZ" and n: "K - cyc \<le> n" and pm: "pm \<noteq> 0" and near: "sched - cyc + H < 2 ^ 32"
  shows "\<exists>cyc' r s' T. scheduleInternal n H WSZ True rec pm (cyc, sched, s) = Inr (cyc', r, s') \<and> cyc \<le> cyc' \<and>
    T = (\<lambda>c. if c < cyc' then wc0 else win_table H cyc s c) \<and> (occupancy s < WSZ \<longrightarrow> cyc' = cyc) \<and>
    (\<forall>c. cyc \<le> c \<and> c + 1 < cyc' \<longrightarrow> wc_count (win_table H cyc s c) = 0) \<and> earliest_free T pm (max sched cyc') r \<and>
    win_table H cyc' s' = T(r := trySchedule True pm (T r)) \<and> win_inv H WSZ (max K (Suc r)) (cyc', s') \<and> (rec \<longrightarrow> lastPort s' < 8)"
proof -
  from make_room_spec [OF i w n] obtain cyc' s1 where m: "make_room n H WSZ (cyc, s) = Inr (cyc', s1)" "cyc \<le> cyc'" "win_inv H WSZ K (cyc', s1)"
    "occupancy s1 < WSZ" "win_table H cyc' s1 = (\<lambda>c. if c < cyc' then wc0 else win_table H cyc s c)" "occupancy s < WSZ \<longrightarrow> cyc' = cyc"
    "\<forall>c. cyc \<le> c \<and> c + 1 < cyc' \<longrightarrow> wc_count (win_table H cyc s c) = 0" by blast
  let ?T = "win_table H cyc' s1"
  have sh: "win_shape H cyc' s1" "counts_to ?T K (occupancy s1)" using m(3) by (auto simp: win_inv_def)
  have "sched - cyc' + H < 2 ^ 32" using near m(2) by linarith
  from place_op_spec [OF sh(1) pm this, of True] obtain r s2 where r: "place_op H True pm cyc' sched s1 = Inr (r, availMask pm (?T r), s2)"
    "max sched cyc' \<le> r" "availMask pm (?T r) \<noteq> 0" "\<forall>c. max sched cyc' \<le> c \<and> c < r \<longrightarrow> availMask pm (?T c) = 0" "win_shape H cyc' s2"
    "win_table H cyc' s2 = ?T(r := trySchedule True pm (?T r))" "occupancy s2 = occupancy s1" by blast
  define s3 where "s3 = (if rec then s2\<lparr>lastPort := firstAvail (availMask pm (?T r))\<rparr> else s2)"
  define s4 where "s4 = s3\<lparr>occupancy := occupancy s3 + 1\<rparr>"
  have e: "scheduleInternal n H WSZ True rec pm (cyc, sched, s) = Inr (cyc', r, s4)"
    unfolding scheduleInternal_def by (simp add: m(1) r(1) s3_def s4_def Let_def)
  have f: "curWin s4 = curWin s2" "nextWin s4 = nextWin s2" "ubWin s4 = ubWin s2" "curPos s4 = curPos s2" "occupancy s4 = occupancy s1 + 1"
    by (simp_all add: s4_def s3_def r(7))
  have t4: "win_table H cyc' s4 = ?T(r := trySchedule True pm (?T r))" unfolding r(6) [symmetric] by (simp add: win_table_def f Let_def fun_eq_iff)
  have sh4: "win_shape H cyc' s4" using r(5) unfolding win_shape_def f .
  have "counts_to (?T(r := trySchedule True pm (?T r))) (max K (Suc r)) (occupancy s1 + 1)"
    by (rule counts_add [OF sh(2)]) (simp add: trySchedule_count r(3))
  then have inv4: "win_inv H WSZ (max K (Suc r)) (cyc', s4)" using sh4 m(4) by (simp add: win_inv_def t4 f)
  have lp: "rec \<longrightarrow> lastPort s4 < 8" using firstAvail_spec(3) [OF r(3)] by (simp add: s4_def s3_def)
  have ef: "earliest_free ?T pm (max sched cyc') r" using r(2-4) by (simp add: earliest_free_def)
  show ?thesis using e m(2,5-7) ef t4 inv4 lp by blast
qed

lemma schedule_shadow:
  assumes i: "win_inv H WSZ K (cyc, s)" and pm: "pm \<noteq> 0" and near: "sched - cyc + H < 2 ^ 32"
  shows "\<exists>r s'. scheduleInternal n H WSZ False False pm (cyc, sched, s) = Inr (cyc, r, s') \<and>
    earliest_free (win_table H cyc s) pm (max sched cyc) r \<and> win_inv H WSZ (max K (Suc r)) (cyc, s') \<and>
    win_table H cyc s' = (win_table H cyc s)(r := trySchedule False pm (win_table H cyc s r)) \<and> occupancy s' = occupancy s"
proof -
  let ?T = "win_table H cyc s"
  have sh: "win_shape H cyc s" "counts_to ?T K (occupancy s)" "occupancy s \<le> WSZ" using i by (auto simp: win_inv_def)
  from place_op_spec [OF sh(1) pm near, of False] obtain r s2 where r: "place_op H False pm cyc sched s = Inr (r, availMask pm (?T r), s2)"
    "max sched cyc \<le> r" "availMask pm (?T r) \<noteq> 0" "\<forall>c. max sched cyc \<le> c \<and> c < r \<longrightarrow> availMask pm (?T c) = 0" "win_shape H cyc s2"
    "win_table H cyc s2 = ?T(r := trySchedule False pm (?T r))" "occupancy s2 = occupancy s" by blast
  have "scheduleInternal n H WSZ False False pm (cyc, sched, s) = Inr (cyc, r, s2)"
    unfolding scheduleInternal_def by (simp add: r(1) Let_def)
  moreover have "counts_to (?T(r := trySchedule False pm (?T r))) (max K (Suc r)) (occupancy s + 0)"
    by (rule counts_add [OF sh(2)]) (simp add: trySchedule_count)
  ultimately show ?thesis using r sh(3) by (auto simp: win_inv_def earliest_free_def)
qed

text \<open>Extra slots occupy the port on later cycles and leave every micro-op in place.\<close>

definition wc_grows :: "(nat \<Rightarrow> WinCycle) \<Rightarrow> (nat \<Rightarrow> WinCycle) \<Rightarrow> bool" where
  "wc_grows T T' \<longleftrightarrow> (\<forall>c. wc_count (T' c) = wc_count (T c) \<and> (\<forall>i. bit (occUnits (T c)) i \<longrightarrow> bit (occUnits (T' c)) i))"

lemma wc_grows_refl: "wc_grows T T" by (simp add: wc_grows_def)
lemma wc_grows_trans: "wc_grows T T' \<Longrightarrow> wc_grows T' T'' \<Longrightarrow> wc_grows T T''" by (simp add: wc_grows_def)
lemma wc_grows_shadow: "wc_grows T (T(r := trySchedule False pm (T r)))" by (simp add: wc_grows_def trySchedule_def bit_or_iff)

lemma slots_step: "a \<le> b + 1 \<Longrightarrow> b + 2 * Suc n + h < u \<Longrightarrow> a + 2 * n + h < (u :: nat)" by simp
lemma slots_step_le: "a \<le> b + 1 \<Longrightarrow> k \<le> a + 2 * n \<Longrightarrow> k \<le> b + 2 * Suc (n :: nat)" by simp

lemma slots_first: "a \<le> b \<Longrightarrow> b + 2 * Suc n + h < u \<Longrightarrow> a + h < (u :: nat)" by simp

lemma extra_slots_spec:
  assumes "win_inv H WSZ K (cyc, s)" "pm \<noteq> 0" "max (max c cyc) K + 2 * n + H < cyc + 2 ^ 32"
  shows "\<exists>K' s'. extra_slots n H WSZ pm (cyc, c, s) = Inr (cyc, s') \<and> win_inv H WSZ K' (cyc, s') \<and> K' \<le> max (max c cyc) K + 2 * n \<and>
    wc_grows (win_table H cyc s) (win_table H cyc s') \<and> occupancy s' = occupancy s"
  using assms(1,3)
proof (induction n arbitrary: c s K)
  case 0
  then show ?case by (auto simp: wc_grows_refl intro!: exI [of _ K])
next
  case (Suc n)
  have "2 * H < 2 ^ 32" using Suc.prems(1) by (simp add: win_inv_def win_shape_def)
  moreover have "c + H < cyc + 2 ^ 32" by (rule slots_first [OF _ Suc.prems(2)]) simp
  ultimately have near: "c - cyc + H < 2 ^ 32" by linarith
  from schedule_shadow [OF Suc.prems(1) assms(2) near, where n = 0] obtain r s1 where r: "scheduleInternal 0 H WSZ False False pm (cyc, c, s) = Inr (cyc, r, s1)"
    "earliest_free (win_table H cyc s) pm (max c cyc) r" "win_inv H WSZ (max K (Suc r)) (cyc, s1)"
    "win_table H cyc s1 = (win_table H cyc s)(r := trySchedule False pm (win_table H cyc s r))" "occupancy s1 = occupancy s" by blast
  have rb: "r \<le> max (max c cyc) K"
    by (rule earliest_bound [OF r(2) assms(2)]) (use Suc.prems(1) in \<open>auto simp: win_inv_def counts_to_def\<close>)
  then have mx: "max (max (r + 1) cyc) (max K (Suc r)) \<le> max (max c cyc) K + 1" by auto
  then have "max (max (r + 1) cyc) (max K (Suc r)) + 2 * n + H < cyc + 2 ^ 32" by (rule slots_step [OF _ Suc.prems(2)])
  from Suc.IH [OF r(3) this] obtain K' s' where k: "extra_slots n H WSZ pm (cyc, r + 1, s1) = Inr (cyc, s')" "win_inv H WSZ K' (cyc, s')"
    "K' \<le> max (max (r + 1) cyc) (max K (Suc r)) + 2 * n" "wc_grows (win_table H cyc s1) (win_table H cyc s')" "occupancy s' = occupancy s1" by blast
  have "wc_grows (win_table H cyc s) (win_table H cyc s')" using wc_grows_trans [OF wc_grows_shadow k(4) [unfolded r(4)]] .
  moreover have "K' \<le> max (max c cyc) K + 2 * Suc n" by (rule slots_step_le [OF mx k(3)])
  ultimately show ?case using r(1,5) k by (intro exI [of _ K'] exI [of _ s']) simp
qed

subsection \<open>The branch predictor refines a table of histories and saturating counters\<close>

text \<open>The reference: per branch slot the outcomes of its last HB branches, newest first, and per pattern a counter from 0 to 3.\<close>

record RefPredictor =
  rp_hist :: "nat \<Rightarrow> bool list"
  rp_cnt :: "bool list \<Rightarrow> nat"

definition sat2 :: "bool \<Rightarrow> nat \<Rightarrow> nat" where
  "sat2 taken c = (if taken then min 3 (c + 1) else c - 1)"

definition ref_pattern :: "nat \<Rightarrow> nat \<Rightarrow> bool list \<Rightarrow> bool list" where
  "ref_pattern HB LB h = map (\<lambda>i. h ! i \<noteq> (LB \<le> HB - LB + i \<and> HB - LB + i < HB \<and> h ! (HB - LB + i))) [0..<LB]"

definition ref_slot :: "nat \<Rightarrow> u64 \<Rightarrow> nat" where
  "ref_slot NB pc = unat (pc div 2) mod 2 ^ NB"

definition ref_predict :: "nat \<Rightarrow> nat \<Rightarrow> nat \<Rightarrow> u64 \<Rightarrow> bool \<Rightarrow> RefPredictor \<Rightarrow> bool \<times> RefPredictor" where
  "ref_predict NB HB LB pc taken a =
     (let bi = ref_slot NB pc; p = ref_pattern HB LB (rp_hist a bi) in
      (taken = (1 < rp_cnt a p), \<lparr>rp_hist = (rp_hist a)(bi := take HB (taken # rp_hist a bi)), rp_cnt = (rp_cnt a)(p := sat2 taken (rp_cnt a p))\<rparr>))"

definition word_bits :: "nat \<Rightarrow> u32 \<Rightarrow> bool list" where "word_bits n w = map (bit w) [0..<n]"

definition bp_rel :: "nat \<Rightarrow> nat \<Rightarrow> nat \<Rightarrow> BranchPredictor \<Rightarrow> RefPredictor \<Rightarrow> bool" where
  "bp_rel NB HB LB b a \<longleftrightarrow> length (bhsr b) = 2 ^ NB \<and> length (pht b) = 2 ^ LB \<and> useA2 b \<and>
     (\<forall>i < 2 ^ NB. length (rp_hist a i) = HB \<and> (\<forall>j. bit (bhsr b ! i) j \<longleftrightarrow> j < HB \<and> rp_hist a i ! j)) \<and>
     (\<forall>w :: u32. unat w < 2 ^ LB \<longrightarrow> rp_cnt a (word_bits LB w) = unat (pht b ! unat w) \<and> unat (pht b ! unat w) \<le> 3)"

lemma mask_word: "push_bit n 1 - 1 = (mask n :: 'a::len word)"
  by (simp add: mask_eq_exp_minus_1 push_bit_eq_mult)

lemma unat_and_mask: "n < 32 \<Longrightarrow> unat ((w :: u32) AND mask n) = unat w mod 2 ^ n"
  by (simp only: take_bit_eq_mask [symmetric] unsigned_take_bit_eq take_bit_eq_mod [where ?'a = nat])

lemma bp_idx_bits:
  assumes "LB \<le> HB" "HB < 32"
  shows "bit (bp_pht_idx HB LB h) i \<longleftrightarrow> i < LB \<and> (bit h i \<noteq> (LB \<le> HB - LB + i \<and> bit h (HB - LB + i)))"
  using assms unfolding bp_pht_idx_def mask_word
  by (auto simp: bit_simps dest: bit_imp_le_length)

lemma bp_idx_bound: "LB < 32 \<Longrightarrow> unat (bp_pht_idx HB LB h) < 2 ^ LB"
  unfolding bp_pht_idx_def mask_word by (simp add: unat_and_mask)

lemma bp_slot:
  assumes "NB < 32"
  shows "unat ((ucast (drop_bit 1 (pc :: u64)) :: u32) AND (push_bit NB 1 - 1)) = ref_slot NB pc"
proof -
  have d: "drop_bit 1 pc = pc div 2" by (simp add: drop_bit_eq_div)
  have "unat (ucast (pc div 2) :: u32) = unat (pc div 2) mod 2 ^ 32" by (simp add: unsigned_ucast_eq take_bit_eq_mod)
  moreover have "(2 :: nat) ^ NB dvd 2 ^ 32" using assms by (intro le_imp_power_dvd) simp
  ultimately show ?thesis unfolding d mask_word unat_and_mask [OF assms] ref_slot_def by (simp only: mod_mod_cancel)
qed

lemma bp_next_sat: "unat c \<le> 3 \<Longrightarrow> unat (bp_next True taken c) = sat2 taken (unat c)"
proof -
  assume a: "unat c \<le> 3"
  have w: "c = of_nat (unat c)" by simp
  have "unat c = 0 \<or> unat c = 1 \<or> unat c = 2 \<or> unat c = 3" using a by linarith
  then have "c = 0 \<or> c = 1 \<or> c = 2 \<or> c = 3" by (elim disjE; subst (1 2 3 4) w) simp_all
  then show ?thesis by (cases taken) (auto simp: bp_next_def sat2_def Let_def)
qed

lemma word_bits_inj:
  assumes "unat v < 2 ^ n" "unat w < 2 ^ n"
  shows "word_bits n v = word_bits n w \<longleftrightarrow> v = w"
proof
  assume e: "word_bits n v = word_bits n w"
  have t: "take_bit n u = u" if "unat u < 2 ^ n" for u :: u32
    using that by (simp add: word_unat_eq_iff unsigned_take_bit_eq take_bit_eq_mod [where ?'a = nat])
  have "bit v i = bit w i" if "i < n" for i using e that by (simp add: word_bits_def)
  then have "take_bit n v = take_bit n w" by (intro bit_eqI) (auto simp: bit_take_bit_iff)
  then show "v = w" using t assms by simp
qed simp

lemma bp_pattern_ref:
  assumes "LB \<le> HB" "HB < 32" "length h = HB" "\<forall>j. bit w j \<longleftrightarrow> j < HB \<and> h ! j"
  shows "word_bits LB (bp_pht_idx HB LB w) = ref_pattern HB LB h"
proof -
  have w: "bit w j \<longleftrightarrow> j < HB \<and> h ! j" for j using assms(4) by blast
  show ?thesis unfolding word_bits_def ref_pattern_def
  proof (rule map_cong [OF refl])
    fix i assume "i \<in> set [0..<LB]"
    then show "bit (bp_pht_idx HB LB w) i = (h ! i \<noteq> (LB \<le> HB - LB + i \<and> HB - LB + i < HB \<and> h ! (HB - LB + i)))"
      unfolding bp_idx_bits [OF assms(1,2)] w using assms(1) by auto
  qed
qed

lemma bp_shift:
  assumes "0 < HB" "HB < 32" "length h = HB" "\<forall>j. bit (w :: u32) j \<longleftrightarrow> j < HB \<and> h ! j"
  shows "bit ((push_bit 1 w AND (push_bit HB 1 - 1)) OR (if taken then 1 else 0)) j \<longleftrightarrow> j < HB \<and> take HB (taken # h) ! j"
proof -
  have w: "bit w j \<longleftrightarrow> j < HB \<and> h ! j" for j using assms(4) by blast
  show ?thesis unfolding mask_word bit_or_iff bit_and_iff bit_push_bit_iff bit_mask_iff w
    using assms(1-3) by (cases j) (auto simp: w bit_1_iff)
qed

lemma bp_predict_refines:
  assumes p: "NB \<le> LB" "LB \<le> HB" "0 < HB" "HB < 32" and r: "bp_rel NB HB LB b a"
  shows "\<exists>b'. bp_predict NB HB LB pc taken b = Inr (fst (ref_predict NB HB LB pc taken a), b') \<and>
    bp_rel NB HB LB b' (snd (ref_predict NB HB LB pc taken a))"
proof -
  define bi where "bi = ref_slot NB pc"
  define h where "h = bhsr b ! bi"
  define pi where "pi = bp_pht_idx HB LB h"
  define c where "c = pht b ! unat pi"
  have len: "length (bhsr b) = 2 ^ NB" "length (pht b) = 2 ^ LB" "useA2 b" using r by (auto simp: bp_rel_def)
  have bi: "bi < 2 ^ NB" by (simp add: bi_def ref_slot_def)
  have pib: "unat pi < 2 ^ LB" using p by (simp add: pi_def bp_idx_bound)
  have hh: "length (rp_hist a bi) = HB" "\<forall>j. bit h j \<longleftrightarrow> j < HB \<and> rp_hist a bi ! j" using r bi by (auto simp: bp_rel_def h_def)
  have pat: "ref_pattern HB LB (rp_hist a bi) = word_bits LB pi"
    using bp_pattern_ref [OF p(2,4) hh] by (simp add: pi_def)
  have cnt: "rp_cnt a (word_bits LB pi) = unat c" "unat c \<le> 3" using r pib by (auto simp: bp_rel_def c_def)
  have pred: "1 < c \<longleftrightarrow> 1 < unat c" by (simp add: word_less_nat_alt)
  have nb: "NB < 32" using p by simp
  define b' where "b' = b\<lparr>pht := (pht b)[unat pi := bp_next True taken c],
    bhsr := (bhsr b)[bi := (push_bit 1 h AND (push_bit HB 1 - 1)) OR (if taken then 1 else 0)]\<rparr>"
  have e: "bp_predict NB HB LB pc taken b = Inr (taken = (1 < c), b')"
    unfolding bp_predict_def Let_def bp_slot [OF nb] bi_def [symmetric]
    using len bi pib by (simp add: aget_def h_def [symmetric] pi_def [symmetric] c_def [symmetric] b'_def)
  define a' where "a' = \<lparr>rp_hist = (rp_hist a)(bi := take HB (taken # rp_hist a bi)), rp_cnt = (rp_cnt a)(word_bits LB pi := sat2 taken (unat c))\<rparr>"
  have f: "ref_predict NB HB LB pc taken a = (taken = (1 < c), a')"
    by (simp add: ref_predict_def bi_def [symmetric] pat cnt(1) pred a'_def Let_def)
  have hist: "length (rp_hist a' i) = HB \<and> (\<forall>j. bit (bhsr b' ! i) j \<longleftrightarrow> j < HB \<and> rp_hist a' i ! j)" if "i < 2 ^ NB" for i
  proof (cases "i = bi")
    case True
    then show ?thesis using bp_shift [OF p(3,4) hh] len bi hh(1) p(3) by (simp add: a'_def b'_def)
  next
    case False
    then show ?thesis using r that by (simp add: a'_def b'_def bp_rel_def)
  qed
  have cn: "rp_cnt a' (word_bits LB w) = unat (pht b' ! unat w) \<and> unat (pht b' ! unat w) \<le> 3" if "unat w < 2 ^ LB" for w
  proof (cases "w = pi")
    case True
    then show ?thesis using bp_next_sat [OF cnt(2), of taken] cnt(2) len pib by (auto simp: a'_def b'_def sat2_def)
  next
    case False
    then have "unat w \<noteq> unat pi" by (simp add: word_unat_eq_iff)
    then show ?thesis using False r that by (simp add: a'_def b'_def bp_rel_def word_bits_inj [OF _ pib])
  qed
  have "bp_rel NB HB LB b' a'" using len hist cn by (simp add: bp_rel_def b'_def)
  then show ?thesis using e f by simp
qed

fun bp_run :: "nat \<Rightarrow> nat \<Rightarrow> nat \<Rightarrow> (u64 \<times> bool) list \<Rightarrow> BranchPredictor \<Rightarrow> (bool list \<times> BranchPredictor) res" where
  "bp_run NB HB LB [] b = Inr ([], b)"
| "bp_run NB HB LB ((pc, taken) # bs) b = rbind (bp_predict NB HB LB pc taken b) (\<lambda>(hit, b1).
     rbind (bp_run NB HB LB bs b1) (\<lambda>(hits, b2). Inr (hit # hits, b2)))"

fun ref_run :: "nat \<Rightarrow> nat \<Rightarrow> nat \<Rightarrow> (u64 \<times> bool) list \<Rightarrow> RefPredictor \<Rightarrow> bool list" where
  "ref_run NB HB LB [] a = []"
| "ref_run NB HB LB ((pc, taken) # bs) a = fst (ref_predict NB HB LB pc taken a) # ref_run NB HB LB bs (snd (ref_predict NB HB LB pc taken a))"

definition RefPredictor_init :: "nat \<Rightarrow> RefPredictor" where
  "RefPredictor_init HB = \<lparr>rp_hist = (\<lambda>_. replicate HB False), rp_cnt = (\<lambda>_. 1)\<rparr>"

lemma bp_init_rel: "bp_rel NB HB LB (BranchPredictor_init NB LB) (RefPredictor_init HB)"
  by (auto simp: bp_rel_def BranchPredictor_init_def RefPredictor_init_def)

lemma bp_run_refines:
  assumes p: "NB \<le> LB" "LB \<le> HB" "0 < HB" "HB < 32"
  shows "bp_rel NB HB LB b a \<Longrightarrow> \<exists>b'. bp_run NB HB LB bs b = Inr (ref_run NB HB LB bs a, b')"
proof (induction bs arbitrary: b a)
  case (Cons e bs)
  obtain pc taken where e: "e = (pc, taken)" by (cases e)
  from bp_predict_refines [OF p Cons.prems] obtain b1 where b1: "bp_predict NB HB LB pc taken b = Inr (fst (ref_predict NB HB LB pc taken a), b1)"
    "bp_rel NB HB LB b1 (snd (ref_predict NB HB LB pc taken a))" by blast
  from Cons.IH [OF b1(2)] show ?case using b1(1) by (auto simp: e)
qed simp

text \<open>C19. The two-level branch predictor: on any sequence of branches it never indexes outside its tables, and it predicts exactly as the reference
  that keeps, per branch slot, the outcomes of the last HB branches and, per pattern of folded history, a two-bit saturating counter.\<close>

theorem branch_predictor_refines:
  assumes "NB \<le> LB" "LB \<le> HB" "0 < HB" "HB < 32"
  shows "\<exists>b'. bp_run NB HB LB bs (BranchPredictor_init NB LB) = Inr (ref_run NB HB LB bs (RefPredictor_init HB), b')"
  using bp_run_refines [OF assms bp_init_rel] .

text \<open>The core's configuration, and a small instance: two branches share a pattern, so the second one profits from the first.\<close>

theorem branch_predictor_refines_witness:
  "(\<forall>bs. \<exists>b'. bp_run 11 18 14 bs (BranchPredictor_init 11 14) = Inr (ref_run 11 18 14 bs (RefPredictor_init 18), b')) \<and>
   ref_run 1 2 2 [(4, True), (4, True), (4, True), (4, False), (6, True)] (RefPredictor_init 2) = [False, False, False, False, True]"
  using branch_predictor_refines [of 11 14 18]
  by (simp add: RefPredictor_init_def ref_predict_def ref_slot_def sat2_def ref_pattern_def upt_rec Let_def)
subsection \<open>The reorder buffer\<close>

text \<open>A ring of the given size after a history of entries: from the index on, the last entries in order, zeros before the first.\<close>

definition ring_holds :: "nat \<Rightarrow> nat list \<Rightarrow> nat list \<Rightarrow> nat \<Rightarrow> bool" where
  "ring_holds SZ hist bf i \<longleftrightarrow> length bf = SZ \<and> i < SZ \<and> (\<forall>k < SZ. bf ! ((i + k) mod SZ) = (replicate SZ 0 @ hist) ! (length hist + k))"

definition waits_for :: "nat \<Rightarrow> nat list \<Rightarrow> nat" where
  "waits_for SZ hist = (if length hist < SZ then 0 else hist ! (length hist - SZ))"

lemma ring_init: "0 < SZ \<Longrightarrow> ring_holds SZ [] (replicate SZ 0) 0"
  by (simp add: ring_holds_def)

lemma ring_read: "ring_holds SZ hist bf i \<Longrightarrow> aget bf i = Inr (waits_for SZ hist)"
proof -
  assume r: "ring_holds SZ hist bf i"
  then have "0 < SZ" "\<forall>k < SZ. bf ! ((i + k) mod SZ) = (replicate SZ 0 @ hist) ! (length hist + k)" unfolding ring_holds_def by auto
  then have "bf ! ((i + 0) mod SZ) = (replicate SZ 0 @ hist) ! (length hist + 0)" by blast
  then show ?thesis using r by (simp add: ring_holds_def aget_def waits_for_def nth_append)
qed

lemma ring_push:
  assumes r: "ring_holds SZ hist bf i"
  shows "ring_holds SZ (hist @ [c]) (bf[i := c]) (if i + 1 = SZ then 0 else i + 1)"
proof -
  have sz: "length bf = SZ" "i < SZ" using r by (auto simp: ring_holds_def)
  have nx: "(if i + 1 = SZ then 0 else i + 1) = (i + 1) mod SZ" using sz by simp
  have "bf[i := c] ! (((i + 1) mod SZ + k) mod SZ) = (replicate SZ 0 @ hist @ [c]) ! (length (hist @ [c]) + k)" if k: "k < SZ" for k
  proof -
    have m: "((i + 1) mod SZ + k) mod SZ = (i + (k + 1)) mod SZ" unfolding mod_add_left_eq by (simp add: ac_simps)
    show ?thesis
    proof (cases "k + 1 = SZ")
      case True
      have "(i + (k + 1)) mod SZ = i" unfolding True using sz by simp
      moreover have "(replicate SZ 0 @ hist @ [c]) ! (length (hist @ [c]) + k) = c"
        using nth_append_length [of "replicate SZ 0 @ hist" c] True [symmetric] by (simp add: ac_simps)
      ultimately show ?thesis unfolding m using sz by simp
    next
      case False
      then have k1: "k + 1 < SZ" using k by simp
      have "(i + (k + 1)) mod SZ \<noteq> i"
      proof
        assume a: "(i + (k + 1)) mod SZ = i"
        show False
        proof (cases "i + (k + 1) < SZ")
          case False
          then have "(i + (k + 1)) mod SZ = i + (k + 1) - SZ" using k1 sz by (simp add: mod_if)
          then show False using a k1 sz False by simp
        qed (use a in simp)
      qed
      moreover have "bf ! ((i + (k + 1)) mod SZ) = (replicate SZ 0 @ hist) ! (length hist + (k + 1))" using r k1 unfolding ring_holds_def by blast
      moreover have "(replicate SZ 0 @ hist @ [c]) ! (length hist + (k + 1)) = (replicate SZ 0 @ hist) ! (length hist + (k + 1))"
        unfolding append_assoc [symmetric] using k1 by (subst nth_append_left) simp_all
      ultimately show ?thesis unfolding m using sz by simp
    qed
  qed
  then show ?thesis unfolding nx using sz by (simp add: ring_holds_def)
qed

text \<open>A run of retirements, with the cycle of each.\<close>

fun rob_run :: "nat \<Rightarrow> nat \<Rightarrow> nat list \<Rightarrow> ReorderBuffer \<Rightarrow> (nat list \<times> ReorderBuffer) res" where
  "rob_run SZ W [] r = Inr ([], r)"
| "rob_run SZ W (m # ms) r = rbind (markRetire SZ W m r) (\<lambda>r1. rbind (rob_run SZ W ms r1) (\<lambda>(cs, r2). Inr (curRetireCycle r1 # cs, r2)))"

definition rob_next :: "nat \<Rightarrow> nat \<Rightarrow> nat \<times> nat \<Rightarrow> nat \<times> nat" where
  "rob_next W m = (\<lambda>(c, n). if m \<le> c then if n = W then (c + 1, 0) else (c, n + 1) else (m, 1))"

fun rob_cycles :: "nat \<Rightarrow> nat \<times> nat \<Rightarrow> nat list \<Rightarrow> nat list" where
  "rob_cycles W st [] = []"
| "rob_cycles W st (m # ms) = fst (rob_next W m st) # rob_cycles W (rob_next W m st) ms"

lemma markRetire_step:
  assumes "ring_holds SZ hist (rob_buf r) (rob_idx r)" "(c, n) = rob_next W m (curRetireCycle r, curCycleRetires r)"
  shows "\<exists>r'. markRetire SZ W m r = Inr r' \<and> curRetireCycle r' = c \<and> curCycleRetires r' = n \<and> ring_holds SZ (hist @ [c]) (rob_buf r') (rob_idx r')"
proof -
  define r1 where "r1 = (if m \<le> curRetireCycle r
    then if curCycleRetires r = W then r\<lparr>curRetireCycle := curRetireCycle r + 1, curCycleRetires := 0\<rparr> else r\<lparr>curCycleRetires := curCycleRetires r + 1\<rparr>
    else r\<lparr>curRetireCycle := m, curCycleRetires := 1\<rparr>)"
  have f: "curRetireCycle r1 = c" "curCycleRetires r1 = n" "rob_buf r1 = rob_buf r" "rob_idx r1 = rob_idx r"
    using assms(2) by (auto simp: r1_def rob_next_def split: if_splits)
  have i: "rob_idx r < length (rob_buf r)" using assms(1) by (simp add: ring_holds_def)
  have "markRetire SZ W m r = Inr (r1\<lparr>rob_buf := (rob_buf r)[rob_idx r := c], rob_idx := (if rob_idx r + 1 = SZ then 0 else rob_idx r + 1)\<rparr>)"
    unfolding markRetire_def Let_def r1_def [symmetric] f using i by (simp add: aput_def)
  then show ?thesis using ring_push [OF assms(1), of c] f by simp
qed

lemma rob_run_cycles:
  assumes "ring_holds SZ hist (rob_buf r) (rob_idx r)"
  shows "\<exists>r'. rob_run SZ W ms r = Inr (rob_cycles W (curRetireCycle r, curCycleRetires r) ms, r') \<and>
    ring_holds SZ (hist @ rob_cycles W (curRetireCycle r, curCycleRetires r) ms) (rob_buf r') (rob_idx r')"
  using assms
proof (induction ms arbitrary: r hist)
  case (Cons m ms)
  obtain c n where cn: "(c, n) = rob_next W m (curRetireCycle r, curCycleRetires r)" by (metis surj_pair)
  from markRetire_step [OF Cons.prems cn] obtain r1 where r1: "markRetire SZ W m r = Inr r1" "curRetireCycle r1 = c" "curCycleRetires r1 = n"
    "ring_holds SZ (hist @ [c]) (rob_buf r1) (rob_idx r1)" by blast
  from Cons.IH [OF r1(4), unfolded r1(2,3)] obtain r' where r': "rob_run SZ W ms r1 = Inr (rob_cycles W (c, n) ms, r')"
    "ring_holds SZ ((hist @ [c]) @ rob_cycles W (c, n) ms) (rob_buf r') (rob_idx r')" by blast
  show ?case using r1 r' by (simp add: cn [symmetric])
qed simp

lemma rob_cycles_sorted: "sorted (rob_cycles W (c, n) ms) \<and> (\<forall>x \<in> set (rob_cycles W (c, n) ms). c \<le> x) \<and> list_all2 (\<le>) ms (rob_cycles W (c, n) ms)"
proof (induction ms arbitrary: c n)
  case (Cons m ms)
  obtain c' n' where e: "rob_next W m (c, n) = (c', n')" by (metis surj_pair)
  then have "c \<le> c'" "m \<le> c'" by (auto simp: rob_next_def split: if_splits)
  then show ?case using Cons.IH [of c' n'] by (fastforce simp: e)
qed simp

lemma rob_cycles_width:
  "0 < W \<Longrightarrow> n \<le> W \<Longrightarrow> count_list (rob_cycles W (c, n) ms) d \<le> (if d < c then 0 else if d = c then W - n else W + 1)"
proof (induction ms arbitrary: c n)
  case (Cons m ms)
  obtain c' n' where e: "rob_next W m (c, n) = (c', n')" by (metis surj_pair)
  have "n' \<le> W" using e Cons.prems by (auto simp: rob_next_def split: if_splits)
  from Cons.IH [OF Cons.prems(1) this, of c'] show ?case using e Cons.prems by (auto simp: rob_next_def split: if_splits)
qed simp

lemma rob_cycles_length [simp]: "length (rob_cycles W st ms) = length ms"
  by (induction ms arbitrary: st) auto

text \<open>C20. In-order retirement and the reorder buffer's back-pressure: any run of retirements succeeds; micro-ops retire in program order, none
  before its own completion, and at most W + 1 of them in one cycle (one more than the width: when a cycle is full the counter of the next one
  starts at 0 with a micro-op already in it); and the next allocation waits for the retirement of the micro-op SZ places before.\<close>

theorem rob_retires_in_order:
  assumes "0 < SZ" "0 < W"
  shows "\<exists>cs r. rob_run SZ W ms (ReorderBuffer_init SZ) = Inr (cs, r) \<and> sorted cs \<and> list_all2 (\<le>) ms cs \<and>
    (\<forall>c. count_list cs c \<le> W + 1) \<and> rob_minAllocCycle r = Inr (waits_for SZ cs)"
proof -
  let ?cs = "rob_cycles W (0, 1) ms"
  have i: "ring_holds SZ [] (rob_buf (ReorderBuffer_init SZ)) (rob_idx (ReorderBuffer_init SZ))"
    using ring_init [OF assms(1)] by (simp add: ReorderBuffer_init_def)
  from rob_run_cycles [OF i, of W ms] obtain r where r: "rob_run SZ W ms (ReorderBuffer_init SZ) = Inr (?cs, r)"
    "ring_holds SZ ?cs (rob_buf r) (rob_idx r)" by (auto simp: ReorderBuffer_init_def)
  have "count_list ?cs c \<le> W + 1" for c using rob_cycles_width [of W 1 0 ms c] assms(2) by (simp split: if_splits)
  then show ?thesis using r rob_cycles_sorted [of W 0 1 ms] ring_read [OF r(2)] by (intro exI [of _ ?cs] exI [of _ r]) (simp add: rob_minAllocCycle_def)
qed

theorem rob_retires_in_order_witness:
  "(\<exists>cs r. rob_run 128 4 (replicate 9 0) (ReorderBuffer_init 128) = Inr (cs, r) \<and> sorted cs \<and> list_all2 (\<le>) (replicate 9 0) cs \<and>
    (\<forall>c. count_list cs c \<le> 5) \<and> rob_minAllocCycle r = Inr (waits_for 128 cs)) \<and>
   count_list (rob_cycles 4 (0, 1) (replicate 9 0)) 1 = 5"
proof -
  have "count_list (rob_cycles 4 (0, 1) (replicate 9 0)) 1 = 5" by (simp add: rob_next_def numeral_eq_Suc)
  then show ?thesis using rob_retires_in_order [of 128 4 "replicate 9 0"] by simp
qed

text \<open>The cycle queue is the same ring, without a width.\<close>

fun cq_run :: "nat \<Rightarrow> nat list \<Rightarrow> CycleQueue \<Rightarrow> CycleQueue res" where
  "cq_run SZ [] q = Inr q"
| "cq_run SZ (c # cs) q = rbind (markLeave SZ c q) (cq_run SZ cs)"

lemma cq_run_waits:
  assumes "ring_holds SZ hist (cq_buf q) (cq_idx q)"
  shows "\<exists>q'. cq_run SZ cs q = Inr q' \<and> ring_holds SZ (hist @ cs) (cq_buf q') (cq_idx q')"
  using assms
proof (induction cs arbitrary: q hist)
  case (Cons c cs)
  have i: "cq_idx q < length (cq_buf q)" using Cons.prems by (simp add: ring_holds_def)
  let ?q = "q\<lparr>cq_buf := (cq_buf q)[cq_idx q := c], cq_idx := (if cq_idx q + 1 = SZ then 0 else cq_idx q + 1)\<rparr>"
  have m: "markLeave SZ c q = Inr ?q" using i by (simp add: markLeave_def aput_def)
  have "ring_holds SZ (hist @ [c]) (cq_buf ?q) (cq_idx ?q)" using ring_push [OF Cons.prems, of c] by simp
  from Cons.IH [OF this] show ?case using m by simp
qed simp
subsection \<open>A whole request to the window\<close>

lemma room_bound:
  assumes i: "win_inv H WSZ K (cyc, s)" and w: "0 < WSZ" and f: "occupancy s < WSZ \<longrightarrow> cyc' = cyc"
    and z: "\<forall>c. cyc \<le> c \<and> c + 1 < cyc' \<longrightarrow> wc_count (win_table H cyc s c) = 0"
  shows "cyc' \<le> max cyc K"
proof (rule ccontr)
  assume n: "\<not> cyc' \<le> max cyc K"
  then have "occupancy s = WSZ" using f i by (fastforce simp: win_inv_def)
  moreover have "wc_count (win_table H cyc s c) = 0" if "c < K" for c
  proof (cases "c < cyc")
    case True
    then show ?thesis using i table_past [of H cyc s c] by (simp add: win_inv_def wc0_def)
  qed (use z n that in auto)
  ultimately show False using i w by (simp add: win_inv_def counts_to_def)
qed

lemma win_schedule_spec:
  assumes i: "win_inv H WSZ K (cyc, s)" and w: "0 < WSZ" and pm: "pm \<noteq> 0" and n: "K - cyc \<le> fuel"
    and near: "max (max sched cyc) K + 2 * extra + H + 1 < cyc + 2 ^ 32"
  shows "\<exists>cyc' r s' T K'. win_schedule fuel H WSZ pm extra (cyc, sched, s) = Inr (cyc', r, s') \<and> cyc \<le> cyc' \<and>
    T = (\<lambda>c. if c < cyc' then wc0 else win_table H cyc s c) \<and> (occupancy s < WSZ \<longrightarrow> cyc' = cyc) \<and>
    (\<forall>c. cyc \<le> c \<and> c + 1 < cyc' \<longrightarrow> wc_count (win_table H cyc s c) = 0) \<and> earliest_free T pm (max sched cyc') r \<and>
    wc_grows (T(r := trySchedule True pm (T r))) (win_table H cyc' s') \<and>
    (extra = 0 \<longrightarrow> win_table H cyc' s' = T(r := trySchedule True pm (T r))) \<and>
    win_inv H WSZ K' (cyc', s') \<and> K' \<le> max (max sched cyc) K + 2 * extra + 2 \<and> r \<le> max (max sched cyc) K \<and> cyc' \<le> max cyc K"
proof -
  let ?M = "max (max sched cyc) K"
  have "2 * H < 2 ^ 32" using i by (simp add: win_inv_def win_shape_def)
  moreover have "sched + H < cyc + 2 ^ 32" using near by simp
  ultimately have nr: "sched - cyc + H < 2 ^ 32" by linarith
  from schedule_touch [OF i w n pm nr, of "extra \<noteq> 0"] obtain cyc' r s1 T where t: "scheduleInternal fuel H WSZ True (extra \<noteq> 0) pm (cyc, sched, s) = Inr (cyc', r, s1)"
    "cyc \<le> cyc'" "T = (\<lambda>c. if c < cyc' then wc0 else win_table H cyc s c)" "occupancy s < WSZ \<longrightarrow> cyc' = cyc"
    "\<forall>c. cyc \<le> c \<and> c + 1 < cyc' \<longrightarrow> wc_count (win_table H cyc s c) = 0" "earliest_free T pm (max sched cyc') r"
    "win_table H cyc' s1 = T(r := trySchedule True pm (T r))" "win_inv H WSZ (max K (Suc r)) (cyc', s1)" "extra \<noteq> 0 \<longrightarrow> lastPort s1 < 8" by blast
  have cb: "cyc' \<le> max cyc K" using room_bound [OF i w t(4,5)] .
  have "r \<le> max (max sched cyc') K"
    by (rule earliest_bound [OF t(6) pm]) (use i in \<open>auto simp: t(3) win_inv_def counts_to_def\<close>)
  then have rb: "r \<le> ?M" using cb by auto
  have f: "win_schedule fuel H WSZ pm extra (cyc, sched, s) = Inr (cyc', r, s')"
    if "extra_slots extra H WSZ (push_bit (lastPort s1) 1) (cyc', r + 1, s1) = Inr (cyc', s')" "win_inv H WSZ K' (cyc', s')" for s' K'
    using t(1) that by (simp add: win_schedule_def win_inv_def)
  show ?thesis
  proof (cases "extra = 0")
    case True
    then have e: "extra_slots extra H WSZ (push_bit (lastPort s1) 1) (cyc', r + 1, s1) = Inr (cyc', s1)" by simp
    have "wc_grows (T(r := trySchedule True pm (T r))) (win_table H cyc' s1)" unfolding t(7) by (rule wc_grows_refl)
    moreover have "max K (Suc r) \<le> ?M + 2 * extra + 2" using rb by auto
    ultimately show ?thesis using f [OF e t(8)] t(2-8) rb cb by blast
  next
    case False
    then have bb: "bit (push_bit (lastPort s1) 1 :: 8 word) (lastPort s1)" using t(9) by (simp add: bit_simps)
    have p: "push_bit (lastPort s1) 1 \<noteq> (0 :: 8 word)"
    proof
      assume z: "push_bit (lastPort s1) 1 = (0 :: 8 word)"
      show False using bb unfolding z by simp
    qed
    have mx: "max (max (r + 1) cyc') (max K (Suc r)) \<le> ?M + 1" using rb cb by auto
    then have b: "max (max (r + 1) cyc') (max K (Suc r)) + 2 * extra + H < cyc' + 2 ^ 32" using near t(2) by (simp only: ac_simps)
    from extra_slots_spec [OF t(8) p b] obtain K' s' where k: "extra_slots extra H WSZ (push_bit (lastPort s1) 1) (cyc', r + 1, s1) = Inr (cyc', s')"
      "win_inv H WSZ K' (cyc', s')" "K' \<le> max (max (r + 1) cyc') (max K (Suc r)) + 2 * extra"
      "wc_grows (win_table H cyc' s1) (win_table H cyc' s')" by blast
    have "K' \<le> ?M + 2 * extra + 2" using order_trans [OF k(3) add_right_mono [OF mx]] by linarith
    then show ?thesis using f [OF k(1,2)] t(2-6) k(2) k(4) [unfolded t(7)] False rb cb by blast
  qed
qed


lemma window_init_inv: "0 < H \<Longrightarrow> 2 * H < 2 ^ 32 \<Longrightarrow> win_inv H WSZ 0 (cyc, WindowStructure_init H junk)"
  by (auto simp: win_inv_def win_shape_def WindowStructure_init_def counts_to_def win_table_def Let_def)


subsection \<open>Advancing the window\<close>

lemma win_drain_spec:
  assumes "win_inv H WSZ K (cyc, s)"
  shows "\<exists>cyc' s'. win_drain H target (cyc, s) = Inr (cyc', s') \<and> win_inv H WSZ K (cyc', s') \<and> cyc \<le> cyc' \<and> cyc' \<le> max cyc target \<and>
    win_table H cyc' s' = (\<lambda>c. if c < cyc' then wc0 else win_table H cyc s c) \<and> (occupancy s' = 0 \<or> target \<le> cyc')"
  using assms
proof (induction H target "(cyc, s)" arbitrary: cyc s rule: win_drain.induct)
  case (1 H target cyc s)
  show ?case
  proof (cases "occupancy s \<noteq> 0 \<and> cyc < target")
    case False
    have "win_table H cyc s = (\<lambda>c. if c < cyc then wc0 else win_table H cyc s c)"
      using 1(2) table_past [of H cyc s] by (auto simp: win_inv_def fun_eq_iff)
    then show ?thesis using False 1(2) by (subst win_drain.simps) auto
  next
    case True
    from advancePos_inv [OF 1(2)] obtain s1 where s1: "advancePos H (cyc, s) = Inr (cyc + 1, s1)" "win_inv H WSZ K (cyc + 1, s1)"
      "win_table H (cyc + 1) s1 = (win_table H cyc s)(cyc := wc0)" by blast
    from 1(1) [OF True s1(1,2)] obtain cyc' s' where r: "win_drain H target (cyc + 1, s1) = Inr (cyc', s')" "win_inv H WSZ K (cyc', s')"
      "cyc + 1 \<le> cyc'" "cyc' \<le> max (cyc + 1) target" "win_table H cyc' s' = (\<lambda>c. if c < cyc' then wc0 else win_table H (cyc + 1) s1 c)"
      "occupancy s' = 0 \<or> target \<le> cyc'" by blast
    have e: "win_drain H target (cyc, s) = Inr (cyc', s')" using True s1(1) r(1) by (subst win_drain.simps) simp
    have t: "win_table H cyc' s' = (\<lambda>c. if c < cyc' then wc0 else win_table H cyc s c)" unfolding r(5) s1(3) using r(3) by auto
    show ?thesis using e t r(2-4,6) True by (intro exI [of _ cyc'] exI [of _ s']) auto
  qed
qed

text \<open>A long advance ends exactly at its target and drops the cycles before it; when the window drained on the way, the reservations that are
  left, extra slots of micro-ops that have gone, move along with the jump.\<close>

lemma longAdvance_spec:
  assumes i: "win_inv H WSZ K (cyc, s)" and t: "cyc \<le> target"
  shows "\<exists>s'. longAdvance H target (cyc, s) = Inr (target, s') \<and> occupancy s' \<le> occupancy s \<and> (ubWin s' = [] \<longrightarrow> (\<exists>K'. win_inv H WSZ K' (target, s')))"
proof -
  from win_drain_spec [OF i, of target] obtain cyc' s' where r: "win_drain H target (cyc, s) = Inr (cyc', s')" "win_inv H WSZ K (cyc', s')"
    "cyc \<le> cyc'" "cyc' \<le> max cyc target" "win_table H cyc' s' = (\<lambda>c. if c < cyc' then wc0 else win_table H cyc s c)"
    "occupancy s' = 0 \<or> target \<le> cyc'" by blast
  have le: "cyc' \<le> target" using r(4) t by simp
  have e: "longAdvance H target (cyc, s) = Inr (target, s')"
  proof (cases "occupancy s' = 0")
    case False
    then have "cyc' = target" using r(6) le by linarith
    then show ?thesis using False t r(1) by (simp add: longAdvance_def)
  qed (use t r(1) le in \<open>simp add: longAdvance_def\<close>)
  have c: "counts_to (win_table H cyc s) K (occupancy s)" "counts_to (win_table H cyc' s') K (occupancy s')" using i r(2) by (auto simp: win_inv_def)
  have "occupancy s' \<le> occupancy s"
  proof -
    have "(\<Sum>d < K. wc_count (win_table H cyc' s' d)) \<le> (\<Sum>d < K. wc_count (win_table H cyc s d))"
      unfolding r(5) by (rule sum_mono) (simp add: wc0_def)
    then show ?thesis using c by (simp add: counts_to_def)
  qed
  moreover have "\<exists>K'. win_inv H WSZ K' (target, s')" if u: "ubWin s' = []"
  proof (cases "occupancy s' = 0")
    case False
    then have "cyc' = target" using r(6) le by linarith
    then show ?thesis using r(2) by blast
  next
    case True
    have sh: "win_shape H cyc' s'" using r(2) by (simp add: win_inv_def)
    have z: "wc_count (win_table H cyc' s' c) = 0" for c
      using c(2) True by (cases "c < K") (auto simp: counts_to_def wc0_def)
    have sht: "win_shape H target s'" using sh le by (auto simp: win_shape_def u)
    have T: "win_table H target s' (target + d) = win_table H cyc' s' (cyc' + d)" for d
    proof -
      define p where "p = curPos s'"
      define b where "b = cyc' - p"
      define b' where "b' = target - p"
      have p: "p \<le> cyc'" using sh by (simp add: win_shape_def p_def)
      then have e1: "target + d = b' + (p + d)" "cyc' + d = b + (p + d)" using le by (simp_all add: b_def b'_def)
      have "(if b' + x < b' then wc0 else if b' + x < b' + H then curWin s' ! (b' + x - b') else if b' + x < b' + 2 * H then nextWin s' ! (b' + x - b' - H) else wc0) =
        (if b + x < b then wc0 else if b + x < b + H then curWin s' ! (b + x - b) else if b + x < b + 2 * H then nextWin s' ! (b + x - b - H) else wc0)" for x
        by simp
      then show ?thesis unfolding win_table_def Let_def u p_def [symmetric] b_def [symmetric] b'_def [symmetric] e1 by simp
    qed
    have "win_table H target s' c = wc0" if "K + target \<le> c" for c
      using T [of "c - target"] c(2) that by (simp add: counts_to_def)
    moreover have "wc_count (win_table H target s' c) = 0" for c
      using T [of "c - target"] z table_past [OF sht, of c] by (cases "c < target") (auto simp: wc0_def)
    ultimately have "counts_to (win_table H target s') (K + target) 0" by (simp add: counts_to_def)
    then show ?thesis using True sht by (intro exI [of _ "K + target"]) (simp add: win_inv_def)
  qed
  ultimately show ?thesis using e by blast
qed


end
