(* ===== verification/OooCore.thy ===== *)
theory OooCore
  imports OooParts
begin

text \<open>
  The out-of-order core (ooo_core.cpp, with the micro-ops of decoder.h and the basic blocks of core.h): instruction-driven simulation of
  one basic block at a time, from decode to retirement, then the fetch of the next one.

  What the core calls, the two filter caches and its recorder, is a table of operations \<open>core_ports\<close> over their state.  Cycles are
  natural numbers; differences the code keeps in 32 bits, or takes without a guard in 64, wrap as there.  \<open>NREG\<close> is
  \<open>MAX_REGISTERS\<close>, which depends on the Pin kit.  Stall statistics and the back-pressure option are compiled out.
\<close>

subsection \<open>Micro-ops and basic blocks\<close>

datatype UopType = UOP_GENERAL | UOP_LOAD | UOP_STORE | UOP_STORE_ADDR | UOP_FENCE

record DynUop =
  uop_rs0 :: nat
  uop_rs1 :: nat
  uop_rd0 :: nat
  uop_rd1 :: nat
  uop_lat :: nat
  uop_decCycle :: nat
  uop_type :: UopType
  uop_portMask :: "8 word"
  uop_extraSlots :: nat

record BblInfo =
  bbl_instrs :: nat
  bbl_bytes :: nat
  bbl_approxInstrs :: nat
  bbl_uop :: "DynUop list"

subsection \<open>The core\<close>

record FwdEntry =
  fwd_addr :: u64
  storeCycle :: nat

record OOOCore =
  phaseEndCycle :: nat
  oc_curCycle :: nat
  regScoreboard :: "nat list"
  prevBbl :: "BblInfo option"
  loadAddrs :: "u64 list"
  storeAddrs :: "u64 list"
  loads :: nat
  stores :: nat
  lastStoreCommitCycle :: nat
  lastStoreAddrCommitCycle :: nat
  loadQueue :: ReorderBuffer
  storeQueue :: ReorderBuffer
  curCycleRFReads :: nat
  curCycleIssuedUops :: nat
  insWindow :: WindowStructure
  rob :: ReorderBuffer
  branchPred :: BranchPredictor
  branchPc :: u64
  branchTaken :: bool
  branchTakenNpc :: u64
  branchNotTakenNpc :: u64
  decodeCycle :: nat
  uopQueue :: CycleQueue
  oc_instrs :: nat
  oc_uops :: nat
  oc_bbls :: nat
  oc_approxInstrs :: nat
  mispredBranches :: nat
  condBranches :: nat
  fwdArray :: "FwdEntry list"

text \<open>The constructor, on memory with arbitrary contents: the counts of recorded loads and stores and the branch targets are not set.\<close>

definition OOOCore_init :: "nat \<Rightarrow> nat \<Rightarrow> OOOCore \<Rightarrow> OOOCore" where
  "OOOCore_init NREG phaseLength junk = junk\<lparr>
     decodeCycle := 4, oc_curCycle := 0, phaseEndCycle := phaseLength, regScoreboard := replicate NREG 0, prevBbl := None,
     lastStoreCommitCycle := 0, lastStoreAddrCommitCycle := 0, curCycleRFReads := 0, curCycleIssuedUops := 0, branchPc := 0,
     oc_instrs := 0, oc_uops := 0, oc_bbls := 0, oc_approxInstrs := 0, mispredBranches := 0, condBranches := 0,
     fwdArray := replicate 32 \<lparr>fwd_addr = - 1, storeCycle = 0\<rparr>, loadQueue := ReorderBuffer_init 32, storeQueue := ReorderBuffer_init 32,
     rob := ReorderBuffer_init 128, uopQueue := CycleQueue_init 28, branchPred := BranchPredictor_init 11 14,
     insWindow := WindowStructure_init 1024 (lastPort (insWindow junk))\<rparr>"

text \<open>The operations the core calls.\<close>

record 'm core_ports =
  l1i_load :: "u64 \<Rightarrow> nat \<Rightarrow> 'm \<Rightarrow> (nat \<times> 'm) res"
  l1d_load :: "u64 \<Rightarrow> nat \<Rightarrow> 'm \<Rightarrow> (nat \<times> 'm) res"
  l1d_store :: "u64 \<Rightarrow> nat \<Rightarrow> 'm \<Rightarrow> (nat \<times> 'm) res"
  cRec_record :: "nat \<Rightarrow> nat \<Rightarrow> nat \<Rightarrow> 'm \<Rightarrow> 'm res"

definition u64_sub :: "nat \<Rightarrow> nat \<Rightarrow> nat" where "u64_sub a b = (a + 2 ^ 64 - b) mod 2 ^ 64"

subsection \<open>Recording the memory accesses and the branch of a block\<close>

definition ooo_load :: "u64 \<Rightarrow> OOOCore \<Rightarrow> OOOCore res" where
  "ooo_load addr c = rbind (aput (loadAddrs c) (loads c) addr) (\<lambda>l. Inr (c\<lparr>loadAddrs := l, loads := loads c + 1\<rparr>))"

definition ooo_store :: "u64 \<Rightarrow> OOOCore \<Rightarrow> OOOCore res" where
  "ooo_store addr c = rbind (aput (storeAddrs c) (stores c) addr) (\<lambda>l. Inr (c\<lparr>storeAddrs := l, stores := stores c + 1\<rparr>))"

definition predFalseLoad :: "OOOCore \<Rightarrow> OOOCore res" where "predFalseLoad = ooo_load (- 1)"
definition predFalseStore :: "OOOCore \<Rightarrow> OOOCore res" where "predFalseStore = ooo_store (- 1)"

definition PredLoadFunc :: "u64 \<Rightarrow> bool \<Rightarrow> OOOCore \<Rightarrow> OOOCore res" where
  "PredLoadFunc addr pred c = (if pred then ooo_load addr c else predFalseLoad c)"

definition PredStoreFunc :: "u64 \<Rightarrow> bool \<Rightarrow> OOOCore \<Rightarrow> OOOCore res" where
  "PredStoreFunc addr pred c = (if pred then ooo_store addr c else predFalseStore c)"

definition ooo_branch :: "u64 \<Rightarrow> bool \<Rightarrow> u64 \<Rightarrow> u64 \<Rightarrow> OOOCore \<Rightarrow> OOOCore" where
  "ooo_branch pc taken takenNpc notTakenNpc c =
     c\<lparr>branchPc := pc, branchTaken := taken, branchTakenNpc := takenNpc, branchNotTakenNpc := notTakenNpc\<rparr>"

subsection \<open>Decode and issue of a micro-op\<close>

fun adv_n :: "nat \<Rightarrow> nat \<times> WindowStructure \<Rightarrow> (nat \<times> WindowStructure) res" where
  "adv_n 0 s = Inr s"
| "adv_n (Suc n) s = rbind (advancePos 1024 s) (adv_n n)"

text \<open>Advance the issue point: the counters of the cycle start anew.\<close>

definition core_advance :: "nat \<Rightarrow> OOOCore \<Rightarrow> OOOCore res" where
  "core_advance n c = rbind (adv_n n (oc_curCycle c, insWindow c)) (\<lambda>(cyc, w). Inr (c\<lparr>oc_curCycle := cyc, insWindow := w\<rparr>))"

definition decode_uop :: "DynUop \<Rightarrow> nat \<Rightarrow> OOOCore \<Rightarrow> OOOCore res" where
  "decode_uop u prevDecCycle c = rbind (cq_minAllocCycle (uopQueue c)) (\<lambda>q.
     let decDiff = u32_nat (uop_decCycle u + 2 ^ 32 - prevDecCycle); c1 = c\<lparr>decodeCycle := max (decodeCycle c + decDiff) q\<rparr> in
     rbind (if oc_curCycle c1 < decodeCycle c1
            then core_advance (u32_nat (decodeCycle c1 - oc_curCycle c1)) (c1\<lparr>curCycleIssuedUops := 0, curCycleRFReads := 0\<rparr>)
            else Inr c1) (\<lambda>c2.
     rbind (markLeave 28 (oc_curCycle c2) (uopQueue c2)) (\<lambda>uq. Inr (c2\<lparr>uopQueue := uq\<rparr>))))"

text \<open>The width of issue, and the reads of operands that come from the register file; the operands' cycles are returned.\<close>

definition issue_width :: "OOOCore \<Rightarrow> OOOCore res" where
  "issue_width c = rbind (if 4 \<le> curCycleIssuedUops c then core_advance 1 (c\<lparr>curCycleIssuedUops := 0, curCycleRFReads := 0\<rparr>) else Inr c)
     (\<lambda>c1. Inr (c1\<lparr>curCycleIssuedUops := curCycleIssuedUops c1 + 1\<rparr>))"

definition read_operands :: "DynUop \<Rightarrow> OOOCore \<Rightarrow> (nat \<times> nat \<times> OOOCore) res" where
  "read_operands u c = rbind (aput (regScoreboard c) 0 (oc_curCycle c)) (\<lambda>sb.
     rbind (aget sb (uop_rs0 u)) (\<lambda>c0. rbind (aget sb (uop_rs1 u)) (\<lambda>c1.
       let reads = curCycleRFReads c + (if c0 < oc_curCycle c then 1 else 0) + (if c1 < oc_curCycle c then 1 else 0);
           k = c\<lparr>regScoreboard := sb, curCycleRFReads := reads\<rparr> in
       rbind (if 3 < reads then core_advance 1 (k\<lparr>curCycleRFReads := reads - 3, curCycleIssuedUops := 0\<rparr>) else Inr k)
         (\<lambda>k1. Inr (c0, c1, k1)))))"

text \<open>Dispatch: after the operands, after a place in the reorder buffer, six cycles after issue, and on a free port.\<close>

definition dispatch_uop :: "nat \<Rightarrow> DynUop \<Rightarrow> nat \<Rightarrow> nat \<Rightarrow> OOOCore \<Rightarrow> (nat \<times> OOOCore) res" where
  "dispatch_uop fuel u c0 c1 c = rbind (rob_minAllocCycle (rob c)) (\<lambda>c2.
     let c3 = oc_curCycle c in
     rbind (win_schedule fuel 1024 36 (uop_portMask u) (uop_extraSlots u) (c3, max (max c0 c1) (max c2 c3 + 6), insWindow c)) (\<lambda>(cyc, disp, w).
       let k = c\<lparr>oc_curCycle := cyc, insWindow := w\<rparr> in
       Inr (disp, if c3 < cyc then k\<lparr>curCycleIssuedUops := 0, curCycleRFReads := 0\<rparr> else k)))"

subsection \<open>Execution\<close>

definition fwd_idx :: "u64 \<Rightarrow> nat" where "fwd_idx a = unat (drop_bit 2 a AND 31)"

definition exec_load :: "'m core_ports \<Rightarrow> nat \<Rightarrow> nat \<Rightarrow> OOOCore \<times> 'm \<Rightarrow> (nat \<times> OOOCore \<times> 'm) res" where
  "exec_load ports disp0 loadIdx = (\<lambda>(c, m).
     rbind (rob_minAllocCycle (loadQueue c)) (\<lambda>lq.
     let disp = max (lastStoreAddrCommitCycle c + 1) (max lq disp0) in
     rbind (aget (loadAddrs c) loadIdx) (\<lambda>addr.
     rbind (if addr \<noteq> - 1
            then rbind (l1d_load ports addr disp m) (\<lambda>(r, m1). rbind (cRec_record ports (oc_curCycle c) disp (r + 4) m1) (\<lambda>m2. Inr (r + 4, m2)))
            else Inr (disp, m)) (\<lambda>(sat, m1).
     rbind (aget (fwdArray c) (fwd_idx addr)) (\<lambda>e.
     let commit = (if fwd_addr e = addr then max sat (storeCycle e) else sat) in
     rbind (markRetire 32 4 commit (loadQueue c)) (\<lambda>q. Inr (commit, c\<lparr>loadQueue := q\<rparr>, m1)))))))"

definition exec_store :: "'m core_ports \<Rightarrow> nat \<Rightarrow> nat \<Rightarrow> OOOCore \<times> 'm \<Rightarrow> (nat \<times> OOOCore \<times> 'm) res" where
  "exec_store ports disp0 storeIdx = (\<lambda>(c, m).
     rbind (rob_minAllocCycle (storeQueue c)) (\<lambda>sq.
     let disp = max (lastStoreAddrCommitCycle c + 1) (max sq disp0) in
     rbind (aget (storeAddrs c) storeIdx) (\<lambda>addr.
     rbind (l1d_store ports addr disp m) (\<lambda>(r, m1). let sat = r + 4 in
     rbind (cRec_record ports (oc_curCycle c) disp sat m1) (\<lambda>m2.
     rbind (aput (fwdArray c) (fwd_idx addr) \<lparr>fwd_addr = addr, storeCycle = sat\<rparr>) (\<lambda>fa.
     rbind (markRetire 32 4 sat (storeQueue c)) (\<lambda>q.
       Inr (sat, c\<lparr>fwdArray := fa, lastStoreCommitCycle := max (lastStoreCommitCycle c) sat, storeQueue := q\<rparr>, m2))))))))"

text \<open>The micro-op's commit cycle, and the next load and store of the block.\<close>

definition exec_uop :: "'m core_ports \<Rightarrow> DynUop \<Rightarrow> nat \<Rightarrow> nat \<times> nat \<Rightarrow> OOOCore \<times> 'm \<Rightarrow> (nat \<times> (nat \<times> nat) \<times> OOOCore \<times> 'm) res" where
  "exec_uop ports u disp = (\<lambda>(li, si) (c, m). let done = disp + uop_lat u in
     case uop_type u of
       UOP_GENERAL \<Rightarrow> Inr (done, (li, si), c, m)
     | UOP_LOAD \<Rightarrow> rbind (exec_load ports disp li (c, m)) (\<lambda>(commit, s). Inr (commit, (li + 1, si), s))
     | UOP_STORE \<Rightarrow> rbind (exec_store ports disp si (c, m)) (\<lambda>(commit, s). Inr (commit, (li, si + 1), s))
     | UOP_STORE_ADDR \<Rightarrow> Inr (done, (li, si), c\<lparr>lastStoreAddrCommitCycle := max (lastStoreAddrCommitCycle c) done\<rparr>, m)
     | UOP_FENCE \<Rightarrow> Inr (done, (li, si),
         c\<lparr>lastStoreAddrCommitCycle := max done (max (lastStoreAddrCommitCycle c) (lastStoreCommitCycle c + uop_lat u))\<rparr>, m))"

definition retire_uop :: "DynUop \<Rightarrow> nat \<Rightarrow> OOOCore \<Rightarrow> OOOCore res" where
  "retire_uop u commit c = rbind (markRetire 128 4 commit (rob c)) (\<lambda>r.
     rbind (aput (regScoreboard c) (uop_rd0 u) commit) (\<lambda>sb. rbind (aput sb (uop_rd1 u) commit) (\<lambda>sb1.
       Inr (c\<lparr>rob := r, regScoreboard := sb1\<rparr>))))"

text \<open>One micro-op, from decode to retirement; the state of the loop is the previous decode cycle, the load and store indices and the last commit.\<close>

record bbl_loop =
  prevDec :: nat
  mem_idx :: "nat \<times> nat"
  lastCommit :: nat

definition ooo_uop :: "'m core_ports \<Rightarrow> nat \<Rightarrow> DynUop \<Rightarrow> bbl_loop \<times> OOOCore \<times> 'm \<Rightarrow> (bbl_loop \<times> OOOCore \<times> 'm) res" where
  "ooo_uop ports fuel u = (\<lambda>(l, c, m).
     rbind (decode_uop u (prevDec l) c) (\<lambda>c1. rbind (issue_width c1) (\<lambda>c2. rbind (read_operands u c2) (\<lambda>(r0, r1, c3).
     rbind (dispatch_uop fuel u r0 r1 c3) (\<lambda>(disp, c4). rbind (exec_uop ports u disp (mem_idx l) (c4, m)) (\<lambda>(commit, idx, c5, m1).
     rbind (retire_uop u commit c5) (\<lambda>c6. Inr (\<lparr>prevDec = uop_decCycle u, mem_idx = idx, lastCommit = commit\<rparr>, c6, m1))))))))"

fun ooo_uops :: "'m core_ports \<Rightarrow> nat \<Rightarrow> DynUop list \<Rightarrow> bbl_loop \<times> OOOCore \<times> 'm \<Rightarrow> (bbl_loop \<times> OOOCore \<times> 'm) res" where
  "ooo_uops ports fuel [] s = Inr s"
| "ooo_uops ports fuel (u # us) s = rbind (ooo_uop ports fuel u s) (ooo_uops ports fuel us)"

subsection \<open>Branch prediction and fetch\<close>

text \<open>The lines fetched on the wrong path, up to five lines of 64 bytes, until one answers after the branch is resolved.\<close>

fun wrong_path :: "'m core_ports \<Rightarrow> nat \<Rightarrow> nat \<Rightarrow> nat \<Rightarrow> nat \<Rightarrow> u64 \<Rightarrow> nat \<Rightarrow> nat \<Rightarrow> 'm \<Rightarrow> 'm res" where
  "wrong_path ports lineSize cur lastCommitCycle 0 a i req m = Inr m"
| "wrong_path ports lineSize cur lastCommitCycle (Suc n) a i req m =
     rbind (l1i_load ports (a + of_nat (lineSize * i)) cur m) (\<lambda>(r, m1). let lat = u64_sub r cur; resp = req + lat in
     rbind (cRec_record ports cur cur (cur + lat) m1) (\<lambda>m2.
       if lastCommitCycle < resp then Inr m2 else wrong_path ports lineSize cur lastCommitCycle n a (i + 1) (resp + lineSize div 16) m2))"

definition predict_branch :: "'m core_ports \<Rightarrow> nat \<Rightarrow> nat \<Rightarrow> nat \<Rightarrow> OOOCore \<times> 'm \<Rightarrow> (nat \<times> OOOCore \<times> 'm) res" where
  "predict_branch ports lineSize lastCommitCycle fetch = (\<lambda>(c, m).
     if branchPc c = 0 then Inr (fetch, c, m)
     else rbind (bp_predict 11 18 14 (branchPc c) (branchTaken c) (branchPred c)) (\<lambda>(hit, bp).
       let c1 = c\<lparr>condBranches := condBranches c + 1, branchPred := bp\<rparr> in
       if hit then Inr (fetch, c1\<lparr>branchPc := 0\<rparr>, m)
       else (let wrong = (if branchTaken c then branchNotTakenNpc c else branchTakenNpc c) in
         rbind (wrong_path ports lineSize (oc_curCycle c) lastCommitCycle (5 * 64 div lineSize) wrong 0 fetch m) (\<lambda>m1.
           Inr (lastCommitCycle, c1\<lparr>mispredBranches := mispredBranches c + 1, branchPc := 0\<rparr>, m1)))))"

text \<open>The lines of the next block.\<close>

fun fetch_lines :: "'m core_ports \<Rightarrow> nat \<Rightarrow> nat \<Rightarrow> nat \<Rightarrow> u64 \<Rightarrow> u64 \<Rightarrow> nat \<Rightarrow> 'm \<Rightarrow> (nat \<times> 'm) res" where
  "fetch_lines ports 0 lineSize cur a endAddr fetch m = (if a < endAddr then Inl OutOfFuel else Inr (fetch, m))"
| "fetch_lines ports (Suc n) lineSize cur a endAddr fetch m =
     (if a < endAddr
      then rbind (l1i_load ports a cur m) (\<lambda>(r, m1). let lat = u64_sub r cur in
           rbind (cRec_record ports cur cur (cur + lat) m1) (fetch_lines ports n lineSize cur (a + of_nat lineSize) endAddr (fetch + lat)))
      else Inr (fetch, m))"

text \<open>One basic block: simulate the previous one, then fetch this one.\<close>

definition ooo_bbl :: "'m core_ports \<Rightarrow> nat \<Rightarrow> nat \<Rightarrow> u64 \<Rightarrow> BblInfo \<Rightarrow> OOOCore \<times> 'm \<Rightarrow> (OOOCore \<times> 'm) res" where
  "ooo_bbl ports fuel lineBits bblAddr info = (\<lambda>(c, m).
     case prevBbl c of
       None \<Rightarrow> Inr (c\<lparr>prevBbl := Some info, loads := 0, stores := 0\<rparr>, m)
     | Some bbl \<Rightarrow>
        rbind (ooo_uops ports fuel (bbl_uop bbl) (\<lparr>prevDec = 0, mem_idx = (0, 0), lastCommit = 0\<rparr>, c\<lparr>prevBbl := Some info\<rparr>, m)) (\<lambda>(l, c1, m1).
        let c2 = c1\<lparr>oc_instrs := oc_instrs c1 + bbl_instrs bbl, oc_uops := oc_uops c1 + length (bbl_uop bbl), oc_bbls := oc_bbls c1 + 1,
                    oc_approxInstrs := oc_approxInstrs c1 + bbl_approxInstrs bbl\<rparr>; lineSize = 2 ^ lineBits in
        check (fst (mem_idx l) = loads c2) AssertFailed (check (snd (mem_idx l) = stores c2) AssertFailed
        (rbind (predict_branch ports lineSize (lastCommit l) (u64_sub (decodeCycle c2) 3) (c2\<lparr>loads := 0, stores := 0\<rparr>, m1)) (\<lambda>(fetch, c3, m2).
         rbind (fetch_lines ports fuel lineSize (oc_curCycle c3) bblAddr (bblAddr + of_nat (bbl_bytes info)) fetch m2) (\<lambda>(fetch1, m3).
           Inr (c3\<lparr>decodeCycle := max (decodeCycle c3 + 1) (fetch1 + 3)\<rparr>, m3)))))))"

subsection \<open>Phases\<close>

definition ooo_advance :: "nat \<Rightarrow> OOOCore \<Rightarrow> OOOCore res" where
  "ooo_advance target c = check (oc_curCycle c < target) AssertFailed
     (rbind (longAdvance 1024 target (oc_curCycle c, insWindow c)) (\<lambda>(cyc, w). check (target = cyc) AssertFailed
       (Inr (c\<lparr>decodeCycle := decodeCycle c + (target - oc_curCycle c), oc_curCycle := cyc, insWindow := w, curCycleRFReads := 0, curCycleIssuedUops := 0\<rparr>))))"

text \<open>The recorder's answers to joining and to the two ends of the weave phase are cycles the core moves on to.\<close>

definition ooo_join :: "nat \<Rightarrow> nat \<Rightarrow> (nat \<Rightarrow> 'm \<Rightarrow> (nat \<times> 'm) res) \<Rightarrow> OOOCore \<times> 'm \<Rightarrow> (OOOCore \<times> 'm) res" where
  "ooo_join globPhaseCycles phaseLength recJoin = (\<lambda>(c, m).
     rbind (recJoin (oc_curCycle c) m) (\<lambda>(target, m1).
     rbind (if oc_curCycle c < target then ooo_advance target c else Inr c) (\<lambda>c1.
       Inr (c1\<lparr>phaseEndCycle := globPhaseCycles + phaseLength\<rparr>, m1))))"

definition ooo_leave :: "(nat \<Rightarrow> 'm \<Rightarrow> 'm res) \<Rightarrow> OOOCore \<times> 'm \<Rightarrow> (OOOCore \<times> 'm) res" where
  "ooo_leave recLeave = (\<lambda>(c, m). rbind (recLeave (oc_curCycle c) m) (\<lambda>m1. Inr (c, m1)))"

definition ooo_cSim :: "(nat \<Rightarrow> 'm \<Rightarrow> (nat \<times> 'm) res) \<Rightarrow> OOOCore \<times> 'm \<Rightarrow> (OOOCore \<times> 'm) res" where
  "ooo_cSim recSim = (\<lambda>(c, m).
     rbind (recSim (oc_curCycle c) m) (\<lambda>(target, m1). check (oc_curCycle c \<le> target) AssertFailed
       (rbind (if oc_curCycle c < target then ooo_advance target c else Inr c) (\<lambda>c1. Inr (c1, m1)))))"

definition ooo_contextSwitch :: "int \<Rightarrow> ('m \<Rightarrow> 'm) \<Rightarrow> OOOCore \<times> 'm \<Rightarrow> OOOCore \<times> 'm" where
  "ooo_contextSwitch gid flush = (\<lambda>(c, m). if gid = - 1 then (c\<lparr>prevBbl := None\<rparr>, flush m) else (c, m))"

definition ooo_getPhaseCycles :: "nat \<Rightarrow> OOOCore \<Rightarrow> nat" where
  "ooo_getPhaseCycles phaseLength c = oc_curCycle c mod phaseLength"

text \<open>Phase ends that a block ran over: one barrier each, until the core is behind the end again or belongs to another thread.\<close>

fun phase_barriers :: "nat \<Rightarrow> nat \<Rightarrow> (OOOCore \<times> 'm \<Rightarrow> (bool \<times> OOOCore \<times> 'm) res) \<Rightarrow> OOOCore \<times> 'm \<Rightarrow> (OOOCore \<times> 'm) res" where
  "phase_barriers 0 phaseLength barrier (c, m) = (if phaseEndCycle c < oc_curCycle c then Inl OutOfFuel else Inr (c, m))"
| "phase_barriers (Suc n) phaseLength barrier (c, m) =
     (if phaseEndCycle c < oc_curCycle c
      then rbind (barrier (c\<lparr>phaseEndCycle := phaseEndCycle c + phaseLength\<rparr>, m)) (\<lambda>(same, s). if same then phase_barriers n phaseLength barrier s else Inr s)
      else Inr (c, m))"

definition BblFunc ::
  "'m core_ports \<Rightarrow> nat \<Rightarrow> nat \<Rightarrow> nat \<Rightarrow> (OOOCore \<times> 'm \<Rightarrow> (bool \<times> OOOCore \<times> 'm) res) \<Rightarrow> u64 \<Rightarrow> BblInfo \<Rightarrow> OOOCore \<times> 'm \<Rightarrow>
   (OOOCore \<times> 'm) res" where
  "BblFunc ports fuel lineBits phaseLength barrier bblAddr info s =
     rbind (ooo_bbl ports fuel lineBits bblAddr info s) (phase_barriers fuel phaseLength barrier)"

end
