(* ===== verification/OooExec.thy ===== *)
theory OooExec
  imports OooCore
begin

text \<open>
  The out-of-order core runs a basic block: the invariant of the core, what each stage of a micro-op does under it, and, inside the
  locale \<open>core_memory\<close> (the contract of the caches and the recorder towards the core), that a whole block runs to its end.
\<close>

subsection \<open>The invariant of the core\<close>

text \<open>All cycles the core remembers are at most a horizon; every index is in range; the window is consistent.\<close>

definition ring_ok :: "nat \<Rightarrow> nat \<Rightarrow> ReorderBuffer \<Rightarrow> bool" where
  "ring_ok SZ B r \<longleftrightarrow> length (rob_buf r) = SZ \<and> rob_idx r < SZ \<and> (\<forall>x \<in> set (rob_buf r). x \<le> B) \<and> curRetireCycle r \<le> B"

definition queue_ok :: "nat \<Rightarrow> nat \<Rightarrow> CycleQueue \<Rightarrow> bool" where
  "queue_ok SZ B q \<longleftrightarrow> length (cq_buf q) = SZ \<and> cq_idx q < SZ \<and> (\<forall>x \<in> set (cq_buf q). x \<le> B)"

definition bp_shape :: "BranchPredictor \<Rightarrow> bool" where
  "bp_shape b \<longleftrightarrow> length (bhsr b) = 2 ^ 11 \<and> length (pht b) = 2 ^ 14"

definition core_ok :: "nat \<Rightarrow> nat \<Rightarrow> OOOCore \<Rightarrow> bool" where
  "core_ok NREG B c \<longleftrightarrow> 0 < NREG \<and> length (regScoreboard c) = NREG \<and> (\<forall>x \<in> set (regScoreboard c). x \<le> B) \<and>
     length (loadAddrs c) = 256 \<and> length (storeAddrs c) = 256 \<and>
     lastStoreCommitCycle c \<le> B \<and> lastStoreAddrCommitCycle c \<le> B \<and> ring_ok 32 B (loadQueue c) \<and> ring_ok 32 B (storeQueue c) \<and>
     ring_ok 128 B (rob c) \<and> queue_ok 28 B (uopQueue c) \<and> bp_shape (branchPred c) \<and> 3 \<le> decodeCycle c \<and> decodeCycle c \<le> B \<and>
     length (fwdArray c) = 32 \<and> (\<forall>e \<in> set (fwdArray c). storeCycle e \<le> B) \<and> oc_curCycle c \<le> B \<and>
     (\<exists>K \<le> B. win_inv 1024 36 K (oc_curCycle c, insWindow c))"

text \<open>What the micro-ops of a block leave alone.\<close>

definition core_frame :: "OOOCore \<Rightarrow> OOOCore \<Rightarrow> bool" where
  "core_frame c c' \<longleftrightarrow> oc_curCycle c \<le> oc_curCycle c' \<and> prevBbl c' = prevBbl c \<and> loadAddrs c' = loadAddrs c \<and> storeAddrs c' = storeAddrs c \<and>
     loads c' = loads c \<and> stores c' = stores c \<and> branchPc c' = branchPc c \<and> branchTaken c' = branchTaken c \<and>
     branchTakenNpc c' = branchTakenNpc c \<and> branchNotTakenNpc c' = branchNotTakenNpc c \<and> oc_instrs c' = oc_instrs c \<and> oc_uops c' = oc_uops c \<and>
     oc_bbls c' = oc_bbls c \<and> oc_approxInstrs c' = oc_approxInstrs c \<and> mispredBranches c' = mispredBranches c \<and>
     condBranches c' = condBranches c \<and> phaseEndCycle c' = phaseEndCycle c"

lemma core_frame_refl [simp]: "core_frame c c" by (simp add: core_frame_def)
lemma core_frame_trans: "core_frame c c' \<Longrightarrow> core_frame c' c'' \<Longrightarrow> core_frame c c''" by (simp add: core_frame_def)

lemma core_ok_mono: "core_ok NREG B c \<Longrightarrow> B \<le> B' \<Longrightarrow> core_ok NREG B' c"
  unfolding core_ok_def ring_ok_def queue_ok_def by (meson order_trans)

lemma adv_n_ok: "win_inv 1024 36 K (cyc, w) \<Longrightarrow> \<exists>w'. adv_n n (cyc, w) = Inr (cyc + n, w') \<and> win_inv 1024 36 K (cyc + n, w')"
proof (induction n arbitrary: cyc w)
  case (Suc n)
  from advancePos_inv [OF Suc.prems] obtain w1 where w1: "advancePos 1024 (cyc, w) = Inr (cyc + 1, w1)" "win_inv 1024 36 K (cyc + 1, w1)" by blast
  from Suc.IH [OF w1(2)] show ?case using w1(1) by simp
qed simp

lemma core_advance_ok:
  assumes "core_ok NREG B c" "B \<le> B'" "oc_curCycle c + n \<le> B'"
  shows "\<exists>w'. core_advance n c = Inr (c\<lparr>oc_curCycle := oc_curCycle c + n, insWindow := w'\<rparr>) \<and>
    core_ok NREG B' (c\<lparr>oc_curCycle := oc_curCycle c + n, insWindow := w'\<rparr>)"
proof -
  have ok: "core_ok NREG B' c" by (rule core_ok_mono [OF assms(1,2)])
  then obtain K where K: "K \<le> B'" "win_inv 1024 36 K (oc_curCycle c, insWindow c)" by (auto simp: core_ok_def)
  from adv_n_ok [OF K(2), of n] obtain w' where "adv_n n (oc_curCycle c, insWindow c) = Inr (oc_curCycle c + n, w')"
    "win_inv 1024 36 K (oc_curCycle c + n, w')" by blast
  then show ?thesis using ok K(1) assms(3) by (intro exI [of _ w']) (auto simp: core_advance_def core_ok_def)
qed

lemma core_ok_counts [simp]:
  "core_ok NREG B (c\<lparr>curCycleIssuedUops := i, curCycleRFReads := j\<rparr>) = core_ok NREG B c"
  "core_ok NREG B (c\<lparr>curCycleIssuedUops := i\<rparr>) = core_ok NREG B c" "core_ok NREG B (c\<lparr>curCycleRFReads := j\<rparr>) = core_ok NREG B c"
  "core_ok NREG B (c\<lparr>curCycleRFReads := j, curCycleIssuedUops := i\<rparr>) = core_ok NREG B c"
  by (simp_all add: core_ok_def)

lemma queue_read: "queue_ok SZ B q \<Longrightarrow> \<exists>x \<le> B. cq_minAllocCycle q = Inr x"
  by (auto simp: queue_ok_def cq_minAllocCycle_def aget_def)

lemma set_update_le: "(\<forall>x \<in> set xs. x \<le> (B :: nat)) \<Longrightarrow> c \<le> B \<Longrightarrow> (\<forall>x \<in> set (xs[i := c]). x \<le> B)"
  by (auto dest!: set_update_subset_insert [THEN subsetD])

lemma queue_leave: "queue_ok SZ B q \<Longrightarrow> c \<le> B \<Longrightarrow> \<exists>q'. markLeave SZ c q = Inr q' \<and> queue_ok SZ B q'"
  using set_update_le [of "cq_buf q" B c "cq_idx q"] by (auto simp: queue_ok_def markLeave_def aput_def)

lemma ring_min: "ring_ok SZ B r \<Longrightarrow> \<exists>x \<le> B. rob_minAllocCycle r = Inr x"
  by (auto simp: ring_ok_def rob_minAllocCycle_def aget_def)

lemma ring_retire: "ring_ok SZ B r \<Longrightarrow> m \<le> B' \<Longrightarrow> B < B' \<Longrightarrow> \<exists>r'. markRetire SZ W m r = Inr r' \<and> ring_ok SZ B' r'"
proof -
  assume a: "ring_ok SZ B r" "m \<le> B'" "B < B'"
  obtain c n where cn: "(c, n) = rob_next W m (curRetireCycle r, curCycleRetires r)" by (metis surj_pair)
  then have c: "c \<le> B'" using a by (auto simp: rob_next_def ring_ok_def split: if_splits)
  have buf: "\<forall>x \<in> set ((rob_buf r)[rob_idx r := c]). x \<le> B'"
    by (rule set_update_le) (use a c in \<open>auto simp: ring_ok_def\<close>)
  define r1 where "r1 = (if m \<le> curRetireCycle r
    then if curCycleRetires r = W then r\<lparr>curRetireCycle := curRetireCycle r + 1, curCycleRetires := 0\<rparr> else r\<lparr>curCycleRetires := curCycleRetires r + 1\<rparr>
    else r\<lparr>curRetireCycle := m, curCycleRetires := 1\<rparr>)"
  have f: "curRetireCycle r1 = c" "rob_buf r1 = rob_buf r" "rob_idx r1 = rob_idx r"
    using cn by (auto simp: r1_def rob_next_def split: if_splits)
  show ?thesis unfolding markRetire_def Let_def r1_def [symmetric] f using a(1) buf c f(1) by (auto simp: aput_def ring_ok_def)
qed

subsection \<open>The steps of a micro-op\<close>

definition uop_ok :: "nat \<Rightarrow> DynUop \<Rightarrow> bool" where
  "uop_ok NREG u \<longleftrightarrow> uop_rs0 u < NREG \<and> uop_rs1 u < NREG \<and> uop_rd0 u < NREG \<and> uop_rd1 u < NREG \<and> uop_portMask u \<noteq> 0 \<and>
     uop_lat u < 2 ^ 16 \<and> uop_decCycle u < 2 ^ 16 \<and> uop_extraSlots u < 2 ^ 8"

lemma decode_uop_ok:
  assumes c: "core_ok NREG B c" and u: "uop_ok NREG u" "prev \<le> uop_decCycle u" and near: "B + 2 ^ 16 < oc_curCycle c + 2 ^ 32"
  shows "\<exists>c'. decode_uop u prev c = Inr c' \<and> core_ok NREG (B + 2 ^ 16) c' \<and> core_frame c c' \<and> decodeCycle c' \<le> oc_curCycle c'"
proof -
  let ?B = "B + 2 ^ 16"
  have q0: "queue_ok 28 B (uopQueue c)" "decodeCycle c \<le> B" "3 \<le> decodeCycle c" using c by (auto simp: core_ok_def)
  from queue_read [OF q0(1)] obtain q where q: "cq_minAllocCycle (uopQueue c) = Inr q" "q \<le> B" by blast
  have "u32_nat (uop_decCycle u + 2 ^ 32 - prev) = uop_decCycle u - prev"
    using u by (intro u32_nat_diff) (auto simp: uop_ok_def)
  then have dd: "u32_nat (uop_decCycle u + 2 ^ 32 - prev) < 2 ^ 16" using u by (auto simp: uop_ok_def)
  define dec where "dec = max (decodeCycle c + u32_nat (uop_decCycle u + 2 ^ 32 - prev)) q"
  have dec: "dec \<le> ?B" "3 \<le> dec" using dd q q0 by (auto simp: dec_def max_def)
  define c1 where "c1 = c\<lparr>decodeCycle := dec\<rparr>"
  have ok1: "core_ok NREG ?B c1" using core_ok_mono [OF c, of ?B] dec by (auto simp: core_ok_def c1_def)
  have dc: "decodeCycle c1 = dec" by (simp add: c1_def)
  define step where "step = (if oc_curCycle c1 < decodeCycle c1 then core_advance (u32_nat (decodeCycle c1 - oc_curCycle c1)) (c1\<lparr>curCycleIssuedUops := 0, curCycleRFReads := 0\<rparr>) else Inr c1)"
  obtain c2 where c2: "step = Inr c2" "core_ok NREG ?B c2" "core_frame c c2" "dec \<le> oc_curCycle c2" "decodeCycle c2 = dec"
  proof (cases "oc_curCycle c1 < dec")
    case True
    have n: "u32_nat (dec - oc_curCycle c1) = dec - oc_curCycle c1"
      using dec(1) near unfolding u32_nat_def by (intro mod_less) (simp add: c1_def)
    let ?k = "c1\<lparr>curCycleIssuedUops := 0, curCycleRFReads := 0\<rparr>"
    have "core_ok NREG ?B ?k" using ok1 by simp
    from core_advance_ok [OF this order_refl, of "dec - oc_curCycle c1"] dec(1) True obtain w where
      w: "core_advance (dec - oc_curCycle c1) ?k = Inr (?k\<lparr>oc_curCycle := dec, insWindow := w\<rparr>)" "core_ok NREG ?B (?k\<lparr>oc_curCycle := dec, insWindow := w\<rparr>)"
      by auto
    show ?thesis
      by (rule that [of "?k\<lparr>oc_curCycle := dec, insWindow := w\<rparr>"])
        (use w True n in \<open>simp_all add: step_def dc core_frame_def\<close>, simp_all add: c1_def)
  next
    case False
    show ?thesis by (rule that [of c1]) (use False ok1 in \<open>simp_all add: step_def dc core_frame_def\<close>, simp_all add: c1_def)
  qed
  have "queue_ok 28 ?B (uopQueue c2)" "oc_curCycle c2 \<le> ?B" using c2(2) by (auto simp: core_ok_def)
  from queue_leave [OF this] obtain q' where q': "markLeave 28 (oc_curCycle c2) (uopQueue c2) = Inr q'" "queue_ok 28 ?B q'" by blast
  have "decode_uop u prev c = Inr (c2\<lparr>uopQueue := q'\<rparr>)"
    using c2(1) q'(1) by (simp only: decode_uop_def q(1) rbind_simps Let_def dec_def [symmetric] c1_def [symmetric] step_def [symmetric])
  moreover have "core_ok NREG ?B (c2\<lparr>uopQueue := q'\<rparr>)" using c2(2) q'(2) by (auto simp: core_ok_def)
  ultimately show ?thesis using c2(3-5) by (auto simp: core_frame_def)
qed

lemma issue_width_ok:
  assumes "core_ok NREG B c"
  shows "\<exists>c'. issue_width c = Inr c' \<and> core_ok NREG (B + 1) c' \<and> core_frame c c' \<and> decodeCycle c' = decodeCycle c \<and>
    (if curCycleIssuedUops c < 4 then c' = c\<lparr>curCycleIssuedUops := curCycleIssuedUops c + 1\<rparr>
     else oc_curCycle c' = oc_curCycle c + 1 \<and> curCycleIssuedUops c' = 1 \<and> curCycleRFReads c' = 0)"
proof (cases "curCycleIssuedUops c < 4")
  case True
  have "core_ok NREG (B + 1) (c\<lparr>curCycleIssuedUops := curCycleIssuedUops c + 1\<rparr>)" using core_ok_mono [OF assms, of "B + 1"] by simp
  then show ?thesis using True by (simp add: issue_width_def core_frame_def)
next
  case False
  have cb: "oc_curCycle c \<le> B" using assms by (simp add: core_ok_def)
  let ?k = "c\<lparr>curCycleIssuedUops := 0, curCycleRFReads := 0\<rparr>"
  from core_advance_ok [of NREG B ?k "B + 1" 1] assms cb obtain w where
    w: "core_advance 1 ?k = Inr (?k\<lparr>oc_curCycle := oc_curCycle c + 1, insWindow := w\<rparr>)"
      "core_ok NREG (B + 1) (?k\<lparr>oc_curCycle := oc_curCycle c + 1, insWindow := w\<rparr>)" by auto
  let ?c = "?k\<lparr>oc_curCycle := oc_curCycle c + 1, insWindow := w, curCycleIssuedUops := 1\<rparr>"
  have "issue_width c = Inr ?c" using False w(1) by (simp add: issue_width_def)
  moreover have "core_ok NREG (B + 1) ?c" using w(2) by (simp add: core_ok_def)
  ultimately show ?thesis using False by (intro exI [of _ ?c]) (simp add: core_frame_def)
qed

lemma read_operands_ok:
  assumes c: "core_ok NREG B c" and u: "uop_ok NREG u"
  shows "\<exists>c0 c1 c'. read_operands u c = Inr (c0, c1, c') \<and> core_ok NREG (B + 1) c' \<and> core_frame c c' \<and> c0 \<le> B \<and> c1 \<le> B \<and>
    c0 = (if uop_rs0 u = 0 then oc_curCycle c else regScoreboard c ! uop_rs0 u) \<and>
    c1 = (if uop_rs1 u = 0 then oc_curCycle c else regScoreboard c ! uop_rs1 u) \<and> regScoreboard c' = (regScoreboard c)[0 := oc_curCycle c] \<and>
    rob c' = rob c \<and> (oc_curCycle c' = oc_curCycle c \<and> curCycleIssuedUops c' = curCycleIssuedUops c \<or>
      oc_curCycle c' = oc_curCycle c + 1 \<and> curCycleIssuedUops c' = 0)"
proof -
  let ?sb = "(regScoreboard c)[0 := oc_curCycle c]"
  have f: "0 < NREG" "length (regScoreboard c) = NREG" "oc_curCycle c \<le> B" "\<forall>x \<in> set (regScoreboard c). x \<le> B" using c by (auto simp: core_ok_def)
  have sb: "\<forall>x \<in> set ?sb. x \<le> B" by (rule set_update_le [OF f(4,3)])
  have r: "uop_rs0 u < NREG" "uop_rs1 u < NREG" using u by (auto simp: uop_ok_def)
  define c0 where "c0 = ?sb ! uop_rs0 u"
  define c1 where "c1 = ?sb ! uop_rs1 u"
  have cb: "c0 \<le> B" "c1 \<le> B" using sb r f(2) by (simp_all add: c0_def c1_def)
  define reads where "reads = curCycleRFReads c + (if c0 < oc_curCycle c then 1 else 0) + (if c1 < oc_curCycle c then 1 else 0)"
  define k where "k = c\<lparr>regScoreboard := ?sb, curCycleRFReads := reads\<rparr>"
  have kok: "core_ok NREG B k" using c sb by (simp add: core_ok_def k_def)
  define step where "step = (if 3 < reads then core_advance 1 (k\<lparr>curCycleRFReads := reads - 3, curCycleIssuedUops := 0\<rparr>) else Inr k)"
  have e: "read_operands u c = rbind step (\<lambda>k1. Inr (c0, c1, k1))"
    using f r by (simp add: read_operands_def aput_def aget_def Let_def c0_def [symmetric] c1_def [symmetric] reads_def [symmetric] k_def [symmetric] step_def)
  obtain c' where c': "step = Inr c'" "core_ok NREG (B + 1) c'" "core_frame c c'" "regScoreboard c' = ?sb" "rob c' = rob c"
    "oc_curCycle c' = oc_curCycle c \<and> curCycleIssuedUops c' = curCycleIssuedUops c \<or> oc_curCycle c' = oc_curCycle c + 1 \<and> curCycleIssuedUops c' = 0"
  proof (cases "3 < reads")
    case False
    show ?thesis by (rule that [of k]) (use False core_ok_mono [OF kok, of "B + 1"] in \<open>simp_all add: step_def core_frame_def\<close>, simp_all add: k_def)
  next
    case True
    let ?k = "k\<lparr>curCycleRFReads := reads - 3, curCycleIssuedUops := 0\<rparr>"
    have kc: "oc_curCycle k = oc_curCycle c" by (simp add: k_def)
    from core_advance_ok [of NREG B ?k "B + 1" 1] kok f(3) kc obtain w where
      w: "core_advance 1 ?k = Inr (?k\<lparr>oc_curCycle := oc_curCycle c + 1, insWindow := w\<rparr>)"
        "core_ok NREG (B + 1) (?k\<lparr>oc_curCycle := oc_curCycle c + 1, insWindow := w\<rparr>)" by auto
    show ?thesis by (rule that [of "?k\<lparr>oc_curCycle := oc_curCycle c + 1, insWindow := w\<rparr>"]) (use True w in \<open>simp_all add: step_def core_frame_def\<close>, simp_all add: k_def)
  qed
  show ?thesis using e c' cb f r by (intro exI [of _ c0] exI [of _ c1] exI [of _ c']) (auto simp: c0_def c1_def nth_list_update)
qed

lemma dispatch_uop_ok:
  assumes c: "core_ok NREG B c" and u: "uop_ok NREG u" and b: "c0 \<le> B" "c1 \<le> B" and fuel: "B \<le> fuel"
    and near: "B + 2 ^ 12 < oc_curCycle c + 2 ^ 32"
  shows "\<exists>disp c' c2. dispatch_uop fuel u c0 c1 c = Inr (disp, c') \<and> core_ok NREG (B + 2 ^ 12) c' \<and> core_frame c c' \<and>
    rob_minAllocCycle (rob c) = Inr c2 \<and> disp \<le> B + 6 \<and> c0 \<le> disp \<and> c1 \<le> disp \<and> c2 + 6 \<le> disp \<and> oc_curCycle c + 6 \<le> disp \<and> oc_curCycle c' \<le> disp \<and>
    regScoreboard c' = regScoreboard c \<and> rob c' = rob c \<and> (oc_curCycle c' \<noteq> oc_curCycle c \<longrightarrow> curCycleIssuedUops c' = 0) \<and>
    (oc_curCycle c' = oc_curCycle c \<longrightarrow> curCycleIssuedUops c' = curCycleIssuedUops c)"
proof -
  have f: "oc_curCycle c \<le> B" "ring_ok 128 B (rob c)" using c by (auto simp: core_ok_def)
  from c obtain K where K: "K \<le> B" "win_inv 1024 36 K (oc_curCycle c, insWindow c)" by (auto simp: core_ok_def)
  from ring_min [OF f(2)] obtain c2 where c2: "rob_minAllocCycle (rob c) = Inr c2" "c2 \<le> B" by blast
  let ?s = "max (max c0 c1) (max c2 (oc_curCycle c) + 6)"
  have s: "?s \<le> B + 6" using b c2(2) f(1) by (simp add: max_def)
  have M: "max (max ?s (oc_curCycle c)) K \<le> B + 6" using s f(1) K(1) by simp
  have ex: "uop_extraSlots u < 2 ^ 8" "uop_portMask u \<noteq> 0" using u by (auto simp: uop_ok_def)
  have fu: "K - oc_curCycle c \<le> fuel" using K(1) fuel by linarith
  have "max (max ?s (oc_curCycle c)) K + 2 * uop_extraSlots u + 1024 + 1 \<le> (B + 6) + 2 * uop_extraSlots u + 1024 + 1" using M by simp
  also have "\<dots> < oc_curCycle c + 2 ^ 32" using near ex(1) by simp
  finally have nr: "max (max ?s (oc_curCycle c)) K + 2 * uop_extraSlots u + 1024 + 1 < oc_curCycle c + 2 ^ 32" .
  have w36: "(0 :: nat) < 36" by simp
  from win_schedule_spec [OF K(2) w36 ex(2) fu nr] obtain cyc' r w' T K' where
    w: "win_schedule fuel 1024 36 (uop_portMask u) (uop_extraSlots u) (oc_curCycle c, ?s, insWindow c) = Inr (cyc', r, w')"
      "oc_curCycle c \<le> cyc'" "earliest_free T (uop_portMask u) (max ?s cyc') r" "win_inv 1024 36 K' (cyc', w')"
      "K' \<le> max (max ?s (oc_curCycle c)) K + 2 * uop_extraSlots u + 2" "r \<le> max (max ?s (oc_curCycle c)) K" "cyc' \<le> max (oc_curCycle c) K" by blast
  let ?k = "c\<lparr>oc_curCycle := cyc', insWindow := w'\<rparr>"
  let ?c = "if oc_curCycle c < cyc' then ?k\<lparr>curCycleIssuedUops := 0, curCycleRFReads := 0\<rparr> else ?k"
  have e: "dispatch_uop fuel u c0 c1 c = Inr (r, ?c)" using c2(1) w(1) by (simp add: dispatch_uop_def Let_def)
  have K'b: "K' \<le> B + 2 ^ 12" using order_trans [OF w(5) add_right_mono [OF add_right_mono [OF M]]] ex(1) by simp
  have cb: "cyc' \<le> B + 2 ^ 12" using w(7) f(1) K(1) by simp
  have "core_ok NREG (B + 2 ^ 12) ?k"
    using core_ok_mono [OF c, of "B + 2 ^ 12"] w(4) K'b cb by (auto simp: core_ok_def)
  then have ok: "core_ok NREG (B + 2 ^ 12) ?c" by simp
  have m: "max ?s cyc' \<le> r" using w(3) by (simp only: earliest_free_def)
  have sr: "?s \<le> r" "cyc' \<le> r" using order_trans [OF max.cobounded1 m] order_trans [OF max.cobounded2 m] .
  have rB: "r \<le> B + 6" by (rule order_trans [OF w(6) M])
  have "c0 \<le> ?s" "c1 \<le> ?s" "c2 + 6 \<le> ?s" "oc_curCycle c + 6 \<le> ?s" by (simp_all add: max_def)
  note ds = this [THEN order_trans, OF sr(1)]
  have fr: "core_frame c ?c" "oc_curCycle ?c = cyc'" "regScoreboard ?c = regScoreboard c" "rob ?c = rob c" "cyc' \<noteq> oc_curCycle c \<longrightarrow> curCycleIssuedUops ?c = 0"
    "cyc' = oc_curCycle c \<longrightarrow> curCycleIssuedUops ?c = curCycleIssuedUops c"
    using w(2) by (auto simp: core_frame_def)
  show ?thesis
    by (rule exI [of _ r], rule exI [of _ ?c], rule exI [of _ c2]) (intro conjI, fact e, fact ok, fact fr(1), fact c2(1), fact rB, use ds sr(2) fr in simp_all)
qed

subsection \<open>The memory side\<close>

text \<open>What the core relies on: the caches answer every access to a legal address, not before it was made and at most \<open>Lat\<close> after the
  last cycle they have seen; recording an access in order succeeds.\<close>

locale core_memory =
  fixes ports :: "'m core_ports" and mem_ok :: "nat \<Rightarrow> 'm \<Rightarrow> bool" and legal :: "u64 \<Rightarrow> bool" and Lat :: nat and top :: nat
  assumes load_ok: "mem_ok B m \<Longrightarrow> legal a \<Longrightarrow> cyc \<le> B \<Longrightarrow> B \<le> top \<Longrightarrow>
      \<exists>r m'. l1d_load ports a cyc m = Inr (r, m') \<and> cyc \<le> r \<and> r \<le> B + Lat \<and> mem_ok (B + Lat) m'"
    and store_ok: "mem_ok B m \<Longrightarrow> legal a \<Longrightarrow> cyc \<le> B \<Longrightarrow> B \<le> top \<Longrightarrow>
      \<exists>r m'. l1d_store ports a cyc m = Inr (r, m') \<and> cyc \<le> r \<and> r \<le> B + Lat \<and> mem_ok (B + Lat) m'"
    and fetch_ok: "mem_ok B m \<Longrightarrow> legal a \<Longrightarrow> cyc \<le> B \<Longrightarrow> B \<le> top \<Longrightarrow>
      \<exists>r m'. l1i_load ports a cyc m = Inr (r, m') \<and> cyc \<le> r \<and> r \<le> B + Lat \<and> mem_ok (B + Lat) m'"
    and record_ok: "mem_ok B m \<Longrightarrow> cur \<le> disp \<Longrightarrow> disp \<le> resp \<Longrightarrow> \<exists>m'. cRec_record ports cur disp resp m = Inr m' \<and> mem_ok B m'"
    and mem_mono: "mem_ok B m \<Longrightarrow> B \<le> B' \<Longrightarrow> mem_ok B' m"

text \<open>The recorded accesses of the block.\<close>

definition accesses_ok :: "(u64 \<Rightarrow> bool) \<Rightarrow> OOOCore \<Rightarrow> bool" where
  "accesses_ok lg c \<longleftrightarrow> loads c \<le> 256 \<and> stores c \<le> 256 \<and> (\<forall>i < loads c. loadAddrs c ! i = - 1 \<or> lg (loadAddrs c ! i)) \<and>
     (\<forall>i < stores c. lg (storeAddrs c ! i))"

lemma fwd_idx_less: "fwd_idx a < 32"
proof -
  have "drop_bit 2 a AND 31 \<le> (31 :: u64)" by (rule word_and_le1)
  then show ?thesis by (simp add: fwd_idx_def word_le_nat_alt)
qed

definition exec_facts :: "DynUop \<Rightarrow> nat \<Rightarrow> nat \<times> nat \<Rightarrow> OOOCore \<Rightarrow> nat \<Rightarrow> OOOCore \<Rightarrow> bool" where
  "exec_facts u disp idx c commit c' \<longleftrightarrow> disp \<le> commit \<and> (uop_type u \<noteq> UOP_LOAD \<and> uop_type u \<noteq> UOP_STORE \<longrightarrow> commit = disp + uop_lat u) \<and>
     (uop_type u = UOP_LOAD \<or> uop_type u = UOP_STORE \<longrightarrow> lastStoreAddrCommitCycle c < commit) \<and>
     (uop_type u = UOP_LOAD \<longrightarrow> (let a = loadAddrs c ! fst idx; e = fwdArray c ! fwd_idx a in fwd_addr e = a \<longrightarrow> storeCycle e \<le> commit)) \<and>
     (uop_type u = UOP_STORE \<longrightarrow> fwdArray c' ! fwd_idx (storeAddrs c ! snd idx) = \<lparr>fwd_addr = storeAddrs c ! snd idx, storeCycle = commit\<rparr> \<and>
        commit \<le> lastStoreCommitCycle c') \<and>
     (uop_type u = UOP_STORE_ADDR \<longrightarrow> commit \<le> lastStoreAddrCommitCycle c') \<and>
     (uop_type u = UOP_FENCE \<longrightarrow> lastStoreCommitCycle c \<le> lastStoreAddrCommitCycle c' \<and> commit \<le> lastStoreAddrCommitCycle c')"

context core_memory begin

lemma access_record:
  assumes "\<And>B m. mem_ok B m \<Longrightarrow> cyc \<le> B \<Longrightarrow> B \<le> top \<Longrightarrow> \<exists>r m'. acc m = Inr (r, m') \<and> cyc \<le> r \<and> r \<le> B + Lat \<and> mem_ok (B + Lat) m'"
    and "mem_ok B m" "cyc \<le> B" "B \<le> top" "cur \<le> cyc"
  shows "\<exists>r m' m''. acc m = Inr (r, m') \<and> cRec_record ports cur cyc (r + 4) m' = Inr m'' \<and> cyc \<le> r \<and> r \<le> B + Lat \<and> mem_ok (B + Lat) m''"
proof -
  from assms(1) [OF assms(2-4)] obtain r m' where r: "acc m = Inr (r, m')" "cyc \<le> r" "r \<le> B + Lat" "mem_ok (B + Lat) m'" by blast
  have "cyc \<le> r + 4" using r(2) by simp
  from record_ok [OF r(4) assms(5) this] r show ?thesis by blast
qed

lemma exec_load_ok:
  assumes c: "core_ok NREG B c" and m: "mem_ok B m" and a: "accesses_ok legal c" "li < loads c" and d: "disp \<le> B" "oc_curCycle c \<le> disp" "B + 1 \<le> top"
  shows "\<exists>commit c' m'. exec_load ports disp li (c, m) = Inr (commit, c', m') \<and> core_ok NREG (B + Lat + 6) c' \<and> mem_ok (B + Lat + 6) m' \<and>
    core_frame c c' \<and> disp \<le> commit \<and> commit \<le> B + Lat + 5 \<and> lastStoreAddrCommitCycle c < commit \<and>
    (let x = loadAddrs c ! li; e = fwdArray c ! fwd_idx x in fwd_addr e = x \<longrightarrow> storeCycle e \<le> commit) \<and>
    (\<exists>q. c' = c\<lparr>loadQueue := q\<rparr>)"
proof -
  have f: "ring_ok 32 B (loadQueue c)" "lastStoreAddrCommitCycle c \<le> B" "length (fwdArray c) = 32" "length (loadAddrs c) = 256"
    "\<forall>e \<in> set (fwdArray c). storeCycle e \<le> B" using c by (auto simp: core_ok_def)
  from ring_min [OF f(1)] obtain lq where lq: "rob_minAllocCycle (loadQueue c) = Inr lq" "lq \<le> B" by blast
  define dd where "dd = max (lastStoreAddrCommitCycle c + 1) (max lq disp)"
  have dd: "dd \<le> B + 1" "disp \<le> dd" "lastStoreAddrCommitCycle c < dd" using lq(2) f(2) d(1) by (auto simp: dd_def)
  define addr where "addr = loadAddrs c ! li"
  have ad: "aget (loadAddrs c) li = Inr addr" "addr = - 1 \<or> legal addr" using a f(4) by (auto simp: addr_def aget_def accesses_ok_def)
  define step where "step = (if addr \<noteq> - 1
    then rbind (l1d_load ports addr dd m) (\<lambda>(r, m1). rbind (cRec_record ports (oc_curCycle c) dd (r + 4) m1) (\<lambda>m2. Inr (r + 4, m2)))
    else Inr (dd, m))"
  obtain sat m1 where sat: "step = Inr (sat, m1)" "dd \<le> sat" "sat \<le> B + Lat + 5" "mem_ok (B + Lat + 6) m1"
  proof (cases "addr = - 1")
    case True
    show ?thesis by (rule that [of dd m]) (use True dd mem_mono [OF m, of "B + Lat + 6"] in \<open>simp_all add: step_def\<close>)
  next
    case False
    have lg: "legal addr" using False ad(2) by blast
    have m1: "mem_ok (B + 1) m" by (rule mem_mono [OF m]) simp
    have cur: "oc_curCycle c \<le> dd" using d(2) dd(2) by simp
    from access_record [of dd "l1d_load ports addr dd", OF load_ok [OF _ lg] m1 dd(1) d(3) cur] obtain r m' m'' where
      r: "l1d_load ports addr dd m = Inr (r, m')" "cRec_record ports (oc_curCycle c) dd (r + 4) m' = Inr m''" "dd \<le> r" "r \<le> B + 1 + Lat"
        "mem_ok (B + 1 + Lat) m''" by blast
    show ?thesis by (rule that [of "r + 4" m'']) (use False r mem_mono [OF r(5), of "B + Lat + 6"] in \<open>simp_all add: step_def\<close>)
  qed
  let ?e = "fwdArray c ! fwd_idx addr"
  have e: "aget (fwdArray c) (fwd_idx addr) = Inr ?e" "storeCycle ?e \<le> B" using f(3,5) fwd_idx_less [of addr] by (auto simp: aget_def)
  define commit where "commit = (if fwd_addr ?e = addr then max sat (storeCycle ?e) else sat)"
  have cm: "sat \<le> commit" "commit \<le> B + Lat + 5" using sat(3) e(2) by (auto simp: commit_def)
  have "commit \<le> B + Lat + 6" "B < B + Lat + 6" using cm by simp_all
  from ring_retire [OF f(1) this, of 4] obtain q where q: "markRetire 32 4 commit (loadQueue c) = Inr q" "ring_ok 32 (B + Lat + 6) q" by blast
  have "exec_load ports disp li (c, m) = Inr (commit, c\<lparr>loadQueue := q\<rparr>, m1)"
    by (simp only: exec_load_def prod.case rbind_simps lq(1) ad(1) Let_def dd_def [symmetric] step_def [symmetric] sat(1) e(1) commit_def [symmetric] q(1))
  moreover have "core_ok NREG (B + Lat + 6) (c\<lparr>loadQueue := q\<rparr>)" using core_ok_mono [OF c, of "B + Lat + 6"] q(2) by (auto simp: core_ok_def)
  moreover have "core_frame c (c\<lparr>loadQueue := q\<rparr>)" by (simp add: core_frame_def)
  moreover have "disp \<le> commit" "lastStoreAddrCommitCycle c < commit" using dd sat(2) cm(1) by linarith+
  moreover have "let x = loadAddrs c ! li; e = fwdArray c ! fwd_idx x in fwd_addr e = x \<longrightarrow> storeCycle e \<le> commit"
    by (simp add: addr_def [symmetric] commit_def Let_def)
  ultimately show ?thesis using cm(2) sat(4) by blast
qed

lemma exec_store_ok:
  assumes c: "core_ok NREG B c" and m: "mem_ok B m" and a: "accesses_ok legal c" "si < stores c" and d: "disp \<le> B" "oc_curCycle c \<le> disp" "B + 1 \<le> top"
  shows "\<exists>commit c' m'. exec_store ports disp si (c, m) = Inr (commit, c', m') \<and> core_ok NREG (B + Lat + 6) c' \<and> mem_ok (B + Lat + 6) m' \<and>
    core_frame c c' \<and> disp \<le> commit \<and> commit \<le> B + Lat + 5 \<and> lastStoreAddrCommitCycle c < commit \<and> commit \<le> lastStoreCommitCycle c' \<and>
    fwdArray c' ! fwd_idx (storeAddrs c ! si) = \<lparr>fwd_addr = storeAddrs c ! si, storeCycle = commit\<rparr> \<and>
    (\<exists>fa x q. c' = c\<lparr>fwdArray := fa, lastStoreCommitCycle := x, storeQueue := q\<rparr>)"
proof -
  have f: "ring_ok 32 B (storeQueue c)" "lastStoreAddrCommitCycle c \<le> B" "length (fwdArray c) = 32" "length (storeAddrs c) = 256"
    "\<forall>e \<in> set (fwdArray c). storeCycle e \<le> B" "lastStoreCommitCycle c \<le> B" using c by (auto simp: core_ok_def)
  from ring_min [OF f(1)] obtain sq where sq: "rob_minAllocCycle (storeQueue c) = Inr sq" "sq \<le> B" by blast
  define dd where "dd = max (lastStoreAddrCommitCycle c + 1) (max sq disp)"
  have dd: "dd \<le> B + 1" "disp \<le> dd" "lastStoreAddrCommitCycle c < dd" using sq(2) f(2) d(1) by (auto simp: dd_def)
  define addr where "addr = storeAddrs c ! si"
  have ad: "aget (storeAddrs c) si = Inr addr" "legal addr" using a f(4) by (auto simp: addr_def aget_def accesses_ok_def)
  have m1: "mem_ok (B + 1) m" by (rule mem_mono [OF m]) simp
  have cur: "oc_curCycle c \<le> dd" using d(2) dd(2) by simp
  from access_record [of dd "l1d_store ports addr dd", OF store_ok [OF _ ad(2)] m1 dd(1) d(3) cur] obtain r m' m'' where
    r: "l1d_store ports addr dd m = Inr (r, m')" "cRec_record ports (oc_curCycle c) dd (r + 4) m' = Inr m''" "dd \<le> r" "r \<le> B + 1 + Lat"
      "mem_ok (B + 1 + Lat) m''" by blast
  define e where "e = \<lparr>fwd_addr = addr, storeCycle = r + 4\<rparr>"
  define fa where "fa = (fwdArray c)[fwd_idx addr := e]"
  have fa: "aput (fwdArray c) (fwd_idx addr) e = Inr fa" "length fa = 32" "fa ! fwd_idx addr = e" "\<forall>x \<in> set fa. storeCycle x \<le> B + Lat + 6"
    using f(3,5) fwd_idx_less [of addr] r(4) by (auto simp: aput_def fa_def e_def dest!: set_update_subset_insert [THEN subsetD])
  have "r + 4 \<le> B + Lat + 6" "B < B + Lat + 6" using r(4) by simp_all
  from ring_retire [OF f(1) this, of 4] obtain q where q: "markRetire 32 4 (r + 4) (storeQueue c) = Inr q" "ring_ok 32 (B + Lat + 6) q" by blast
  let ?c = "c\<lparr>fwdArray := fa, lastStoreCommitCycle := max (lastStoreCommitCycle c) (r + 4), storeQueue := q\<rparr>"
  have "exec_store ports disp si (c, m) = Inr (r + 4, ?c, m'')"
    by (simp only: exec_store_def prod.case rbind_simps sq(1) ad(1) Let_def dd_def [symmetric] r(1,2) e_def [symmetric] fa(1) q(1))
  moreover have "core_ok NREG (B + Lat + 6) ?c"
    using core_ok_mono [OF c, of "B + Lat + 6"] q(2) fa(2,4) r(4) by (auto simp: core_ok_def)
  moreover have "core_frame c ?c" by (simp add: core_frame_def)
  moreover have "disp \<le> r + 4" "lastStoreAddrCommitCycle c < r + 4" "r + 4 \<le> B + Lat + 5" using dd r(3,4) by linarith+
  moreover have "mem_ok (B + Lat + 6) m''" by (rule mem_mono [OF r(5)]) simp
  moreover have "fwdArray ?c ! fwd_idx addr = \<lparr>fwd_addr = addr, storeCycle = r + 4\<rparr>" using fa(3) by (simp add: e_def)
  moreover have "r + 4 \<le> lastStoreCommitCycle ?c" by simp
  ultimately show ?thesis unfolding addr_def [symmetric] by blast
qed

end

lemma retire_uop_ok:
  assumes c: "core_ok NREG B c" and u: "uop_ok NREG u" and b: "commit \<le> B + 1"
  shows "\<exists>r. retire_uop u commit c = Inr (c\<lparr>rob := r, regScoreboard := (regScoreboard c)[uop_rd0 u := commit, uop_rd1 u := commit]\<rparr>) \<and>
    core_ok NREG (B + 1) (c\<lparr>rob := r, regScoreboard := (regScoreboard c)[uop_rd0 u := commit, uop_rd1 u := commit]\<rparr>) \<and> commit \<le> curRetireCycle r"
proof -
  have f: "ring_ok 128 B (rob c)" "length (regScoreboard c) = NREG" "\<forall>x \<in> set (regScoreboard c). x \<le> B + 1" using c by (auto simp: core_ok_def)
  have "B < B + 1" by simp
  from ring_retire [OF f(1) b this, of 4] obtain r where r: "markRetire 128 4 commit (rob c) = Inr r" "ring_ok 128 (B + 1) r" by blast
  have "commit \<le> curRetireCycle r" using r(1) by (auto simp: markRetire_def res_simps Let_def split: if_splits)
  moreover have sb: "\<forall>x \<in> set ((regScoreboard c)[uop_rd0 u := commit, uop_rd1 u := commit]). x \<le> B + 1"
    by (intro set_update_le b f(3))
  moreover have "retire_uop u commit c = Inr (c\<lparr>rob := r, regScoreboard := (regScoreboard c)[uop_rd0 u := commit, uop_rd1 u := commit]\<rparr>)"
    using u f(2) r(1) by (simp add: retire_uop_def aput_def uop_ok_def)
  ultimately show ?thesis using core_ok_mono [OF c, of "B + 1"] r(2) by (auto simp: core_ok_def)
qed

definition next_idx :: "DynUop \<Rightarrow> nat \<times> nat \<Rightarrow> nat \<times> nat" where
  "next_idx u = (\<lambda>(li, si). (if uop_type u = UOP_LOAD then li + 1 else li, if uop_type u = UOP_STORE then si + 1 else si))"

text \<open>What a micro-op waits for and what it leaves behind.\<close>

definition uop_timing :: "DynUop \<Rightarrow> OOOCore \<Rightarrow> nat \<Rightarrow> OOOCore \<Rightarrow> bool" where
  "uop_timing u c commit c' \<longleftrightarrow> oc_curCycle c + 6 \<le> commit \<and>
     (\<forall>r \<in> {uop_rs0 u, uop_rs1 u}. r \<noteq> 0 \<longrightarrow> regScoreboard c ! r \<le> commit \<and>
        (uop_type u \<noteq> UOP_LOAD \<and> uop_type u \<noteq> UOP_STORE \<longrightarrow> regScoreboard c ! r + uop_lat u \<le> commit)) \<and>
     (\<exists>x. rob_minAllocCycle (rob c) = Inr x \<and> x + 6 \<le> commit) \<and>
     (uop_type u = UOP_LOAD \<or> uop_type u = UOP_STORE \<longrightarrow> lastStoreAddrCommitCycle c < commit) \<and>
     regScoreboard c' ! uop_rd0 u = commit \<and> regScoreboard c' ! uop_rd1 u = commit \<and> commit \<le> curRetireCycle (rob c')"

text \<open>At most four micro-ops are counted in a cycle; one more may have been moved into it by the limit on register reads.\<close>

definition issue_ok :: "OOOCore \<Rightarrow> bool" where "issue_ok c \<longleftrightarrow> curCycleIssuedUops c \<le> 4"

lemma core_advance_other:
  assumes "core_advance n c = Inr c'"
  shows "regScoreboard c' = regScoreboard c" "rob c' = rob c" "lastStoreAddrCommitCycle c' = lastStoreAddrCommitCycle c"
    "curCycleIssuedUops c' = curCycleIssuedUops c" "curCycleRFReads c' = curCycleRFReads c"
  using assms by (auto simp: core_advance_def res_simps)

lemma issue_width_other:
  "issue_width c = Inr c' \<Longrightarrow> regScoreboard c' = regScoreboard c \<and> rob c' = rob c \<and> lastStoreAddrCommitCycle c' = lastStoreAddrCommitCycle c"
  by (auto simp: issue_width_def rbind_Inr_iff dest: core_advance_other split: if_splits)

lemma decode_uop_other:
  assumes "decode_uop u p c = Inr c'"
  shows "regScoreboard c' = regScoreboard c \<and> rob c' = rob c \<and> lastStoreAddrCommitCycle c' = lastStoreAddrCommitCycle c \<and>
    (curCycleIssuedUops c' = curCycleIssuedUops c \<or> curCycleIssuedUops c' = 0)"
proof -
  from assms obtain dec c2 uq where
    s: "(if oc_curCycle (c\<lparr>decodeCycle := dec\<rparr>) < decodeCycle (c\<lparr>decodeCycle := dec\<rparr>)
      then core_advance (u32_nat (decodeCycle (c\<lparr>decodeCycle := dec\<rparr>) - oc_curCycle (c\<lparr>decodeCycle := dec\<rparr>)))
        (c\<lparr>decodeCycle := dec, curCycleIssuedUops := 0, curCycleRFReads := 0\<rparr>) else Inr (c\<lparr>decodeCycle := dec\<rparr>)) = Inr c2"
    and c': "c' = c2\<lparr>uopQueue := uq\<rparr>"
    unfolding decode_uop_def rbind_Inr_iff Let_def Inr_inject by blast
  show ?thesis
  proof (cases "oc_curCycle (c\<lparr>decodeCycle := dec\<rparr>) < decodeCycle (c\<lparr>decodeCycle := dec\<rparr>)")
    case True
    from core_advance_other [OF s [unfolded if_P [OF True]]] show ?thesis by (simp add: c')
  next
    case False
    from s [unfolded if_not_P [OF False]] show ?thesis by (auto simp: c')
  qed
qed

lemma read_operands_other:
  assumes "read_operands u c = Inr (x, y, c')"
  shows "lastStoreAddrCommitCycle c' = lastStoreAddrCommitCycle c"
proof -
  from assms obtain k reads where
    s: "(if 3 < reads then core_advance 1 (k\<lparr>curCycleRFReads := reads - 3, curCycleIssuedUops := 0\<rparr>) else Inr k) = Inr c'"
    and k: "lastStoreAddrCommitCycle k = lastStoreAddrCommitCycle c"
    unfolding read_operands_def rbind_Inr_iff Let_def Inr_inject prod.inject by force
  show ?thesis
  proof (cases "3 < reads")
    case True
    from core_advance_other(3) [OF s [unfolded if_P [OF True]]] k show ?thesis by simp
  next
    case False
    from s [unfolded if_not_P [OF False]] k show ?thesis by simp
  qed
qed

lemma dispatch_uop_other:
  assumes "dispatch_uop fuel u x y c = Inr (d, c')"
  shows "lastStoreAddrCommitCycle c' = lastStoreAddrCommitCycle c"
proof -
  from assms obtain cyc w where "c' = (if oc_curCycle c < cyc
      then c\<lparr>oc_curCycle := cyc, insWindow := w, curCycleIssuedUops := 0, curCycleRFReads := 0\<rparr> else c\<lparr>oc_curCycle := cyc, insWindow := w\<rparr>)"
    unfolding dispatch_uop_def rbind_Inr_iff Let_def split_beta by blast
  then show ?thesis by (simp split: if_split)
qed

context core_memory begin

lemma exec_uop_ok:
  assumes c: "core_ok NREG B c" and m: "mem_ok B m" and a: "accesses_ok legal c" and d: "disp \<le> B" "oc_curCycle c \<le> disp" "B + 1 \<le> top"
    and u: "uop_ok NREG u" and ix: "uop_type u = UOP_LOAD \<Longrightarrow> fst idx < loads c" "uop_type u = UOP_STORE \<Longrightarrow> snd idx < stores c"
  shows "\<exists>commit c' m'. exec_uop ports u disp idx (c, m) = Inr (commit, next_idx u idx, c', m') \<and> core_ok NREG (B + Lat + 2 ^ 16) c' \<and>
    mem_ok (B + Lat + 2 ^ 16) m' \<and> core_frame c c' \<and> commit \<le> B + Lat + 2 ^ 16 \<and> exec_facts u disp idx c commit c' \<and>
    oc_curCycle c' = oc_curCycle c \<and> regScoreboard c' = regScoreboard c \<and> rob c' = rob c \<and> curCycleIssuedUops c' = curCycleIssuedUops c"
proof -
  obtain li si where idx: "idx = (li, si)" by (cases idx)
  let ?B = "B + Lat + 2 ^ 16"
  have lat: "disp + uop_lat u \<le> ?B" using d u by (auto simp: uop_ok_def)
  have mono: "core_ok NREG ?B c" "mem_ok ?B m" using core_ok_mono [OF c, of ?B] mem_mono [OF m, of ?B] by simp_all
  have ls: "lastStoreAddrCommitCycle c \<le> B" "lastStoreCommitCycle c \<le> B" using c by (auto simp: core_ok_def)
  show ?thesis
  proof (cases "uop_type u")
    case UOP_GENERAL
    then show ?thesis using mono lat d by (intro exI [of _ "disp + uop_lat u"] exI [of _ c] exI [of _ m]) (simp add: exec_uop_def exec_facts_def next_idx_def idx Let_def)
  next
    case UOP_LOAD
    from exec_load_ok [OF c m a ix(1) d] UOP_LOAD obtain commit q m' where
      r: "exec_load ports disp li (c, m) = Inr (commit, c\<lparr>loadQueue := q\<rparr>, m')" "core_ok NREG (B + Lat + 6) (c\<lparr>loadQueue := q\<rparr>)" "mem_ok (B + Lat + 6) m'"
        "core_frame c (c\<lparr>loadQueue := q\<rparr>)" "disp \<le> commit" "commit \<le> B + Lat + 5" "lastStoreAddrCommitCycle c < commit"
        "let x = loadAddrs c ! li; e = fwdArray c ! fwd_idx x in fwd_addr e = x \<longrightarrow> storeCycle e \<le> commit" unfolding idx fst_conv by blast
    show ?thesis using r core_ok_mono [OF r(2), of ?B] mem_mono [OF r(3), of ?B] UOP_LOAD
      by (intro exI [of _ commit] exI [of _ "c\<lparr>loadQueue := q\<rparr>"] exI [of _ m']) (simp add: exec_uop_def exec_facts_def next_idx_def idx Let_def)
  next
    case UOP_STORE
    from exec_store_ok [OF c m a ix(2) d] UOP_STORE obtain commit c' m' where
      r: "exec_store ports disp si (c, m) = Inr (commit, c', m')" "core_ok NREG (B + Lat + 6) c'" "mem_ok (B + Lat + 6) m'" "core_frame c c'" "disp \<le> commit"
        "commit \<le> B + Lat + 5" "lastStoreAddrCommitCycle c < commit" "commit \<le> lastStoreCommitCycle c'"
        "fwdArray c' ! fwd_idx (storeAddrs c ! si) = \<lparr>fwd_addr = storeAddrs c ! si, storeCycle = commit\<rparr>"
        "\<exists>fa x q. c' = c\<lparr>fwdArray := fa, lastStoreCommitCycle := x, storeQueue := q\<rparr>" unfolding idx snd_conv by blast
    then have o: "oc_curCycle c' = oc_curCycle c" "regScoreboard c' = regScoreboard c" "rob c' = rob c" "curCycleIssuedUops c' = curCycleIssuedUops c" by auto
    show ?thesis using r(1,4-9) o core_ok_mono [OF r(2), of ?B] mem_mono [OF r(3), of ?B] UOP_STORE
      by (intro exI [of _ commit] exI [of _ c'] exI [of _ m']) (simp add: exec_uop_def exec_facts_def next_idx_def idx Let_def)
  next
    case UOP_STORE_ADDR
    let ?c = "c\<lparr>lastStoreAddrCommitCycle := max (lastStoreAddrCommitCycle c) (disp + uop_lat u)\<rparr>"
    have "core_ok NREG ?B ?c" using mono(1) lat ls by (auto simp: core_ok_def)
    then show ?thesis using mono(2) lat UOP_STORE_ADDR
      by (intro exI [of _ "disp + uop_lat u"] exI [of _ ?c] exI [of _ m]) (simp add: exec_uop_def exec_facts_def next_idx_def idx core_frame_def Let_def)
  next
    case UOP_FENCE
    let ?c = "c\<lparr>lastStoreAddrCommitCycle := max (disp + uop_lat u) (max (lastStoreAddrCommitCycle c) (lastStoreCommitCycle c + uop_lat u))\<rparr>"
    have "lastStoreCommitCycle c + uop_lat u \<le> ?B" using ls(2) u by (auto simp: uop_ok_def)
    then have "core_ok NREG ?B ?c" using mono(1) lat ls by (auto simp: core_ok_def)
    moreover have "core_frame c ?c" by (simp add: core_frame_def)
    moreover have "exec_facts u disp idx c (disp + uop_lat u) ?c" using UOP_FENCE by (auto simp: exec_facts_def max_def)
    ultimately show ?thesis using mono(2) lat UOP_FENCE
      by (intro exI [of _ "disp + uop_lat u"] exI [of _ ?c] exI [of _ m]) (simp add: exec_uop_def next_idx_def idx Let_def)
  qed
qed

lemma ooo_uop_ok:
  assumes c: "core_ok NREG B c" and m: "mem_ok B m" and a: "accesses_ok legal c" and u: "uop_ok NREG u" "prevDec l \<le> uop_decCycle u"
    and ix: "uop_type u = UOP_LOAD \<Longrightarrow> fst (mem_idx l) < loads c" "uop_type u = UOP_STORE \<Longrightarrow> snd (mem_idx l) < stores c"
    and near: "B + 2 ^ 18 < oc_curCycle c + 2 ^ 32" and fuel: "B + 2 ^ 18 \<le> fuel" and tp: "B + 2 ^ 18 \<le> top"
  shows "\<exists>l' c' m'. ooo_uop ports fuel u (l, c, m) = Inr (l', c', m') \<and> core_ok NREG (B + Lat + 2 ^ 18) c' \<and> mem_ok (B + Lat + 2 ^ 18) m' \<and>
    core_frame c c' \<and> prevDec l' = uop_decCycle u \<and> mem_idx l' = next_idx u (mem_idx l) \<and> lastCommit l' \<le> B + Lat + 2 ^ 18 \<and>
    uop_timing u c (lastCommit l') c' \<and> (issue_ok c \<longrightarrow> issue_ok c')"
proof -
  let ?B1 = "B + 2 ^ 16"
  have near1: "B + 2 ^ 16 < oc_curCycle c + 2 ^ 32" using near by simp
  from decode_uop_ok [OF c u near1] obtain c1 where c1: "decode_uop u (prevDec l) c = Inr c1" "core_ok NREG ?B1 c1" "core_frame c c1" by blast
  note o1 = decode_uop_other [OF c1(1)]
  from issue_width_ok [OF c1(2)] obtain c2 where c2: "issue_width c1 = Inr c2" "core_ok NREG (?B1 + 1) c2" "core_frame c1 c2"
    "if curCycleIssuedUops c1 < 4 then c2 = c1\<lparr>curCycleIssuedUops := curCycleIssuedUops c1 + 1\<rparr>
     else oc_curCycle c2 = oc_curCycle c1 + 1 \<and> curCycleIssuedUops c2 = 1 \<and> curCycleRFReads c2 = 0" by blast
  note o2 = issue_width_other [OF c2(1)]
  have i2: "issue_ok c1 \<longrightarrow> issue_ok c2" using c2(4) by (auto simp: issue_ok_def split: if_splits)
  from read_operands_ok [OF c2(2) u(1)] obtain r0 r1 c3 where
    c3: "read_operands u c2 = Inr (r0, r1, c3)" "core_ok NREG (?B1 + 1 + 1) c3" "core_frame c2 c3" "r0 \<le> ?B1 + 1" "r1 \<le> ?B1 + 1"
      "r0 = (if uop_rs0 u = 0 then oc_curCycle c2 else regScoreboard c2 ! uop_rs0 u)"
      "r1 = (if uop_rs1 u = 0 then oc_curCycle c2 else regScoreboard c2 ! uop_rs1 u)" "rob c3 = rob c2"
      "oc_curCycle c3 = oc_curCycle c2 \<and> curCycleIssuedUops c3 = curCycleIssuedUops c2 \<or> oc_curCycle c3 = oc_curCycle c2 + 1 \<and> curCycleIssuedUops c3 = 0" by blast
  note o3 = read_operands_other [OF c3(1)]
  have i3: "issue_ok c2 \<longrightarrow> issue_ok c3" using c3(9) by (auto simp: issue_ok_def)
  have fr3: "core_frame c c3" using core_frame_trans c1(3) c2(3) c3(3) by blast
  let ?B3 = "?B1 + 1 + 1"
  have b3: "r0 \<le> ?B3" "r1 \<le> ?B3" "?B3 \<le> fuel" "?B3 + 2 ^ 12 < oc_curCycle c3 + 2 ^ 32"
    using c3(4,5) fuel near fr3 by (simp_all add: core_frame_def)
  from dispatch_uop_ok [OF c3(2) u(1) b3] obtain disp c4 x where
    c4: "dispatch_uop fuel u r0 r1 c3 = Inr (disp, c4)" "core_ok NREG (?B3 + 2 ^ 12) c4" "core_frame c3 c4" "rob_minAllocCycle (rob c3) = Inr x"
      "disp \<le> ?B3 + 6" "r0 \<le> disp" "r1 \<le> disp" "x + 6 \<le> disp" "oc_curCycle c3 + 6 \<le> disp" "oc_curCycle c4 \<le> disp" "rob c4 = rob c3"
      "oc_curCycle c4 \<noteq> oc_curCycle c3 \<longrightarrow> curCycleIssuedUops c4 = 0" "oc_curCycle c4 = oc_curCycle c3 \<longrightarrow> curCycleIssuedUops c4 = curCycleIssuedUops c3"
    by blast
  note o4 = dispatch_uop_other [OF c4(1)]
  have i4: "issue_ok c3 \<longrightarrow> issue_ok c4" using c4(12,13) by (auto simp: issue_ok_def)
  have fr4: "core_frame c c4" using core_frame_trans fr3 c4(3) by blast
  let ?B4 = "?B3 + 2 ^ 12"
  have m4: "mem_ok ?B4 m" by (rule mem_mono [OF m]) simp
  have a4: "accesses_ok legal c4" using a fr4 by (simp add: accesses_ok_def core_frame_def)
  have d4: "disp \<le> ?B4" "?B4 + 1 \<le> top" using c4(5) tp by simp_all
  have ix4: "uop_type u = UOP_LOAD \<Longrightarrow> fst (mem_idx l) < loads c4" "uop_type u = UOP_STORE \<Longrightarrow> snd (mem_idx l) < stores c4"
    using ix fr4 by (simp_all add: core_frame_def)
  from exec_uop_ok [OF c4(2) m4 a4 d4(1) c4(10) d4(2) u(1) ix4] obtain commit c5 m' where
    c5: "exec_uop ports u disp (mem_idx l) (c4, m) = Inr (commit, next_idx u (mem_idx l), c5, m')" "core_ok NREG (?B4 + Lat + 2 ^ 16) c5"
      "mem_ok (?B4 + Lat + 2 ^ 16) m'" "core_frame c4 c5" "commit \<le> ?B4 + Lat + 2 ^ 16" "exec_facts u disp (mem_idx l) c4 commit c5"
      "regScoreboard c5 = regScoreboard c4" "rob c5 = rob c4" "curCycleIssuedUops c5 = curCycleIssuedUops c4" by blast
  have "commit \<le> ?B4 + Lat + 2 ^ 16 + 1" using c5(5) by simp
  from retire_uop_ok [OF c5(2) u(1) this] obtain r where
    r: "retire_uop u commit c5 = Inr (c5\<lparr>rob := r, regScoreboard := (regScoreboard c5)[uop_rd0 u := commit, uop_rd1 u := commit]\<rparr>)"
      "core_ok NREG (?B4 + Lat + 2 ^ 16 + 1) (c5\<lparr>rob := r, regScoreboard := (regScoreboard c5)[uop_rd0 u := commit, uop_rd1 u := commit]\<rparr>)"
      "commit \<le> curRetireCycle r" by blast
  let ?c = "c5\<lparr>rob := r, regScoreboard := (regScoreboard c5)[uop_rd0 u := commit, uop_rd1 u := commit]\<rparr>"
  let ?l = "\<lparr>prevDec = uop_decCycle u, mem_idx = next_idx u (mem_idx l), lastCommit = commit\<rparr>"
  have run: "ooo_uop ports fuel u (l, c, m) = Inr (?l, ?c, m')"
    by (simp only: ooo_uop_def prod.case rbind_simps c1(1) c2(1) c3(1) c4(1) c5(1) r(1))
  have okc: "core_ok NREG (B + Lat + 2 ^ 18) ?c" by (rule core_ok_mono [OF r(2)]) simp
  have okm: "mem_ok (B + Lat + 2 ^ 18) m'" by (rule mem_mono [OF c5(3)]) simp
  have fr: "core_frame c ?c" using core_frame_trans [OF fr4 c5(4)] by (simp add: core_frame_def)
  have cm: "commit \<le> B + Lat + 2 ^ 18" using c5(5) by simp
  have dc: "disp \<le> commit" using c5(6) by (simp add: exec_facts_def)
  have len: "length (regScoreboard c5) = NREG" "uop_rd0 u < NREG" "uop_rd1 u < NREG" using c5(2) u(1) by (auto simp: core_ok_def uop_ok_def)
  have t1: "oc_curCycle c + 6 \<le> commit" using fr3 c4(9) dc by (simp add: core_frame_def)
  have sbr: "\<forall>q \<in> {uop_rs0 u, uop_rs1 u}. q \<noteq> 0 \<longrightarrow> regScoreboard c ! q \<le> disp"
    using c3(6,7) c4(6,7) o1 o2 by auto
  have gen: "uop_type u \<noteq> UOP_LOAD \<and> uop_type u \<noteq> UOP_STORE \<longrightarrow> commit = disp + uop_lat u" using c5(6) by (simp add: exec_facts_def)
  have rw: "rob_minAllocCycle (rob c) = Inr x" "x + 6 \<le> commit" using c4(4,8) dc o1 o2 c3(8) by simp_all
  have mo: "uop_type u = UOP_LOAD \<or> uop_type u = UOP_STORE \<longrightarrow> lastStoreAddrCommitCycle c < commit"
    using c5(6) o1 o2 o3 o4 by (simp add: exec_facts_def)
  have "uop_timing u c commit ?c"
    unfolding uop_timing_def
  proof (intro conjI)
    show "\<forall>q \<in> {uop_rs0 u, uop_rs1 u}. q \<noteq> 0 \<longrightarrow> regScoreboard c ! q \<le> commit \<and>
        (uop_type u \<noteq> UOP_LOAD \<and> uop_type u \<noteq> UOP_STORE \<longrightarrow> regScoreboard c ! q + uop_lat u \<le> commit)"
      using sbr gen dc by (meson add_right_mono order_trans order_refl)
    show "regScoreboard ?c ! uop_rd0 u = commit" "regScoreboard ?c ! uop_rd1 u = commit" using len by (simp_all add: nth_list_update)
  qed (use t1 rw mo r(3) in auto)
  moreover have "issue_ok c \<longrightarrow> issue_ok ?c" using i2 i3 i4 c5(9) o1 by (auto simp: issue_ok_def)
  ultimately show ?thesis using run okc okm fr cm by (intro exI [of _ ?l] exI [of _ ?c] exI [of _ m']) simp
qed

end

subsection \<open>A basic block\<close>

text \<open>A block the decoder could have built: registers in range, decode cycles in order, as many loads and stores as were recorded.\<close>

definition count_type :: "UopType \<Rightarrow> DynUop list \<Rightarrow> nat" where
  "count_type t us = length (filter (\<lambda>u. uop_type u = t) us)"

lemma count_type_Cons: "count_type t (u # us) = (if uop_type u = t then 1 else 0) + count_type t us"
  by (simp add: count_type_def)

fun dec_ordered :: "nat \<Rightarrow> DynUop list \<Rightarrow> bool" where
  "dec_ordered p [] = True"
| "dec_ordered p (u # us) = (p \<le> uop_decCycle u \<and> dec_ordered (uop_decCycle u) us)"

definition uops_ok :: "nat \<Rightarrow> DynUop list \<Rightarrow> bool" where
  "uops_ok NREG us \<longleftrightarrow> list_all (uop_ok NREG) us \<and> dec_ordered 0 us"

definition block_matches :: "DynUop list \<Rightarrow> OOOCore \<Rightarrow> bool" where
  "block_matches us c \<longleftrightarrow> count_type UOP_LOAD us = loads c \<and> count_type UOP_STORE us = stores c"

context core_memory begin

lemma ooo_uops_ok:
  assumes "core_ok NREG B c" "mem_ok B m" "accesses_ok legal c" "list_all (uop_ok NREG) us" "dec_ordered (prevDec l) us"
    "fst (mem_idx l) + count_type UOP_LOAD us = loads c" "snd (mem_idx l) + count_type UOP_STORE us = stores c" "lastCommit l \<le> B"
    "B + length us * (Lat + 2 ^ 18) < oc_curCycle c + 2 ^ 32" "B + length us * (Lat + 2 ^ 18) \<le> fuel" "B + length us * (Lat + 2 ^ 18) \<le> top"
  shows "\<exists>l' c' m'. ooo_uops ports fuel us (l, c, m) = Inr (l', c', m') \<and> core_ok NREG (B + length us * (Lat + 2 ^ 18)) c' \<and>
    mem_ok (B + length us * (Lat + 2 ^ 18)) m' \<and> core_frame c c' \<and> mem_idx l' = (loads c, stores c) \<and> lastCommit l' \<le> B + length us * (Lat + 2 ^ 18) \<and>
    (issue_ok c \<longrightarrow> issue_ok c')"
  using assms
proof (induction us arbitrary: B l c m)
  case Nil
  then show ?case by (cases "mem_idx l") (simp add: count_type_def)
next
  case (Cons u us)
  let ?G = "Lat + 2 ^ 18"
  have len: "B + length (u # us) * ?G = (B + ?G) + length us * ?G" by simp
  have u: "uop_ok NREG u" "prevDec l \<le> uop_decCycle u" using Cons.prems(4,5) by simp_all
  have ix: "uop_type u = UOP_LOAD \<Longrightarrow> fst (mem_idx l) < loads c" "uop_type u = UOP_STORE \<Longrightarrow> snd (mem_idx l) < stores c"
    using Cons.prems(6,7) by (simp_all add: count_type_def)
  have b: "B + 2 ^ 18 < oc_curCycle c + 2 ^ 32" "B + 2 ^ 18 \<le> fuel" "B + 2 ^ 18 \<le> top" using Cons.prems(9-11) unfolding len by linarith+
  from ooo_uop_ok [OF Cons.prems(1-3) u ix b] obtain l1 c1 m1 where
    s: "ooo_uop ports fuel u (l, c, m) = Inr (l1, c1, m1)" "core_ok NREG (B + Lat + 2 ^ 18) c1" "mem_ok (B + Lat + 2 ^ 18) m1" "core_frame c c1"
      "prevDec l1 = uop_decCycle u" "mem_idx l1 = next_idx u (mem_idx l)" "lastCommit l1 \<le> B + Lat + 2 ^ 18" "issue_ok c \<longrightarrow> issue_ok c1" by blast
  have fr: "loads c1 = loads c" "stores c1 = stores c" "oc_curCycle c \<le> oc_curCycle c1" using s(4) by (simp_all add: core_frame_def)
  have ok1: "core_ok NREG (B + ?G) c1" "mem_ok (B + ?G) m1" "lastCommit l1 \<le> B + ?G" using s(2,3,7) by (simp_all add: add.assoc)
  have acc: "accesses_ok legal c1" using Cons.prems(3) s(4) by (simp add: accesses_ok_def core_frame_def)
  have us: "list_all (uop_ok NREG) us" "dec_ordered (prevDec l1) us" using Cons.prems(4,5) s(5) by simp_all
  have cnt: "fst (mem_idx l1) + count_type UOP_LOAD us = loads c1" "snd (mem_idx l1) + count_type UOP_STORE us = stores c1"
    using Cons.prems(6,7) fr(1,2) by (simp_all add: s(6) count_type_Cons next_idx_def split_beta split: if_splits)
  have b1: "B + ?G + length us * ?G < oc_curCycle c1 + 2 ^ 32" "B + ?G + length us * ?G \<le> fuel" "B + ?G + length us * ?G \<le> top"
    using Cons.prems(9-11) fr(3) unfolding len by linarith+
  from Cons.IH [OF ok1(1,2) acc us cnt ok1(3) b1] obtain l' c' m' where
    r: "ooo_uops ports fuel us (l1, c1, m1) = Inr (l', c', m')" "core_ok NREG (B + ?G + length us * ?G) c'" "mem_ok (B + ?G + length us * ?G) m'"
      "core_frame c1 c'" "mem_idx l' = (loads c1, stores c1)" "lastCommit l' \<le> B + ?G + length us * ?G" "issue_ok c1 \<longrightarrow> issue_ok c'" by blast
  have "ooo_uops ports fuel (u # us) (l, c, m) = Inr (l', c', m')" using s(1) r(1) by simp
  moreover have "core_frame c c'" using core_frame_trans s(4) r(4) by blast
  ultimately show ?case unfolding len using r(2,3,5-7) fr s(8) by (intro exI [of _ l'] exI [of _ c'] exI [of _ m']) simp
qed

lemma wrong_path_ok:
  assumes "mem_ok B m" "cur \<le> B" "B + n * Lat \<le> top" "\<And>j. i \<le> j \<Longrightarrow> j < i + n \<Longrightarrow> legal (a + of_nat (ls * j))"
  shows "\<exists>m'. wrong_path ports ls cur lc n a i req m = Inr m' \<and> mem_ok (B + n * Lat) m'"
  using assms
proof (induction n arbitrary: B i req m)
  case (Suc n)
  have "B \<le> top" using Suc.prems(3) by simp
  have la: "legal (a + of_nat (ls * i))" by (rule Suc.prems(4)) simp_all
  from fetch_ok [OF Suc.prems(1) la Suc.prems(2) \<open>B \<le> top\<close>] obtain r m1 where
    r: "l1i_load ports (a + of_nat (ls * i)) cur m = Inr (r, m1)" "cur \<le> r" "r \<le> B + Lat" "mem_ok (B + Lat) m1" by blast
  from record_ok [OF r(4) order_refl, of cur "cur + u64_sub r cur"] obtain m2 where
    m2: "cRec_record ports cur cur (cur + u64_sub r cur) m1 = Inr m2" "mem_ok (B + Lat) m2" by auto
  have "cur \<le> B + Lat" "B + Lat + n * Lat \<le> top" using Suc.prems(2,3) by simp_all
  moreover have "legal (a + of_nat (ls * j))" if "i + 1 \<le> j" "j < i + 1 + n" for j by (rule Suc.prems(4)) (use that in simp_all)
  ultimately have "\<exists>m'. wrong_path ports ls cur lc n a (i + 1) (req + u64_sub r cur + ls div 16) m2 = Inr m' \<and> mem_ok (B + Lat + n * Lat) m'"
    using Suc.IH [OF m2(2), of "i + 1" "req + u64_sub r cur + ls div 16"] by blast
  then obtain m' where
    m': "wrong_path ports ls cur lc n a (i + 1) (req + u64_sub r cur + ls div 16) m2 = Inr m'" "mem_ok (B + Lat + n * Lat) m'" by blast
  have "mem_ok (B + Suc n * Lat) m2" by (rule mem_mono [OF m2(2)]) simp
  then show ?case using r(1) m2(1) m' by (simp add: Let_def add.assoc)
qed simp

lemma fetch_lines_ok:
  assumes "mem_ok B m" "cur \<le> B" "B + n * Lat \<le> top" "\<And>k. unat a \<le> unat k \<Longrightarrow> k < e \<Longrightarrow> legal k" "0 < ls"
    "unat e \<le> unat a + n * ls" "n \<le> fuel" "unat e + ls < 2 ^ 64"
  shows "\<exists>f' m'. fetch_lines ports fuel ls cur a e f m = Inr (f', m') \<and> mem_ok (B + n * Lat) m' \<and> f \<le> f'"
  using assms(1-4,6,7)
proof (induction n arbitrary: B a f m fuel)
  case 0
  then show ?case by (cases fuel) (simp_all add: word_less_nat_alt)
next
  case (Suc n)
  obtain fl where fl: "fuel = Suc fl" "n \<le> fl" using Suc.prems(6) by (cases fuel) auto
  show ?case
  proof (cases "a < e")
    case False
    then show ?thesis using mem_mono [OF Suc.prems(1), of "B + Suc n * Lat"] by (intro exI [of _ f] exI [of _ m]) (simp add: fl(1))
  next
    case True
    have "B \<le> top" using Suc.prems(3) by simp
    have la: "legal a" by (rule Suc.prems(4)) (use True in simp_all)
    from fetch_ok [OF Suc.prems(1) la Suc.prems(2) \<open>B \<le> top\<close>] obtain r m1 where
      r: "l1i_load ports a cur m = Inr (r, m1)" "cur \<le> r" "r \<le> B + Lat" "mem_ok (B + Lat) m1" by blast
    from record_ok [OF r(4) order_refl, of cur "cur + u64_sub r cur"] obtain m2 where
      m2: "cRec_record ports cur cur (cur + u64_sub r cur) m1 = Inr m2" "mem_ok (B + Lat) m2" by auto
    have "unat a < unat e" using True by (simp add: word_less_nat_alt)
    then have "unat a + ls < 2 ^ 64" using assms(8) by linarith
    then have ua: "unat (a + of_nat ls) = unat a + ls" by (simp add: unat_word_ariths unsigned_of_nat take_bit_eq_mod)
    have "cur \<le> B + Lat" "B + Lat + n * Lat \<le> top" using Suc.prems(2,3) by simp_all
    moreover have "legal k" if "unat (a + of_nat ls) \<le> unat k" "k < e" for k using Suc.prems(4) [of k] that unfolding ua by simp
    moreover have "unat e \<le> unat (a + of_nat ls) + n * ls" using Suc.prems(5) unfolding ua by simp
    ultimately obtain f' m' where
      m': "fetch_lines ports fl ls cur (a + of_nat ls) e (f + u64_sub r cur) m2 = Inr (f', m')" "mem_ok (B + Lat + n * Lat) m'" "f + u64_sub r cur \<le> f'"
      using Suc.IH [OF m2(2), of "a + of_nat ls" fl "f + u64_sub r cur"] fl(2) by blast
    show ?thesis using True r(1) m2(1) m' by (intro exI [of _ f'] exI [of _ m']) (simp add: fl(1) Let_def add.assoc)
  qed
qed

end

lemma bp_predict_shape:
  assumes "bp_shape b"
  shows "\<exists>hit b'. bp_predict 11 18 14 pc taken b = Inr (hit, b') \<and> bp_shape b'"
proof -
  have l: "length (bhsr b) = 2 ^ 11" "length (pht b) = 2 ^ 14" using assms by (auto simp: bp_shape_def)
  have s: "ref_slot 11 pc < length (bhsr b)" unfolding l ref_slot_def by simp
  have i: "unat (bp_pht_idx 18 14 h) < length (pht b)" for h unfolding l by (rule bp_idx_bound) simp
  have n: "(11 :: nat) < 32" by simp
  show ?thesis unfolding bp_predict_def Let_def bp_slot [OF n]
    using s i l by (simp add: aget_def bp_shape_def)
qed

text \<open>Addresses fetched on a wrong path.\<close>

definition branch_legal :: "(u64 \<Rightarrow> bool) \<Rightarrow> nat \<Rightarrow> OOOCore \<Rightarrow> bool" where
  "branch_legal lg ls c \<longleftrightarrow> (\<forall>j < 320 div ls. lg (branchTakenNpc c + of_nat (ls * j)) \<and> lg (branchNotTakenNpc c + of_nat (ls * j)))"

text \<open>The addresses of a block.\<close>

definition code_legal :: "(u64 \<Rightarrow> bool) \<Rightarrow> nat \<Rightarrow> u64 \<Rightarrow> nat \<Rightarrow> bool" where
  "code_legal lg ls a n \<longleftrightarrow> unat a + n + ls < 2 ^ 64 \<and> (\<forall>k. unat a \<le> unat k \<and> unat k < unat a + n \<longrightarrow> lg k)"

context core_memory begin

lemma predict_branch_ok:
  assumes c: "core_ok NREG B c" and m: "mem_ok B m" and lg: "branch_legal legal ls c" and tp: "B + 320 * Lat \<le> top"
    and ls: "0 < ls" and lc: "lc \<le> B" and f: "f \<le> B"
  shows "\<exists>f' c' m'. predict_branch ports ls lc f (c, m) = Inr (f', c', m') \<and> f' \<le> B \<and> core_ok NREG B c' \<and> mem_ok (B + 320 * Lat) m' \<and> branchPc c' = 0 \<and>
    (\<exists>bp x y. c' = c\<lparr>branchPred := bp, branchPc := 0, condBranches := x, mispredBranches := y\<rparr>)"
proof (cases "branchPc c = 0")
  case True
  let ?c = "c\<lparr>branchPred := branchPred c, branchPc := 0, condBranches := condBranches c, mispredBranches := mispredBranches c\<rparr>"
  have e: "?c = c" using True by simp
  have "predict_branch ports ls lc f (c, m) = Inr (f, ?c, m)" unfolding e using True by (simp add: predict_branch_def)
  moreover have "core_ok NREG B ?c" unfolding e by (rule c)
  moreover have "mem_ok (B + 320 * Lat) m" by (rule mem_mono [OF m]) simp
  moreover have "branchPc ?c = 0" "\<exists>bp x y. ?c = c\<lparr>branchPred := bp, branchPc := 0, condBranches := x, mispredBranches := y\<rparr>" by (simp, blast)
  ultimately show ?thesis using f by blast
next
  case False
  have "bp_shape (branchPred c)" using c by (simp add: core_ok_def)
  from bp_predict_shape [OF this] obtain hit b where b: "bp_predict 11 18 14 (branchPc c) (branchTaken c) (branchPred c) = Inr (hit, b)" "bp_shape b" by blast
  have ok: "core_ok NREG B (c\<lparr>branchPred := b, branchPc := 0, condBranches := x, mispredBranches := y\<rparr>)" for x y
    using c b(2) by (simp add: core_ok_def)
  show ?thesis
  proof (cases hit)
    case True
    let ?c = "c\<lparr>branchPred := b, branchPc := 0, condBranches := condBranches c + 1, mispredBranches := mispredBranches c\<rparr>"
    have "predict_branch ports ls lc f (c, m) = Inr (f, ?c, m)" using False b(1) True by (simp add: predict_branch_def)
    moreover have "core_ok NREG B ?c" by (rule ok)
    moreover have "mem_ok (B + 320 * Lat) m" by (rule mem_mono [OF m]) simp
    moreover have "branchPc ?c = 0" "\<exists>bp x y. ?c = c\<lparr>branchPred := bp, branchPc := 0, condBranches := x, mispredBranches := y\<rparr>" by (simp, blast)
    ultimately show ?thesis using f by blast
  next
    case nohit: False
    define w where "w = (if branchTaken c then branchNotTakenNpc c else branchTakenNpc c)"
    have cur: "oc_curCycle c \<le> B" using c by (simp add: core_ok_def)
    have n: "320 div ls \<le> 320" by (rule div_le_dividend)
    have nm: "(320 div ls) * Lat \<le> 320 * Lat" by (rule mult_le_mono1 [OF n])
    have t: "B + (320 div ls) * Lat \<le> top" using tp nm by linarith
    have lw: "legal (w + of_nat (ls * j))" if "0 \<le> j" "j < 0 + 320 div ls" for j using lg that by (simp add: branch_legal_def w_def)
    from wrong_path_ok [OF m cur t lw, where lc = lc and req = f] obtain m' where
      m': "wrong_path ports ls (oc_curCycle c) lc (320 div ls) w 0 f m = Inr m'" "mem_ok (B + (320 div ls) * Lat) m'" by blast
    let ?c = "c\<lparr>branchPred := b, branchPc := 0, condBranches := condBranches c + 1, mispredBranches := mispredBranches c + 1\<rparr>"
    have "predict_branch ports ls lc f (c, m) = Inr (lc, ?c, m')" using False b(1) nohit m'(1) by (simp add: predict_branch_def w_def [symmetric])
    moreover have "mem_ok (B + 320 * Lat) m'" by (rule mem_mono [OF m'(2)]) (use nm in linarith)
    moreover have "core_ok NREG B ?c" by (rule ok)
    moreover have "branchPc ?c = 0" "\<exists>bp x y. ?c = c\<lparr>branchPred := bp, branchPc := 0, condBranches := x, mispredBranches := y\<rparr>" by (simp, blast)
    ultimately show ?thesis using lc by blast
  qed
qed

text \<open>A whole block.\<close>

lemma ooo_bbl_ok:
  assumes pv: "prevBbl c = Some bbl" and c: "core_ok NREG B c" and m: "mem_ok B m" and a: "accesses_ok legal c"
    and us: "uops_ok NREG (bbl_uop bbl)" "block_matches (bbl_uop bbl) c"
    and lg: "branch_legal legal (2 ^ lineBits) c" "code_legal legal (2 ^ lineBits) bblAddr (bbl_bytes info)"
    and near: "B + length (bbl_uop bbl) * (Lat + 2 ^ 18) < oc_curCycle c + 2 ^ 32"
    and fuel: "B + length (bbl_uop bbl) * (Lat + 2 ^ 18) + bbl_bytes info \<le> fuel"
    and tp: "B + length (bbl_uop bbl) * (Lat + 2 ^ 18) + (320 + bbl_bytes info) * Lat \<le> top"
  shows "\<exists>c' m' B'. ooo_bbl ports fuel lineBits bblAddr info (c, m) = Inr (c', m') \<and> core_ok NREG B' c' \<and> mem_ok B' m' \<and>
    oc_curCycle c \<le> oc_curCycle c' \<and> prevBbl c' = Some info \<and> loads c' = 0 \<and> stores c' = 0 \<and> branchPc c' = 0 \<and>
    oc_instrs c' = oc_instrs c + bbl_instrs bbl \<and> oc_uops c' = oc_uops c + length (bbl_uop bbl) \<and> oc_bbls c' = oc_bbls c + 1 \<and>
    (issue_ok c \<longrightarrow> issue_ok c')"
proof -
  let ?us = "bbl_uop bbl" and ?ls = "2 ^ lineBits :: nat" and ?n = "bbl_bytes info"
  define B1 where "B1 = B + length ?us * (Lat + 2 ^ 18)"
  let ?l = "\<lparr>prevDec = 0, mem_idx = (0, 0), lastCommit = 0\<rparr>" and ?c0 = "c\<lparr>prevBbl := Some info\<rparr>"
  have c0: "core_ok NREG B ?c0" "accesses_ok legal ?c0" using c a by (simp_all add: core_ok_def accesses_ok_def)
  have us': "list_all (uop_ok NREG) ?us" "dec_ordered (prevDec ?l) ?us" using us(1) by (simp_all add: uops_ok_def)
  have cnt: "fst (mem_idx ?l) + count_type UOP_LOAD ?us = loads ?c0" "snd (mem_idx ?l) + count_type UOP_STORE ?us = stores ?c0"
    using us(2) by (simp_all add: block_matches_def)
  have z: "lastCommit ?l \<le> B" by simp
  have b: "B + length ?us * (Lat + 2 ^ 18) < oc_curCycle ?c0 + 2 ^ 32" "B + length ?us * (Lat + 2 ^ 18) \<le> fuel" "B + length ?us * (Lat + 2 ^ 18) \<le> top"
    using near fuel tp by simp_all
  from ooo_uops_ok [OF c0(1) m c0(2) us' cnt z b, folded B1_def] obtain l c1 m1 where
    r: "ooo_uops ports fuel ?us (?l, ?c0, m) = Inr (l, c1, m1)" "core_ok NREG B1 c1" "mem_ok B1 m1" "core_frame ?c0 c1" "mem_idx l = (loads ?c0, stores ?c0)"
      "lastCommit l \<le> B1" "issue_ok ?c0 \<longrightarrow> issue_ok c1" by blast
  define c2 where "c2 = c1\<lparr>oc_instrs := oc_instrs c1 + bbl_instrs bbl, oc_uops := oc_uops c1 + length ?us, oc_bbls := oc_bbls c1 + 1,
    oc_approxInstrs := oc_approxInstrs c1 + bbl_approxInstrs bbl\<rparr>"
  define c3 where "c3 = c2\<lparr>loads := 0, stores := 0\<rparr>"
  have fr: "loads c1 = loads c" "stores c1 = stores c" "oc_curCycle c \<le> oc_curCycle c1" "prevBbl c1 = Some info" "oc_instrs c1 = oc_instrs c"
    "oc_uops c1 = oc_uops c" "oc_bbls c1 = oc_bbls c" "branchTakenNpc c1 = branchTakenNpc c" "branchNotTakenNpc c1 = branchNotTakenNpc c"
    using r(4) by (simp_all add: core_frame_def)
  have c3: "core_ok NREG B1 c3" using r(2) by (simp add: core_ok_def c3_def c2_def)
  have l3: "branch_legal legal ?ls c3" using lg(1) fr by (simp add: branch_legal_def c3_def c2_def)
  have dc: "3 \<le> decodeCycle c1" "decodeCycle c1 \<le> B1" using r(2) by (auto simp: core_ok_def)
  have f0: "u64_sub (decodeCycle c2) 3 \<le> B1"
  proof -
    have "(decodeCycle c1 + 2 ^ 64 - 3) mod 2 ^ 64 = (decodeCycle c1 - 3 + 2 ^ 64) mod 2 ^ 64" using dc(1) by simp
    also have "\<dots> \<le> decodeCycle c1 - 3" unfolding mod_add_self2 by (rule mod_less_eq_dividend)
    finally show ?thesis using dc by (simp add: u64_sub_def c2_def)
  qed
  have t1: "B1 + 320 * Lat \<le> top" using tp by (simp add: B1_def algebra_simps)
  have lsp: "0 < ?ls" by simp
  from predict_branch_ok [OF c3 r(3) l3 t1 lsp r(6) f0] obtain f c4 m2 where
    p: "predict_branch ports ?ls (lastCommit l) (u64_sub (decodeCycle c2) 3) (c3, m1) = Inr (f, c4, m2)" "f \<le> B1" "core_ok NREG B1 c4"
      "mem_ok (B1 + 320 * Lat) m2" "branchPc c4 = 0" "\<exists>bp x y. c4 = c3\<lparr>branchPred := bp, branchPc := 0, condBranches := x, mispredBranches := y\<rparr>" by blast
  have cur: "oc_curCycle c4 \<le> B1 + 320 * Lat" using p(3) by (simp add: core_ok_def)
  let ?e = "bblAddr + of_nat ?n"
  have ue: "unat ?e = unat bblAddr + ?n" using lg(2) by (simp add: code_legal_def unat_word_ariths unsigned_of_nat take_bit_eq_mod)
  have cl: "legal k" if "unat bblAddr \<le> unat k" "k < ?e" for k using lg(2) that by (simp add: code_legal_def word_less_nat_alt [of k] ue)
  have t2: "B1 + 320 * Lat + ?n * Lat \<le> top" using tp by (simp add: B1_def algebra_simps)
  have lines: "unat ?e \<le> unat bblAddr + ?n * ?ls" "?n \<le> fuel" "unat ?e + ?ls < 2 ^ 64" using lg(2) fuel unfolding ue by (simp_all add: code_legal_def)
  from fetch_lines_ok [OF p(4) cur t2 cl lsp lines, of f] obtain f' m3 where
    q: "fetch_lines ports fuel ?ls (oc_curCycle c4) bblAddr ?e f m2 = Inr (f', m3)" "mem_ok (B1 + 320 * Lat + ?n * Lat) m3" by blast
  define c5 where "c5 = c4\<lparr>decodeCycle := max (decodeCycle c4 + 1) (f' + 3)\<rparr>"
  have chk: "fst (mem_idx l) = loads c2" "snd (mem_idx l) = stores c2" using r(5) fr by (simp_all add: c2_def)
  have run: "ooo_bbl ports fuel lineBits bblAddr info (c, m) = Inr (c5, m3)"
    by (simp only: ooo_bbl_def prod.case pv option.case r(1) rbind_simps Let_def c2_def [symmetric] chk simp_thms check_simps c3_def [symmetric] p(1) q(1) c5_def [symmetric])
  define B' where "B' = max (f' + 3) (max (B1 + 1) (B1 + 320 * Lat + ?n * Lat))"
  have "core_ok NREG B' c4" by (rule core_ok_mono [OF p(3)]) (simp add: B'_def)
  moreover have "decodeCycle c4 \<le> B1" using p(3) by (simp add: core_ok_def)
  then have "3 \<le> max (decodeCycle c4 + 1) (f' + 3)" "max (decodeCycle c4 + 1) (f' + 3) \<le> B'" by (auto simp: B'_def)
  ultimately have "core_ok NREG B' c5" by (simp add: core_ok_def c5_def)
  moreover have "mem_ok B' m3" by (rule mem_mono [OF q(2)]) (simp add: B'_def)
  moreover have "oc_curCycle c5 = oc_curCycle c1" "prevBbl c5 = Some info" "loads c5 = 0" "stores c5 = 0" "branchPc c5 = 0"
    "oc_instrs c5 = oc_instrs c + bbl_instrs bbl" "oc_uops c5 = oc_uops c + length ?us" "oc_bbls c5 = oc_bbls c + 1"
    "curCycleIssuedUops c5 = curCycleIssuedUops c1"
    using p(6) fr by (auto simp: c5_def c3_def c2_def)
  ultimately show ?thesis using run fr(3) r(7) by (intro exI [of _ c5] exI [of _ m3] exI [of _ B']) (simp add: issue_ok_def)
qed

end

end
