(* ===== verification/EventFrame.thy ===== *)
theory EventFrame
  imports TimingEvents
begin

text \<open>
  What linking, queueing and finishing events leave alone: the fields that an extension of the state \<open>weave\<close> adds are untouched, and
  the number of the next event only grows.  The recorder of the out-of-order core rests on it.
\<close>

definition ext_le :: "'x weave_scheme \<Rightarrow> 'x weave_scheme \<Rightarrow> bool" where
  "ext_le w w' \<longleftrightarrow> weave.more w' = weave.more w \<and> nextEv w \<le> nextEv w'"

text \<open>A fallible step that keeps the frame.\<close>

definition frames :: "'x weave_scheme \<Rightarrow> 'x weave_scheme res \<Rightarrow> bool" where
  "frames w m \<longleftrightarrow> (\<forall>w'. m = Inr w' \<longrightarrow> ext_le w w')"

named_theorems frame

lemma ext_le_refl [simp]: "ext_le w w" by (simp add: ext_le_def)
lemma ext_le_trans: "ext_le w w' \<Longrightarrow> ext_le w' w'' \<Longrightarrow> ext_le w w''" by (simp add: ext_le_def)
lemma ext_le_set_ev [simp]: "ext_le w (set_ev e t w') = ext_le w w'" by (simp add: ext_le_def set_ev_def)
lemma ext_le_domains [simp]: "ext_le w (w'\<lparr>domains := d\<rparr>) = ext_le w w'" by (simp add: ext_le_def)
lemma ext_le_recorders [simp]: "ext_le w (w'\<lparr>recorders := d\<rparr>) = ext_le w w'" by (simp add: ext_le_def)
lemma ext_le_lastCrossing [simp]: "ext_le w (w'\<lparr>lastCrossing := d\<rparr>) = ext_le w w'" by (simp add: ext_le_def)

lemma framesD: "frames w m \<Longrightarrow> m = Inr w' \<Longrightarrow> ext_le w w'" by (simp add: frames_def)

lemma frames_simps [simp]: "frames w (Inl e)" "frames w (Inr w') = ext_le w w'" by (simp_all add: frames_def)

lemma frames_check [frame]: "(b \<Longrightarrow> frames w m) \<Longrightarrow> frames w (check b e m)" by (cases b) simp_all
lemma frames_read [frame]: "(\<And>x. m = Inr x \<Longrightarrow> frames w (k x)) \<Longrightarrow> frames w (rbind m k)" by (cases m) simp_all
lemma frames_if [frame]: "(b \<Longrightarrow> frames w m) \<Longrightarrow> (\<not> b \<Longrightarrow> frames w m') \<Longrightarrow> frames w (if b then m else m')" by simp

text \<open>A step on the state, then the rest.\<close>

lemma frames_step: "frames w m \<Longrightarrow> (\<And>w'. ext_le w w' \<Longrightarrow> frames w (k w')) \<Longrightarrow> frames w (rbind m k)"
  by (cases m) (simp_all add: frames_def)

lemma frames_trans: "ext_le w w1 \<Longrightarrow> frames w1 m \<Longrightarrow> frames w m" by (auto simp: frames_def intro: ext_le_trans)

lemma visit_slots_frames:
  assumes "\<And>s c w. frames w (f s c w)"
  shows "visit_slots f e j is (n, w) = Inr (n', w') \<Longrightarrow> ext_le w w'"
proof (induction "is" arbitrary: n w)
  case (Cons i "is")
  from Cons.prems obtain s where s: "block_slot e j i w = Inr s"
    "(case s of None \<Rightarrow> Inr (n, w) | Some c \<Rightarrow> rbind (f (InBlock j i) c w) (\<lambda>w'. visit_slots f e j is (n + 1, w'))) = Inr (n', w')"
    unfolding visit_slots.simps rbind_Inr_iff by blast
  show ?case
  proof (cases s)
    case (Some c)
    then obtain w1 where "f (InBlock j i) c w = Inr w1" "visit_slots f e j is (n + 1, w1) = Inr (n', w')" using s(2) by (auto simp: rbind_Inr_iff)
    then show ?thesis using Cons.IH framesD [OF assms] ext_le_trans by blast
  qed (use s in simp)
qed simp

lemma visit_blocks_frames:
  assumes "\<And>s c w. frames w (f s c w)"
  shows "visit_blocks f e j (n, w) = Inr (n', w') \<Longrightarrow> ext_le w w'"
proof (induction j arbitrary: n w)
  case (Suc j)
  then obtain n1 w1 where "visit_slots f e j [0..<TIMING_BLOCK_EVENTS] (n, w) = Inr (n1, w1)" "visit_blocks f e j (n1, w1) = Inr (n', w')"
    by (auto simp: rbind_Inr_iff simp del: upt_Suc)
  then show ?case using Suc.IH visit_slots_frames [where f = f, OF assms] ext_le_trans by blast
qed simp

lemma visitChildren_frames:
  assumes "\<And>s c w. frames w (f s c w)"
  shows "frames w (visitChildren f e w)"
proof -
  have "frames w (rbind (visit_blocks f e n (0, w)) (\<lambda>(n, w'). rbind (get_ev e w') (\<lambda>t'. check (n = numChildren t') AssertFailed (Inr w'))))" for n
    using visit_blocks_frames [where f = f, OF assms] by (auto simp: frames_def rbind_Inr_iff check_Inr_iff)
  then show ?thesis unfolding visitChildren_def
    using assms by (intro frames_read frames_if) (auto split: Children.splits option.splits)
qed

lemma propagateDomain_frames [frame]: "frames w (propagateDomain fuel dm e w)"
proof (induction fuel arbitrary: e w)
  case (Suc fuel)
  have "frames w1 (rbind (get_ev c w1) (\<lambda>tc. if domain tc = None then propagateDomain fuel dm c w1 else Inr w1))" for c and w1 :: "'a weave_scheme"
    using Suc by (intro frames_read frames_if) auto
  then have "frames (set_ev e t w) (visitChildren (\<lambda>_ c w1. rbind (get_ev c w1) (\<lambda>tc.
      if domain tc = None then propagateDomain fuel dm c w1 else Inr w1)) e (set_ev e t w))" for t
    by (intro visitChildren_frames)
  then have "frames w (visitChildren (\<lambda>_ c w1. rbind (get_ev c w1) (\<lambda>tc.
      if domain tc = None then propagateDomain fuel dm c w1 else Inr w1)) e (set_ev e t w))" for t
    by (rule frames_trans [rotated]) simp
  then show ?case unfolding propagateDomain.simps by (intro frames_read frames_check)
qed simp

lemma addChild_frames [frame]: "frames w (addChild fuel p c w)"
  unfolding addChild_def
proof (rule frames_read, rule frames_check, rule frames_read, rule frames_check, rule frames_read, rule frames_step)
  fix tp tc tp'
  have "frames w (propagateDomain fuel d c (set_ev p tp' w))" for d by (rule frames_trans [OF _ propagateDomain_frames]) simp
  then show "frames w (if domain tp' \<noteq> None \<and> domain tc = None then propagateDomain fuel (domain tp') c (set_ev p tp' w) else Inr (set_ev p tp' w))" by simp
next
  fix w1 assume "ext_le w w1"
  then show "frames w (rbind (get_ev c w1) (\<lambda>tc1. Inr (set_ev c (tc1\<lparr>numParents := numParents tc1 + 1\<rparr>) w1)))" by (intro frames_read) simp
qed

lemma dom_enqueue_frames [frame]: "frames w (dom_enqueue e d cyc w)"
  unfolding dom_enqueue_def by (intro frames_read) simp

lemma set_dom_enqueue_frames: "frames w (dom_enqueue e d cyc (set_ev e' t w))"
  by (rule frames_trans [OF _ dom_enqueue_frames]) simp

lemma cs_enqueue_frames [frame]: "frames w (cs_enqueue e cyc w)"
  unfolding cs_enqueue_def by (intro frames_read frames_check set_dom_enqueue_frames)

lemma cs_enqueueSynced_frames [frame]: "frames w (cs_enqueueSynced e cyc w)"
  unfolding cs_enqueueSynced_def by (auto intro!: frames_read frames_check set_dom_enqueue_frames split: option.splits)

lemma ev_queue_frames [frame]: "frames w (ev_queue e cyc w)"
  unfolding ev_queue_def by (intro frames_read frames_check frames_trans [OF _ cs_enqueueSynced_frames]) simp

lemma base_parentDone_frames [frame]: "frames w (base_parentDone e cyc w)"
  unfolding base_parentDone_def Let_def
  by (intro frames_read frames_check frames_if frames_trans [OF _ cs_enqueue_frames]) simp_all

lemma markSrcEventDone_frames [frame]: "frames w (markSrcEventDone e cyc w)"
  unfolding markSrcEventDone_def by (auto intro!: frames_read frames_check split: EvKind.splits)

lemma cross_parentDone_frames [frame]: "frames w (cross_parentDone e x cyc w)"
  unfolding cross_parentDone_def Let_def by (intro frames_read frames_trans [OF _ base_parentDone_frames]) simp

lemma ev_done_frames:
  assumes "\<And>c s w. frames w (pd c s w)"
  shows "frames w (ev_done pd e s w)"
  unfolding ev_done_def
proof (rule frames_read, rule frames_check, rule frames_step)
  fix t
  have "frames (set_ev e (t\<lparr>ev_state := EV_DONE\<rparr>) w) (visitChildren (\<lambda>_ c. pd c (s + postDelay t)) e (set_ev e (t\<lparr>ev_state := EV_DONE\<rparr>) w))"
    using assms by (rule visitChildren_frames)
  then show "frames w (visitChildren (\<lambda>_ c. pd c (s + postDelay t)) e (set_ev e (t\<lparr>ev_state := EV_DONE\<rparr>) w))"
    by (rule frames_trans [rotated]) simp
qed (simp add: free_ev_def ext_le_def)

lemma parentDone_frames [frame]: "frames w (parentDone fuel e s w)"
proof (induction fuel arbitrary: e s w)
  case (Suc fuel)
  have d: "frames w1 (ev_done (parentDone fuel) c s w1)" for c s and w1 :: "'a weave_scheme" by (rule ev_done_frames) (rule Suc)
  have d1: "frames w (ev_done (parentDone fuel) c s (set_ev e t w))" for c s t by (rule frames_trans [OF _ d]) simp
  have d2: "frames w (rbind (markSrcEventDone ce s (set_ev e t0 w)) (\<lambda>w1. rbind (get_ev e w1) (\<lambda>t1. check (ev_state t1 = EV_NONE) AssertFailed
              (ev_done (parentDone fuel) e s (set_ev e (t1\<lparr>ev_state := EV_RUNNING\<rparr>) w1)))))" for ce t0
  proof (rule frames_trans [of _ "set_ev e t0 w"], simp, rule frames_step [OF markSrcEventDone_frames])
    fix w1 assume "ext_le (set_ev e t0 w) w1"
    moreover have "frames w1 (rbind (get_ev e w1) (\<lambda>t1. check (ev_state t1 = EV_NONE) AssertFailed
              (ev_done (parentDone fuel) e s (set_ev e (t1\<lparr>ev_state := EV_RUNNING\<rparr>) w1))))"
      by (intro frames_read frames_check frames_trans [OF _ d]) simp
    ultimately show "frames (set_ev e t0 w) (rbind (get_ev e w1) (\<lambda>t1. check (ev_state t1 = EV_NONE) AssertFailed
              (ev_done (parentDone fuel) e s (set_ev e (t1\<lparr>ev_state := EV_RUNNING\<rparr>) w1))))" by (rule frames_trans)
  qed
  show ?case unfolding parentDone.simps Let_def
    by (rule frames_read) (auto intro!: frames_check d1 d2 base_parentDone_frames cross_parentDone_frames split: EvKind.splits)
qed (simp add: parentDone.simps)

lemma event_done_frames [frame]: "frames w (event_done fuel e s w)"
  unfolding event_done_def by (rule ev_done_frames) (rule parentDone_frames)

subsection \<open>Crossings\<close>

lemma enqueueCrossing_frames [frame]: "frames w (enqueueCrossing fuel ev cyc sid sd dd er w)"
proof -
  have a: "frames w (addChild fuel p ev (w\<lparr>recorders := r\<rparr>))" for p r by (rule frames_trans [OF _ addChild_frames]) simp
  have q: "frames w (cs_enqueueSynced ev cyc (w\<lparr>recorders := r\<rparr>))" for r by (rule frames_trans [OF _ cs_enqueueSynced_frames]) simp
  show ?thesis unfolding enqueueCrossing_def Let_def
  proof (rule frames_read, rule frames_read, goal_cases)
    case (1 t req)
    show ?case
    proof (cases req)
      case None
      show ?thesis unfolding None option.case
        by (rule frames_read, rule frames_step) (auto intro!: frames_if frames_read frames_check a q)
    qed (simp add: a)
  qed
qed

lemma CrossingEvent_new_frames:
  assumes "CrossingEvent_new fuel p c ms er w = Inr (ce, cpe, w')"
  shows "ext_le w w'"
  using assms
  by (auto simp: CrossingEvent_new_def rbind_Inr_iff check_Inr_iff Let_def split: option.splits
      dest!: framesD [OF addChild_frames] framesD [OF enqueueCrossing_frames])
    (auto simp: ext_le_def set_ev_def)

lemma handleCrossing_frames:
  assumes "handleCrossing fuel p c er u w = Inr (n, w')"
  shows "ext_le w w'"
proof -
  from assms obtain tc w1 tp m ce where a: "get_ev c w = Inr tc"
    "(if u then check (numParents tc \<noteq> 0) AssertFailed (Inr (set_ev c (tc\<lparr>numParents := numParents tc - 1\<rparr>) w)) else Inr w) = Inr w1"
    "CrossingEvent_new fuel p c m er w1 = Inr (ce, n, w')"
    unfolding handleCrossing_def by (auto simp: rbind_Inr_iff split: option.splits)
  have "ext_le w w1" using a(2) by (auto simp: check_Inr_iff split: if_splits)
  then show ?thesis using CrossingEvent_new_frames [OF a(3)] ext_le_trans by blast
qed

lemma set_slot_frames [frame]: "frames w (set_slot e sl c w)"
  unfolding set_slot_def by (auto intro!: frames_read split: slot.splits Children.splits)

lemma produceCrossings_frames [frame]: "frames w (produceCrossings fuel er e w)"
proof (induction fuel arbitrary: e w)
  case (Suc fuel)
  have x: "frames w1 (rbind (handleCrossing fuel e c er True w1) (\<lambda>(n, w2). set_slot e sl n w2))" for c sl and w1 :: "'a weave_scheme"
    by (auto simp: frames_def rbind_Inr_iff dest!: handleCrossing_frames framesD [OF set_slot_frames] intro: ext_le_trans)
  have y: "frames w1 (rbind (if b then rbind (handleCrossing fuel e c er True w1) (\<lambda>(n, w2). set_slot e sl n w2) else Inr w1)
      (produceCrossings fuel er c))" for b c sl and w1 :: "'a weave_scheme"
    by (rule frames_step) (auto simp: x intro: frames_trans Suc)
  show ?case unfolding produceCrossings.simps
    by (rule frames_read, rule frames_check, rule visitChildren_frames, rule frames_read, rule frames_read, rule y)
qed simp

end
