(* ===== verification/OooRec.thy ===== *)
theory OooRec
  imports CoreRec EventFrame
begin

text \<open>
  The recorder of the out-of-order core (ooo_core_recorder.h, ooo_core_recorder.cpp).  Accesses overlap: an access hangs off an
  issue event and, through a dispatch event, off the responses it may have waited for; the recorder keeps the responses that are still
  to come.  Issue events carry their cycle on the clock without contention (\<open>ev_zll\<close>); a response event that has been
  simulated is marked (\<open>resp_done\<close>, the null recorder pointer of the event).

  The queue of responses, a heap of the standard library, is a list in increasing order; nothing else is assumed of the order in
  which its container is walked.  Event identifiers, used in traces only, are left out.
\<close>

record OOOCoreRecorder =
  or_state :: RecState
  or_gapCycles :: u64
  lastEvProduced :: "nat option"
  futureResponses :: "(u64 \<times> nat option) list"
  lastEvSimulatedZllStartCycle :: u64
  lastEvSimulatedStartCycle :: u64
  or_totalGapCycles :: u64
  or_totalHaltedCycles :: u64
  or_lastUnhaltedCycle :: u64
  or_domain :: nat

record oweave = weave +
  ev_zll :: "nat \<Rightarrow> u64"
  resp_done :: "nat \<Rightarrow> bool"

subsection \<open>Events\<close>

definition OOOIssueEvent :: "u64 \<Rightarrow> nat \<Rightarrow> 'x oweave_scheme \<Rightarrow> nat \<times> 'x oweave_scheme" where
  "OOOIssueEvent zll dm w = (let (e, w1) = new_ev (TimingEvent_init 0 0 (Some dm) KPlain) w in (e, w1\<lparr>ev_zll := (ev_zll w1)(e := zll)\<rparr>))"

definition OOODispatchEvent :: "u64 \<Rightarrow> 'x oweave_scheme \<Rightarrow> nat \<times> 'x oweave_scheme" where
  "OOODispatchEvent zll w = (let (e, w1) = new_ev (TimingEvent_init 0 0 None KPlain) w in (e, w1\<lparr>ev_zll := (ev_zll w1)(e := zll)\<rparr>))"

definition OOORespEvent :: "u64 \<Rightarrow> nat \<Rightarrow> 'x oweave_scheme \<Rightarrow> nat \<times> 'x oweave_scheme" where
  "OOORespEvent pd dm w =
     (let (e, w1) = new_ev (TimingEvent_init (unat (ucast pd :: u32)) 0 (Some dm) KPlain) w in (e, w1\<lparr>resp_done := (resp_done w1)(e := False)\<rparr>))"

definition setMinStart :: "nat \<Rightarrow> u64 \<Rightarrow> 'x oweave_scheme \<Rightarrow> 'x oweave_scheme res" where
  "setMinStart e c w = rbind (get_ev e w) (\<lambda>t. Inr (set_ev e (t\<lparr>minStartCycle := Some (unat c)\<rparr>) w))"

definition setPreDelay :: "nat \<Rightarrow> u32 \<Rightarrow> 'x oweave_scheme \<Rightarrow> 'x oweave_scheme res" where
  "setPreDelay e d w = rbind (get_ev e w) (\<lambda>t. Inr (set_ev e (t\<lparr>preDelay := unat d\<rparr>) w))"

text \<open>A new delay event; its delay is a 32-bit field.\<close>

definition delay_ev :: "u32 \<Rightarrow> u64 option \<Rightarrow> 'x oweave_scheme \<Rightarrow> nat \<times> 'x oweave_scheme" where
  "delay_ev d c w = new_ev ((DelayEvent_init (unat d))\<lparr>minStartCycle := map_option unat c\<rparr>) w"

definition push_resp :: "u64 \<times> nat option \<Rightarrow> (u64 \<times> nat option) list \<Rightarrow> (u64 \<times> nat option) list" where
  "push_resp r q = takeWhile (\<lambda>x. fst x \<le> fst r) q @ r # dropWhile (\<lambda>x. fst x \<le> fst r) q"

definition OOOCoreRecorder_init :: "nat \<Rightarrow> nat \<Rightarrow> 'x oweave_scheme \<Rightarrow> OOOCoreRecorder \<times> 'x oweave_scheme" where
  "OOOCoreRecorder_init er dm w =
     (\<lparr>or_state = HALTED, or_gapCycles = 0, lastEvProduced = None, futureResponses = [], lastEvSimulatedZllStartCycle = 0,
       lastEvSimulatedStartCycle = 0, or_totalGapCycles = 0, or_totalHaltedCycles = 0, or_lastUnhaltedCycle = 0, or_domain = dm\<rparr>,
      upd_er er (setGapCycles 0) w)"

subsection \<open>Issue events\<close>

text \<open>The responses before the issue event become its parents; the largest of their cycles is returned.\<close>

fun link_responses ::
  "nat \<Rightarrow> nat \<Rightarrow> u64 \<Rightarrow> u64 \<Rightarrow> u64 \<Rightarrow> (u64 \<times> nat option) list \<Rightarrow> 'x oweave_scheme \<Rightarrow>
   (u64 \<times> (u64 \<times> nat option) list \<times> 'x oweave_scheme) res" where
  "link_responses fuel ev zllCycle zllLast maxCycle [] w = Inr (maxCycle, [], w)"
| "link_responses fuel ev zllCycle zllLast maxCycle ((z, r) # q) w =
     (if zllCycle \<le> z then Inr (maxCycle, (z, r) # q, w)
      else case r of
        None \<Rightarrow> link_responses fuel ev zllCycle zllLast maxCycle q w
      | Some e \<Rightarrow> rbind (addChild fuel e ev w) (\<lambda>w1. check (maxCycle \<le> z) AssertFailed (check (zllLast \<le> z) AssertFailed
          (link_responses fuel ev zllCycle zllLast z q w1))))"

text \<open>The event's own delay, and the delay from the previous issue event that keeps the distance without contention.\<close>

definition link_issue :: "nat \<Rightarrow> nat \<Rightarrow> nat \<Rightarrow> u64 \<Rightarrow> u32 \<Rightarrow> u64 \<Rightarrow> 'x oweave_scheme \<Rightarrow> 'x oweave_scheme res" where
  "link_issue fuel p ev evCycle pre gap w =
     rbind (setPreDelay ev pre w) (\<lambda>w1. rbind (get_ev p w1) (\<lambda>tp.
       let (d, w2) = new_ev ((DelayEvent_init (unat (ucast (gap - ucast pre) :: u32)))\<lparr>minStartCycle := minStartCycle tp\<rparr>) w1 in
       rbind (addChild fuel p d w2) (\<lambda>w3. rbind (addChild fuel d ev w3) (setMinStart ev evCycle))))"

definition addIssueEvent :: "nat \<Rightarrow> u64 \<Rightarrow> OOOCoreRecorder \<times> 'x oweave_scheme \<Rightarrow> (OOOCoreRecorder \<times> 'x oweave_scheme) res" where
  "addIssueEvent fuel evCycle = (\<lambda>(c, w).
     case lastEvProduced c of None \<Rightarrow> Inl AssertFailed
     | Some p \<Rightarrow>
       (let zllCycle = evCycle - or_gapCycles c; zllLast = ev_zll w p in
        check (zllLast \<le> zllCycle) AssertFailed
         (let (ev, w1) = OOOIssueEvent zllCycle (or_domain c) w in
          rbind (link_responses fuel ev zllCycle zllLast 0 (futureResponses c) w1) (\<lambda>(maxCycle, q, w2).
          let pre = (if maxCycle \<noteq> 0 then if maxCycle < zllCycle then ucast (zllCycle - maxCycle) else 0 else 0) :: u32 in
          rbind (link_issue fuel p ev evCycle pre (zllCycle - zllLast) w2) (\<lambda>w3.
            Inr (c\<lparr>futureResponses := q, lastEvProduced := Some ev\<rparr>, w3))))))"

subsection \<open>Bound phase\<close>

definition or_notifyJoin ::
  "nat \<Rightarrow> nat \<Rightarrow> u64 \<Rightarrow> u64 \<Rightarrow> OOOCoreRecorder \<times> 'x oweave_scheme \<Rightarrow> (u64 \<times> OOOCoreRecorder \<times> 'x oweave_scheme) res" where
  "or_notifyJoin fuel er globPhaseCycles cyc = (\<lambda>(c, w).
     case or_state c of
       HALTED \<Rightarrow> check (lastEvProduced c = None) AssertFailed
         (let c1 = c\<lparr>or_totalGapCycles := or_totalGapCycles c + or_gapCycles c, or_gapCycles := 0\<rparr>; w1 = upd_er er (setGapCycles 0) w in
          check (or_lastUnhaltedCycle c1 \<le> globPhaseCycles) AssertFailed
           (let (e, w2) = OOOIssueEvent (globPhaseCycles - or_gapCycles c1) (or_domain c) w1;
                c2 = c1\<lparr>or_totalHaltedCycles := or_totalHaltedCycles c1 + (globPhaseCycles - or_lastUnhaltedCycle c1), lastEvProduced := Some e\<rparr> in
            rbind (setMinStart e globPhaseCycles w2) (\<lambda>w3. rbind (ev_queue e (unat globPhaseCycles) w3) (\<lambda>w4.
              Inr (globPhaseCycles, c2\<lparr>or_state := RUNNING\<rparr>, upd_er er (setStartSlack 0) w4)))))
     | DRAINING \<Rightarrow> check (globPhaseCycles \<le> cyc) AssertFailed (check (lastEvProduced c \<noteq> None) AssertFailed
         (rbind (addIssueEvent fuel cyc (c, w)) (\<lambda>(c1, w1). Inr (cyc, c1\<lparr>or_state := RUNNING\<rparr>, w1))))
     | RUNNING \<Rightarrow> Inl Panicked)"

definition or_notifyLeave :: "nat \<Rightarrow> u64 \<Rightarrow> OOOCoreRecorder \<times> 'x oweave_scheme \<Rightarrow> (OOOCoreRecorder \<times> 'x oweave_scheme) res" where
  "or_notifyLeave fuel cyc = (\<lambda>(c, w).
     check (or_state c = RUNNING) AssertFailed
      (case lastEvProduced c of None \<Rightarrow> Inl AssertFailed
       | Some p \<Rightarrow> check (ev_zll w p \<le> cyc - or_gapCycles c) AssertFailed (addIssueEvent fuel cyc (c\<lparr>or_state := DRAINING\<rparr>, w))))"

text \<open>The responses before the dispatch become parents of the dispatch event, each through a delay.\<close>

fun link_dispatch :: "nat \<Rightarrow> nat \<Rightarrow> u64 \<Rightarrow> (u64 \<times> nat option) list \<Rightarrow> 'x oweave_scheme \<Rightarrow> 'x oweave_scheme res" where
  "link_dispatch fuel disp zll [] w = Inr w"
| "link_dispatch fuel disp zll ((z, r) # q) w =
     (case r of
        Some e \<Rightarrow> if z < zll
          then (let (dl, w1) = delay_ev (ucast (zll - z)) None w in
                rbind (addChild fuel e dl w1) (\<lambda>w2. rbind (addChild fuel dl disp w2) (link_dispatch fuel disp zll q)))
          else link_dispatch fuel disp zll q w
      | None \<Rightarrow> link_dispatch fuel disp zll q w)"

text \<open>The events of a response: issue, dispatch (after the responses it may have waited for), request, response.\<close>

definition link_get ::
  "nat \<Rightarrow> nat \<Rightarrow> nat \<Rightarrow> nat \<Rightarrow> u64 \<Rightarrow> u64 \<Rightarrow> u64 \<Rightarrow> u64 \<Rightarrow> u64 \<Rightarrow> OOOCoreRecorder \<times> 'x oweave_scheme \<Rightarrow>
   (OOOCoreRecorder \<times> 'x oweave_scheme) res" where
  "link_get fuel p st en cyc dispatchCycle respCycle trReq trResp = (\<lambda>(c, w1).
     let (dDisp, w2) = delay_ev (ucast (dispatchCycle - cyc)) (Some cyc) w1; (disp, w3) = OOODispatchEvent dispatchCycle w2 in
     rbind (setMinStart disp dispatchCycle w3) (\<lambda>w4.
     rbind (link_dispatch fuel disp (dispatchCycle - or_gapCycles c) (futureResponses c) w4) (\<lambda>w5.
     let (dUp, w6) = delay_ev (ucast (trReq - dispatchCycle)) (Some dispatchCycle) w5 in
     rbind (addChild fuel p dDisp w6) (\<lambda>w7. rbind (addChild fuel dDisp disp w7) (\<lambda>w8.
     rbind (addChild fuel disp dUp w8) (\<lambda>w9. rbind (addChild fuel dUp st w9) (\<lambda>w10.
     check (trResp \<le> respCycle) AssertFailed
      (let (re, w11) = OOORespEvent (ucast (ucast (respCycle - trResp) :: u32)) (or_domain c) w10 in
       rbind (setMinStart re respCycle w11) (\<lambda>w12. rbind (addChild fuel en re w12) (\<lambda>w13.
         Inr (c\<lparr>futureResponses := push_resp (respCycle - or_gapCycles c, Some re) (futureResponses c)\<rparr>, w13)))))))))))"

definition or_recordAccess ::
  "nat \<Rightarrow> nat \<Rightarrow> u64 \<Rightarrow> u64 \<Rightarrow> u64 \<Rightarrow> OOOCoreRecorder \<times> 'x oweave_scheme \<Rightarrow> (OOOCoreRecorder \<times> 'x oweave_scheme) res" where
  "or_recordAccess fuel er cyc dispatchCycle respCycle = (\<lambda>(c, w0).
     check (hasRecord (recorders w0 er)) AssertFailed
      (let (tr, r1) = popRecord (recorders w0 er); w = upd_er er (\<lambda>_. r1) w0; trReq = of_nat (tr_reqCycle tr) :: u64; trResp = of_nat (tr_respCycle tr) :: u64 in
       rbind (deref (tr_startEvent tr)) (\<lambda>st.
       rbind (if IsGet (tr_type tr)
         then case tr_endEvent tr of None \<Rightarrow> Inl AssertFailed
           | Some en \<Rightarrow> rbind (addIssueEvent fuel cyc (c, w)) (\<lambda>(c1, w1). rbind (deref (lastEvProduced c1)) (\<lambda>p.
               link_get fuel p st en cyc dispatchCycle respCycle trReq trResp (c1, w1)))
         else check (IsPut (tr_type tr)) AssertFailed
           (let (putUp, w1) = delay_ev (ucast (trReq - cyc)) (Some cyc) w in
            rbind (deref (lastEvProduced c)) (\<lambda>p. rbind (addChild fuel p putUp w1) (\<lambda>w2. rbind (addChild fuel putUp st w2) (\<lambda>w3. Inr (c, w3)))))) (\<lambda>(c1, w1).
       if length (domains w1) > 1
       then rbind (deref (lastEvProduced c1)) (\<lambda>p. rbind (produceCrossings fuel er p w1) (\<lambda>w2.
              Inr (c1, upd_er er (\<lambda>r. r\<lparr>crossingStack := []\<rparr>) w2)))
       else Inr (c1, w1)))))"

definition or_record ::
  "nat \<Rightarrow> nat \<Rightarrow> u64 \<Rightarrow> u64 \<Rightarrow> u64 \<Rightarrow> OOOCoreRecorder \<times> 'x oweave_scheme \<Rightarrow> (OOOCoreRecorder \<times> 'x oweave_scheme) res" where
  "or_record fuel er cyc dispatchCycle respCycle cw =
     (if hasRecord (recorders (snd cw) er) then or_recordAccess fuel er cyc dispatchCycle respCycle cw else Inr cw)"

subsection \<open>Between the phases\<close>

definition or_cSimStart ::
  "nat \<Rightarrow> u64 \<Rightarrow> u64 \<Rightarrow> u64 \<Rightarrow> OOOCoreRecorder \<times> 'x oweave_scheme \<Rightarrow> (u64 \<times> OOOCoreRecorder \<times> 'x oweave_scheme) res" where
  "or_cSimStart fuel globPhaseCycles phLen cyc = (\<lambda>(c, w).
     let nextPhaseCycle = globPhaseCycles + phLen; zllCycle = cyc - or_gapCycles c; zllNext = nextPhaseCycle - or_gapCycles c in
     case or_state c of
       HALTED \<Rightarrow> Inr (cyc, c, w)
     | RUNNING \<Rightarrow> check (nextPhaseCycle < cyc) AssertFailed
         (case lastEvProduced c of None \<Rightarrow> Inl NullDeref
          | Some p \<Rightarrow> check (ev_zll w p \<le> zllCycle) AssertFailed
             (if ev_zll w p < zllNext then rbind (addIssueEvent fuel nextPhaseCycle (c, w)) (\<lambda>(c1, w1). Inr (cyc, c1, w1))
              else Inr (cyc, c, w)))
     | DRAINING \<Rightarrow> Inr (if cyc < nextPhaseCycle then nextPhaseCycle else cyc, c\<lparr>futureResponses := []\<rparr>, w))"

text \<open>Responses that were simulated are forgotten; their events may be gone by then (\<open>resp_done\<close> outlives the event).\<close>

definition or_cSimEnd :: "nat \<Rightarrow> u64 \<Rightarrow> OOOCoreRecorder \<times> 'x oweave_scheme \<Rightarrow> (u64 \<times> OOOCoreRecorder \<times> 'x oweave_scheme) res" where
  "or_cSimEnd er cyc = (\<lambda>(c, w).
     if or_state c = HALTED then Inr (cyc, c, w)
     else
      (let lec1 = lastEvSimulatedZllStartCycle c + or_gapCycles c; lec2 = lastEvSimulatedStartCycle c in
       check (lec1 \<le> cyc) AssertFailed (check (lec2 \<le> cyc) AssertFailed (check (lec1 \<le> lec2) Panicked
        (let skew = lec2 - lec1;
             c1 = c\<lparr>or_gapCycles := or_gapCycles c + skew,
                    futureResponses := map (\<lambda>(z, r). (z, case r of None \<Rightarrow> None | Some e \<Rightarrow> if resp_done w e then None else Some e)) (futureResponses c)\<rparr>;
             w1 = upd_er er (setGapCycles (unat (or_gapCycles c1))) w in
         if lastEvProduced c1 = None
         then check (or_state c1 = DRAINING) AssertFailed (check (futureResponses c1 = []) AssertFailed
               (Inr (cyc + skew, c1\<lparr>or_lastUnhaltedCycle := lastEvSimulatedStartCycle c1, or_state := HALTED\<rparr>, w1)))
         else Inr (cyc + skew, c1, w1))))))"

subsection \<open>Weave phase and statistics\<close>

definition reportIssueEventSimulated ::
  "nat \<Rightarrow> nat \<Rightarrow> u64 \<Rightarrow> OOOCoreRecorder \<times> 'x oweave_scheme \<Rightarrow> OOOCoreRecorder \<times> 'x oweave_scheme" where
  "reportIssueEventSimulated er e startCycle = (\<lambda>(c, w).
     (c\<lparr>lastEvSimulatedZllStartCycle := ev_zll w e, lastEvSimulatedStartCycle := startCycle,
        lastEvProduced := (if lastEvProduced c = Some e then None else lastEvProduced c)\<rparr>,
      upd_er er (setStartSlack (uint startCycle - uint (ev_zll w e))) w))"

definition issue_simulate ::
  "nat \<Rightarrow> nat \<Rightarrow> nat \<Rightarrow> u64 \<Rightarrow> OOOCoreRecorder \<times> 'x oweave_scheme \<Rightarrow> (OOOCoreRecorder \<times> 'x oweave_scheme) res" where
  "issue_simulate fuel er e startCycle cw =
     (let (c, w) = reportIssueEventSimulated er e startCycle cw in rbind (event_done fuel e (unat startCycle) w) (\<lambda>w1. Inr (c, w1)))"

definition dispatch_simulate :: "nat \<Rightarrow> nat \<Rightarrow> u64 \<Rightarrow> 'x oweave_scheme \<Rightarrow> 'x oweave_scheme res" where
  "dispatch_simulate fuel e startCycle w = event_done fuel e (unat startCycle) w"

definition resp_simulate :: "nat \<Rightarrow> nat \<Rightarrow> u64 \<Rightarrow> 'x oweave_scheme \<Rightarrow> 'x oweave_scheme res" where
  "resp_simulate fuel e startCycle w = event_done fuel e (unat startCycle) (w\<lparr>resp_done := (resp_done w)(e := True)\<rparr>)"

definition or_getUnhaltedCycles :: "u64 \<Rightarrow> u64 \<Rightarrow> OOOCoreRecorder \<Rightarrow> u64" where
  "or_getUnhaltedCycles globPhaseCycles cyc c =
     (let cy = max cyc globPhaseCycles;
          halted = or_totalHaltedCycles c + (if or_state c = HALTED then cy - or_lastUnhaltedCycle c else 0)
      in cy - halted)"

definition or_getContentionCycles :: "OOOCoreRecorder \<Rightarrow> u64" where
  "or_getContentionCycles c = or_totalGapCycles c + or_gapCycles c"

subsection \<open>Frames\<close>

lemma ow_fields:
  assumes "ext_le (w :: 'x oweave_scheme) w'"
  shows "ev_zll w' = ev_zll w" "nextEv w \<le> nextEv w'"
  using assms by (cases w; cases w'; simp add: ext_le_def)+

lemma setMinStart_ext: "setMinStart e c w = Inr w' \<Longrightarrow> ext_le w w'"
  by (auto simp: setMinStart_def rbind_Inr_iff)

lemma setPreDelay_ext: "setPreDelay e c w = Inr w' \<Longrightarrow> ext_le w w'"
  by (auto simp: setPreDelay_def rbind_Inr_iff)

lemma new_ev_ext: "new_ev t w = (e, w') \<Longrightarrow> ext_le w w' \<and> e = nextEv w \<and> nextEv w' = Suc (nextEv w)"
  by (auto simp: new_ev_def ext_le_def set_ev_def)

lemma delay_ev_ext: "delay_ev d c w = (e, w') \<Longrightarrow> ext_le w w'"
  using new_ev_ext by (auto simp: delay_ev_def)

lemma upd_er_ext [simp]: "ext_le w (upd_er er f w') = ext_le w w'"
  by (simp add: upd_er_def)

lemmas addChild_ext = framesD [OF addChild_frames]

lemma OOOIssueEvent_new:
  assumes "OOOIssueEvent z dm w = (e, w')"
  shows "e = nextEv w \<and> ev_zll w' = (ev_zll w)(e := z) \<and> nextEv w' = Suc (nextEv w)"
proof -
  obtain e1 w1 where n: "new_ev (TimingEvent_init 0 0 (Some dm) KPlain) w = (e1, w1)" by (metis surj_pair)
  have "w' = w1\<lparr>ev_zll := (ev_zll w1)(e1 := z)\<rparr>" "e = e1" using assms n by (auto simp: OOOIssueEvent_def)
  then show ?thesis using new_ev_ext [OF n] ow_fields(1) [of w w1] by simp
qed

lemma link_responses_spec:
  "link_responses fuel ev zc zl m q w = Inr (m', q', w') \<Longrightarrow> ext_le w w' \<and> q' = dropWhile (\<lambda>x. \<not> zc \<le> fst x) q"
proof (induction fuel ev zc zl m q w arbitrary: m' q' w' rule: link_responses.induct)
  case (2 fuel ev zc zl m z r q w)
  show ?case
  proof (cases "zc \<le> z")
    case False
    show ?thesis
    proof (cases r)
      case None
      then show ?thesis using 2 False by simp
    next
      case (Some e)
      then obtain w1 where w1: "addChild fuel e ev w = Inr w1" "m \<le> z" "zl \<le> z" "link_responses fuel ev zc zl z q w1 = Inr (m', q', w')"
        using 2(3) False by (auto simp: rbind_Inr_iff check_Inr_iff)
      have "ext_le w1 w' \<and> q' = dropWhile (\<lambda>x. \<not> zc \<le> fst x) q" using 2(2) [OF False Some w1(1)] w1 by blast
      then show ?thesis using addChild_ext [OF w1(1)] ext_le_trans False by auto
    qed
  qed (use 2(3) in auto)
qed simp

lemma dropWhile_sorted_above:
  assumes "sorted (map fst q)"
  shows "\<forall>x \<in> set (dropWhile (\<lambda>x. \<not> (zc :: 'b :: linorder) \<le> fst x) q). zc \<le> fst x"
  using assms
proof (induction q)
  case (Cons x q)
  show ?case
  proof (cases "zc \<le> fst x")
    case True
    moreover have "\<forall>y \<in> set q. fst x \<le> fst y" using Cons.prems by simp
    ultimately show ?thesis using order_trans by (simp del: not_le) blast
  next
    case False
    have "sorted (map fst q)" using Cons.prems by simp
    with Cons.IH have "\<forall>x \<in> set (dropWhile (\<lambda>x. \<not> zc \<le> fst x) q). zc \<le> fst x" by blast
    then show ?thesis by (simp only: dropWhile.simps False not_False_eq_True if_True)
  qed
qed simp

lemma sorted_drop: "sorted (map fst q) \<Longrightarrow> sorted (map fst (dropWhile P q))"
  by (induction q) simp_all

text \<open>The order kept by the recorder: responses come in order and none before the last issue event.\<close>

definition or_ordered :: "OOOCoreRecorder \<Rightarrow> 'x oweave_scheme \<Rightarrow> bool" where
  "or_ordered c w \<longleftrightarrow> sorted (map fst (futureResponses c)) \<and>
     (\<forall>p. lastEvProduced c = Some p \<longrightarrow> p < nextEv w \<and> (\<forall>x \<in> set (futureResponses c). ev_zll w p \<le> fst x))"

lemma link_issue_ext:
  assumes "link_issue fuel p ev cyc pre d w = Inr w'"
  shows "ext_le w w'"
proof -
  from assms obtain w1 tp where 1: "setPreDelay ev pre w = Inr w1" "get_ev p w1 = Inr tp"
    "(let (d, w2) = new_ev ((DelayEvent_init (unat (ucast (d - ucast pre) :: u32)))\<lparr>minStartCycle := minStartCycle tp\<rparr>) w1 in
       rbind (addChild fuel p d w2) (\<lambda>w3. rbind (addChild fuel d ev w3) (setMinStart ev cyc))) = Inr w'"
    unfolding link_issue_def rbind_Inr_iff by blast
  obtain e w2 where 2: "new_ev ((DelayEvent_init (unat (ucast (d - ucast pre) :: u32)))\<lparr>minStartCycle := minStartCycle tp\<rparr>) w1 = (e, w2)"
    by (metis surj_pair)
  from 1(3) [unfolded 2 Let_def prod.case rbind_Inr_iff] obtain w3 w4 where
    3: "addChild fuel p e w2 = Inr w3" "addChild fuel e ev w3 = Inr w4" "setMinStart ev cyc w4 = Inr w'" by blast
  show ?thesis using setPreDelay_ext [OF 1(1)] new_ev_ext [OF 2] addChild_ext [OF 3(1)] addChild_ext [OF 3(2)] setMinStart_ext [OF 3(3)] ext_le_trans
    by blast
qed

lemma addIssueEvent_spec:
  assumes "addIssueEvent fuel cyc (c, w) = Inr (c', w')"
  shows "\<exists>p e q. lastEvProduced c = Some p \<and> ev_zll w p \<le> cyc - or_gapCycles c \<and> c' = c\<lparr>futureResponses := q, lastEvProduced := Some e\<rparr> \<and>
    ev_zll w' e = cyc - or_gapCycles c \<and> (or_ordered c w \<longrightarrow> or_ordered c' w')"
proof -
  from assms obtain p where p: "lastEvProduced c = Some p" by (auto simp: addIssueEvent_def split: option.splits)
  let ?z = "cyc - or_gapCycles c"
  obtain ev w1 where ev: "OOOIssueEvent ?z (or_domain c) w = (ev, w1)" by (metis surj_pair)
  from assms obtain m q w2 pre where
    a: "ev_zll w p \<le> ?z" "link_responses fuel ev ?z (ev_zll w p) 0 (futureResponses c) w1 = Inr (m, q, w2)"
      "link_issue fuel p ev cyc pre (?z - ev_zll w p) w2 = Inr w'" "c' = c\<lparr>futureResponses := q, lastEvProduced := Some ev\<rparr>"
    by (auto simp: addIssueEvent_def p ev Let_def rbind_Inr_iff check_Inr_iff simp del: ucast_id split: prod.splits)
  note n = OOOIssueEvent_new [OF ev]
  have x: "ext_le w1 w'" using link_responses_spec [OF a(2)] link_issue_ext [OF a(3)] ext_le_trans by blast
  have z: "ev_zll w' ev = ?z" "ev < nextEv w'" using ow_fields [OF x] n by simp_all
  have "or_ordered c' w'" if o: "or_ordered c w"
  proof -
    have q: "q = dropWhile (\<lambda>x. \<not> ?z \<le> fst x) (futureResponses c)" using link_responses_spec [OF a(2)] by blast
    have s: "sorted (map fst (futureResponses c))" using o by (simp add: or_ordered_def)
    have f: "futureResponses c' = dropWhile (\<lambda>x. \<not> ?z \<le> fst x) (futureResponses c)" by (simp add: a(4) q)
    show ?thesis unfolding or_ordered_def
    proof (intro conjI allI impI)
      show "sorted (map fst (futureResponses c'))" unfolding f by (rule sorted_drop [OF s])
      fix p' assume "lastEvProduced c' = Some p'"
      then have p': "p' = ev" by (simp add: a(4))
      show "p' < nextEv w'" using z p' by simp
      show "\<forall>x \<in> set (futureResponses c'). ev_zll w' p' \<le> fst x"
        unfolding p' z(1) f by (rule dropWhile_sorted_above [OF s])
    qed
  qed
  then show ?thesis using p a(1,4) z(1) by blast
qed

lemma push_resp_simps: "push_resp r [] = [r]" "push_resp r (x # q) = (if fst x \<le> fst r then x # push_resp r q else r # x # q)"
  by (simp_all add: push_resp_def)

lemma push_resp_set [simp]: "set (push_resp r q) = insert r (set q)"
  by (induction q) (auto simp: push_resp_simps)

lemma push_resp_sorted: "sorted (map fst q) \<Longrightarrow> sorted (map fst (push_resp r q))"
  by (induction q) (auto simp: push_resp_simps)

text \<open>Later events may have been added; the clocks of the ones there are stay.\<close>

definition zle :: "'x oweave_scheme \<Rightarrow> 'x oweave_scheme \<Rightarrow> bool" where
  "zle w w' \<longleftrightarrow> nextEv w \<le> nextEv w' \<and> (\<forall>e < nextEv w. ev_zll w' e = ev_zll w e)"

lemma zle_refl [simp]: "zle w w" by (simp add: zle_def)
lemma zle_trans: "zle w w1 \<Longrightarrow> zle w1 w' \<Longrightarrow> zle w w'" by (simp add: zle_def)
lemma zle_upd_er [simp]: "zle w (upd_er er f w') = zle w w'" "zle (upd_er er f w) w' = zle w w'" by (simp_all add: zle_def upd_er_def)
lemma ext_zle: "ext_le w w' \<Longrightarrow> zle w w'" using ow_fields [of w w'] by (simp add: zle_def)

lemma or_ordered_zle: "or_ordered c w \<Longrightarrow> zle w w' \<Longrightarrow> or_ordered c w'"
  by (auto simp: or_ordered_def zle_def)

lemma delay_zle: "zle w (snd (delay_ev d c w))"
  using delay_ev_ext ext_zle by (metis prod.collapse)

lemma OOOIssueEvent_zle: "zle w (snd (OOOIssueEvent z dm w))"
  using OOOIssueEvent_new [of z dm w] by (cases "OOOIssueEvent z dm w") (auto simp: zle_def)

lemma OOODispatchEvent_zle: "zle w (snd (OOODispatchEvent z w))"
proof -
  obtain e w1 where n: "new_ev (TimingEvent_init 0 0 None KPlain) w = (e, w1)" by (metis surj_pair)
  then show ?thesis using new_ev_ext [OF n] ow_fields(1) [of w w1] by (auto simp: zle_def OOODispatchEvent_def)
qed

lemma OOORespEvent_zle: "zle w (snd (OOORespEvent d dm w))"
proof -
  obtain e w1 where n: "new_ev (TimingEvent_init (unat (ucast d :: u32)) 0 (Some dm) KPlain) w = (e, w1)" by (metis surj_pair)
  then show ?thesis using new_ev_ext [OF n] ow_fields(1) [of w w1] by (auto simp: zle_def OOORespEvent_def)
qed

lemmas addChild_zle = ext_zle [OF addChild_ext]
lemmas setMinStart_zle = ext_zle [OF setMinStart_ext]

lemma link_dispatch_zle: "link_dispatch fuel disp zll q w = Inr w' \<Longrightarrow> zle w w'"
proof (induction fuel disp zll q w arbitrary: w' rule: link_dispatch.induct)
  case (2 fuel disp zll z r q w)
  show ?case
  proof (cases "r \<noteq> None \<and> z < zll")
    case True
    then obtain e where e: "r = Some e" "z < zll" by auto
    obtain dl w1 where d: "delay_ev (ucast (zll - z)) None w = (dl, w1)" by (metis surj_pair)
    from "2.prems" obtain w2 w3 where l: "addChild fuel e dl w1 = Inr w2" "addChild fuel dl disp w2 = Inr w3" "link_dispatch fuel disp zll q w3 = Inr w'"
      by (auto simp: e d rbind_Inr_iff)
    have "zle w3 w'" by (rule "2.IH"(2) [OF e d [symmetric] refl l(1,2,3)])
    then show ?thesis using addChild_zle [OF l(1)] addChild_zle [OF l(2)] delay_zle [of w] d zle_trans by (metis snd_conv)
  next
    case False
    then have "link_dispatch fuel disp zll q w = Inr w'" using "2.prems" by (cases r) auto
    then show ?thesis using "2.IH"(1,3) False by (cases r) auto
  qed
qed simp

lemma link_get_spec:
  assumes "link_get fuel p st en cyc d r trReq trResp (c, w) = Inr (c', w')"
  shows "zle w w' \<and> (\<exists>re. c' = c\<lparr>futureResponses := push_resp (r - or_gapCycles c, Some re) (futureResponses c)\<rparr>)"
proof -
  obtain d1 w2 where 1: "delay_ev (ucast (d - cyc)) (Some cyc) w = (d1, w2)" by (metis surj_pair)
  obtain di w3 where 2: "OOODispatchEvent d w2 = (di, w3)" by (metis surj_pair)
  from assms [unfolded link_get_def prod.case Let_def 1 2 rbind_Inr_iff] obtain w4 w5 where
    3: "setMinStart di d w3 = Inr w4" "link_dispatch fuel di (d - or_gapCycles c) (futureResponses c) w4 = Inr w5"
    and a: "(case delay_ev (ucast (trReq - d)) (Some d) w5 of (dUp, w6) \<Rightarrow> rbind (addChild fuel p d1 w6) (\<lambda>w7. rbind (addChild fuel d1 di w7) (\<lambda>w8.
     rbind (addChild fuel di dUp w8) (\<lambda>w9. rbind (addChild fuel dUp st w9) (\<lambda>w10.
     check (trResp \<le> r) AssertFailed
      (case OOORespEvent (ucast (ucast (r - trResp) :: u32)) (or_domain c) w10 of (re, w11) \<Rightarrow>
       rbind (setMinStart re r w11) (\<lambda>w12. rbind (addChild fuel en re w12) (\<lambda>w13.
         Inr (c\<lparr>futureResponses := push_resp (r - or_gapCycles c, Some re) (futureResponses c)\<rparr>, w13))))))))) = Inr (c', w')"
    unfolding rbind_Inr_iff by blast
  obtain d2 w6 where 4: "delay_ev (ucast (trReq - d)) (Some d) w5 = (d2, w6)" by (metis surj_pair)
  from a [unfolded 4 prod.case rbind_Inr_iff check_Inr_iff] obtain w7 w8 w9 w10 where
    5: "addChild fuel p d1 w6 = Inr w7" "addChild fuel d1 di w7 = Inr w8" "addChild fuel di d2 w8 = Inr w9" "addChild fuel d2 st w9 = Inr w10"
    and b: "(case OOORespEvent (ucast (ucast (r - trResp) :: u32)) (or_domain c) w10 of (re, w11) \<Rightarrow>
       rbind (setMinStart re r w11) (\<lambda>w12. rbind (addChild fuel en re w12) (\<lambda>w13.
         Inr (c\<lparr>futureResponses := push_resp (r - or_gapCycles c, Some re) (futureResponses c)\<rparr>, w13)))) = Inr (c', w')"
    unfolding rbind_Inr_iff by blast
  obtain re w11 where 6: "OOORespEvent (ucast (ucast (r - trResp) :: u32)) (or_domain c) w10 = (re, w11)" by (metis surj_pair)
  from b [unfolded 6 prod.case rbind_Inr_iff] obtain w12 where
    7: "setMinStart re r w11 = Inr w12" "addChild fuel en re w12 = Inr w'" "c' = c\<lparr>futureResponses := push_resp (r - or_gapCycles c, Some re) (futureResponses c)\<rparr>"
    by auto
  have "zle w w3" using delay_zle [of w] OOODispatchEvent_zle [of w2] 1 2 zle_trans by (metis snd_conv)
  moreover have "zle w3 w6" using setMinStart_zle [OF 3(1)] link_dispatch_zle [OF 3(2)] delay_zle [of w5] 4 zle_trans by (metis snd_conv)
  moreover have "zle w6 w10" using addChild_zle [OF 5(1)] addChild_zle [OF 5(2)] addChild_zle [OF 5(3)] addChild_zle [OF 5(4)] zle_trans by blast
  moreover have "zle w10 w'" using OOORespEvent_zle [of w10] 6 setMinStart_zle [OF 7(1)] addChild_zle [OF 7(2)] zle_trans by (metis snd_conv)
  ultimately show ?thesis using zle_trans 7(3) by blast
qed

subsection \<open>The operations\<close>

text \<open>What an operation of the recorder leaves alone.\<close>

definition or_same :: "OOOCoreRecorder \<Rightarrow> OOOCoreRecorder \<Rightarrow> bool" where
  "or_same c c' \<longleftrightarrow> or_state c' = or_state c \<and> or_gapCycles c' = or_gapCycles c \<and> or_totalGapCycles c' = or_totalGapCycles c \<and>
     or_lastUnhaltedCycle c' = or_lastUnhaltedCycle c \<and> lastEvSimulatedZllStartCycle c' = lastEvSimulatedZllStartCycle c \<and>
     lastEvSimulatedStartCycle c' = lastEvSimulatedStartCycle c"

lemma addIssueEvent_same:
  assumes "addIssueEvent fuel cyc (c, w) = Inr (c', w')"
  shows "or_same c c' \<and> lastEvProduced c \<noteq> None \<and> lastEvProduced c' \<noteq> None \<and> (or_ordered c w \<longrightarrow> or_ordered c' w') \<and>
    (\<forall>p. lastEvProduced c' = Some p \<longrightarrow> ev_zll w' p = cyc - or_gapCycles c)"
proof -
  from addIssueEvent_spec [OF assms] obtain p e q where s: "lastEvProduced c = Some p" "c' = c\<lparr>futureResponses := q, lastEvProduced := Some e\<rparr>"
    "ev_zll w' e = cyc - or_gapCycles c" "or_ordered c w \<longrightarrow> or_ordered c' w'" by blast
  then show ?thesis by (simp add: or_same_def)
qed

lemma or_same_trans: "or_same c c1 \<Longrightarrow> or_same c1 c' \<Longrightarrow> or_same c c'"
  by (simp add: or_same_def)

lemma sub_le_sub: "g \<le> c \<Longrightarrow> c \<le> r \<Longrightarrow> (c :: u64) - g \<le> r - g"
  by (simp add: word_le_nat_alt unat_sub)

lemma link_get_ordered:
  assumes l: "link_get fuel p st en cyc d r trReq trResp (c, w) = Inr (c', w')" and o: "or_ordered c w"
    and z: "\<forall>p. lastEvProduced c = Some p \<longrightarrow> ev_zll w p = cyc - or_gapCycles c" and b: "or_gapCycles c \<le> cyc" "cyc \<le> r"
  shows "or_ordered c' w' \<and> or_same c c' \<and> lastEvProduced c' = lastEvProduced c"
proof -
  from link_get_spec [OF l] obtain re where 1: "zle w w'" "c' = c\<lparr>futureResponses := push_resp (r - or_gapCycles c, Some re) (futureResponses c)\<rparr>" by blast
  have "or_ordered (c\<lparr>futureResponses := push_resp (r - or_gapCycles c, Some re) (futureResponses c)\<rparr>) w"
    using o z sub_le_sub [OF b] push_resp_sorted by (auto simp: or_ordered_def)
  then show ?thesis using or_ordered_zle [OF _ 1(1)] 1(2) by (simp add: or_same_def)
qed

lemma or_recordAccess_inv:
  assumes "or_recordAccess fuel er cyc d r (c, w0) = Inr (c', w')"
    and o: "or_ordered c w0" and b: "or_gapCycles c \<le> cyc" "cyc \<le> r"
  shows "or_same c c' \<and> or_ordered c' w' \<and> lastEvProduced c \<noteq> None \<and> lastEvProduced c' \<noteq> None"
proof -
  obtain tr r1 where tr: "popRecord (recorders w0 er) = (tr, r1)" by (metis surj_pair)
  define w where "w = upd_er er (\<lambda>_. r1) w0"
  from assms(1) [unfolded or_recordAccess_def prod.case Let_def tr check_Inr_iff, folded w_def]
  obtain st c1 w1 where
    m: "(if IsGet (tr_type tr)
         then case tr_endEvent tr of None \<Rightarrow> Inl AssertFailed
           | Some en \<Rightarrow> rbind (addIssueEvent fuel cyc (c, w)) (\<lambda>(c1, w1). rbind (deref (lastEvProduced c1)) (\<lambda>p.
               link_get fuel p st en cyc d r (of_nat (tr_reqCycle tr)) (of_nat (tr_respCycle tr)) (c1, w1)))
         else check (IsPut (tr_type tr)) AssertFailed
           (case delay_ev (ucast (of_nat (tr_reqCycle tr) - cyc :: u64)) (Some cyc) w of (putUp, w1) \<Rightarrow>
            rbind (deref (lastEvProduced c)) (\<lambda>p. rbind (addChild fuel p putUp w1) (\<lambda>w2. rbind (addChild fuel putUp st w2) (\<lambda>w3. Inr (c, w3)))))) = Inr (c1, w1)"
    and x: "(if length (domains w1) > 1
       then rbind (deref (lastEvProduced c1)) (\<lambda>p. rbind (produceCrossings fuel er p w1) (\<lambda>w2.
              Inr (c1, upd_er er (\<lambda>r. r\<lparr>crossingStack := []\<rparr>) w2)))
       else Inr (c1, w1)) = Inr (c', w')"
    unfolding rbind_Inr_iff split_paired_Ex prod.case by blast
  have "zle w1 w' \<and> c' = c1"
    using x framesD [OF produceCrossings_frames, of fuel er _ w1, THEN ext_zle] by (auto simp: rbind_Inr_iff split: if_splits)
  moreover have o1: "or_ordered c w" using o by (auto simp: w_def intro: or_ordered_zle)
  have "or_same c c1 \<and> or_ordered c1 w1 \<and> lastEvProduced c \<noteq> None \<and> lastEvProduced c1 \<noteq> None"
  proof (cases "IsGet (tr_type tr)")
    case True
    with m obtain en c2 w2 p where g: "addIssueEvent fuel cyc (c, w) = Inr (c2, w2)"
      "link_get fuel p st en cyc d r (of_nat (tr_reqCycle tr)) (of_nat (tr_respCycle tr)) (c2, w2) = Inr (c1, w1)"
      by (auto simp: rbind_Inr_iff split: option.splits)
    note s = addIssueEvent_same [OF g(1)]
    have gp: "or_gapCycles c2 = or_gapCycles c" using s by (simp add: or_same_def)
    have "or_ordered c2 w2" using s o1 by blast
    from link_get_ordered [OF g(2) this] s gp b show ?thesis using or_same_trans by auto
  next
    case False
    obtain pu w2 where d: "delay_ev (ucast (of_nat (tr_reqCycle tr) - cyc :: u64)) (Some cyc) w = (pu, w2)" by (metis surj_pair)
    from m False obtain p w3 where a: "lastEvProduced c = Some p" "addChild fuel p pu w2 = Inr w3" "addChild fuel pu st w3 = Inr w1" "c1 = c"
      by (auto simp: d rbind_Inr_iff check_Inr_iff deref_Inr_iff)
    have "zle w w1" using delay_zle [of w] d addChild_zle [OF a(2)] addChild_zle [OF a(3)] zle_trans by (metis snd_conv)
    then show ?thesis using or_ordered_zle [OF o1] a by (simp add: or_same_def)
  qed
  ultimately show ?thesis using or_ordered_zle by blast
qed

lemma or_cSimStart_inv:
  assumes "or_cSimStart fuel g phLen cyc (c, w) = Inr (cyc', c', w')" "or_ordered c w"
  shows "or_same c c' \<and> or_ordered c' w' \<and> (lastEvProduced c' = None \<longleftrightarrow> lastEvProduced c = None) \<and>
    (or_state c = HALTED \<longrightarrow> c' = c \<and> cyc' = cyc) \<and> (or_state c \<noteq> HALTED \<longrightarrow> g + phLen \<le> cyc')"
proof (cases "or_state c")
  case RUNNING
  from assms(1) [unfolded or_cSimStart_def prod.case Let_def RUNNING RecState.case check_Inr_iff] obtain p where
    n: "g + phLen < cyc" "lastEvProduced c = Some p"
    and i: "(if ev_zll w p < g + phLen - or_gapCycles c then rbind (addIssueEvent fuel (g + phLen) (c, w)) (\<lambda>(c1, w1). Inr (cyc, c1, w1))
              else Inr (cyc, c, w)) = Inr (cyc', c', w')"
    by (auto simp: check_Inr_iff split: option.splits)
  show ?thesis
  proof (cases "ev_zll w p < g + phLen - or_gapCycles c")
    case True
    then have a: "addIssueEvent fuel (g + phLen) (c, w) = Inr (c', w')" "cyc' = cyc" using i by (auto simp: rbind_Inr_iff)
    then show ?thesis using addIssueEvent_same [OF a(1)] assms(2) n RUNNING by auto
  next
    case False
    then show ?thesis using i n assms(2) RUNNING by (auto simp: or_same_def)
  qed
qed (use assms in \<open>auto simp: or_cSimStart_def Let_def or_same_def or_ordered_def\<close>)

lemma issue_simulate_inv:
  assumes "issue_simulate f er e s (c, w) = Inr (c', w')"
  shows "ext_le w w' \<and> c' = c\<lparr>lastEvSimulatedZllStartCycle := ev_zll w e, lastEvSimulatedStartCycle := s,
    lastEvProduced := (if lastEvProduced c = Some e then None else lastEvProduced c)\<rparr>"
proof -
  from assms have "event_done f e (unat s) (upd_er er (setStartSlack (uint s - uint (ev_zll w e))) w) = Inr w'"
    and c: "c' = c\<lparr>lastEvSimulatedZllStartCycle := ev_zll w e, lastEvSimulatedStartCycle := s,
      lastEvProduced := (if lastEvProduced c = Some e then None else lastEvProduced c)\<rparr>"
    by (auto simp: issue_simulate_def reportIssueEventSimulated_def rbind_Inr_iff)
  from framesD [OF event_done_frames this(1)] have "ext_le w w'" by (simp add: ext_le_def upd_er_def)
  with c show ?thesis by blast
qed

subsection \<open>The protocol of bound and weave phases\<close>

text \<open>
  As for the other recorder (\<open>cr_reach\<close>): joins, leaves and accesses in the bound phase, while the core advances its clock; then
  \<open>or_cSimStart\<close>, the issue events of the weave phase, none before its cycle without contention and none after the end of the phase, and
  \<open>or_cSimEnd\<close>.  Accesses are dispatched and answered in any order, but none is answered before its issue.  Everything else may add events
  and change the ones there are, but for their clocks.  Clocks do not wrap.
\<close>

inductive or_reach ::
  "nat \<Rightarrow> nat \<Rightarrow> u64 \<Rightarrow> phase \<Rightarrow> u64 \<Rightarrow> u64 \<Rightarrow> OOOCoreRecorder \<Rightarrow> 'x oweave_scheme \<Rightarrow> u64 \<Rightarrow> bool"
  for fuel er phLen where
  init: "OOOCoreRecorder_init er dm w = (c, w') \<Longrightarrow> or_reach fuel er phLen Bound g cyc c w' 0"
| env: "or_reach fuel er phLen ph g cyc c w k \<Longrightarrow> zle w w' \<Longrightarrow> or_reach fuel er phLen ph g cyc c w' k"
| join: "or_reach fuel er phLen Bound g cyc c w k \<Longrightarrow> or_notifyJoin fuel er g cyc (c, w) = Inr (cyc', c', w') \<Longrightarrow>
    or_reach fuel er phLen Bound g cyc' c' w' k"
| leave: "or_reach fuel er phLen Bound g cyc c w k \<Longrightarrow> or_notifyLeave fuel cyc (c, w) = Inr (c', w') \<Longrightarrow>
    or_reach fuel er phLen Bound g cyc c' w' k"
| access: "or_reach fuel er phLen Bound g cyc c w k \<Longrightarrow> or_state c = RUNNING \<Longrightarrow> or_record fuel er cyc d r (c, w) = Inr (c', w') \<Longrightarrow> cyc \<le> d \<Longrightarrow>
    d \<le> r \<Longrightarrow> or_reach fuel er phLen Bound g cyc c' w' k"
| run: "or_reach fuel er phLen Bound g cyc c w k \<Longrightarrow> or_state c = RUNNING \<Longrightarrow> cyc \<le> cyc' \<Longrightarrow> or_reach fuel er phLen Bound g cyc' c w k"
| start: "or_reach fuel er phLen Bound g cyc c w k \<Longrightarrow> or_cSimStart fuel g phLen cyc (c, w) = Inr (cyc', c', w') \<Longrightarrow>
    g \<le> g + phLen \<Longrightarrow> or_reach fuel er phLen Weave g cyc' c' w' k"
| simulate: "or_reach fuel er phLen Weave g cyc c w k \<Longrightarrow> issue_simulate f er e s (c, w) = Inr (c', w') \<Longrightarrow> ev_zll w e \<le> s \<Longrightarrow> s \<le> g + phLen \<Longrightarrow>
    or_reach fuel er phLen Weave g cyc c' w' k"
| end_phase: "or_reach fuel er phLen Weave g cyc c w k \<Longrightarrow> or_cSimEnd er cyc (c, w) = Inr (cyc', c', w') \<Longrightarrow> cyc \<le> cyc' \<Longrightarrow>
    or_reach fuel er phLen Bound (g + phLen) cyc' c' w' (k + (cyc' - cyc))"

definition or_inv :: "u64 \<Rightarrow> phase \<Rightarrow> u64 \<Rightarrow> u64 \<Rightarrow> OOOCoreRecorder \<Rightarrow> 'x oweave_scheme \<Rightarrow> u64 \<Rightarrow> bool" where
  "or_inv phLen ph g cyc c w k \<longleftrightarrow> (let t = if ph = Bound then g else g + phLen in
     or_getContentionCycles c = k \<and> or_lastUnhaltedCycle c \<le> g \<and> or_gapCycles c \<le> g \<and> g \<le> t \<and> or_ordered c w \<and>
     lastEvSimulatedZllStartCycle c \<le> lastEvSimulatedStartCycle c \<and> lastEvSimulatedStartCycle c \<le> t \<and>
     (lastEvProduced c = None \<longrightarrow> or_state c = HALTED \<or> ph = Weave) \<and>
     (or_state c = HALTED \<longrightarrow> lastEvProduced c = None \<and> futureResponses c = []) \<and> (or_state c \<noteq> HALTED \<longrightarrow> t \<le> cyc))"

lemma or_inv_same:
  assumes "or_inv phLen ph g cyc c w k" "or_same c c'" "or_state c \<noteq> HALTED" "or_ordered c' w'" "lastEvProduced c' \<noteq> None"
  shows "or_inv phLen ph g cyc c' w' k"
  using assms by (auto simp: or_inv_def or_same_def or_getContentionCycles_def Let_def)

lemma or_join_inv:
  assumes i: "or_inv phLen Bound g cyc c w k" and j: "or_notifyJoin fuel er g cyc (c, w) = Inr (cyc', c', w')"
  shows "or_inv phLen Bound g cyc' c' w' k"
proof (cases "or_state c")
  case HALTED
  define w1 where "w1 = upd_er er (setGapCycles 0) w"
  obtain e w2 where e: "OOOIssueEvent g (or_domain c) w1 = (e, w2)" by (metis surj_pair)
  from j obtain w3 w4 where
    s: "setMinStart e g w2 = Inr w3" "ev_queue e (unat g) w3 = Inr w4" "w' = upd_er er (setStartSlack 0) w4" "cyc' = g"
    and c': "c' = c\<lparr>or_totalGapCycles := or_totalGapCycles c + or_gapCycles c, or_gapCycles := 0,
       or_totalHaltedCycles := or_totalHaltedCycles c + (g - or_lastUnhaltedCycle c), lastEvProduced := Some e, or_state := RUNNING\<rparr>"
    by (auto simp: or_notifyJoin_def HALTED Let_def w1_def [symmetric] e rbind_Inr_iff check_Inr_iff)
  note n = OOOIssueEvent_new [OF e]
  have "zle w2 w'" using setMinStart_zle [OF s(1)] framesD [OF ev_queue_frames s(2)] ext_zle zle_trans s(3) by (metis zle_upd_er(1))
  then have z: "e < nextEv w'" "ev_zll w' e = g" using n by (auto simp: zle_def)
  have "or_ordered c' w'" using i z HALTED by (simp add: or_inv_def or_ordered_def c' Let_def)
  then show ?thesis using i HALTED s(4) by (simp add: or_inv_def c' or_getContentionCycles_def Let_def)
next
  case DRAINING
  with j obtain c1 where a: "g \<le> cyc" "addIssueEvent fuel cyc (c, w) = Inr (c1, w')" "cyc' = cyc" "c' = c1\<lparr>or_state := RUNNING\<rparr>"
    by (auto simp: or_notifyJoin_def rbind_Inr_iff check_Inr_iff)
  have o: "or_ordered c w" using i by (simp add: or_inv_def Let_def)
  note s = addIssueEvent_same [OF a(2)]
  have "or_inv phLen Bound g cyc c1 w' k" using or_inv_same [OF i _ _ _ ] s o DRAINING by auto
  moreover have "or_state c1 = DRAINING" using s DRAINING by (simp add: or_same_def)
  ultimately show ?thesis using a(3,4) by (auto simp: or_inv_def or_getContentionCycles_def or_ordered_def Let_def)
qed (use j in \<open>simp add: or_notifyJoin_def\<close>)

lemma or_cSimEnd_inv:
  assumes i: "or_inv phLen Weave g cyc c w k" and e: "or_cSimEnd er cyc (c, w) = Inr (cyc', c', w')" and m: "cyc \<le> cyc'"
  shows "or_inv phLen Bound (g + phLen) cyc' c' w' (k + (cyc' - cyc))"
proof (cases "or_state c = HALTED")
  case True
  then have "c' = c" "cyc' = cyc" "w' = w" using e by (auto simp: or_cSimEnd_def)
  then show ?thesis using i True by (auto simp: or_inv_def Let_def)
next
  case False
  define skew where "skew = lastEvSimulatedStartCycle c - (lastEvSimulatedZllStartCycle c + or_gapCycles c)"
  define q where "q = map (\<lambda>(z, r). (z, case r of None \<Rightarrow> None | Some e \<Rightarrow> if resp_done w e then None else Some e)) (futureResponses c)"
  define c1 where "c1 = c\<lparr>or_gapCycles := or_gapCycles c + skew, futureResponses := q\<rparr>"
  from e False have r: "cyc' = cyc + skew" "zle w w'" and c':
    "c' = c1 \<and> lastEvProduced c \<noteq> None \<or>
     c' = c1\<lparr>or_lastUnhaltedCycle := lastEvSimulatedStartCycle c, or_state := HALTED\<rparr> \<and> lastEvProduced c = None \<and> q = []"
    by (auto simp: or_cSimEnd_def Let_def check_Inr_iff skew_def q_def [symmetric] c1_def split: if_splits)
  have gap: "or_gapCycles c + skew = lastEvSimulatedStartCycle c - lastEvSimulatedZllStartCycle c" by (simp add: skew_def)
  have "lastEvSimulatedStartCycle c - lastEvSimulatedZllStartCycle c \<le> lastEvSimulatedStartCycle c"
    using i by (simp add: or_inv_def Let_def word_sub_le)
  then have g: "or_gapCycles c + skew \<le> g + phLen" using i unfolding gap by (auto simp: or_inv_def Let_def)
  have "map fst q = map fst (futureResponses c)" by (auto simp: q_def)
  moreover have "\<forall>x \<in> set q. \<exists>y \<in> set (futureResponses c). fst x = fst y" by (force simp: q_def)
  ultimately have "or_ordered c1 w" using i by (fastforce simp: or_inv_def or_ordered_def c1_def Let_def)
  then have o: "or_ordered c1 w'" by (rule or_ordered_zle [OF _ r(2)])
  have t: "or_getContentionCycles c1 = k + (cyc' - cyc)" using i r(1) by (simp add: or_inv_def or_getContentionCycles_def c1_def Let_def add.assoc)
  have "g + phLen \<le> cyc'" using i False m by (auto simp: or_inv_def Let_def)
  moreover have "or_ordered c' w'"
  proof (rule disjE [OF c'])
    assume "c' = c1\<lparr>or_lastUnhaltedCycle := lastEvSimulatedStartCycle c, or_state := HALTED\<rparr> \<and> lastEvProduced c = None \<and> q = []"
    then show ?thesis by (simp add: or_ordered_def c1_def)
  qed (use o in simp)
  ultimately show ?thesis using c' i t g False by (auto simp: or_inv_def c1_def or_getContentionCycles_def Let_def)
qed

lemma or_reach_inv: "or_reach fuel er phLen ph g cyc c w k \<Longrightarrow> or_inv phLen ph g cyc c w k"
proof (induction rule: or_reach.induct)
  case (init dm w c w' g cyc)
  then show ?case by (auto simp: OOOCoreRecorder_init_def or_inv_def or_getContentionCycles_def or_ordered_def Let_def)
next
  case (env ph g cyc c w k w')
  then show ?case using or_ordered_zle by (auto simp: or_inv_def Let_def)
next
  case (join g cyc c w k cyc' c' w')
  then show ?case using or_join_inv by blast
next
  case (leave g cyc c w k c' w')
  then have a: "or_state c = RUNNING" "addIssueEvent fuel cyc (c\<lparr>or_state := DRAINING\<rparr>, w) = Inr (c', w')"
    by (auto simp: or_notifyLeave_def check_Inr_iff split: option.splits)
  note s = addIssueEvent_same [OF a(2)]
  have i: "or_inv phLen Bound g cyc (c\<lparr>or_state := DRAINING\<rparr>) w k"
    using leave.IH a(1) by (auto simp: or_inv_def or_getContentionCycles_def or_ordered_def Let_def)
  then have "or_ordered (c\<lparr>or_state := DRAINING\<rparr>) w" by (simp add: or_inv_def Let_def)
  then show ?case by (intro or_inv_same [OF i]) (use s in simp_all)
next
  case (access g cyc c w k d r c' w')
  show ?case
  proof (cases "hasRecord (recorders w er)")
    case True
    then have a: "or_recordAccess fuel er cyc d r (c, w) = Inr (c', w')" using access.hyps(3) by (simp add: or_record_def)
    have b: "or_ordered c w" "or_gapCycles c \<le> cyc" "cyc \<le> r"
      using access.IH access.hyps(2,4,5) by (auto simp: or_inv_def Let_def)
    show ?thesis by (intro or_inv_same [OF access.IH]) (use or_recordAccess_inv [OF a b] access.hyps(2) in simp_all)
  next
    case False
    then show ?thesis using access.hyps(3) access.IH by (simp add: or_record_def)
  qed
next
  case (run g cyc c w k cyc')
  then show ?case by (auto simp: or_inv_def Let_def)
next
  case (start g cyc c w k cyc' c' w')
  have o: "or_ordered c w" using start.IH by (simp add: or_inv_def Let_def)
  note s = or_cSimStart_inv [OF start.hyps(2) o]
  have l: "lastEvSimulatedStartCycle c \<le> g + phLen" using start.IH start.hyps(3) by (auto simp: or_inv_def Let_def)
  show ?case using start.IH start.hyps(3) s l by (auto simp: or_inv_def or_same_def or_getContentionCycles_def Let_def)
next
  case (simulate g cyc c w k f e s c' w')
  note s = issue_simulate_inv [OF simulate.hyps(2)]
  have "or_ordered c w" using simulate.IH by (simp add: or_inv_def Let_def)
  then have "or_ordered c w'" using or_ordered_zle ext_zle s by blast
  then have "or_ordered c' w'" using s by (auto simp: or_ordered_def split: if_splits)
  then show ?case using s simulate by (auto simp: or_inv_def or_getContentionCycles_def Let_def)
next
  case (end_phase g cyc c w k cyc' c' w')
  then show ?case using or_cSimEnd_inv by blast
qed


subsection \<open>A concrete core\<close>

text \<open>A core joins at cycle 100000 and runs to cycle 101010; an issue event marks the end of the phase; the weave phase simulates the first
  event 30 cycles late.\<close>

definition oweave1 :: "EventState \<Rightarrow> oweave" where
  "oweave1 s = \<lparr>events = [1 \<mapsto> (TimingEvent_init 0 0 (Some 0) KPlain)\<lparr>minStartCycle := Some 100000, ev_state := s\<rparr>], nextEv = (if s = EV_NONE then 1 else 4),
     domains = [\<lparr>dom_pq = \<lparr>blocks = [], feMap = [], curBlock = 0, elems = 0, nxt = (\<lambda>_. None)\<rparr>, curCycle = 0, dom_prio = 0, queuePrio = 0\<rparr>],
     lastCrossing = (\<lambda>_. (0, None)), recorders = recorders cweave0, limit = 0, lastLimit = 100000, inCSim = False, phaseLength = 1000,
     ev_zll = (\<lambda>e. if e \<le> 1 then 100000 else 101000), resp_done = (\<lambda>_. False)\<rparr>"

definition ocore1 :: "nat option \<Rightarrow> OOOCoreRecorder" where
  "ocore1 e = \<lparr>or_state = (if e = None then HALTED else RUNNING), or_gapCycles = 0, lastEvProduced = e, futureResponses = [], lastEvSimulatedZllStartCycle = 0,
     lastEvSimulatedStartCycle = 0, or_totalGapCycles = 0, or_totalHaltedCycles = (if e = None then 0 else 100000), or_lastUnhaltedCycle = 0, or_domain = 0\<rparr>"

lemma ocore1_join: "\<exists>w' t. or_notifyJoin 1 0 100000 0 (ocore1 None, oweave1 EV_NONE) = Inr (100000, ocore1 (Some 1), w') \<and> nextEv w' = 2 \<and>
  ev_zll w' 1 = 100000 \<and> events w' 1 = Some t \<and> ev_state t = EV_QUEUED \<and> numChildren t = 0 \<and> domain t = Some 0"
  by (simp add: or_notifyJoin_def ocore1_def OOOIssueEvent_def setMinStart_def new_ev_def set_ev_def get_ev_def upd_er_def oweave1_def cweave0_def
      ev_queue_def cs_enqueueSynced_def dom_enqueue_def enqueue_def PQ_BLOCKS_def TimingEvent_init_def aget_def Let_def)

lemma ocore1_start:
  assumes "nextEv w = 2" "ev_zll w 1 = 100000" "events w 1 = Some t" "ev_state t = EV_QUEUED" "numChildren t = 0" "domain t = Some 0"
  shows "\<exists>w'. or_cSimStart 1 100000 1000 101010 (ocore1 (Some 1), w :: oweave) = Inr (101010, ocore1 (Some 2), w') \<and> nextEv w' = 4 \<and>
    ev_zll w' 1 = 100000 \<and> ev_zll w' 2 = 101000"
  using assms
  by (simp add: or_cSimStart_def addIssueEvent_def ocore1_def OOOIssueEvent_def link_issue_def setPreDelay_def setMinStart_def new_ev_def set_ev_def
      get_ev_def upd_er_def addChild_def link_child_def visitChildren_def TimingEvent_init_def DelayEvent_init_def aget_def Let_def)


end
