(* ===== verification/OooSystem.thy ===== *)
theory OooSystem
  imports OooExec OooRec L1Cache
begin

text \<open>
  The out-of-order core on its own caches and recorder: two filter caches in front of two first-level caches, one for instructions and
  one for data, over a memory of fixed latency, and the core's recorder.  This is the instance of \<open>core_memory\<close> on which the
  properties of the core rest.

  The memory leaves no timing records, so the recorder finds none; the core counts cycles in natural numbers, the caches in 64-bit
  words.
\<close>

record core_sys =
  cs_icfg :: cc_cfg
  cs_dcfg :: cc_cfg
  cs_accLat :: u32
  cs_memLat :: u32
  cs_sh :: bool
  cs_lineBits :: nat
  cs_procMask :: u64
  cs_er :: nat
  cs_fuel :: nat

record core_mem =
  cm_l1i :: FilterCache
  cm_l1d :: FilterCache
  cm_rec :: OOOCoreRecorder
  cm_zll :: "nat \<Rightarrow> u64"
  cm_done :: "nat \<Rightarrow> bool"
  cm_world :: "lru SetAssocArray xworld"

definition l1_acc :: "core_sys \<Rightarrow> cc_cfg \<Rightarrow> MemReq \<Rightarrow> lru SetAssocArray xworld \<Rightarrow> (u64 \<times> lru SetAssocArray xworld) res" where
  "l1_acc sy cfg = Cache_access (cs_fuel sy) (sa_table (LRUReplPolicy (cs_sh sy)) id_hash)
     (MESITerminalCC (\<lambda>p. SimpleMemory_access (cs_memLat sy)) cfg) (cc_id cfg) (cs_accLat sy)"

definition sys_fetch :: "core_sys \<Rightarrow> u64 \<Rightarrow> nat \<Rightarrow> core_mem \<Rightarrow> (nat \<times> core_mem) res" where
  "sys_fetch sy a cyc m = rbind (FilterCache_load (l1_acc sy (cs_icfg sy)) (cs_lineBits sy) (cs_procMask sy) 0 a (of_nat cyc) (cm_l1i m, cm_world m))
     (\<lambda>(r, f, w). Inr (unat r, m\<lparr>cm_l1i := f, cm_world := w\<rparr>))"

definition sys_load :: "core_sys \<Rightarrow> u64 \<Rightarrow> nat \<Rightarrow> core_mem \<Rightarrow> (nat \<times> core_mem) res" where
  "sys_load sy a cyc m = rbind (FilterCache_load (l1_acc sy (cs_dcfg sy)) (cs_lineBits sy) (cs_procMask sy) 0 a (of_nat cyc) (cm_l1d m, cm_world m))
     (\<lambda>(r, f, w). Inr (unat r, m\<lparr>cm_l1d := f, cm_world := w\<rparr>))"

definition sys_store :: "core_sys \<Rightarrow> u64 \<Rightarrow> nat \<Rightarrow> core_mem \<Rightarrow> (nat \<times> core_mem) res" where
  "sys_store sy a cyc m = rbind (FilterCache_store (l1_acc sy (cs_dcfg sy)) (cs_lineBits sy) (cs_procMask sy) 0 a (of_nat cyc) (cm_l1d m, cm_world m))
     (\<lambda>(r, f, w). Inr (unat r, m\<lparr>cm_l1d := f, cm_world := w\<rparr>))"

definition sys_weave :: "core_mem \<Rightarrow> oweave" where
  "sys_weave m = weave.extend (xw_weave (cm_world m)) (oweave.fields (cm_zll m) (cm_done m))"

definition sys_record :: "core_sys \<Rightarrow> nat \<Rightarrow> nat \<Rightarrow> nat \<Rightarrow> core_mem \<Rightarrow> core_mem res" where
  "sys_record sy cur disp resp m = rbind (or_record (cs_fuel sy) (cs_er sy) (of_nat cur) (of_nat disp) (of_nat resp) (cm_rec m, sys_weave m))
     (\<lambda>(c, v). Inr (m\<lparr>cm_rec := c, cm_zll := ev_zll v, cm_done := resp_done v, cm_world := (cm_world m)\<lparr>xw_weave := weave.truncate v\<rparr>\<rparr>))"

definition sys_ports :: "core_sys \<Rightarrow> core_mem core_ports" where
  "sys_ports sy = \<lparr>l1i_load = sys_fetch sy, l1d_load = sys_load sy, l1d_store = sys_store sy, cRec_record = sys_record sy\<rparr>"

subsection \<open>What an access of one cache leaves of another, and when it answers\<close>

definition others_same :: "nat \<Rightarrow> ('s, 'x) xworld_scheme \<Rightarrow> ('s, 'x) xworld_scheme \<Rightarrow> bool" where
  "others_same k w w' \<longleftrightarrow> (\<forall>j. j \<noteq> k \<longrightarrow> arrays w' j = arrays w j \<and> bccArray w' j = bccArray w j)"

lemma others_refl [simp]: "others_same k w w"
  by (simp add: others_same_def)

lemma aget_ext: "(\<And>i. aget xs i = aget ys i) \<Longrightarrow> xs = ys"
proof -
  assume a: "\<And>i. aget xs i = aget ys i"
  have l: "i < length xs \<longleftrightarrow> i < length ys" for i using a [of i] by (auto simp: aget_def split: if_splits)
  then have "length xs = length ys" by (metis linorder_neqE_nat less_irrefl)
  moreover have "xs ! i = ys ! i" if "i < length xs" for i using a [of i] that l by (auto simp: aget_def)
  ultimately show ?thesis by (intro nth_equalityI) simp_all
qed

lemma only_line_others:
  assumes "only_line (LineState k i) w w'" "j \<noteq> k"
  shows "bccArray w' j = bccArray w j"
proof (rule aget_ext)
  fix n
  have "LineState j n \<noteq> LineState k i" using assms(2) by simp
  then have "get_st (LineState j n) w' = get_st (LineState j n) w" using assms(1) unfolding only_line_def by blast
  then show "aget (bccArray w' j) n = aget (bccArray w j) n" by simp
qed

text \<open>The largest round trip to a parent.\<close>

definition rtt_max :: "cc_cfg \<Rightarrow> nat" where "rtt_max cfg = foldr (\<lambda>x. max (unat x)) (parentRTTs cfg) 0"

lemma rtt_max_ge: "x \<in> set (parentRTTs cfg) \<Longrightarrow> unat x \<le> rtt_max cfg"
proof -
  have "x \<in> set xs \<Longrightarrow> unat x \<le> foldr (\<lambda>x. max (unat x)) xs 0" for xs :: "u32 list" by (induction xs) (auto simp: le_max_iff_disj)
  then show "x \<in> set (parentRTTs cfg) \<Longrightarrow> unat x \<le> rtt_max cfg" by (simp add: rtt_max_def)
qed

lemma unat_add_le: "unat (a + b :: 'a :: len word) \<le> unat a + unat b"
  by (simp add: unat_word_ariths)

lemma unat_up: "unat (ucast (x :: u32) :: u64) = unat x"
  by (simp add: unsigned_ucast_eq take_bit_word_eq_self) 

lemma fetch_bound:
  assumes "bcc_fetch (\<lambda>p. SimpleMemory_access lat) cfg a l ty s cyc src fl w = Inr (r, w')"
  shows "unat r \<le> unat cyc + unat lat + rtt_max cfg"
proof -
  from assms obtain p resp w1 net where m: "SimpleMemory_access lat (MemReq_init a ty (selfId cfg) (LineState (cc_id cfg) l) cyc (Some (cc_id cfg)) s src fl) w = Inr (resp, w1)"
    and n: "net \<in> set (parentRTTs cfg)" "r = cyc + ucast ((ucast (resp - cyc) :: u32) + net)"
    unfolding bcc_fetch_def rbind_Inr_iff Let_def split_beta aget_Inr_iff by (auto simp: in_set_conv_nth)
  have "resp = cyc + ucast lat" using m by (auto simp: SimpleMemory_access_def res_simps Let_def)
  moreover have "(ucast (ucast lat :: u64) :: u32) = lat" by (rule bit_word_eqI) (simp add: bit_simps)
  ultimately have "r = cyc + ucast (lat + net)" using n(2) by (simp del: unsigned_ucast_eq)
  then have "unat r \<le> unat cyc + unat (ucast (lat + net) :: u64)" using unat_add_le by metis
  also have "unat (ucast (lat + net) :: u64) \<le> unat lat + unat net" using unat_add_le [of lat net] by (simp add: unat_up)
  finally show ?thesis using rtt_max_ge [OF n(1)] by simp
qed

lemma access_bound:
  assumes "bcc_processAccess (\<lambda>p. SimpleMemory_access lat) cfg a l ty cyc src fl w = Inr (r, w')"
  shows "unat r \<le> unat cyc + unat lat + rtt_max cfg"
  using assms
  by (cases ty)
    (auto simp: bcc_processAccess_def res_simps Let_def simp del: get_st.simps set_st.simps dest!: fetch_bound split: if_splits)

lemma allocate_others:
  fixes w :: "('s, 'x) xworld_scheme"
  assumes "Cache_allocate ca (MESITerminalCC (\<lambda>p. SimpleMemory_access lat) cfg) (cc_id cfg) q resp w = Inr (i, w')"
  shows "others_same (cc_id cfg) w w'"
proof -
  let ?k = "cc_id cfg"
  from assms obtain wb s r w1 s1 where
    e: "bcc_processEviction (\<lambda>p. SimpleMemory_access lat) cfg wb i False resp (srcId q) (w\<lparr>arrays := (arrays w)(?k := s)\<rparr>) = Inr (r, w1)"
      "w' = w1\<lparr>arrays := (arrays w1)(?k := s1)\<rparr>"
    by (auto simp: Cache_allocate_def MESITerminalCC_def term_processEviction_def rbind_Inr_iff)
  note m = more_fields(1) [OF bcc_evict_more [OF e(1)]] and o = only_line_others [OF simple_mem.bcc_evict_frame [OF e(1)]]
  show ?thesis using e(2) m o by (simp add: others_same_def)
qed

lemma Cache_stitch_others: "Cache_stitch fuel c src wb w = Inr w' \<Longrightarrow> arrays w' = arrays w \<and> bccArray w' = bccArray w"
  by (cases wb) (auto simp: Cache_stitch_def rbind_Inr_iff Let_def split_beta split: if_splits)

lemma Cache_takeRecord_others: "Cache_takeRecord src w = (t, w') \<Longrightarrow> arrays w' = arrays w \<and> bccArray w' = bccArray w"
  by (auto simp: Cache_takeRecord_def Let_def split: option.splits if_splits prod.splits)

lemma cache_access_frame:
  fixes w :: "('s, 'x) xworld_scheme"
  assumes "Cache_access fuel ca (MESITerminalCC (\<lambda>p. SimpleMemory_access lat) cfg) (cc_id cfg) accLat q0 w = Inr (r, w')"
  shows "unat r \<le> unat (cycle q0) + unat accLat + unat lat + rtt_max cfg \<and> others_same (cc_id cfg) w w'"
proof -
  let ?k = "cc_id cfg"
  have T: "ct_startAccess (MESITerminalCC (\<lambda>p. SimpleMemory_access lat) cfg) = term_startAccess"
      "ct_shouldAllocate (MESITerminalCC (\<lambda>p. SimpleMemory_access lat) cfg) = (\<lambda>q. Inr True)"
      "ct_processAccess (MESITerminalCC (\<lambda>p. SimpleMemory_access lat) cfg) = term_processAccess (\<lambda>p. SimpleMemory_access lat) cfg"
      for cfg :: cc_cfg
    by (simp_all add: MESITerminalCC_def)
  note run = assms [unfolded Cache_access_def rbind_pair check_Inr_iff T]
  from run obtain skip q where st: "term_startAccess q0 w = Inr (skip, q)" by blast
  have c: "cycle q = cycle q0" using st by (auto simp: term_startAccess_def startAccess_def res_simps)
  show ?thesis
  proof (cases skip)
    case True
    then have "r = cycle q" "w' = w" using run st by auto
    then show ?thesis using c by (simp add: others_same_def)
  next
    case False
    from run [unfolded st] have
      "rbind (Cache_lookup ca ?k (lineAddr q) q (IsGet (acctype q)) w) (\<lambda>(line, w1).
         let resp = cycle q + ucast accLat in
         rbind (case line of Some l \<Rightarrow> Inr (Some l, w1)
                | None \<Rightarrow> rbind (Inr True) (\<lambda>alloc.
                    if alloc then rbind (Cache_allocate ca (MESITerminalCC (\<lambda>p. SimpleMemory_access lat) cfg) ?k q resp w1) (\<lambda>(l, w2). Inr (Some l, w2))
                    else Inr (None, w1))) (\<lambda>(lineId, w2).
         let (wbAcc, w3) = Cache_takeRecord (srcId q) w2 in
         rbind (term_processAccess (\<lambda>p. SimpleMemory_access lat) cfg q lineId resp w3) (\<lambda>(resp', w4).
         rbind (Cache_stitch fuel (cycle q) (srcId q) wbAcc w4) (\<lambda>w5. Inr (resp', w5))))) = Inr (r, w')"
      using False by (elim exE conjE) (simp only: sum.inject prod.inject if_False)
    then obtain line w1 lineId w2 where
      l: "Cache_lookup ca ?k (lineAddr q) q (IsGet (acctype q)) w = Inr (line, w1)"
      and a: "(case line of Some l \<Rightarrow> Inr (Some l, w1)
                | None \<Rightarrow> rbind (Inr True) (\<lambda>alloc.
                    if alloc then rbind (Cache_allocate ca (MESITerminalCC (\<lambda>p. SimpleMemory_access lat) cfg) ?k q (cycle q + ucast accLat) w1) (\<lambda>(l, w2). Inr (Some l, w2))
                    else Inr (None, w1))) = Inr (lineId, w2)"
      and run2: "(let (wbAcc, w3) = Cache_takeRecord (srcId q) w2 in
         rbind (term_processAccess (\<lambda>p. SimpleMemory_access lat) cfg q lineId (cycle q + ucast accLat) w3) (\<lambda>(resp', w4).
         rbind (Cache_stitch fuel (cycle q) (srcId q) wbAcc w4) (\<lambda>w5. Inr (resp', w5)))) = Inr (r, w')"
      unfolding rbind_pair Let_def by blast
    have o1: "others_same ?k w w1" using l by (auto simp: Cache_lookup_def rbind_Inr_iff others_same_def)
    have o2: "others_same ?k w1 w2"
      using a by (cases line) (auto simp: rbind_Inr_iff dest!: allocate_others)
    obtain wbAcc w3 where t: "Cache_takeRecord (srcId q) w2 = (wbAcc, w3)" by (metis surj_pair)
    from run2 obtain w4 where p: "term_processAccess (\<lambda>p. SimpleMemory_access lat) cfg q lineId (cycle q + ucast accLat) w3 = Inr (r, w4)"
      and s: "Cache_stitch fuel (cycle q) (srcId q) wbAcc w4 = Inr w'"
      unfolding t Let_def prod.case rbind_pair by (auto simp: rbind_Inr_iff)
    from p obtain i where p: "bcc_processAccess (\<lambda>p. SimpleMemory_access lat) cfg (lineAddr q) i (acctype q) (cycle q + ucast accLat) (srcId q) (flags q) w3 = Inr (r, w4)"
      by (auto simp: term_processAccess_def split: option.splits)
    have o4: "others_same ?k w3 w4"
      using only_line_others [OF simple_mem.bcc_access_frame [OF p]] more_fields(1) [OF bcc_access_more [OF p]] by (simp add: others_same_def)
    have "others_same ?k w w'"
      using o1 o2 o4 Cache_takeRecord_others [OF t] Cache_stitch_others [OF s] by (simp add: others_same_def)
    moreover have "unat (cycle q + ucast accLat) \<le> unat (cycle q) + unat accLat"
      using unat_add_le [of "cycle q" "ucast accLat"] by (simp add: unat_up)
    ultimately show ?thesis using access_bound [OF p] c by simp
  qed
qed

subsection \<open>The filter caches\<close>

text \<open>No line becomes available after \<open>B\<close>.\<close>

definition avail_le :: "nat \<Rightarrow> FilterCache \<Rightarrow> bool" where
  "avail_le B f \<longleftrightarrow> (\<forall>e \<in> set (filterArray f). unat (availCycle e) \<le> B)"

lemma avail_le_mono: "avail_le B f \<Longrightarrow> B \<le> B' \<Longrightarrow> avail_le B' f"
  by (auto simp: avail_le_def)

definition l1_lat :: "core_sys \<Rightarrow> cc_cfg \<Rightarrow> nat" where
  "l1_lat sy cfg = unat (cs_accLat sy) + unat (cs_memLat sy) + rtt_max cfg"

lemma avail_update: "avail_le B f \<Longrightarrow> unat (availCycle e) \<le> B \<Longrightarrow> avail_le B (f\<lparr>filterArray := (filterArray f)[i := e]\<rparr>)"
  using set_update_subset_insert [of "filterArray f" i e] by (auto simp: avail_le_def)

lemma replace_frame:
  assumes "FilterCache_replace (l1_acc sy cfg) pm 0 v i isLoad cyc (f, w) = Inr (r, f', w')" "avail_le B f" "unat cyc \<le> B"
  shows "unat r \<le> B + l1_lat sy cfg \<and> avail_le (B + l1_lat sy cfg) f' \<and> others_same (cc_id cfg) w w'"
proof -
  let ?w = "w\<lparr>temps := (temps w)(0 := I)\<rparr>"
  from assms(1) obtain e where acc: "l1_acc sy cfg (filter_req (pm OR v) isLoad 0 cyc f) ?w = Inr (r, w')"
    and i: "i < length (filterArray f)" "filterArray f ! i = e"
    and f': "f' = f\<lparr>filterArray := (filterArray f)[i := e\<lparr>wrAddr := (if isLoad then - 1 else v), rdAddr := v, availCycle := (if rdAddr e \<noteq> v then r else availCycle e)\<rparr>]\<rparr>"
    by (auto simp: FilterCache_replace_def res_simps Let_def)
  note fr = cache_access_frame [OF acc [unfolded l1_acc_def]]
  have r: "unat r \<le> B + l1_lat sy cfg" using fr assms(3) by (simp add: filter_req_def l1_lat_def)
  have "unat (availCycle e) \<le> B" using assms(2) i by (auto simp: avail_le_def)
  then have "avail_le (B + l1_lat sy cfg) f'"
    unfolding f' using r by (intro avail_update avail_le_mono [OF assms(2)]) simp_all
  then show ?thesis using r fr by (simp add: others_same_def)
qed

lemma filter_load_frame:
  assumes "FilterCache_load (l1_acc sy cfg) lb pm 0 a cyc (f, w) = Inr (r, f', w')" "avail_le B f" "unat cyc \<le> B"
  shows "unat r \<le> B + l1_lat sy cfg \<and> avail_le (B + l1_lat sy cfg) f' \<and> others_same (cc_id cfg) w w'"
proof -
  let ?i = "filter_idx (drop_bit lb a) f"
  from assms(1) have i: "?i < length (filterArray f)" by (auto simp: FilterCache_load_def res_simps Let_def)
  then have av: "unat (availCycle (filterArray f ! ?i)) \<le> B" using assms(2) by (auto simp: avail_le_def)
  show ?thesis
  proof (cases "drop_bit lb a = rdAddr (filterArray f ! ?i)")
    case True
    then have "r = max cyc (availCycle (filterArray f ! ?i))" "f' = f\<lparr>fGETSHit := fGETSHit f + 1\<rparr>" "w' = w"
      using assms(1) i by (auto simp: FilterCache_load_def res_simps Let_def)
    then show ?thesis using av assms(2,3) by (auto simp: max_def others_same_def avail_le_def)
  next
    case False
    then have "FilterCache_replace (l1_acc sy cfg) pm 0 (drop_bit lb a) ?i True cyc (f, w) = Inr (r, f', w')"
      using assms(1) i by (auto simp: FilterCache_load_def res_simps Let_def)
    then show ?thesis using replace_frame assms(2,3) by blast
  qed
qed

lemma filter_store_frame:
  assumes "FilterCache_store (l1_acc sy cfg) lb pm 0 a cyc (f, w) = Inr (r, f', w')" "avail_le B f" "unat cyc \<le> B"
  shows "unat r \<le> B + l1_lat sy cfg \<and> avail_le (B + l1_lat sy cfg) f' \<and> others_same (cc_id cfg) w w'"
proof -
  let ?i = "filter_idx (drop_bit lb a) f"
  from assms(1) have i: "?i < length (filterArray f)" by (auto simp: FilterCache_store_def res_simps Let_def)
  then have av: "unat (availCycle (filterArray f ! ?i)) \<le> B" using assms(2) by (auto simp: avail_le_def)
  show ?thesis
  proof (cases "drop_bit lb a = wrAddr (filterArray f ! ?i)")
    case True
    then have "r = max cyc (availCycle (filterArray f ! ?i))" "f' = f\<lparr>fGETXHit := fGETXHit f + 1\<rparr>" "w' = w"
      using assms(1) i by (auto simp: FilterCache_store_def res_simps Let_def)
    then show ?thesis using av assms(2,3) by (auto simp: max_def others_same_def avail_le_def)
  next
    case False
    then have "FilterCache_replace (l1_acc sy cfg) pm 0 (drop_bit lb a) ?i False cyc (f, w) = Inr (r, f', w')"
      using assms(1) i by (auto simp: FilterCache_store_def res_simps Let_def)
    then show ?thesis using replace_frame assms(2,3) by blast
  qed
qed

text \<open>The filter in front of another cache stays consistent.\<close>

lemma filter_ok_other:
  fixes w w' :: "(lru SetAssocArray, 'x) xworld_scheme"
  assumes "filter_ok pm k f w" "others_same j w w'" "j \<noteq> k" "xw_weave w' = xw_weave w" "xw_rec w' = xw_rec w"
  shows "filter_ok pm k f w'"
proof -
  have e: "arrays w' k = arrays w k" "bccArray w' k = bccArray w k" using assms(2,3) by (auto simp: others_same_def)
  have "sa_line k w' = sa_line k w" using e by (simp add: line_state_def fun_eq_iff split: option.split)
  then show ?thesis using assms(1,4,5) e by (simp add: filter_ok_def lru_l1_ok_def no_record_def cong: option.case_cong)
qed

subsection \<open>The contract\<close>

definition sys_cfg_ok :: "core_sys \<Rightarrow> bool" where
  "sys_cfg_ok sy \<longleftrightarrow> 0 < cs_lineBits sy \<and> cs_lineBits sy \<le> 32 \<and> (\<exists>p. cs_procMask sy = push_bit (64 - cs_lineBits sy) p) \<and>
     parentRTTs (cs_icfg sy) \<noteq> [] \<and> parentRTTs (cs_dcfg sy) \<noteq> [] \<and> 0 < cs_memLat sy \<and> cc_id (cs_icfg sy) \<noteq> cc_id (cs_dcfg sy)"

definition sys_ok :: "core_sys \<Rightarrow> nat \<Rightarrow> core_mem \<Rightarrow> bool" where
  "sys_ok sy B m \<longleftrightarrow> sys_cfg_ok sy \<and> filter_ok (cs_procMask sy) (cc_id (cs_icfg sy)) (cm_l1i m) (cm_world m) \<and>
     filter_ok (cs_procMask sy) (cc_id (cs_dcfg sy)) (cm_l1d m) (cm_world m) \<and> avail_le B (cm_l1i m) \<and> avail_le B (cm_l1d m) \<and>
     \<not> hasRecord (recorders (xw_weave (cm_world m)) (cs_er sy))"

definition sys_legal :: "core_sys \<Rightarrow> u64 \<Rightarrow> bool" where "sys_legal sy a \<longleftrightarrow> drop_bit (cs_lineBits sy) a \<noteq> 0"

definition sys_lat :: "core_sys \<Rightarrow> nat" where "sys_lat sy = max (l1_lat sy (cs_icfg sy)) (l1_lat sy (cs_dcfg sy))"

definition sys_top :: nat where "sys_top = 2 ^ 64 - 2 ^ 33"

lemma of_nat_cyc: "cyc \<le> B \<Longrightarrow> B \<le> sys_top \<Longrightarrow> unat (of_nat cyc :: u64) = cyc \<and> unat (of_nat cyc :: u64) + 2 ^ 33 \<le> 2 ^ 64"
  by (simp add: sys_top_def unsigned_of_nat take_bit_eq_mod)

lemma sys_load_ok:
  assumes m: "sys_ok sy B m" and a: "sys_legal sy a" and c: "cyc \<le> B" "B \<le> sys_top"
  shows "\<exists>r m'. sys_load sy a cyc m = Inr (r, m') \<and> cyc \<le> r \<and> r \<le> B + sys_lat sy \<and> sys_ok sy (B + sys_lat sy) m'"
    "\<exists>r m'. sys_store sy a cyc m = Inr (r, m') \<and> cyc \<le> r \<and> r \<le> B + sys_lat sy \<and> sys_ok sy (B + sys_lat sy) m'"
    "\<exists>r m'. sys_fetch sy a cyc m = Inr (r, m') \<and> cyc \<le> r \<and> r \<le> B + sys_lat sy \<and> sys_ok sy (B + sys_lat sy) m'"
proof -
  note u = of_nat_cyc [OF c]
  have uB: "unat (of_nat cyc :: u64) \<le> B" using u c by simp
  obtain p where g: "0 < cs_lineBits sy" "cs_lineBits sy \<le> 32" "cs_procMask sy = push_bit (64 - cs_lineBits sy) p"
    "parentRTTs (cs_icfg sy) \<noteq> []" "parentRTTs (cs_dcfg sy) \<noteq> []" "0 < cs_memLat sy" "cc_id (cs_icfg sy) \<noteq> cc_id (cs_dcfg sy)"
    using m by (auto simp: sys_ok_def sys_cfg_ok_def)
  have k: "filter_ok (cs_procMask sy) (cc_id (cs_icfg sy)) (cm_l1i m) (cm_world m)" "filter_ok (cs_procMask sy) (cc_id (cs_dcfg sy)) (cm_l1d m) (cm_world m)"
    "avail_le B (cm_l1i m)" "avail_le B (cm_l1d m)" "\<not> hasRecord (recorders (xw_weave (cm_world m)) (cs_er sy))" "sys_cfg_ok sy"
    using m by (simp_all add: sys_ok_def)
  note d = filter_access_ok [OF g(1-3) k(2) a [unfolded sys_legal_def] g(5,6) conjunct2 [OF u], of "cs_fuel sy" "cs_sh sy" "cs_accLat sy" 0, folded l1_acc_def]
  note i = filter_access_ok [OF g(1-3) k(1) a [unfolded sys_legal_def] g(4,6) conjunct2 [OF u], of "cs_fuel sy" "cs_sh sy" "cs_accLat sy" 0, folded l1_acc_def]
  have lat: "l1_lat sy (cs_icfg sy) \<le> sys_lat sy" "l1_lat sy (cs_dcfg sy) \<le> sys_lat sy" by (simp_all add: sys_lat_def)
  have le: "cyc \<le> unat r" if "of_nat cyc \<le> r" for r :: u64 using that u by (simp add: word_le_nat_alt)
  have dat: "sys_ok sy (B + sys_lat sy) (m\<lparr>cm_l1d := f, cm_world := w\<rparr>)"
    if "filter_ok (cs_procMask sy) (cc_id (cs_dcfg sy)) f w" "avail_le (B + l1_lat sy (cs_dcfg sy)) f" "others_same (cc_id (cs_dcfg sy)) (cm_world m) w"
      "xw_weave w = xw_weave (cm_world m)" "xw_rec w = xw_rec (cm_world m)" for f w
    using filter_ok_other [OF k(1) that(3) _ that(4,5)] g(7) k that(1,4) avail_le_mono [OF that(2)] avail_le_mono [OF k(3)] lat by (simp add: sys_ok_def)
  have ins: "sys_ok sy (B + sys_lat sy) (m\<lparr>cm_l1i := f, cm_world := w\<rparr>)"
    if "filter_ok (cs_procMask sy) (cc_id (cs_icfg sy)) f w" "avail_le (B + l1_lat sy (cs_icfg sy)) f" "others_same (cc_id (cs_icfg sy)) (cm_world m) w"
      "xw_weave w = xw_weave (cm_world m)" "xw_rec w = xw_rec (cm_world m)" for f w
    using filter_ok_other [OF k(2) that(3) _ that(4,5)] g(7) k that(1,4) avail_le_mono [OF that(2)] avail_le_mono [OF k(4)] lat by (simp add: sys_ok_def)
  from d obtain r f w where l: "FilterCache_load (l1_acc sy (cs_dcfg sy)) (cs_lineBits sy) (cs_procMask sy) 0 a (of_nat cyc) (cm_l1d m, cm_world m) = Inr (r, f, w)"
    "of_nat cyc \<le> r" "filter_ok (cs_procMask sy) (cc_id (cs_dcfg sy)) f w" "xw_weave w = xw_weave (cm_world m)" "xw_rec w = xw_rec (cm_world m)" by blast
  note fr = filter_load_frame [OF l(1) k(4) uB]
  show "\<exists>r m'. sys_load sy a cyc m = Inr (r, m') \<and> cyc \<le> r \<and> r \<le> B + sys_lat sy \<and> sys_ok sy (B + sys_lat sy) m'"
    using l(1) le [OF l(2)] fr lat(2) dat [OF l(3) _ _ l(4,5)] by (auto simp: sys_load_def)
  from d obtain r f w where l: "FilterCache_store (l1_acc sy (cs_dcfg sy)) (cs_lineBits sy) (cs_procMask sy) 0 a (of_nat cyc) (cm_l1d m, cm_world m) = Inr (r, f, w)"
    "of_nat cyc \<le> r" "filter_ok (cs_procMask sy) (cc_id (cs_dcfg sy)) f w" "xw_weave w = xw_weave (cm_world m)" "xw_rec w = xw_rec (cm_world m)" by blast
  note fr = filter_store_frame [OF l(1) k(4) uB]
  show "\<exists>r m'. sys_store sy a cyc m = Inr (r, m') \<and> cyc \<le> r \<and> r \<le> B + sys_lat sy \<and> sys_ok sy (B + sys_lat sy) m'"
    using l(1) le [OF l(2)] fr lat(2) dat [OF l(3) _ _ l(4,5)] by (auto simp: sys_store_def)
  from i obtain r f w where l: "FilterCache_load (l1_acc sy (cs_icfg sy)) (cs_lineBits sy) (cs_procMask sy) 0 a (of_nat cyc) (cm_l1i m, cm_world m) = Inr (r, f, w)"
    "of_nat cyc \<le> r" "filter_ok (cs_procMask sy) (cc_id (cs_icfg sy)) f w" "xw_weave w = xw_weave (cm_world m)" "xw_rec w = xw_rec (cm_world m)" by blast
  note fr = filter_load_frame [OF l(1) k(3) uB]
  show "\<exists>r m'. sys_fetch sy a cyc m = Inr (r, m') \<and> cyc \<le> r \<and> r \<le> B + sys_lat sy \<and> sys_ok sy (B + sys_lat sy) m'"
    using l(1) le [OF l(2)] fr lat(1) ins [OF l(3) _ _ l(4,5)] by (auto simp: sys_fetch_def)
qed

text \<open>There is no record to take: the recorder leaves everything as it is.\<close>

lemma sys_record_ok:
  assumes "sys_ok sy B m"
  shows "sys_record sy cur disp resp m = Inr m"
proof -
  have w: "weave.truncate (sys_weave m) = xw_weave (cm_world m)" "ev_zll (sys_weave m) = cm_zll m" "resp_done (sys_weave m) = cm_done m"
    "recorders (sys_weave m) = recorders (xw_weave (cm_world m))"
    by (cases "xw_weave (cm_world m)"; simp add: sys_weave_def weave.defs oweave.defs)+
  show ?thesis using assms w by (simp add: sys_record_def or_record_def sys_ok_def)
qed

interpretation ooo_sys: core_memory "sys_ports sy" "sys_ok sy" "sys_legal sy" "sys_lat sy" sys_top
proof (unfold_locales, goal_cases)
  case 4
  then show ?case using sys_record_ok by (simp add: sys_ports_def)
next
  case 5
  then show ?case using avail_le_mono by (auto simp: sys_ok_def)
qed (simp_all add: sys_ports_def sys_load_ok)

subsection \<open>A basic block on the core\<close>



subsection \<open>A concrete core\<close>

definition sys_ex :: core_sys where
  "sys_ex = \<lparr>cs_icfg = cfg0, cs_dcfg = cfg0\<lparr>cc_id := 1\<rparr>, cs_accLat = 4, cs_memLat = 100, cs_sh = False, cs_lineBits = 6, cs_procMask = 0,
     cs_er = 0, cs_fuel = 5\<rparr>"

definition mem_ex :: core_mem where
  "mem_ex = \<lparr>cm_l1i = filter1, cm_l1d = filter1, cm_rec = fst (OOOCoreRecorder_init 0 0 (\<lparr>events = (\<lambda>_. None), nextEv = 1, domains = [],
       lastCrossing = (\<lambda>_. (0, None)), recorders = recorders weave0, limit = 0, lastLimit = 0, inCSim = False, phaseLength = 1000,
       ev_zll = (\<lambda>_. 0), resp_done = (\<lambda>_. False)\<rparr> :: oweave)),
     cm_zll = (\<lambda>_. 0), cm_done = (\<lambda>_. False), cm_world = xw0\<rparr>"

text \<open>A load and an addition that uses its result.\<close>

definition uops_ex :: "DynUop list" where
  "uops_ex = [\<lparr>uop_rs0 = 1, uop_rs1 = 0, uop_rd0 = 2, uop_rd1 = 0, uop_lat = 0, uop_decCycle = 0, uop_type = UOP_LOAD, uop_portMask = 12, uop_extraSlots = 0\<rparr>,
     \<lparr>uop_rs0 = 2, uop_rs1 = 1, uop_rd0 = 1, uop_rd1 = 3, uop_lat = 1, uop_decCycle = 0, uop_type = UOP_GENERAL, uop_portMask = 35, uop_extraSlots = 0\<rparr>]"

definition bbl_ex :: BblInfo where "bbl_ex = \<lparr>bbl_instrs = 2, bbl_bytes = 16, bbl_approxInstrs = 0, bbl_uop = uops_ex\<rparr>"

definition core_junk :: OOOCore where
  "core_junk = \<lparr>phaseEndCycle = 0, oc_curCycle = 0, regScoreboard = [], prevBbl = None, loadAddrs = replicate 256 0x3000, storeAddrs = replicate 256 0,
     loads = 0, stores = 0, lastStoreCommitCycle = 0, lastStoreAddrCommitCycle = 0, loadQueue = ReorderBuffer_init 32, storeQueue = ReorderBuffer_init 32,
     curCycleRFReads = 0, curCycleIssuedUops = 0, insWindow = WindowStructure_init 1024 0, rob = ReorderBuffer_init 128,
     branchPred = BranchPredictor_init 11 14, branchPc = 0, branchTaken = False, branchTakenNpc = 0x1000, branchNotTakenNpc = 0x1000, decodeCycle = 0,
     uopQueue = CycleQueue_init 28, oc_instrs = 0, oc_uops = 0, oc_bbls = 0, oc_approxInstrs = 0, mispredBranches = 0, condBranches = 0, fwdArray = []\<rparr>"

definition core_ex :: OOOCore where
  "core_ex = (OOOCore_init 4 10000 core_junk)\<lparr>prevBbl := Some bbl_ex, loads := 1, branchPc := 0x2000\<rparr>"

lemma core_ex_ok: "core_ok 4 7 core_ex"
proof -
  have "win_inv 1024 36 0 (0, WindowStructure_init 1024 0)" by (rule window_init_inv) simp_all
  then have "\<exists>K \<le> 7. win_inv 1024 36 K (oc_curCycle core_ex, insWindow core_ex)"
    by (intro exI [of _ 0]) (simp add: core_ex_def OOOCore_init_def core_junk_def WindowStructure_init_def)
  moreover have "ring_ok 32 7 (loadQueue core_ex)" "ring_ok 32 7 (storeQueue core_ex)" "ring_ok 128 7 (rob core_ex)" "queue_ok 28 7 (uopQueue core_ex)"
    "bp_shape (branchPred core_ex)"
    by (simp_all add: core_ex_def OOOCore_init_def ring_ok_def ReorderBuffer_init_def queue_ok_def CycleQueue_init_def bp_shape_def BranchPredictor_init_def)
  ultimately show ?thesis by (simp add: core_ok_def) (simp add: core_ex_def OOOCore_init_def core_junk_def)
qed

lemma mem_ex_ok: "sys_ok sys_ex 7 mem_ex"
proof -
  have "sys_cfg_ok sys_ex" by (simp add: sys_cfg_ok_def sys_ex_def cfg0_def) (metis push_bit_of_0)
  moreover have "filter_ok 0 1 filter1 xw0"
  proof -
    have "lru_l1_ok id_hash 1 xw0" using xw0_ok by (simp add: lru_l1_ok_def) (simp add: xw0_def)
    moreover have "sa_line 1 xw0 = sa_line 0 xw0" by (simp add: line_state_def fun_eq_iff xw0_def split: option.split)
    moreover have "arrays xw0 1 = arrays xw0 0" by (simp add: xw0_def)
    ultimately show ?thesis using filter1_ok by (simp add: filter_ok_def)
  qed
  moreover have "avail_le 7 filter1" by (simp add: avail_le_def filter1_def)
  ultimately show ?thesis using filter1_ok
    by (simp add: sys_ok_def) (simp add: sys_ex_def mem_ex_def cfg0_def xw0_def weave0_def hasRecord_def)
qed

lemma legal_ex: "64 \<le> unat k \<Longrightarrow> sys_legal sys_ex k"
proof -
  assume k: "64 \<le> unat k"
  have "unat (drop_bit 6 k) = unat k div 64" by (simp add: drop_bit_eq_div unat_div)
  then have "unat (drop_bit 6 k) \<noteq> 0" using k by (simp add: div_eq_0_iff)
  then show ?thesis by (auto simp: sys_legal_def sys_ex_def)
qed

lemma ex_facts:
  "accesses_ok (sys_legal sys_ex) core_ex" "uops_ok 4 uops_ex" "block_matches uops_ex core_ex" "branch_legal (sys_legal sys_ex) 64 core_ex"
  "code_legal (sys_legal sys_ex) 64 0x1000 16" "sys_lat sys_ex = 107" "prevBbl core_ex = Some bbl_ex" "oc_curCycle core_ex = 0"
proof -
  have "sys_legal sys_ex 0x3000" by (rule legal_ex) simp
  then show "accesses_ok (sys_legal sys_ex) core_ex" by (simp add: accesses_ok_def core_ex_def OOOCore_init_def core_junk_def)
  show "branch_legal (sys_legal sys_ex) 64 core_ex"
  proof -
    have "sys_legal sys_ex (0x1000 + of_nat (64 * j))" if "j < 5" for j
    proof -
      have "j \<in> {0, 1, 2, 3, 4}" using that by auto
      then show ?thesis by (intro legal_ex) auto
    qed
    then show ?thesis by (simp add: branch_legal_def core_ex_def OOOCore_init_def core_junk_def)
  qed
  show "code_legal (sys_legal sys_ex) 64 0x1000 16" by (auto simp: code_legal_def intro: legal_ex)
qed (simp_all add: uops_ok_def uops_ex_def uop_ok_def block_matches_def count_type_def core_ex_def OOOCore_init_def core_junk_def sys_lat_def l1_lat_def
    rtt_max_def sys_ex_def cfg0_def)



end
